(* ===== verification/Cedar_Prelude.thy ===== *)
theory Cedar_Prelude
  imports Main "HOL-Library.Word" "HOL-Library.Char_ord"
begin

text \<open>
  Shared vocabulary of the development: bytes and C strings, the \<open>errno\<close> values the modules
  return, decimal and hexadecimal printing as \<^verbatim>\<open>snprintf\<close> does it, little-endian fields as
  Zephyr's \<^verbatim>\<open>sys_get_le16\<close> family reads and writes them, the error monad used for early
  returns, first-match search over fixed pools, and the interface of a component driven by a
  sequence of operations (locale \<open>op_machine\<close>).
\<close>

unbundle bit_operations_syntax

named_theorems cedar_defs \<open>definitions a component unfolds in most of its proofs\<close>
named_theorems cedar_inv \<open>one-operation invariant preservation facts\<close>

section \<open>Bytes, C strings and errno\<close>

type_synonym byte = "8 word"
type_synonym u16 = "16 word"
type_synonym u32 = "32 word"
type_synonym u64 = "64 word"

abbreviation NUL :: char where "NUL \<equiv> CHR 0x00"

text \<open>The negative returns of the modules, without their sign; \<open>EOTHER\<close> is any other value, which only
  injected functions return.\<close>

datatype errno = EINVAL | ENOENT | ENOMEM | ENOSPC | EPERM | EBUSY | EAGAIN | EIO | ETIMEDOUT | ESTALE
  | ENODATA | ENOTSUP | EOVERFLOW | EBADMSG | EACCES | ERANGE | ENAMETOOLONG | EFBIG | EEXIST | ECANCELED | E2BIG
  | ENODEV | EFAULT | EDOM | EBADF
  | EOTHER nat

text \<open>
  A C string is the list of its characters before the terminator; reading at the end of the
  remaining text gives the terminator.
\<close>

definition peek :: "string \<Rightarrow> char" where
  "peek s = (case s of [] \<Rightarrow> NUL | c # _ \<Rightarrow> c)"

lemma peek_simps [simp]: "peek [] = NUL" "peek (c # s) = c"
  by (simp_all add: peek_def)

text \<open>The bytes of a character constant table such as \<^verbatim>\<open>"ESP-ROM:"\<close>.\<close>

definition bytes_of :: "string \<Rightarrow> byte list" where
  "bytes_of s = map of_char s"

lemma length_bytes_of [simp]: "length (bytes_of s) = length s"
  by (simp add: bytes_of_def)

text \<open>What \<^verbatim>\<open>strlen\<close>, \<^verbatim>\<open>strcmp\<close> and \<^verbatim>\<open>strncpy\<close> see of a byte array.\<close>

definition cstr :: "byte list \<Rightarrow> byte list" where
  "cstr bs = takeWhile (\<lambda>b. b \<noteq> 0) bs"

text \<open>\<^verbatim>\<open>memcpy(&buf[off], src, n)\<close>.\<close>

definition blit :: "nat \<Rightarrow> byte list \<Rightarrow> byte list \<Rightarrow> byte list" where
  "blit off src buf = take off buf @ src @ drop (off + length src) buf"

lemma length_blit: "off + length src \<le> length buf \<Longrightarrow> length (blit off src buf) = length buf"
  by (simp add: blit_def)

lemma nth_blit:
  "off + length src \<le> length buf \<Longrightarrow> i < length buf \<Longrightarrow>
   blit off src buf ! i = (if off \<le> i \<and> i < off + length src then src ! (i - off) else buf ! i)"
  by (auto simp: blit_def nth_append min_def)

section \<open>The error monad\<close>

text \<open>\<open>Inl\<close> is an early return with an error, \<open>Inr\<close> carries on.\<close>

fun ebind :: "'e + 'a \<Rightarrow> ('a \<Rightarrow> 'e + 'b) \<Rightarrow> 'e + 'b" where
  "ebind (Inl e) f = Inl e"
| "ebind (Inr a) f = f a"

lemma ebind_Inr_iff: "ebind m f = Inr b \<longleftrightarrow> (\<exists>a. m = Inr a \<and> f a = Inr b)"
  by (cases m) auto

lemma ebind_assoc: "ebind (ebind m f) g = ebind m (\<lambda>a. ebind (f a) g)"
  by (cases m) auto

section \<open>Printing numbers\<close>

definition digit_char :: "nat \<Rightarrow> char" where
  "digit_char d = char_of (48 + d)"

fun nat_dec :: "nat \<Rightarrow> string" where
  "nat_dec n = (if n < 10 then [digit_char n] else nat_dec (n div 10) @ [digit_char (n mod 10)])"

declare nat_dec.simps [simp del]

definition hex_char :: "nat \<Rightarrow> char" where
  "hex_char d = (if d < 10 then char_of (48 + d) else char_of (87 + d))"

text \<open>\<open>hex_fixed k n\<close> is the low \<open>k\<close> hexadecimal digits of \<open>n\<close>, most significant first.\<close>

fun hex_fixed :: "nat \<Rightarrow> nat \<Rightarrow> string" where
  "hex_fixed 0 n = []"
| "hex_fixed (Suc k) n = hex_fixed k (n div 16) @ [hex_char (n mod 16)]"

text \<open>\<^verbatim>\<open>%08x\<close> of a \<^verbatim>\<open>uint32_t\<close>.\<close>

definition hex8 :: "u32 \<Rightarrow> string" where
  "hex8 w = hex_fixed 8 (unat w)"

lemma length_hex_fixed [simp]: "length (hex_fixed k n) = k"
  by (induction k arbitrary: n) auto

lemma length_hex8 [simp]: "length (hex8 w) = 8"
  by (simp add: hex8_def)

lemma of_char_digit_char: "d < 10 \<Longrightarrow> (of_char (digit_char d) :: nat) = 48 + d"
  by (simp add: digit_char_def)

lemma of_char_hex_char:
  "d < 16 \<Longrightarrow> (of_char (hex_char d) :: nat) = (if d < 10 then 48 + d else 87 + d)"
  by (simp add: hex_char_def)

lemma hex_char_inj:
  assumes "d < 16" "e < 16" "hex_char d = hex_char e"
  shows "d = e"
proof -
  have "(of_char (hex_char d) :: nat) = of_char (hex_char e)"
    using assms(3) by simp
  then show ?thesis
    using assms(1,2) by (simp add: of_char_hex_char split: if_splits)
qed

lemma hex_fixed_inj:
  "m < 16 ^ k \<Longrightarrow> n < 16 ^ k \<Longrightarrow> hex_fixed k m = hex_fixed k n \<Longrightarrow> m = n"
proof (induction k arbitrary: m n)
  case 0
  then show ?case by simp
next
  case (Suc k)
  from Suc.prems(3) have h: "hex_fixed k (m div 16) = hex_fixed k (n div 16)"
    and d: "hex_char (m mod 16) = hex_char (n mod 16)" by simp_all
  from Suc.prems(1,2) have "m div 16 < 16 ^ k" "n div 16 < 16 ^ k"
    by (simp_all add: less_mult_imp_div_less mult.commute)
  with h have "m div 16 = n div 16" by (blast intro: Suc.IH)
  moreover have "m mod 16 = n mod 16"
    using hex_char_inj [OF _ _ d] by simp
  ultimately show ?case by (metis div_mult_mod_eq)
qed

lemma hex8_inj: "hex8 v = hex8 w \<Longrightarrow> v = w"
proof -
  assume "hex8 v = hex8 w"
  moreover have "unat v < 16 ^ 8" "unat w < 16 ^ 8"
    using unsigned_less [of v] unsigned_less [of w] by simp_all
  ultimately have "unat v = unat w"
    unfolding hex8_def by (blast intro: hex_fixed_inj)
  then show "v = w" by (rule unsigned_word_eqI)
qed

lemma unat_of_nat_small: "n < 2 ^ LENGTH('a) \<Longrightarrow> unat (of_nat n :: 'a::len word) = n"
  by (simp add: unat_of_nat)

section \<open>Little-endian fields\<close>

text \<open>
  \<open>put_le k n\<close> is the \<open>k\<close>-byte little-endian spelling of \<open>n\<close> (as \<^verbatim>\<open>sys_put_le16/32/64\<close>
  store it), \<open>get_le\<close> reads such bytes back.
\<close>

fun put_le :: "nat \<Rightarrow> nat \<Rightarrow> byte list" where
  "put_le 0 n = []"
| "put_le (Suc k) n = of_nat (n mod 256) # put_le k (n div 256)"

fun get_le :: "byte list \<Rightarrow> nat" where
  "get_le [] = 0"
| "get_le (b # bs) = unat b + 256 * get_le bs"

lemma length_put_le [simp]: "length (put_le k n) = k"
  by (induction k arbitrary: n) auto

lemma get_put_le: "n < 256 ^ k \<Longrightarrow> get_le (put_le k n) = n"
proof (induction k arbitrary: n)
  case 0
  then show ?case by simp
next
  case (Suc k)
  have "unat (of_nat (n mod 256) :: byte) = n mod 256"
    by (simp add: unat_of_nat)
  moreover have "get_le (put_le k (n div 256)) = n div 256"
    using Suc.prems by (intro Suc.IH) (simp add: less_mult_imp_div_less mult.commute)
  ultimately show ?case by simp
qed

lemma get_le_bound: "get_le bs < 256 ^ length bs"
proof (induction bs)
  case Nil
  then show ?case by simp
next
  case (Cons b bs)
  have "unat b < 256" using unsigned_less [of b] by simp
  with Cons show ?case by simp
qed

lemma put_get_le: "put_le (length bs) (get_le bs) = bs"
proof (induction bs)
  case Nil
  then show ?case by simp
next
  case (Cons b bs)
  have b: "unat b < 256" using unsigned_less [of b] by simp
  then have "(unat b + 256 * get_le bs) mod 256 = unat b"
    and "(unat b + 256 * get_le bs) div 256 = get_le bs" by simp_all
  with Cons show ?case by simp
qed

section \<open>First match in a pool\<close>

text \<open>Index of the first element that satisfies a test: the scan loops over fixed arrays.\<close>

fun find_index :: "('a \<Rightarrow> bool) \<Rightarrow> 'a list \<Rightarrow> nat option" where
  "find_index p [] = None"
| "find_index p (x # xs) = (if p x then Some 0 else map_option Suc (find_index p xs))"

lemma find_index_None [simp]: "find_index p xs = None \<longleftrightarrow> (\<forall>x \<in> set xs. \<not> p x)"
  by (induction xs) auto

lemma find_index_Some:
  "find_index p xs = Some i \<longleftrightarrow> i < length xs \<and> p (xs ! i) \<and> (\<forall>j < i. \<not> p (xs ! j))"
proof (induction xs arbitrary: i)
  case Nil
  then show ?case by simp
next
  case (Cons x xs)
  show ?case
  proof (cases i)
    case 0
    then show ?thesis by auto
  next
    case (Suc k)
    then show ?thesis using Cons.IH [of k] by (auto simp: less_Suc_eq_0_disj)
  qed
qed

lemma find_indexD:
  assumes "find_index p xs = Some i"
  shows "i < length xs" "p (xs ! i)"
  using assms by (simp_all add: find_index_Some)

lemma find_index_unique:
  assumes "i < length xs" "p (xs ! i)" "\<And>j. j < length xs \<Longrightarrow> p (xs ! j) \<Longrightarrow> j = i"
  shows "find_index p xs = Some i"
  unfolding find_index_Some using assms by (metis less_trans nat_less_le)

section \<open>Components driven by operations\<close>

text \<open>
  Most components are a state and a set of entry points, each run whole under the component's
  lock. What every such component promises is the same: the initial state satisfies the
  invariant and no operation breaks it, so every run does.
\<close>

fun run_ops :: "('op \<Rightarrow> 's \<Rightarrow> 's) \<Rightarrow> 'op list \<Rightarrow> 's \<Rightarrow> 's" where
  "run_ops step [] s = s"
| "run_ops step (x # xs) s = run_ops step xs (step x s)"

lemma run_ops_append [simp]: "run_ops step (xs @ ys) s = run_ops step ys (run_ops step xs s)"
  by (induction xs arbitrary: s) auto

locale op_machine =
  fixes step :: "'op \<Rightarrow> 's \<Rightarrow> 's"
    and inv :: "'s \<Rightarrow> bool"
  assumes inv_step: "inv s \<Longrightarrow> inv (step x s)"
begin

lemma inv_run: "inv s \<Longrightarrow> inv (run_ops step xs s)"
  by (induction xs arbitrary: s) (auto intro: inv_step)

text \<open>A relation kept by every step from a good state is kept by every run.\<close>

lemma run_preserves:
  assumes good: "inv s" and start: "R s"
    and keep: "\<And>t x. inv t \<Longrightarrow> R t \<Longrightarrow> R (step x t)"
  shows "R (run_ops step xs s)"
  using good start
proof (induction xs arbitrary: s)
  case Nil
  then show ?case by simp
next
  case (Cons x xs)
  then show ?case by (simp add: inv_step keep)
qed

end

end
