(* ===== verification/Api_Validation.thy ===== *)
theory Api_Validation
  imports Cedar_Prelude
begin

text \<open>
  Model of \<^verbatim>\<open>modules/api-validation/lib/api_validation.c\<close>: the contract's error table, the
  rejection value (\<^verbatim>\<open>struct api_error\<close>) with its bounded list of field errors, its rendering
  into a caller-supplied buffer, and the strict validators and address parsers. Buffers are
  modelled by the text written so far together with the capacity; a position is the length of
  that text. A NULL text is \<open>None\<close>.
\<close>

unbundle bit_operations_syntax

section \<open>Error codes and the contract's table\<close>

text \<open>\<open>API_ERR_OUT_OF_RANGE\<close> stands for every integer that is not below \<^verbatim>\<open>API_ERR_COUNT\<close>.\<close>

datatype api_error_code =
    API_ERR_INVALID_JSON | API_ERR_INVALID_QUERY | API_ERR_INVALID_CURSOR
  | API_ERR_AUTHENTICATION_REQUIRED | API_ERR_INVALID_CREDENTIALS | API_ERR_SESSION_EXPIRED
  | API_ERR_CSRF_FAILED | API_ERR_ORIGIN_REJECTED | API_ERR_SETUP_NOT_ALLOWED
  | API_ERR_NOT_FOUND
  | API_ERR_BUSY | API_ERR_STALE_REVISION | API_ERR_INVALID_STATE | API_ERR_OFFSET_MISMATCH
  | API_ERR_IDEMPOTENCY_CONFLICT | API_ERR_ETHERNET_REQUIRED
  | API_ERR_RESOURCE_EXPIRED | API_ERR_BOOT_CHANGED
  | API_ERR_PAYLOAD_TOO_LARGE | API_ERR_UNSUPPORTED_MEDIA_TYPE
  | API_ERR_VALIDATION_FAILED | API_ERR_INVALID_IMAGE | API_ERR_UNSUPPORTED_TARGET
  | API_ERR_INCOMPATIBLE_FIRMWARE | API_ERR_SIGNATURE_INVALID
  | API_ERR_RATE_LIMITED | API_ERR_INTERNAL_ERROR
  | API_ERR_SERVICE_NOT_READY | API_ERR_CAPABILITY_UNAVAILABLE | API_ERR_STORAGE_FULL
  | API_ERR_OUT_OF_RANGE

datatype api_field_code =
    API_FIELD_REQUIRED | API_FIELD_INVALID_FORMAT | API_FIELD_OUT_OF_RANGE | API_FIELD_TOO_LONG
  | API_FIELD_UNKNOWN | API_FIELD_CONFLICTING | API_FIELD_NOT_ALLOWED | API_FIELD_CODE_OUT_OF_RANGE

record error_entry =
  ee_name :: string
  ee_status :: nat
  ee_retryable :: bool

abbreviation entry :: "string \<Rightarrow> nat \<Rightarrow> bool \<Rightarrow> error_entry option" where
  "entry n s r \<equiv> Some \<lparr>ee_name = n, ee_status = s, ee_retryable = r\<rparr>"

fun error_table :: "api_error_code \<Rightarrow> error_entry option" where
  "error_table API_ERR_INVALID_JSON = entry ''invalid_json'' 400 False"
| "error_table API_ERR_INVALID_QUERY = entry ''invalid_query'' 400 False"
| "error_table API_ERR_INVALID_CURSOR = entry ''invalid_cursor'' 400 False"
| "error_table API_ERR_AUTHENTICATION_REQUIRED = entry ''authentication_required'' 401 False"
| "error_table API_ERR_INVALID_CREDENTIALS = entry ''invalid_credentials'' 401 False"
| "error_table API_ERR_SESSION_EXPIRED = entry ''session_expired'' 401 True"
| "error_table API_ERR_CSRF_FAILED = entry ''csrf_failed'' 403 False"
| "error_table API_ERR_ORIGIN_REJECTED = entry ''origin_rejected'' 403 False"
| "error_table API_ERR_SETUP_NOT_ALLOWED = entry ''setup_not_allowed'' 403 False"
| "error_table API_ERR_NOT_FOUND = entry ''not_found'' 404 False"
| "error_table API_ERR_BUSY = entry ''busy'' 409 True"
| "error_table API_ERR_STALE_REVISION = entry ''stale_revision'' 409 False"
| "error_table API_ERR_INVALID_STATE = entry ''invalid_state'' 409 False"
| "error_table API_ERR_OFFSET_MISMATCH = entry ''offset_mismatch'' 409 False"
| "error_table API_ERR_IDEMPOTENCY_CONFLICT = entry ''idempotency_conflict'' 409 False"
| "error_table API_ERR_ETHERNET_REQUIRED = entry ''ethernet_required'' 409 False"
| "error_table API_ERR_RESOURCE_EXPIRED = entry ''resource_expired'' 410 False"
| "error_table API_ERR_BOOT_CHANGED = entry ''boot_changed'' 410 False"
| "error_table API_ERR_PAYLOAD_TOO_LARGE = entry ''payload_too_large'' 413 False"
| "error_table API_ERR_UNSUPPORTED_MEDIA_TYPE = entry ''unsupported_media_type'' 415 False"
| "error_table API_ERR_VALIDATION_FAILED = entry ''validation_failed'' 422 False"
| "error_table API_ERR_INVALID_IMAGE = entry ''invalid_image'' 422 False"
| "error_table API_ERR_UNSUPPORTED_TARGET = entry ''unsupported_target'' 422 False"
| "error_table API_ERR_INCOMPATIBLE_FIRMWARE = entry ''incompatible_firmware'' 422 False"
| "error_table API_ERR_SIGNATURE_INVALID = entry ''signature_invalid'' 422 False"
| "error_table API_ERR_RATE_LIMITED = entry ''rate_limited'' 429 True"
| "error_table API_ERR_INTERNAL_ERROR = entry ''internal_error'' 500 True"
| "error_table API_ERR_SERVICE_NOT_READY = entry ''service_not_ready'' 503 True"
| "error_table API_ERR_CAPABILITY_UNAVAILABLE = entry ''capability_unavailable'' 503 False"
| "error_table API_ERR_STORAGE_FULL = entry ''storage_full'' 507 False"
| "error_table API_ERR_OUT_OF_RANGE = None"

fun api_field_code_str :: "api_field_code \<Rightarrow> string option" where
  "api_field_code_str API_FIELD_REQUIRED = Some ''required''"
| "api_field_code_str API_FIELD_INVALID_FORMAT = Some ''invalid_format''"
| "api_field_code_str API_FIELD_OUT_OF_RANGE = Some ''out_of_range''"
| "api_field_code_str API_FIELD_TOO_LONG = Some ''too_long''"
| "api_field_code_str API_FIELD_UNKNOWN = Some ''unknown_field''"
| "api_field_code_str API_FIELD_CONFLICTING = Some ''conflicting''"
| "api_field_code_str API_FIELD_NOT_ALLOWED = Some ''not_allowed''"
| "api_field_code_str API_FIELD_CODE_OUT_OF_RANGE = None"

definition code_in_range :: "api_error_code \<Rightarrow> bool" where
  "code_in_range c \<longleftrightarrow> c \<noteq> API_ERR_OUT_OF_RANGE"

definition api_error_status :: "api_error_code \<Rightarrow> nat" where
  "api_error_status c = (case error_table c of Some e \<Rightarrow> ee_status e | None \<Rightarrow> 500)"

definition api_error_str :: "api_error_code \<Rightarrow> string option" where
  "api_error_str c = map_option ee_name (error_table c)"

definition api_error_is_retryable :: "api_error_code \<Rightarrow> bool" where
  "api_error_is_retryable c = (case error_table c of Some e \<Rightarrow> ee_retryable e | None \<Rightarrow> False)"

lemma error_table_in_range: "code_in_range c \<longleftrightarrow> (\<exists>e. error_table c = Some e)"
  by (cases c) (simp_all add: code_in_range_def)

section \<open>Request identifiers\<close>

record request_id_gen =
  rg_state :: u32
  rg_seeded :: bool

definition api_request_id_seed :: "u32 \<Rightarrow> request_id_gen \<Rightarrow> request_id_gen" where
  "api_request_id_seed seed g = g\<lparr>rg_state := seed, rg_seeded := True\<rparr>"

text \<open>\<open>cycles\<close> is what \<^verbatim>\<open>k_cycle_get_32()\<close> would return; it is read only for the first identifier.\<close>

definition api_request_id_generate ::
    "u32 \<Rightarrow> nat \<Rightarrow> request_id_gen \<Rightarrow> (errno + string) \<times> request_id_gen" where
  "api_request_id_generate cycles cap g =
     (if cap < 13 then (Inl ENOMEM, g)
      else let g1 = (if rg_seeded g then g else api_request_id_seed cycles g);
               g2 = g1\<lparr>rg_state := rg_state g1 + 1\<rparr>
           in (Inr (take (cap - 1) (''req_'' @ hex8 (rg_state g2))), g2))"

section \<open>Validators of opaque text\<close>

definition is_opaque_char :: "char \<Rightarrow> bool" where
  "is_opaque_char c \<longleftrightarrow> (CHR ''a'' \<le> c \<and> c \<le> CHR ''z'') \<or> (CHR ''A'' \<le> c \<and> c \<le> CHR ''Z'') \<or>
     (CHR ''0'' \<le> c \<and> c \<le> CHR ''9'') \<or> c = CHR ''_'' \<or> c = CHR ''-''"

definition API_REQUEST_ID_MAX_LEN :: nat where "API_REQUEST_ID_MAX_LEN = 64"
definition API_IDEMPOTENCY_KEY_MIN_LEN :: nat where "API_IDEMPOTENCY_KEY_MIN_LEN = 16"
definition API_IDEMPOTENCY_KEY_MAX_LEN :: nat where "API_IDEMPOTENCY_KEY_MAX_LEN = 64"

text \<open>
  The scan both validators make: stop at the terminator or one character past the limit, refuse
  at the first character that is not allowed, and give the number of characters passed.
\<close>

fun scan_allowed :: "(char \<Rightarrow> bool) \<Rightarrow> nat \<Rightarrow> nat \<Rightarrow> string \<Rightarrow> nat option" where
  "scan_allowed ok lim len [] = Some len"
| "scan_allowed ok lim len (c # cs) =
     (if lim < len then Some len
      else if \<not> ok c then None else scan_allowed ok lim (Suc len) cs)"

definition api_validate_opaque_id :: "string option \<Rightarrow> bool" where
  "api_validate_opaque_id t =
     (case t of None \<Rightarrow> False
      | Some s \<Rightarrow> (case scan_allowed is_opaque_char API_REQUEST_ID_MAX_LEN 0 s of
          None \<Rightarrow> False
        | Some len \<Rightarrow> 0 < len \<and> len \<le> API_REQUEST_ID_MAX_LEN))"

definition is_key_char :: "char \<Rightarrow> bool" where
  "is_key_char c \<longleftrightarrow> \<not> ((of_char c :: nat) < 0x21 \<or> (0x7E :: nat) < of_char c)"

definition api_validate_idempotency_key :: "string option \<Rightarrow> bool" where
  "api_validate_idempotency_key t =
     (case t of None \<Rightarrow> False
      | Some s \<Rightarrow> (case scan_allowed is_key_char API_IDEMPOTENCY_KEY_MAX_LEN 0 s of
          None \<Rightarrow> False
        | Some len \<Rightarrow> API_IDEMPOTENCY_KEY_MIN_LEN \<le> len \<and> len \<le> API_IDEMPOTENCY_KEY_MAX_LEN))"

section \<open>Rejections\<close>

record api_error_field =
  ef_path :: string
  ef_code :: api_field_code

record api_error =
  ae_code :: api_error_code
  ae_message :: string
  ae_request_id :: string
  ae_fields :: "api_error_field list"
  ae_fields_truncated :: bool
  ae_retry_after_seconds :: u16

definition CONFIG_API_VALIDATION_MAX_FIELDS :: nat where "CONFIG_API_VALIDATION_MAX_FIELDS = 6"
definition API_ERROR_MESSAGE_MAX_LEN :: nat where "API_ERROR_MESSAGE_MAX_LEN = 127"
definition API_ERROR_PATH_MAX_LEN :: nat where "API_ERROR_PATH_MAX_LEN = 63"

definition copy_bounded :: "nat \<Rightarrow> string option \<Rightarrow> string" where
  "copy_bounded dst_size src = (case src of None \<Rightarrow> [] | Some s \<Rightarrow> take (dst_size - 1) s)"

definition api_error_init ::
    "u32 \<Rightarrow> api_error_code \<Rightarrow> string option \<Rightarrow> string option \<Rightarrow> request_id_gen
       \<Rightarrow> (errno + api_error) \<times> request_id_gen" where
  "api_error_init cycles code message request_id g =
     (if \<not> code_in_range code then (Inl EINVAL, g)
      else if request_id \<noteq> None \<and> \<not> api_validate_opaque_id request_id then (Inl EINVAL, g)
      else let err = \<lparr>ae_code = code,
                      ae_message = copy_bounded (API_ERROR_MESSAGE_MAX_LEN + 1) message,
                      ae_request_id = [], ae_fields = [], ae_fields_truncated = False,
                      ae_retry_after_seconds = 0\<rparr>
           in (case request_id of
                 Some r \<Rightarrow>
                   (Inr (err\<lparr>ae_request_id :=
                        copy_bounded (API_REQUEST_ID_MAX_LEN + 1) (Some r)\<rparr>), g)
               | None \<Rightarrow>
                   (case api_request_id_generate cycles (API_REQUEST_ID_MAX_LEN + 1) g of
                      (Inl _, g') \<Rightarrow> (Inl EINVAL, g')
                    | (Inr r, g') \<Rightarrow> (Inr (err\<lparr>ae_request_id := r\<rparr>), g'))))"

text \<open>\<open>i\<close> counts the characters already passed, as the loop variable of \<^verbatim>\<open>path_is_valid\<close> does.\<close>

fun path_chars_ok :: "nat \<Rightarrow> string \<Rightarrow> bool" where
  "path_chars_ok i [] = True"
| "path_chars_ok i (c # cs) =
     (if (of_char c :: nat) < 0x20 then False
      else if API_ERROR_PATH_MAX_LEN < Suc i then False else path_chars_ok (Suc i) cs)"

definition path_is_valid :: "string option \<Rightarrow> bool" where
  "path_is_valid p = (case p of None \<Rightarrow> False
     | Some s \<Rightarrow> if peek s \<noteq> CHR ''/'' then False else path_chars_ok 0 s)"

definition api_error_add_field ::
    "api_error \<Rightarrow> string option \<Rightarrow> api_field_code \<Rightarrow> errno option \<times> api_error" where
  "api_error_add_field err path code =
     (if \<not> path_is_valid path \<or> api_field_code_str code = None then (Some EINVAL, err)
      else if CONFIG_API_VALIDATION_MAX_FIELDS \<le> length (ae_fields err)
      then (Some ENOSPC, err\<lparr>ae_fields_truncated := True\<rparr>)
      else (None, err\<lparr>ae_fields := ae_fields err @
              [\<lparr>ef_path = copy_bounded (API_ERROR_PATH_MAX_LEN + 1) path, ef_code = code\<rparr>]\<rparr>))"

definition api_error_set_retry_after :: "api_error \<Rightarrow> u16 \<Rightarrow> api_error" where
  "api_error_set_retry_after err seconds = err\<lparr>ae_retry_after_seconds := seconds\<rparr>"

section \<open>Rendering\<close>

text \<open>The escape of one character, \<open>None\<close> for one that is copied as it is.\<close>

definition json_escape :: "char \<Rightarrow> string option" where
  "json_escape c =
     (if c = CHR 0x22 then Some [CHR 0x5C, CHR 0x22]
      else if c = CHR 0x5C then Some [CHR 0x5C, CHR 0x5C]
      else if c = CHR 0x0A then Some [CHR 0x5C, CHR ''n'']
      else if c = CHR 0x0D then Some [CHR 0x5C, CHR ''r'']
      else if c = CHR 0x09 then Some [CHR 0x5C, CHR ''t'']
      else if (of_char c :: nat) < 0x20
      then Some (CHR 0x5C # CHR ''u'' # hex_fixed 4 (of_char c))
      else None)"

fun json_escaped_loop :: "nat \<Rightarrow> string \<Rightarrow> string \<Rightarrow> errno + string" where
  "json_escaped_loop cap out [] = Inr out"
| "json_escaped_loop cap out (c # cs) =
     (case json_escape c of
        Some esc \<Rightarrow>
          if cap \<le> length out + length esc then Inl ENOMEM
          else json_escaped_loop cap (out @ esc) cs
      | None \<Rightarrow>
          if cap \<le> length out + 1 then Inl ENOMEM
          else json_escaped_loop cap (out @ [c]) cs)"

definition api_json_append_escaped :: "nat \<Rightarrow> string \<Rightarrow> string \<Rightarrow> errno + string" where
  "api_json_append_escaped cap out src =
     (if cap \<le> length out then Inl ENOMEM else json_escaped_loop cap out src)"

definition append_literal :: "nat \<Rightarrow> string \<Rightarrow> string \<Rightarrow> errno + string" where
  "append_literal cap out src =
     (if cap \<le> length out + length src then Inl ENOMEM else Inr (out @ src))"

abbreviation dq :: string where "dq \<equiv> [CHR 0x22]"

text \<open>The loop over the field errors; \<open>first\<close> is \<^verbatim>\<open>i == 0\<close>.\<close>

fun append_fields :: "nat \<Rightarrow> bool \<Rightarrow> api_error_field list \<Rightarrow> string \<Rightarrow> errno + string" where
  "append_fields cap first [] out = Inr out"
| "append_fields cap first (f # fs) out =
     ebind (if first then Inr out else append_literal cap out '','') (\<lambda>o1.
     ebind (append_literal cap o1 (''{'' @ dq @ ''path'' @ dq @ '':'' @ dq)) (\<lambda>o2.
     ebind (api_json_append_escaped cap o2 (ef_path f)) (\<lambda>o3.
     ebind (append_literal cap o3 (dq @ '','' @ dq @ ''code'' @ dq @ '':'' @ dq)) (\<lambda>o4.
     ebind (append_literal cap o4 (case api_field_code_str (ef_code f) of
              Some n \<Rightarrow> n | None \<Rightarrow> [])) (\<lambda>o5.
     ebind (append_literal cap o5 (dq @ ''}'')) (\<lambda>o6.
     append_fields cap False fs o6))))))"

text \<open>The chain of appends of \<^verbatim>\<open>api_error_to_json\<close>, for the table row \<open>e\<close> of the error's code.\<close>

definition append_error :: "nat \<Rightarrow> error_entry \<Rightarrow> api_error \<Rightarrow> string \<Rightarrow> errno + string" where
  "append_error cap e err out =
     ebind (append_literal cap out (''{'' @ dq @ ''error'' @ dq @ '':{'' @ dq @ ''code'' @ dq
              @ '':'' @ dq)) (\<lambda>o1.
     ebind (append_literal cap o1 (ee_name e)) (\<lambda>o2.
     ebind (append_literal cap o2 (dq @ '','' @ dq @ ''message'' @ dq @ '':'' @ dq)) (\<lambda>o3.
     ebind (api_json_append_escaped cap o3 (ae_message err)) (\<lambda>o4.
     ebind (if ae_fields_truncated err
            then append_literal cap o4 '' (further problems were not reported)''
            else Inr o4) (\<lambda>o5.
     ebind (append_literal cap o5 (dq @ '','' @ dq @ ''request_id'' @ dq @ '':'' @ dq)) (\<lambda>o6.
     ebind (api_json_append_escaped cap o6 (ae_request_id err)) (\<lambda>o7.
     ebind (append_literal cap o7 (dq @ '','' @ dq @ ''retryable'' @ dq @ '':'')) (\<lambda>o8.
     ebind (append_literal cap o8 (if ee_retryable e then ''true'' else ''false'')) (\<lambda>o9.
     ebind (if 0 < length (ae_fields err)
            then ebind (append_literal cap o9 ('','' @ dq @ ''fields'' @ dq @ '':['')) (\<lambda>p1.
                 ebind (append_fields cap True (ae_fields err) p1) (\<lambda>p2.
                 append_literal cap p2 '']''))
            else Inr o9) (\<lambda>o10.
     append_literal cap o10 ''}}''))))))))))"

definition api_error_to_json :: "api_error \<Rightarrow> nat \<Rightarrow> errno + string" where
  "api_error_to_json err cap =
     (if cap = 0 then Inl ENOMEM
      else (case error_table (ae_code err) of
              None \<Rightarrow> Inl ENOMEM
            | Some e \<Rightarrow> append_error cap e err []))"

section \<open>Address parsers\<close>

definition is_dec :: "char \<Rightarrow> bool" where
  "is_dec c \<longleftrightarrow> CHR ''0'' \<le> c \<and> c \<le> CHR ''9''"

definition dec_val :: "char \<Rightarrow> nat" where
  "dec_val c = of_char c - 48"

text \<open>The digit loop of \<^verbatim>\<open>parse_octet\<close>: characters consumed and value, refused at a fourth digit.\<close>

fun octet_loop :: "string \<Rightarrow> nat \<Rightarrow> nat \<Rightarrow> (nat \<times> nat) option" where
  "octet_loop [] len v = Some (len, v)"
| "octet_loop (c # cs) len v =
     (if is_dec c then (if len = 3 then None else octet_loop cs (Suc len) (v * 10 + dec_val c))
      else Some (len, v))"

definition parse_octet :: "string \<Rightarrow> (byte \<times> nat) option" where
  "parse_octet s =
     (if \<not> is_dec (peek s) then None
      else (case octet_loop s 0 0 of
        None \<Rightarrow> None
      | Some (len, v) \<Rightarrow>
          if 1 < len \<and> peek s = CHR ''0'' then None
          else if 255 < v then None
          else Some (of_nat v, len)))"

text \<open>\<open>n\<close> octets are still to come; \<open>first\<close> is \<^verbatim>\<open>i == 0\<close>.\<close>

fun ipv4_loop :: "nat \<Rightarrow> bool \<Rightarrow> string \<Rightarrow> (byte list \<times> string) option" where
  "ipv4_loop 0 first s = Some ([], s)"
| "ipv4_loop (Suc n) first s =
     (if \<not> first \<and> peek s \<noteq> CHR ''.'' then None
      else let s1 = (if first then s else tl s) in
        case parse_octet s1 of
          None \<Rightarrow> None
        | Some (b, k) \<Rightarrow>
            (case ipv4_loop n False (drop k s1) of
               None \<Rightarrow> None
             | Some (bs, rest) \<Rightarrow> Some (b # bs, rest)))"

definition api_parse_ipv4 :: "string option \<Rightarrow> errno + byte list" where
  "api_parse_ipv4 t =
     (case t of None \<Rightarrow> Inl EINVAL
      | Some s \<Rightarrow> (case ipv4_loop 4 True s of
          None \<Rightarrow> Inl EINVAL
        | Some (octets, rest) \<Rightarrow> if rest \<noteq> [] then Inl EINVAL else Inr octets))"

definition hex_digit :: "char \<Rightarrow> nat option" where
  "hex_digit c =
     (if CHR ''0'' \<le> c \<and> c \<le> CHR ''9'' then Some (of_char c - 48)
      else if CHR ''a'' \<le> c \<and> c \<le> CHR ''f'' then Some (of_char c - 97 + 10)
      else if CHR ''A'' \<le> c \<and> c \<le> CHR ''F'' then Some (of_char c - 65 + 10)
      else None)"

fun hex_loop :: "string \<Rightarrow> nat \<Rightarrow> nat \<Rightarrow> nat \<times> nat" where
  "hex_loop [] len v = (len, v)"
| "hex_loop (c # cs) len v =
     (if 4 \<le> len then (len, v)
      else (case hex_digit c of
              None \<Rightarrow> (len, v)
            | Some d \<Rightarrow> hex_loop cs (Suc len) (v * 16 + d)))"

definition parse_hex_group :: "string \<Rightarrow> (u16 \<times> nat) option" where
  "parse_hex_group s =
     (case hex_loop s 0 0 of (len, v) \<Rightarrow> if len = 0 then None else Some (of_nat v, len))"

text \<open>Is there a dot before the next colon?\<close>

fun group_has_dot :: "string \<Rightarrow> bool" where
  "group_has_dot [] = False"
| "group_has_dot (c # cs) =
     (if c = CHR '':'' then False else if c = CHR ''.'' then True else group_has_dot cs)"

lemma hex_loop_mono: "len \<le> fst (hex_loop s len v)"
proof (induction s len v rule: hex_loop.induct)
  case (2 c cs len v)
  then show ?case by (fastforce split: option.splits)
qed simp

lemma parse_hex_group_pos: "parse_hex_group s = Some (g, n) \<Longrightarrow> 0 < n"
  by (auto simp: parse_hex_group_def split: prod.splits if_splits)

text \<open>
  The loop of \<^verbatim>\<open>api_parse_ipv6\<close> over the remaining text. \<^verbatim>\<open>part\<close> points to the tail exactly when a
  compression was seen, so \<open>seen\<close> selects the part that is being filled.
\<close>

definition v6_push :: "byte list \<Rightarrow> byte list \<Rightarrow> bool \<Rightarrow> byte list \<Rightarrow> byte list \<times> byte list" where
  "v6_push hd_part tl_part seen bs =
     (if seen then (hd_part, tl_part @ bs) else (hd_part @ bs, tl_part))"

text \<open>
  What follows a group: the end, a separator with more text, the one compression (at the end or
  with more text), or something no address has. The flag is the new value of
  \<^verbatim>\<open>seen_compression\<close>.
\<close>

datatype v6_next = V6_BAD | V6_STOP bool | V6_MORE bool string

fun v6_after :: "bool \<Rightarrow> string \<Rightarrow> v6_next" where
  "v6_after seen [] = V6_STOP seen"
| "v6_after seen (c # s2) =
     (if c \<noteq> CHR '':'' then V6_BAD
      else (case s2 of
          [] \<Rightarrow> V6_BAD
        | c2 # s3 \<Rightarrow>
            if c2 = CHR '':'' then
              (if seen then V6_BAD else if s3 = [] then V6_STOP True else V6_MORE True s3)
            else V6_MORE seen s2))"

lemma v6_after_length: "v6_after seen s = V6_MORE seen' r \<Longrightarrow> length r < length s"
  by (cases s) (auto split: if_splits list.splits)

function v6_loop ::
    "string \<Rightarrow> byte list \<Rightarrow> byte list \<Rightarrow> bool \<Rightarrow> (byte list \<times> byte list \<times> bool) option" where
  "v6_loop s h t seen =
     (if s = [] then Some (h, t, seen)
      else if group_has_dot s then
          (if 16 < (if seen then length t else length h) + 4 then None
           else (case api_parse_ipv4 (Some s) of
                   Inl _ \<Rightarrow> None
                 | Inr v4 \<Rightarrow> (case v6_push h t seen v4 of (h', t') \<Rightarrow> Some (h', t', seen))))
      else (case parse_hex_group s of
          None \<Rightarrow> None
        | Some (g, n) \<Rightarrow>
            if 16 < (if seen then length t else length h) + 2 then None
            else (case v6_push h t seen [ucast (drop_bit 8 g), ucast (g AND 0xFF)] of (h', t') \<Rightarrow>
              (case v6_after seen (drop n s) of
                 V6_BAD \<Rightarrow> None
               | V6_STOP seen' \<Rightarrow> Some (h', t', seen')
               | V6_MORE seen' r \<Rightarrow> v6_loop r h' t' seen'))))"
  by pat_completeness auto
termination
  by (relation "measure (\<lambda>(s, _). length s)") (auto dest!: v6_after_length)

declare v6_loop.simps [simp del]

definition v6_finish :: "byte list \<times> byte list \<times> bool \<Rightarrow> errno + byte list" where
  "v6_finish r = (case r of (h, t, seen) \<Rightarrow>
     if seen then (if 16 \<le> length h + length t then Inl EINVAL
                   else Inr (h @ replicate (16 - length h - length t) 0 @ t))
     else if length h \<noteq> 16 then Inl EINVAL
     else Inr (h @ replicate (16 - length h - length t) 0 @ t))"

definition api_parse_ipv6 :: "string option \<Rightarrow> errno + byte list" where
  "api_parse_ipv6 text =
     (case text of None \<Rightarrow> Inl EINVAL
      | Some s \<Rightarrow>
          if peek s = CHR '':'' then
            (if peek (tl s) \<noteq> CHR '':'' then Inl EINVAL
             else if drop 2 s = [] then Inr (replicate 16 0)
             else (case v6_loop (drop 2 s) [] [] True of
                     None \<Rightarrow> Inl EINVAL | Some r \<Rightarrow> v6_finish r))
          else (case v6_loop s [] [] False of None \<Rightarrow> Inl EINVAL | Some r \<Rightarrow> v6_finish r))"

section \<open>Subnets\<close>

definition api_ipv4_prefix_is_valid :: "byte \<Rightarrow> bool" where
  "api_ipv4_prefix_is_valid p \<longleftrightarrow> 1 \<le> p \<and> p \<le> 30"

definition to_u32 :: "byte list \<Rightarrow> u32" where
  "to_u32 addr = push_bit 24 (ucast (addr ! 0)) OR push_bit 16 (ucast (addr ! 1)) OR
     push_bit 8 (ucast (addr ! 2)) OR ucast (addr ! 3)"

definition prefix_mask :: "byte \<Rightarrow> u32" where
  "prefix_mask p = (if p = 0 then 0 else push_bit (32 - unat p) 0xFFFFFFFF)"

definition api_ipv4_same_subnet :: "byte list \<Rightarrow> byte list \<Rightarrow> byte \<Rightarrow> bool" where
  "api_ipv4_same_subnet a b p =
     (if 32 < p then False
      else to_u32 a AND prefix_mask p = to_u32 b AND prefix_mask p)"

definition api_ipv4_is_usable_host :: "byte list \<Rightarrow> byte \<Rightarrow> bool" where
  "api_ipv4_is_usable_host addr p =
     (if \<not> api_ipv4_prefix_is_valid p then False
      else let value = to_u32 addr; mask = prefix_mask p; first = addr ! 0 in
        if value AND NOT mask = 0 \<or> value AND NOT mask = NOT mask AND 0xFFFFFFFF then False
        else if first = 0 then False
        else if first = 127 then False
        else if 224 \<le> first then False
        else if addr ! 0 = 169 \<and> addr ! 1 = 254 then False
        else True)"

section \<open>The bounded-append contract\<close>

text \<open>
  Every piece of a response is appended under one contract: from a position below the capacity,
  the text is appended whole when it still leaves room for the terminator, and the append is
  refused otherwise. Chains of such appends keep the contract, so a rendered body is either
  complete or refused. The locale is the interface of an appender; both appenders of this
  component provide it.
\<close>

definition writes :: "nat \<Rightarrow> (string \<Rightarrow> errno + string) \<Rightarrow> string \<Rightarrow> bool" where
  "writes cap w spell \<longleftrightarrow>
     (\<forall>out. length out < cap \<longrightarrow>
        w out = (if length out + length spell < cap then Inr (out @ spell) else Inl ENOMEM))"

lemma writesD:
  "writes cap w spell \<Longrightarrow> length out < cap \<Longrightarrow>
     w out = (if length out + length spell < cap then Inr (out @ spell) else Inl ENOMEM)"
  by (simp add: writes_def)

lemma writes_nothing: "writes cap Inr []"
  by (simp add: writes_def)

lemma writes_bind:
  assumes "writes cap w1 t1" "writes cap w2 t2"
  shows "writes cap (\<lambda>out. ebind (w1 out) w2) (t1 @ t2)"
  unfolding writes_def
proof (intro allI impI)
  fix out :: string
  assume cap: "length out < cap"
  show "ebind (w1 out) w2 =
     (if length out + length (t1 @ t2) < cap then Inr (out @ t1 @ t2) else Inl ENOMEM)"
  proof (cases "length out + length t1 < cap")
    case True
    then have "length (out @ t1) < cap" by simp
    from writesD [OF assms(2) this] True writesD [OF assms(1) cap] show ?thesis by simp
  next
    case False
    with writesD [OF assms(1) cap] show ?thesis by simp
  qed
qed

lemma writes_if:
  "(b \<Longrightarrow> writes cap w1 t1) \<Longrightarrow> (\<not> b \<Longrightarrow> writes cap w2 t2) \<Longrightarrow>
     writes cap (\<lambda>out. if b then w1 out else w2 out) (if b then t1 else t2)"
  by (cases b) (simp_all add: writes_def)

locale bounded_appender =
  fixes app :: "nat \<Rightarrow> string \<Rightarrow> 'a \<Rightarrow> errno + string"
    and spell :: "'a \<Rightarrow> string"
  assumes app_writes: "writes cap (\<lambda>out. app cap out x) (spell x)"
begin

lemma app_then: "writes cap k t \<Longrightarrow> writes cap (\<lambda>out. ebind (app cap out x) k) (spell x @ t)"
  by (rule writes_bind [OF app_writes])

lemma app_fits: "length out < cap \<Longrightarrow> app cap out x = Inr res \<Longrightarrow> res = out @ spell x \<and> length res < cap"
  using writesD [OF app_writes [of cap x], of out] by (auto split: if_splits)

end

definition escape_char :: "char \<Rightarrow> string" where
  "escape_char c = (case json_escape c of Some e \<Rightarrow> e | None \<Rightarrow> [c])"

definition escape_text :: "string \<Rightarrow> string" where
  "escape_text s = concat (map escape_char s)"

lemma escape_text_simps [simp]:
  "escape_text [] = []" "escape_text (c # s) = escape_char c @ escape_text s"
  by (simp_all add: escape_text_def)

lemma json_escaped_loop_eq:
  "length out < cap \<Longrightarrow>
   json_escaped_loop cap out src =
     (if length out + length (escape_text src) < cap then Inr (out @ escape_text src) else Inl ENOMEM)"
proof (induction cap out src rule: json_escaped_loop.induct)
  case (1 cap out)
  then show ?case by simp
next
  case (2 cap out c cs)
  then show ?case
    by (auto simp: escape_char_def split: option.splits)
qed

interpretation lit: bounded_appender append_literal "\<lambda>s. s"
  by unfold_locales (simp add: writes_def append_literal_def)

interpretation esc: bounded_appender api_json_append_escaped escape_text
  by unfold_locales (simp add: writes_def api_json_append_escaped_def json_escaped_loop_eq)

fun fields_text :: "bool \<Rightarrow> api_error_field list \<Rightarrow> string" where
  "fields_text first [] = []"
| "fields_text first (f # fs) =
     (if first then [] else '','') @ (''{'' @ dq @ ''path'' @ dq @ '':'' @ dq) @
     escape_text (ef_path f) @ (dq @ '','' @ dq @ ''code'' @ dq @ '':'' @ dq) @
     (case api_field_code_str (ef_code f) of Some n \<Rightarrow> n | None \<Rightarrow> []) @ (dq @ ''}'') @
     fields_text False fs"

lemma writes_first_comma:
  "writes cap (\<lambda>out. if b then Inr out else append_literal cap out s) (if b then [] else s)"
  by (intro writes_if writes_nothing lit.app_writes)

lemma append_fields_writes: "writes cap (append_fields cap first fs) (fields_text first fs)"
proof (induction fs arbitrary: first)
  case Nil
  have "append_fields cap first [] = Inr" by (rule ext) simp
  then show ?case by (simp add: writes_nothing)
next
  case (Cons f fs)
  show ?case
    unfolding append_fields.simps fields_text.simps
    by (intro writes_bind [OF writes_first_comma] lit.app_then esc.app_then Cons.IH)
qed

definition error_body :: "error_entry \<Rightarrow> api_error \<Rightarrow> string" where
  "error_body e err =
     (''{'' @ dq @ ''error'' @ dq @ '':{'' @ dq @ ''code'' @ dq @ '':'' @ dq) @ ee_name e @
     (dq @ '','' @ dq @ ''message'' @ dq @ '':'' @ dq) @ escape_text (ae_message err) @
     (if ae_fields_truncated err then '' (further problems were not reported)'' else []) @
     (dq @ '','' @ dq @ ''request_id'' @ dq @ '':'' @ dq) @ escape_text (ae_request_id err) @
     (dq @ '','' @ dq @ ''retryable'' @ dq @ '':'') @
     (if ee_retryable e then ''true'' else ''false'') @
     (if 0 < length (ae_fields err)
      then ('','' @ dq @ ''fields'' @ dq @ '':['') @ fields_text True (ae_fields err) @ '']''
      else []) @ ''}}''"

lemma append_error_writes: "writes cap (append_error cap e err) (error_body e err)"
proof -
  have "writes cap (\<lambda>out. append_error cap e err out) (error_body e err)"
    unfolding error_body_def append_error_def
    by (intro lit.app_then esc.app_then writes_bind writes_if writes_nothing
        lit.app_writes append_fields_writes)
  then show ?thesis .
qed

lemma api_error_to_json_eq:
  assumes "error_table (ae_code err) = Some e"
  shows "api_error_to_json err cap =
    (if length (error_body e err) < cap then Inr (error_body e err) else Inl ENOMEM)"
  using writesD [OF append_error_writes [of cap e err], of "[]"] assms
  by (simp add: api_error_to_json_def)


section \<open>Escapes read back\<close>

text \<open>A reader of the inside of a JSON string, as a client has it.\<close>

fun json_unescape :: "string \<Rightarrow> string option" where
  "json_unescape [] = Some []"
| "json_unescape (c # cs) =
     (if c = CHR 0x22 \<or> (of_char c :: nat) < 0x20 then None
      else if c \<noteq> CHR 0x5C then map_option (Cons c) (json_unescape cs)
      else (case cs of
          [] \<Rightarrow> None
        | x # r \<Rightarrow>
            if x = CHR 0x22 \<or> x = CHR 0x5C then map_option (Cons x) (json_unescape r)
            else if x = CHR ''n'' then map_option (Cons (CHR 0x0A)) (json_unescape r)
            else if x = CHR ''r'' then map_option (Cons (CHR 0x0D)) (json_unescape r)
            else if x = CHR ''t'' then map_option (Cons (CHR 0x09)) (json_unescape r)
            else if x = CHR ''u'' then
              (case r of
                 h3 # h2 # h1 # h0 # r' \<Rightarrow>
                   (case (hex_digit h3, hex_digit h2, hex_digit h1, hex_digit h0) of
                      (Some d3, Some d2, Some d1, Some d0) \<Rightarrow>
                        map_option (Cons (char_of (((d3 * 16 + d2) * 16 + d1) * 16 + d0)))
                          (json_unescape r')
                    | _ \<Rightarrow> None)
               | _ \<Rightarrow> None)
            else None))"

lemma hex_digit_hex_char: "d < 16 \<Longrightarrow> hex_digit (hex_char d) = Some d"
  by (simp add: hex_digit_def less_eq_char_def of_char_hex_char)

lemma json_unescape_control:
  assumes "(of_char c :: nat) < 0x20"
  shows "json_unescape (CHR 0x5C # CHR ''u'' # hex_fixed 4 (of_char c) @ r) =
    map_option (Cons c) (json_unescape r)"
proof -
  let ?n = "of_char c :: nat"
  have four: "(4::nat) = Suc (Suc (Suc (Suc 0)))" by simp
  have "?n div 16 div 16 = 0" "?n div 16 < 16" using assms by (simp_all add: div_mult2_eq [symmetric])
  then have hf: "hex_fixed 4 ?n = [hex_char 0, hex_char 0, hex_char (?n div 16), hex_char (?n mod 16)]"
    unfolding four hex_fixed.simps by simp
  have d: "?n div 16 < 16" "?n mod 16 < 16" using assms by simp_all
  have "char_of (?n div 16 * 16 + ?n mod 16) = c" by simp
  with d show ?thesis
    unfolding hf by (simp add: hex_digit_hex_char)
qed

lemma json_unescape_escape_char:
  "json_unescape (escape_char c @ r) = map_option (Cons c) (json_unescape r)"
proof -
  consider "c = CHR 0x22" | "c = CHR 0x5C" | "c = CHR 0x0A" | "c = CHR 0x0D" | "c = CHR 0x09"
    | "c \<notin> {CHR 0x22, CHR 0x5C, CHR 0x0A, CHR 0x0D, CHR 0x09}" by blast
  then show ?thesis
  proof cases
    case 6
    then show ?thesis
      using json_unescape_control [of c r]
      by (cases "(of_char c :: nat) < 0x20") (auto simp: escape_char_def json_escape_def)
  qed (simp_all add: escape_char_def json_escape_def)
qed

lemma json_unescape_escape: "json_unescape (escape_text s) = Some s"
  by (induction s) (simp_all add: json_unescape_escape_char)

lemma json_append_escaped_roundtrip:
  assumes "length out < cap" "api_json_append_escaped cap out src = Inr res"
  shows "\<exists>esc. res = out @ esc \<and> length res < cap \<and> json_unescape esc = Some src"
  using esc.app_fits [OF assms] json_unescape_escape by blast

section \<open>Validators and request identifiers\<close>

lemma scan_allowed_eq:
  "len \<le> lim \<Longrightarrow> scan_allowed ok lim len s =
     (if \<forall>c \<in> set (take (Suc lim - len) s). ok c then Some (min (len + length s) (Suc lim)) else None)"
proof (induction ok lim len s rule: scan_allowed.induct)
  case (1 ok lim len)
  then show ?case by simp
next
  case (2 ok lim len c cs)
  show ?case
  proof (cases "len = lim")
    case True
    then show ?thesis by (cases cs) (auto simp: take_Cons')
  next
    case False
    with "2.prems" have h: "Suc lim - len = Suc (Suc lim - Suc len)" "Suc len \<le> lim" by simp_all
    show ?thesis
      unfolding h(1) using "2.IH" h(2) "2.prems" by (auto simp: min_def)
  qed
qed

lemma scan_within:
  "(case scan_allowed ok lim 0 s of None \<Rightarrow> False | Some len \<Rightarrow> m \<le> len \<and> len \<le> lim) \<longleftrightarrow>
     m \<le> length s \<and> length s \<le> lim \<and> (\<forall>c \<in> set s. ok c)"
  by (auto simp: scan_allowed_eq min_def)

lemma api_validate_idempotency_key_iff:
  "api_validate_idempotency_key (Some s) \<longleftrightarrow>
     16 \<le> length s \<and> length s \<le> 64 \<and>
     (\<forall>c \<in> set s. (0x20::nat) < of_char c \<and> of_char c < (0x7F::nat))"
  unfolding api_validate_idempotency_key_def option.case scan_within
    API_IDEMPOTENCY_KEY_MIN_LEN_def API_IDEMPOTENCY_KEY_MAX_LEN_def is_key_char_def
  by (auto simp: not_less)

lemma api_validate_opaque_id_iff:
  "api_validate_opaque_id (Some s) \<longleftrightarrow>
     s \<noteq> [] \<and> length s \<le> 64 \<and> (\<forall>c \<in> set s. is_opaque_char c)"
proof -
  have "(case scan_allowed is_opaque_char 64 0 s of None \<Rightarrow> False
         | Some len \<Rightarrow> 0 < len \<and> len \<le> (64::nat)) \<longleftrightarrow>
        1 \<le> length s \<and> length s \<le> 64 \<and> (\<forall>c \<in> set s. is_opaque_char c)"
    using scan_within [where ok = is_opaque_char and lim = 64 and s = s and m = 1] by (simp add: Suc_le_eq split: option.splits)
  then show ?thesis
    unfolding api_validate_opaque_id_def API_REQUEST_ID_MAX_LEN_def by (simp add: Suc_le_eq)
qed

lemma is_opaque_hex_char: "d < 16 \<Longrightarrow> is_opaque_char (hex_char d)"
  by (auto simp: is_opaque_char_def less_eq_char_def of_char_hex_char)

lemma set_hex_fixed: "set (hex_fixed k n) \<subseteq> {hex_char d | d. d < 16}"
  by (induction k arbitrary: n) auto

lemma generate_eq:
  assumes "13 \<le> cap"
  shows "\<exists>w g'. api_request_id_generate cyc cap g = (Inr (''req_'' @ hex8 w), g') \<and>
     rg_seeded g' \<and> rg_state g' = w \<and> w = (if rg_seeded g then rg_state g else cyc) + 1"
  using assms by (auto simp: api_request_id_generate_def Let_def api_request_id_seed_def)

lemma generated_is_opaque:
  "api_validate_opaque_id (Some (''req_'' @ hex8 w))"
proof -
  have "\<forall>c \<in> set (hex8 w). is_opaque_char c"
    using set_hex_fixed [of 8 "unat w"] is_opaque_hex_char by (auto simp: hex8_def)
  then show ?thesis
    by (auto simp: api_validate_opaque_id_iff is_opaque_char_def less_eq_char_def)
qed

fun generate_many :: "nat \<Rightarrow> u32 \<Rightarrow> nat \<Rightarrow> request_id_gen \<Rightarrow> (errno + string) list" where
  "generate_many 0 cyc cap g = []"
| "generate_many (Suc n) cyc cap g =
     (case api_request_id_generate cyc cap g of (r, g') \<Rightarrow> r # generate_many n cyc cap g')"

lemma generate_many_eq:
  "13 \<le> cap \<Longrightarrow> rg_seeded g \<Longrightarrow> generate_many n cyc cap g =
     map (\<lambda>i. Inr (''req_'' @ hex8 (rg_state g + of_nat i))) [1..<Suc n]"
proof (induction n arbitrary: g)
  case 0
  then show ?case by simp
next
  case (Suc n)
  from generate_eq [OF Suc.prems(1), of cyc g] Suc.prems(2) obtain g'
    where g': "api_request_id_generate cyc cap g = (Inr (''req_'' @ hex8 (rg_state g + 1)), g')"
      "rg_seeded g'" "rg_state g' = rg_state g + 1" by auto
  have sh: "[1..<Suc (Suc n)] = 1 # map Suc [1..<Suc n]"
    by (simp add: map_Suc_upt upt_conv_Cons)
  from Suc.IH [OF Suc.prems(1) g'(2)] g' show ?case
    unfolding sh by (simp add: algebra_simps comp_def del: upt_Suc)
qed

lemma request_ids_distinct:
  assumes "13 \<le> cap" "n < 2 ^ 32" "rg_seeded g"
  shows "distinct (generate_many n cyc cap g)"
proof -
  have "inj_on (\<lambda>i. Inr (''req_'' @ hex8 (rg_state g + of_nat i)) :: errno + string) {1..<Suc n}"
  proof (rule inj_onI)
    fix i j assume i: "i \<in> {1..<Suc n}" and j: "j \<in> {1..<Suc n}"
      and e: "(Inr (''req_'' @ hex8 (rg_state g + of_nat i)) :: errno + string) =
         Inr (''req_'' @ hex8 (rg_state g + of_nat j))"
    then have "(of_nat i :: u32) = of_nat j" by (auto dest: hex8_inj)
    then have "unat (of_nat i :: u32) = unat (of_nat j :: u32)" by simp
    with i j assms(2) show "i = j" by (simp add: unat_of_nat)
  qed
  then show ?thesis
    unfolding generate_many_eq [OF assms(1,3)] by (simp add: distinct_map del: upt_Suc)
qed

lemma path_chars_ok_iff:
  "i \<le> API_ERROR_PATH_MAX_LEN \<Longrightarrow> path_chars_ok i s \<longleftrightarrow>
     i + length s \<le> API_ERROR_PATH_MAX_LEN \<and> (\<forall>c \<in> set s. (0x20::nat) \<le> of_char c)"
  by (induction i s rule: path_chars_ok.induct) auto

lemma path_is_valid_iff:
  "path_is_valid (Some s) \<longleftrightarrow> peek s = CHR ''/'' \<and> length s \<le> 63 \<and>
     (\<forall>c \<in> set s. (0x20::nat) \<le> of_char c)"
  using path_chars_ok_iff [of 0 s] by (simp add: path_is_valid_def API_ERROR_PATH_MAX_LEN_def)

section \<open>Subnet arithmetic\<close>

lemma all_ones: "(0xFFFFFFFF :: u32) = - 1"
  by simp

lemma bit_prefix_mask:
  "1 \<le> p \<Longrightarrow> bit (prefix_mask p) n \<longleftrightarrow> n < 32 \<and> 32 - unat p \<le> n"
  unfolding prefix_mask_def all_ones
  by (auto simp: bit_simps word_less_nat_alt word_le_nat_alt)

lemma host_part:
  assumes "1 \<le> p"
  shows "v AND NOT (prefix_mask p) = take_bit (32 - unat p) v"
  using assms by (intro bit_word_eqI) (auto simp: bit_simps bit_prefix_mask)

lemma not_prefix_mask:
  assumes "1 \<le> p"
  shows "NOT (prefix_mask p) AND 0xFFFFFFFF = mask (32 - unat p)"
  unfolding all_ones using assms
  by (intro bit_word_eqI) (auto simp: bit_simps bit_prefix_mask)

lemma net_part_eq_iff:
  assumes "1 \<le> p"
  shows "v AND prefix_mask p = w AND prefix_mask p \<longleftrightarrow>
    drop_bit (32 - unat p) v = drop_bit (32 - unat p) w"
proof
  let ?k = "32 - unat p"
  assume e: "v AND prefix_mask p = w AND prefix_mask p"
  show "drop_bit ?k v = drop_bit ?k w"
  proof (rule bit_word_eqI)
    fix n
    have "bit (v AND prefix_mask p) (?k + n) = bit (w AND prefix_mask p) (?k + n)" by (simp add: e)
    then show "bit (drop_bit ?k v) n = bit (drop_bit ?k w) n"
      using bit_imp_le_length [of v "?k + n"] bit_imp_le_length [of w "?k + n"] assms
      by (auto simp: bit_simps bit_prefix_mask add.commute)
  qed
next
  let ?k = "32 - unat p"
  assume e: "drop_bit ?k v = drop_bit ?k w"
  show "v AND prefix_mask p = w AND prefix_mask p"
  proof (rule bit_word_eqI)
    fix n
    have "bit (drop_bit ?k v) (n - ?k) = bit (drop_bit ?k w) (n - ?k)" by (simp add: e)
    then show "bit (v AND prefix_mask p) n = bit (w AND prefix_mask p) n"
      using assms by (auto simp: bit_simps bit_prefix_mask)
  qed
qed

lemma same_subnet_iff:
  assumes "1 \<le> p" "p \<le> 32"
  shows "api_ipv4_same_subnet a b p \<longleftrightarrow>
    unat (to_u32 a) div 2 ^ (32 - unat p) = unat (to_u32 b) div 2 ^ (32 - unat p)"
proof -
  have "\<not> 32 < p" using assms(2) by simp
  then have "api_ipv4_same_subnet a b p \<longleftrightarrow>
      drop_bit (32 - unat p) (to_u32 a) = drop_bit (32 - unat p) (to_u32 b)"
    using net_part_eq_iff [OF assms(1)] by (simp add: api_ipv4_same_subnet_def)
  then show ?thesis
    by (simp only: word_unat_eq_iff unat_drop_bit_eq) (simp only: drop_bit_eq_div)
qed

lemma unat_take_bit: "unat (take_bit k (w :: u32)) = unat w mod 2 ^ k"
  by (simp only: unsigned_take_bit_eq) (simp only: take_bit_eq_mod)

lemma usable_host_iff:
  "api_ipv4_is_usable_host a p \<longleftrightarrow> 1 \<le> p \<and> p \<le> 30 \<and>
     0 < unat (to_u32 a) mod 2 ^ (32 - unat p) \<and>
     unat (to_u32 a) mod 2 ^ (32 - unat p) < 2 ^ (32 - unat p) - 1 \<and>
     a ! 0 \<noteq> 0 \<and> a ! 0 \<noteq> 127 \<and> a ! 0 < 224 \<and> \<not> (a ! 0 = 169 \<and> a ! 1 = 254)"
proof (cases "1 \<le> p \<and> p \<le> 30")
  case False
  then show ?thesis by (auto simp: api_ipv4_is_usable_host_def api_ipv4_prefix_is_valid_def)
next
  case True
  let ?k = "32 - unat p" and ?v = "to_u32 a"
  have k: "?k < 32" using True by (auto simp: word_le_nat_alt)
  have z: "take_bit ?k ?v = 0 \<longleftrightarrow> unat ?v mod 2 ^ ?k = 0"
    by (simp only: word_unat_eq_iff unat_take_bit unsigned_0)
  have "unat (mask ?k :: u32) = 2 ^ ?k - 1"
  proof -
    have "(2::nat) ^ ?k < 2 ^ 32" using k by (rule power_strict_increasing) simp
    then have "unat (of_nat (2 ^ ?k - 1) :: u32) = 2 ^ ?k - 1"
      by (intro unat_of_nat_small) simp
    moreover have "mask ?k = (of_nat (2 ^ ?k - 1) :: u32)" by (simp add: mask_eq_exp_minus_1)
    ultimately show ?thesis by (simp only:)
  qed
  then have m: "take_bit ?k ?v = mask ?k \<longleftrightarrow> unat ?v mod 2 ^ ?k = 2 ^ ?k - 1"
    by (simp only: word_unat_eq_iff unat_take_bit)
  have lt: "unat ?v mod 2 ^ ?k < 2 ^ ?k" by simp
  have u: "api_ipv4_is_usable_host a p \<longleftrightarrow> take_bit ?k ?v \<noteq> 0 \<and> take_bit ?k ?v \<noteq> mask ?k \<and>
     a ! 0 \<noteq> 0 \<and> a ! 0 \<noteq> 127 \<and> a ! 0 < 224 \<and> \<not> (a ! 0 = 169 \<and> a ! 1 = 254)"
    using True host_part [of p ?v] not_prefix_mask [of p]
    by (auto simp: api_ipv4_is_usable_host_def api_ipv4_prefix_is_valid_def Let_def not_le)
  have r: "take_bit ?k ?v \<noteq> 0 \<and> take_bit ?k ?v \<noteq> mask ?k \<longleftrightarrow>
     0 < unat ?v mod 2 ^ ?k \<and> unat ?v mod 2 ^ ?k < 2 ^ ?k - 1"
    unfolding z m using lt by linarith
  show ?thesis unfolding u using r True by blast
qed

section \<open>Dotted quads\<close>

fun dotted :: "bool \<Rightarrow> byte list \<Rightarrow> string" where
  "dotted first [] = []"
| "dotted first (b # bs) = (if first then [] else ''.'') @ nat_dec (unat b) @ dotted False bs"

lemma is_dec_iff: "is_dec c \<longleftrightarrow> 48 \<le> (of_char c :: nat) \<and> (of_char c :: nat) \<le> 57"
  by (simp add: is_dec_def less_eq_char_def)

lemma is_dec_digit_char [simp]: "d < 10 \<Longrightarrow> is_dec (digit_char d)"
  by (simp add: is_dec_iff of_char_digit_char)

lemma dec_val_digit_char [simp]: "d < 10 \<Longrightarrow> dec_val (digit_char d) = d"
  by (simp add: dec_val_def of_char_digit_char)

lemma dec_char_cases:
  assumes "is_dec c"
  shows "dec_val c < 10" "digit_char (dec_val c) = c"
proof -
  from assms have b: "48 \<le> (of_char c :: nat)" "(of_char c :: nat) \<le> 57"
    by (simp_all add: is_dec_iff)
  then show "dec_val c < 10" by (simp add: dec_val_def)
  from b(1) have "48 + dec_val c = (of_char c :: nat)" by (simp add: dec_val_def)
  then show "digit_char (dec_val c) = c" by (simp add: digit_char_def)
qed

lemma digit_char_zero: "d < 10 \<Longrightarrow> digit_char d = CHR ''0'' \<longleftrightarrow> d = 0"
proof
  assume "d < 10" "digit_char d = CHR ''0''"
  then have "(48::nat) + d = of_char CHR ''0''" using of_char_digit_char [of d] by simp
  then show "d = 0" by simp
qed (simp add: digit_char_def char_of_def bit_simps)

lemma dec_push: "d < 10 \<Longrightarrow> (q * 10 + d) div 10 = (q::nat)" "d < 10 \<Longrightarrow> (q * 10 + d) mod 10 = (d::nat)"
  by simp_all

lemma not_dec_dot [simp]: "\<not> is_dec CHR ''.''" "\<not> is_dec NUL"
  by (simp_all add: is_dec_iff)

lemma nat_dec_octet:
  "n < 10 \<Longrightarrow> nat_dec n = [digit_char n]"
  "10 \<le> n \<Longrightarrow> n < 100 \<Longrightarrow> nat_dec n = [digit_char (n div 10), digit_char (n mod 10)]"
  "100 \<le> n \<Longrightarrow> n < 1000 \<Longrightarrow>
     nat_dec n = [digit_char (n div 100), digit_char (n div 10 mod 10), digit_char (n mod 10)]"
  by (simp_all add: nat_dec.simps [of n] nat_dec.simps [of "n div 10"]
      nat_dec.simps [of "n div 100"] div_mult2_eq [symmetric] less_mult_imp_div_less)

lemma octet_loop_stop: "\<not> is_dec (peek s) \<Longrightarrow> octet_loop s len v = Some (len, v)"
  by (cases s) auto

lemma parse_octet_nat_dec:
  assumes n: "n < 256" and stop: "\<not> is_dec (peek rest)"
  shows "parse_octet (nat_dec n @ rest) = Some (of_nat n, length (nat_dec n))"
proof -
  consider "n < 10" | "10 \<le> n" "n < 100" | "100 \<le> n" by linarith
  then show ?thesis
  proof cases
    case 1
    then show ?thesis
      by (simp add: parse_octet_def nat_dec_octet octet_loop_stop [OF stop])
  next
    case 2
    then have "n div 10 < 10" "n div 10 \<noteq> 0" "n div 10 * 10 + n mod 10 = n" by simp_all
    with 2 n show ?thesis
      by (simp add: parse_octet_def nat_dec_octet octet_loop_stop [OF stop] digit_char_zero)
  next
    case 3
    have h: "n div 100 = n div 10 div 10" by (simp add: div_mult2_eq [symmetric])
    have "n div 100 < 10" "n div 100 \<noteq> 0" using 3 n by simp_all
    moreover have "(n div 100 * 10 + n div 10 mod 10) * 10 + n mod 10 = n"
      unfolding h by simp
    ultimately show ?thesis
      using 3 n by (simp add: parse_octet_def nat_dec_octet octet_loop_stop [OF stop] digit_char_zero)
  qed
qed

lemma parse_octet_sound:
  assumes "parse_octet s = Some (b, k)"
  obtains rest where "s = nat_dec (unat b) @ rest" "k = length (nat_dec (unat b))"
    "\<not> is_dec (peek rest)"
proof -
  from assms obtain len v where c1: "is_dec (peek s)" and lp: "octet_loop s 0 0 = Some (len, v)"
    and lead: "\<not> (1 < len \<and> peek s = CHR ''0'')" and v: "v \<le> 255" and b: "b = of_nat v" "k = len"
    by (auto simp: parse_octet_def split: if_splits option.splits prod.splits)
  have ub: "unat b = v" using v b by (simp add: unat_of_nat)
  from c1 obtain x s1 where s: "s = x # s1" and x: "is_dec x" by (cases s) auto
  note dx = dec_char_cases [OF x]
  have zx: "x = CHR ''0'' \<longleftrightarrow> dec_val x = 0" using digit_char_zero [OF dx(1)] dx(2) by simp
  show ?thesis
  proof (cases "is_dec (peek s1)")
    case False
    with lp s x have "len = 1" "v = dec_val x" by (simp_all add: octet_loop_stop)
    with False s dx ub b that [of s1] show ?thesis by (simp add: nat_dec_octet)
  next
    case True
    then obtain y s2 where s1: "s1 = y # s2" and y: "is_dec y" by (cases s1) auto
    note dy = dec_char_cases [OF y]
    show ?thesis
    proof (cases "is_dec (peek s2)")
      case False
      with lp s s1 x y have l: "len = 2" "v = dec_val x * 10 + dec_val y"
        by (simp_all add: octet_loop_stop)
      with lead s zx have "dec_val x \<noteq> 0" by simp
      with l dx(1) dy(1) have "10 \<le> v" "v < 100" "v div 10 = dec_val x" "v mod 10 = dec_val y"
        by simp_all
      with False s s1 dx dy ub b l that [of s2] show ?thesis by (simp add: nat_dec_octet)
    next
      case True
      then obtain z s3 where s2: "s2 = z # s3" and z: "is_dec z" by (cases s2) auto
      note dz = dec_char_cases [OF z]
      have stop: "\<not> is_dec (peek s3)"
        using lp s s1 s2 x y z by (cases s3) (auto split: if_splits)
      with lp s s1 s2 x y z have l: "len = 3" "v = (dec_val x * 10 + dec_val y) * 10 + dec_val z"
        by (simp_all add: octet_loop_stop)
      with lead s zx have "dec_val x \<noteq> 0" by simp
      with l dx(1) dy(1) dz(1) have "100 \<le> v" "v < 1000" by simp_all
      moreover have "v div 10 = dec_val x * 10 + dec_val y" "v mod 10 = dec_val z"
        using l(2) dec_push [OF dz(1), of "dec_val x * 10 + dec_val y"] by simp_all
      moreover from this(1) have "v div 10 div 10 = dec_val x" "v div 10 mod 10 = dec_val y"
        using dec_push [OF dy(1), of "dec_val x"] by simp_all
      then have "v div 100 = dec_val x" "v div 10 mod 10 = dec_val y"
        by (simp_all add: div_mult2_eq [symmetric])
      ultimately have "nat_dec (unat b) = [x, y, z]"
        using nat_dec_octet(3) [of v] by (simp only: ub dx dy dz)
      with stop s s1 s2 b(2) l(1) that [of s3] show ?thesis by simp
    qed
  qed
qed

lemma peek_dotted: "\<not> is_dec (peek rest) \<Longrightarrow> \<not> is_dec (peek (dotted False bs @ rest))"
  by (cases bs) auto

lemma ipv4_loop_dotted:
  "\<not> is_dec (peek rest) \<Longrightarrow>
     ipv4_loop (length bs) first (dotted first bs @ rest) = Some (bs, rest)"
proof (induction bs arbitrary: first)
  case Nil
  then show ?case by simp
next
  case (Cons b bs)
  have "parse_octet (nat_dec (unat b) @ dotted False bs @ rest) = Some (b, length (nat_dec (unat b)))"
    using parse_octet_nat_dec [OF _ peek_dotted [OF Cons.prems], of "unat b"] unsigned_less [of b]
    by simp
  with Cons show ?case by simp
qed

lemma ipv4_loop_sound:
  "ipv4_loop n first s = Some (bs, rest) \<Longrightarrow> length bs = n \<and> s = dotted first bs @ rest"
proof (induction n first s arbitrary: bs rule: ipv4_loop.induct)
  case (1 first s)
  then show ?case by simp
next
  case (2 n first s)
  let ?s1 = "if first then s else tl s"
  from "2.prems" have dot: "first \<or> peek s = CHR ''.''" by (auto split: if_splits)
  then have s: "s = (if first then [] else ''.'') @ ?s1" by (cases s) auto
  from "2.prems" dot obtain b k bs' where po: "parse_octet ?s1 = Some (b, k)"
    and lp: "ipv4_loop n False (drop k ?s1) = Some (bs', rest)" and bs: "bs = b # bs'"
    by (auto simp: Let_def split: option.splits prod.splits if_splits)
  from po obtain r where r: "?s1 = nat_dec (unat b) @ r" "k = length (nat_dec (unat b))"
    by (rule parse_octet_sound)
  have "length bs' = n \<and> drop k ?s1 = dotted False bs' @ rest"
    using "2.IH" [OF _ refl po refl] dot lp by auto
  with r have "length bs' = n" "?s1 = nat_dec (unat b) @ dotted False bs' @ rest" by auto
  with bs s show ?case by simp
qed

lemma api_parse_ipv4_exact:
  "api_parse_ipv4 (Some s) = Inr bs \<longleftrightarrow> length bs = 4 \<and> s = dotted True bs"
proof
  assume "api_parse_ipv4 (Some s) = Inr bs"
  then have "ipv4_loop 4 True s = Some (bs, [])"
    by (auto simp: api_parse_ipv4_def split: option.splits prod.splits if_splits)
  from ipv4_loop_sound [OF this] show "length bs = 4 \<and> s = dotted True bs" by simp
next
  assume "length bs = 4 \<and> s = dotted True bs"
  then show "api_parse_ipv4 (Some s) = Inr bs"
    using ipv4_loop_dotted [of "[]" bs True] by (simp add: api_parse_ipv4_def)
qed

section \<open>IPv6 addresses\<close>

definition is_v6_char :: "char \<Rightarrow> bool" where
  "is_v6_char c \<longleftrightarrow> hex_digit c \<noteq> None \<or> c = CHR '':'' \<or> c = CHR ''.''"

lemma is_v6_charI [intro]: "hex_digit c = Some d \<Longrightarrow> is_v6_char c"
  by (simp add: is_v6_char_def)

lemma dec_is_v6_char: "is_dec c \<Longrightarrow> is_v6_char c"
  by (simp add: is_v6_char_def hex_digit_def is_dec_def)

lemma nat_dec_octet_chars:
  assumes "n < 256" shows "\<forall>c \<in> set (nat_dec n). is_dec c"
proof -
  consider "n < 10" | "10 \<le> n" "n < 100" | "100 \<le> n" by linarith
  then show ?thesis
    using assms by cases (simp_all add: nat_dec_octet)
qed

lemma dotted_chars: "\<forall>c \<in> set (dotted first bs). is_v6_char c"
proof (induction bs arbitrary: first)
  case (Cons b bs)
  have "\<forall>c \<in> set (nat_dec (unat b)). is_v6_char c"
    using nat_dec_octet_chars [of "unat b"] unsigned_less [of b] dec_is_v6_char by auto
  with Cons.IH [of False] show ?case by (auto simp: is_v6_char_def)
qed simp

lemma hex_loop_taken:
  "hex_loop s len v = (n, w) \<Longrightarrow> len \<le> n \<and> (\<forall>c \<in> set (take (n - len) s). hex_digit c \<noteq> None)"
proof (induction s len v rule: hex_loop.induct)
  case (1 len v)
  then show ?case by simp
next
  case (2 c cs len v)
  show ?case
  proof (cases "4 \<le> len \<or> hex_digit c = None")
    case True
    with "2.prems" show ?thesis by (auto split: option.splits)
  next
    case False
    then obtain d where "hex_digit c = Some d" "\<not> 4 \<le> len" by auto
    with "2.IH" "2.prems" have "Suc len \<le> n" "\<forall>c \<in> set (take (n - Suc len) cs). hex_digit c \<noteq> None"
      by auto
    moreover from this have "n - len = Suc (n - Suc len)" by simp
    ultimately show ?thesis using \<open>hex_digit c = Some d\<close> by simp
  qed
qed

lemma parse_hex_group_chars:
  assumes "parse_hex_group s = Some (g, n)"
  shows "\<forall>c \<in> set (take n s). is_v6_char c"
  using assms hex_loop_taken [of s 0 0] 
  by (auto simp: parse_hex_group_def is_v6_char_def split: prod.splits if_splits)

lemma v6_after_sound:
  "v6_after seen s = V6_STOP seen' \<Longrightarrow> (\<forall>c \<in> set s. is_v6_char c) \<and> (seen \<longrightarrow> seen')"
  "v6_after seen s = V6_MORE seen' r \<Longrightarrow>
     ((\<forall>c \<in> set r. is_v6_char c) \<longrightarrow> (\<forall>c \<in> set s. is_v6_char c)) \<and> (seen \<longrightarrow> seen')"
  by (cases s; auto simp: is_v6_char_def split: if_splits list.splits)+

lemma v6_push_tail: "v6_push h t seen bs = (h', t') \<Longrightarrow> \<not> seen \<Longrightarrow> t' = t"
  by (simp add: v6_push_def)

lemma v6_loop_sound:
  "v6_loop s h t seen = Some (h', t', seen') \<Longrightarrow> (seen \<or> t = []) \<Longrightarrow>
     (\<forall>c \<in> set s. is_v6_char c) \<and> (seen' \<or> t' = [])"
proof (induction s h t seen arbitrary: h' t' seen' rule: v6_loop.induct)
  case (1 s h t seen)
  consider "s = []" | "s \<noteq> []" "group_has_dot s" | "s \<noteq> []" "\<not> group_has_dot s" by blast
  then show ?case
  proof cases
    case 1
    have "v6_loop [] h t seen = Some (h, t, seen)" by (simp add: v6_loop.simps [of "[]"])
    with 1 "1.prems" show ?thesis by auto
  next
    case 2
    then show ?thesis
      using "1.prems" dotted_chars
      by (auto simp: v6_loop.simps [of s] v6_push_def api_parse_ipv4_exact
          split: if_splits sum.splits)
  next
    case 3
    from "1.prems"(1) 3 obtain g n h1 t1 where g: "parse_hex_group s = Some (g, n)"
      and fits: "\<not> 16 < (if seen then length t else length h) + 2"
      and p: "v6_push h t seen [ucast (drop_bit 8 g), ucast (g AND 0xFF)] = (h1, t1)"
      and rest: "(v6_after seen (drop n s) = V6_STOP seen' \<and> t' = t1) \<or>
        (\<exists>b r. v6_after seen (drop n s) = V6_MORE b r \<and> v6_loop r h1 t1 b = Some (h', t', seen'))"
      by (auto simp: v6_loop.simps [of s] split: option.splits prod.splits if_splits v6_next.splits)
    have whole: "set s = set (take n s) \<union> set (drop n s)"
      by (metis append_take_drop_id set_append)
    have t1: "seen \<or> t1 = []" using p "1.prems"(2) v6_push_tail by blast
    have "(\<forall>c \<in> set (drop n s). is_v6_char c) \<and> (seen' \<or> t' = [])"
      using rest
    proof (elim disjE exE conjE)
      assume "v6_after seen (drop n s) = V6_STOP seen'" "t' = t1"
      with t1 v6_after_sound(1) show ?thesis by blast
    next
      fix b r assume a: "v6_after seen (drop n s) = V6_MORE b r"
        and l: "v6_loop r h1 t1 b = Some (h', t', seen')"
      from v6_after_sound(2) [OF a] t1 have "b \<or> t1 = []" by blast
      from "1.IH" [OF 3 g refl fits p [symmetric] a l this] v6_after_sound(2) [OF a]
      show ?thesis by blast
    qed
    with parse_hex_group_chars [OF g] whole show ?thesis by auto
  qed
qed

lemma v6_finish_length:
  "v6_finish (h, t, seen) = Inr bs \<Longrightarrow> seen \<or> t = [] \<Longrightarrow> length bs = 16"
  by (auto simp: v6_finish_def split: if_splits)

lemma api_parse_ipv6_sound:
  assumes "api_parse_ipv6 (Some s) = Inr bs"
  shows "length bs = 16 \<and> (\<forall>c \<in> set s. is_v6_char c)"
proof (cases "peek s = CHR '':''")
  case True
  then obtain s1 where s: "s = CHR '':'' # s1" by (cases s) auto
  with assms have "peek s1 = CHR '':''" by (auto simp: api_parse_ipv6_def split: if_splits)
  then obtain s2 where s2: "s = CHR '':'' # CHR '':'' # s2" using s by (cases s1) auto
  show ?thesis
  proof (cases "s2 = []")
    case True
    with assms s2 show ?thesis by (auto simp: api_parse_ipv6_def is_v6_char_def)
  next
    case False
    with assms s2 obtain h t seen where l: "v6_loop s2 [] [] True = Some (h, t, seen)"
      and f: "v6_finish (h, t, seen) = Inr bs"
      by (auto simp: api_parse_ipv6_def split: option.splits)
    from v6_loop_sound [OF l] v6_finish_length [OF f] s2 show ?thesis
      by (auto simp: is_v6_char_def)
  qed
next
  case False
  with assms obtain h t seen where l: "v6_loop s [] [] False = Some (h, t, seen)"
    and f: "v6_finish (h, t, seen) = Inr bs"
    by (auto simp: api_parse_ipv6_def split: option.splits)
  from v6_loop_sound [OF l] v6_finish_length [OF f] show ?thesis by auto
qed

text \<open>The fully written form of an address: eight groups of four digits.\<close>

fun v6_full :: "u16 list \<Rightarrow> string" where
  "v6_full [] = []"
| "v6_full (g # gs) = hex_fixed 4 (unat g) @ (if gs = [] then [] else CHR '':'' # v6_full gs)"

definition v6_bytes :: "u16 list \<Rightarrow> byte list" where
  "v6_bytes gs = concat (map (\<lambda>g. [ucast (drop_bit 8 g), ucast (g AND 0xFF)]) gs)"

lemma hex_loop_fixed:
  "len + k \<le> 4 \<Longrightarrow> n < 16 ^ k \<Longrightarrow>
     hex_loop (hex_fixed k n @ r) len v = hex_loop r (len + k) (v * 16 ^ k + n)"
proof (induction k arbitrary: n r)
  case 0
  then show ?case by simp
next
  case (Suc k)
  from Suc.prems(2) have n: "n div 16 < 16 ^ k" by (simp add: less_mult_imp_div_less mult.commute)
  have "hex_loop (hex_fixed (Suc k) n @ r) len v =
      hex_loop (hex_char (n mod 16) # r) (len + k) (v * 16 ^ k + n div 16)"
    using Suc.IH [OF _ n, of "hex_char (n mod 16) # r"] Suc.prems(1) by simp
  also have "\<dots> = hex_loop r (len + Suc k) ((v * 16 ^ k + n div 16) * 16 + n mod 16)"
    using Suc.prems(1) by (simp add: hex_digit_hex_char)
  also have "(v * 16 ^ k + n div 16) * 16 + n mod 16 = v * 16 ^ Suc k + n"
    by (simp add: algebra_simps)
  finally show ?case .
qed

lemma parse_hex_group_fixed:
  "parse_hex_group (hex_fixed 4 (unat (g :: u16)) @ r) = Some (g, 4)"
proof -
  have "unat g < 16 ^ 4" using unsigned_less [of g] by simp
  from hex_loop_fixed [of 0 4, OF _ this, of r 0]
  have "hex_loop (hex_fixed 4 (unat g) @ r) 0 0 = hex_loop r 4 (unat g)" by simp
  also have "\<dots> = (4, unat g)" by (cases r) simp_all
  finally show ?thesis by (simp add: parse_hex_group_def)
qed

lemma group_has_dot_hex:
  "group_has_dot (hex_fixed k n @ r) \<longleftrightarrow> group_has_dot r"
proof (induction k arbitrary: n r)
  case (Suc k)
  have "hex_char (n mod 16) \<noteq> CHR '':'' \<and> hex_char (n mod 16) \<noteq> CHR ''.''"
    using of_char_hex_char [of "n mod 16"] by (auto split: if_splits)
  with Suc show ?case by simp
qed simp

lemma v6_full_head:
  assumes "gs \<noteq> []"
  obtains c cs where "v6_full gs = c # cs" "c \<noteq> CHR '':''"
proof -
  have "\<exists>r. v6_full gs = hex_fixed 4 (unat (hd gs)) @ r" using assms by (cases gs) auto
  then obtain g r where f: "v6_full gs = hex_fixed 4 (unat (g :: u16)) @ r" by blast
  obtain c cs where h: "hex_fixed 4 (unat g) = c # cs"
    using length_hex_fixed [of 4 "unat g"] by (cases "hex_fixed 4 (unat g)") auto
  then obtain d where "c = hex_char d" "d < 16" using set_hex_fixed [of 4 "unat g"] by auto
  then have "c \<noteq> CHR '':''" using of_char_hex_char [of d] by (auto split: if_splits)
  with f h that show ?thesis by simp
qed

lemma v6_loop_full:
  "gs \<noteq> [] \<Longrightarrow> length h + 2 * length gs \<le> 16 \<Longrightarrow>
     v6_loop (v6_full gs) h [] False = Some (h @ v6_bytes gs, [], False)"
proof (induction gs arbitrary: h)
  case Nil
  then show ?case by simp
next
  case (Cons g gs)
  let ?r = "if gs = [] then [] else CHR '':'' # v6_full gs"
  let ?b = "[ucast (drop_bit 8 g), ucast (g AND 0xFF)] :: byte list"
  let ?s = "v6_full (g # gs)"
  have nodot: "\<not> group_has_dot ?s" by (simp add: group_has_dot_hex)
  have ne: "?s \<noteq> []" by (rule v6_full_head [of "g # gs"]) auto
  have pg: "parse_hex_group ?s = Some (g, 4)" and dr: "drop 4 ?s = ?r"
    using parse_hex_group_fixed [of g ?r] by simp_all
  have room: "\<not> 16 < length h + 2" using Cons.prems(2) by simp
  have step: "v6_loop ?s h [] False =
     (case v6_after False ?r of V6_BAD \<Rightarrow> None | V6_STOP b \<Rightarrow> Some (h @ ?b, [], b)
      | V6_MORE b r \<Rightarrow> v6_loop r (h @ ?b) [] b)"
    unfolding v6_loop.simps [of ?s] using nodot ne pg dr room
    by (simp add: v6_push_def del: v6_full.simps v6_after.simps)
  show ?case
  proof (cases "gs = []")
    case True
    then show ?thesis unfolding step by (simp add: v6_bytes_def)
  next
    case False
    then obtain c1 cs1 where "v6_full gs = c1 # cs1" "c1 \<noteq> CHR '':''" by (rule v6_full_head)
    with False have "v6_after False ?r = V6_MORE False (v6_full gs)" by simp
    with Cons.IH [OF False, of "h @ ?b"] Cons.prems(2) show ?thesis
      unfolding step by (simp add: v6_bytes_def)
  qed
qed

lemma api_parse_ipv6_full:
  assumes "length gs = 8"
  shows "api_parse_ipv6 (Some (v6_full gs)) = Inr (v6_bytes gs)"
proof -
  from assms have ne: "gs \<noteq> []" by auto
  then obtain c cs where f: "v6_full gs = c # cs" "c \<noteq> CHR '':''" by (rule v6_full_head)
  have "length (v6_bytes gs) = 2 * length gs"
    unfolding v6_bytes_def by (induction gs) auto
  with v6_loop_full [OF ne, of "[]"] f assms show ?thesis
    by (simp add: api_parse_ipv6_def v6_finish_def)
qed

section \<open>The list of field errors as an interface\<close>

text \<open>
  What a validator relies on when it reports problems: problems are kept in the order they were
  reported, the first \<open>limit\<close> of them are kept, and dropping one is recorded.
\<close>

type_synonym problem = "string \<times> api_field_code"

definition problem_ok :: "problem \<Rightarrow> bool" where
  "problem_ok p \<longleftrightarrow> path_is_valid (Some (fst p)) \<and> api_field_code_str (snd p) \<noteq> None"

definition add_all ::
    "('e \<Rightarrow> string option \<Rightarrow> api_field_code \<Rightarrow> errno option \<times> 'e) \<Rightarrow> 'e \<Rightarrow> problem list \<Rightarrow> 'e" where
  "add_all add e ps = foldl (\<lambda>e p. snd (add e (Some (fst p)) (snd p))) e ps"

lemma add_all_simps [simp]:
  "add_all add e [] = e"
  "add_all add e (p # ps) = add_all add (snd (add e (Some (fst p)) (snd p))) ps"
  "add_all add e (ps @ qs) = add_all add (add_all add e ps) qs"
  by (simp_all add: add_all_def)

lemma take_take_append: "take n (take n xs @ ys) = take n (xs @ ys)"
  by (auto simp: min_def)

locale error_sink =
  fixes add :: "'e \<Rightarrow> string option \<Rightarrow> api_field_code \<Rightarrow> errno option \<times> 'e"
    and fields :: "'e \<Rightarrow> problem list"
    and truncated :: "'e \<Rightarrow> bool"
    and limit :: nat
  assumes add_fields: "length (fields e) \<le> limit \<Longrightarrow> problem_ok (p, c) \<Longrightarrow>
      fields (snd (add e (Some p) c)) = take limit (fields e @ [(p, c)])"
    and add_truncated: "length (fields e) \<le> limit \<Longrightarrow> problem_ok (p, c) \<Longrightarrow>
      truncated (snd (add e (Some p) c)) \<longleftrightarrow> truncated e \<or> length (fields e) = limit"
begin

lemma fields_add_all:
  "length (fields e) \<le> limit \<Longrightarrow> \<forall>p \<in> set ps. problem_ok p \<Longrightarrow>
     fields (add_all add e ps) = take limit (fields e @ ps)"
proof (induction ps arbitrary: e)
  case Nil
  then show ?case by simp
next
  case (Cons p ps)
  let ?e = "snd (add e (Some (fst p)) (snd p))"
  have f: "fields ?e = take limit (fields e @ [p])"
    using add_fields [of e "fst p" "snd p"] Cons.prems by simp
  then have "length (fields ?e) \<le> limit" by simp
  with Cons.IH [of ?e] Cons.prems f show ?case
    using take_take_append [of limit "fields e @ [p]" ps] by simp
qed

lemma truncated_add_all:
  "length (fields e) \<le> limit \<Longrightarrow> \<forall>p \<in> set ps. problem_ok p \<Longrightarrow>
     truncated (add_all add e ps) \<longleftrightarrow> truncated e \<or> limit < length (fields e) + length ps"
proof (induction ps arbitrary: e)
  case Nil
  then show ?case by simp
next
  case (Cons p ps)
  let ?e = "snd (add e (Some (fst p)) (snd p))"
  have f: "fields ?e = take limit (fields e @ [p])"
    using add_fields [of e "fst p" "snd p"] Cons.prems by simp
  then have "length (fields ?e) \<le> limit" by simp
  with Cons.IH [of ?e] Cons.prems f add_truncated [of e "fst p" "snd p"] show ?case by auto
qed

end

definition field_problems :: "api_error \<Rightarrow> problem list" where
  "field_problems err = map (\<lambda>f. (ef_path f, ef_code f)) (ae_fields err)"

lemma api_error_add_field_ok:
  assumes "problem_ok (p, c)" "length (ae_fields err) \<le> CONFIG_API_VALIDATION_MAX_FIELDS"
  shows "snd (api_error_add_field err (Some p) c) =
    (if length (ae_fields err) = CONFIG_API_VALIDATION_MAX_FIELDS
     then err\<lparr>ae_fields_truncated := True\<rparr>
     else err\<lparr>ae_fields := ae_fields err @ [\<lparr>ef_path = p, ef_code = c\<rparr>]\<rparr>)"
  using assms
  by (auto simp: api_error_add_field_def problem_ok_def path_is_valid_iff copy_bounded_def
      API_ERROR_PATH_MAX_LEN_def)

interpretation api_fields: error_sink api_error_add_field field_problems ae_fields_truncated
  CONFIG_API_VALIDATION_MAX_FIELDS
proof unfold_locales
  fix e :: api_error and p c
  assume a: "length (field_problems e) \<le> CONFIG_API_VALIDATION_MAX_FIELDS" "problem_ok (p, c)"
  then have l: "length (ae_fields e) \<le> CONFIG_API_VALIDATION_MAX_FIELDS"
    by (simp add: field_problems_def)
  note eq = api_error_add_field_ok [OF a(2) l]
  show "field_problems (snd (api_error_add_field e (Some p) c)) =
     take CONFIG_API_VALIDATION_MAX_FIELDS (field_problems e @ [(p, c)])"
    unfolding eq using l by (auto simp: field_problems_def)
  show "ae_fields_truncated (snd (api_error_add_field e (Some p) c)) \<longleftrightarrow>
     ae_fields_truncated e \<or> length (field_problems e) = CONFIG_API_VALIDATION_MAX_FIELDS"
    unfolding eq by (auto simp: field_problems_def)
qed

section \<open>Properties\<close>

text \<open>C36: the IPv4 parser accepts exactly the canonical spelling of four octets - no leading
  zero, no space, nothing trailing - and returns those octets.\<close>

theorem ipv4_accepts_exactly_canonical:
  "api_parse_ipv4 (Some s) = Inr bs \<longleftrightarrow> length bs = 4 \<and> s = dotted True bs"
  by (rule api_parse_ipv4_exact)

text \<open>an accepted IPv6 text gives sixteen bytes and consists of hexadecimal digits, colons
  and dots only; in particular no zone identifier gets through.\<close>

theorem ipv6_sixteen_bytes_no_zone:
  assumes "api_parse_ipv6 (Some s) = Inr bs"
  shows "length bs = 16 \<and> (\<forall>c \<in> set s. is_v6_char c) \<and> CHR ''%'' \<notin> set s"
proof -
  have "\<not> is_v6_char CHR ''%''" by (simp add: is_v6_char_def hex_digit_def less_eq_char_def)
  with api_parse_ipv6_sound [OF assms] show ?thesis by auto
qed

theorem ipv6_sixteen_bytes_no_zone_witness:
  "api_parse_ipv6 (Some ''::1'') = Inr [0, 0, 0, 0, 0, 0, 0, 0, 0, 0, 0, 0, 0, 0, 0, 1] \<and>
   CHR ''%'' \<notin> set ''::1''"
proof -
  have h: "api_parse_ipv6 (Some ''::1'') = Inr [0, 0, 0, 0, 0, 0, 0, 0, 0, 0, 0, 0, 0, 0, 0, 1]"
    by (simp add: api_parse_ipv6_def v6_loop.simps [of "''1''"] parse_hex_group_def hex_digit_def
        less_eq_char_def v6_push_def v6_finish_def numeral_eq_Suc)
  from ipv6_sixteen_bytes_no_zone [OF h] h show ?thesis by blast
qed

text \<open>the fully written form of eight groups reads back as those groups, most significant
  byte first.\<close>

theorem ipv6_full_form_roundtrip:
  assumes "length gs = 8"
  shows "api_parse_ipv6 (Some (v6_full gs)) = Inr (v6_bytes gs)"
  using assms by (rule api_parse_ipv6_full)

theorem ipv6_full_form_roundtrip_witness:
  "api_parse_ipv6 (Some (v6_full [0x2001, 0xdb8, 0, 0, 0, 0, 0, 1])) =
     Inr (v6_bytes [0x2001, 0xdb8, 0, 0, 0, 0, 0, 1])"
  by (rule ipv6_full_form_roundtrip) simp

text \<open>a rejection is rendered whole or not at all: there is one body, of the contract's
  shape, and every capacity either returns exactly it (with room for the terminator) or refuses.\<close>

theorem error_rendered_whole_or_refused:
  assumes "error_table (ae_code err) = Some e"
  shows "api_error_to_json err cap =
    (if length (error_body e err) < cap then Inr (error_body e err) else Inl ENOMEM)"
  using assms by (rule api_error_to_json_eq)

theorem error_rendered_whole_or_refused_witness:
  "api_error_to_json \<lparr>ae_code = API_ERR_BUSY, ae_message = ''m'', ae_request_id = ''r'',
     ae_fields = [], ae_fields_truncated = False, ae_retry_after_seconds = 0\<rparr> 3 = Inl ENOMEM"
  using error_rendered_whole_or_refused [of "\<lparr>ae_code = API_ERR_BUSY, ae_message = ''m'',
     ae_request_id = ''r'', ae_fields = [], ae_fields_truncated = False,
     ae_retry_after_seconds = 0\<rparr>" "\<lparr>ee_name = ''busy'', ee_status = 409, ee_retryable = True\<rparr>" 3]
  by (simp add: error_body_def)

text \<open>escaped text stays inside the buffer, leaves what was there untouched, and a JSON reader
  gets the original text back.\<close>

theorem escaped_text_reads_back:
  assumes "length out < cap" "api_json_append_escaped cap out src = Inr res"
  shows "\<exists>esc. res = out @ esc \<and> length res < cap \<and> json_unescape esc = Some src"
  using assms by (rule json_append_escaped_roundtrip)

theorem escaped_text_reads_back_witness:
  "\<exists>esc. [CHR ''a'', CHR 0x5C, CHR ''n''] = [] @ esc \<and> length [CHR ''a'', CHR 0x5C, CHR ''n''] < 8 \<and>
     json_unescape esc = Some [CHR ''a'', CHR 0x0A]"
  by (rule escaped_text_reads_back) (simp_all add: api_json_append_escaped_def json_escape_def)

text \<open>an address is a usable host exactly when its prefix is one the contract permits, its
  host part is neither all zeros nor all ones, and it is outside the reserved ranges.\<close>

theorem usable_host_characterised:
  "api_ipv4_is_usable_host a p \<longleftrightarrow> 1 \<le> p \<and> p \<le> 30 \<and>
     0 < unat (to_u32 a) mod 2 ^ (32 - unat p) \<and>
     unat (to_u32 a) mod 2 ^ (32 - unat p) < 2 ^ (32 - unat p) - 1 \<and>
     a ! 0 \<noteq> 0 \<and> a ! 0 \<noteq> 127 \<and> a ! 0 < 224 \<and> \<not> (a ! 0 = 169 \<and> a ! 1 = 254)"
  by (rule usable_host_iff)

text \<open>two addresses share a subnet exactly when they have the same network number.\<close>

theorem same_subnet_same_network_number:
  assumes "1 \<le> p" "p \<le> 32"
  shows "api_ipv4_same_subnet a b p \<longleftrightarrow>
    unat (to_u32 a) div 2 ^ (32 - unat p) = unat (to_u32 b) div 2 ^ (32 - unat p)"
  using assms by (rule same_subnet_iff)

theorem same_subnet_same_network_number_witness:
  "api_ipv4_same_subnet [192, 168, 1, 7] [192, 168, 1, 1] 24 \<longleftrightarrow>
    unat (to_u32 [192, 168, 1, 7]) div 2 ^ (32 - unat (24 :: byte)) =
    unat (to_u32 [192, 168, 1, 1]) div 2 ^ (32 - unat (24 :: byte))"
  by (rule same_subnet_same_network_number) simp_all

text \<open>fewer than \<open>2 ^ 32\<close> request identifiers generated in a row are pairwise distinct, and
  each is an identifier the contract's pattern admits.\<close>

theorem request_ids_distinct_and_valid:
  assumes "13 \<le> cap" "n < 2 ^ 32" "rg_seeded g"
  shows "distinct (generate_many n cyc cap g) \<and>
    (\<forall>r \<in> set (generate_many n cyc cap g). \<exists>s. r = Inr s \<and> api_validate_opaque_id (Some s))"
  using request_ids_distinct [OF assms] generated_is_opaque
  by (auto simp: generate_many_eq [OF assms(1,3)] simp del: upt_Suc)

theorem request_ids_distinct_and_valid_witness:
  "distinct (generate_many 3 0 16 \<lparr>rg_state = 0xFFFFFFFF, rg_seeded = True\<rparr>)"
  using request_ids_distinct_and_valid [of 16 3 "\<lparr>rg_state = 0xFFFFFFFF, rg_seeded = True\<rparr>" 0]
  by simp

text \<open>the field list keeps the first problems in the order they were reported, never more than
  its capacity, and says so when one was dropped.\<close>

theorem field_list_keeps_first_problems:
  assumes "length (field_problems err) \<le> CONFIG_API_VALIDATION_MAX_FIELDS"
    and "\<forall>p \<in> set ps. problem_ok p"
  shows "field_problems (add_all api_error_add_field err ps) =
      take CONFIG_API_VALIDATION_MAX_FIELDS (field_problems err @ ps) \<and>
    (ae_fields_truncated (add_all api_error_add_field err ps) \<longleftrightarrow> ae_fields_truncated err \<or>
      CONFIG_API_VALIDATION_MAX_FIELDS < length (field_problems err) + length ps)"
  using api_fields.fields_add_all [OF assms] api_fields.truncated_add_all [OF assms] by blast

theorem field_list_keeps_first_problems_witness:
  "field_problems (add_all api_error_add_field
     \<lparr>ae_code = API_ERR_VALIDATION_FAILED, ae_message = [], ae_request_id = [], ae_fields = [],
      ae_fields_truncated = False, ae_retry_after_seconds = 0\<rparr> [(''/a'', API_FIELD_REQUIRED)]) =
   [(''/a'', API_FIELD_REQUIRED)]"
  using field_list_keeps_first_problems [of "\<lparr>ae_code = API_ERR_VALIDATION_FAILED, ae_message = [],
      ae_request_id = [], ae_fields = [], ae_fields_truncated = False,
      ae_retry_after_seconds = 0\<rparr>" "[(''/a'', API_FIELD_REQUIRED)]"]
  by (simp add: field_problems_def CONFIG_API_VALIDATION_MAX_FIELDS_def problem_ok_def
      path_is_valid_iff)

end
