(* ===== verification/Job_Manager.thy ===== *)
theory Job_Manager
  imports Cedar_Prelude
begin

text \<open>
  Model of \<^verbatim>\<open>modules/job-manager/lib/job_manager.c\<close>: the fixed pool of full job records, the
  compact retention records, and every entry point over them. Each entry point runs whole under
  the module's mutex, so it is one function from the manager's state to its result and the next
  state. Readings of the injected clock are arguments, one per call of \<^verbatim>\<open>now_ms()\<close>; uptimes are
  unbounded integers. A NULL text is \<open>None\<close>. Fixed character arrays hold the text up to its
  terminator, cut as \<^verbatim>\<open>strncpy\<close> with \<^verbatim>\<open>sizeof - 1\<close> cuts it.
\<close>

section \<open>Data\<close>

text \<open>\<open>JOB_KIND_OTHER\<close> and \<open>JOB_STATE_OTHER\<close> stand for the values at or above the \<^verbatim>\<open>COUNT\<close> constants.\<close>

datatype job_kind =
    JOB_KIND_MATTER_OPEN | JOB_KIND_MATTER_CLOSE | JOB_KIND_NETWORK_APPLY
  | JOB_KIND_NETWORK_DISCARD | JOB_KIND_WIFI_SCAN | JOB_KIND_UPLOAD_CHUNK
  | JOB_KIND_FIRMWARE_VERIFY | JOB_KIND_FIRMWARE_DELETE | JOB_KIND_COPROCESSOR_UPDATE
  | JOB_KIND_PASSWORD_CHANGE | JOB_KIND_SYSTEM_UPDATE | JOB_KIND_OTHER

datatype job_state =
    JOB_STATE_QUEUED | JOB_STATE_RUNNING | JOB_STATE_WAITING_CONFIRMATION | JOB_STATE_SUCCEEDED
  | JOB_STATE_FAILED | JOB_STATE_CANCELLED | JOB_STATE_INTERRUPTED | JOB_STATE_OTHER

datatype job_progress_unit =
    JOB_PROGRESS_UNIT_NONE | JOB_PROGRESS_UNIT_BYTES | JOB_PROGRESS_UNIT_RECORDS
  | JOB_PROGRESS_UNIT_PERCENT

record job_progress =
  jp_completed :: u64
  jp_total :: u64
  jp_total_known :: bool
  jp_unit :: job_progress_unit

record job_error =
  je_code :: string
  je_retryable :: bool

record job_record =
  jr_used :: bool
  jr_id :: string
  jr_kind :: job_kind
  jr_state :: job_state
  jr_phase :: string
  jr_progress :: job_progress
  jr_cancellable :: bool
  jr_created_ms :: int
  jr_updated_ms :: int
  jr_error :: job_error
  jr_has_error :: bool
  jr_key :: string
  jr_request_hash :: u32

record job_compact =
  jc_used :: bool
  jc_id :: string
  jc_key :: string
  jc_request_hash :: u32
  jc_kind :: job_kind
  jc_state :: job_state
  jc_error :: job_error
  jc_has_error :: bool
  jc_created_ms :: int
  jc_retired_ms :: int

record job_snapshot =
  js_id :: string
  js_kind :: job_kind
  js_state :: job_state
  js_phase :: string
  js_progress :: job_progress
  js_cancellable :: bool
  js_created_uptime_ms :: int
  js_updated_uptime_ms :: int
  js_error :: job_error
  js_has_error :: bool
  js_compact :: bool

record job_create_params =
  jcp_kind :: job_kind
  jcp_cancellable :: bool
  jcp_idempotency_key :: "string option"
  jcp_request_hash :: u32

datatype job_lookup_result = JOB_LOOKUP_NONE | JOB_LOOKUP_EXISTING | JOB_LOOKUP_CONFLICT

datatype job_create_result =
  JOB_CREATE_NEW | JOB_CREATE_EXISTING | JOB_CREATE_CONFLICT | JOB_CREATE_EXHAUSTED | JOB_CREATE_INVALID

record job_manager =
  jm_records :: "job_record list"
  jm_compacts :: "job_compact list"
  jm_id_counter :: u32

definition JOB_ID_MAX_LEN :: nat where "JOB_ID_MAX_LEN = 31"
definition JOB_IDEMPOTENCY_KEY_MAX_LEN :: nat where "JOB_IDEMPOTENCY_KEY_MAX_LEN = 96"
definition JOB_PHASE_MAX_LEN :: nat where "JOB_PHASE_MAX_LEN = 23"
definition JOB_ERROR_CODE_MAX_LEN :: nat where "JOB_ERROR_CODE_MAX_LEN = 31"
definition CONFIG_JOB_MANAGER_MAX_JOBS :: nat where "CONFIG_JOB_MANAGER_MAX_JOBS = 16"
definition CONFIG_JOB_MANAGER_DEDUPE_SLOTS :: nat where "CONFIG_JOB_MANAGER_DEDUPE_SLOTS = 256"
definition CONFIG_JOB_MANAGER_RETENTION_SECONDS :: int where
  "CONFIG_JOB_MANAGER_RETENTION_SECONDS = 900"
definition INT64_MAX :: int where "INT64_MAX = 2 ^ 63 - 1"

text \<open>Records after \<^verbatim>\<open>memset(..., 0, ...)\<close>.\<close>

definition zero_progress :: job_progress where
  "zero_progress = \<lparr>jp_completed = 0, jp_total = 0, jp_total_known = False,
     jp_unit = JOB_PROGRESS_UNIT_NONE\<rparr>"

definition zero_error :: job_error where
  "zero_error = \<lparr>je_code = [], je_retryable = False\<rparr>"

definition zero_record :: job_record where
  "zero_record = \<lparr>jr_used = False, jr_id = [], jr_kind = JOB_KIND_MATTER_OPEN,
     jr_state = JOB_STATE_QUEUED, jr_phase = [], jr_progress = zero_progress,
     jr_cancellable = False, jr_created_ms = 0, jr_updated_ms = 0, jr_error = zero_error,
     jr_has_error = False, jr_key = [], jr_request_hash = 0\<rparr>"

definition zero_compact :: job_compact where
  "zero_compact = \<lparr>jc_used = False, jc_id = [], jc_key = [], jc_request_hash = 0,
     jc_kind = JOB_KIND_MATTER_OPEN, jc_state = JOB_STATE_QUEUED, jc_error = zero_error,
     jc_has_error = False, jc_created_ms = 0, jc_retired_ms = 0\<rparr>"

section \<open>Names and transitions\<close>

fun job_state_is_terminal :: "job_state \<Rightarrow> bool" where
  "job_state_is_terminal JOB_STATE_SUCCEEDED = True"
| "job_state_is_terminal JOB_STATE_FAILED = True"
| "job_state_is_terminal JOB_STATE_CANCELLED = True"
| "job_state_is_terminal JOB_STATE_INTERRUPTED = True"
| "job_state_is_terminal _ = False"

fun job_kind_str :: "job_kind \<Rightarrow> string option" where
  "job_kind_str JOB_KIND_MATTER_OPEN = Some ''matter_open''"
| "job_kind_str JOB_KIND_MATTER_CLOSE = Some ''matter_close''"
| "job_kind_str JOB_KIND_NETWORK_APPLY = Some ''network_apply''"
| "job_kind_str JOB_KIND_NETWORK_DISCARD = Some ''network_discard''"
| "job_kind_str JOB_KIND_WIFI_SCAN = Some ''wifi_scan''"
| "job_kind_str JOB_KIND_UPLOAD_CHUNK = Some ''upload_chunk''"
| "job_kind_str JOB_KIND_FIRMWARE_VERIFY = Some ''firmware_verify''"
| "job_kind_str JOB_KIND_FIRMWARE_DELETE = Some ''firmware_delete''"
| "job_kind_str JOB_KIND_COPROCESSOR_UPDATE = Some ''coprocessor_update''"
| "job_kind_str JOB_KIND_PASSWORD_CHANGE = Some ''password_change''"
| "job_kind_str JOB_KIND_SYSTEM_UPDATE = Some ''system_update''"
| "job_kind_str JOB_KIND_OTHER = None"

fun job_state_str :: "job_state \<Rightarrow> string option" where
  "job_state_str JOB_STATE_QUEUED = Some ''queued''"
| "job_state_str JOB_STATE_RUNNING = Some ''running''"
| "job_state_str JOB_STATE_WAITING_CONFIRMATION = Some ''waiting_confirmation''"
| "job_state_str JOB_STATE_SUCCEEDED = Some ''succeeded''"
| "job_state_str JOB_STATE_FAILED = Some ''failed''"
| "job_state_str JOB_STATE_CANCELLED = Some ''cancelled''"
| "job_state_str JOB_STATE_INTERRUPTED = Some ''interrupted''"
| "job_state_str JOB_STATE_OTHER = None"

fun job_progress_unit_str :: "job_progress_unit \<Rightarrow> string option" where
  "job_progress_unit_str JOB_PROGRESS_UNIT_BYTES = Some ''bytes''"
| "job_progress_unit_str JOB_PROGRESS_UNIT_RECORDS = Some ''records''"
| "job_progress_unit_str JOB_PROGRESS_UNIT_PERCENT = Some ''percent''"
| "job_progress_unit_str JOB_PROGRESS_UNIT_NONE = None"

definition transition_allowed :: "job_state \<Rightarrow> job_state \<Rightarrow> bool" where
  "transition_allowed from_state to_state =
     (if job_state_is_terminal from_state then False
      else if job_state_is_terminal to_state then True
      else (case from_state of
              JOB_STATE_QUEUED \<Rightarrow> to_state = JOB_STATE_RUNNING
            | JOB_STATE_RUNNING \<Rightarrow> to_state = JOB_STATE_WAITING_CONFIRMATION
            | JOB_STATE_WAITING_CONFIRMATION \<Rightarrow> to_state = JOB_STATE_RUNNING
            | _ \<Rightarrow> False))"

section \<open>Searching and retiring\<close>

text \<open>Pool slots are indices; a NULL record pointer is \<open>None\<close>.\<close>

definition find_record :: "string option \<Rightarrow> job_manager \<Rightarrow> nat option" where
  "find_record jid m =
     (case jid of None \<Rightarrow> None
      | Some s \<Rightarrow> find_index (\<lambda>r. jr_used r \<and> jr_id r = s) (jm_records m))"

definition find_compact_by_id :: "string \<Rightarrow> job_manager \<Rightarrow> nat option" where
  "find_compact_by_id s m = find_index (\<lambda>c. jc_used c \<and> jc_id c = s) (jm_compacts m)"

definition expire_compacts :: "int \<Rightarrow> job_manager \<Rightarrow> job_manager" where
  "expire_compacts now m =
     (let cutoff = now - CONFIG_JOB_MANAGER_RETENTION_SECONDS * 1000
      in m\<lparr>jm_compacts := map (\<lambda>c. if jc_used c \<and> jc_retired_ms c < cutoff then zero_compact else c)
             (jm_compacts m)\<rparr>)"

text \<open>The scan of \<^verbatim>\<open>retire_to_compact\<close>: the first free slot, else the one retired longest ago.\<close>

fun pick_compact :: "nat \<Rightarrow> int \<Rightarrow> nat option \<Rightarrow> job_compact list \<Rightarrow> nat option" where
  "pick_compact i oldest slot [] = slot"
| "pick_compact i oldest slot (c # cs) =
     (if \<not> jc_used c then Some i
      else if jc_retired_ms c < oldest then pick_compact (Suc i) (jc_retired_ms c) (Some i) cs
      else pick_compact (Suc i) oldest slot cs)"

definition retire_to_compact :: "int \<Rightarrow> job_record \<Rightarrow> job_compact list \<Rightarrow> job_compact list" where
  "retire_to_compact now rec cs =
     (case pick_compact 0 INT64_MAX None cs of
        None \<Rightarrow> cs
      | Some i \<Rightarrow> cs[i := \<lparr>jc_used = True, jc_id = take JOB_ID_MAX_LEN (jr_id rec),
           jc_key = take JOB_IDEMPOTENCY_KEY_MAX_LEN (jr_key rec),
           jc_request_hash = jr_request_hash rec, jc_kind = jr_kind rec, jc_state = jr_state rec,
           jc_error = jr_error rec, jc_has_error = jr_has_error rec,
           jc_created_ms = jr_created_ms rec, jc_retired_ms = now\<rparr>])"

text \<open>The second scan of \<^verbatim>\<open>claim_record\<close>: the terminal job updated longest ago.\<close>

fun oldest_terminal :: "nat \<Rightarrow> int \<Rightarrow> nat option \<Rightarrow> job_record list \<Rightarrow> nat option" where
  "oldest_terminal i oldest victim [] = victim"
| "oldest_terminal i oldest victim (r # rs) =
     (if job_state_is_terminal (jr_state r) \<and> jr_updated_ms r < oldest
      then oldest_terminal (Suc i) (jr_updated_ms r) (Some i) rs
      else oldest_terminal (Suc i) oldest victim rs)"

definition claim_record :: "int \<Rightarrow> job_manager \<Rightarrow> nat option \<times> job_manager" where
  "claim_record now m =
     (case find_index (\<lambda>r. \<not> jr_used r) (jm_records m) of
        Some i \<Rightarrow> (Some i, m)
      | None \<Rightarrow>
          (case oldest_terminal 0 INT64_MAX None (jm_records m) of
             None \<Rightarrow> (None, m)
           | Some i \<Rightarrow>
               (Some i, m\<lparr>jm_compacts := retire_to_compact now (jm_records m ! i) (jm_compacts m),
                          jm_records := (jm_records m)[i := zero_record]\<rparr>)))"

definition snapshot_from_record :: "job_record \<Rightarrow> job_snapshot" where
  "snapshot_from_record r = \<lparr>js_id = take JOB_ID_MAX_LEN (jr_id r), js_kind = jr_kind r,
     js_state = jr_state r, js_phase = take JOB_PHASE_MAX_LEN (jr_phase r),
     js_progress = jr_progress r, js_cancellable = jr_cancellable r,
     js_created_uptime_ms = jr_created_ms r, js_updated_uptime_ms = jr_updated_ms r,
     js_error = jr_error r, js_has_error = jr_has_error r, js_compact = False\<rparr>"

definition snapshot_from_compact :: "job_compact \<Rightarrow> job_snapshot" where
  "snapshot_from_compact c = \<lparr>js_id = take JOB_ID_MAX_LEN (jc_id c), js_kind = jc_kind c,
     js_state = jc_state c, js_phase = [], js_progress = zero_progress, js_cancellable = False,
     js_created_uptime_ms = jc_created_ms c, js_updated_uptime_ms = jc_retired_ms c,
     js_error = jc_error c, js_has_error = jc_has_error c, js_compact = True\<rparr>"

definition lookup_locked ::
    "string \<Rightarrow> u32 \<Rightarrow> job_manager \<Rightarrow> job_lookup_result \<times> job_snapshot option" where
  "lookup_locked key request_hash m =
     (case find_index (\<lambda>r. jr_used r \<and> jr_key r \<noteq> [] \<and> jr_key r = key) (jm_records m) of
        Some i \<Rightarrow>
          (if jr_request_hash (jm_records m ! i) \<noteq> request_hash then (JOB_LOOKUP_CONFLICT, None)
           else (JOB_LOOKUP_EXISTING, Some (snapshot_from_record (jm_records m ! i))))
      | None \<Rightarrow>
          (case find_index (\<lambda>c. jc_used c \<and> jc_key c \<noteq> [] \<and> jc_key c = key) (jm_compacts m) of
             Some i \<Rightarrow>
               (if jc_request_hash (jm_compacts m ! i) \<noteq> request_hash
                then (JOB_LOOKUP_CONFLICT, None)
                else (JOB_LOOKUP_EXISTING, Some (snapshot_from_compact (jm_compacts m ! i))))
           | None \<Rightarrow> (JOB_LOOKUP_NONE, None)))"

section \<open>Entry points\<close>

definition job_manager_init :: job_manager where
  "job_manager_init = \<lparr>jm_records = replicate CONFIG_JOB_MANAGER_MAX_JOBS zero_record,
     jm_compacts = replicate CONFIG_JOB_MANAGER_DEDUPE_SLOTS zero_compact, jm_id_counter = 0\<rparr>"

definition job_find_by_key ::
    "int \<Rightarrow> string option \<Rightarrow> u32 \<Rightarrow> job_manager
       \<Rightarrow> (job_lookup_result \<times> job_snapshot option) \<times> job_manager" where
  "job_find_by_key now key request_hash m =
     (case key of
        None \<Rightarrow> ((JOB_LOOKUP_NONE, None), m)
      | Some k \<Rightarrow>
          if k = [] then ((JOB_LOOKUP_NONE, None), m)
          else let m1 = expire_compacts now m in (lookup_locked k request_hash m1, m1))"

definition job_id_of :: "u32 \<Rightarrow> string" where
  "job_id_of n = take JOB_ID_MAX_LEN (''job_'' @ hex8 n)"

text \<open>The record \<^verbatim>\<open>job_create\<close> writes into the claimed slot.\<close>

definition new_record :: "int \<Rightarrow> u32 \<Rightarrow> job_create_params \<Rightarrow> job_record" where
  "new_record now n p = zero_record\<lparr>jr_used := True, jr_kind := jcp_kind p,
     jr_state := JOB_STATE_QUEUED, jr_cancellable := jcp_cancellable p, jr_created_ms := now,
     jr_updated_ms := now, jr_request_hash := jcp_request_hash p,
     jr_key := (case jcp_idempotency_key p of None \<Rightarrow> []
                | Some k \<Rightarrow> take JOB_IDEMPOTENCY_KEY_MAX_LEN k),
     jr_id := job_id_of n\<rparr>"

definition create_fresh ::
    "int \<Rightarrow> int \<Rightarrow> job_create_params \<Rightarrow> job_manager
       \<Rightarrow> (job_create_result \<times> job_snapshot option) \<times> job_manager" where
  "create_fresh t_retire t_create p m =
     (case claim_record t_retire m of
        (None, m1) \<Rightarrow> ((JOB_CREATE_EXHAUSTED, None), m1)
      | (Some i, m1) \<Rightarrow>
          let n = jm_id_counter m1 + 1; r = new_record t_create n p
          in ((JOB_CREATE_NEW, Some (snapshot_from_record r)),
              m1\<lparr>jm_records := (jm_records m1)[i := r], jm_id_counter := n\<rparr>))"

definition job_create ::
    "int \<Rightarrow> int \<Rightarrow> int \<Rightarrow> job_create_params option \<Rightarrow> job_manager
       \<Rightarrow> (job_create_result \<times> job_snapshot option) \<times> job_manager" where
  "job_create t_expire t_retire t_create params m =
     (case params of
        None \<Rightarrow> ((JOB_CREATE_INVALID, None), m)
      | Some p \<Rightarrow>
          if jcp_kind p = JOB_KIND_OTHER then ((JOB_CREATE_INVALID, None), m)
          else (case jcp_idempotency_key p of
            None \<Rightarrow> create_fresh t_retire t_create p (expire_compacts t_expire m)
          | Some k \<Rightarrow>
              if k = [] \<or> JOB_IDEMPOTENCY_KEY_MAX_LEN < length k
              then ((JOB_CREATE_INVALID, None), m)
              else let m1 = expire_compacts t_expire m in
                (case lookup_locked k (jcp_request_hash p) m1 of
                   (JOB_LOOKUP_EXISTING, s) \<Rightarrow> ((JOB_CREATE_EXISTING, s), m1)
                 | (JOB_LOOKUP_CONFLICT, _) \<Rightarrow> ((JOB_CREATE_CONFLICT, None), m1)
                 | (JOB_LOOKUP_NONE, _) \<Rightarrow> create_fresh t_retire t_create p m1)))"

text \<open>
  The setters: find the record, refuse with an \<open>errno\<close> or change it in place. \<open>None\<close> is the
  return value 0.
\<close>

definition put_record :: "nat \<Rightarrow> job_record \<Rightarrow> job_manager \<Rightarrow> job_manager" where
  "put_record i r m = m\<lparr>jm_records := (jm_records m)[i := r]\<rparr>"

definition job_set_state ::
    "int \<Rightarrow> string option \<Rightarrow> job_state \<Rightarrow> job_manager \<Rightarrow> errno option \<times> job_manager" where
  "job_set_state now jid st m =
     (if st = JOB_STATE_OTHER then (Some EINVAL, m)
      else (case find_record jid m of
        None \<Rightarrow> (Some ENOENT, m)
      | Some i \<Rightarrow> let r = jm_records m ! i in
          if \<not> transition_allowed (jr_state r) st then (Some EINVAL, m)
          else (None, put_record i (r\<lparr>jr_state := st, jr_updated_ms := now,
                 jr_cancellable := (if job_state_is_terminal st then False
                                    else jr_cancellable r)\<rparr>) m)))"

definition job_fail ::
    "int \<Rightarrow> string option \<Rightarrow> string option \<Rightarrow> bool \<Rightarrow> job_manager \<Rightarrow> errno option \<times> job_manager" where
  "job_fail now jid error_code retryable m =
     (case error_code of
        None \<Rightarrow> (Some EINVAL, m)
      | Some code \<Rightarrow>
          if code = [] then (Some EINVAL, m)
          else (case find_record jid m of
            None \<Rightarrow> (Some ENOENT, m)
          | Some i \<Rightarrow> let r = jm_records m ! i in
              if \<not> transition_allowed (jr_state r) JOB_STATE_FAILED then (Some EINVAL, m)
              else (None, put_record i (r\<lparr>jr_state := JOB_STATE_FAILED, jr_cancellable := False,
                     jr_has_error := True,
                     jr_error := \<lparr>je_code = take JOB_ERROR_CODE_MAX_LEN code,
                                  je_retryable = retryable\<rparr>,
                     jr_updated_ms := now\<rparr>) m)))"

definition job_set_phase ::
    "int \<Rightarrow> string option \<Rightarrow> string option \<Rightarrow> job_manager \<Rightarrow> errno option \<times> job_manager" where
  "job_set_phase now jid phase m =
     (case phase of
        None \<Rightarrow> (Some EINVAL, m)
      | Some ph \<Rightarrow>
          (case find_record jid m of
             None \<Rightarrow> (Some ENOENT, m)
           | Some i \<Rightarrow> let r = jm_records m ! i in
               if job_state_is_terminal (jr_state r) then (Some EINVAL, m)
               else (None, put_record i (r\<lparr>jr_phase := take JOB_PHASE_MAX_LEN ph,
                      jr_progress := zero_progress, jr_updated_ms := now\<rparr>) m)))"

definition job_set_progress ::
    "int \<Rightarrow> string option \<Rightarrow> u64 \<Rightarrow> u64 \<Rightarrow> bool \<Rightarrow> job_progress_unit \<Rightarrow> job_manager
       \<Rightarrow> errno option \<times> job_manager" where
  "job_set_progress now jid completed tot total_known un m =
     (case find_record jid m of
        None \<Rightarrow> (Some ENOENT, m)
      | Some i \<Rightarrow> let r = jm_records m ! i in
          if job_state_is_terminal (jr_state r) then (Some EINVAL, m)
          else (None, put_record i (r\<lparr>jr_progress := \<lparr>jp_completed = completed,
                   jp_total = (if total_known then tot else 0), jp_total_known = total_known,
                   jp_unit = un\<rparr>, jr_updated_ms := now\<rparr>) m))"

definition job_get ::
    "int \<Rightarrow> string option \<Rightarrow> job_manager \<Rightarrow> (errno + job_snapshot) \<times> job_manager" where
  "job_get now jid m =
     (case jid of
        None \<Rightarrow> (Inl EINVAL, m)
      | Some s \<Rightarrow>
          let m1 = expire_compacts now m in
          (case find_record jid m1 of
             Some i \<Rightarrow> (Inr (snapshot_from_record (jm_records m1 ! i)), m1)
           | None \<Rightarrow>
               (case find_compact_by_id s m1 of
                  Some j \<Rightarrow> (Inr (snapshot_from_compact (jm_compacts m1 ! j)), m1)
                | None \<Rightarrow> (Inl ENOENT, m1))))"

definition job_set_cancellable ::
    "int \<Rightarrow> string option \<Rightarrow> bool \<Rightarrow> job_manager \<Rightarrow> errno option \<times> job_manager" where
  "job_set_cancellable now jid cancellable m =
     (case find_record jid m of
        None \<Rightarrow> (Some ENOENT, m)
      | Some i \<Rightarrow> let r = jm_records m ! i in
          if job_state_is_terminal (jr_state r) then (Some EINVAL, m)
          else (None, put_record i (r\<lparr>jr_cancellable := cancellable, jr_updated_ms := now\<rparr>) m))"

definition job_cancel :: "int \<Rightarrow> string option \<Rightarrow> job_manager \<Rightarrow> errno option \<times> job_manager" where
  "job_cancel now jid m =
     (case find_record jid m of
        None \<Rightarrow> (Some ENOENT, m)
      | Some i \<Rightarrow> let r = jm_records m ! i in
          if job_state_is_terminal (jr_state r) then (Some EINVAL, m)
          else if \<not> jr_cancellable r then (Some EPERM, m)
          else (None, put_record i (r\<lparr>jr_state := JOB_STATE_CANCELLED, jr_cancellable := False,
                 jr_updated_ms := now\<rparr>) m))"

definition job_active :: "job_record \<Rightarrow> bool" where
  "job_active r \<longleftrightarrow> jr_used r \<and> \<not> job_state_is_terminal (jr_state r)"

definition job_active_count :: "job_manager \<Rightarrow> nat" where
  "job_active_count m = foldl (\<lambda>n r. if job_active r then n + 1 else n) 0 (jm_records m)"

text \<open>\<open>cap\<close> is \<open>None\<close> for a NULL destination; the copied identifiers and the number of active jobs.\<close>

definition job_active_ids :: "nat option \<Rightarrow> job_manager \<Rightarrow> string list \<times> nat" where
  "job_active_ids cap m =
     foldl (\<lambda>(ids, n) r.
        if \<not> jr_used r \<or> job_state_is_terminal (jr_state r) then (ids, n)
        else ((case cap of None \<Rightarrow> ids | Some k \<Rightarrow> if n < k then ids @ [jr_id r] else ids), n + 1))
      ([], 0) (jm_records m)"

section \<open>One operation, and runs of operations\<close>

text \<open>\<^verbatim>\<open>job_manager_init\<close> is the start of a run, once at boot, so it is not an operation of one.\<close>

datatype job_op =
    Op_create int int int "job_create_params option"
  | Op_set_state int "string option" job_state
  | Op_fail int "string option" "string option" bool
  | Op_set_phase int "string option" "string option"
  | Op_set_progress int "string option" u64 u64 bool job_progress_unit
  | Op_get int "string option"
  | Op_find_by_key int "string option" u32
  | Op_set_cancellable int "string option" bool
  | Op_cancel int "string option"

fun job_step :: "job_op \<Rightarrow> job_manager \<Rightarrow> job_manager" where
  "job_step (Op_create t1 t2 t3 p) m = snd (job_create t1 t2 t3 p m)"
| "job_step (Op_set_state t j s) m = snd (job_set_state t j s m)"
| "job_step (Op_fail t j c r) m = snd (job_fail t j c r m)"
| "job_step (Op_set_phase t j p) m = snd (job_set_phase t j p m)"
| "job_step (Op_set_progress t j c tot k u) m = snd (job_set_progress t j c tot k u m)"
| "job_step (Op_get t j) m = snd (job_get t j m)"
| "job_step (Op_find_by_key t k h) m = snd (job_find_by_key t k h m)"
| "job_step (Op_set_cancellable t j b) m = snd (job_set_cancellable t j b m)"
| "job_step (Op_cancel t j) m = snd (job_cancel t j m)"

text \<open>
  Every operation is one of three kinds of change: none but expiry, a change of one found record
  in place, or a creation. \<open>edits r r'\<close> is what the setters may do to a used record.
\<close>

definition edits :: "job_record \<Rightarrow> job_record \<Rightarrow> bool" where
  "edits r r' \<longleftrightarrow> \<not> job_state_is_terminal (jr_state r) \<and> jr_used r' = jr_used r \<and> jr_id r' = jr_id r \<and>
     jr_kind r' = jr_kind r \<and> jr_key r' = jr_key r \<and> jr_request_hash r' = jr_request_hash r \<and>
     jr_created_ms r' = jr_created_ms r \<and>
     (jr_state r' = jr_state r \<or> transition_allowed (jr_state r) (jr_state r')) \<and>
     jr_state r' \<noteq> JOB_STATE_OTHER \<and>
     length (jr_phase r') \<le> max (length (jr_phase r)) JOB_PHASE_MAX_LEN \<and>
     (jr_cancellable r' \<longrightarrow> \<not> job_state_is_terminal (jr_state r')) \<and>
     (jr_has_error r' \<longrightarrow> jr_has_error r \<or> jr_state r' = JOB_STATE_FAILED)"

inductive job_change :: "job_manager \<Rightarrow> job_manager \<Rightarrow> bool" where
  unchanged: "job_change m m"
| expired: "job_change m (expire_compacts t m)"
| edited: "\<lbrakk>i < length (jm_records m); jr_used (jm_records m ! i); edits (jm_records m ! i) r'\<rbrakk>
     \<Longrightarrow> job_change m (put_record i r' m)"
| created: "\<lbrakk>jcp_kind p \<noteq> JOB_KIND_OTHER;
     \<And>k. jcp_idempotency_key p = Some k \<Longrightarrow> k \<noteq> [] \<and> length k \<le> JOB_IDEMPOTENCY_KEY_MAX_LEN \<and>
        fst (lookup_locked k (jcp_request_hash p) (expire_compacts t m)) = JOB_LOOKUP_NONE\<rbrakk>
     \<Longrightarrow> job_change m (snd (create_fresh t2 t3 p (expire_compacts t m)))"

definition record_ok :: "job_record \<Rightarrow> bool" where
  "record_ok r \<longleftrightarrow> (jr_used r \<longrightarrow>
     jr_kind r \<noteq> JOB_KIND_OTHER \<and> jr_state r \<noteq> JOB_STATE_OTHER \<and>
     length (jr_id r) \<le> JOB_ID_MAX_LEN \<and> length (jr_phase r) \<le> JOB_PHASE_MAX_LEN \<and>
     length (jr_key r) \<le> JOB_IDEMPOTENCY_KEY_MAX_LEN \<and>
     (jr_cancellable r \<longrightarrow> \<not> job_state_is_terminal (jr_state r)) \<and>
     (jr_has_error r \<longrightarrow> jr_state r = JOB_STATE_FAILED))"

definition compact_ok :: "job_compact \<Rightarrow> bool" where
  "compact_ok c \<longleftrightarrow> (jc_used c \<longrightarrow> job_state_is_terminal (jc_state c) \<and>
     length (jc_id c) \<le> JOB_ID_MAX_LEN \<and> length (jc_key c) \<le> JOB_IDEMPOTENCY_KEY_MAX_LEN)"

text \<open>Which slot carries which key, or which identifier, in each tier.\<close>

definition rkey :: "job_manager \<Rightarrow> nat \<Rightarrow> string \<Rightarrow> bool" where
  "rkey m i k \<longleftrightarrow> i < length (jm_records m) \<and> jr_used (jm_records m ! i) \<and>
     jr_key (jm_records m ! i) = k \<and> k \<noteq> []"

definition ckey :: "job_manager \<Rightarrow> nat \<Rightarrow> string \<Rightarrow> bool" where
  "ckey m i k \<longleftrightarrow> i < length (jm_compacts m) \<and> jc_used (jm_compacts m ! i) \<and>
     jc_key (jm_compacts m ! i) = k \<and> k \<noteq> []"

definition rid :: "job_manager \<Rightarrow> nat \<Rightarrow> string \<Rightarrow> bool" where
  "rid m i s \<longleftrightarrow> i < length (jm_records m) \<and> jr_used (jm_records m ! i) \<and> jr_id (jm_records m ! i) = s"

definition cid :: "job_manager \<Rightarrow> nat \<Rightarrow> string \<Rightarrow> bool" where
  "cid m i s \<longleftrightarrow> i < length (jm_compacts m) \<and> jc_used (jm_compacts m ! i) \<and>
     jc_id (jm_compacts m ! i) = s"

definition uniq :: "(nat \<Rightarrow> string \<Rightarrow> bool) \<Rightarrow> (nat \<Rightarrow> string \<Rightarrow> bool) \<Rightarrow> bool" where
  "uniq A B \<longleftrightarrow> (\<forall>i j k. A i k \<longrightarrow> A j k \<longrightarrow> i = j) \<and> (\<forall>i j k. B i k \<longrightarrow> B j k \<longrightarrow> i = j) \<and>
     (\<forall>i j k. A i k \<longrightarrow> \<not> B j k)"

definition job_inv :: "job_manager \<Rightarrow> bool" where
  "job_inv m \<longleftrightarrow> (\<forall>r \<in> set (jm_records m). record_ok r) \<and> (\<forall>c \<in> set (jm_compacts m). compact_ok c) \<and>
     uniq (rkey m) (ckey m)"

text \<open>Moving between the tiers keeps uniqueness, whatever is moved: keys or identifiers.\<close>

lemma uniq_mono:
  "uniq A B \<Longrightarrow> (\<And>i k. A' i k \<Longrightarrow> A i k) \<Longrightarrow> (\<And>i k. B' i k \<Longrightarrow> B i k) \<Longrightarrow> uniq A' B'"
  unfolding uniq_def by blast

lemma uniq_move:
  assumes "uniq A B" "\<And>i' k. A' i' k \<Longrightarrow> A i' k \<and> i' \<noteq> i"
    and "\<And>j' k. B' j' k \<Longrightarrow> (j' = j \<and> A i k) \<or> (j' \<noteq> j \<and> B j' k)"
  shows "uniq A' B'"
  unfolding uniq_def
proof (intro conjI allI impI)
  fix i1 i2 k assume "A' i1 k" "A' i2 k"
  with assms(1,2) show "i1 = i2" unfolding uniq_def by blast
next
  fix j1 j2 k assume "B' j1 k" "B' j2 k"
  with assms(3) [of j1 k] assms(3) [of j2 k] assms(1) show "j1 = j2" unfolding uniq_def by metis
next
  fix i1 j1 k assume "A' i1 k"
  with assms show "\<not> B' j1 k" unfolding uniq_def by metis
qed

lemma uniq_new:
  assumes "uniq A B" "\<And>i' k. A' i' k \<Longrightarrow> (i' = i \<and> fresh k) \<or> (i' \<noteq> i \<and> A i' k)"
    and "\<And>j k. B' j k \<Longrightarrow> B j k" "\<And>k i'. fresh k \<Longrightarrow> \<not> A i' k" "\<And>k j. fresh k \<Longrightarrow> \<not> B j k"
  shows "uniq A' B'"
  unfolding uniq_def
proof (intro conjI allI impI)
  fix i1 i2 k assume "A' i1 k" "A' i2 k"
  with assms show "i1 = i2" unfolding uniq_def by metis
next
  fix j1 j2 k assume "B' j1 k" "B' j2 k"
  with assms(1,3) show "j1 = j2" unfolding uniq_def by blast
next
  fix i1 j1 k assume "A' i1 k"
  with assms show "\<not> B' j1 k" unfolding uniq_def by metis
qed

lemma find_recordD:
  assumes "find_record jid m = Some i"
  shows "i < length (jm_records m)" "jr_used (jm_records m ! i)" "jid = Some (jr_id (jm_records m ! i))"
  using assms by (auto simp: find_record_def split: option.splits dest: find_indexD)

lemma transition_allowed_cases:
  "transition_allowed s t \<Longrightarrow> \<not> job_state_is_terminal s"
  by (simp add: transition_allowed_def split: if_splits)

lemma setter_change:
  assumes "find_record jid m = Some i" "edits (jm_records m ! i) r'"
  shows "job_change m (put_record i r' m)"
  using job_change.edited [OF find_recordD(1,2) [OF assms(1)] assms(2)] .

lemma job_step_change:
  assumes "job_inv m"
  shows "job_change m (job_step x m)"
proof -
  have ok: "record_ok (jm_records m ! i)" if "find_record j m = Some i" for i j
    using assms find_recordD [OF that] by (simp add: job_inv_def)
  note ok' = ok [unfolded record_ok_def]
  show ?thesis
  proof (cases x)
    case (Op_create t1 t2 t3 p)
    then show ?thesis
      by (auto simp: job_create_def Let_def split: option.splits prod.splits job_lookup_result.splits
          intro!: job_change.intros)
  next
    case (Op_set_state t j s)
    then show ?thesis
      using ok' [of j] find_recordD(2) [of j m]
      by (auto simp: job_set_state_def Let_def edits_def split: option.splits
          intro!: job_change.unchanged setter_change dest: transition_allowed_cases)
  next
    case (Op_fail t j c r)
    then show ?thesis
      using ok' [of j] find_recordD(2) [of j m]
      by (auto simp: job_fail_def Let_def edits_def split: option.splits
          intro!: job_change.unchanged setter_change dest: transition_allowed_cases)
  next
    case (Op_set_phase t j p)
    then show ?thesis
      using ok' [of j] find_recordD(2) [of j m]
      by (auto simp: job_set_phase_def Let_def edits_def split: option.splits
          intro!: job_change.unchanged setter_change)
  next
    case (Op_set_progress t j c tot k u)
    then show ?thesis
      using ok' [of j] find_recordD(2) [of j m]
      by (auto simp: job_set_progress_def Let_def edits_def split: option.splits
          intro!: job_change.unchanged setter_change)
  next
    case (Op_get t j)
    then show ?thesis
      by (auto simp: job_get_def Let_def split: option.splits intro: job_change.intros)
  next
    case (Op_find_by_key t k h)
    then show ?thesis
      by (auto simp: job_find_by_key_def Let_def split: option.splits intro: job_change.intros)
  next
    case (Op_set_cancellable t j b)
    then show ?thesis
      using ok' [of j] find_recordD(2) [of j m]
      by (auto simp: job_set_cancellable_def Let_def edits_def split: option.splits
          intro!: job_change.unchanged setter_change)
  next
    case (Op_cancel t j)
    then show ?thesis
      using ok' [of j] find_recordD(2) [of j m]
      by (auto simp: job_cancel_def Let_def edits_def transition_allowed_def split: option.splits
          intro!: job_change.unchanged setter_change)
  qed
qed

inductive_cases job_changeE: "job_change m m'"

lemma expire_simps [simp]:
  "jm_records (expire_compacts t m) = jm_records m"
  "jm_id_counter (expire_compacts t m) = jm_id_counter m"
  "length (jm_compacts (expire_compacts t m)) = length (jm_compacts m)"
  by (simp_all add: expire_compacts_def Let_def)

lemma expire_compact_nth:
  "i < length (jm_compacts m) \<Longrightarrow> jc_used (jm_compacts (expire_compacts t m) ! i) \<Longrightarrow>
     jm_compacts (expire_compacts t m) ! i = jm_compacts m ! i"
  by (auto simp: expire_compacts_def Let_def zero_compact_def split: if_splits)

lemma zero_unused [simp]: "\<not> jr_used zero_record" "\<not> jc_used zero_compact"
  by (simp_all add: zero_record_def zero_compact_def)

lemma record_ok_zero [simp]: "record_ok zero_record" "compact_ok zero_compact"
  by (simp_all add: record_ok_def compact_ok_def)

lemma expire_tiers:
  "rkey (expire_compacts t m) = rkey m" "rid (expire_compacts t m) = rid m"
  "ckey (expire_compacts t m) i k \<Longrightarrow> ckey m i k" "cid (expire_compacts t m) i k \<Longrightarrow> cid m i k"
  using expire_compact_nth [of i m t]
  by (auto simp: rkey_def rid_def ckey_def cid_def fun_eq_iff)

lemma expire_inv: "job_inv m \<Longrightarrow> job_inv (expire_compacts t m)"
  unfolding job_inv_def
proof (elim conjE, intro conjI)
  assume u: "uniq (rkey m) (ckey m)" and c: "\<forall>c \<in> set (jm_compacts m). compact_ok c"
  show "uniq (rkey (expire_compacts t m)) (ckey (expire_compacts t m))"
    by (rule uniq_mono [OF u]) (simp_all add: expire_tiers)
  show "\<forall>c \<in> set (jm_compacts (expire_compacts t m)). compact_ok c"
    using c by (auto simp: expire_compacts_def Let_def)
qed simp

section \<open>Claiming a slot\<close>

lemma pick_compact_bounds:
  "pick_compact i oldest slot cs = Some j \<Longrightarrow> slot = Some j \<or> (i \<le> j \<and> j < i + length cs)"
  by (induction i oldest slot cs rule: pick_compact.induct) (auto split: if_splits)

lemma oldest_terminal_bounds:
  "oldest_terminal i oldest victim rs = Some j \<Longrightarrow>
     victim = Some j \<or> (i \<le> j \<and> j < i + length rs \<and> job_state_is_terminal (jr_state (rs ! (j - i))))"
proof (induction i oldest victim rs rule: oldest_terminal.induct)
  case (1 i oldest victim)
  then show ?case by simp
next
  case (2 i oldest victim r rs)
  have sh: "Suc i \<le> j \<Longrightarrow> (r # rs) ! (j - i) = rs ! (j - Suc i)"
    by (simp add: nth_Cons' Suc_diff_Suc)
  from 2 sh show ?case by (auto split: if_splits)
qed

lemma oldest_terminal_None:
  "oldest_terminal i oldest victim rs = None \<longleftrightarrow>
     victim = None \<and> (\<forall>r \<in> set rs. job_state_is_terminal (jr_state r) \<longrightarrow> oldest \<le> jr_updated_ms r)"
  by (induction i oldest victim rs rule: oldest_terminal.induct) auto

text \<open>The slot is free, or it held a terminal job that moved to the compact tier.\<close>

lemma claim_record_cases:
  assumes "claim_record t m = (Some i, m1)"
  obtains (free) "i < length (jm_records m)" "\<not> jr_used (jm_records m ! i)" "m1 = m"
  | (evicted) "i < length (jm_records m)" "job_state_is_terminal (jr_state (jm_records m ! i))"
      "\<forall>r \<in> set (jm_records m). jr_used r"
      "m1 = m\<lparr>jm_compacts := retire_to_compact t (jm_records m ! i) (jm_compacts m),
              jm_records := (jm_records m)[i := zero_record]\<rparr>"
proof (cases "find_index (\<lambda>r. \<not> jr_used r) (jm_records m)")
  case (Some k)
  with assms have "i = k" "m1 = m" by (simp_all add: claim_record_def)
  with find_indexD [OF Some] have "i < length (jm_records m)" "\<not> jr_used (jm_records m ! i)" by simp_all
  then show ?thesis using \<open>m1 = m\<close> by (rule free)
next
  case None
  with assms have v: "oldest_terminal 0 INT64_MAX None (jm_records m) = Some i"
    and m1: "m1 = m\<lparr>jm_compacts := retire_to_compact t (jm_records m ! i) (jm_compacts m),
              jm_records := (jm_records m)[i := zero_record]\<rparr>"
    by (auto simp: claim_record_def split: option.splits)
  from oldest_terminal_bounds [OF v]
  have "i < length (jm_records m)" "job_state_is_terminal (jr_state (jm_records m ! i))" by simp_all
  moreover from None have "\<forall>r \<in> set (jm_records m). jr_used r" by simp
  ultimately show ?thesis using m1 by (rule evicted)
qed

lemma claim_record_None:
  "claim_record t m = (None, m1) \<Longrightarrow> m1 = m \<and> (\<forall>r \<in> set (jm_records m). jr_used r \<and>
     (job_state_is_terminal (jr_state r) \<longrightarrow> INT64_MAX \<le> jr_updated_ms r))"
  by (auto simp: claim_record_def oldest_terminal_None split: option.splits)

lemma retired_compact:
  fixes t r cs
  obtains (none) "retire_to_compact t r cs = cs"
  | (slot) j c where "j < length cs" "retire_to_compact t r cs = cs[j := c]" "jc_used c"
      "jc_id c = take JOB_ID_MAX_LEN (jr_id r)" "jc_key c = take JOB_IDEMPOTENCY_KEY_MAX_LEN (jr_key r)"
      "jc_state c = jr_state r" "jc_request_hash c = jr_request_hash r"
proof (cases "pick_compact 0 INT64_MAX None cs")
  case None
  then show ?thesis using none by (simp add: retire_to_compact_def)
next
  case (Some j)
  from pick_compact_bounds [OF Some] have j: "j < length cs" by simp
  let ?c = "\<lparr>jc_used = True, jc_id = take JOB_ID_MAX_LEN (jr_id r),
     jc_key = take JOB_IDEMPOTENCY_KEY_MAX_LEN (jr_key r),
     jc_request_hash = jr_request_hash r, jc_kind = jr_kind r, jc_state = jr_state r,
     jc_error = jr_error r, jc_has_error = jr_has_error r,
     jc_created_ms = jr_created_ms r, jc_retired_ms = t\<rparr>"
  have "retire_to_compact t r cs = cs[j := ?c]" by (simp add: retire_to_compact_def Some)
  from slot [OF j this] show ?thesis by simp
qed

text \<open>An eviction moves exactly the victim's key and identifier.\<close>

lemma evicted_tiers:
  assumes ok: "record_ok (jm_records m ! i)" and used: "jr_used (jm_records m ! i)"
    and i: "i < length (jm_records m)"
    and m1: "m1 = m\<lparr>jm_compacts := retire_to_compact t (jm_records m ! i) (jm_compacts m),
              jm_records := (jm_records m)[i := zero_record]\<rparr>"
  shows "uniq (rkey m) (ckey m) \<Longrightarrow> uniq (rkey m1) (ckey m1)"
    and "uniq (rid m) (cid m) \<Longrightarrow> uniq (rid m1) (cid m1)"
    and "rkey m1 a k \<Longrightarrow> rkey m a k" "ckey m1 a k \<Longrightarrow> (\<exists>b. ckey m b k) \<or> rkey m i k"
    and "rid m1 a s \<Longrightarrow> rid m a s" "cid m1 a s \<Longrightarrow> (\<exists>b. cid m b s) \<or> rid m i s"
proof -
  have lens: "length (jr_key (jm_records m ! i)) \<le> JOB_IDEMPOTENCY_KEY_MAX_LEN"
    "length (jr_id (jm_records m ! i)) \<le> JOB_ID_MAX_LEN"
    using ok used by (auto simp: record_ok_def)
  have rk: "\<And>a k. rkey m1 a k \<Longrightarrow> rkey m a k \<and> a \<noteq> i"
    and ri: "\<And>a k. rid m1 a k \<Longrightarrow> rid m a k \<and> a \<noteq> i"
    using i by (auto simp: m1 rkey_def rid_def nth_list_update split: if_splits)
  obtain j where ck: "\<And>a k. ckey m1 a k \<Longrightarrow> (a = j \<and> rkey m i k) \<or> (a \<noteq> j \<and> ckey m a k)"
    and ci: "\<And>a k. cid m1 a k \<Longrightarrow> (a = j \<and> rid m i k) \<or> (a \<noteq> j \<and> cid m a k)"
  proof (cases rule: retired_compact [of t "jm_records m ! i" "jm_compacts m"])
    case none
    then show ?thesis
      using that [of "length (jm_compacts m)"] by (auto simp: m1 ckey_def cid_def)
  next
    case (slot j c)
    then show ?thesis
      using that [of j] i used lens
      by (auto simp: m1 ckey_def cid_def rkey_def rid_def nth_list_update split: if_splits)
  qed
  show "uniq (rkey m) (ckey m) \<Longrightarrow> uniq (rkey m1) (ckey m1)"
    by (rule uniq_move [where i = i and j = j]) (use rk ck in blast)+
  show "uniq (rid m) (cid m) \<Longrightarrow> uniq (rid m1) (cid m1)"
    by (rule uniq_move [where i = i and j = j]) (use ri ci in blast)+
  show "rkey m1 a k \<Longrightarrow> rkey m a k" "ckey m1 a k \<Longrightarrow> (\<exists>b. ckey m b k) \<or> rkey m i k"
    and "rid m1 a s \<Longrightarrow> rid m a s" "cid m1 a s \<Longrightarrow> (\<exists>b. cid m b s) \<or> rid m i s"
    using rk ck ri ci by blast+
qed

section \<open>The invariant is kept\<close>

lemma claim_inv_all:
  assumes c: "claim_record t m = (Some i, m1)" and inv: "job_inv m"
  shows "job_inv m1 \<and> i < length (jm_records m1) \<and> \<not> jr_used (jm_records m1 ! i) \<and>
    (uniq (rid m) (cid m) \<longrightarrow> uniq (rid m1) (cid m1)) \<and>
    jm_id_counter m1 = jm_id_counter m \<and> length (jm_records m1) = length (jm_records m) \<and>
    (\<forall>a s. rid m1 a s \<longrightarrow> rid m a s) \<and> (\<forall>a s. cid m1 a s \<longrightarrow> (\<exists>b. cid m b s) \<or> rid m i s) \<and>
    (\<forall>a k. rkey m1 a k \<longrightarrow> rkey m a k) \<and> (\<forall>a k. ckey m1 a k \<longrightarrow> (\<exists>b. ckey m b k) \<or> rkey m i k)"
proof (cases rule: claim_record_cases [OF c])
  case 1
  with inv show ?thesis by blast
next
  case 2
  note m1 = 2(4) and done_job = 2(2)
  let ?v = "jm_records m ! i"
  from 2(1) inv have ok: "record_ok ?v" by (simp add: job_inv_def)
  from 2(1,3) have used: "jr_used ?v" by simp
  note ev = evicted_tiers [OF ok used 2(1,4)]
  have "\<forall>r \<in> set (jm_records m1). record_ok r"
    using inv 2(4) by (auto simp: job_inv_def dest!: set_update_subset_insert [THEN subsetD])
  moreover have "\<forall>c \<in> set (jm_compacts m1). compact_ok c"
  proof (cases rule: retired_compact [of t ?v "jm_compacts m"])
    case none
    with inv m1 show ?thesis by (simp add: job_inv_def)
  next
    case (slot j c)
    then have "compact_ok c"
      using done_job by (simp add: compact_ok_def)
    with slot(2) inv m1 show ?thesis
      by (auto simp: job_inv_def dest!: set_update_subset_insert [THEN subsetD])
  qed
  ultimately have "job_inv m1" using inv ev(1) by (simp add: job_inv_def)
  moreover have "jm_id_counter m1 = jm_id_counter m" "length (jm_records m1) = length (jm_records m)"
    "i < length (jm_records m1)" "\<not> jr_used (jm_records m1 ! i)"
    using 2(1,4) by simp_all
  ultimately show ?thesis using ev by blast
qed

lemma claim_inv:
  assumes "claim_record t m = (Some i, m1)" and "job_inv m"
  shows "job_inv m1" "i < length (jm_records m1)" "\<not> jr_used (jm_records m1 ! i)"
    and "uniq (rid m) (cid m) \<Longrightarrow> uniq (rid m1) (cid m1)"
    and "jm_id_counter m1 = jm_id_counter m" "length (jm_records m1) = length (jm_records m)"
    and "rid m1 a s \<Longrightarrow> rid m a s" "cid m1 a s \<Longrightarrow> (\<exists>b. cid m b s) \<or> rid m i s"
    and "rkey m1 a k \<Longrightarrow> rkey m a k" "ckey m1 a k \<Longrightarrow> (\<exists>b. ckey m b k) \<or> rkey m i k"
  using claim_inv_all [OF assms] by simp_all

lemma find_index_all: "find_index p xs = None \<Longrightarrow> i < length xs \<Longrightarrow> \<not> p (xs ! i)"
  by simp

lemma lookup_none_fresh:
  assumes "fst (lookup_locked k h m) = JOB_LOOKUP_NONE"
  shows "\<not> rkey m i k" "\<not> ckey m i k"
proof -
  from assms have r: "find_index (\<lambda>r. jr_used r \<and> jr_key r \<noteq> [] \<and> jr_key r = k) (jm_records m) = None"
    and c: "find_index (\<lambda>c. jc_used c \<and> jc_key c \<noteq> [] \<and> jc_key c = k) (jm_compacts m) = None"
    by (auto simp: lookup_locked_def split: option.splits if_splits)
  from find_index_all [OF r, of i] find_index_all [OF c, of i]
  show "\<not> rkey m i k" "\<not> ckey m i k" by (auto simp: rkey_def ckey_def)
qed

lemma new_record_simps [simp]:
  "jr_used (new_record t n p)" "jr_id (new_record t n p) = job_id_of n"
  "jr_kind (new_record t n p) = jcp_kind p" "jr_state (new_record t n p) = JOB_STATE_QUEUED"
  "jr_request_hash (new_record t n p) = jcp_request_hash p"
  "jr_cancellable (new_record t n p) = jcp_cancellable p"
  "jr_key (new_record t n p) = (case jcp_idempotency_key p of None \<Rightarrow> []
     | Some k \<Rightarrow> take JOB_IDEMPOTENCY_KEY_MAX_LEN k)"
  "jr_phase (new_record t n p) = []" "\<not> jr_has_error (new_record t n p)"
  by (simp_all add: new_record_def zero_record_def)

lemma job_id_of_eq: "job_id_of n = ''job_'' @ hex8 n"
  by (simp add: job_id_of_def JOB_ID_MAX_LEN_def)

lemma job_id_of_inj: "job_id_of n = job_id_of k \<Longrightarrow> n = k"
  by (simp add: job_id_of_eq hex8_inj)

lemma record_ok_new: "jcp_kind p \<noteq> JOB_KIND_OTHER \<Longrightarrow> record_ok (new_record t n p)"
  by (auto simp: record_ok_def job_id_of_def split: option.splits)

lemma create_fresh_inv:
  assumes inv: "job_inv m" and kind: "jcp_kind p \<noteq> JOB_KIND_OTHER"
    and key: "\<And>k. jcp_idempotency_key p = Some k \<Longrightarrow>
      length k \<le> JOB_IDEMPOTENCY_KEY_MAX_LEN \<and> fst (lookup_locked k h m) = JOB_LOOKUP_NONE"
  shows "job_inv (snd (create_fresh t2 t3 p m))"
proof (cases "claim_record t2 m")
  case (Pair slot m1)
  show ?thesis
  proof (cases slot)
    case None
    with Pair inv show ?thesis
      using claim_record_None [of t2 m m1] by (simp add: create_fresh_def)
  next
    case (Some i)
    let ?r = "new_record t3 (jm_id_counter m1 + 1) p"
    let ?m = "m1\<lparr>jm_records := (jm_records m1)[i := ?r], jm_id_counter := jm_id_counter m1 + 1\<rparr>"
    note c = claim_inv [OF Pair [unfolded Some] inv]
    let ?fresh = "\<lambda>k. jr_key ?r = k \<and> k \<noteq> []"
    have fk: "jcp_idempotency_key p = Some k" if "?fresh k" for k
      using that key by (auto split: option.splits)
    have "uniq (rkey ?m) (ckey ?m)"
    proof (rule uniq_new [where i = i and fresh = ?fresh])
      show "uniq (rkey m1) (ckey m1)" using c(1) by (simp add: job_inv_def)
      show "(i' = i \<and> ?fresh k) \<or> (i' \<noteq> i \<and> rkey m1 i' k)" if "rkey ?m i' k" for i' k
        using that c(2) by (auto simp: rkey_def nth_list_update split: if_splits)
      show "ckey m1 j k" if "ckey ?m j k" for j k using that by (simp add: ckey_def)
      show "\<not> rkey m1 i' k" if "?fresh k" for i' k
        using key [OF fk [OF that]] lookup_none_fresh(1) c(9) by blast
      show "\<not> ckey m1 j k" if "?fresh k" for j k
        using key [OF fk [OF that]] lookup_none_fresh c(10) by blast
    qed
    moreover have "\<forall>r \<in> set (jm_records ?m). record_ok r"
      using c(1) record_ok_new [OF kind]
      by (auto simp: job_inv_def dest!: set_update_subset_insert [THEN subsetD])
    ultimately have "job_inv ?m" using c(1) by (simp add: job_inv_def)
    with Pair Some show ?thesis by (simp add: create_fresh_def Let_def)
  qed
qed

lemma edits_ok: "record_ok r \<Longrightarrow> jr_used r \<Longrightarrow> edits r r' \<Longrightarrow> record_ok r'"
  by (auto simp: record_ok_def edits_def)

lemma put_record_tiers:
  assumes "i < length (jm_records m)" "jr_used (jm_records m ! i)" "edits (jm_records m ! i) r'"
  shows "rkey (put_record i r' m) = rkey m" "ckey (put_record i r' m) = ckey m"
    and "rid (put_record i r' m) = rid m" "cid (put_record i r' m) = cid m"
  using assms
  by (auto simp: put_record_def rkey_def ckey_def rid_def cid_def edits_def fun_eq_iff nth_list_update)

lemma job_change_inv: "job_change m m' \<Longrightarrow> job_inv m \<Longrightarrow> job_inv m'"
proof (induction rule: job_change.induct)
  case (unchanged m)
  then show ?case .
next
  case (expired m t)
  then show ?case by (rule expire_inv)
next
  case (edited i m r')
  then have "record_ok r'" using edits_ok [OF _ edited(2,3)] by (simp add: job_inv_def)
  with edited put_record_tiers [OF edited(1-3)] show ?case
    by (auto simp: job_inv_def put_record_def dest!: set_update_subset_insert [THEN subsetD])
next
  case (created p t m t2 t3)
  show ?case
    by (rule create_fresh_inv [OF expire_inv [OF created.prems] created.hyps(1)])
      (use created.hyps(2) in blast)
qed

lemma job_inv_init: "job_inv job_manager_init"
  by (auto simp: job_inv_def job_manager_init_def uniq_def rkey_def ckey_def)

interpretation jobs: op_machine job_step job_inv
  by unfold_locales (blast intro: job_change_inv job_step_change)

section \<open>Active jobs keep their slot and identity\<close>

definition continues :: "job_record \<Rightarrow> job_record \<Rightarrow> bool" where
  "continues r r' \<longleftrightarrow> jr_used r' \<and> jr_id r' = jr_id r \<and> jr_kind r' = jr_kind r \<and> jr_key r' = jr_key r \<and>
     jr_request_hash r' = jr_request_hash r \<and> jr_created_ms r' = jr_created_ms r \<and>
     (jr_state r' = jr_state r \<or> transition_allowed (jr_state r) (jr_state r'))"

lemma create_fresh_active:
  assumes "i < length (jm_records m)" "job_active (jm_records m ! i)"
  shows "jm_records (snd (create_fresh t2 t3 p m)) ! i = jm_records m ! i"
proof (cases "claim_record t2 m")
  case (Pair slot m1)
  show ?thesis
  proof (cases slot)
    case None
    with Pair claim_record_None [of t2 m m1] show ?thesis by (simp add: create_fresh_def)
  next
    case (Some j)
    from Pair [unfolded Some] show ?thesis
    proof (cases rule: claim_record_cases)
      case free
      with assms have "i \<noteq> j" by (auto simp: job_active_def)
      with free Pair Some show ?thesis by (simp add: create_fresh_def Let_def)
    next
      case evicted
      with assms have "i \<noteq> j" by (auto simp: job_active_def)
      with evicted Pair Some show ?thesis by (simp add: create_fresh_def Let_def)
    qed
  qed
qed

lemma job_change_active:
  "job_change m m' \<Longrightarrow> i < length (jm_records m) \<Longrightarrow> job_active (jm_records m ! i) \<Longrightarrow>
     continues (jm_records m ! i) (jm_records m' ! i)"
proof (induction rule: job_change.induct)
  case (edited j m r')
  then show ?case
    by (cases "i = j") (auto simp: put_record_def continues_def edits_def job_active_def)
next
  case (created p t m t2 t3)
  then show ?case
    using create_fresh_active [of i "expire_compacts t m"] by (simp add: continues_def job_active_def)
qed (auto simp: continues_def job_active_def)

section \<open>Identifiers\<close>

definition ids_below :: "job_manager \<Rightarrow> bool" where
  "ids_below m \<longleftrightarrow> uniq (rid m) (cid m) \<and>
     (\<forall>i s. rid m i s \<or> cid m i s \<longrightarrow> (\<exists>n \<le> unat (jm_id_counter m). s = job_id_of (of_nat n)))"

lemma counter_Suc:
  "Suc (unat (w :: u32)) < 2 ^ 32 \<Longrightarrow> unat (w + 1) = Suc (unat w)"
  by (simp add: unat_word_ariths)

lemma fresh_id:
  assumes "Suc (unat (c :: u32)) < 2 ^ 32" "n \<le> unat c"
  shows "job_id_of (of_nat n) \<noteq> job_id_of (c + 1)"
proof
  assume "job_id_of (of_nat n) = job_id_of (c + 1)"
  then have "unat (of_nat n :: u32) = unat (c + 1)" by (metis job_id_of_inj)
  with assms counter_Suc [OF assms(1)] show False by (simp add: unat_of_nat_small)
qed

lemma create_fresh_ids:
  assumes inv: "job_inv m" and ids: "ids_below m" and room: "Suc (unat (jm_id_counter m)) < 2 ^ 32"
  shows "ids_below (snd (create_fresh t2 t3 p m)) \<and>
    unat (jm_id_counter (snd (create_fresh t2 t3 p m))) \<in>
      {unat (jm_id_counter m), Suc (unat (jm_id_counter m))}"
proof (cases "claim_record t2 m")
  case (Pair slot m1)
  show ?thesis
  proof (cases slot)
    case None
    with Pair ids claim_record_None [of t2 m m1] show ?thesis by (simp add: create_fresh_def)
  next
    case (Some i)
    let ?n = "jm_id_counter m1 + 1" and ?N = "unat (jm_id_counter m)"
    let ?r = "new_record t3 ?n p"
    let ?m = "m1\<lparr>jm_records := (jm_records m1)[i := ?r], jm_id_counter := ?n\<rparr>"
    note c = claim_inv [OF Pair [unfolded Some] inv]
    have n: "?n = jm_id_counter m + 1" "unat ?n = Suc ?N"
      using c(5) counter_Suc [OF room] by simp_all
    have old: "\<exists>k \<le> ?N. s = job_id_of (of_nat k)" if "rid m1 a s \<or> cid m1 a s" for a s
      using that c(7,8) ids unfolding ids_below_def by blast
    have notnew: "s \<noteq> job_id_of ?n" if "rid m1 a s \<or> cid m1 a s" for a s
      using old [OF that] fresh_id [OF room] n(1) by metis
    have split: "(a = i \<and> s = job_id_of ?n) \<or> (a \<noteq> i \<and> rid m1 a s)" if "rid ?m a s" for a s
      using that c(2) by (auto simp: rid_def nth_list_update split: if_splits)
    have cidm: "cid ?m = cid m1" by (simp add: cid_def fun_eq_iff)
    have u1: "uniq (rid m1) (cid m1)" using c(4) ids by (simp add: ids_below_def)
    have "uniq (rid ?m) (cid ?m)"
      unfolding cidm
      by (rule uniq_new [where A = "rid m1" and B = "cid m1" and i = i and fresh = "\<lambda>s. s = job_id_of ?n",
            OF u1]) (use split notnew in blast)+
    moreover have "\<exists>k \<le> unat ?n. s = job_id_of (of_nat k)" if "rid ?m a s \<or> cid ?m a s" for a s
    proof (cases "s = job_id_of ?n")
      case True
      then show ?thesis by (intro exI [of _ "unat ?n"]) simp
    next
      case False
      with that split have "rid m1 a s \<or> cid m1 a s" by (auto simp: cidm)
      from old [OF this] n(2) show ?thesis by (auto intro: le_SucI)
    qed
    ultimately show ?thesis
      using Pair Some n(2) by (auto simp: create_fresh_def Let_def ids_below_def)
  qed
qed

lemma job_change_ids:
  assumes "job_change m m'" "job_inv m" "ids_below m" "Suc (unat (jm_id_counter m)) < 2 ^ 32"
  shows "ids_below m' \<and> unat (jm_id_counter m') \<in> {unat (jm_id_counter m), Suc (unat (jm_id_counter m))}"
  using assms
proof (induction rule: job_change.induct)
  case (unchanged m)
  then show ?case by simp
next
  case (expired m t)
  then show ?case
    using uniq_mono [of "rid m" "cid m" "rid (expire_compacts t m)" "cid (expire_compacts t m)"]
    by (auto simp: ids_below_def expire_tiers(2) dest: expire_tiers(4))
next
  case (edited i m r')
  then show ?case
    using put_record_tiers [OF edited(1-3)] by (simp add: ids_below_def) (simp add: put_record_def)
next
  case (created p t m t2 t3)
  have "ids_below (expire_compacts t m)"
    using created.prems uniq_mono [of "rid m" "cid m" "rid (expire_compacts t m)" "cid (expire_compacts t m)"]
    by (auto simp: ids_below_def expire_tiers(2) dest: expire_tiers(4))
  from create_fresh_ids [OF expire_inv [OF created.prems(1)] this, where ?t2.0 = t2 and ?t3.0 = t3 and p = p]
    created.prems(3)
  show ?case by simp
qed

lemma run_ids:
  "job_inv m \<Longrightarrow> ids_below m \<Longrightarrow> unat (jm_id_counter m) + length xs < 2 ^ 32 \<Longrightarrow>
     ids_below (run_ops job_step xs m) \<and>
     unat (jm_id_counter (run_ops job_step xs m)) \<le> unat (jm_id_counter m) + length xs"
proof (induction xs arbitrary: m)
  case Nil
  then show ?case by simp
next
  case (Cons x xs)
  from Cons.prems have "Suc (unat (jm_id_counter m)) < 2 ^ 32" by simp
  from job_change_ids [OF job_step_change [OF Cons.prems(1), of x] Cons.prems(1,2) this]
  have c: "ids_below (job_step x m)" "unat (jm_id_counter (job_step x m)) \<le> Suc (unat (jm_id_counter m))"
    by auto
  from Cons.IH [OF jobs.inv_step [OF Cons.prems(1)] c(1)] c(2) Cons.prems(3) show ?case by auto
qed


lemma ids_below_init: "ids_below job_manager_init"
  by (auto simp: ids_below_def job_manager_init_def uniq_def rid_def cid_def)

section \<open>The lifecycle of a job\<close>

text \<open>
  The table the header gives for \<^verbatim>\<open>job_set_state\<close>, and the relation the code enforces: the table
  and the step from queued straight to succeeded.
\<close>

inductive header_transition :: "job_state \<Rightarrow> job_state \<Rightarrow> bool" where
  start: "header_transition JOB_STATE_QUEUED JOB_STATE_RUNNING"
| unstarted: "t \<in> {JOB_STATE_CANCELLED, JOB_STATE_FAILED, JOB_STATE_INTERRUPTED} \<Longrightarrow>
     header_transition JOB_STATE_QUEUED t"
| await: "header_transition JOB_STATE_RUNNING JOB_STATE_WAITING_CONFIRMATION"
| resume: "header_transition JOB_STATE_WAITING_CONFIRMATION JOB_STATE_RUNNING"
| finish: "s \<in> {JOB_STATE_RUNNING, JOB_STATE_WAITING_CONFIRMATION} \<Longrightarrow>
     job_state_is_terminal t \<Longrightarrow> header_transition s t"

inductive_simps header_transition_simps: "header_transition s t"

definition lifecycle :: "job_state \<Rightarrow> job_state \<Rightarrow> bool" where
  "lifecycle s t \<longleftrightarrow> header_transition s t \<or> (s = JOB_STATE_QUEUED \<and> t = JOB_STATE_SUCCEEDED)"

lemma transition_allowed_lifecycle:
  "s \<noteq> JOB_STATE_OTHER \<Longrightarrow> transition_allowed s t \<longleftrightarrow> lifecycle s t"
  by (cases s; cases t) (simp_all add: transition_allowed_def lifecycle_def header_transition_simps)





lemma job_change_length: "job_change m m' \<Longrightarrow> length (jm_records m') = length (jm_records m) \<and>
    length (jm_compacts m') = length (jm_compacts m)"
proof (induction rule: job_change.induct)
  case (created p t m t2 t3)
  obtain slot m1 where c: "claim_record t2 (expire_compacts t m) = (slot, m1)" by fastforce
  have "length (jm_records m1) = length (jm_records m) \<and> length (jm_compacts m1) = length (jm_compacts m)"
    using c by (auto simp: claim_record_def retire_to_compact_def split: option.splits)
  with c show ?case by (simp add: create_fresh_def Let_def split: option.split)
qed (simp_all add: put_record_def)

lemma run_lengths:
  "job_inv m \<Longrightarrow> length (jm_records (run_ops job_step xs m)) = length (jm_records m) \<and>
     length (jm_compacts (run_ops job_step xs m)) = length (jm_compacts m)"
  by (rule jobs.run_preserves) (assumption, simp, metis job_change_length job_step_change)


lemma reachable_job_ids:
  "length xs < 2 ^ 32 \<Longrightarrow> job_inv (run_ops job_step xs job_manager_init) \<and>
     ids_below (run_ops job_step xs job_manager_init) \<and>
     unat (jm_id_counter (run_ops job_step xs job_manager_init)) \<le> length xs"
  using run_ids [OF job_inv_init ids_below_init, of xs] jobs.inv_run [OF job_inv_init]
  by (simp add: job_manager_init_def)

lemma reachable_pools:
  "length (jm_records (run_ops job_step xs job_manager_init)) = CONFIG_JOB_MANAGER_MAX_JOBS \<and>
   length (jm_compacts (run_ops job_step xs job_manager_init)) = CONFIG_JOB_MANAGER_DEDUPE_SLOTS"
  using run_lengths [OF job_inv_init, of xs] by (simp add: job_manager_init_def)

section \<open>Properties\<close>

text \<open>C31: whatever calls are made after start-up, every full record is well formed (a finished
  job is not cancellable, an error is recorded only with the failed state, texts fit their
  arrays), every compact record is of a finished job, and no idempotency key is carried by two
  records, in one tier or across them.\<close>

theorem job_pools_stay_well_formed:
  "job_inv (run_ops job_step xs job_manager_init) \<and>
   length (jm_records (run_ops job_step xs job_manager_init)) = CONFIG_JOB_MANAGER_MAX_JOBS \<and>
   length (jm_compacts (run_ops job_step xs job_manager_init)) = CONFIG_JOB_MANAGER_DEDUPE_SLOTS"
  using jobs.inv_run [OF job_inv_init] reachable_pools by blast


text \<open>C12: a job that has not finished is never evicted, moved or overwritten: after any single
  call its slot still holds it, with the same identifier, kind, key, request hash and creation
  time.\<close>

theorem active_job_survives_every_call:
  assumes "m = run_ops job_step xs job_manager_init" "i < CONFIG_JOB_MANAGER_MAX_JOBS"
    and "job_active (jm_records m ! i)"
  shows "continues (jm_records m ! i) (jm_records (job_step x m) ! i)"
  using job_change_active [OF job_step_change] jobs.inv_run [OF job_inv_init] assms reachable_pools
  by simp

lemma lookup_record:
  assumes "uniq (rkey m) (ckey m)" "rkey m i k"
  shows "lookup_locked k h m =
    (if jr_request_hash (jm_records m ! i) \<noteq> h then (JOB_LOOKUP_CONFLICT, None)
     else (JOB_LOOKUP_EXISTING, Some (snapshot_from_record (jm_records m ! i))))"
proof -
  have "find_index (\<lambda>r. jr_used r \<and> jr_key r \<noteq> [] \<and> jr_key r = k) (jm_records m) = Some i"
    by (rule find_index_unique) (use assms in \<open>auto simp: uniq_def rkey_def\<close>)
  then show ?thesis by (simp add: lookup_locked_def)
qed

lemma lookup_compact:
  assumes "uniq (rkey m) (ckey m)" "ckey m i k"
  shows "lookup_locked k h m =
    (if jc_request_hash (jm_compacts m ! i) \<noteq> h then (JOB_LOOKUP_CONFLICT, None)
     else (JOB_LOOKUP_EXISTING, Some (snapshot_from_compact (jm_compacts m ! i))))"
proof -
  have "find_index (\<lambda>c. jc_used c \<and> jc_key c \<noteq> [] \<and> jc_key c = k) (jm_compacts m) = Some i"
    by (rule find_index_unique) (use assms in \<open>auto simp: uniq_def ckey_def\<close>)
  moreover have "find_index (\<lambda>r. jr_used r \<and> jr_key r \<noteq> [] \<and> jr_key r = k) (jm_records m) = None"
    unfolding find_index_None
    using assms by (auto simp: uniq_def rkey_def in_set_conv_nth)
  ultimately show ?thesis by (simp only: lookup_locked_def option.case)
qed

lemma find_record_unique:
  assumes "uniq (rid m) (cid m)" "rid m i s"
  shows "find_record (Some s) m = Some i"
  unfolding find_record_def option.case
  by (rule find_index_unique) (use assms in \<open>auto simp: uniq_def rid_def\<close>)

lemma create_by_lookup:
  assumes "jcp_kind p \<noteq> JOB_KIND_OTHER" "jcp_idempotency_key p = Some k" "k \<noteq> []"
    and "length k \<le> JOB_IDEMPOTENCY_KEY_MAX_LEN"
    and "lookup_locked k (jcp_request_hash p) (expire_compacts t1 m) =
      (if h \<noteq> jcp_request_hash p then (JOB_LOOKUP_CONFLICT, None) else (JOB_LOOKUP_EXISTING, Some s))"
  shows "job_create t1 t2 t3 (Some p) m =
    ((if h = jcp_request_hash p then (JOB_CREATE_EXISTING, Some s) else (JOB_CREATE_CONFLICT, None)),
     expire_compacts t1 m)"
  using assms by (simp add: job_create_def Let_def)

lemma reachable_keys: "uniq (rkey (run_ops job_step xs job_manager_init)) (ckey (run_ops job_step xs job_manager_init))"
  using jobs.inv_run [OF job_inv_init] by (simp add: job_inv_def)

text \<open>C30: repeating a request is safe. While the job a key created is in the pool, creating
  with that key starts nothing: it answers with that very job when the request hash is the same
  and reports a conflict otherwise.\<close>

theorem retry_finds_the_first_job:
  assumes "m = run_ops job_step xs job_manager_init" "i < CONFIG_JOB_MANAGER_MAX_JOBS"
    and "r = jm_records m ! i" "jr_used r" "jr_key r = k" "k \<noteq> []"
    and "jcp_kind p \<noteq> JOB_KIND_OTHER" "jcp_idempotency_key p = Some k"
  shows "job_create t1 t2 t3 (Some p) m =
    ((if jr_request_hash r = jcp_request_hash p
      then (JOB_CREATE_EXISTING, Some (snapshot_from_record r)) else (JOB_CREATE_CONFLICT, None)),
     expire_compacts t1 m)"
proof -
  have inv: "job_inv m" and len: "i < length (jm_records m)"
    using jobs.inv_run [OF job_inv_init] reachable_pools [of xs] assms(1,2) by simp_all
  have "length k \<le> JOB_IDEMPOTENCY_KEY_MAX_LEN"
    using inv len assms(3-5) by (auto simp: job_inv_def record_ok_def)
  moreover have "rkey (expire_compacts t1 m) i k"
    using len assms(3-6) by (simp add: rkey_def)
  from lookup_record [OF _ this] expire_inv [OF inv]
  have "lookup_locked k (jcp_request_hash p) (expire_compacts t1 m) =
      (if jr_request_hash r \<noteq> jcp_request_hash p then (JOB_LOOKUP_CONFLICT, None)
       else (JOB_LOOKUP_EXISTING, Some (snapshot_from_record r)))"
    using assms(3) by (simp add: job_inv_def)
  ultimately show ?thesis by (intro create_by_lookup) (use assms in simp_all)
qed

text \<open>eviction does not forget a key early. While the compact record of a finished job is
  younger than the retention time, creating with its key still answers with that job, or reports
  the conflict, and starts nothing.\<close>

theorem retry_finds_the_evicted_job:
  assumes "m = run_ops job_step xs job_manager_init" "i < CONFIG_JOB_MANAGER_DEDUPE_SLOTS"
    and "c = jm_compacts m ! i" "jc_used c" "jc_key c = k" "k \<noteq> []"
    and "t1 - CONFIG_JOB_MANAGER_RETENTION_SECONDS * 1000 \<le> jc_retired_ms c"
    and "jcp_kind p \<noteq> JOB_KIND_OTHER" "jcp_idempotency_key p = Some k"
  shows "job_create t1 t2 t3 (Some p) m =
    ((if jc_request_hash c = jcp_request_hash p
      then (JOB_CREATE_EXISTING, Some (snapshot_from_compact c)) else (JOB_CREATE_CONFLICT, None)),
     expire_compacts t1 m)"
proof -
  have inv: "job_inv m" and len: "i < length (jm_compacts m)"
    using jobs.inv_run [OF job_inv_init] reachable_pools [of xs] assms(1,2) by simp_all
  have "length k \<le> JOB_IDEMPOTENCY_KEY_MAX_LEN"
    using inv len assms(3-5) by (auto simp: job_inv_def compact_ok_def)
  moreover have same: "jm_compacts (expire_compacts t1 m) ! i = c"
    using len assms(3,7) by (simp add: expire_compacts_def Let_def)
  then have "ckey (expire_compacts t1 m) i k"
    using len assms(4-6) by (simp add: ckey_def)
  from lookup_compact [OF _ this] expire_inv [OF inv]
  have "lookup_locked k (jcp_request_hash p) (expire_compacts t1 m) =
      (if jc_request_hash c \<noteq> jcp_request_hash p then (JOB_LOOKUP_CONFLICT, None)
       else (JOB_LOOKUP_EXISTING, Some (snapshot_from_compact c)))"
    using same by (simp add: job_inv_def)
  ultimately show ?thesis by (intro create_by_lookup) (use assms in simp_all)
qed


text \<open>creation is refused for lack of room exactly when all slots hold unfinished jobs. A
  finished job always gives way (for update times below the clock's maximum).\<close>

theorem create_exhausted_iff_all_active:
  assumes "m = run_ops job_step xs job_manager_init"
    and "\<forall>r \<in> set (jm_records m). jr_updated_ms r < INT64_MAX"
    and "jcp_kind p \<noteq> JOB_KIND_OTHER"
    and "case jcp_idempotency_key p of None \<Rightarrow> True
         | Some k \<Rightarrow> k \<noteq> [] \<and> length k \<le> JOB_IDEMPOTENCY_KEY_MAX_LEN \<and>
             lookup_locked k (jcp_request_hash p) (expire_compacts t1 m) = (JOB_LOOKUP_NONE, None)"
  shows "fst (fst (job_create t1 t2 t3 (Some p) m)) =
    (if \<forall>r \<in> set (jm_records m). job_active r then JOB_CREATE_EXHAUSTED else JOB_CREATE_NEW)"
proof -
  let ?m = "expire_compacts t1 m"
  have c: "job_create t1 t2 t3 (Some p) m = create_fresh t2 t3 p ?m"
    using assms(3,4) by (auto simp: job_create_def Let_def split: option.splits)
  obtain slot m1 where cl: "claim_record t2 ?m = (slot, m1)" by fastforce
  show ?thesis
  proof (cases slot)
    case None
    with claim_record_None [of t2 ?m m1] cl assms(2) have "\<forall>r \<in> set (jm_records m). job_active r"
      by (force simp: job_active_def)
    with None c cl show ?thesis by (simp add: create_fresh_def)
  next
    case (Some i)
    have "i < length (jm_records m) \<and> \<not> job_active (jm_records m ! i)"
      using cl [unfolded Some] by (cases rule: claim_record_cases) (auto simp: job_active_def)
    then have "\<not> (\<forall>r \<in> set (jm_records m). job_active r)" by (metis nth_mem)
    with Some c cl show ?thesis by (simp add: create_fresh_def Let_def)
  qed
qed

lemma create_new_shape:
  assumes "job_create t1 t2 t3 (Some p) m = ((JOB_CREATE_NEW, s), m')"
  obtains i m1 where "claim_record t2 (expire_compacts t1 m) = (Some i, m1)"
    "s = Some (snapshot_from_record (new_record t3 (jm_id_counter m1 + 1) p))"
    "m' = m1\<lparr>jm_records := (jm_records m1)[i := new_record t3 (jm_id_counter m1 + 1) p],
             jm_id_counter := jm_id_counter m1 + 1\<rparr>"
    "m' = snd (create_fresh t2 t3 p (expire_compacts t1 m))"
proof -
  have "create_fresh t2 t3 p (expire_compacts t1 m) = ((JOB_CREATE_NEW, s), m')"
    using assms
    by (auto simp: job_create_def Let_def split: option.splits if_splits prod.splits job_lookup_result.splits)
  moreover then obtain i m1 where "claim_record t2 (expire_compacts t1 m) = (Some i, m1)"
    by (auto simp: create_fresh_def split: prod.splits option.splits)
  ultimately show ?thesis
    by (intro that [of i m1]) (simp_all add: create_fresh_def Let_def)
qed

lemma snapshot_new:
  "js_id (snapshot_from_record (new_record t n p)) = job_id_of n"
  "js_state (snapshot_from_record (new_record t n p)) = JOB_STATE_QUEUED"
  "js_kind (snapshot_from_record (new_record t n p)) = jcp_kind p"
  by (simp_all add: snapshot_from_record_def job_id_of_def)

text \<open>a created job can be looked up. The snapshot that creation returns is what asking for
  its identifier returns next, the job is queued and of the kind asked for, and its identifier
  was carried by no record before.\<close>

theorem created_job_is_found:
  assumes "length xs + 1 < 2 ^ 32" "m = run_ops job_step xs job_manager_init"
    and "job_create t1 t2 t3 (Some p) m = ((JOB_CREATE_NEW, Some s), m')"
  shows "fst (job_get t4 (Some (js_id s)) m') = Inr s \<and> js_state s = JOB_STATE_QUEUED \<and>
    js_kind s = jcp_kind p \<and>
    (\<forall>r \<in> set (jm_records m). jr_used r \<longrightarrow> jr_id r \<noteq> js_id s) \<and>
    (\<forall>c \<in> set (jm_compacts m). jc_used c \<longrightarrow> jc_id c \<noteq> js_id s)"
proof -
  have r: "job_inv m" "ids_below m" "Suc (unat (jm_id_counter m)) < 2 ^ 32"
    using reachable_job_ids [of xs] assms(1,2) by auto
  obtain i m1 where c: "claim_record t2 (expire_compacts t1 m) = (Some i, m1)"
    and s: "s = snapshot_from_record (new_record t3 (jm_id_counter m1 + 1) p)"
    and m': "m' = m1\<lparr>jm_records := (jm_records m1)[i := new_record t3 (jm_id_counter m1 + 1) p],
             jm_id_counter := jm_id_counter m1 + 1\<rparr>"
    and f: "m' = snd (create_fresh t2 t3 p (expire_compacts t1 m))"
    using create_new_shape [OF assms(3)] by auto
  note ci = claim_inv [OF c expire_inv [OF r(1)]]
  have sid: "js_id s = job_id_of (jm_id_counter m + 1)" using s ci(5) by (simp add: snapshot_new)
  have "ids_below (expire_compacts t1 m)"
    using job_change_ids [OF job_change.expired r] by simp
  then have "ids_below m'"
    using create_fresh_ids [OF expire_inv [OF r(1)]] r(3) f by simp
  then have "uniq (rid m') (cid m')" by (simp add: ids_below_def)
  moreover have "rid m' i (js_id s)" using m' ci(2,5) sid by (simp add: rid_def)
  ultimately have "find_record (Some (js_id s)) (expire_compacts t4 m') = Some i"
    using find_record_unique [of "m'" i] by (simp add: find_record_def)
  then have "fst (job_get t4 (Some (js_id s)) m') = Inr s"
    using m' s ci(2,5) by (simp add: job_get_def Let_def)
  moreover have old: "v \<noteq> js_id s" if "rid m a v \<or> cid m a v" for a v
    using that r(2) fresh_id [OF r(3)] sid unfolding ids_below_def by metis
  moreover have "jr_id (jm_records m ! a) \<noteq> js_id s"
    if "a < length (jm_records m)" "jr_used (jm_records m ! a)" for a
    using that old [of a] by (simp add: rid_def)
  moreover have "jc_id (jm_compacts m ! a) \<noteq> js_id s"
    if "a < length (jm_compacts m)" "jc_used (jm_compacts m ! a)" for a
    using that old [of a] by (simp add: cid_def)
  ultimately show ?thesis
    using s by (simp add: snapshot_new all_set_conv_all_nth)
qed

text \<open>a finished job is final. Every call that would change it is refused with
  \<open>EINVAL\<close>, whatever its arguments, and changes nothing.\<close>

theorem finished_job_refuses_changes:
  assumes "length xs < 2 ^ 32" "m = run_ops job_step xs job_manager_init"
    and "i < CONFIG_JOB_MANAGER_MAX_JOBS" "r = jm_records m ! i" "jr_used r"
    and "job_state_is_terminal (jr_state r)"
  shows "job_set_state t (Some (jr_id r)) st m = (Some EINVAL, m) \<and>
    job_fail t (Some (jr_id r)) code retry m = (Some EINVAL, m) \<and>
    job_set_phase t (Some (jr_id r)) ph m = (Some EINVAL, m) \<and>
    job_set_progress t (Some (jr_id r)) completed tot known un m = (Some EINVAL, m) \<and>
    job_set_cancellable t (Some (jr_id r)) b m = (Some EINVAL, m) \<and>
    job_cancel t (Some (jr_id r)) m = (Some EINVAL, m)"
proof -
  have "uniq (rid m) (cid m)" "i < length (jm_records m)"
    using reachable_job_ids [of xs] reachable_pools [of xs] assms(1-3) by (auto simp: ids_below_def)
  with assms(4,5) have f: "find_record (Some (jr_id r)) m = Some i"
    by (intro find_record_unique) (simp_all add: rid_def)
  have n: "\<not> transition_allowed (jr_state r) s" for s
    using assms(6) by (simp add: transition_allowed_def)
  show ?thesis
    using f n assms(4,6)
    by (intro conjI) (simp_all add: job_set_state_def job_fail_def job_set_phase_def job_set_progress_def
        job_set_cancellable_def job_cancel_def split: option.split)
qed

text \<open>the active identifiers come from one pass: the first \<open>cap\<close> of the unfinished jobs in
  pool order, together with how many there are, which is also what counting them gives.\<close>

theorem active_ids_are_the_unfinished_jobs:
  "job_active_ids cap m =
    ((case cap of None \<Rightarrow> [] | Some k \<Rightarrow> take k (map jr_id (filter job_active (jm_records m)))),
     length (filter job_active (jm_records m))) \<and>
   job_active_count m = length (filter job_active (jm_records m))"
proof -
  let ?f = "\<lambda>(ids, n) r. if \<not> jr_used r \<or> job_state_is_terminal (jr_state r) then (ids, n)
        else ((case cap of None \<Rightarrow> ids | Some k \<Rightarrow> if n < k then ids @ [jr_id r] else ids), n + 1)"
  have "foldl ?f ([], 0) rs =
    ((case cap of None \<Rightarrow> [] | Some k \<Rightarrow> take k (map jr_id (filter job_active rs))),
     length (filter job_active rs))" for rs
    by (induction rs rule: rev_induct) (auto simp: job_active_def [abs_def] take_Cons' split: option.split)
  moreover have "foldl (\<lambda>n r. if job_active r then n + 1 else n) (0 :: nat) rs = length (filter job_active rs)"
    for rs by (induction rs rule: rev_induct) auto
  ultimately show ?thesis by (simp add: job_active_ids_def job_active_count_def)
qed

text \<open>the transitions the code accepts from a known state are those of the header's table, and
  one more: a queued job may be recorded as succeeded without ever having run.\<close>

theorem accepted_transitions_are_the_table_and_one_more:
  "job_set_state now jid st m =
    (case find_record jid m of
       None \<Rightarrow> (Some (if st = JOB_STATE_OTHER then EINVAL else ENOENT), m)
     | Some i \<Rightarrow> let r = jm_records m ! i in
         if jr_state r \<noteq> JOB_STATE_OTHER \<and>
            (header_transition (jr_state r) st \<or> (jr_state r = JOB_STATE_QUEUED \<and> st = JOB_STATE_SUCCEEDED)) \<or>
            (jr_state r = JOB_STATE_OTHER \<and> job_state_is_terminal st)
         then (None, put_record i (r\<lparr>jr_state := st, jr_updated_ms := now,
                 jr_cancellable := jr_cancellable r \<and> \<not> job_state_is_terminal st\<rparr>) m)
         else (Some EINVAL, m))"
proof (cases "find_record jid m")
  case (Some i)
  let ?r = "jm_records m ! i"
  have t: "transition_allowed (jr_state ?r) st \<longleftrightarrow> jr_state ?r \<noteq> JOB_STATE_OTHER \<and>
            (header_transition (jr_state ?r) st \<or> (jr_state ?r = JOB_STATE_QUEUED \<and> st = JOB_STATE_SUCCEEDED)) \<or>
            (jr_state ?r = JOB_STATE_OTHER \<and> job_state_is_terminal st)"
  proof (cases "jr_state ?r = JOB_STATE_OTHER")
    case True
    then show ?thesis by (simp add: transition_allowed_def)
  next
    case False
    then show ?thesis by (simp add: transition_allowed_lifecycle lifecycle_def)
  qed
  have "st \<noteq> JOB_STATE_OTHER" if "transition_allowed (jr_state ?r) st"
    using that by (auto simp: transition_allowed_def split: job_state.splits if_splits)
  with Some t show ?thesis
    by (auto simp: job_set_state_def Let_def)
qed (simp add: job_set_state_def)

text \<open>the failed state can be entered without a reason: setting it through the generic state
  change records no error.\<close>

theorem failure_without_a_reason:
  assumes "find_record jid m = Some i" "jr_state (jm_records m ! i) = JOB_STATE_RUNNING"
    and "\<not> jr_has_error (jm_records m ! i)"
  shows "fst (job_set_state now jid JOB_STATE_FAILED m) = None \<and>
    jr_state (jm_records (snd (job_set_state now jid JOB_STATE_FAILED m)) ! i) = JOB_STATE_FAILED \<and>
    \<not> jr_has_error (jm_records (snd (job_set_state now jid JOB_STATE_FAILED m)) ! i)"
  using assms find_recordD(1) [OF assms(1)]
  by (simp add: job_set_state_def transition_allowed_def put_record_def Let_def)

section \<open>Witnesses\<close>

definition demo_params :: "string option \<Rightarrow> job_create_params" where
  "demo_params k = \<lparr>jcp_kind = JOB_KIND_WIFI_SCAN, jcp_cancellable = True, jcp_idempotency_key = k,
     jcp_request_hash = 7\<rparr>"

definition demo_state :: job_manager where
  "demo_state = run_ops job_step [Op_create 0 0 0 (Some (demo_params (Some ''key'')))] job_manager_init"

lemma find_index_replicate: "find_index p (replicate n x) = (if 0 < n \<and> p x then Some 0 else None)"
  by (cases n) auto

lemma expire_fresh: "jm_compacts m = replicate n zero_compact \<Longrightarrow> expire_compacts t m = m"
  by (simp add: expire_compacts_def Let_def)

lemmas demo_simps = job_manager_init_def job_create_def lookup_locked_def create_fresh_def
  claim_record_def find_index_replicate expire_fresh demo_params_def Let_def

lemma demo_state_eq:
  "demo_state = job_manager_init\<lparr>jm_records :=
     new_record 0 1 (demo_params (Some ''key'')) # replicate 15 zero_record, jm_id_counter := 1\<rparr>"
proof -
  have "replicate CONFIG_JOB_MANAGER_MAX_JOBS zero_record = zero_record # replicate 15 zero_record"
    by (simp add: CONFIG_JOB_MANAGER_MAX_JOBS_def flip: replicate_Suc)
  then show ?thesis
    by (simp add: demo_state_def demo_simps JOB_IDEMPOTENCY_KEY_MAX_LEN_def)
qed


definition demo_finished :: job_manager where
  "demo_finished = run_ops job_step
     [Op_create 0 0 0 (Some (demo_params (Some ''key''))), Op_cancel 1 (Some ''job_00000001'')] job_manager_init"

definition cancelled_record :: job_record where
  "cancelled_record = (new_record 0 1 (demo_params (Some ''key'')))
     \<lparr>jr_state := JOB_STATE_CANCELLED, jr_cancellable := False, jr_updated_ms := 1\<rparr>"

lemma job_id_1: "job_id_of 1 = ''job_00000001''"
  by code_simp

lemma demo_finished_eq:
  "demo_finished = job_manager_init\<lparr>jm_id_counter := 1,
     jm_records := cancelled_record # replicate 15 zero_record\<rparr>"
proof -
  have "demo_finished = snd (job_cancel 1 (Some ''job_00000001'') demo_state)"
    by (simp add: demo_finished_def demo_state_def)
  then show ?thesis
    by (simp add: demo_state_eq job_cancel_def find_record_def job_id_1 put_record_def Let_def
        demo_params_def cancelled_record_def)
qed

definition demo_evicted :: job_manager where
  "demo_evicted = run_ops job_step
     ([Op_create 0 0 0 (Some (demo_params (Some ''key''))), Op_cancel 1 (Some ''job_00000001'')] @
      replicate 16 (Op_create 2 3 4 (Some (demo_params None)))) job_manager_init"

lemma create_keyless:
  assumes "jm_records m = rs @ zero_record # replicate n zero_record" "\<forall>r \<in> set rs. jr_used r"
    and "jm_compacts m = replicate k zero_compact"
  shows "job_step (Op_create t1 t2 t3 (Some (demo_params None))) m =
    m\<lparr>jm_records := (rs @ [new_record t3 (jm_id_counter m + 1) (demo_params None)]) @ replicate n zero_record,
      jm_id_counter := jm_id_counter m + 1\<rparr>"
proof -
  have "find_index (\<lambda>r. \<not> jr_used r) (jm_records m) = Some (length rs)"
    using assms(1,2) by (simp add: find_index_Some nth_append)
  then show ?thesis
    using assms(1,3) by (simp add: job_create_def demo_params_def create_fresh_def claim_record_def
        expire_fresh Let_def)
qed

lemma fill_pool:
  "jm_records m = rs @ replicate n zero_record \<Longrightarrow> \<forall>r \<in> set rs. jr_used r \<Longrightarrow>
     jm_compacts m = replicate k zero_compact \<Longrightarrow>
   \<exists>ns c. run_ops job_step (replicate n (Op_create t1 t2 t3 (Some (demo_params None)))) m =
      m\<lparr>jm_records := rs @ map (\<lambda>i. new_record t3 i (demo_params None)) ns, jm_id_counter := c\<rparr>"
proof (induction n arbitrary: m rs)
  case 0
  then show ?case
    by (intro exI [of _ "[]"] exI [of _ "jm_id_counter m"]) simp
next
  case (Suc n)
  let ?r = "new_record t3 (jm_id_counter m + 1) (demo_params None)"
  let ?m = "m\<lparr>jm_records := (rs @ [?r]) @ replicate n zero_record, jm_id_counter := jm_id_counter m + 1\<rparr>"
  have step: "job_step (Op_create t1 t2 t3 (Some (demo_params None))) m = ?m"
    using Suc.prems by (intro create_keyless) simp_all
  have "jm_records ?m = (rs @ [?r]) @ replicate n zero_record" "\<forall>r \<in> set (rs @ [?r]). jr_used r"
    "jm_compacts ?m = replicate k zero_compact" using Suc.prems by simp_all
  from Suc.IH [OF this] obtain ns c where
    "run_ops job_step (replicate n (Op_create t1 t2 t3 (Some (demo_params None)))) ?m =
      ?m\<lparr>jm_records := (rs @ [?r]) @ map (\<lambda>i. new_record t3 i (demo_params None)) ns, jm_id_counter := c\<rparr>"
    by blast
  with step show ?case
    by (intro exI [of _ "(jm_id_counter m + 1) # ns"] exI [of _ c]) simp
qed

lemma demo_pool_full:
  assumes recs: "jm_records m = cancelled_record # map (\<lambda>i. new_record 4 i (demo_params None)) ns"
    and comps: "jm_compacts m = zero_compact # replicate n zero_compact"
  shows "let x = jm_compacts (job_step (Op_create 2 3 4 (Some (demo_params None))) m) ! 0 in
     jc_used x \<and> jc_key x = ''key'' \<and> jc_request_hash x = 7 \<and> jc_retired_ms x = 3"
proof -
  let ?news = "map (\<lambda>i. new_record 4 i (demo_params None)) ns"
  have "oldest_terminal k 1 (Some 0) ?news = Some 0" for k
    by (induction ns arbitrary: k) simp_all
  then have v: "oldest_terminal 0 INT64_MAX None (jm_records m) = Some 0"
    by (simp add: recs cancelled_record_def INT64_MAX_def)
  have "find_index (\<lambda>r. \<not> jr_used r) (jm_records m) = None"
    by (auto simp: recs cancelled_record_def)
  then have c: "claim_record 3 m = (Some 0, m\<lparr>jm_compacts := retire_to_compact 3 cancelled_record (jm_compacts m),
      jm_records := (jm_records m)[0 := zero_record]\<rparr>)"
    unfolding claim_record_def v by (simp add: recs)
  have "expire_compacts 2 m = m"
    by (rule expire_fresh [of _ "Suc n"]) (simp add: comps)
  then have "jm_compacts (job_step (Op_create 2 3 4 (Some (demo_params None))) m) =
      retire_to_compact 3 cancelled_record (jm_compacts m)"
    by (simp add: job_create_def create_fresh_def c Let_def demo_params_def)
  then show ?thesis
    by (simp add: retire_to_compact_def comps Let_def cancelled_record_def demo_params_def
        JOB_IDEMPOTENCY_KEY_MAX_LEN_def)
qed

lemma demo_evicted_slot:
  "let c = jm_compacts demo_evicted ! 0 in
     jc_used c \<and> jc_key c = ''key'' \<and> jc_request_hash c = 7 \<and> jc_retired_ms c = 3"
proof -
  let ?op = "Op_create 2 3 4 (Some (demo_params None))"
  have "replicate 16 ?op = replicate 15 ?op @ [?op]"
    using replicate_app_Cons_same [of 15 ?op "[]"] by (simp flip: replicate_Suc)
  then have "demo_evicted = job_step ?op (run_ops job_step (replicate 15 ?op) demo_finished)"
    by (simp add: demo_evicted_def demo_finished_def)
  moreover obtain ns c where "run_ops job_step (replicate 15 ?op) demo_finished =
      demo_finished\<lparr>jm_records := [cancelled_record] @ map (\<lambda>i. new_record 4 i (demo_params None)) ns,
                    jm_id_counter := c\<rparr>"
    using fill_pool [of demo_finished "[cancelled_record]" 15 CONFIG_JOB_MANAGER_DEDUPE_SLOTS 2 3 4]
    by (auto simp: demo_finished_eq cancelled_record_def job_manager_init_def)
  ultimately show ?thesis
    using demo_pool_full [of "demo_finished\<lparr>jm_records := cancelled_record # map (\<lambda>i. new_record 4 i (demo_params None)) ns,
        jm_id_counter := c\<rparr>" ns 255]
    by (simp add: demo_finished_eq job_manager_init_def CONFIG_JOB_MANAGER_DEDUPE_SLOTS_def flip: replicate_Suc
        del: job_step.simps)
qed



lemma demo_record_0: "jm_records demo_state ! 0 = new_record 0 1 (demo_params (Some ''key''))"
  by (simp add: demo_state_eq)

lemma demo_key: "jcp_idempotency_key (demo_params k) = k" "jcp_kind (demo_params k) = JOB_KIND_WIFI_SCAN"
  "jcp_request_hash (demo_params k) = 7" by (simp_all add: demo_params_def)

lemmas pool_sizes = CONFIG_JOB_MANAGER_MAX_JOBS_def CONFIG_JOB_MANAGER_DEDUPE_SLOTS_def


theorem active_job_survives_every_call_witness:
  "continues (new_record 0 1 (demo_params (Some ''key'')))
     (jm_records (job_step (Op_set_state 5 (Some ''job_00000001'') JOB_STATE_RUNNING) demo_state) ! 0)"
  using active_job_survives_every_call [of demo_state "[Op_create 0 0 0 (Some (demo_params (Some ''key'')))]" 0]
  by (simp add: demo_state_def [symmetric] pool_sizes demo_record_0 job_active_def del: run_ops.simps job_step.simps)

theorem retry_finds_the_first_job_witness:
  "fst (job_create 9 9 9 (Some (demo_params (Some ''key''))) demo_state) =
     (JOB_CREATE_EXISTING, Some (snapshot_from_record (new_record 0 1 (demo_params (Some ''key'')))))"
  using retry_finds_the_first_job [of demo_state "[Op_create 0 0 0 (Some (demo_params (Some ''key'')))]" 0
      _ "''key''" "demo_params (Some ''key'')" 9 9 9]
  by (simp add: demo_state_def [symmetric] pool_sizes demo_record_0 demo_key JOB_IDEMPOTENCY_KEY_MAX_LEN_def
      del: run_ops.simps job_step.simps)

theorem retry_finds_the_evicted_job_witness:
  "fst (fst (job_create 900003 9 9 (Some (demo_params (Some ''key''))) demo_evicted)) = JOB_CREATE_EXISTING"
  using retry_finds_the_evicted_job [OF demo_evicted_def _ refl, of 0 "''key''" 900003
      "demo_params (Some ''key'')" 9 9] demo_evicted_slot
  by (simp add: pool_sizes demo_key CONFIG_JOB_MANAGER_RETENTION_SECONDS_def Let_def)

theorem create_exhausted_iff_all_active_witness:
  "fst (fst (job_create 1 1 1 (Some (demo_params None)) demo_state)) = JOB_CREATE_NEW"
proof -
  have rs: "set (jm_records demo_state) = {new_record 0 1 (demo_params (Some ''key'')), zero_record}"
    by (simp add: demo_state_eq)
  have "jr_updated_ms (new_record 0 1 (demo_params (Some ''key''))) = 0" "jr_updated_ms zero_record = 0"
    by (simp_all add: new_record_def zero_record_def)
  with rs have u: "\<forall>r \<in> set (jm_records demo_state). jr_updated_ms r < INT64_MAX"
    by (simp add: INT64_MAX_def)
  from create_exhausted_iff_all_active [OF demo_state_def u, of "demo_params None" 1 1 1] rs show ?thesis
    by (simp add: demo_key job_active_def)
qed

theorem created_job_is_found_witness:
  "fst (job_get 5 (Some ''job_00000001'') demo_state) =
     Inr (snapshot_from_record (new_record 0 1 (demo_params (Some ''key''))))"
proof -
  have "job_create 0 0 0 (Some (demo_params (Some ''key''))) job_manager_init =
    ((JOB_CREATE_NEW, Some (snapshot_from_record (new_record 0 1 (demo_params (Some ''key''))))), demo_state)"
    by (simp add: demo_state_def) (simp add: demo_simps JOB_IDEMPOTENCY_KEY_MAX_LEN_def
        CONFIG_JOB_MANAGER_MAX_JOBS_def)
  from created_job_is_found [of "[]" job_manager_init, OF _ _ this, of 5] show ?thesis
    by (simp add: snapshot_new job_id_1)
qed

theorem finished_job_refuses_changes_witness:
  "job_cancel 7 (Some ''job_00000001'') demo_finished = (Some EINVAL, demo_finished)"
proof -
  have "jm_records demo_finished ! 0 = cancelled_record" "jr_id cancelled_record = ''job_00000001''"
    by (simp_all add: demo_finished_eq cancelled_record_def job_id_1)
  with finished_job_refuses_changes [OF _ demo_finished_def, of 0 cancelled_record 7] show ?thesis
    by (simp add: pool_sizes cancelled_record_def)
qed

theorem failure_without_a_reason_witness:
  "fst (job_set_state 3 (Some ''job_00000001'') JOB_STATE_FAILED
     (snd (job_set_state 2 (Some ''job_00000001'') JOB_STATE_RUNNING demo_state))) = None"
proof -
  let ?r = "(new_record 0 1 (demo_params (Some ''key'')))\<lparr>jr_state := JOB_STATE_RUNNING, jr_updated_ms := 2\<rparr>"
  have m: "jm_records (snd (job_set_state 2 (Some ''job_00000001'') JOB_STATE_RUNNING demo_state)) =
      ?r # replicate 15 zero_record"
    by (simp add: demo_state_eq job_set_state_def find_record_def job_id_1 transition_allowed_def
        put_record_def Let_def)
  then have "find_record (Some ''job_00000001'')
      (snd (job_set_state 2 (Some ''job_00000001'') JOB_STATE_RUNNING demo_state)) = Some 0"
    by (simp add: find_record_def job_id_1)
  from failure_without_a_reason [OF this, of 3] m show ?thesis by simp
qed

end
