(* ===== verification/Network_Validate.thy ===== *)
theory Network_Validate
  imports Api_Validation
begin

text \<open>
  Model of \<^verbatim>\<open>modules/network-manager/lib/network_validate.c\<close>: the validator of a proposed network
  configuration, and the policies that read the interfaces without changing them (health check,
  interface state, default interface). The configuration structures are those of
  \<^verbatim>\<open>device_config_store.h\<close>, the statuses those of \<^verbatim>\<open>network_manager.h\<close>. Bytes that store an enum
  stay bytes, since the validator's job includes refusing the values no enum constant has; bytes
  that store a truth value are booleans. Every validator reports problems into the caller's
  \<^verbatim>\<open>struct api_error\<close>, which is threaded through.
\<close>

section \<open>Data\<close>

definition DEVICE_CONFIG_SSID_MAX_LEN :: nat where "DEVICE_CONFIG_SSID_MAX_LEN = 32"
definition DEVICE_CONFIG_SECRET_MAX_LEN :: nat where "DEVICE_CONFIG_SECRET_MAX_LEN = 96"
definition DEVICE_CONFIG_DNS_MAX_SERVERS :: nat where "DEVICE_CONFIG_DNS_MAX_SERVERS = 2"

definition DEVICE_CONFIG_INTERFACE_ETHERNET :: byte where "DEVICE_CONFIG_INTERFACE_ETHERNET = 0"
definition DEVICE_CONFIG_INTERFACE_WIFI :: byte where "DEVICE_CONFIG_INTERFACE_WIFI = 1"
definition DEVICE_CONFIG_INTERFACE_COUNT :: byte where "DEVICE_CONFIG_INTERFACE_COUNT = 2"

definition DEVICE_CONFIG_IPV4_DHCP :: byte where "DEVICE_CONFIG_IPV4_DHCP = 0"
definition DEVICE_CONFIG_IPV4_STATIC :: byte where "DEVICE_CONFIG_IPV4_STATIC = 1"
definition DEVICE_CONFIG_IPV4_MODE_COUNT :: byte where "DEVICE_CONFIG_IPV4_MODE_COUNT = 2"

definition DEVICE_CONFIG_DNS_AUTOMATIC :: byte where "DEVICE_CONFIG_DNS_AUTOMATIC = 0"
definition DEVICE_CONFIG_DNS_MANUAL :: byte where "DEVICE_CONFIG_DNS_MANUAL = 1"
definition DEVICE_CONFIG_DNS_MODE_COUNT :: byte where "DEVICE_CONFIG_DNS_MODE_COUNT = 2"

definition DEVICE_CONFIG_WIFI_OPEN :: byte where "DEVICE_CONFIG_WIFI_OPEN = 0"
definition DEVICE_CONFIG_WIFI_WPA2_PSK :: byte where "DEVICE_CONFIG_WIFI_WPA2_PSK = 1"
definition DEVICE_CONFIG_WIFI_WPA3_SAE :: byte where "DEVICE_CONFIG_WIFI_WPA3_SAE = 2"
definition DEVICE_CONFIG_WIFI_SECURITY_COUNT :: byte where "DEVICE_CONFIG_WIFI_SECURITY_COUNT = 3"

definition DEVICE_CONFIG_AF_INET :: byte where "DEVICE_CONFIG_AF_INET = 4"
definition DEVICE_CONFIG_AF_INET6 :: byte where "DEVICE_CONFIG_AF_INET6 = 6"

lemmas config_consts [cedar_defs] =
  DEVICE_CONFIG_INTERFACE_ETHERNET_def DEVICE_CONFIG_INTERFACE_WIFI_def
  DEVICE_CONFIG_INTERFACE_COUNT_def DEVICE_CONFIG_IPV4_DHCP_def DEVICE_CONFIG_IPV4_STATIC_def
  DEVICE_CONFIG_IPV4_MODE_COUNT_def DEVICE_CONFIG_DNS_AUTOMATIC_def DEVICE_CONFIG_DNS_MANUAL_def
  DEVICE_CONFIG_DNS_MODE_COUNT_def DEVICE_CONFIG_WIFI_OPEN_def DEVICE_CONFIG_WIFI_WPA2_PSK_def
  DEVICE_CONFIG_WIFI_WPA3_SAE_def DEVICE_CONFIG_WIFI_SECURITY_COUNT_def DEVICE_CONFIG_AF_INET_def
  DEVICE_CONFIG_AF_INET6_def DEVICE_CONFIG_SSID_MAX_LEN_def DEVICE_CONFIG_SECRET_MAX_LEN_def
  DEVICE_CONFIG_DNS_MAX_SERVERS_def

record device_config_addr =
  ca_family :: byte
  ca_bytes :: "byte list"

record device_config_ipv4 =
  i4_mode :: byte
  i4_prefix_length :: byte
  i4_has_gateway :: bool
  i4_address :: "byte list"
  i4_gateway :: "byte list"

record device_config_dns =
  dns_mode :: byte
  dns_server_count :: byte
  dns_servers :: "device_config_addr list"

record device_config_ethernet =
  eth_enabled :: bool
  eth_ipv4 :: device_config_ipv4

record device_config_wifi =
  wifi_enabled :: bool
  wifi_security :: byte
  wifi_hidden :: bool
  wifi_ssid_len :: byte
  wifi_ssid :: "byte list"
  wifi_password_set :: bool
  wifi_ipv4 :: device_config_ipv4

record device_config =
  dc_preferred_interface :: byte
  dc_admin_password_set :: bool
  dc_dns :: device_config_dns
  dc_ethernet :: device_config_ethernet
  dc_wifi :: device_config_wifi

text \<open>\<open>DEVICE_CONFIG_SECRET_OTHER\<close> stands for any value that is not an action.\<close>

datatype device_config_secret_action =
    DEVICE_CONFIG_SECRET_KEEP | DEVICE_CONFIG_SECRET_REPLACE | DEVICE_CONFIG_SECRET_CLEAR
  | DEVICE_CONFIG_SECRET_OTHER

record device_config_secret_update =
  su_action :: device_config_secret_action
  su_value :: "byte list option"
  su_len :: nat

record network_config_input =
  ni_config :: device_config
  ni_wifi_password :: device_config_secret_update
  ni_ethernet_address_given :: bool
  ni_wifi_address_given :: bool
  ni_ssid_invalid :: bool

datatype network_iface_state =
    NETWORK_IFACE_DISABLED | NETWORK_IFACE_DOWN | NETWORK_IFACE_CONNECTING | NETWORK_IFACE_CONNECTED
  | NETWORK_IFACE_ADDRESSING | NETWORK_IFACE_READY | NETWORK_IFACE_FAILED

record network_addr =
  na_family :: byte
  na_prefix_length :: byte
  na_source :: byte
  na_bytes :: "byte list"

record network_iface_status =
  st_present :: bool
  st_enabled :: bool
  st_link_up :: bool
  st_has_ipv4 :: bool
  st_ipv4 :: "byte list"
  st_prefix_length :: byte
  st_has_gateway :: bool
  st_gateway :: "byte list"
  st_has_route :: bool
  st_mac :: "byte list"
  st_addrs :: "network_addr list"
  st_wifi_associated :: bool
  st_wifi_connecting :: bool
  st_wifi_failed :: bool
  st_ssid :: "byte list"
  st_rssi :: int
  st_rssi_valid :: bool
  st_state :: network_iface_state

record network_status =
  ns_ethernet :: network_iface_status
  ns_wifi :: network_iface_status
  ns_active :: byte
  ns_has_active :: bool
  ns_dns :: "device_config_addr list"

section \<open>Paths\<close>

definition P_PREFERRED :: string where "P_PREFERRED = ''/config/preferred_interface''"
definition P_DNS_SERVERS :: string where "P_DNS_SERVERS = ''/config/dns/servers''"
definition P_ETH :: string where "P_ETH = ''/config/interfaces/ethernet''"
definition P_WIFI :: string where "P_WIFI = ''/config/interfaces/wifi''"

definition iface_path :: "byte \<Rightarrow> string" where
  "iface_path iface = (if iface = DEVICE_CONFIG_INTERFACE_ETHERNET then P_ETH else P_WIFI)"

text \<open>One of the three copy loops of \<^verbatim>\<open>ipv4_path\<close>: it stops at the text's end or at the last cell.\<close>

fun path_copy :: "nat \<Rightarrow> string \<Rightarrow> string \<Rightarrow> string" where
  "path_copy cap buf [] = buf"
| "path_copy cap buf (c # cs) =
     (if length buf + 1 < cap then path_copy cap (buf @ [c]) cs else buf)"

definition ipv4_path :: "nat \<Rightarrow> byte \<Rightarrow> string \<Rightarrow> string" where
  "ipv4_path cap iface field =
     path_copy cap (path_copy cap (path_copy cap [] (iface_path iface)) ''/ipv4/'') field"

text \<open>\<^verbatim>\<open>(void)api_error_add_field(err, path, code)\<close>.\<close>

definition add_field :: "api_error \<Rightarrow> string \<Rightarrow> api_field_code \<Rightarrow> api_error" where
  "add_field err path code = snd (api_error_add_field err (Some path) code)"

definition add_ipv4_field :: "api_error \<Rightarrow> byte \<Rightarrow> string \<Rightarrow> api_field_code \<Rightarrow> api_error" where
  "add_ipv4_field err iface field code = add_field err (ipv4_path 96 iface field) code"

definition addr_is_zero :: "byte list \<Rightarrow> nat \<Rightarrow> bool" where
  "addr_is_zero addr len = (foldl (\<lambda>any i. any OR addr ! i) 0 [0..<len] = (0 :: byte))"

definition server_path :: "byte \<Rightarrow> string" where
  "server_path index = P_DNS_SERVERS @ ''/'' @
     (if 10 \<le> index then [digit_char (unat (index div 10))] else []) @
     [digit_char (unat (index mod 10))]"

definition add_server_field :: "api_error \<Rightarrow> byte \<Rightarrow> api_field_code \<Rightarrow> api_error" where
  "add_server_field err index code = add_field err (server_path index) code"

section \<open>The validators\<close>

text \<open>One reported problem: the flag goes down and the field is added.\<close>

definition reject :: "bool \<Rightarrow> (api_error \<Rightarrow> api_error) \<Rightarrow> bool \<times> api_error \<Rightarrow> bool \<times> api_error" where
  "reject c report r = (if c then (False, report (snd r)) else r)"

definition validate_ipv4 ::
    "device_config_ipv4 \<Rightarrow> bool \<Rightarrow> byte \<Rightarrow> api_error \<Rightarrow> bool \<times> api_error" where
  "validate_ipv4 ipv4 address_given iface err =
     (let has_address = address_given \<or> \<not> addr_is_zero (i4_address ipv4) 4;
          say = (\<lambda>field code e. add_ipv4_field e iface field code)
      in if DEVICE_CONFIG_IPV4_MODE_COUNT \<le> i4_mode ipv4
         then (False, say ''mode'' API_FIELD_INVALID_FORMAT err)
         else if i4_mode ipv4 = DEVICE_CONFIG_IPV4_DHCP
         then reject (i4_has_gateway ipv4) (say ''gateway'' API_FIELD_NOT_ALLOWED)
              (reject (i4_prefix_length ipv4 \<noteq> 0) (say ''prefix_length'' API_FIELD_NOT_ALLOWED)
              (reject has_address (say ''address'' API_FIELD_NOT_ALLOWED) (True, err)))
         else
           let r1 = reject (\<not> has_address) (say ''address'' API_FIELD_REQUIRED) (True, err);
               r2 = (if i4_prefix_length ipv4 = 0
                     then (False, say ''prefix_length'' API_FIELD_REQUIRED (snd r1))
                     else reject (\<not> api_ipv4_prefix_is_valid (i4_prefix_length ipv4))
                            (say ''prefix_length'' API_FIELD_OUT_OF_RANGE) r1)
           in if \<not> fst r2 then (False, snd r2)
              else if \<not> api_ipv4_is_usable_host (i4_address ipv4) (i4_prefix_length ipv4)
              then (False, say ''address'' API_FIELD_OUT_OF_RANGE (snd r2))
              else if i4_has_gateway ipv4 then
                if \<not> api_ipv4_is_usable_host (i4_gateway ipv4) (i4_prefix_length ipv4) \<or>
                   \<not> api_ipv4_same_subnet (i4_address ipv4) (i4_gateway ipv4) (i4_prefix_length ipv4)
                then (False, say ''gateway'' API_FIELD_OUT_OF_RANGE (snd r2))
                else reject (take 4 (i4_address ipv4) = take 4 (i4_gateway ipv4))
                       (say ''gateway'' API_FIELD_CONFLICTING) r2
              else r2)"

text \<open>The test of one resolver in the loop of \<^verbatim>\<open>validate_dns\<close>.\<close>

definition server_bad :: "device_config_addr \<Rightarrow> bool" where
  "server_bad s =
     (let known = ca_family s = DEVICE_CONFIG_AF_INET \<or> ca_family s = DEVICE_CONFIG_AF_INET6
      in \<not> known \<or> addr_is_zero (ca_bytes s) (if ca_family s = DEVICE_CONFIG_AF_INET then 4 else 16))"

definition validate_dns :: "device_config_dns \<Rightarrow> api_error \<Rightarrow> bool \<times> api_error" where
  "validate_dns dns err =
     (if DEVICE_CONFIG_DNS_MODE_COUNT \<le> dns_mode dns
      then (False, add_field err ''/config/dns/mode'' API_FIELD_INVALID_FORMAT)
      else
        let r1 = reject (dns_mode dns = DEVICE_CONFIG_DNS_AUTOMATIC \<and> dns_server_count dns \<noteq> 0)
                   (\<lambda>e. add_field e P_DNS_SERVERS API_FIELD_NOT_ALLOWED) (True, err);
            r2 = reject (dns_mode dns = DEVICE_CONFIG_DNS_MANUAL \<and> dns_server_count dns = 0)
                   (\<lambda>e. add_field e P_DNS_SERVERS API_FIELD_REQUIRED) r1
        in if DEVICE_CONFIG_DNS_MAX_SERVERS < unat (dns_server_count dns)
           then (False, add_field (snd r2) P_DNS_SERVERS API_FIELD_OUT_OF_RANGE)
           else foldl (\<lambda>r i. reject (server_bad (dns_servers dns ! i))
                          (\<lambda>e. add_server_field e (of_nat i) API_FIELD_INVALID_FORMAT) r)
                  r2 [0..<unat (dns_server_count dns)])"

text \<open>The comparisons with the committed Wi-Fi settings.\<close>

definition same_ssid :: "network_config_input \<Rightarrow> device_config \<Rightarrow> bool" where
  "same_ssid inp committed =
     (let wifi = dc_wifi (ni_config inp); old = dc_wifi committed
      in \<not> ni_ssid_invalid inp \<and> wifi_ssid_len old = wifi_ssid_len wifi \<and>
         unat (wifi_ssid_len wifi) \<le> DEVICE_CONFIG_SSID_MAX_LEN \<and>
         take (unat (wifi_ssid_len wifi)) (wifi_ssid old) =
         take (unat (wifi_ssid_len wifi)) (wifi_ssid wifi))"

definition same_security :: "network_config_input \<Rightarrow> device_config \<Rightarrow> bool" where
  "same_security inp committed =
     (wifi_security (dc_wifi committed) = wifi_security (dc_wifi (ni_config inp)))"

definition validate_wifi ::
    "network_config_input \<Rightarrow> device_config \<Rightarrow> api_error \<Rightarrow> bool \<times> api_error" where
  "validate_wifi inp committed err =
     (let wifi = dc_wifi (ni_config inp); cred = ni_wifi_password inp;
          say = (\<lambda>field code e. add_field e (P_WIFI @ field) code)
      in if \<not> wifi_enabled wifi then (True, err)
         else
           let r1 = (if ni_ssid_invalid inp
                     then (False, say ''/ssid_base64'' API_FIELD_INVALID_FORMAT err)
                     else if wifi_ssid_len wifi = 0
                     then (False, say ''/ssid_base64'' API_FIELD_REQUIRED err)
                     else reject (DEVICE_CONFIG_SSID_MAX_LEN < unat (wifi_ssid_len wifi))
                            (say ''/ssid_base64'' API_FIELD_OUT_OF_RANGE) (True, err))
           in if DEVICE_CONFIG_WIFI_SECURITY_COUNT \<le> wifi_security wifi
              then (False, say ''/security'' API_FIELD_INVALID_FORMAT (snd r1))
              else (case su_action cred of
                DEVICE_CONFIG_SECRET_REPLACE \<Rightarrow>
                  if su_value cred = None \<or> su_len cred = 0 \<or> DEVICE_CONFIG_SECRET_MAX_LEN < su_len cred
                  then (False, say ''/credential'' API_FIELD_CONFLICTING (snd r1))
                  else reject (wifi_security wifi = DEVICE_CONFIG_WIFI_OPEN)
                         (say ''/credential/action'' API_FIELD_NOT_ALLOWED) r1
              | DEVICE_CONFIG_SECRET_CLEAR \<Rightarrow>
                  reject (wifi_security wifi \<noteq> DEVICE_CONFIG_WIFI_OPEN)
                    (say ''/credential/action'' API_FIELD_CONFLICTING) r1
              | DEVICE_CONFIG_SECRET_KEEP \<Rightarrow>
                  if wifi_security wifi \<noteq> DEVICE_CONFIG_WIFI_OPEN then
                    if \<not> wifi_password_set (dc_wifi committed)
                    then (False, say ''/credential/action'' API_FIELD_CONFLICTING (snd r1))
                    else reject (\<not> same_ssid inp committed \<or> \<not> same_security inp committed)
                           (say ''/credential/action'' API_FIELD_NOT_ALLOWED) r1
                  else r1
              | DEVICE_CONFIG_SECRET_OTHER \<Rightarrow>
                  (False, say ''/credential'' API_FIELD_CONFLICTING (snd r1))))"

definition interface_enabled :: "device_config \<Rightarrow> byte \<Rightarrow> bool" where
  "interface_enabled cfg iface =
     (if iface = DEVICE_CONFIG_INTERFACE_ETHERNET then eth_enabled (dc_ethernet cfg)
      else wifi_enabled (dc_wifi cfg))"

text \<open>\<^verbatim>\<open>if (!validate(..., err)) { ok = false; }\<close>\<close>

definition also_check :: "(api_error \<Rightarrow> bool \<times> api_error) \<Rightarrow> bool \<times> api_error \<Rightarrow> bool \<times> api_error" where
  "also_check validate r = (case validate (snd r) of (v, e) \<Rightarrow> (fst r \<and> v, e))"

definition network_validate_config ::
    "network_config_input \<Rightarrow> device_config \<Rightarrow> network_status \<Rightarrow> api_error \<Rightarrow> bool \<times> api_error" where
  "network_validate_config inp committed status err =
     (let cfg = ni_config inp; eth = dc_ethernet cfg; wifi = dc_wifi cfg;
          r0 = (if \<not> eth_enabled eth \<and> \<not> wifi_enabled wifi
                then (False, add_field (add_field err (P_ETH @ ''/enabled'') API_FIELD_CONFLICTING)
                               (P_WIFI @ ''/enabled'') API_FIELD_CONFLICTING)
                else reject (wifi_enabled wifi \<and> \<not> st_present (ns_wifi status))
                       (\<lambda>e. add_field e (P_WIFI @ ''/enabled'') API_FIELD_NOT_ALLOWED) (True, err));
          r1 = also_check (validate_ipv4 (eth_ipv4 eth) (ni_ethernet_address_given inp)
                 DEVICE_CONFIG_INTERFACE_ETHERNET) r0;
          r2 = also_check (validate_ipv4 (wifi_ipv4 wifi) (ni_wifi_address_given inp)
                 DEVICE_CONFIG_INTERFACE_WIFI) r1;
          r3 = also_check (validate_dns (dc_dns cfg)) r2;
          r4 = (if DEVICE_CONFIG_INTERFACE_COUNT \<le> dc_preferred_interface cfg
                then (False, add_field (snd r3) P_PREFERRED API_FIELD_INVALID_FORMAT)
                else reject (\<not> interface_enabled cfg (dc_preferred_interface cfg))
                       (\<lambda>e. add_field e P_PREFERRED API_FIELD_CONFLICTING) r3);
          r5 = also_check (validate_wifi inp committed) r4
      in if fst r5
         then let eth_path = eth_enabled eth \<and> st_present (ns_ethernet status) \<and>
                    st_link_up (ns_ethernet status);
                  wifi_path = wifi_enabled wifi \<and> st_present (ns_wifi status) \<and>
                    st_link_up (ns_wifi status)
              in if \<not> eth_path \<and> \<not> wifi_path
                 then (False, add_field (add_field (snd r5) (P_ETH @ ''/enabled'') API_FIELD_NOT_ALLOWED)
                                (P_WIFI @ ''/enabled'') API_FIELD_NOT_ALLOWED)
                 else r5
         else r5)"

section \<open>Policies over the interfaces\<close>

fun healthy_checks :: "(device_config_ipv4 \<times> network_iface_status \<times> bool) list \<Rightarrow> bool" where
  "healthy_checks [] = True"
| "healthy_checks ((ipv4, st, enabled) # cs) =
     (if \<not> enabled then healthy_checks cs
      else if \<not> st_present st \<or> \<not> st_link_up st \<or> \<not> st_has_ipv4 st then False
      else if i4_mode ipv4 = DEVICE_CONFIG_IPV4_STATIC \<and> i4_has_gateway ipv4 \<and> \<not> st_has_route st
      then False
      else healthy_checks cs)"

definition network_config_is_healthy :: "device_config \<Rightarrow> network_status \<Rightarrow> bool" where
  "network_config_is_healthy cfg status = healthy_checks
     [(eth_ipv4 (dc_ethernet cfg), ns_ethernet status, eth_enabled (dc_ethernet cfg)),
      (wifi_ipv4 (dc_wifi cfg), ns_wifi status, wifi_enabled (dc_wifi cfg))]"

definition network_iface_state_of :: "byte \<Rightarrow> network_iface_status \<Rightarrow> bool \<Rightarrow> network_iface_state" where
  "network_iface_state_of iface st enabled =
     (if \<not> enabled then NETWORK_IFACE_DISABLED
      else if \<not> st_present st then NETWORK_IFACE_FAILED
      else if iface = DEVICE_CONFIG_INTERFACE_WIFI \<and> \<not> st_wifi_associated st then
        if st_wifi_connecting st then NETWORK_IFACE_CONNECTING
        else if st_wifi_failed st then NETWORK_IFACE_FAILED else NETWORK_IFACE_DOWN
      else if \<not> st_link_up st then NETWORK_IFACE_DOWN
      else if st_has_ipv4 st then NETWORK_IFACE_READY else NETWORK_IFACE_ADDRESSING)"

definition can_carry_traffic :: "device_config \<Rightarrow> network_status \<Rightarrow> byte \<Rightarrow> bool" where
  "can_carry_traffic cfg status iface =
     (let st = (if iface = DEVICE_CONFIG_INTERFACE_ETHERNET then ns_ethernet status else ns_wifi status)
      in interface_enabled cfg iface \<and> st_present st \<and> st_link_up st \<and> st_has_ipv4 st)"

text \<open>\<open>None\<close> is the return value false.\<close>

definition network_select_default :: "device_config \<Rightarrow> network_status \<Rightarrow> byte option" where
  "network_select_default cfg status =
     (let preferred = (if dc_preferred_interface cfg = DEVICE_CONFIG_INTERFACE_WIFI
                       then DEVICE_CONFIG_INTERFACE_WIFI else DEVICE_CONFIG_INTERFACE_ETHERNET);
          other = (if preferred = DEVICE_CONFIG_INTERFACE_WIFI
                   then DEVICE_CONFIG_INTERFACE_ETHERNET else DEVICE_CONFIG_INTERFACE_WIFI)
      in if can_carry_traffic cfg status preferred then Some preferred
         else if can_carry_traffic cfg status other then Some other
         else None)"

section \<open>What a validator reports\<close>

text \<open>
  \<open>reports err r\<close>: from \<open>err\<close>, the validator's result \<open>r\<close> added a list of well-formed problems
  and is true exactly when it added none.
\<close>

definition reports :: "api_error \<Rightarrow> bool \<times> api_error \<Rightarrow> bool" where
  "reports err r \<longleftrightarrow> (\<exists>ps. (\<forall>p \<in> set ps. problem_ok p) \<and>
     r = (ps = [], add_all api_error_add_field err ps))"

lemma reports_ok [intro, simp]: "reports err (True, err)"
  unfolding reports_def by (rule exI [of _ "[]"]) simp

lemma reports_more:
  assumes "reports err r" "problem_ok (p, c)"
  shows "reports err (False, add_field (snd r) p c)"
proof -
  from assms(1) obtain ps where "\<forall>p \<in> set ps. problem_ok p"
    "r = (ps = [], add_all api_error_add_field err ps)" unfolding reports_def by blast
  with assms(2) show ?thesis
    unfolding reports_def by (intro exI [of _ "ps @ [(p, c)]"]) (simp add: add_field_def)
qed

lemma reports_reject:
  "reports err r \<Longrightarrow> problem_ok (p, c) \<Longrightarrow> reports err (reject b (\<lambda>e. add_field e p c) r)"
  by (simp add: reject_def reports_more)

lemma reports_also:
  assumes "reports err r" "\<And>e. reports e (v e)"
  shows "reports err (also_check v r)"
proof -
  from assms(1) obtain ps where ps: "\<forall>p \<in> set ps. problem_ok p"
    "r = (ps = [], add_all api_error_add_field err ps)" unfolding reports_def by blast
  from assms(2) [of "snd r"] obtain qs where "\<forall>p \<in> set qs. problem_ok p"
    "v (snd r) = (qs = [], add_all api_error_add_field (snd r) qs)" unfolding reports_def by blast
  with ps show ?thesis
    unfolding reports_def by (intro exI [of _ "ps @ qs"]) (auto simp: also_check_def)
qed

text \<open>The paths of this file are valid and fit their buffers.\<close>

lemma path_copy_fits: "length buf + length s < cap \<Longrightarrow> path_copy cap buf s = buf @ s"
  by (induction s arbitrary: buf) auto

lemma ipv4_path_eq:
  "length field \<le> 16 \<Longrightarrow> ipv4_path 96 iface field = iface_path iface @ ''/ipv4/'' @ field"
  by (simp add: ipv4_path_def path_copy_fits iface_path_def P_ETH_def P_WIFI_def)

definition printable :: "string \<Rightarrow> bool" where
  "printable s \<longleftrightarrow> (\<forall>c \<in> set s. (0x20 :: nat) \<le> of_char c)"

lemma problem_okI: "path_is_valid (Some s) \<Longrightarrow> c \<noteq> API_FIELD_CODE_OUT_OF_RANGE \<Longrightarrow> problem_ok (s, c)"
  by (cases c) (simp_all add: problem_ok_def)

lemma path_append:
  "path_is_valid (Some s) \<Longrightarrow> printable t \<Longrightarrow> length s + length t \<le> 63 \<Longrightarrow> path_is_valid (Some (s @ t))"
  by (cases s) (auto simp: path_is_valid_iff printable_def)

lemma base_paths [simp]:
  "path_is_valid (Some P_ETH)" "path_is_valid (Some P_WIFI)" "path_is_valid (Some P_DNS_SERVERS)"
  "path_is_valid (Some P_PREFERRED)" "path_is_valid (Some ''/config/dns/mode'')"
  by (simp_all add: path_is_valid_iff P_ETH_def P_WIFI_def P_DNS_SERVERS_def P_PREFERRED_def)

lemma base_lengths: "length P_ETH = 27" "length P_WIFI = 23" "length P_DNS_SERVERS = 19"
  by (simp_all add: P_ETH_def P_WIFI_def P_DNS_SERVERS_def)

lemma ipv4_problem_ok:
  assumes "printable f" "length f \<le> 16" "c \<noteq> API_FIELD_CODE_OUT_OF_RANGE"
  shows "problem_ok (ipv4_path 96 iface f, c)"
proof -
  have "path_is_valid (Some (iface_path iface @ (''/ipv4/'' @ f)))"
    by (rule path_append) (use assms in \<open>auto simp: iface_path_def printable_def base_lengths\<close>)
  with assms show ?thesis by (intro problem_okI) (simp_all add: ipv4_path_eq)
qed

lemma wifi_problem_ok:
  "printable f \<Longrightarrow> length f \<le> 32 \<Longrightarrow> c \<noteq> API_FIELD_CODE_OUT_OF_RANGE \<Longrightarrow> problem_ok (P_WIFI @ f, c)"
  "printable f \<Longrightarrow> length f \<le> 32 \<Longrightarrow> c \<noteq> API_FIELD_CODE_OUT_OF_RANGE \<Longrightarrow> problem_ok (P_ETH @ f, c)"
  by (intro problem_okI path_append; simp add: base_lengths)+

lemma server_problem_ok:
  assumes "index < 100" "c \<noteq> API_FIELD_CODE_OUT_OF_RANGE"
  shows "problem_ok (server_path index, c)"
proof -
  have "unat (index div 10) < 10" "unat (index mod 10) < 10"
    using assms(1) by (simp_all add: unat_div unat_mod word_less_nat_alt)
  then have "printable (''/'' @ (if 10 \<le> index then [digit_char (unat (index div 10))] else []) @
     [digit_char (unat (index mod 10))])"
    by (simp add: printable_def of_char_digit_char)
  then show ?thesis
    using assms(2) unfolding server_path_def by (intro problem_okI path_append) (simp_all add: base_lengths)
qed

lemma printable_fields [simp]:
  "printable ''mode''" "printable ''address''" "printable ''prefix_length''" "printable ''gateway''"
  "printable ''/enabled''" "printable ''/ssid_base64''" "printable ''/security''"
  "printable ''/credential''" "printable ''/credential/action''"
  by (simp_all add: printable_def)

section \<open>Every validator reports\<close>

lemma reports_False: "reports err r \<Longrightarrow> \<not> fst r \<Longrightarrow> reports err (False, snd r)"
  by (cases r) simp

lemma reports_first: "problem_ok (p, c) \<Longrightarrow> reports err (False, add_field err p c)"
  using reports_more [OF reports_ok] by simp

lemma reports_if:
  "(b \<Longrightarrow> reports err x) \<Longrightarrow> (\<not> b \<Longrightarrow> reports err y) \<Longrightarrow> reports err (if b then x else y)"
  by simp

lemma reports_let:
  "reports err s \<Longrightarrow> (\<And>r. reports err r \<Longrightarrow> reports err (f r)) \<Longrightarrow> reports err (Let s f)"
  by simp

lemmas let_inputs = Let_def [where ?'a = bool] Let_def [where ?'a = device_config]
  Let_def [where ?'a = device_config_ethernet] Let_def [where ?'a = device_config_wifi]
  Let_def [where ?'a = device_config_secret_update]
  Let_def [where ?'a = "string \<Rightarrow> api_field_code \<Rightarrow> api_error \<Rightarrow> api_error"]

lemma validate_ipv4_reports: "reports err (validate_ipv4 ipv4 given iface err)"
  unfolding validate_ipv4_def let_inputs add_ipv4_field_def
  by (intro reports_if reports_let reports_reject reports_more reports_first reports_ok ipv4_problem_ok
      reports_False) simp_all

lemma reports_fold:
  "reports err r \<Longrightarrow> (\<And>i. i \<in> set xs \<Longrightarrow> problem_ok (p i, c)) \<Longrightarrow>
     reports err (foldl (\<lambda>r i. reject (b i) (\<lambda>e. add_field e (p i) c) r) r xs)"
  by (induction xs arbitrary: r) (simp_all add: reports_reject)

lemma server_problem_small: "i < 3 \<Longrightarrow> problem_ok (server_path (of_nat i), API_FIELD_INVALID_FORMAT)"
proof -
  assume "i < 3"
  then have "i = 0 \<or> i = 1 \<or> i = 2" by auto
  then show ?thesis by (intro server_problem_ok) auto
qed

lemma validate_dns_reports: "reports err (validate_dns dns err)"
  unfolding validate_dns_def add_server_field_def
  by (intro reports_if reports_let reports_fold reports_reject reports_more reports_first reports_ok
      server_problem_small problem_okI) (simp_all add: DEVICE_CONFIG_DNS_MAX_SERVERS_def)

lemma validate_wifi_reports: "reports err (validate_wifi inp committed err)"
proof -
  have r: "reports err (case a of DEVICE_CONFIG_SECRET_REPLACE \<Rightarrow> x | DEVICE_CONFIG_SECRET_CLEAR \<Rightarrow> y
      | DEVICE_CONFIG_SECRET_KEEP \<Rightarrow> z | DEVICE_CONFIG_SECRET_OTHER \<Rightarrow> w)"
    if "reports err x" "reports err y" "reports err z" "reports err w" for a x y z w
    using that by (cases a) simp_all
  show ?thesis
    unfolding validate_wifi_def let_inputs
    by (intro r reports_if reports_let reports_reject reports_more reports_first reports_ok
        wifi_problem_ok) simp_all
qed

lemma reports_two:
  "reports err r \<Longrightarrow> problem_ok (p, c) \<Longrightarrow> problem_ok (q, d) \<Longrightarrow>
     reports err (False, add_field (add_field (snd r) p c) q d)"
  using reports_more [OF reports_more, of err r p c q d] by simp

lemmas reports_two_first = reports_two [OF reports_ok, simplified]

lemma network_validate_config_reports: "reports err (network_validate_config inp committed status err)"
  unfolding network_validate_config_def let_inputs
  by (intro reports_if reports_let reports_two reports_two_first reports_reject reports_more reports_also
      validate_ipv4_reports validate_dns_reports validate_wifi_reports reports_ok
      wifi_problem_ok problem_okI) simp_all

section \<open>What is accepted\<close>

lemma fst_reject [simp]: "fst (reject c f r) \<longleftrightarrow> fst r \<and> \<not> c"
  by (simp add: reject_def)

lemma fst_also [simp]: "fst (also_check v r) \<longleftrightarrow> fst r \<and> fst (v (snd r))"
  by (simp add: also_check_def split: prod.split)

lemma addr_is_zero_iff: "addr_is_zero addr len \<longleftrightarrow> (\<forall>i < len. addr ! i = 0)"
proof -
  have or0: "a OR b = 0 \<longleftrightarrow> a = 0 \<and> b = 0" for a b :: byte
    by (auto simp: bit_eq_iff bit_or_iff)
  have "foldl (\<lambda>any i. any OR addr ! i) a xs = 0 \<longleftrightarrow> a = 0 \<and> (\<forall>i \<in> set xs. addr ! i = 0)" for a xs
    by (induction xs arbitrary: a) (auto simp: or0)
  then show ?thesis by (auto simp: addr_is_zero_def)
qed

text \<open>The rules, stated without the order of checking or the reports.\<close>

definition ipv4_policy :: "device_config_ipv4 \<Rightarrow> bool \<Rightarrow> bool" where
  "ipv4_policy c given \<longleftrightarrow>
     (i4_mode c = DEVICE_CONFIG_IPV4_DHCP \<and> \<not> given \<and> (\<forall>i < 4. i4_address c ! i = 0) \<and>
        i4_prefix_length c = 0 \<and> \<not> i4_has_gateway c) \<or>
     (i4_mode c = DEVICE_CONFIG_IPV4_STATIC \<and>
        api_ipv4_is_usable_host (i4_address c) (i4_prefix_length c) \<and>
        (i4_has_gateway c \<longrightarrow> api_ipv4_is_usable_host (i4_gateway c) (i4_prefix_length c) \<and>
           api_ipv4_same_subnet (i4_address c) (i4_gateway c) (i4_prefix_length c) \<and>
           take 4 (i4_address c) \<noteq> take 4 (i4_gateway c)))"

definition dns_policy :: "device_config_dns \<Rightarrow> bool" where
  "dns_policy d \<longleftrightarrow>
     (dns_mode d = DEVICE_CONFIG_DNS_AUTOMATIC \<and> dns_server_count d = 0) \<or>
     (dns_mode d = DEVICE_CONFIG_DNS_MANUAL \<and> dns_server_count d \<in> {1, 2} \<and>
        (\<forall>i < unat (dns_server_count d). let s = dns_servers d ! i in
           (ca_family s = DEVICE_CONFIG_AF_INET \<and> (\<exists>j < 4. ca_bytes s ! j \<noteq> 0)) \<or>
           (ca_family s = DEVICE_CONFIG_AF_INET6 \<and> (\<exists>j < 16. ca_bytes s ! j \<noteq> 0))))"

definition credential_policy :: "network_config_input \<Rightarrow> device_config \<Rightarrow> bool" where
  "credential_policy inp committed \<longleftrightarrow>
     (let wifi = dc_wifi (ni_config inp); old = dc_wifi committed; cred = ni_wifi_password inp
      in if wifi_security wifi = DEVICE_CONFIG_WIFI_OPEN
         then su_action cred \<in> {DEVICE_CONFIG_SECRET_KEEP, DEVICE_CONFIG_SECRET_CLEAR}
         else (su_action cred = DEVICE_CONFIG_SECRET_REPLACE \<and> su_value cred \<noteq> None \<and>
                 1 \<le> su_len cred \<and> su_len cred \<le> DEVICE_CONFIG_SECRET_MAX_LEN) \<or>
              (su_action cred = DEVICE_CONFIG_SECRET_KEEP \<and> wifi_password_set old \<and>
                 wifi_security old = wifi_security wifi \<and>
                 wifi_ssid_len old = wifi_ssid_len wifi \<and>
                 take (unat (wifi_ssid_len wifi)) (wifi_ssid old) =
                 take (unat (wifi_ssid_len wifi)) (wifi_ssid wifi)))"

definition wifi_policy :: "network_config_input \<Rightarrow> device_config \<Rightarrow> bool" where
  "wifi_policy inp committed \<longleftrightarrow>
     (let wifi = dc_wifi (ni_config inp)
      in wifi_enabled wifi \<longrightarrow>
         \<not> ni_ssid_invalid inp \<and> 1 \<le> unat (wifi_ssid_len wifi) \<and> unat (wifi_ssid_len wifi) \<le> 32 \<and>
         wifi_security wifi \<in> {DEVICE_CONFIG_WIFI_OPEN, DEVICE_CONFIG_WIFI_WPA2_PSK, DEVICE_CONFIG_WIFI_WPA3_SAE} \<and>
         credential_policy inp committed)"

definition config_policy :: "network_config_input \<Rightarrow> device_config \<Rightarrow> network_status \<Rightarrow> bool" where
  "config_policy inp committed status \<longleftrightarrow>
     (let cfg = ni_config inp; eth = dc_ethernet cfg; wifi = dc_wifi cfg
      in (wifi_enabled wifi \<longrightarrow> st_present (ns_wifi status)) \<and>
         ipv4_policy (eth_ipv4 eth) (ni_ethernet_address_given inp) \<and>
         ipv4_policy (wifi_ipv4 wifi) (ni_wifi_address_given inp) \<and>
         dns_policy (dc_dns cfg) \<and>
         dc_preferred_interface cfg \<in> {DEVICE_CONFIG_INTERFACE_ETHERNET, DEVICE_CONFIG_INTERFACE_WIFI} \<and>
         interface_enabled cfg (dc_preferred_interface cfg) \<and>
         wifi_policy inp committed \<and>
         (eth_enabled eth \<and> st_present (ns_ethernet status) \<and> st_link_up (ns_ethernet status) \<or>
          wifi_enabled wifi \<and> st_present (ns_wifi status) \<and> st_link_up (ns_wifi status)))"

lemma byte_cases:
  "(b :: byte) < 2 \<longleftrightarrow> b = 0 \<or> b = 1" "b < 3 \<longleftrightarrow> b = 0 \<or> b = 1 \<or> b = 2"
proof -
  have "unat b < 2 \<longleftrightarrow> unat b = 0 \<or> unat b = 1" "unat b < 3 \<longleftrightarrow> unat b = 0 \<or> unat b = 1 \<or> unat b = 2"
    by auto
  then show "b < 2 \<longleftrightarrow> b = 0 \<or> b = 1" "b < 3 \<longleftrightarrow> b = 0 \<or> b = 1 \<or> b = 2"
    by (simp_all add: word_less_nat_alt word_unat_eq_iff)
qed

lemma two_le_one [simp]: "\<not> (2 :: byte) \<le> 1"
  by (simp add: word_le_nat_alt)

lemma mode_cases: "\<not> 2 \<le> (b :: byte) \<Longrightarrow> b = 0 \<or> b = 1"
  using byte_cases(1) [of b] by (simp add: not_le)

lemma usable_host_prefix: "api_ipv4_is_usable_host a p \<Longrightarrow> api_ipv4_prefix_is_valid p \<and> p \<noteq> 0"
  by (auto simp: api_ipv4_is_usable_host_def api_ipv4_prefix_is_valid_def split: if_splits)

lemma usable_host_nonzero: "api_ipv4_is_usable_host a p \<Longrightarrow> \<not> addr_is_zero a 4"
  unfolding usable_host_iff addr_is_zero_iff by force

lemma validate_ipv4_accepts: "fst (validate_ipv4 c given iface err) \<longleftrightarrow> ipv4_policy c given"
proof -
  note mode = config_consts
  let ?has = "given \<or> \<not> addr_is_zero (i4_address c) 4"
  consider "2 \<le> i4_mode c" | "i4_mode c = 0" | "i4_mode c = 1" using mode_cases by blast
  then show ?thesis
  proof cases
    case 1
    then have "i4_mode c \<noteq> 0" "i4_mode c \<noteq> 1" using two_le_one by (auto simp: word_le_nat_alt)
    with 1 show ?thesis by (simp add: validate_ipv4_def ipv4_policy_def mode Let_def)
  next
    case 2
    then show ?thesis by (auto simp: validate_ipv4_def ipv4_policy_def mode Let_def addr_is_zero_iff)
  next
    case 3
    then have "fst (validate_ipv4 c given iface err) \<longleftrightarrow> ?has \<and> i4_prefix_length c \<noteq> 0 \<and>
        api_ipv4_prefix_is_valid (i4_prefix_length c) \<and>
        api_ipv4_is_usable_host (i4_address c) (i4_prefix_length c) \<and>
        (i4_has_gateway c \<longrightarrow> api_ipv4_is_usable_host (i4_gateway c) (i4_prefix_length c) \<and>
           api_ipv4_same_subnet (i4_address c) (i4_gateway c) (i4_prefix_length c) \<and>
           take 4 (i4_address c) \<noteq> take 4 (i4_gateway c))"
      by (auto simp: validate_ipv4_def mode Let_def)
    with 3 usable_host_prefix usable_host_nonzero show ?thesis
      unfolding ipv4_policy_def mode by auto
  qed
qed

lemma fst_reject_fold:
  "fst (foldl (\<lambda>r i. reject (b i) (f i) r) r xs) \<longleftrightarrow> fst r \<and> (\<forall>i \<in> set xs. \<not> b i)"
  by (induction xs arbitrary: r) auto

lemma server_bad_iff: "\<not> server_bad s \<longleftrightarrow>
    (ca_family s = DEVICE_CONFIG_AF_INET \<and> (\<exists>j < 4. ca_bytes s ! j \<noteq> 0)) \<or>
    (ca_family s = DEVICE_CONFIG_AF_INET6 \<and> (\<exists>j < 16. ca_bytes s ! j \<noteq> 0))"
  by (auto simp: server_bad_def Let_def addr_is_zero_iff config_consts)

lemma validate_dns_accepts: "fst (validate_dns d err) \<longleftrightarrow> dns_policy d"
proof -
  have small: "unat (dns_server_count d) \<le> 2 \<longleftrightarrow> dns_server_count d \<in> {0, 1, 2}"
    using byte_cases(2) [of "dns_server_count d"] by (auto simp: word_less_nat_alt)
  consider "2 \<le> dns_mode d" | "dns_mode d = 0" | "dns_mode d = 1" using mode_cases by blast
  then show ?thesis
  proof cases
    case 1
    then have "dns_mode d \<noteq> 0" "dns_mode d \<noteq> 1" using two_le_one by (auto simp: word_le_nat_alt)
    with 1 show ?thesis by (simp add: validate_dns_def dns_policy_def config_consts)
  next
    case 2
    then show ?thesis
      by (auto simp: validate_dns_def dns_policy_def config_consts Let_def fst_reject_fold)
  next
    case 3
    then show ?thesis
      using small
      by (auto simp: validate_dns_def dns_policy_def config_consts(1-13) DEVICE_CONFIG_DNS_MAX_SERVERS_def
          Let_def fst_reject_fold server_bad_iff)
  qed
qed

lemma validate_wifi_accepts: "fst (validate_wifi inp committed err) \<longleftrightarrow> wifi_policy inp committed"
proof (cases "wifi_enabled (dc_wifi (ni_config inp))")
  case False
  then show ?thesis by (simp add: validate_wifi_def wifi_policy_def Let_def)
next
  case True
  let ?w = "dc_wifi (ni_config inp)"
  have s: "\<not> 3 \<le> wifi_security ?w \<longleftrightarrow> wifi_security ?w \<in> {0, 1, 2}"
    using byte_cases(2) by (auto simp: not_le)
  have z: "wifi_ssid_len ?w = 0 \<longleftrightarrow> \<not> 1 \<le> unat (wifi_ssid_len ?w)"
    by (simp add: not_le unsigned_eq_0_iff)
  show ?thesis
    using True s z
    by (cases "su_action (ni_wifi_password inp)")
      (auto simp: validate_wifi_def wifi_policy_def credential_policy_def config_consts Let_def
        same_ssid_def same_security_def)
qed

lemma network_validate_config_accepts:
  "fst (network_validate_config inp committed status err) \<longleftrightarrow> config_policy inp committed status"
proof -
  let ?p = "dc_preferred_interface (ni_config inp)"
  have p: "\<not> 2 \<le> ?p \<longleftrightarrow> ?p \<in> {0, 1}" using byte_cases(1) by (auto simp: not_le)
  show ?thesis
    using p
    by (auto simp: network_validate_config_def config_policy_def Let_def config_consts interface_enabled_def
        validate_ipv4_accepts validate_dns_accepts validate_wifi_accepts)
qed

lemma reports_fields:
  assumes "reports err r" "ae_fields err = []"
  obtains ps where "\<forall>p \<in> set ps. problem_ok p" "fst r \<longleftrightarrow> ps = []"
    "field_problems (snd r) = take CONFIG_API_VALIDATION_MAX_FIELDS ps" "fst r \<longrightarrow> snd r = err"
proof -
  from assms(1) obtain ps where ps: "\<forall>p \<in> set ps. problem_ok p"
    and r: "r = (ps = [], add_all api_error_add_field err ps)" unfolding reports_def by blast
  from api_fields.fields_add_all [of err ps] ps assms(2)
  have "field_problems (add_all api_error_add_field err ps) = take CONFIG_API_VALIDATION_MAX_FIELDS ps"
    by (simp add: field_problems_def)
  with ps r show ?thesis by (intro that [of ps]) simp_all
qed

lemma healthy_iff:
  "network_config_is_healthy cfg st \<longleftrightarrow>
     (\<forall>(ipv4, s, on) \<in> {(eth_ipv4 (dc_ethernet cfg), ns_ethernet st, eth_enabled (dc_ethernet cfg)),
                         (wifi_ipv4 (dc_wifi cfg), ns_wifi st, wifi_enabled (dc_wifi cfg))}.
        on \<longrightarrow> st_present s \<and> st_link_up s \<and> st_has_ipv4 s \<and>
          (i4_mode ipv4 = DEVICE_CONFIG_IPV4_STATIC \<and> i4_has_gateway ipv4 \<longrightarrow> st_has_route s))"
  by (auto simp: network_config_is_healthy_def)

lemma healthy_carries:
  "network_config_is_healthy cfg st \<Longrightarrow> interface_enabled cfg i \<Longrightarrow> can_carry_traffic cfg st i"
  by (auto simp: healthy_iff can_carry_traffic_def interface_enabled_def Let_def split: if_splits)

section \<open>Properties\<close>


text \<open>a refusal always names a field and an acceptance never does. The error comes back
  unchanged from an accepted proposal; a refused one carries between one and the capacity's number
  of problems, all with valid paths and known codes.\<close>

theorem every_refusal_names_a_field:
  assumes "ae_fields err = []"
    and "r = network_validate_config inp committed status err"
  shows "(fst r \<longleftrightarrow> field_problems (snd r) = []) \<and> (fst r \<longrightarrow> snd r = err) \<and>
    length (field_problems (snd r)) \<le> CONFIG_API_VALIDATION_MAX_FIELDS \<and>
    (\<forall>p \<in> set (field_problems (snd r)). problem_ok p)"
proof -
  have "reports err r" unfolding assms(2) by (rule network_validate_config_reports)
  then obtain ps where "\<forall>p \<in> set ps. problem_ok p" "fst r \<longleftrightarrow> ps = []"
    "field_problems (snd r) = take CONFIG_API_VALIDATION_MAX_FIELDS ps" "fst r \<longrightarrow> snd r = err"
    by (rule reports_fields [OF _ assms(1)])
  then show ?thesis
    by (auto simp: CONFIG_API_VALIDATION_MAX_FIELDS_def dest: in_set_takeD)
qed

text \<open>a configuration that was accepted and then found healthy carries traffic over the
  interface it prefers: the three policies agree.\<close>

theorem healthy_config_uses_preferred_interface:
  assumes "fst (network_validate_config inp committed before err)"
    and "network_config_is_healthy (ni_config inp) now"
  shows "network_select_default (ni_config inp) now = Some (dc_preferred_interface (ni_config inp))"
proof -
  let ?cfg = "ni_config inp"
  have p: "dc_preferred_interface ?cfg = 0 \<or> dc_preferred_interface ?cfg = 1"
    and e: "interface_enabled ?cfg (dc_preferred_interface ?cfg)"
    using assms(1) by (auto simp: network_validate_config_accepts config_policy_def Let_def config_consts)
  from healthy_carries [OF assms(2) e] p show ?thesis
    by (auto simp: network_select_default_def config_consts Let_def)
qed

text \<open>the default interface is always one that is enabled, present, linked and addressed;
  there is none exactly when no interface is, and the preferred one is taken whenever it
  qualifies.\<close>

theorem default_interface_carries_traffic:
  "(\<forall>i. network_select_default cfg st = Some i \<longrightarrow> can_carry_traffic cfg st i) \<and>
   (network_select_default cfg st = None \<longleftrightarrow>
      \<not> can_carry_traffic cfg st DEVICE_CONFIG_INTERFACE_ETHERNET \<and>
      \<not> can_carry_traffic cfg st DEVICE_CONFIG_INTERFACE_WIFI) \<and>
   (can_carry_traffic cfg st (dc_preferred_interface cfg) \<and>
      dc_preferred_interface cfg \<in> {DEVICE_CONFIG_INTERFACE_ETHERNET, DEVICE_CONFIG_INTERFACE_WIFI} \<longrightarrow>
      network_select_default cfg st = Some (dc_preferred_interface cfg))"
  by (auto simp: network_select_default_def config_consts Let_def)

text \<open>a configuration is healthy exactly when every enabled interface is present, linked and
  addressed, with its route when it asked for a gateway; and then every enabled wired interface
  shows as ready.\<close>

theorem healthy_means_every_enabled_interface_works:
  "(network_config_is_healthy cfg st \<longleftrightarrow>
     (\<forall>(ipv4, s, on) \<in> {(eth_ipv4 (dc_ethernet cfg), ns_ethernet st, eth_enabled (dc_ethernet cfg)),
                         (wifi_ipv4 (dc_wifi cfg), ns_wifi st, wifi_enabled (dc_wifi cfg))}.
        on \<longrightarrow> st_present s \<and> st_link_up s \<and> st_has_ipv4 s \<and>
          (i4_mode ipv4 = DEVICE_CONFIG_IPV4_STATIC \<and> i4_has_gateway ipv4 \<longrightarrow> st_has_route s))) \<and>
   (network_config_is_healthy cfg st \<and> eth_enabled (dc_ethernet cfg) \<longrightarrow>
      network_iface_state_of DEVICE_CONFIG_INTERFACE_ETHERNET (ns_ethernet st) True = NETWORK_IFACE_READY)"
  unfolding healthy_iff by (simp add: network_iface_state_of_def config_consts)

section \<open>Witnesses\<close>

definition demo_dhcp :: device_config_ipv4 where
  "demo_dhcp = \<lparr>i4_mode = 0, i4_prefix_length = 0, i4_has_gateway = False,
     i4_address = [0, 0, 0, 0], i4_gateway = [0, 0, 0, 0]\<rparr>"

definition demo_config :: "bool \<Rightarrow> device_config" where
  "demo_config on = \<lparr>dc_preferred_interface = 0, dc_admin_password_set = True,
     dc_dns = \<lparr>dns_mode = 0, dns_server_count = 0, dns_servers = []\<rparr>,
     dc_ethernet = \<lparr>eth_enabled = on, eth_ipv4 = demo_dhcp\<rparr>,
     dc_wifi = \<lparr>wifi_enabled = False, wifi_security = 0, wifi_hidden = False, wifi_ssid_len = 0,
       wifi_ssid = replicate 32 0, wifi_password_set = False, wifi_ipv4 = demo_dhcp\<rparr>\<rparr>"

definition demo_input :: "bool \<Rightarrow> network_config_input" where
  "demo_input on = \<lparr>ni_config = demo_config on,
     ni_wifi_password = \<lparr>su_action = DEVICE_CONFIG_SECRET_KEEP, su_value = None, su_len = 0\<rparr>,
     ni_ethernet_address_given = False, ni_wifi_address_given = False, ni_ssid_invalid = False\<rparr>"

definition demo_iface :: network_iface_status where
  "demo_iface = \<lparr>st_present = True, st_enabled = True, st_link_up = True, st_has_ipv4 = True,
     st_ipv4 = [192, 168, 1, 7], st_prefix_length = 24, st_has_gateway = False, st_gateway = [0, 0, 0, 0],
     st_has_route = False, st_mac = replicate 6 0, st_addrs = [], st_wifi_associated = False,
     st_wifi_connecting = False, st_wifi_failed = False, st_ssid = [], st_rssi = 0, st_rssi_valid = False,
     st_state = NETWORK_IFACE_READY\<rparr>"

definition demo_net :: network_status where
  "demo_net = \<lparr>ns_ethernet = demo_iface, ns_wifi = demo_iface, ns_active = 0, ns_has_active = True,
     ns_dns = []\<rparr>"

definition demo_error :: api_error where
  "demo_error = \<lparr>ae_code = API_ERR_VALIDATION_FAILED, ae_message = [], ae_request_id = [], ae_fields = [],
     ae_fields_truncated = False, ae_retry_after_seconds = 0\<rparr>"

lemmas demo_net_simps = demo_dhcp_def demo_config_def demo_input_def demo_iface_def demo_net_def

lemma demo_policy: "config_policy (demo_input on) (demo_config True) demo_net \<longleftrightarrow> on"
  by (auto simp: demo_net_simps config_policy_def ipv4_policy_def dns_policy_def wifi_policy_def
      interface_enabled_def config_consts less_Suc_eq numeral_eq_Suc)

theorem every_refusal_names_a_field_witness:
  "field_problems (snd (network_validate_config (demo_input False) (demo_config True) demo_net demo_error)) \<noteq> []"
  using every_refusal_names_a_field [OF _ refl, of demo_error "demo_input False" "demo_config True" demo_net]
  by (simp add: demo_error_def network_validate_config_accepts demo_policy)

theorem healthy_config_uses_preferred_interface_witness:
  "network_select_default (demo_config True) demo_net = Some DEVICE_CONFIG_INTERFACE_ETHERNET"
  using healthy_config_uses_preferred_interface [of "demo_input True" "demo_config True" demo_net demo_error demo_net]
  by (simp add: network_validate_config_accepts demo_policy)
    (simp add: demo_net_simps network_config_is_healthy_def config_consts)

theorem default_interface_carries_traffic_witness:
  "network_select_default (demo_config True) demo_net = Some DEVICE_CONFIG_INTERFACE_ETHERNET \<and>
   can_carry_traffic (demo_config True) demo_net DEVICE_CONFIG_INTERFACE_ETHERNET"
proof -
  have "can_carry_traffic (demo_config True) demo_net (dc_preferred_interface (demo_config True))"
    by (simp add: demo_net_simps can_carry_traffic_def interface_enabled_def config_consts)
  with default_interface_carries_traffic [of "demo_config True" demo_net] show ?thesis
    by (simp add: demo_config_def config_consts)
qed

theorem healthy_means_every_enabled_interface_works_witness:
  "network_iface_state_of DEVICE_CONFIG_INTERFACE_ETHERNET demo_iface True = NETWORK_IFACE_READY"
  using healthy_means_every_enabled_interface_works [of "demo_config True" demo_net]
  by (simp add: demo_net_simps network_config_is_healthy_def config_consts)

end
