(* ===== verification/Log_Types.thy ===== *)
theory Log_Types
  imports Cedar_Prelude
begin

text \<open>
  The enums and limits of \<^verbatim>\<open>modules/log-store/include/log_store/log_store.h\<close>, shared by the store, the ESP32
  log source that feeds it and the coprocessor manager that writes markers into it.
\<close>

definition LOG_STORE_TEXT_MAX :: nat where "LOG_STORE_TEXT_MAX = 512"
definition LOG_STORE_MODULE_MAX :: nat where "LOG_STORE_MODULE_MAX = 64"

datatype log_store_source = LOG_STORE_STM32 | LOG_STORE_ESP32

datatype log_store_level =
    LOG_STORE_LEVEL_NONE | LOG_STORE_LEVEL_DEBUG | LOG_STORE_LEVEL_INFO | LOG_STORE_LEVEL_WARNING
  | LOG_STORE_LEVEL_ERROR | LOG_STORE_LEVEL_UNKNOWN

datatype log_store_kind =
    LOG_STORE_KIND_MESSAGE | LOG_STORE_KIND_RESET | LOG_STORE_KIND_PAUSED | LOG_STORE_KIND_GAP

datatype log_store_loss = LOG_STORE_LOSS_BACKEND | LOG_STORE_LOSS_UART

end
