(* ===== verification/Coprocessor_Manager.thy ===== *)
theory Coprocessor_Manager
  imports Log_Types
begin

text \<open>
  Model of \<^verbatim>\<open>modules/coprocessor-manager/lib/coprocessor_manager.c\<close>: who owns the coprocessor's UART
  and its reset line. Everything that touches a device is a function of the injected platform, so
  the platform is a record of functions over a state \<open>'p\<close> of its own, arbitrary here. The entry
  points that hold the module's mutex run whole; the two atomics that exclude the network manager
  are fields of the state, and the single atomic accesses that other threads can see between them
  are the steps of the interleaving model at the end.
\<close>

section \<open>Data\<close>

text \<open>\<open>COPROCESSOR_UART_OTHER\<close> stands for a value at or above \<^verbatim>\<open>COPROCESSOR_UART_MODE_COUNT\<close>,
  \<open>COPROCESSOR_CLAIM_OTHER\<close> for one at or above \<^verbatim>\<open>COPROCESSOR_CLAIM_COUNT\<close>.\<close>

datatype coprocessor_uart_mode =
    COPROCESSOR_UART_CONSOLE | COPROCESSOR_UART_USB_BRIDGE | COPROCESSOR_UART_FLASHING
  | COPROCESSOR_UART_UNAVAILABLE | COPROCESSOR_UART_OTHER

datatype coprocessor_claim =
    COPROCESSOR_CLAIM_NETWORK_APPLY | COPROCESSOR_CLAIM_WIFI_SCAN | COPROCESSOR_CLAIM_OTHER

text \<open>A platform function returns 0 (\<open>None\<close>) or a negative errno.\<close>

record 'p coprocessor_platform =
  cp_uart_attach :: "coprocessor_uart_mode \<Rightarrow> 'p \<Rightarrow> errno option \<times> 'p"
  cp_uart_detach :: "'p \<Rightarrow> errno option \<times> 'p"
  cp_uart_rx_activity :: "'p \<Rightarrow> u32 \<times> 'p"
  cp_c6_reset :: "bool \<Rightarrow> 'p \<Rightarrow> errno option \<times> 'p"
  cp_transport_ready :: "('p \<Rightarrow> bool) option"
  cp_marker :: "log_store_kind \<Rightarrow> u32 \<Rightarrow> string \<Rightarrow> 'p \<Rightarrow> 'p"
  cp_now_ms :: "'p \<Rightarrow> int \<times> 'p"
  cp_sleep_ms :: "nat \<Rightarrow> 'p \<Rightarrow> 'p"

record coprocessor_status =
  cs_uart_mode :: coprocessor_uart_mode
  cs_generation :: u32
  cs_transport_ready :: bool
  cs_last_switch_error :: "errno option"
  cs_switches :: u32
  cs_rx_stop_failures :: u32
  cs_resets :: u32
  cs_unexpected_resets :: u32

text \<open>The file's statics, and the platform's state behind \<^verbatim>\<open>ctx\<close>.\<close>

record 'p coprocessor_manager =
  cm_plat :: "'p coprocessor_platform option"
  cm_st :: coprocessor_status
  cm_reset_at_ms :: int
  cm_snap :: coprocessor_status
  cm_snap_plat :: "'p coprocessor_platform option"
  cm_exclusive :: u32
  cm_claims :: "coprocessor_claim \<Rightarrow> int"
  cm_ctx :: 'p

definition EX_BRIDGE :: u32 where "EX_BRIDGE = 1"
definition EX_FLASHING :: u32 where "EX_FLASHING = 2"
definition EX_RESET :: u32 where "EX_RESET = 4"
definition QUIET_SAMPLES :: nat where "QUIET_SAMPLES = 2"
definition CONFIG_RX_STOP_TIMEOUT_MS :: nat where "CONFIG_RX_STOP_TIMEOUT_MS = 100"
definition CONFIG_RX_QUIET_STEP_MS :: nat where "CONFIG_RX_QUIET_STEP_MS = 5"
definition CONFIG_RESET_WINDOW_MS :: int where "CONFIG_RESET_WINDOW_MS = 3000"

definition zero_status :: coprocessor_status where
  "zero_status = \<lparr>cs_uart_mode = COPROCESSOR_UART_CONSOLE, cs_generation = 0,
     cs_transport_ready = False, cs_last_switch_error = None, cs_switches = 0,
     cs_rx_stop_failures = 0, cs_resets = 0, cs_unexpected_resets = 0\<rparr>"

text \<open>\<^verbatim>\<open>paused_text\<close>; the entries the array leaves NULL are empty here, and no marker uses them.\<close>

fun paused_text :: "coprocessor_uart_mode \<Rightarrow> string" where
  "paused_text COPROCESSOR_UART_USB_BRIDGE = ''UART handed to the USB bridge''"
| "paused_text COPROCESSOR_UART_FLASHING = ''UART handed to the flasher''"
| "paused_text _ = []"

fun coprocessor_uart_mode_str :: "coprocessor_uart_mode \<Rightarrow> string option" where
  "coprocessor_uart_mode_str COPROCESSOR_UART_CONSOLE = Some ''console''"
| "coprocessor_uart_mode_str COPROCESSOR_UART_USB_BRIDGE = Some ''usb_bridge''"
| "coprocessor_uart_mode_str COPROCESSOR_UART_FLASHING = Some ''flashing''"
| "coprocessor_uart_mode_str COPROCESSOR_UART_UNAVAILABLE = Some ''unavailable''"
| "coprocessor_uart_mode_str COPROCESSOR_UART_OTHER = None"

fun coprocessor_logs_unavailable_reason :: "coprocessor_uart_mode \<Rightarrow> string option" where
  "coprocessor_logs_unavailable_reason COPROCESSOR_UART_CONSOLE = None"
| "coprocessor_logs_unavailable_reason COPROCESSOR_UART_USB_BRIDGE = Some ''uart_usb_bridge''"
| "coprocessor_logs_unavailable_reason COPROCESSOR_UART_FLASHING = Some ''uart_flashing''"
| "coprocessor_logs_unavailable_reason _ = Some ''uart_unavailable''"

section \<open>Helpers\<close>

definition publish_locked :: "'p coprocessor_manager \<Rightarrow> 'p coprocessor_manager" where
  "publish_locked m = m\<lparr>cm_snap := cm_st m, cm_snap_plat := cm_plat m\<rparr>"

fun mode_bit :: "coprocessor_uart_mode \<Rightarrow> u32" where
  "mode_bit COPROCESSOR_UART_USB_BRIDGE = EX_BRIDGE"
| "mode_bit COPROCESSOR_UART_FLASHING = EX_FLASHING"
| "mode_bit _ = 0"

text \<open>The two tests of \<^verbatim>\<open>claimed_against\<close>, each with the one atomic it reads.\<close>

definition apply_blocks :: "u32 \<Rightarrow> int \<Rightarrow> bool" where
  "apply_blocks bits held \<longleftrightarrow> bits AND (EX_BRIDGE OR EX_FLASHING OR EX_RESET) \<noteq> 0 \<and> 0 < held"

definition scan_blocks :: "u32 \<Rightarrow> int \<Rightarrow> bool" where
  "scan_blocks bits held \<longleftrightarrow> bits AND EX_FLASHING \<noteq> 0 \<and> 0 < held"

definition claimed_against :: "u32 \<Rightarrow> (coprocessor_claim \<Rightarrow> int) \<Rightarrow> bool" where
  "claimed_against bits cl =
     (if apply_blocks bits (cl COPROCESSOR_CLAIM_NETWORK_APPLY) then True
      else if scan_blocks bits (cl COPROCESSOR_CLAIM_WIFI_SCAN) then True else False)"

definition settle_bits :: "coprocessor_uart_mode \<Rightarrow> u32 \<Rightarrow> u32" where
  "settle_bits mode ex =
     (let current = mode_bit mode; ex1 = (if current \<noteq> 0 then ex OR current else ex)
      in ex1 AND NOT ((EX_BRIDGE OR EX_FLASHING) AND NOT current))"

definition settle_bits_locked :: "'p coprocessor_manager \<Rightarrow> 'p coprocessor_manager" where
  "settle_bits_locked m = m\<lparr>cm_exclusive := settle_bits (cs_uart_mode (cm_st m)) (cm_exclusive m)\<rparr>"

definition marker_locked ::
    "'p coprocessor_platform \<Rightarrow> log_store_kind \<Rightarrow> string \<Rightarrow> 'p coprocessor_manager
       \<Rightarrow> 'p coprocessor_manager" where
  "marker_locked plat kind text m =
     m\<lparr>cm_ctx := cp_marker plat kind (cs_generation (cm_st m)) text (cm_ctx m)\<rparr>"

definition uart_attach ::
    "'p coprocessor_platform \<Rightarrow> coprocessor_uart_mode \<Rightarrow> 'p coprocessor_manager
       \<Rightarrow> errno option \<times> 'p coprocessor_manager" where
  "uart_attach plat owner m =
     (case cp_uart_attach plat owner (cm_ctx m) of (rc, w) \<Rightarrow> (rc, m\<lparr>cm_ctx := w\<rparr>))"

definition bump_generation :: "'p coprocessor_manager \<Rightarrow> 'p coprocessor_manager" where
  "bump_generation m = m\<lparr>cm_st := (cm_st m)\<lparr>cs_generation := cs_generation (cm_st m) + 1\<rparr>\<rparr>"

definition attach_console_locked ::
    "'p coprocessor_platform \<Rightarrow> 'p coprocessor_manager \<Rightarrow> errno option \<times> 'p coprocessor_manager" where
  "attach_console_locked plat m =
     (let m1 = marker_locked plat LOG_STORE_KIND_RESET ''UART returned to the log'' (bump_generation m)
      in case uart_attach plat COPROCESSOR_UART_CONSOLE m1 of
           (None, m2) \<Rightarrow> (None, m2)
         | (Some _, m2) \<Rightarrow>
             (Some EIO, marker_locked plat LOG_STORE_KIND_PAUSED
                ''UART could not be given back to the log'' m2))"

fun attach_locked ::
    "'p coprocessor_platform \<Rightarrow> coprocessor_uart_mode \<Rightarrow> 'p coprocessor_manager
       \<Rightarrow> errno option \<times> 'p coprocessor_manager" where
  "attach_locked plat COPROCESSOR_UART_CONSOLE m = attach_console_locked plat m"
| "attach_locked plat COPROCESSOR_UART_UNAVAILABLE m = (Some EIO, m)"
| "attach_locked plat owner m = uart_attach plat owner m"

text \<open>The loop of \<^verbatim>\<open>wait_quiet_locked\<close>: \<open>looks\<close> still allowed, the last counter read, how often it stood still.\<close>

fun quiet_loop ::
    "'p coprocessor_platform \<Rightarrow> int \<Rightarrow> nat \<Rightarrow> u32 \<Rightarrow> nat \<Rightarrow> 'p \<Rightarrow> errno option \<times> 'p" where
  "quiet_loop plat start 0 last_seen still w = (Some ETIMEDOUT, w)"
| "quiet_loop plat start (Suc looks) last_seen still w =
     (let w1 = cp_sleep_ms plat CONFIG_RX_QUIET_STEP_MS w
      in case cp_uart_rx_activity plat w1 of (now, w2) \<Rightarrow>
         let still1 = (if now = last_seen then still + 1 else 0) in
         if now = last_seen \<and> QUIET_SAMPLES \<le> still1 then (None, w2)
         else (case cp_now_ms plat w2 of (t, w3) \<Rightarrow>
           if int CONFIG_RX_STOP_TIMEOUT_MS \<le> t - start then (Some ETIMEDOUT, w3)
           else quiet_loop plat start looks now still1 w3))"

definition max_looks :: nat where
  "max_looks = CONFIG_RX_STOP_TIMEOUT_MS div CONFIG_RX_QUIET_STEP_MS + QUIET_SAMPLES"

definition wait_quiet_locked ::
    "'p coprocessor_platform \<Rightarrow> 'p coprocessor_manager \<Rightarrow> errno option \<times> 'p coprocessor_manager" where
  "wait_quiet_locked plat m =
     (case cp_now_ms plat (cm_ctx m) of (start, w1) \<Rightarrow>
      case cp_uart_rx_activity plat w1 of (seen, w2) \<Rightarrow>
      case quiet_loop plat start max_looks seen 0 w2 of (rc, w3) \<Rightarrow> (rc, m\<lparr>cm_ctx := w3\<rparr>))"

text \<open>\<^verbatim>\<open>plat->uart_detach(...) != 0 || wait_quiet_locked() != 0\<close>, the second only if the first is 0.\<close>

definition stop_locked ::
    "'p coprocessor_platform \<Rightarrow> 'p coprocessor_manager \<Rightarrow> bool \<times> 'p coprocessor_manager" where
  "stop_locked plat m =
     (case cp_uart_detach plat (cm_ctx m) of
        (Some _, w) \<Rightarrow> (False, m\<lparr>cm_ctx := w\<rparr>)
      | (None, w) \<Rightarrow> (case wait_quiet_locked plat (m\<lparr>cm_ctx := w\<rparr>) of (rc, m1) \<Rightarrow> (rc = None, m1)))"

definition set_uart_mode :: "coprocessor_uart_mode \<Rightarrow> 'p coprocessor_manager \<Rightarrow> 'p coprocessor_manager" where
  "set_uart_mode mode m = m\<lparr>cm_st := (cm_st m)\<lparr>cs_uart_mode := mode\<rparr>\<rparr>"

definition stop_failed_locked ::
    "'p coprocessor_platform \<Rightarrow> coprocessor_uart_mode \<Rightarrow> 'p coprocessor_manager \<Rightarrow> 'p coprocessor_manager" where
  "stop_failed_locked plat old m0 =
     (let m = m0\<lparr>cm_st := (cm_st m0)\<lparr>cs_rx_stop_failures := cs_rx_stop_failures (cm_st m0) + 1\<rparr>\<rparr>;
          r = (if old = COPROCESSOR_UART_UNAVAILABLE then (Some EIO, m) else uart_attach plat old m)
      in case r of
           (None, m1) \<Rightarrow> m1
         | (Some _, m1) \<Rightarrow> set_uart_mode COPROCESSOR_UART_UNAVAILABLE
             (if old = COPROCESSOR_UART_CONSOLE
              then marker_locked plat LOG_STORE_KIND_PAUSED ''UART could not be given back to the log'' m1
              else m1))"

definition switch_locked ::
    "'p coprocessor_platform \<Rightarrow> coprocessor_uart_mode \<Rightarrow> 'p coprocessor_manager
       \<Rightarrow> errno option \<times> 'p coprocessor_manager" where
  "switch_locked plat target m =
     (let old = cs_uart_mode (cm_st m) in
      case stop_locked plat m of
        (False, m1) \<Rightarrow> (Some ETIMEDOUT, stop_failed_locked plat old m1)
      | (True, m1) \<Rightarrow>
          let m2 = (if old = COPROCESSOR_UART_CONSOLE
                    then marker_locked plat LOG_STORE_KIND_PAUSED (paused_text target) m1 else m1) in
          (case attach_locked plat target m2 of
             (Some _, m3) \<Rightarrow>
               (case attach_locked plat old m3 of
                  (Some _, m4) \<Rightarrow> (Some EIO, set_uart_mode COPROCESSOR_UART_UNAVAILABLE m4)
                | (None, m4) \<Rightarrow> (Some EIO, m4))
           | (None, m3) \<Rightarrow>
               (None, (set_uart_mode target m3)
                  \<lparr>cm_st := (cm_st (set_uart_mode target m3))
                     \<lparr>cs_switches := cs_switches (cm_st m3) + 1\<rparr>\<rparr>)))"

section \<open>Entry points\<close>

text \<open>The platform as handed in: a NULL pointer, or a structure whose required functions may be
  NULL. \<open>None\<close> in both cases.\<close>

definition coprocessor_manager_init ::
    "'p coprocessor_platform option \<Rightarrow> 'p coprocessor_manager \<Rightarrow> errno option \<times> 'p coprocessor_manager" where
  "coprocessor_manager_init platform m =
     (case platform of
        None \<Rightarrow> (Some EINVAL, m)
      | Some plat \<Rightarrow>
          (case cp_now_ms plat (cm_ctx m) of (t, w) \<Rightarrow>
           let m1 = m\<lparr>cm_plat := Some plat, cm_st := zero_status\<lparr>cs_generation := 1\<rparr>,
                      cm_reset_at_ms := t, cm_exclusive := 0, cm_claims := (\<lambda>_. 0), cm_ctx := w\<rparr> in
           case uart_attach plat COPROCESSOR_UART_CONSOLE m1 of (rc, m2) \<Rightarrow>
             let st = (cm_st m2)\<lparr>cs_uart_mode := (if rc = None then COPROCESSOR_UART_CONSOLE
                                                 else COPROCESSOR_UART_UNAVAILABLE),
                        cs_last_switch_error := (if rc = None then None else Some EIO)\<rparr>
             in (if rc = None then None else Some EIO, publish_locked (m2\<lparr>cm_st := st\<rparr>))))"

definition finish_switch ::
    "errno option \<Rightarrow> 'p coprocessor_manager \<Rightarrow> errno option \<times> 'p coprocessor_manager" where
  "finish_switch rc m =
     (rc, publish_locked (settle_bits_locked (m\<lparr>cm_st := (cm_st m)\<lparr>cs_last_switch_error := rc\<rparr>\<rparr>)))"

definition coprocessor_manager_set_mode ::
    "coprocessor_uart_mode \<Rightarrow> 'p coprocessor_manager \<Rightarrow> errno option \<times> 'p coprocessor_manager" where
  "coprocessor_manager_set_mode mode m =
     (if mode = COPROCESSOR_UART_UNAVAILABLE \<or> mode = COPROCESSOR_UART_OTHER then (Some EINVAL, m)
      else let old = cs_uart_mode (cm_st m) in
      (case cm_plat m of
         None \<Rightarrow> (Some EAGAIN, m)
       | Some plat \<Rightarrow>
           if old = mode then (None, m)
           else if (old = COPROCESSOR_UART_USB_BRIDGE \<and> mode = COPROCESSOR_UART_FLASHING) \<or>
                   (old = COPROCESSOR_UART_FLASHING \<and> mode = COPROCESSOR_UART_USB_BRIDGE)
           then (Some EBUSY, m)
           else let intent = mode_bit mode in
             if intent \<noteq> 0 then
               let m1 = m\<lparr>cm_exclusive := cm_exclusive m OR intent\<rparr> in
               if claimed_against intent (cm_claims m1)
               then (Some EBUSY, m1\<lparr>cm_exclusive := cm_exclusive m1 AND NOT intent\<rparr>)
               else (case switch_locked plat mode m1 of (rc, m2) \<Rightarrow> finish_switch rc m2)
             else (case switch_locked plat mode m of (rc, m2) \<Rightarrow> finish_switch rc m2)))"

definition coprocessor_manager_reset ::
    "bool \<Rightarrow> 'p coprocessor_manager \<Rightarrow> errno option \<times> 'p coprocessor_manager" where
  "coprocessor_manager_reset download m =
     (case cm_plat m of
        None \<Rightarrow> (Some EAGAIN, m)
      | Some plat \<Rightarrow>
          if cs_uart_mode (cm_st m) = COPROCESSOR_UART_FLASHING then (Some EBUSY, m)
          else
            let m1 = m\<lparr>cm_exclusive := cm_exclusive m OR EX_RESET\<rparr> in
            if claimed_against EX_RESET (cm_claims m1)
            then (Some EBUSY, m1\<lparr>cm_exclusive := cm_exclusive m1 AND NOT EX_RESET\<rparr>)
            else (case cp_c6_reset plat download (cm_ctx m1) of (rc, w) \<Rightarrow>
              let m2 = m1\<lparr>cm_ctx := w\<rparr>;
                  m3 = (if rc = None then
                          let b = bump_generation m2;
                              c = b\<lparr>cm_st := (cm_st b)\<lparr>cs_resets := cs_resets (cm_st b) + 1\<rparr>\<rparr>
                          in case cp_now_ms plat (cm_ctx c) of (t, w') \<Rightarrow>
                             publish_locked (marker_locked plat LOG_STORE_KIND_RESET
                               (if download then ''ESP32 reset into its ROM loader through EN''
                                else ''ESP32 reset through EN'')
                               (c\<lparr>cm_reset_at_ms := t, cm_ctx := w'\<rparr>))
                        else m2)
              in (rc, m3\<lparr>cm_exclusive := cm_exclusive m3 AND NOT EX_RESET\<rparr>)))"

text \<open>\<open>free\<close>: whether the mutex could be taken without waiting.\<close>

definition coprocessor_manager_note_banner ::
    "bool \<Rightarrow> 'p coprocessor_manager \<Rightarrow> 'p coprocessor_manager" where
  "coprocessor_manager_note_banner free m =
     (if \<not> free then m
      else (case cm_plat m of
        None \<Rightarrow> m
      | Some plat \<Rightarrow>
          (case cp_now_ms plat (cm_ctx m) of (t, w) \<Rightarrow>
           let m1 = m\<lparr>cm_ctx := w\<rparr> in
           if CONFIG_RESET_WINDOW_MS \<le> t - cm_reset_at_ms m then
             let b = bump_generation m1;
                 c = b\<lparr>cm_st := (cm_st b)\<lparr>cs_unexpected_resets := cs_unexpected_resets (cm_st b) + 1\<rparr>\<rparr>
             in publish_locked (marker_locked plat LOG_STORE_KIND_RESET ''ESP32 restarted by itself'' c)
           else m1)))"

fun claim_excluded :: "coprocessor_claim \<Rightarrow> u32" where
  "claim_excluded COPROCESSOR_CLAIM_NETWORK_APPLY = EX_BRIDGE OR EX_FLASHING OR EX_RESET"
| "claim_excluded _ = EX_FLASHING"

definition coprocessor_manager_claim ::
    "coprocessor_claim \<Rightarrow> 'p coprocessor_manager \<Rightarrow> errno option \<times> 'p coprocessor_manager" where
  "coprocessor_manager_claim what m =
     (if what = COPROCESSOR_CLAIM_OTHER then (Some EINVAL, m)
      else let m1 = m\<lparr>cm_claims := (cm_claims m)(what := cm_claims m what + 1)\<rparr> in
        if cm_exclusive m1 AND claim_excluded what \<noteq> 0
        then (Some EBUSY, m1\<lparr>cm_claims := (cm_claims m1)(what := cm_claims m1 what - 1)\<rparr>)
        else (None, m1))"

definition coprocessor_manager_release ::
    "coprocessor_claim \<Rightarrow> 'p coprocessor_manager \<Rightarrow> 'p coprocessor_manager" where
  "coprocessor_manager_release what m =
     (if what = COPROCESSOR_CLAIM_OTHER then m
      else let held = cm_claims m what in
        if held \<le> 0 then m else m\<lparr>cm_claims := (cm_claims m)(what := held - 1)\<rparr>)"

definition coprocessor_manager_get_status :: "'p coprocessor_manager \<Rightarrow> coprocessor_status" where
  "coprocessor_manager_get_status m =
     (cm_snap m)\<lparr>cs_transport_ready :=
        (case cm_snap_plat m of None \<Rightarrow> False
         | Some p \<Rightarrow> (case cp_transport_ready p of None \<Rightarrow> False | Some f \<Rightarrow> f (cm_ctx m)))\<rparr>"

lemmas bits = EX_BRIDGE_def EX_FLASHING_def EX_RESET_def

text \<open>The state before any call: the initialisers of the file's statics.\<close>

definition coprocessor_statics :: "'p \<Rightarrow> 'p coprocessor_manager" where
  "coprocessor_statics w = \<lparr>cm_plat = None,
     cm_st = zero_status\<lparr>cs_uart_mode := COPROCESSOR_UART_UNAVAILABLE\<rparr>, cm_reset_at_ms = 0,
     cm_snap = zero_status\<lparr>cs_uart_mode := COPROCESSOR_UART_UNAVAILABLE\<rparr>, cm_snap_plat = None,
     cm_exclusive = 0, cm_claims = (\<lambda>_. 0), cm_ctx = w\<rparr>"

section \<open>Runs of the entry points\<close>

datatype coprocessor_op =
    Op_set_mode coprocessor_uart_mode
  | Op_reset bool
  | Op_note_banner bool
  | Op_claim coprocessor_claim
  | Op_release coprocessor_claim

fun coprocessor_step :: "coprocessor_op \<Rightarrow> 'p coprocessor_manager \<Rightarrow> 'p coprocessor_manager" where
  "coprocessor_step (Op_set_mode mode) m = snd (coprocessor_manager_set_mode mode m)"
| "coprocessor_step (Op_reset d) m = snd (coprocessor_manager_reset d m)"
| "coprocessor_step (Op_note_banner free) m = coprocessor_manager_note_banner free m"
| "coprocessor_step (Op_claim c) m = snd (coprocessor_manager_claim c m)"
| "coprocessor_step (Op_release c) m = coprocessor_manager_release c m"

text \<open>
  Between two calls the exclusive bits say exactly what the mode is, what readers see is the
  working state, and no claim is held that the mode excludes.
\<close>

definition coprocessor_inv :: "'p coprocessor_manager \<Rightarrow> bool" where
  "coprocessor_inv m \<longleftrightarrow> cm_plat m \<noteq> None \<and> cs_uart_mode (cm_st m) \<noteq> COPROCESSOR_UART_OTHER \<and>
     cm_exclusive m = mode_bit (cs_uart_mode (cm_st m)) \<and>
     cm_snap m = cm_st m \<and> cm_snap_plat m = cm_plat m \<and>
     (\<forall>c. 0 \<le> cm_claims m c) \<and>
     (\<forall>c. c \<noteq> COPROCESSOR_CLAIM_OTHER \<and> 0 < cm_claims m c \<longrightarrow>
        mode_bit (cs_uart_mode (cm_st m)) AND claim_excluded c = 0)"

text \<open>What a switch leaves alone.\<close>

definition same_frame :: "'p coprocessor_manager \<Rightarrow> 'p coprocessor_manager \<Rightarrow> bool" where
  "same_frame m m' \<longleftrightarrow> cm_plat m' = cm_plat m \<and> cm_exclusive m' = cm_exclusive m \<and>
     cm_claims m' = cm_claims m \<and> cm_snap m' = cm_snap m \<and> cm_snap_plat m' = cm_snap_plat m \<and>
     cm_reset_at_ms m' = cm_reset_at_ms m"

lemma same_frame_refl [simp]: "same_frame m m"
  by (simp add: same_frame_def)

lemma same_frame_trans: "same_frame a b \<Longrightarrow> same_frame b c \<Longrightarrow> same_frame a c"
  by (simp add: same_frame_def)

abbreviation mode_of :: "'p coprocessor_manager \<Rightarrow> coprocessor_uart_mode" where
  "mode_of m \<equiv> cs_uart_mode (cm_st m)"

lemma helper_frames [simp]:
  "same_frame a (marker_locked plat k t m) \<longleftrightarrow> same_frame a m"
  "same_frame a (bump_generation m) \<longleftrightarrow> same_frame a m"
  "same_frame a (set_uart_mode mode m) \<longleftrightarrow> same_frame a m"
  "mode_of (marker_locked plat k t m) = mode_of m" "mode_of (bump_generation m) = mode_of m"
  "mode_of (set_uart_mode mode m) = mode"
  "cs_switches (cm_st (marker_locked plat k t m)) = cs_switches (cm_st m)"
  "cs_switches (cm_st (bump_generation m)) = cs_switches (cm_st m)"
  "cs_switches (cm_st (set_uart_mode mode m)) = cs_switches (cm_st m)"
  by (auto simp: same_frame_def marker_locked_def bump_generation_def set_uart_mode_def)

lemma uart_attach_frame:
  "uart_attach plat owner m = (rc, m') \<Longrightarrow> same_frame m m' \<and> cm_st m' = cm_st m"
  by (auto simp: uart_attach_def same_frame_def split: prod.splits)

lemma attach_locked_frame:
  "attach_locked plat owner m = (rc, m') \<Longrightarrow> same_frame m m' \<and> mode_of m' = mode_of m \<and>
     cs_switches (cm_st m') = cs_switches (cm_st m)"
proof (cases owner)
  case COPROCESSOR_UART_CONSOLE
  let ?m1 = "marker_locked plat LOG_STORE_KIND_RESET ''UART returned to the log'' (bump_generation m)"
  assume a: "attach_locked plat owner m = (rc, m')"
  obtain r m2 where u: "uart_attach plat COPROCESSOR_UART_CONSOLE ?m1 = (r, m2)" by fastforce
  have "same_frame m ?m1" by simp
  with uart_attach_frame [OF u] have f: "same_frame m m2" "cm_st m2 = cm_st ?m1"
    using same_frame_trans by blast+
  from a u COPROCESSOR_UART_CONSOLE
  have m': "m' = m2 \<or> m' = marker_locked plat LOG_STORE_KIND_PAUSED
      ''UART could not be given back to the log'' m2"
    by (auto simp: attach_console_locked_def Let_def split: option.splits)
  have "mode_of m2 = mode_of m" "cs_switches (cm_st m2) = cs_switches (cm_st m)"
    using f(2) by (simp_all add: marker_locked_def bump_generation_def)
  with f m' show ?thesis by auto
qed (auto dest: uart_attach_frame)

lemma wait_quiet_frame:
  "wait_quiet_locked plat m = (rc, m') \<Longrightarrow> same_frame m m' \<and> cm_st m' = cm_st m"
  by (auto simp: wait_quiet_locked_def same_frame_def split: prod.splits)

lemma stop_locked_frame: "stop_locked plat m = (b, m') \<Longrightarrow> same_frame m m' \<and> cm_st m' = cm_st m"
proof -
  assume a: "stop_locked plat m = (b, m')"
  obtain rc w where d: "cp_uart_detach plat (cm_ctx m) = (rc, w)" by fastforce
  obtain rc2 m2 where q: "wait_quiet_locked plat (m\<lparr>cm_ctx := w\<rparr>) = (rc2, m2)" by fastforce
  have "same_frame m (m\<lparr>cm_ctx := w\<rparr>)" by (simp add: same_frame_def)
  with wait_quiet_frame [OF q] have "same_frame m m2 \<and> cm_st m2 = cm_st m"
    by (auto intro: same_frame_trans)
  with a d q show ?thesis
    by (auto simp: stop_locked_def same_frame_def split: option.splits)
qed

lemma stop_failed_frame:
  "same_frame m (stop_failed_locked plat old m) \<and>
   (mode_of (stop_failed_locked plat old m) = mode_of m \<or>
    mode_of (stop_failed_locked plat old m) = COPROCESSOR_UART_UNAVAILABLE) \<and>
   cs_switches (cm_st (stop_failed_locked plat old m)) = cs_switches (cm_st m)"
proof -
  let ?m = "m\<lparr>cm_st := (cm_st m)\<lparr>cs_rx_stop_failures := cs_rx_stop_failures (cm_st m) + 1\<rparr>\<rparr>"
  have f0: "same_frame m ?m" by (simp add: same_frame_def)
  obtain r m1 where u: "uart_attach plat old ?m = (r, m1)" by fastforce
  from uart_attach_frame [OF u] f0 have f: "same_frame m m1" "cm_st m1 = cm_st ?m"
    using same_frame_trans by blast+
  show ?thesis
    using u f f0 by (auto simp: stop_failed_locked_def Let_def split: option.splits)
qed

lemma switch_locked_result:
  assumes "switch_locked plat target m = (rc, m')"
  shows "same_frame m m'"
    and "rc = None \<Longrightarrow> mode_of m' = target \<and> cs_switches (cm_st m') = cs_switches (cm_st m) + 1"
    and "rc \<noteq> None \<Longrightarrow> rc \<in> {Some ETIMEDOUT, Some EIO} \<and> mode_of m' \<in> {mode_of m, COPROCESSOR_UART_UNAVAILABLE} \<and>
      cs_switches (cm_st m') = cs_switches (cm_st m)"
proof -
  obtain b m1 where s: "stop_locked plat m = (b, m1)" by fastforce
  note f1 = stop_locked_frame [OF s]
  have "same_frame m m' \<and> (rc = None \<longrightarrow> mode_of m' = target \<and> cs_switches (cm_st m') = cs_switches (cm_st m) + 1) \<and>
    (rc \<noteq> None \<longrightarrow> rc \<in> {Some ETIMEDOUT, Some EIO} \<and> mode_of m' \<in> {mode_of m, COPROCESSOR_UART_UNAVAILABLE} \<and>
      cs_switches (cm_st m') = cs_switches (cm_st m))"
  proof (cases b)
    case False
    with assms s have "rc = Some ETIMEDOUT" "m' = stop_failed_locked plat (mode_of m) m1"
      by (simp_all add: switch_locked_def)
    with f1 stop_failed_frame [of m1 plat "mode_of m"] show ?thesis
      by (auto intro: same_frame_trans)
  next
    case True
    let ?m2 = "if mode_of m = COPROCESSOR_UART_CONSOLE
                    then marker_locked plat LOG_STORE_KIND_PAUSED (paused_text target) m1 else m1"
    have f2: "same_frame m ?m2" "mode_of ?m2 = mode_of m" "cs_switches (cm_st ?m2) = cs_switches (cm_st m)"
      using f1 by auto
    obtain r3 m3 where a3: "attach_locked plat target ?m2 = (r3, m3)" by fastforce
    obtain r4 m4 where a4: "attach_locked plat (mode_of m) m3 = (r4, m4)" by fastforce
    note f3 = attach_locked_frame [OF a3] and f4 = attach_locked_frame [OF a4]
    have c3: "same_frame m m3" "same_frame m m4" using f2 f3 f4 same_frame_trans by blast+
    have last: "same_frame m (m3\<lparr>cm_st := x\<rparr>)" for x using c3 by (simp add: same_frame_def)
    show ?thesis
      using assms s True a3 a4 f2 f3 f4 c3 last
      by (cases r3; cases r4) (auto simp: switch_locked_def Let_def set_uart_mode_def same_frame_def)
  qed
  then show "same_frame m m'"
    and "rc = None \<Longrightarrow> mode_of m' = target \<and> cs_switches (cm_st m') = cs_switches (cm_st m) + 1"
    and "rc \<noteq> None \<Longrightarrow> rc \<in> {Some ETIMEDOUT, Some EIO} \<and> mode_of m' \<in> {mode_of m, COPROCESSOR_UART_UNAVAILABLE} \<and>
      cs_switches (cm_st m') = cs_switches (cm_st m)" by blast+
qed

lemma set_bit_back:
  "mode = COPROCESSOR_UART_CONSOLE \<or> mode = COPROCESSOR_UART_UNAVAILABLE \<Longrightarrow>
     (mode_bit mode OR mode_bit target) AND NOT (mode_bit target) = mode_bit mode"
  by (cases target) (auto simp: bits)

lemma reset_bit_back: "(mode_bit mode OR EX_RESET) AND NOT EX_RESET = mode_bit mode"
  by (cases mode) (simp_all add: bits)

lemma settle_bits_value:
  "ex = mode_bit old \<or> ex = mode_bit old OR mode_bit target \<Longrightarrow> settle_bits mode ex = mode_bit mode"
  by (cases old; cases target; cases mode) (auto simp: settle_bits_def Let_def bits)

lemma excluded_by_claim:
  "\<not> claimed_against (mode_bit target) cl \<Longrightarrow> c \<noteq> COPROCESSOR_CLAIM_OTHER \<Longrightarrow> 0 < cl c \<Longrightarrow>
     mode_bit target AND claim_excluded c = 0"
  by (cases c; cases target) (auto simp: claimed_against_def apply_blocks_def scan_blocks_def bits split: if_splits)

lemma claimed_against_iff:
  "claimed_against (mode_bit target) cl \<longleftrightarrow>
     (\<exists>c. c \<noteq> COPROCESSOR_CLAIM_OTHER \<and> 0 < cl c \<and> mode_bit target AND claim_excluded c \<noteq> 0)"
proof
  assume "claimed_against (mode_bit target) cl"
  then show "\<exists>c. c \<noteq> COPROCESSOR_CLAIM_OTHER \<and> 0 < cl c \<and> mode_bit target AND claim_excluded c \<noteq> 0"
    by (cases target)
      (force simp: claimed_against_def apply_blocks_def scan_blocks_def bits split: if_splits
        intro: exI [of _ COPROCESSOR_CLAIM_NETWORK_APPLY] exI [of _ COPROCESSOR_CLAIM_WIFI_SCAN])+
qed (use excluded_by_claim in blast)

lemma claimed_against_0: "\<not> claimed_against 0 cl"
  by (simp add: claimed_against_def apply_blocks_def scan_blocks_def)

text \<open>
  The switch as the requester sees it: with every early exit passed, the intent is marked,
  \<open>switch_locked\<close> runs and the bits are settled.
\<close>

lemma set_mode_cases:
  assumes "coprocessor_inv m" "coprocessor_manager_set_mode mode m = (rc, m')"
  obtains (refused) "m' = m" "rc \<in> {Some EINVAL, Some EBUSY}"
    "mode \<in> {COPROCESSOR_UART_UNAVAILABLE, COPROCESSOR_UART_OTHER} \<longleftrightarrow> rc = Some EINVAL"
    "rc = Some EBUSY \<Longrightarrow> mode_of m \<noteq> mode"
    "rc = Some EBUSY \<Longrightarrow> {mode_of m, mode} = {COPROCESSOR_UART_USB_BRIDGE, COPROCESSOR_UART_FLASHING} \<or>
       claimed_against (mode_bit mode) (cm_claims m)"
  | (there) "rc = None" "m' = m" "mode_of m = mode" "mode \<notin> {COPROCESSOR_UART_UNAVAILABLE, COPROCESSOR_UART_OTHER}"
  | (switched) plat m1 m2 where "cm_plat m = Some plat" "mode_of m \<noteq> mode"
      "mode \<notin> {COPROCESSOR_UART_UNAVAILABLE, COPROCESSOR_UART_OTHER}"
      "{mode_of m, mode} \<noteq> {COPROCESSOR_UART_USB_BRIDGE, COPROCESSOR_UART_FLASHING}"
      "\<not> claimed_against (mode_bit mode) (cm_claims m)"
      "m1 = m\<lparr>cm_exclusive := cm_exclusive m OR mode_bit mode\<rparr>"
      "switch_locked plat mode m1 = (rc, m2)" "(rc, m') = finish_switch rc m2"
proof -
  from assms(1) obtain plat where p: "cm_plat m = Some plat" by (auto simp: coprocessor_inv_def)
  have ex: "cm_exclusive m = mode_bit (mode_of m)" using assms(1) by (simp add: coprocessor_inv_def)
  let ?m1 = "m\<lparr>cm_exclusive := cm_exclusive m OR mode_bit mode\<rparr>"
  consider (bad) "mode \<in> {COPROCESSOR_UART_UNAVAILABLE, COPROCESSOR_UART_OTHER}"
    | (same) "mode \<notin> {COPROCESSOR_UART_UNAVAILABLE, COPROCESSOR_UART_OTHER}" "mode_of m = mode"
    | (other) "mode \<notin> {COPROCESSOR_UART_UNAVAILABLE, COPROCESSOR_UART_OTHER}" "mode_of m \<noteq> mode"
        "{mode_of m, mode} = {COPROCESSOR_UART_USB_BRIDGE, COPROCESSOR_UART_FLASHING}"
    | (held) "mode \<notin> {COPROCESSOR_UART_UNAVAILABLE, COPROCESSOR_UART_OTHER}" "mode_of m \<noteq> mode"
        "{mode_of m, mode} \<noteq> {COPROCESSOR_UART_USB_BRIDGE, COPROCESSOR_UART_FLASHING}"
        "claimed_against (mode_bit mode) (cm_claims m)"
    | (go) "mode \<notin> {COPROCESSOR_UART_UNAVAILABLE, COPROCESSOR_UART_OTHER}" "mode_of m \<noteq> mode"
        "{mode_of m, mode} \<noteq> {COPROCESSOR_UART_USB_BRIDGE, COPROCESSOR_UART_FLASHING}"
        "\<not> claimed_against (mode_bit mode) (cm_claims m)" by blast
  then show ?thesis
  proof cases
    case bad
    with assms(2) show ?thesis by (intro refused) (auto simp: coprocessor_manager_set_mode_def)
  next
    case same
    with assms(2) p show ?thesis
      by (intro there) (auto simp: coprocessor_manager_set_mode_def)
  next
    case other
    with assms(2) p show ?thesis
      by (intro refused) (auto simp: coprocessor_manager_set_mode_def doubleton_eq_iff)
  next
    case held
    then have nz: "mode_bit mode \<noteq> 0" using claimed_against_0 by metis
    then have "mode_of m \<noteq> COPROCESSOR_UART_USB_BRIDGE" "mode_of m \<noteq> COPROCESSOR_UART_FLASHING"
      using held(1-3) by (cases mode; auto)+
    then have "mode_of m = COPROCESSOR_UART_CONSOLE \<or> mode_of m = COPROCESSOR_UART_UNAVAILABLE"
      using assms(1) by (cases "mode_of m") (auto simp: coprocessor_inv_def)
    from set_bit_back [OF this] have "m\<lparr>cm_exclusive := (cm_exclusive m OR mode_bit mode) AND NOT (mode_bit mode)\<rparr> = m"
      by (simp add: ex)
    with assms(2) p held nz have "m' = m" "rc = Some EBUSY"
      by (auto simp: coprocessor_manager_set_mode_def Let_def doubleton_eq_iff)
    with held show ?thesis by (intro refused) auto
  next
    case go
    obtain r2 m2 where s: "switch_locked plat mode ?m1 = (r2, m2)" by fastforce
    have "coprocessor_manager_set_mode mode m = (case switch_locked plat mode ?m1 of (r, m2) \<Rightarrow> finish_switch r m2)"
      using go p by (auto simp: coprocessor_manager_set_mode_def Let_def doubleton_eq_iff)
    with assms(2) s have "finish_switch r2 m2 = (rc, m')" by simp
    moreover then have "r2 = rc" by (simp add: finish_switch_def)
    ultimately show ?thesis using p go s by (intro switched) auto
  qed
qed

lemma finish_switch_simps:
  "(rc, m') = finish_switch rc m2 \<Longrightarrow>
     cm_st m' = (cm_st m2)\<lparr>cs_last_switch_error := rc\<rparr> \<and> cm_snap m' = cm_st m' \<and>
     cm_plat m' = cm_plat m2 \<and> cm_snap_plat m' = cm_plat m2 \<and> cm_claims m' = cm_claims m2 \<and>
     cm_exclusive m' = settle_bits (mode_of m2) (cm_exclusive m2) \<and> cm_ctx m' = cm_ctx m2"
  by (simp add: finish_switch_def publish_locked_def settle_bits_locked_def)

lemma set_mode_inv:
  assumes "coprocessor_inv m"
  shows "coprocessor_inv (snd (coprocessor_manager_set_mode mode m))"
proof -
  obtain rc m' where r: "coprocessor_manager_set_mode mode m = (rc, m')" by fastforce
  from assms r have "coprocessor_inv m'"
  proof (cases rule: set_mode_cases)
    case (switched plat m1 m2)
    note fin = finish_switch_simps [OF switched(8)] and sw = switch_locked_result [OF switched(7)]
    have ex: "cm_exclusive m' = mode_bit (mode_of m2)"
      using fin sw(1) assms settle_bits_value [of _ "mode_of m" mode "mode_of m2"] switched(6)
      by (simp add: same_frame_def coprocessor_inv_def)
    have md: "mode_of m2 = mode \<or> mode_of m2 = mode_of m \<or> mode_of m2 = COPROCESSOR_UART_UNAVAILABLE"
      using sw(2,3) switched(6) by (cases rc) auto
    have cl: "cm_claims m' = cm_claims m" "cm_plat m' = cm_plat m"
      using fin sw(1) switched(6) by (simp_all add: same_frame_def)
    have "mode_bit (mode_of m2) AND claim_excluded c = 0"
      if "c \<noteq> COPROCESSOR_CLAIM_OTHER" "0 < cm_claims m c" for c
      using md that assms excluded_by_claim [OF switched(5)] by (auto simp: coprocessor_inv_def)
    with fin ex cl md assms switched(3) show ?thesis
      by (auto simp: coprocessor_inv_def)
  qed (use assms in auto)
  with r show ?thesis by simp
qed

lemma reset_inv:
  assumes "coprocessor_inv m"
  shows "coprocessor_inv (snd (coprocessor_manager_reset d m))"
  using assms reset_bit_back
  by (auto simp: coprocessor_manager_reset_def coprocessor_inv_def Let_def publish_locked_def marker_locked_def
      bump_generation_def split: option.split prod.split)

lemma note_banner_inv:
  "coprocessor_inv m \<Longrightarrow> coprocessor_inv (coprocessor_manager_note_banner free m)"
  by (auto simp: coprocessor_manager_note_banner_def coprocessor_inv_def Let_def publish_locked_def
      marker_locked_def bump_generation_def split: option.split prod.split)

lemma claim_inv_step:
  "coprocessor_inv m \<Longrightarrow> coprocessor_inv (snd (coprocessor_manager_claim what m))"
  by (auto simp: coprocessor_manager_claim_def coprocessor_inv_def Let_def)

lemma release_inv: "coprocessor_inv m \<Longrightarrow> coprocessor_inv (coprocessor_manager_release what m)"
  by (auto simp: coprocessor_manager_release_def coprocessor_inv_def Let_def)

interpretation coprocessor: op_machine coprocessor_step coprocessor_inv
proof unfold_locales
  fix m :: "'p coprocessor_manager" and x
  assume "coprocessor_inv m"
  then show "coprocessor_inv (coprocessor_step x m)"
    by (cases x) (simp_all add: set_mode_inv reset_inv note_banner_inv claim_inv_step release_inv)
qed

lemma init_inv: "coprocessor_inv (snd (coprocessor_manager_init (Some plat) m))"
  by (auto simp: coprocessor_manager_init_def coprocessor_inv_def uart_attach_def publish_locked_def Let_def
      split: prod.split)

section \<open>What the platform sees\<close>

text \<open>
  The calls made on the platform, in order. \<open>traced plat\<close> is the platform \<open>plat\<close> with a record of
  the calls kept beside its state; since the model is the same for every platform, what is proved
  of a traced platform's record is a fact about the calls the code makes.
\<close>

datatype plat_event =
    Ev_attach coprocessor_uart_mode "errno option"
  | Ev_detach "errno option"
  | Ev_rx u32
  | Ev_reset bool "errno option"
  | Ev_marker log_store_kind u32 string
  | Ev_now int
  | Ev_sleep nat

type_synonym 'p traced_state = "'p \<times> plat_event list"

definition traced :: "'p coprocessor_platform \<Rightarrow> 'p traced_state coprocessor_platform" where
  "traced plat = \<lparr>
     cp_uart_attach = (\<lambda>owner (w, es). case cp_uart_attach plat owner w of (rc, w') \<Rightarrow>
        (rc, w', es @ [Ev_attach owner rc])),
     cp_uart_detach = (\<lambda>(w, es). case cp_uart_detach plat w of (rc, w') \<Rightarrow> (rc, w', es @ [Ev_detach rc])),
     cp_uart_rx_activity = (\<lambda>(w, es). case cp_uart_rx_activity plat w of (n, w') \<Rightarrow> (n, w', es @ [Ev_rx n])),
     cp_c6_reset = (\<lambda>d (w, es). case cp_c6_reset plat d w of (rc, w') \<Rightarrow> (rc, w', es @ [Ev_reset d rc])),
     cp_transport_ready = map_option (\<lambda>f (w, es). f w) (cp_transport_ready plat),
     cp_marker = (\<lambda>k g t (w, es). (cp_marker plat k g t w, es @ [Ev_marker k g t])),
     cp_now_ms = (\<lambda>(w, es). case cp_now_ms plat w of (t, w') \<Rightarrow> (t, w', es @ [Ev_now t])),
     cp_sleep_ms = (\<lambda>n (w, es). (cp_sleep_ms plat n w, es @ [Ev_sleep n]))\<rparr>"

text \<open>Each traced call adds its event.\<close>

lemma traced_attach:
  obtains rc w2 where "cp_uart_attach (traced plat) owner (w, es) = (rc, w2, es @ [Ev_attach owner rc])"
  by (cases "cp_uart_attach plat owner w") (simp add: traced_def)

lemma traced_detach:
  obtains rc w2 where "cp_uart_detach (traced plat) (w, es) = (rc, w2, es @ [Ev_detach rc])"
  by (cases "cp_uart_detach plat w") (simp add: traced_def)

lemma traced_rx:
  obtains n w2 where "cp_uart_rx_activity (traced plat) (w, es) = (n, w2, es @ [Ev_rx n])"
  by (cases "cp_uart_rx_activity plat w") (simp add: traced_def)

lemma traced_reset:
  obtains rc w2 where "cp_c6_reset (traced plat) d (w, es) = (rc, w2, es @ [Ev_reset d rc])"
  by (cases "cp_c6_reset plat d w") (simp add: traced_def)

lemma traced_now:
  obtains t w2 where "cp_now_ms (traced plat) (w, es) = (t, w2, es @ [Ev_now t])"
  by (cases "cp_now_ms plat w") (simp add: traced_def)

lemma traced_calls [simp]:
  "snd (cp_marker (traced plat) k g msg we) = snd we @ [Ev_marker k g msg]"
  "cp_sleep_ms (traced plat) ms (w, es) = (cp_sleep_ms plat ms w, es @ [Ev_sleep ms])"
  by (cases we) (simp_all add: traced_def)

abbreviation tr :: "'p traced_state coprocessor_manager \<Rightarrow> plat_event list" where
  "tr m \<equiv> snd (cm_ctx m)"

fun rx_values :: "plat_event list \<Rightarrow> u32 list" where
  "rx_values [] = []"
| "rx_values (Ev_rx n # es) = n # rx_values es"
| "rx_values (_ # es) = rx_values es"

lemma rx_values_append [simp]: "rx_values (xs @ ys) = rx_values xs @ rx_values ys"
  by (induction xs rule: rx_values.induct) auto

fun is_look :: "plat_event \<Rightarrow> bool" where
  "is_look (Ev_rx _) = True"
| "is_look (Ev_now _) = True"
| "is_look (Ev_sleep _) = True"
| "is_look _ = False"

definition sleeps :: "plat_event list \<Rightarrow> nat list" where
  "sleeps es = concat (map (\<lambda>e. case e of Ev_sleep n \<Rightarrow> [n] | _ \<Rightarrow> []) es)"

lemma sleeps_simps [simp]:
  "sleeps [] = []" "sleeps (xs @ ys) = sleeps xs @ sleeps ys"
  "sleeps (Ev_sleep n # es) = n # sleeps es" "sleeps (Ev_rx v # es) = sleeps es" "sleeps (Ev_now t # es) = sleeps es"
  by (simp_all add: sleeps_def)

text \<open>
  \<open>stood_still k vs\<close>: the last \<open>k + 1\<close> values read are equal, so the counter stood still for
  \<open>k\<close> intervals.
\<close>

definition stood_still :: "nat \<Rightarrow> u32 list \<Rightarrow> bool" where
  "stood_still k vs \<longleftrightarrow> (\<exists>pre v. vs = pre @ replicate (Suc k) v)"

lemma stood_still_more: "stood_still k (vs @ [v]) \<Longrightarrow> stood_still (Suc k) (vs @ [v, v])"
  unfolding stood_still_def
proof (elim exE)
  fix pre u assume a: "vs @ [v] = pre @ replicate (Suc k) u"
  then have "v = u" by (metis last_appendR last_replicate last_snoc list.distinct(1) nat.distinct(1) replicate_empty)
  with a have "vs @ [v, v] = pre @ replicate (Suc (Suc k)) v"
    by (metis append.assoc append_Cons append_Nil replicate_append_same replicate_Suc)
  then show "\<exists>pre va. vs @ [v, v] = pre @ replicate (Suc (Suc k)) va" by blast
qed

lemma quiet_loop_trace:
  assumes "quiet_loop (traced plat) start looks seen still (w, base @ es) = (rc, w2)"
    and "rx_values es = pre @ [seen]" "stood_still still (rx_values es)" "still < QUIET_SAMPLES"
  shows "\<exists>qs. snd w2 = base @ es @ qs \<and> (\<forall>e \<in> set qs. is_look e) \<and>
    length (sleeps qs) \<le> looks \<and> set (sleeps qs) \<subseteq> {CONFIG_RX_QUIET_STEP_MS} \<and>
    (rc = None \<longrightarrow> stood_still QUIET_SAMPLES (rx_values (es @ qs))) \<and> (rc = None \<or> rc = Some ETIMEDOUT)"
  using assms
proof (induction looks arbitrary: seen still w es pre)
  case 0
  then show ?case by (intro exI [of _ "[]"]) auto
next
  case (Suc looks)
  let ?es1 = "base @ es @ [Ev_sleep CONFIG_RX_QUIET_STEP_MS]" and ?w1 = "cp_sleep_ms plat CONFIG_RX_QUIET_STEP_MS w"
  obtain now w2' where r: "cp_uart_rx_activity (traced plat) (?w1, ?es1) = (now, w2', ?es1 @ [Ev_rx now])"
    by (rule traced_rx)
  let ?es2 = "es @ [Ev_sleep CONFIG_RX_QUIET_STEP_MS, Ev_rx now]"
  obtain t w3 where n: "cp_now_ms (traced plat) (w2', base @ ?es2) = (t, w3, (base @ ?es2) @ [Ev_now t])"
    by (rule traced_now)
  let ?still = "if now = seen then still + 1 else 0"
  have step: "quiet_loop (traced plat) start (Suc looks) seen still (w, base @ es) =
    (if now = seen \<and> QUIET_SAMPLES \<le> ?still then (None, w2', base @ ?es2)
     else if int CONFIG_RX_STOP_TIMEOUT_MS \<le> t - start then (Some ETIMEDOUT, w3, base @ ?es2 @ [Ev_now t])
     else quiet_loop (traced plat) start looks now ?still (w3, base @ ?es2 @ [Ev_now t]))"
    using r n by (simp add: Let_def)
  note prem = Suc.prems(1) [unfolded step]
  have still: "stood_still ?still (rx_values ?es2)"
  proof (cases "now = seen")
    case True
    with Suc.prems(2,3) stood_still_more [of still pre seen] show ?thesis by simp
  next
    case False
    then show ?thesis using Suc.prems(2) by (auto simp: stood_still_def)
  qed
  show ?case
  proof (cases "now = seen \<and> QUIET_SAMPLES \<le> ?still")
    case True
    then have "?still = QUIET_SAMPLES" using Suc.prems(4) by auto
    with True prem still show ?thesis
      by (intro exI [of _ "[Ev_sleep CONFIG_RX_QUIET_STEP_MS, Ev_rx now]"]) (auto split: if_splits)
  next
    case False
    show ?thesis
    proof (cases "int CONFIG_RX_STOP_TIMEOUT_MS \<le> t - start")
      case True
      with prem have "w2 = (w3, base @ ?es2 @ [Ev_now t])" "rc = Some ETIMEDOUT"
        using False by (auto split: if_splits)
      then show ?thesis
        by (intro exI [of _ "[Ev_sleep CONFIG_RX_QUIET_STEP_MS, Ev_rx now, Ev_now t]"]) simp
    next
      case later: False
      have "quiet_loop (traced plat) start looks now ?still (w3, base @ (?es2 @ [Ev_now t])) = (rc, w2)"
        using prem False later by (auto split: if_splits)
      moreover have "rx_values (?es2 @ [Ev_now t]) = rx_values es @ [now]" by simp
      moreover have "?still < QUIET_SAMPLES" using False by (auto simp: QUIET_SAMPLES_def)
      ultimately obtain qs where "snd w2 = base @ (?es2 @ [Ev_now t]) @ qs \<and> (\<forall>e \<in> set qs. is_look e) \<and>
        length (sleeps qs) \<le> looks \<and> set (sleeps qs) \<subseteq> {CONFIG_RX_QUIET_STEP_MS} \<and>
        (rc = None \<longrightarrow> stood_still QUIET_SAMPLES (rx_values ((?es2 @ [Ev_now t]) @ qs))) \<and>
        (rc = None \<or> rc = Some ETIMEDOUT)"
        using Suc.IH [of now ?still w3 "?es2 @ [Ev_now t]" "rx_values es"] still by auto
      then show ?thesis
        by (intro exI [of _ "[Ev_sleep CONFIG_RX_QUIET_STEP_MS, Ev_rx now, Ev_now t] @ qs"]) auto
    qed
  qed
qed


lemma tr_simps [simp]:
  "tr (marker_locked (traced plat) k msg m) = tr m @ [Ev_marker k (cs_generation (cm_st m)) msg]"
  "tr (bump_generation m) = tr m" "tr (set_uart_mode mode m) = tr m"
  "cs_generation (cm_st (bump_generation m)) = cs_generation (cm_st m) + 1"
  "cs_generation (cm_st (marker_locked plat' k msg m)) = cs_generation (cm_st m)"
  "cs_generation (cm_st (set_uart_mode mode m)) = cs_generation (cm_st m)"
  by (simp_all add: marker_locked_def bump_generation_def set_uart_mode_def)

lemma uart_attach_trace:
  "uart_attach (traced plat) owner m = (rc, m') \<Longrightarrow> tr m' = tr m @ [Ev_attach owner rc] \<and> cm_st m' = cm_st m"
proof -
  assume a: "uart_attach (traced plat) owner m = (rc, m')"
  obtain w es where ctx: "cm_ctx m = (w, es)" by (metis surj_pair)
  obtain r w2 where e: "cp_uart_attach (traced plat) owner (w, es) = (r, w2, es @ [Ev_attach owner r])"
    by (rule traced_attach)
  have "uart_attach (traced plat) owner m = (r, m\<lparr>cm_ctx := (w2, es @ [Ev_attach owner r])\<rparr>)"
    unfolding uart_attach_def ctx e by simp
  with a have "r = rc" "m' = m\<lparr>cm_ctx := (w2, es @ [Ev_attach owner r])\<rparr>" by auto
  with ctx show ?thesis by simp
qed

definition reset_text :: string where "reset_text = ''UART returned to the log''"

text \<open>What handing the UART to \<open>owner\<close> looks like from generation \<open>g\<close>, with result \<open>rc\<close>.\<close>

fun handover :: "coprocessor_uart_mode \<Rightarrow> u32 \<Rightarrow> errno option \<Rightarrow> plat_event list" where
  "handover COPROCESSOR_UART_CONSOLE g rc =
     [Ev_marker LOG_STORE_KIND_RESET (g + 1) reset_text, Ev_attach COPROCESSOR_UART_CONSOLE rc] @
     (if rc = None then []
      else [Ev_marker LOG_STORE_KIND_PAUSED (g + 1) ''UART could not be given back to the log''])"
| "handover COPROCESSOR_UART_UNAVAILABLE g rc = []"
| "handover owner g rc = [Ev_attach owner rc]"

lemma attach_locked_trace:
  assumes "attach_locked (traced plat) owner m = (rc, m')"
  obtains rc' where "tr m' = tr m @ handover owner (cs_generation (cm_st m)) rc'"
    "rc = None \<longleftrightarrow> rc' = None \<and> owner \<noteq> COPROCESSOR_UART_UNAVAILABLE"
    "cs_generation (cm_st m') = cs_generation (cm_st m) + (if owner = COPROCESSOR_UART_CONSOLE then 1 else 0)"
proof (cases owner)
  case COPROCESSOR_UART_CONSOLE
  let ?m1 = "marker_locked (traced plat) LOG_STORE_KIND_RESET ''UART returned to the log'' (bump_generation m)"
  obtain r m2 where u: "uart_attach (traced plat) COPROCESSOR_UART_CONSOLE ?m1 = (r, m2)" by fastforce
  note t = uart_attach_trace [OF u]
  let ?m3 = "marker_locked (traced plat) LOG_STORE_KIND_PAUSED ''UART could not be given back to the log'' m2"
  have eq: "attach_locked (traced plat) owner m = (case r of None \<Rightarrow> (None, m2) | Some _ \<Rightarrow> (Some EIO, ?m3))"
    unfolding COPROCESSOR_UART_CONSOLE attach_locked.simps attach_console_locked_def Let_def u
    by (simp split: option.split)
  have st: "tr m2 = tr m @ [Ev_marker LOG_STORE_KIND_RESET (cs_generation (cm_st m) + 1) reset_text,
      Ev_attach COPROCESSOR_UART_CONSOLE r]" "cs_generation (cm_st m2) = cs_generation (cm_st m) + 1"
    using t by (simp_all add: reset_text_def)
  show ?thesis
  proof (cases r)
    case None
    with assms eq have "rc = None" "m' = m2" by auto
    with None st COPROCESSOR_UART_CONSOLE show ?thesis by (intro that [of None]) simp_all
  next
    case (Some e)
    with assms eq have "rc = Some EIO" "m' = ?m3" by auto
    with Some st COPROCESSOR_UART_CONSOLE show ?thesis by (intro that [of r]) simp_all
  qed
next
  case COPROCESSOR_UART_USB_BRIDGE
  with assms uart_attach_trace [of plat owner m rc m'] show ?thesis by (intro that [of rc]) simp_all
next
  case COPROCESSOR_UART_FLASHING
  with assms uart_attach_trace [of plat owner m rc m'] show ?thesis by (intro that [of rc]) simp_all
next
  case COPROCESSOR_UART_UNAVAILABLE
  with assms have "rc = Some EIO" "m' = m" by auto
  with COPROCESSOR_UART_UNAVAILABLE show ?thesis by (intro that [of None]) simp_all
next
  case COPROCESSOR_UART_OTHER
  with assms uart_attach_trace [of plat owner m rc m'] show ?thesis by (intro that [of rc]) simp_all
qed

text \<open>The stop: a detach, then looks at the counter, a bounded number of them.\<close>

definition stop_events :: "bool \<Rightarrow> plat_event list \<Rightarrow> bool" where
  "stop_events ok es \<longleftrightarrow> (\<exists>d qs. es = Ev_detach d # qs \<and> (\<forall>e \<in> set qs. is_look e) \<and>
     length (sleeps qs) \<le> max_looks \<and> set (sleeps qs) \<subseteq> {CONFIG_RX_QUIET_STEP_MS} \<and>
     (ok \<longrightarrow> d = None \<and> stood_still QUIET_SAMPLES (rx_values qs)))"

lemma stop_locked_trace:
  assumes "stop_locked (traced plat) m = (b, m')"
  obtains es where "tr m' = tr m @ es" "stop_events b es" "cm_st m' = cm_st m"
proof -
  obtain w es0 where ctx: "cm_ctx m = (w, es0)" by fastforce
  obtain d w1 where det: "cp_uart_detach (traced plat) (w, es0) = (d, w1, es0 @ [Ev_detach d])"
    by (rule traced_detach)
  show ?thesis
  proof (cases d)
    case (Some e)
    with ctx det have "stop_locked (traced plat) m = (False, m\<lparr>cm_ctx := (w1, es0 @ [Ev_detach d])\<rparr>)"
      by (simp add: stop_locked_def)
    with assms have "b = False" "m' = m\<lparr>cm_ctx := (w1, es0 @ [Ev_detach d])\<rparr>" by auto
    with ctx show ?thesis
      by (intro that [of "[Ev_detach d]"]) (simp_all add: stop_events_def)
  next
    case None
    let ?es1 = "es0 @ [Ev_detach None]"
    obtain t0 w2 where n: "cp_now_ms (traced plat) (w1, ?es1) = (t0, w2, ?es1 @ [Ev_now t0])" by (rule traced_now)
    obtain v w3 where r: "cp_uart_rx_activity (traced plat) (w2, ?es1 @ [Ev_now t0]) =
        (v, w3, (?es1 @ [Ev_now t0]) @ [Ev_rx v])" by (rule traced_rx)
    obtain rc w4 where q: "quiet_loop (traced plat) t0 max_looks v 0 (w3, ?es1 @ [Ev_now t0, Ev_rx v]) = (rc, w4)"
      by (metis surj_pair)
    have "stood_still 0 (rx_values [Ev_now t0, Ev_rx v])" by (auto simp: stood_still_def)
    then obtain qs where qs: "snd w4 = ?es1 @ [Ev_now t0, Ev_rx v] @ qs" "\<forall>e \<in> set qs. is_look e"
      "length (sleeps qs) \<le> max_looks" "set (sleeps qs) \<subseteq> {CONFIG_RX_QUIET_STEP_MS}"
      "rc = None \<longrightarrow> stood_still QUIET_SAMPLES (rx_values ([Ev_now t0, Ev_rx v] @ qs))"
      using quiet_loop_trace [OF q, of "[]"] by (auto simp: QUIET_SAMPLES_def)
    have "stop_locked (traced plat) m = (rc = None, m\<lparr>cm_ctx := w4\<rparr>)"
      using ctx det None n r q by (simp add: stop_locked_def wait_quiet_locked_def)
    with assms have "b = (rc = None)" "m' = m\<lparr>cm_ctx := w4\<rparr>" by auto
    with ctx qs show ?thesis
      by (intro that [of "Ev_detach None # [Ev_now t0, Ev_rx v] @ qs"]) (auto simp: stop_events_def)
  qed
qed

text \<open>The calls of a whole switch.\<close>

definition paused_event :: "coprocessor_uart_mode \<Rightarrow> coprocessor_uart_mode \<Rightarrow> u32 \<Rightarrow> plat_event list" where
  "paused_event old target g = (if old = COPROCESSOR_UART_CONSOLE
     then [Ev_marker LOG_STORE_KIND_PAUSED g (paused_text target)] else [])"

inductive switch_events ::
    "coprocessor_uart_mode \<Rightarrow> coprocessor_uart_mode \<Rightarrow> u32 \<Rightarrow> errno option \<Rightarrow> plat_event list \<Rightarrow> bool"
  for old target g where
  handed: "stop_events True es \<Longrightarrow>
     switch_events old target g None (es @ paused_event old target g @ handover target g None)"
| put_back: "stop_events True es \<Longrightarrow> rc' \<noteq> None \<Longrightarrow>
     switch_events old target g (Some EIO) (es @ paused_event old target g @ handover target g rc' @
       handover old (if target = COPROCESSOR_UART_CONSOLE then g + 1 else g) rc'')"
| not_stopped: "stop_events False es \<Longrightarrow> set es' \<subseteq>
       {Ev_attach old rc', Ev_marker LOG_STORE_KIND_PAUSED g ''UART could not be given back to the log''} \<Longrightarrow>
     switch_events old target g (Some ETIMEDOUT) (es @ es')"

lemma stop_failed_trace:
  obtains es' rc' where "tr (stop_failed_locked (traced plat) old m) = tr m @ es'"
    "set es' \<subseteq> {Ev_attach old rc', Ev_marker LOG_STORE_KIND_PAUSED (cs_generation (cm_st m))
       ''UART could not be given back to the log''}"
    "cs_generation (cm_st (stop_failed_locked (traced plat) old m)) = cs_generation (cm_st m)"
proof -
  let ?m = "m\<lparr>cm_st := (cm_st m)\<lparr>cs_rx_stop_failures := cs_rx_stop_failures (cm_st m) + 1\<rparr>\<rparr>"
  obtain r m1 where u: "uart_attach (traced plat) old ?m = (r, m1)" by fastforce
  note t = uart_attach_trace [OF u]
  show ?thesis
  proof (cases "old = COPROCESSOR_UART_UNAVAILABLE")
    case True
    then show ?thesis by (intro that [of "[]" None]) (auto simp: stop_failed_locked_def Let_def)
  next
    case False
    show ?thesis
      using u t False
      by (intro that [of "[Ev_attach old r] @ (if r \<noteq> None \<and> old = COPROCESSOR_UART_CONSOLE
          then [Ev_marker LOG_STORE_KIND_PAUSED (cs_generation (cm_st m)) ''UART could not be given back to the log'']
          else [])" r])
        (auto simp: stop_failed_locked_def Let_def split: option.splits)
  qed
qed

lemma switch_locked_trace:
  assumes "switch_locked (traced plat) target m = (rc, m')" "target \<noteq> COPROCESSOR_UART_UNAVAILABLE"
  obtains es where "tr m' = tr m @ es" "switch_events (mode_of m) target (cs_generation (cm_st m)) rc es"
proof -
  let ?old = "mode_of m" and ?g = "cs_generation (cm_st m)"
  obtain b m1 where s: "stop_locked (traced plat) m = (b, m1)" by fastforce
  obtain es1 where es1: "tr m1 = tr m @ es1" "stop_events b es1" "cm_st m1 = cm_st m"
    by (rule stop_locked_trace [OF s])
  show ?thesis
  proof (cases b)
    case False
    then have r: "rc = Some ETIMEDOUT" "m' = stop_failed_locked (traced plat) ?old m1"
      using assms(1) s by (simp_all add: switch_locked_def)
    obtain es' rc' where "tr m' = tr m1 @ es'"
      "set es' \<subseteq> {Ev_attach ?old rc', Ev_marker LOG_STORE_KIND_PAUSED (cs_generation (cm_st m1))
       ''UART could not be given back to the log''}"
      using stop_failed_trace [of plat ?old m1] r(2) by metis
    with es1 r False show ?thesis by (intro that [of "es1 @ es'"]) (auto intro: not_stopped)
  next
    case True
    let ?m2 = "if ?old = COPROCESSOR_UART_CONSOLE
                    then marker_locked (traced plat) LOG_STORE_KIND_PAUSED (paused_text target) m1 else m1"
    have t2: "tr ?m2 = tr m @ es1 @ paused_event ?old target ?g" "cs_generation (cm_st ?m2) = ?g"
      using es1 by (simp_all add: paused_event_def)
    obtain r3 m3 where a3: "attach_locked (traced plat) target ?m2 = (r3, m3)" by fastforce
    obtain r4 m4 where a4: "attach_locked (traced plat) ?old m3 = (r4, m4)" by fastforce
    obtain c3 where c3: "tr m3 = tr ?m2 @ handover target ?g c3"
      "r3 = None \<longleftrightarrow> c3 = None \<and> target \<noteq> COPROCESSOR_UART_UNAVAILABLE"
      "cs_generation (cm_st m3) = ?g + (if target = COPROCESSOR_UART_CONSOLE then 1 else 0)"
      using attach_locked_trace [OF a3] t2(2) by metis
    obtain c4 where c4: "tr m4 = tr m3 @ handover ?old (cs_generation (cm_st m3)) c4"
      using attach_locked_trace [OF a4] by metis
    show ?thesis
    proof (cases r3)
      case None
      then have "rc = None" "tr m' = tr m3" using assms(1) s True a3 by (auto simp: switch_locked_def Let_def set_uart_mode_def)
      with None c3 t2 es1(2) True assms(2) show ?thesis
        by (intro that [of "es1 @ paused_event ?old target ?g @ handover target ?g None"]) (auto intro: handed)
    next
      case (Some e)
      then have "rc = Some EIO" "tr m' = tr m4"
        using assms(1) s True a3 a4 by (auto simp: switch_locked_def Let_def split: option.splits)
      moreover have "switch_events ?old target ?g (Some EIO) (es1 @ paused_event ?old target ?g @ handover target ?g c3 @
          handover ?old (if target = COPROCESSOR_UART_CONSOLE then ?g + 1 else ?g) c4)"
        by (rule put_back) (use es1(2) True c3(2) Some assms(2) in auto)
      ultimately show ?thesis
        using c3 c4 t2 by (intro that [of "es1 @ paused_event ?old target ?g @ handover target ?g c3 @
          handover ?old (if target = COPROCESSOR_UART_CONSOLE then ?g + 1 else ?g) c4"]) auto
    qed
  qed
qed

section \<open>Interleaving\<close>

text \<open>
  The exclusion under concurrency. One thread at a time holds the manager's mutex; any number of
  network threads claim and release without it. A step is one atomic access of
  \<^verbatim>\<open>set_mode\<close>, \<^verbatim>\<open>reset\<close>, \<^verbatim>\<open>claim\<close> or \<^verbatim>\<open>release\<close>, in the order the code makes them;
  the body of a switch or of a reset pulse, which touches neither atomic, is the time spent in
  \<open>Proceeding\<close>.
\<close>

datatype claimer = Idle | Incremented coprocessor_claim | Refused coprocessor_claim | Held coprocessor_claim

datatype manager_pc =
    Resting
  | Marked u32 coprocessor_uart_mode       \<comment> \<open>the intent bits are up, no claim read yet\<close>
  | Apply_read u32 coprocessor_uart_mode   \<comment> \<open>no apply was claimed; the scans are read next\<close>
  | Backing_off u32                        \<comment> \<open>a claim was found; the bits come down next\<close>
  | Proceeding u32 coprocessor_uart_mode   \<comment> \<open>the switch or the pulse is under way\<close>
  | Settling coprocessor_uart_mode         \<comment> \<open>the new mode's bit is up; the others come down next\<close>

record exclusion =
  x_bits :: u32
  x_claims :: "coprocessor_claim \<Rightarrow> int"
  x_mode :: coprocessor_uart_mode
  x_pc :: manager_pc
  x_threads :: "claimer list"

definition count_claim :: "coprocessor_claim \<Rightarrow> int \<Rightarrow> exclusion \<Rightarrow> exclusion" where
  "count_claim k d s = s\<lparr>x_claims := (x_claims s)(k := x_claims s k + d)\<rparr>"

definition thread_to :: "nat \<Rightarrow> claimer \<Rightarrow> exclusion \<Rightarrow> exclusion" where
  "thread_to i c s = s\<lparr>x_threads := (x_threads s)[i := c]\<rparr>"

abbreviation thread_is :: "exclusion \<Rightarrow> nat \<Rightarrow> claimer \<Rightarrow> bool" where
  "thread_is s i c \<equiv> i < length (x_threads s) \<and> x_threads s ! i = c"

inductive exclusion_step :: "exclusion \<Rightarrow> exclusion \<Rightarrow> bool" where
  claim_inc: "thread_is s i Idle \<Longrightarrow> k \<noteq> COPROCESSOR_CLAIM_OTHER \<Longrightarrow>
     exclusion_step s (thread_to i (Incremented k) (count_claim k 1 s))"
| claim_refused: "thread_is s i (Incremented k) \<Longrightarrow> x_bits s AND claim_excluded k \<noteq> 0 \<Longrightarrow>
     exclusion_step s (thread_to i (Refused k) s)"
| claim_granted: "thread_is s i (Incremented k) \<Longrightarrow> x_bits s AND claim_excluded k = 0 \<Longrightarrow>
     exclusion_step s (thread_to i (Held k) s)"
| claim_undo: "thread_is s i (Refused k) \<Longrightarrow>
     exclusion_step s (thread_to i Idle (count_claim k (- 1) s))"
| release: "thread_is s i (Held k) \<Longrightarrow>
     exclusion_step s (thread_to i Idle (count_claim k (- 1) s))"
| mark_switch: "x_pc s = Resting \<Longrightarrow> target \<noteq> x_mode s \<Longrightarrow>
     {x_mode s, target} \<noteq> {COPROCESSOR_UART_USB_BRIDGE, COPROCESSOR_UART_FLASHING} \<Longrightarrow> mode_bit target \<noteq> 0 \<Longrightarrow>
     exclusion_step s (s\<lparr>x_bits := x_bits s OR mode_bit target, x_pc := Marked (mode_bit target) target\<rparr>)"
| switch_to_console: "x_pc s = Resting \<Longrightarrow> x_mode s \<noteq> COPROCESSOR_UART_CONSOLE \<Longrightarrow>
     exclusion_step s (s\<lparr>x_pc := Proceeding 0 COPROCESSOR_UART_CONSOLE\<rparr>)"
| mark_reset: "x_pc s = Resting \<Longrightarrow> x_mode s \<noteq> COPROCESSOR_UART_FLASHING \<Longrightarrow>
     exclusion_step s (s\<lparr>x_bits := x_bits s OR EX_RESET, x_pc := Marked EX_RESET (x_mode s)\<rparr>)"
| apply_found: "x_pc s = Marked b target \<Longrightarrow> apply_blocks b (x_claims s COPROCESSOR_CLAIM_NETWORK_APPLY) \<Longrightarrow>
     exclusion_step s (s\<lparr>x_pc := Backing_off b\<rparr>)"
| apply_clear: "x_pc s = Marked b target \<Longrightarrow> \<not> apply_blocks b (x_claims s COPROCESSOR_CLAIM_NETWORK_APPLY) \<Longrightarrow>
     exclusion_step s (s\<lparr>x_pc := Apply_read b target\<rparr>)"
| scan_found: "x_pc s = Apply_read b target \<Longrightarrow> scan_blocks b (x_claims s COPROCESSOR_CLAIM_WIFI_SCAN) \<Longrightarrow>
     exclusion_step s (s\<lparr>x_pc := Backing_off b\<rparr>)"
| scan_clear: "x_pc s = Apply_read b target \<Longrightarrow> \<not> scan_blocks b (x_claims s COPROCESSOR_CLAIM_WIFI_SCAN) \<Longrightarrow>
     exclusion_step s (s\<lparr>x_pc := Proceeding b target\<rparr>)"
| back_off: "x_pc s = Backing_off b \<Longrightarrow>
     exclusion_step s (s\<lparr>x_bits := x_bits s AND NOT b, x_pc := Resting\<rparr>)"
| reset_done: "x_pc s = Proceeding EX_RESET target \<Longrightarrow>
     exclusion_step s (s\<lparr>x_bits := x_bits s AND NOT EX_RESET, x_pc := Resting\<rparr>)"
| settle_up: "x_pc s = Proceeding b target \<Longrightarrow> b \<noteq> EX_RESET \<Longrightarrow>
     mode \<in> {target, x_mode s, COPROCESSOR_UART_UNAVAILABLE} \<Longrightarrow>
     exclusion_step s (s\<lparr>x_mode := mode, x_pc := Settling mode,
       x_bits := (if mode_bit mode \<noteq> 0 then x_bits s OR mode_bit mode else x_bits s)\<rparr>)"
| settle_down: "x_pc s = Settling mode \<Longrightarrow>
     exclusion_step s (s\<lparr>x_pc := Resting,
       x_bits := x_bits s AND NOT ((EX_BRIDGE OR EX_FLASHING) AND NOT (mode_bit mode))\<rparr>)"

text \<open>The bits of the activities that are past their check.\<close>

definition active_bits :: "exclusion \<Rightarrow> u32" where
  "active_bits s = mode_bit (x_mode s) OR (case x_pc s of Proceeding b t \<Rightarrow> b | _ \<Rightarrow> 0)"

fun counted :: "coprocessor_claim \<Rightarrow> claimer \<Rightarrow> bool" where
  "counted k Idle = False"
| "counted k (Incremented j) = (j = k)"
| "counted k (Refused j) = (j = k)"
| "counted k (Held j) = (j = k)"

definition claim_in_hand :: "exclusion \<Rightarrow> coprocessor_claim \<Rightarrow> bool" where
  "claim_in_hand s k \<longleftrightarrow> Held k \<in> set (x_threads s)"

definition pending_ok :: "exclusion \<Rightarrow> u32 \<Rightarrow> coprocessor_uart_mode \<Rightarrow> bool" where
  "pending_ok s b t \<longleftrightarrow> x_bits s = mode_bit (x_mode s) OR b \<and>
     ((b = EX_RESET \<and> t = x_mode s \<and> x_mode s \<noteq> COPROCESSOR_UART_FLASHING) \<or>
      (b = mode_bit t \<and> (b \<noteq> 0 \<longrightarrow> mode_bit (x_mode s) = 0)))"

definition exclusion_inv :: "exclusion \<Rightarrow> bool" where
  "exclusion_inv s \<longleftrightarrow>
     (\<forall>k. x_claims s k = int (length (filter (counted k) (x_threads s)))) \<and>
     (\<forall>k. claim_in_hand s k \<longrightarrow> k \<noteq> COPROCESSOR_CLAIM_OTHER \<and> active_bits s AND claim_excluded k = 0) \<and>
     (\<forall>c \<in> set (x_threads s). \<not> counted COPROCESSOR_CLAIM_OTHER c) \<and>
     (case x_pc s of
        Resting \<Rightarrow> x_bits s = mode_bit (x_mode s)
      | Marked b t \<Rightarrow> pending_ok s b t \<and> b \<noteq> 0
      | Apply_read b t \<Rightarrow> pending_ok s b t \<and> b \<noteq> 0 \<and> \<not> claim_in_hand s COPROCESSOR_CLAIM_NETWORK_APPLY
      | Backing_off b \<Rightarrow> (\<exists>t. pending_ok s b t \<and> b \<noteq> 0)
      | Proceeding b t \<Rightarrow> pending_ok s b t
      | Settling m \<Rightarrow> m = x_mode s \<and>
          x_bits s AND NOT ((EX_BRIDGE OR EX_FLASHING) AND NOT (mode_bit m)) = mode_bit m)"

definition exclusion_start :: "nat \<Rightarrow> exclusion" where
  "exclusion_start n = \<lparr>x_bits = 0, x_claims = (\<lambda>_. 0), x_mode = COPROCESSOR_UART_CONSOLE,
     x_pc = Resting, x_threads = replicate n Idle\<rparr>"

lemma length_filter_update:
  "i < length xs \<Longrightarrow> int (length (filter P (xs[i := c]))) =
     int (length (filter P xs)) - (if P (xs ! i) then 1 else 0) + (if P c then 1 else 0)"
proof (induction xs arbitrary: i)
  case Nil
  then show ?case by simp
next
  case (Cons x xs)
  show ?case
  proof (cases i)
    case 0
    then show ?thesis by simp
  next
    case (Suc j)
    with Cons.IH [of j] Cons.prems show ?thesis by (cases "P (xs ! j)"; cases "P c") simp_all
  qed
qed

lemma or_and_zero: "(a OR b) AND (e :: u32) = 0 \<longleftrightarrow> a AND e = 0 \<and> b AND e = 0"
  by (auto simp: bit_eq_iff bit_simps)

lemma and_and_zero: "(a :: u32) AND e = 0 \<Longrightarrow> (a AND b) AND e = 0"
  by (auto simp: bit_eq_iff bit_simps)

lemma thread_simps [simp]:
  "x_bits (thread_to i c s) = x_bits s" "x_mode (thread_to i c s) = x_mode s" "x_pc (thread_to i c s) = x_pc s"
  "x_claims (thread_to i c s) = x_claims s" "x_threads (thread_to i c s) = (x_threads s)[i := c]"
  "x_bits (count_claim k d s) = x_bits s" "x_mode (count_claim k d s) = x_mode s"
  "x_pc (count_claim k d s) = x_pc s" "x_threads (count_claim k d s) = x_threads s"
  "x_claims (count_claim k d s) = (x_claims s)(k := x_claims s k + d)"
  by (simp_all add: thread_to_def count_claim_def)

lemma holds_counted:
  assumes "exclusion_inv s" "claim_in_hand s k"
  shows "0 < x_claims s k"
proof -
  from assms(2) have "filter (counted k) (x_threads s) \<noteq> []"
    by (force simp: claim_in_hand_def filter_empty_conv)
  with assms(1) show ?thesis by (simp add: exclusion_inv_def)
qed

lemma bits_cover:
  assumes "exclusion_inv s" "x_bits s AND e = 0"
  shows "active_bits s AND e = 0"
proof (cases "x_pc s")
  case (Settling m)
  from assms(1) [unfolded exclusion_inv_def Settling manager_pc.case]
  have "m = x_mode s" "x_bits s AND NOT ((EX_BRIDGE OR EX_FLASHING) AND NOT (mode_bit m)) = mode_bit m"
    by blast+
  then have "mode_bit (x_mode s) = x_bits s AND NOT ((EX_BRIDGE OR EX_FLASHING) AND NOT (mode_bit m))"
    by simp
  then have "mode_bit (x_mode s) AND e = 0" using and_and_zero [OF assms(2)] by metis
  with Settling show ?thesis by (simp add: active_bits_def)
qed (use assms in \<open>auto simp: exclusion_inv_def active_bits_def pending_ok_def or_and_zero\<close>)

text \<open>A network thread's step changes one thread, and the claims with it.\<close>

lemma thread_step_inv:
  assumes inv: "exclusion_inv s" and i: "i < length (x_threads s)"
    and cl: "\<And>k. x_claims s' k = x_claims s k - (if counted k (x_threads s ! i) then 1 else 0) +
      (if counted k c then 1 else 0)"
    and same: "x_bits s' = x_bits s" "x_mode s' = x_mode s" "x_pc s' = x_pc s"
    and th: "x_threads s' = (x_threads s)[i := c]" and ok: "\<not> counted COPROCESSOR_CLAIM_OTHER c"
    and held: "\<And>k. c = Held k \<Longrightarrow> x_bits s AND claim_excluded k = 0"
  shows "exclusion_inv s'"
proof -
  have h: "claim_in_hand s' k \<Longrightarrow> claim_in_hand s k \<or> c = Held k" for k
    using th by (auto simp: claim_in_hand_def dest: set_update_subset_insert [THEN subsetD])
  have act: "active_bits s' = active_bits s" by (simp add: active_bits_def same)
  have pend: "pending_ok s' b t = pending_ok s b t" for b t by (simp add: pending_ok_def same)
  have na: "\<not> claim_in_hand s' COPROCESSOR_CLAIM_NETWORK_APPLY"
    if "\<not> claim_in_hand s COPROCESSOR_CLAIM_NETWORK_APPLY" "x_pc s = Apply_read b t" for b t
  proof
    assume "claim_in_hand s' COPROCESSOR_CLAIM_NETWORK_APPLY"
    with h that have "c = Held COPROCESSOR_CLAIM_NETWORK_APPLY" by blast
    then have "x_bits s AND claim_excluded COPROCESSOR_CLAIM_NETWORK_APPLY = 0" by (rule held)
    moreover have "x_bits s = mode_bit (x_mode s) OR b" "b \<noteq> 0" "b = EX_RESET \<or> b = mode_bit t"
      using inv that(2) by (auto simp: exclusion_inv_def pending_ok_def)
    ultimately show False by (cases t) (auto simp: or_and_zero bits)
  qed
  have "\<forall>k. x_claims s' k = int (length (filter (counted k) (x_threads s')))"
    using inv by (simp add: cl th length_filter_update [OF i] exclusion_inv_def)
  moreover have "k \<noteq> COPROCESSOR_CLAIM_OTHER \<and> active_bits s' AND claim_excluded k = 0" if "claim_in_hand s' k" for k
    using h [OF that] inv ok held bits_cover [OF inv] by (auto simp: act exclusion_inv_def)
  moreover have "\<forall>c' \<in> set (x_threads s'). \<not> counted COPROCESSOR_CLAIM_OTHER c'"
    using inv ok by (auto simp: th exclusion_inv_def dest!: set_update_subset_insert [THEN subsetD])
  ultimately show ?thesis
    using inv na by (auto simp: exclusion_inv_def same pend split: manager_pc.splits)
qed


lemma pending_values:
  "pending_ok s b t \<Longrightarrow> x_bits s \<in> {mode_bit (x_mode s), mode_bit (x_mode s) OR b} \<and>
     (b \<noteq> EX_RESET \<longrightarrow> x_bits s AND EX_RESET = 0)"
  by (cases t; cases "x_mode s") (auto simp: pending_ok_def bits)

lemma settle_value:
  assumes "pending_ok s b t" "b \<noteq> EX_RESET"
  shows "(if mode_bit mode \<noteq> 0 then x_bits s OR mode_bit mode else x_bits s) AND
    NOT ((EX_BRIDGE OR EX_FLASHING) AND NOT (mode_bit mode)) = mode_bit mode"
  using assms
  by (cases t; cases "x_mode s"; cases mode) (auto simp: pending_ok_def bits)

lemma back_off_value: "pending_ok s b t \<Longrightarrow> b \<noteq> 0 \<Longrightarrow> x_bits s AND NOT b = mode_bit (x_mode s)"
  by (cases t; cases "x_mode s") (auto simp: pending_ok_def bits)

lemma scan_excludes_flashing_only:
  "claim_excluded COPROCESSOR_CLAIM_WIFI_SCAN = EX_FLASHING"
  "claim_excluded COPROCESSOR_CLAIM_NETWORK_APPLY = EX_BRIDGE OR EX_FLASHING OR EX_RESET" by simp_all

text \<open>A step of the thread that holds the mutex leaves the threads and the claims alone.\<close>

lemma manager_step_inv:
  assumes inv: "exclusion_inv s" and th: "x_threads s' = x_threads s" and cl: "x_claims s' = x_claims s"
    and act: "\<And>k. claim_in_hand s k \<Longrightarrow> active_bits s AND claim_excluded k = 0 \<Longrightarrow> active_bits s' AND claim_excluded k = 0"
    and pc: "case x_pc s' of
        Resting \<Rightarrow> x_bits s' = mode_bit (x_mode s')
      | Marked b t \<Rightarrow> pending_ok s' b t \<and> b \<noteq> 0
      | Apply_read b t \<Rightarrow> pending_ok s' b t \<and> b \<noteq> 0 \<and> \<not> claim_in_hand s COPROCESSOR_CLAIM_NETWORK_APPLY
      | Backing_off b \<Rightarrow> (\<exists>t. pending_ok s' b t \<and> b \<noteq> 0)
      | Proceeding b t \<Rightarrow> pending_ok s' b t
      | Settling m \<Rightarrow> m = x_mode s' \<and>
          x_bits s' AND NOT ((EX_BRIDGE OR EX_FLASHING) AND NOT (mode_bit m)) = mode_bit m"
  shows "exclusion_inv s'"
proof -
  have h: "claim_in_hand s' = claim_in_hand s" by (simp add: claim_in_hand_def th fun_eq_iff)
  have "\<forall>k. claim_in_hand s k \<longrightarrow> k \<noteq> COPROCESSOR_CLAIM_OTHER \<and> active_bits s' AND claim_excluded k = 0"
    using inv act by (simp add: exclusion_inv_def)
  with inv pc show ?thesis unfolding exclusion_inv_def h th cl by blast
qed

lemma exclusion_step_inv: "exclusion_step s s' \<Longrightarrow> exclusion_inv s \<Longrightarrow> exclusion_inv s'"
proof (induction rule: exclusion_step.induct)
  case (claim_inc s i k)
  then show ?case by - (rule thread_step_inv [where s = s and i = i and c = "Incremented k"], simp_all)
next
  case (claim_refused s i k)
  then have "k \<noteq> COPROCESSOR_CLAIM_OTHER" by (force simp: exclusion_inv_def in_set_conv_nth)
  with claim_refused show ?case
    by - (rule thread_step_inv [where s = s and i = i and c = "Refused k"], simp_all)
next
  case (claim_granted s i k)
  then have "k \<noteq> COPROCESSOR_CLAIM_OTHER" by (force simp: exclusion_inv_def in_set_conv_nth)
  with claim_granted show ?case
    by - (rule thread_step_inv [where s = s and i = i and c = "Held k"], simp_all)
next
  case (claim_undo s i k)
  then show ?case by - (rule thread_step_inv [where s = s and i = i and c = Idle], simp_all)
next
  case (release s i k)
  then show ?case by - (rule thread_step_inv [where s = s and i = i and c = Idle], simp_all)
next
  case (mark_switch s target)
  have "mode_bit (x_mode s) = 0"
    using mark_switch.hyps by (cases "x_mode s"; cases target) auto
  with mark_switch show ?case
    by - (rule manager_step_inv [where s = s],
      (auto simp: active_bits_def pending_ok_def exclusion_inv_def))
next
  case (switch_to_console s)
  then show ?case
    by - (rule manager_step_inv [where s = s],
      (auto simp: active_bits_def pending_ok_def exclusion_inv_def))
next
  case (mark_reset s)
  then show ?case
    by - (rule manager_step_inv [where s = s],
      (auto simp: active_bits_def pending_ok_def exclusion_inv_def bits))
next
  case (apply_found s b target)
  then show ?case
    by - (rule manager_step_inv [where s = s],
      (auto simp: active_bits_def pending_ok_def exclusion_inv_def))
next
  case (apply_clear s b target)
  have "\<not> claim_in_hand s COPROCESSOR_CLAIM_NETWORK_APPLY"
  proof
    assume "claim_in_hand s COPROCESSOR_CLAIM_NETWORK_APPLY"
    from holds_counted [OF apply_clear.prems this] have "0 < x_claims s COPROCESSOR_CLAIM_NETWORK_APPLY" .
    moreover have "b = EX_RESET \<or> b = mode_bit target" "b \<noteq> 0"
      using apply_clear by (auto simp: exclusion_inv_def pending_ok_def)
    then have "b AND (EX_BRIDGE OR EX_FLASHING OR EX_RESET) \<noteq> 0" by (cases target) (auto simp: bits)
    ultimately show False using apply_clear.hyps(2) by (simp add: apply_blocks_def)
  qed
  with apply_clear show ?case
    by - (rule manager_step_inv [where s = s],
      (auto simp: active_bits_def pending_ok_def exclusion_inv_def))
next
  case (scan_found s b target)
  then show ?case
    by - (rule manager_step_inv [where s = s],
      (auto simp: active_bits_def pending_ok_def exclusion_inv_def))
next
  case (scan_clear s b target)
  have na: "\<not> claim_in_hand s COPROCESSOR_CLAIM_NETWORK_APPLY" and pend: "pending_ok s b target"
    using scan_clear by (auto simp: exclusion_inv_def)
  have "b AND claim_excluded k = 0" if "claim_in_hand s k" for k
  proof (cases k)
    case COPROCESSOR_CLAIM_WIFI_SCAN
    with holds_counted [OF scan_clear.prems that] scan_clear.hyps(2) show ?thesis
      by (auto simp: scan_blocks_def)
  qed (use that na scan_clear.prems in \<open>auto simp: exclusion_inv_def\<close>)
  with scan_clear pend show ?case
    by - (rule manager_step_inv [where s = s],
      (auto simp: active_bits_def pending_ok_def or_and_zero))
next
  case (back_off s b)
  then obtain t where "pending_ok s b t" "b \<noteq> 0" by (auto simp: exclusion_inv_def)
  from back_off_value [OF this] back_off show ?case
    by - (rule manager_step_inv [where s = s],
      (auto simp: active_bits_def))
next
  case (reset_done s target)
  then have "pending_ok s EX_RESET target" by (auto simp: exclusion_inv_def)
  from back_off_value [OF this] reset_done show ?case
    by - (rule manager_step_inv [where s = s],
      (auto simp: active_bits_def or_and_zero bits))
next
  case (settle_up s b target mode)
  then have pend: "pending_ok s b target" by (auto simp: exclusion_inv_def)
  have b: "b = mode_bit target" using pend settle_up.hyps(2) by (simp add: pending_ok_def)
  have a: "active_bits s = mode_bit (x_mode s) OR b" using settle_up.hyps(1) by (simp add: active_bits_def)
  have "mode_bit mode AND claim_excluded k = 0" if "active_bits s AND claim_excluded k = 0" for k
    using that settle_up.hyps(3) b unfolding a or_and_zero by auto
  with settle_up settle_value [OF pend settle_up.hyps(2), of mode] show ?case
    by - (rule manager_step_inv [where s = s],
      (auto simp: active_bits_def))
next
  case (settle_down s mode)
  from settle_down.prems [unfolded exclusion_inv_def settle_down.hyps manager_pc.case]
  have "mode = x_mode s" "x_bits s AND NOT ((EX_BRIDGE OR EX_FLASHING) AND NOT (mode_bit mode)) = mode_bit mode"
    by blast+
  with settle_down show ?case
    by - (rule manager_step_inv [where s = s],
      (auto simp: active_bits_def))
qed

lemma exclusion_start_inv: "exclusion_inv (exclusion_start n)"
  by (auto simp: exclusion_inv_def exclusion_start_def claim_in_hand_def filter_replicate)

lemma exclusion_reachable: "exclusion_step\<^sup>*\<^sup>* (exclusion_start n) s \<Longrightarrow> exclusion_inv s"
  by (induction rule: rtranclp_induct) (blast intro: exclusion_start_inv exclusion_step_inv)+

lemma split_after:
  assumes "xs @ ys = pre @ e # post" "e \<notin> set xs"
  obtains ys1 where "pre = xs @ ys1" "ys = ys1 @ e # post"
proof -
  from assms(1) consider us where "xs = pre @ us" "us @ ys = e # post" | us where "pre = xs @ us" "ys = us @ e # post"
    by (auto simp: append_eq_append_conv2)
  then show ?thesis
  proof cases
    case (1 us)
    then show ?thesis
    proof (cases us)
      case Nil
      with 1 that [of "[]"] show ?thesis by simp
    next
      case (Cons u us')
      with 1 assms(2) show ?thesis by auto
    qed
  next
    case (2 us)
    with that show ?thesis by blast
  qed
qed

lemma stop_events_no_attach: "stop_events b es \<Longrightarrow> Ev_attach owner rc \<notin> set es"
  unfolding stop_events_def by (metis is_look.simps(4) plat_event.distinct(1) set_ConsD)

lemma stop_events_quiet: "stop_events True es \<Longrightarrow> Ev_detach None \<in> set es \<and> stood_still QUIET_SAMPLES (rx_values es)"
  unfolding stop_events_def by auto

lemma handover_values [simp]: "rx_values (handover owner g rc) = []" "sleeps (handover owner g rc) = []"
  by (cases "(owner, g, rc)" rule: handover.cases; simp add: sleeps_def)+

lemma paused_values [simp]: "rx_values (paused_event old target g) = []" "sleeps (paused_event old target g) = []"
  by (simp_all add: paused_event_def sleeps_def)

lemma set_mode_switch_trace:
  assumes inv: "coprocessor_inv m" and p: "cm_plat m = Some (traced plat)"
    and r: "coprocessor_manager_set_mode mode m = (rc, m')"
  shows "m' = m \<or> (\<exists>es. tr m' = tr m @ es \<and> switch_events (mode_of m) mode (cs_generation (cm_st m)) rc es)"
  using inv r
proof (cases rule: set_mode_cases)
  case (switched plat' m1 m2)
  then have pl: "plat' = traced plat" using p by simp
  from switch_locked_trace [of plat mode m1 rc m2] switched pl
  obtain es where "tr m2 = tr m1 @ es" "switch_events (mode_of m1) mode (cs_generation (cm_st m1)) rc es" by auto
  with finish_switch_simps [OF switched(8)] switched(6) show ?thesis by auto
qed auto

lemma rx_tail: "rx_values (ys1 @ e # post) = [] \<Longrightarrow> rx_values ys1 = []"
  by simp

lemma new_owner_after_stop:
  assumes "switch_events old target g rc es" "es = pre @ Ev_attach owner r # post" "owner \<noteq> old"
  shows "Ev_detach None \<in> set pre \<and> stood_still QUIET_SAMPLES (rx_values pre)"
proof -
  have stop: ?thesis
    if st: "stop_events True st" and eq: "es = st @ more" and no_rx: "rx_values more = []" for st more
  proof -
    obtain ys1 where "pre = st @ ys1" "more = ys1 @ Ev_attach owner r # post"
      using split_after [of st more pre "Ev_attach owner r" post] st eq assms(2) stop_events_no_attach by metis
    with no_rx stop_events_quiet [OF st] show ?thesis by simp
  qed
  from assms(1) show ?thesis
  proof (cases rule: switch_events.cases)
    case (handed st)
    show ?thesis by (rule stop [OF handed(3,2)]) simp
  next
    case (put_back st rc' rc'')
    show ?thesis by (rule stop [OF put_back(3,2)]) simp
  next
    case (not_stopped st es' rc')
    have "Ev_attach owner r \<in> set es" by (simp add: assms(2))
    with not_stopped stop_events_no_attach [OF not_stopped(3)] assms(3) show ?thesis by auto
  qed
qed

lemma sleeps_not_in: "set es \<subseteq> {Ev_attach a b, Ev_marker c d e} \<Longrightarrow> sleeps es = []"
  by (induction es) (auto simp: sleeps_def)

lemma stop_sleeps:
  "stop_events b es \<Longrightarrow> length (sleeps es) \<le> max_looks \<and> set (sleeps es) \<subseteq> {CONFIG_RX_QUIET_STEP_MS}"
  unfolding stop_events_def by (auto simp: sleeps_def)

lemma sum_list_const_bound: "set xs \<subseteq> {c :: nat} \<Longrightarrow> sum_list xs = length xs * c"
  by (induction xs) auto

lemma switch_sleeps:
  assumes "switch_events old target g rc es"
  shows "sum_list (sleeps es) \<le> max_looks * CONFIG_RX_QUIET_STEP_MS"
proof -
  have "sum_list (sleeps st) \<le> max_looks * CONFIG_RX_QUIET_STEP_MS" if "stop_events b st" for b st
    using stop_sleeps [OF that] sum_list_const_bound [of "sleeps st"] by (metis mult_le_mono1)
  with assms show ?thesis
    by (cases rule: switch_events.cases) (auto simp: sleeps_not_in)
qed

section \<open>Generations\<close>

definition reset_gens :: "plat_event list \<Rightarrow> u32 list" where
  "reset_gens es = concat (map (\<lambda>e. case e of
     Ev_marker LOG_STORE_KIND_RESET g t \<Rightarrow> [g] | _ \<Rightarrow> []) es)"

abbreviation gen_of :: "'p coprocessor_manager \<Rightarrow> u32" where
  "gen_of m \<equiv> cs_generation (cm_st m)"

text \<open>From \<open>m\<close> to \<open>m'\<close> some generations began, and each was announced, in order.\<close>

definition announces :: "'p traced_state coprocessor_manager \<Rightarrow> 'p traced_state coprocessor_manager \<Rightarrow> bool" where
  "announces m m' \<longleftrightarrow> (\<exists>n. reset_gens (tr m') = reset_gens (tr m) @ map (\<lambda>i. gen_of m + 1 + of_nat i) [0..<n] \<and>
     gen_of m' = gen_of m + of_nat n)"

lemma announces_none: "reset_gens (tr m') = reset_gens (tr m) \<Longrightarrow> gen_of m' = gen_of m \<Longrightarrow> announces m m'"
  unfolding announces_def by (intro exI [of _ 0]) simp

lemma announces_one:
  "reset_gens (tr m') = reset_gens (tr m) @ [gen_of m + 1] \<Longrightarrow> gen_of m' = gen_of m + 1 \<Longrightarrow> announces m m'"
  unfolding announces_def by (intro exI [of _ 1]) simp

lemma announces_trans:
  assumes "announces a b" "announces b c"
  shows "announces a c"
proof -
  from assms obtain n k where
    n: "reset_gens (tr b) = reset_gens (tr a) @ map (\<lambda>i. gen_of a + 1 + of_nat i) [0..<n]" "gen_of b = gen_of a + of_nat n" and
    k: "reset_gens (tr c) = reset_gens (tr b) @ map (\<lambda>i. gen_of b + 1 + of_nat i) [0..<k]" "gen_of c = gen_of b + of_nat k"
    unfolding announces_def by blast
  let ?f = "\<lambda>i. gen_of a + 1 + (of_nat i :: u32)"
  have "map ?f [0..<n + k] = map ?f [0..<n] @ map ?f (map (\<lambda>i. i + n) [0..<k])"
    by (simp only: map_append [symmetric] map_add_upt upt_add_eq_append [of 0 n k] le0)
      (simp add: add.commute)
  also have "map ?f (map (\<lambda>i. i + n) [0..<k]) = map (\<lambda>i. gen_of b + 1 + of_nat i) [0..<k]"
    by (simp add: n(2) add.assoc add.left_commute add.commute)
  finally show ?thesis
    using n k unfolding announces_def by (intro exI [of _ "n + k"]) (simp add: add.assoc)
qed

lemma reset_gens_append [simp]: "reset_gens (xs @ ys) = reset_gens xs @ reset_gens ys"
  by (simp add: reset_gens_def)

lemma reset_gens_events [simp]:
  "reset_gens [] = []" "reset_gens [Ev_attach a b] = []" "reset_gens [Ev_marker LOG_STORE_KIND_PAUSED g t] = []"
  "reset_gens [Ev_marker LOG_STORE_KIND_RESET g t] = [g]" "reset_gens [Ev_now i] = []" "reset_gens [Ev_reset d rc] = []"
  "reset_gens (Ev_marker LOG_STORE_KIND_RESET g t # es) = g # reset_gens es"
  "reset_gens (Ev_attach a b # es) = reset_gens es" "reset_gens (Ev_now i # es) = reset_gens es"
  "reset_gens (Ev_reset d rc # es) = reset_gens es"
  by (simp_all add: reset_gens_def)

lemma reset_gens_looks: "\<forall>e \<in> set es. is_look e \<Longrightarrow> reset_gens es = []"
proof (induction es)
  case (Cons e es)
  then show ?case by (cases e) (auto simp: reset_gens_def)
qed simp

lemma reset_gens_stop: "stop_events b es \<Longrightarrow> reset_gens es = []"
  using reset_gens_looks by (auto simp: stop_events_def) (auto simp: reset_gens_def)

lemma handover_announces:
  "reset_gens (handover owner g rc) = (if owner = COPROCESSOR_UART_CONSOLE then [g + 1] else [])"
  by (cases "(owner, g, rc)" rule: handover.cases) (auto simp: reset_gens_def)

lemma attach_locked_announces:
  assumes "attach_locked (traced plat) owner m = (rc, m')"
  shows "announces m m'"
proof -
  obtain rc' where "tr m' = tr m @ handover owner (gen_of m) rc'"
    "gen_of m' = gen_of m + (if owner = COPROCESSOR_UART_CONSOLE then 1 else 0)"
    using attach_locked_trace [OF assms] by metis
  then show ?thesis
    by (cases "owner = COPROCESSOR_UART_CONSOLE")
      (auto intro: announces_one announces_none simp: handover_announces)
qed

lemma stop_failed_announces: "announces m (stop_failed_locked (traced plat) old m)"
proof -
  obtain es' rc' where e: "tr (stop_failed_locked (traced plat) old m) = tr m @ es'"
    "set es' \<subseteq> {Ev_attach old rc', Ev_marker LOG_STORE_KIND_PAUSED (gen_of m)
       ''UART could not be given back to the log''}"
    "gen_of (stop_failed_locked (traced plat) old m) = gen_of m"
    by (rule stop_failed_trace)
  from e(2) have "reset_gens es' = []" by (induction es') (auto simp: reset_gens_def)
  with e show ?thesis by (intro announces_none) simp_all
qed

lemma switch_announces:
  assumes "switch_locked (traced plat) target m = (rc, m')"
  shows "announces m m'"
proof -
  obtain b m1 where s: "stop_locked (traced plat) m = (b, m1)" by fastforce
  obtain es1 where es1: "tr m1 = tr m @ es1" "stop_events b es1" "cm_st m1 = cm_st m"
    by (rule stop_locked_trace [OF s])
  then have a1: "announces m m1" by (intro announces_none) (simp_all add: reset_gens_stop)
  let ?m2 = "if mode_of m = COPROCESSOR_UART_CONSOLE
                  then marker_locked (traced plat) LOG_STORE_KIND_PAUSED (paused_text target) m1 else m1"
  have a2: "announces m ?m2"
    by (rule announces_trans [OF a1]) (auto intro: announces_none)
  obtain r3 m3 where a3: "attach_locked (traced plat) target ?m2 = (r3, m3)" by fastforce
  obtain r4 m4 where a4: "attach_locked (traced plat) (mode_of m) m3 = (r4, m4)" by fastforce
  have b3: "announces m m3" and b4: "announces m m4"
    using announces_trans a2 attach_locked_announces a3 a4 by metis+
  have same: "announces m x \<Longrightarrow> tr y = tr x \<Longrightarrow> gen_of y = gen_of x \<Longrightarrow> announces m y" for x y
    by (simp add: announces_def)
  show ?thesis
  proof (cases b)
    case False
    with assms s announces_trans [OF a1 stop_failed_announces] show ?thesis
      by (auto simp: switch_locked_def)
  next
    case True
    have "tr m' = tr m3 \<and> gen_of m' = gen_of m3 \<or> tr m' = tr m4 \<and> gen_of m' = gen_of m4"
      using assms s True a3 a4
      by (cases r3; cases r4) (auto simp: switch_locked_def Let_def set_uart_mode_def)
    with same b3 b4 show ?thesis by metis
  qed
qed

lemma set_mode_announces:
  assumes "coprocessor_inv m" "cm_plat m = Some (traced plat)"
  shows "announces m (snd (coprocessor_manager_set_mode mode m))"
proof -
  obtain rc m' where r: "coprocessor_manager_set_mode mode m = (rc, m')" by fastforce
  from assms(1) r have "announces m m'"
  proof (cases rule: set_mode_cases)
    case (switched plat' m1 m2)
    have "plat' = traced plat" using switched(1) assms(2) by simp
    from switch_announces [OF switched(7) [unfolded this]] have "announces m1 m2" .
    with switched(6) finish_switch_simps [OF switched(8)] show ?thesis by (simp add: announces_def)
  qed (auto intro: announces_none)
  with r show ?thesis by simp
qed

lemma reset_announces:
  assumes "cm_plat m = Some (traced plat)"
  shows "announces m (snd (coprocessor_manager_reset d m))"
proof -
  obtain w es where ctx: "cm_ctx m = (w, es)" by fastforce
  obtain rc w1 where r: "cp_c6_reset (traced plat) d (w, es) = (rc, w1, es @ [Ev_reset d rc])" by (rule traced_reset)
  obtain t w2 where n: "cp_now_ms (traced plat) (w1, es @ [Ev_reset d rc]) = (t, w2, (es @ [Ev_reset d rc]) @ [Ev_now t])"
    by (rule traced_now)
  show ?thesis
  proof (cases "rc = None \<and> cs_uart_mode (cm_st m) \<noteq> COPROCESSOR_UART_FLASHING \<and> \<not> claimed_against EX_RESET (cm_claims m)")
    case True
    with assms ctx r n show ?thesis
      by (intro announces_one)
        (simp_all add: coprocessor_manager_reset_def Let_def publish_locked_def marker_locked_def bump_generation_def)
  next
    case False
    with assms ctx r n show ?thesis
      by (intro announces_none)
        (auto simp: coprocessor_manager_reset_def Let_def publish_locked_def marker_locked_def bump_generation_def)
  qed
qed

lemma note_banner_announces:
  assumes "cm_plat m = Some (traced plat)"
  shows "announces m (coprocessor_manager_note_banner free m)"
proof -
  obtain w es where ctx: "cm_ctx m = (w, es)" by fastforce
  obtain t w2 where n: "cp_now_ms (traced plat) (w, es) = (t, w2, es @ [Ev_now t])" by (rule traced_now)
  show ?thesis
  proof (cases "free \<and> CONFIG_RESET_WINDOW_MS \<le> t - cm_reset_at_ms m")
    case True
    with assms ctx n show ?thesis
      by (intro announces_one)
        (simp_all add: coprocessor_manager_note_banner_def Let_def publish_locked_def marker_locked_def bump_generation_def)
  next
    case False
    with assms ctx n show ?thesis
      by (intro announces_none) (auto simp: coprocessor_manager_note_banner_def Let_def)
  qed
qed

lemma coprocessor_step_announces:
  assumes "coprocessor_inv m" "cm_plat m = Some (traced plat)"
  shows "announces m (coprocessor_step x m)"
proof (cases x)
  case (Op_set_mode mode)
  with set_mode_announces [OF assms] show ?thesis by simp
next
  case (Op_reset d)
  with reset_announces [OF assms(2)] show ?thesis by simp
next
  case (Op_note_banner free)
  with note_banner_announces [OF assms(2)] show ?thesis by simp
qed (auto intro!: announces_none simp: coprocessor_manager_claim_def coprocessor_manager_release_def Let_def)

lemma step_platform:
  assumes "coprocessor_inv m"
  shows "cm_plat (coprocessor_step x m) = cm_plat m"
proof (cases x)
  case (Op_set_mode mode)
  obtain rc m' where r: "coprocessor_manager_set_mode mode m = (rc, m')" by fastforce
  from assms r have "cm_plat m' = cm_plat m"
  proof (cases rule: set_mode_cases)
    case (switched plat' m1 m2)
    with finish_switch_simps [OF switched(8)] switch_locked_result(1) [OF switched(7)] show ?thesis
      by (simp add: same_frame_def)
  qed simp_all
  with r Op_set_mode show ?thesis by simp
next
  case (Op_reset d)
  then show ?thesis
    by (auto simp: coprocessor_manager_reset_def Let_def publish_locked_def marker_locked_def bump_generation_def
        split: option.split prod.split)
next
  case (Op_note_banner free)
  then show ?thesis
    by (auto simp: coprocessor_manager_note_banner_def Let_def publish_locked_def marker_locked_def
        bump_generation_def split: option.split prod.split)
qed (auto simp: coprocessor_manager_claim_def coprocessor_manager_release_def Let_def)

lemma run_announces:
  "coprocessor_inv m \<Longrightarrow> cm_plat m = Some (traced plat) \<Longrightarrow> announces m (run_ops coprocessor_step xs m)"
proof (induction xs arbitrary: m)
  case Nil
  then show ?case by (auto intro: announces_none)
next
  case (Cons x xs)
  have "announces (coprocessor_step x m) (run_ops coprocessor_step xs (coprocessor_step x m))"
    using Cons.IH [OF coprocessor.inv_step [OF Cons.prems(1)]] step_platform [OF Cons.prems(1)] Cons.prems(2) by simp
  with announces_trans [OF coprocessor_step_announces [OF Cons.prems]] show ?case by simp
qed

lemma init_trace:
  assumes "tr m = []"
  shows "coprocessor_inv (snd (coprocessor_manager_init (Some (traced plat)) m)) \<and>
    cm_plat (snd (coprocessor_manager_init (Some (traced plat)) m)) = Some (traced plat) \<and>
    gen_of (snd (coprocessor_manager_init (Some (traced plat)) m)) = 1 \<and>
    reset_gens (tr (snd (coprocessor_manager_init (Some (traced plat)) m))) = []"
proof -
  obtain w where ctx: "cm_ctx m = (w, [])" using assms by (metis prod.collapse)
  obtain t w2 where n: "cp_now_ms (traced plat) (w, []) = (t, w2, [] @ [Ev_now t])" by (rule traced_now)
  obtain rc w3 where a: "cp_uart_attach (traced plat) COPROCESSOR_UART_CONSOLE (w2, [Ev_now t]) =
      (rc, w3, [Ev_now t] @ [Ev_attach COPROCESSOR_UART_CONSOLE rc])" by (rule traced_attach)
  have "cm_plat (snd (coprocessor_manager_init (Some (traced plat)) m)) = Some (traced plat) \<and>
    gen_of (snd (coprocessor_manager_init (Some (traced plat)) m)) = 1 \<and>
    tr (snd (coprocessor_manager_init (Some (traced plat)) m)) = [Ev_now t, Ev_attach COPROCESSOR_UART_CONSOLE rc]"
    using ctx n a
    by (simp add: coprocessor_manager_init_def uart_attach_def publish_locked_def Let_def zero_status_def)
  with init_inv show ?thesis by (simp add: reset_gens_def)
qed

section \<open>Properties\<close>

text \<open>C37: after initialisation and any calls, the exclusive bits say exactly what the UART mode is,
  readers see the working state, no claim count is negative, and no claim is held that the mode
  excludes.\<close>

theorem coprocessor_runs_keep_invariant:
  "coprocessor_inv (run_ops coprocessor_step xs (snd (coprocessor_manager_init (Some plat) m)))"
  by (rule coprocessor.inv_run [OF init_inv])

text \<open>C3: whatever the interleaving of one manager thread with any number of network threads, at
  the granularity of single atomic accesses, no granted claim coexists with an activity it
  excludes: neither an apply with a bridge, a flasher or a reset past its check, nor a scan with a
  flasher.\<close>

theorem claims_and_owners_exclude_each_other:
  assumes "exclusion_step\<^sup>*\<^sup>* (exclusion_start n) s" "Held k \<in> set (x_threads s)"
  shows "active_bits s AND claim_excluded k = 0"
  using exclusion_reachable [OF assms(1)] assms(2) by (auto simp: exclusion_inv_def claim_in_hand_def)

text \<open>every outcome of asking for a mode. Success means the mode; a refusal changes nothing, and
  is \<open>EBUSY\<close> exactly for another programmer or a claim the mode excludes; a failed switch
  leaves the old owner or nobody, and is remembered.\<close>

theorem set_mode_outcome:
  assumes "coprocessor_inv m" "coprocessor_manager_set_mode mode m = (rc, m')"
  shows "(rc = Some EINVAL \<longleftrightarrow> mode \<in> {COPROCESSOR_UART_UNAVAILABLE, COPROCESSOR_UART_OTHER}) \<and>
    (rc = Some EBUSY \<longleftrightarrow> mode \<notin> {COPROCESSOR_UART_UNAVAILABLE, COPROCESSOR_UART_OTHER} \<and> mode_of m \<noteq> mode \<and>
       ({mode_of m, mode} = {COPROCESSOR_UART_USB_BRIDGE, COPROCESSOR_UART_FLASHING} \<or>
        (\<exists>c. c \<noteq> COPROCESSOR_CLAIM_OTHER \<and> 0 < cm_claims m c \<and> mode_bit mode AND claim_excluded c \<noteq> 0))) \<and>
    (rc \<in> {Some EINVAL, Some EBUSY} \<longrightarrow> m' = m) \<and>
    (rc = None \<longrightarrow> mode_of m' = mode) \<and>
    (rc \<notin> {None, Some EINVAL, Some EBUSY} \<longrightarrow> rc \<in> {Some ETIMEDOUT, Some EIO} \<and>
       mode_of m' \<in> {mode_of m, COPROCESSOR_UART_UNAVAILABLE} \<and> cs_last_switch_error (cm_st m') = rc \<and>
       cs_switches (cm_st m') = cs_switches (cm_st m))"
  using assms
proof (cases rule: set_mode_cases)
  case (switched plat m1 m2)
  note fin = finish_switch_simps [OF switched(8)] and sw = switch_locked_result [OF switched(7)]
  show ?thesis
  proof (cases rc)
    case None
    with switched fin sw claimed_against_iff show ?thesis by auto
  next
    case (Some e)
    have "rc \<in> {Some ETIMEDOUT, Some EIO}" using sw(3) Some by auto
    with switched fin sw claimed_against_iff Some show ?thesis by auto
  qed
qed (use claimed_against_iff in auto)

text \<open>C22: the UART is never handed to a new owner before the old one was detached and the receive
  counter stood still for two intervals: on every platform, before the attach of anyone but the
  old owner come a successful detach and three equal readings.\<close>

theorem no_new_owner_before_quiet:
  assumes "coprocessor_inv m" "cm_plat m = Some (traced plat)"
    and "coprocessor_manager_set_mode mode m = (rc, m')" "tr m' = tr m @ es"
    and "es = pre @ Ev_attach owner r # post" "owner \<noteq> mode_of m"
  shows "Ev_detach None \<in> set pre \<and> stood_still QUIET_SAMPLES (rx_values pre)"
proof -
  from set_mode_switch_trace [OF assms(1-3)] assms(4,5)
  have "switch_events (mode_of m) mode (gen_of m) rc es" by auto
  from new_owner_after_stop [OF this assms(5,6)] show ?thesis .
qed

text \<open>C26: the log is told about a handover on the right side of it. Leaving the console, the pause
  is written after the stop and just before the new owner attaches; coming back, the reset that
  opens the new generation is written just before the console attaches.\<close>

theorem handover_markers_are_ordered:
  assumes "coprocessor_inv m" "cm_plat m = Some (traced plat)" "mode_of m \<noteq> mode"
    and "coprocessor_manager_set_mode mode m = (None, m')"
  shows "\<exists>stop. stop_events True stop \<and> tr m' = tr m @ stop @
    (if mode = COPROCESSOR_UART_CONSOLE
     then [Ev_marker LOG_STORE_KIND_RESET (gen_of m + 1) ''UART returned to the log'', Ev_attach mode None]
     else if mode_of m = COPROCESSOR_UART_CONSOLE
     then [Ev_marker LOG_STORE_KIND_PAUSED (gen_of m) (paused_text mode), Ev_attach mode None]
     else [Ev_attach mode None])"
proof -
  have v: "mode \<noteq> COPROCESSOR_UART_UNAVAILABLE" "mode \<noteq> COPROCESSOR_UART_OTHER"
    using assms(4) by (auto simp: coprocessor_manager_set_mode_def)
  have "m' \<noteq> m" using set_mode_outcome [OF assms(1,4)] assms(3) by auto
  with set_mode_switch_trace [OF assms(1,2,4)] obtain es where
    es: "tr m' = tr m @ es" "switch_events (mode_of m) mode (gen_of m) None es" by blast
  from es(2) obtain stop where "stop_events True stop"
    "es = stop @ paused_event (mode_of m) mode (gen_of m) @ handover mode (gen_of m) None"
    by (cases rule: switch_events.cases) auto
  with es(1) v assms(3) show ?thesis
    by (intro exI [of _ stop]) (cases mode; auto simp: paused_event_def reset_text_def)
qed

text \<open>a request for a mode sleeps at most 110 ms in all, whatever the UART and the clock do.\<close>

theorem set_mode_sleeps_bounded:
  assumes "coprocessor_inv m" "cm_plat m = Some (traced plat)"
    and "coprocessor_manager_set_mode mode m = (rc, m')" "tr m' = tr m @ es"
  shows "sum_list (sleeps es) \<le> 110"
  using set_mode_switch_trace [OF assms(1-3)]
proof
  assume "m' = m"
  with assms(4) show ?thesis by simp
next
  assume "\<exists>es. tr m' = tr m @ es \<and> switch_events (mode_of m) mode (gen_of m) rc es"
  with assms(4) have "switch_events (mode_of m) mode (gen_of m) rc es" by auto
  from switch_sleeps [OF this] show ?thesis
    by (simp add: max_looks_def CONFIG_RX_STOP_TIMEOUT_MS_def CONFIG_RX_QUIET_STEP_MS_def QUIET_SAMPLES_def)
qed

text \<open>every generation is announced exactly once and in order. The generations of the reset
  markers written since initialisation are 2, 3, 4 and so on, and the last of them is the current
  one.\<close>

theorem every_generation_is_announced:
  assumes "tr m = []"
    and "m' = run_ops coprocessor_step xs (snd (coprocessor_manager_init (Some (traced plat)) m))"
  shows "\<exists>n. reset_gens (tr m') = map (\<lambda>i. 2 + of_nat i) [0..<n] \<and> gen_of m' = 1 + of_nat n"
proof -
  let ?m0 = "snd (coprocessor_manager_init (Some (traced plat)) m)"
  note i = init_trace [OF assms(1), of plat]
  have "announces ?m0 m'" unfolding assms(2) by (rule run_announces) (use i in auto)
  then obtain n where "reset_gens (tr m') = reset_gens (tr ?m0) @ map (\<lambda>i. gen_of ?m0 + 1 + of_nat i) [0..<n]"
    "gen_of m' = gen_of ?m0 + of_nat n" unfolding announces_def by blast
  with i show ?thesis by (intro exI [of _ n]) simp
qed

text \<open>a switch that timed out need not leave the mode unchanged: when the old owner cannot be
  attached again, the UART is left to nobody.\<close>

theorem timed_out_switch_may_leave_nobody:
  assumes "coprocessor_inv m" "cm_plat m = Some plat" "mode_of m = COPROCESSOR_UART_CONSOLE"
    and "cm_claims m = (\<lambda>_. 0)"
    and "\<And>w. fst (cp_uart_detach plat w) \<noteq> None" "\<And>who w. fst (cp_uart_attach plat who w) \<noteq> None"
  shows "fst (coprocessor_manager_set_mode COPROCESSOR_UART_USB_BRIDGE m) = Some ETIMEDOUT \<and>
    mode_of (snd (coprocessor_manager_set_mode COPROCESSOR_UART_USB_BRIDGE m)) = COPROCESSOR_UART_UNAVAILABLE"
proof -
  let ?m1 = "m\<lparr>cm_exclusive := cm_exclusive m OR EX_BRIDGE\<rparr>"
  obtain e w where d: "cp_uart_detach plat (cm_ctx m) = (Some e, w)"
    using assms(5) [of "cm_ctx m"] by (cases "cp_uart_detach plat (cm_ctx m)") auto
  then have s: "stop_locked plat ?m1 = (False, ?m1\<lparr>cm_ctx := w\<rparr>)" by (simp add: stop_locked_def)
  have "mode_of (stop_failed_locked plat COPROCESSOR_UART_CONSOLE x) = COPROCESSOR_UART_UNAVAILABLE" for x
  proof -
    let ?x = "x\<lparr>cm_st := (cm_st x)\<lparr>cs_rx_stop_failures := cs_rx_stop_failures (cm_st x) + 1\<rparr>\<rparr>"
    obtain e2 w2 where "cp_uart_attach plat COPROCESSOR_UART_CONSOLE (cm_ctx ?x) = (Some e2, w2)"
      using assms(6) [of COPROCESSOR_UART_CONSOLE "cm_ctx ?x"]
      by (cases "cp_uart_attach plat COPROCESSOR_UART_CONSOLE (cm_ctx ?x)") auto
    then show ?thesis by (simp add: stop_failed_locked_def uart_attach_def Let_def)
  qed
  moreover have "EX_BRIDGE \<noteq> 0" "\<not> claimed_against EX_BRIDGE (\<lambda>_. 0)"
    by (simp_all add: bits claimed_against_def apply_blocks_def scan_blocks_def)
  ultimately show ?thesis
    using s assms(2-4)
    by (simp add: coprocessor_manager_set_mode_def switch_locked_def finish_switch_def publish_locked_def
        settle_bits_locked_def Let_def)
qed

section \<open>Witnesses\<close>

text \<open>A platform that does everything at once, and one that refuses everything.\<close>

definition calm :: "bool \<Rightarrow> unit coprocessor_platform" where
  "calm ok = \<lparr>cp_uart_attach = (\<lambda>_ w. (if ok then None else Some EIO, w)),
     cp_uart_detach = (\<lambda>w. (if ok then None else Some EIO, w)),
     cp_uart_rx_activity = (\<lambda>w. (7, w)), cp_c6_reset = (\<lambda>_ w. (None, w)), cp_transport_ready = None,
     cp_marker = (\<lambda>_ _ _ w. w), cp_now_ms = (\<lambda>w. (0, w)), cp_sleep_ms = (\<lambda>_ w. w)\<rparr>"

definition calm_start :: "unit traced_state coprocessor_manager" where
  "calm_start = snd (coprocessor_manager_init (Some (traced (calm True))) (coprocessor_statics ((), [])))"

lemma calm_start_inv: "coprocessor_inv calm_start"
  unfolding calm_start_def by (rule init_inv)

lemma calm_start_simps:
  "cm_plat calm_start = Some (traced (calm True))" "mode_of calm_start = COPROCESSOR_UART_CONSOLE"
  "cm_claims calm_start = (\<lambda>_. 0)" "gen_of calm_start = 1" "cm_exclusive calm_start = 0"
  "cm_ctx calm_start = ((), [Ev_now 0, Ev_attach COPROCESSOR_UART_CONSOLE None])"
  by (simp_all add: calm_start_def coprocessor_manager_init_def coprocessor_statics_def zero_status_def
      publish_locked_def uart_attach_def traced_def calm_def Let_def)

definition calm_events :: "plat_event list" where
  "calm_events = [Ev_detach None, Ev_now 0, Ev_rx 7, Ev_sleep 5, Ev_rx 7, Ev_now 0, Ev_sleep 5, Ev_rx 7,
     Ev_marker LOG_STORE_KIND_PAUSED 1 ''UART handed to the USB bridge'', Ev_attach COPROCESSOR_UART_USB_BRIDGE None]"

lemma calm_calls:
  "cp_uart_attach (traced (calm True)) owner ((), es) = (None, (), es @ [Ev_attach owner None])"
  "cp_uart_detach (traced (calm True)) ((), es) = (None, (), es @ [Ev_detach None])"
  "cp_uart_rx_activity (traced (calm True)) ((), es) = (7, (), es @ [Ev_rx 7])"
  "cp_now_ms (traced (calm True)) ((), es) = (0, (), es @ [Ev_now 0])"
  by (simp_all add: traced_def calm_def)

lemma calm_loop:
  "quiet_loop (traced (calm True)) 0 (Suc (Suc k)) 7 0 ((), es) =
     (None, (), es @ [Ev_sleep 5, Ev_rx 7, Ev_now 0, Ev_sleep 5, Ev_rx 7])"
  by (simp add: calm_calls QUIET_SAMPLES_def CONFIG_RX_STOP_TIMEOUT_MS_def CONFIG_RX_QUIET_STEP_MS_def Let_def)

lemma calm_stop:
  assumes "cm_ctx m = ((), es)"
  shows "stop_locked (traced (calm True)) m = (True, m\<lparr>cm_ctx := ((), es @
     [Ev_detach None, Ev_now 0, Ev_rx 7, Ev_sleep 5, Ev_rx 7, Ev_now 0, Ev_sleep 5, Ev_rx 7])\<rparr>)"
proof -
  have mx: "max_looks = Suc (Suc 20)"
    by (simp add: max_looks_def CONFIG_RX_STOP_TIMEOUT_MS_def CONFIG_RX_QUIET_STEP_MS_def QUIET_SAMPLES_def)
  have "quiet_loop (traced (calm True)) 0 max_looks 7 0 ((), e) =
      (None, (), e @ [Ev_sleep 5, Ev_rx 7, Ev_now 0, Ev_sleep 5, Ev_rx 7])" for e
    unfolding mx by (rule calm_loop)
  then show ?thesis
    using assms by (simp add: stop_locked_def wait_quiet_locked_def calm_calls del: quiet_loop.simps)
qed

definition calm_bridge :: "unit traced_state coprocessor_manager" where
  "calm_bridge = snd (coprocessor_manager_set_mode COPROCESSOR_UART_USB_BRIDGE calm_start)"

lemma calm_switch:
  "coprocessor_manager_set_mode COPROCESSOR_UART_USB_BRIDGE calm_start = (None, calm_bridge)"
  "tr calm_bridge = tr calm_start @ calm_events"
proof -
  let ?m = "calm_start\<lparr>cm_exclusive := 0 OR EX_BRIDGE\<rparr>"
  have go: "\<not> claimed_against EX_BRIDGE (\<lambda>_. 0)" "EX_BRIDGE \<noteq> 0"
    by (simp_all add: claimed_against_def apply_blocks_def scan_blocks_def bits)
  obtain rc m2 where s: "switch_locked (traced (calm True)) COPROCESSOR_UART_USB_BRIDGE ?m = (rc, m2)" by fastforce
  have "rc = None" "tr m2 = tr calm_start @ calm_events"
    using s calm_stop [of ?m "tr calm_start"]
    by (auto simp: switch_locked_def calm_start_simps uart_attach_def calm_calls set_uart_mode_def marker_locked_def
        Let_def calm_events_def) (auto simp: traced_def calm_def)
  moreover have "coprocessor_manager_set_mode COPROCESSOR_UART_USB_BRIDGE calm_start = finish_switch rc m2"
    using s go by (simp add: coprocessor_manager_set_mode_def calm_start_simps Let_def)
  ultimately show "coprocessor_manager_set_mode COPROCESSOR_UART_USB_BRIDGE calm_start = (None, calm_bridge)"
    "tr calm_bridge = tr calm_start @ calm_events"
    by (simp_all add: calm_bridge_def finish_switch_def publish_locked_def settle_bits_locked_def)
qed

theorem claims_and_owners_exclude_each_other_witness:
  "\<exists>s. exclusion_step\<^sup>*\<^sup>* (exclusion_start 1) s \<and> Held COPROCESSOR_CLAIM_NETWORK_APPLY \<in> set (x_threads s) \<and>
     active_bits s AND claim_excluded COPROCESSOR_CLAIM_NETWORK_APPLY = 0"
proof -
  let ?k = COPROCESSOR_CLAIM_NETWORK_APPLY
  let ?s1 = "thread_to 0 (Incremented ?k) (count_claim ?k 1 (exclusion_start 1))"
  let ?s2 = "thread_to 0 (Held ?k) ?s1"
  have "exclusion_step (exclusion_start 1) ?s1"
    by (rule exclusion_step.claim_inc) (simp_all add: exclusion_start_def)
  moreover have "exclusion_step ?s1 ?s2"
    by (rule exclusion_step.claim_granted) (simp_all add: exclusion_start_def)
  ultimately have r: "exclusion_step\<^sup>*\<^sup>* (exclusion_start 1) ?s2" by simp
  moreover have h: "Held ?k \<in> set (x_threads ?s2)" by (simp add: exclusion_start_def)
  ultimately show ?thesis
    using claims_and_owners_exclude_each_other [OF r h] by blast
qed

theorem set_mode_outcome_witness: "mode_of calm_bridge = COPROCESSOR_UART_USB_BRIDGE"
  using set_mode_outcome [OF calm_start_inv calm_switch(1)] by simp

theorem no_new_owner_before_quiet_witness:
  "stood_still QUIET_SAMPLES (rx_values (butlast calm_events))"
  using no_new_owner_before_quiet [OF calm_start_inv calm_start_simps(1) calm_switch, of "butlast calm_events"
      COPROCESSOR_UART_USB_BRIDGE None "[]"]
  by (simp add: calm_events_def calm_start_simps)

theorem handover_markers_are_ordered_witness:
  "\<exists>stop. stop_events True stop \<and> tr calm_bridge = tr calm_start @ stop @
     [Ev_marker LOG_STORE_KIND_PAUSED 1 ''UART handed to the USB bridge'', Ev_attach COPROCESSOR_UART_USB_BRIDGE None]"
  using handover_markers_are_ordered [OF calm_start_inv calm_start_simps(1) _ calm_switch(1)]
  by (simp add: calm_start_simps)

theorem set_mode_sleeps_bounded_witness: "sum_list (sleeps calm_events) \<le> 110"
  by (rule set_mode_sleeps_bounded [OF calm_start_inv calm_start_simps(1) calm_switch])

theorem every_generation_is_announced_witness:
  "\<exists>n. reset_gens (tr (run_ops coprocessor_step [Op_reset False] calm_start)) = map (\<lambda>i. 2 + of_nat i) [0..<n] \<and>
     gen_of (run_ops coprocessor_step [Op_reset False] calm_start) = 1 + of_nat n"
  unfolding calm_start_def
  by (rule every_generation_is_announced [OF _ refl]) (simp add: coprocessor_statics_def)

theorem timed_out_switch_may_leave_nobody_witness:
  "\<exists>m. cm_plat m = Some (calm False) \<and>
     mode_of (snd (coprocessor_manager_set_mode COPROCESSOR_UART_USB_BRIDGE m)) = COPROCESSOR_UART_UNAVAILABLE"
proof -
  let ?st = "zero_status\<lparr>cs_generation := 1\<rparr>"
  let ?m = "\<lparr>cm_plat = Some (calm False), cm_st = ?st, cm_reset_at_ms = 0, cm_snap = ?st,
    cm_snap_plat = Some (calm False), cm_exclusive = 0, cm_claims = (\<lambda>_. 0), cm_ctx = ()\<rparr>"
  have "coprocessor_inv ?m" by (simp add: coprocessor_inv_def zero_status_def)
  then show ?thesis
    using timed_out_switch_may_leave_nobody [of ?m "calm False"]
    by (intro exI [of _ ?m]) (simp add: calm_def zero_status_def)
qed

end
