(* ===== verification/Esp32_Log_Source.thy ===== *)
theory Esp32_Log_Source
  imports Log_Types "HOL-Library.Sublist"
begin

text \<open>
  Model of \<^verbatim>\<open>modules/esp32-log-source/lib/esp32_log_source.c\<close>: received UART bytes become finished log
  lines, one byte at a time. The line buffer and the collected UTF-8 sequence are lists whose
  lengths are the C counters. The emit callback and its context are parameters of the state: a
  function on an arbitrary context type, or NULL (\<open>None\<close>).
\<close>

section \<open>Data\<close>

definition CSI_MAX_BYTES :: nat where "CSI_MAX_BYTES = 32"

datatype esc_state = ESC_NONE | ESC_AFTER_ESC | ESC_CSI

record esp32_log_line =
  el_level :: log_store_level
  el_module :: "byte list option"
  el_text :: "byte list"
  el_truncated :: bool
  el_rom_banner :: bool

record esp32_log_stats =
  es_lines :: u32
  es_truncated_lines :: u32
  es_replacements :: u32
  es_escape_sequences :: u32
  es_idle_flushes :: u32
  es_overflows :: u32

record 'c esp32_log_assembler =
  ea_emit :: "(esp32_log_line \<Rightarrow> 'c \<Rightarrow> 'c) option"
  ea_ctx :: 'c
  ea_idle_flush_ms :: u32
  ea_line :: "byte list"
  ea_truncated :: bool
  ea_discarding :: bool
  ea_last_was_replacement :: bool
  ea_after_cr :: bool
  ea_seq :: "byte list"
  ea_seq_need :: nat
  ea_escape :: esc_state
  ea_csi_len :: nat
  ea_banner_match :: nat
  ea_has_partial :: bool
  ea_last_byte_ms :: int
  ea_stats :: esp32_log_stats

definition replacement :: "byte list" where "replacement = [0xEF, 0xBF, 0xBD]"

definition banner :: "byte list" where
  "banner = [0x45, 0x53, 0x50, 0x2D, 0x52, 0x4F, 0x4D, 0x3A]"

lemma banner_text: "banner = bytes_of ''ESP-ROM:''"
  by (simp add: banner_def bytes_of_def)

section \<open>The line\<close>

definition is_level_letter :: "byte \<Rightarrow> log_store_level option" where
  "is_level_letter c =
     (if c = of_char (CHR ''E'') then Some LOG_STORE_LEVEL_ERROR
      else if c = of_char (CHR ''W'') then Some LOG_STORE_LEVEL_WARNING
      else if c = of_char (CHR ''I'') then Some LOG_STORE_LEVEL_INFO
      else if c = of_char (CHR ''D'') \<or> c = of_char (CHR ''V'') then Some LOG_STORE_LEVEL_DEBUG
      else None)"

definition is_digit_byte :: "byte \<Rightarrow> bool" where
  "is_digit_byte b \<longleftrightarrow> of_char (CHR ''0'') \<le> b \<and> b \<le> of_char (CHR ''9'')"

definition is_time_byte :: "byte \<Rightarrow> bool" where
  "is_time_byte b \<longleftrightarrow> is_digit_byte b \<or> b = of_char (CHR '':'') \<or> b = of_char (CHR ''.'')"

text \<open>A loop \<^verbatim>\<open>for (i = start; i < n && p(s[i]); i++)\<close>: the index it stops at.\<close>

definition scan_while :: "(byte \<Rightarrow> bool) \<Rightarrow> byte list \<Rightarrow> nat \<Rightarrow> nat" where
  "scan_while p s start = start + length (takeWhile p (drop start s))"

text \<open>Level, module and text of a line that has the ESP-IDF prefix, \<open>None\<close> for the return value false.\<close>

definition parse_esp_idf :: "byte list \<Rightarrow> (log_store_level \<times> byte list \<times> byte list) option" where
  "parse_esp_idf s =
     (let n = length s in
      if n < 7 then None
      else (case is_level_letter (s ! 0) of
        None \<Rightarrow> None
      | Some level \<Rightarrow>
          if s ! 1 \<noteq> of_char (CHR '' '') \<or> s ! 2 \<noteq> of_char (CHR ''('') \<or> \<not> is_digit_byte (s ! 3) then None
          else let i = scan_while is_time_byte s 4 in
            if n \<le> i + 1 \<or> s ! i \<noteq> of_char (CHR '')'') \<or> s ! (i + 1) \<noteq> of_char (CHR '' '') then None
            else let tag_start = i + 2;
                     j = scan_while (\<lambda>b. b \<noteq> of_char (CHR '':'')) s tag_start in
              if n \<le> j \<or> j = tag_start \<or> LOG_STORE_MODULE_MAX < j - tag_start then None
              else if j + 1 < n \<and> s ! (j + 1) \<noteq> of_char (CHR '' '') then None
              else Some (level, take (j - tag_start) (drop tag_start s),
                         if j + 1 < n then drop (j + 2) s else [])))"

definition clear_line :: "'c esp32_log_assembler \<Rightarrow> 'c esp32_log_assembler" where
  "clear_line a = a\<lparr>ea_line := [], ea_truncated := False, ea_last_was_replacement := False,
     ea_seq := [], ea_seq_need := 0\<rparr>"

text \<open>The line handed to the callback.\<close>

definition line_of :: "byte list \<Rightarrow> bool \<Rightarrow> esp32_log_line" where
  "line_of bytes truncated =
     (let rom = 8 \<le> length bytes \<and> take 8 bytes = banner in
      case parse_esp_idf bytes of
        None \<Rightarrow> \<lparr>el_level = LOG_STORE_LEVEL_UNKNOWN, el_module = None, el_text = bytes,
                  el_truncated = truncated, el_rom_banner = rom\<rparr>
      | Some (level, tag, text) \<Rightarrow> \<lparr>el_level = level, el_module = Some tag, el_text = text,
                  el_truncated = truncated, el_rom_banner = rom\<rparr>)"

definition emit :: "'c esp32_log_assembler \<Rightarrow> 'c esp32_log_assembler" where
  "emit a =
     (let line = line_of (ea_line a) (ea_truncated a);
          st = (ea_stats a)\<lparr>es_lines := es_lines (ea_stats a) + 1\<rparr>;
          st' = (if el_truncated line then st\<lparr>es_truncated_lines := es_truncated_lines st + 1\<rparr> else st)
      in a\<lparr>ea_stats := st',
           ea_ctx := (case ea_emit a of None \<Rightarrow> ea_ctx a | Some f \<Rightarrow> f line (ea_ctx a))\<rparr>)"

text \<open>\<^verbatim>\<open>append\<close> of the source.\<close>

definition append_bytes :: "byte list \<Rightarrow> 'c esp32_log_assembler \<Rightarrow> 'c esp32_log_assembler" where
  "append_bytes bs a =
     (if ea_discarding a then a
      else if LOG_STORE_TEXT_MAX < length (ea_line a) + length bs
      then (clear_line (emit (a\<lparr>ea_truncated := True\<rparr>)))\<lparr>ea_discarding := True\<rparr>
      else a\<lparr>ea_line := ea_line a @ bs\<rparr>)"

definition append_char :: "byte list \<Rightarrow> 'c esp32_log_assembler \<Rightarrow> 'c esp32_log_assembler" where
  "append_char bs a = (append_bytes bs a)\<lparr>ea_last_was_replacement := False\<rparr>"

definition append_replacement :: "'c esp32_log_assembler \<Rightarrow> 'c esp32_log_assembler" where
  "append_replacement a =
     (if ea_last_was_replacement a then a
      else (append_bytes replacement
             (a\<lparr>ea_stats := (ea_stats a)\<lparr>es_replacements := es_replacements (ea_stats a) + 1\<rparr>\<rparr>))
           \<lparr>ea_last_was_replacement := True\<rparr>)"

definition abandon_sequence :: "'c esp32_log_assembler \<Rightarrow> 'c esp32_log_assembler" where
  "abandon_sequence a =
     (if 0 < length (ea_seq a) then append_replacement (a\<lparr>ea_seq := [], ea_seq_need := 0\<rparr>) else a)"

text \<open>\<^verbatim>\<open>if (!a->discarding && a->len > 0) { emit(a); }\<close>\<close>

definition emit_pending :: "'c esp32_log_assembler \<Rightarrow> 'c esp32_log_assembler" where
  "emit_pending a = (if \<not> ea_discarding a \<and> 0 < length (ea_line a) then emit a else a)"

definition end_line :: "'c esp32_log_assembler \<Rightarrow> 'c esp32_log_assembler" where
  "end_line a =
     (clear_line (emit_pending ((abandon_sequence a)\<lparr>ea_escape := ESC_NONE, ea_banner_match := 0\<rparr>)))
       \<lparr>ea_discarding := False, ea_has_partial := False\<rparr>"

section \<open>The ROM banner\<close>

text \<open>The matcher's next count, and whether the banner was completed.\<close>

definition banner_step :: "nat \<Rightarrow> byte \<Rightarrow> bool \<times> nat" where
  "banner_step m c =
     (let m' = (if c = banner ! m then m + 1 else if c = banner ! 0 then 1 else 0)
      in if m' < length banner then (False, m') else (True, 0))"

definition banner_completed :: "byte \<Rightarrow> 'c esp32_log_assembler \<Rightarrow> bool \<times> 'c esp32_log_assembler" where
  "banner_completed c a =
     (case banner_step (ea_banner_match a) c of (hit, m) \<Rightarrow> (hit, a\<lparr>ea_banner_match := m\<rparr>))"

definition start_banner_line :: "'c esp32_log_assembler \<Rightarrow> 'c esp32_log_assembler" where
  "start_banner_line a =
     (let head = length banner - 1;
          tail_is_banner = (\<not> ea_discarding a \<and> head \<le> length (ea_line a) \<and>
            drop (length (ea_line a) - head) (ea_line a) = take head banner)
      in if tail_is_banner \<and> length (ea_line a) = head then append_char [0x3A] a
         else
           let a1 = (if tail_is_banner then a\<lparr>ea_line := take (length (ea_line a) - head) (ea_line a)\<rparr> else a)
           in append_char banner ((clear_line (emit_pending a1))\<lparr>ea_discarding := False\<rparr>))"

section \<open>UTF-8\<close>

definition second_byte_ok :: "byte \<Rightarrow> byte \<Rightarrow> bool" where
  "second_byte_ok lead b =
     (if lead = 0xE0 then 0xA0 \<le> b \<and> b \<le> 0xBF
      else if lead = 0xED then 0x80 \<le> b \<and> b \<le> 0x9F
      else if lead = 0xF0 then 0x90 \<le> b \<and> b \<le> 0xBF
      else if lead = 0xF4 then 0x80 \<le> b \<and> b \<le> 0x8F
      else 0x80 \<le> b \<and> b \<le> 0xBF)"

text \<open>The part of \<^verbatim>\<open>text_byte\<close> that looks at a byte afresh.\<close>

definition fresh_byte :: "byte \<Rightarrow> 'c esp32_log_assembler \<Rightarrow> 'c esp32_log_assembler" where
  "fresh_byte b a =
     (if b = 0x09 \<or> (0x20 \<le> b \<and> b < 0x7F)
      then (case banner_completed b a of
              (True, a') \<Rightarrow> start_banner_line a'
            | (False, a') \<Rightarrow> append_char [b] a')
      else let a1 = a\<lparr>ea_banner_match := 0\<rparr> in
        if b < 0x80 then append_replacement a1
        else if 0xC2 \<le> b \<and> b \<le> 0xDF then a1\<lparr>ea_seq := [b], ea_seq_need := 2\<rparr>
        else if 0xE0 \<le> b \<and> b \<le> 0xEF then a1\<lparr>ea_seq := [b], ea_seq_need := 3\<rparr>
        else if 0xF0 \<le> b \<and> b \<le> 0xF4 then a1\<lparr>ea_seq := [b], ea_seq_need := 4\<rparr>
        else append_replacement a1)"

definition text_byte :: "byte \<Rightarrow> 'c esp32_log_assembler \<Rightarrow> 'c esp32_log_assembler" where
  "text_byte b a =
     (if 0 < length (ea_seq a) then
        let ok = (if length (ea_seq a) = 1 then second_byte_ok (ea_seq a ! 0) b else 0x80 \<le> b \<and> b \<le> 0xBF) in
        if ok then
          let a1 = a\<lparr>ea_seq := ea_seq a @ [b]\<rparr> in
          if length (ea_seq a1) = ea_seq_need a1
          then (append_char (ea_seq a1) a1)\<lparr>ea_seq := [], ea_seq_need := 0\<rparr> else a1
        else fresh_byte b (abandon_sequence a)
      else fresh_byte b a)"

section \<open>Entry points\<close>

definition zero_esp32_stats :: esp32_log_stats where
  "zero_esp32_stats = \<lparr>es_lines = 0, es_truncated_lines = 0, es_replacements = 0,
     es_escape_sequences = 0, es_idle_flushes = 0, es_overflows = 0\<rparr>"

definition esp32_log_init ::
    "(esp32_log_line \<Rightarrow> 'c \<Rightarrow> 'c) option \<Rightarrow> 'c \<Rightarrow> u32 \<Rightarrow> 'c esp32_log_assembler" where
  "esp32_log_init emit_fn ctx idle_flush_ms = \<lparr>ea_emit = emit_fn, ea_ctx = ctx,
     ea_idle_flush_ms = idle_flush_ms, ea_line = [], ea_truncated = False, ea_discarding = False,
     ea_last_was_replacement = False, ea_after_cr = False, ea_seq = [], ea_seq_need = 0,
     ea_escape = ESC_NONE, ea_csi_len = 0, ea_banner_match = 0, ea_has_partial = False,
     ea_last_byte_ms = 0, ea_stats = zero_esp32_stats\<rparr>"

text \<open>The ESC test and the text path at the end of \<^verbatim>\<open>feed_byte\<close>.\<close>

definition esc_or_text :: "byte \<Rightarrow> 'c esp32_log_assembler \<Rightarrow> 'c esp32_log_assembler" where
  "esc_or_text b a =
     (if b = 0x1B then
        let a1 = (abandon_sequence a)\<lparr>ea_escape := ESC_AFTER_ESC\<rparr>
        in a1\<lparr>ea_stats := (ea_stats a1)\<lparr>es_escape_sequences := es_escape_sequences (ea_stats a1) + 1\<rparr>\<rparr>
      else text_byte b a)"

definition feed_byte :: "byte \<Rightarrow> 'c esp32_log_assembler \<Rightarrow> 'c esp32_log_assembler" where
  "feed_byte b a0 =
     (let was_cr = ea_after_cr a0; a = a0\<lparr>ea_after_cr := False\<rparr> in
      if b = 0x0D then (end_line a)\<lparr>ea_after_cr := True\<rparr>
      else if b = 0x0A then (if \<not> was_cr then end_line a else a)
      else (case ea_escape a of
        ESC_AFTER_ESC \<Rightarrow>
          if b = of_char (CHR ''['') then a\<lparr>ea_escape := ESC_CSI, ea_csi_len := 0\<rparr>
          else let a1 = a\<lparr>ea_escape := ESC_NONE\<rparr> in
            if 0x20 \<le> b \<and> b < 0x7F then a1 else esc_or_text b a1
      | ESC_CSI \<Rightarrow>
          if 0x40 \<le> b \<and> b \<le> 0x7E then a\<lparr>ea_escape := ESC_NONE\<rparr>
          else if 0x20 \<le> b \<and> b \<le> 0x3F then
            let a1 = a\<lparr>ea_csi_len := ea_csi_len a + 1\<rparr> in
            if ea_csi_len a1 \<le> CSI_MAX_BYTES then a1 else esc_or_text b (a1\<lparr>ea_escape := ESC_NONE\<rparr>)
          else esc_or_text b (a\<lparr>ea_escape := ESC_NONE\<rparr>)
      | ESC_NONE \<Rightarrow> esc_or_text b a))"

fun feed_bytes :: "byte list \<Rightarrow> 'c esp32_log_assembler \<Rightarrow> 'c esp32_log_assembler" where
  "feed_bytes [] a = a"
| "feed_bytes (b # bs) a = feed_bytes bs (feed_byte b a)"

definition esp32_log_feed :: "byte list \<Rightarrow> int \<Rightarrow> 'c esp32_log_assembler \<Rightarrow> 'c esp32_log_assembler" where
  "esp32_log_feed bs now_ms a =
     (if length bs = 0 then a
      else let a1 = feed_bytes bs a in
        a1\<lparr>ea_last_byte_ms := now_ms,
           ea_has_partial := 0 < length (ea_line a1) \<or> 0 < length (ea_seq a1) \<or> ea_discarding a1 \<or>
             ea_escape a1 \<noteq> ESC_NONE\<rparr>)"

definition esp32_log_poll :: "int \<Rightarrow> 'c esp32_log_assembler \<Rightarrow> 'c esp32_log_assembler" where
  "esp32_log_poll now_ms a =
     (if \<not> ea_has_partial a \<or> now_ms - ea_last_byte_ms a < uint (ea_idle_flush_ms a) then a
      else let a1 = (if 0 < length (ea_line a) \<or> 0 < length (ea_seq a)
                     then a\<lparr>ea_stats := (ea_stats a)\<lparr>es_idle_flushes := es_idle_flushes (ea_stats a) + 1\<rparr>\<rparr>
                     else a)
           in (end_line a1)\<lparr>ea_after_cr := False\<rparr>)"

definition esp32_log_flush :: "'c esp32_log_assembler \<Rightarrow> 'c esp32_log_assembler" where
  "esp32_log_flush a = (end_line a)\<lparr>ea_after_cr := False\<rparr>"

definition esp32_log_note_overflow :: "'c esp32_log_assembler \<Rightarrow> 'c esp32_log_assembler" where
  "esp32_log_note_overflow a0 =
     (let a = a0\<lparr>ea_stats := (ea_stats a0)\<lparr>es_overflows := es_overflows (ea_stats a0) + 1\<rparr>,
                ea_escape := ESC_NONE, ea_seq := [], ea_seq_need := 0, ea_after_cr := False,
                ea_banner_match := 0\<rparr>
      in if ea_discarding a then a
         else (append_replacement a)\<lparr>ea_truncated := True, ea_has_partial := True\<rparr>)"

definition esp32_log_reset :: "'c esp32_log_assembler \<Rightarrow> 'c esp32_log_assembler" where
  "esp32_log_reset a = (clear_line a)\<lparr>ea_discarding := False, ea_escape := ESC_NONE,
     ea_after_cr := False, ea_banner_match := 0, ea_has_partial := False\<rparr>"

section \<open>Well-formed text\<close>

definition cont :: "byte \<Rightarrow> bool" where
  "cont b \<longleftrightarrow> 0x80 \<le> b \<and> b \<le> 0xBF"

definition text_ascii :: "byte \<Rightarrow> bool" where
  "text_ascii b \<longleftrightarrow> b = 0x09 \<or> (0x20 \<le> b \<and> b < 0x7F)"

text \<open>How many bytes the code point of a lead byte has; 0 for a byte that leads none.\<close>

definition need_of :: "byte \<Rightarrow> nat" where
  "need_of b = (if 0xC2 \<le> b \<and> b \<le> 0xDF then 2 else if 0xE0 \<le> b \<and> b \<le> 0xEF then 3
     else if 0xF0 \<le> b \<and> b \<le> 0xF4 then 4 else 0)"

text \<open>One code point as Unicode table 3-7 has it (no overlong form, no surrogate, nothing above
  U+10FFFF), TAB being the only control character.\<close>

fun utf8_char :: "byte list \<Rightarrow> bool" where
  "utf8_char [b] = text_ascii b"
| "utf8_char [l, b] = (need_of l = 2 \<and> second_byte_ok l b)"
| "utf8_char [l, b, c] = (need_of l = 3 \<and> second_byte_ok l b \<and> cont c)"
| "utf8_char [l, b, c, d] = (need_of l = 4 \<and> second_byte_ok l b \<and> cont c \<and> cont d)"
| "utf8_char _ = False"

inductive clean_text :: "byte list \<Rightarrow> bool" where
  clean_nil: "clean_text []"
| clean_char: "utf8_char c \<Longrightarrow> clean_text r \<Longrightarrow> clean_text (c @ r)"

lemmas byte_order = word_le_nat_alt word_less_nat_alt

lemma high_bytes:
  "cont b \<Longrightarrow> \<not> b < 0x80" "second_byte_ok l b \<Longrightarrow> \<not> b < 0x80" "need_of b \<noteq> 0 \<Longrightarrow> \<not> b < 0x80"
  "text_ascii b \<Longrightarrow> b < 0x80"
  by (auto simp: cont_def second_byte_ok_def need_of_def text_ascii_def byte_order split: if_splits)

lemma utf8_char_ascii: "utf8_char c \<Longrightarrow> b \<in> set c \<Longrightarrow> b < 0x80 \<Longrightarrow> c = [b]"
  by (cases c rule: utf8_char.cases) (use high_bytes in fastforce)+

lemma clean_append: "clean_text xs \<Longrightarrow> clean_text ys \<Longrightarrow> clean_text (xs @ ys)"
  by (induction rule: clean_text.induct) (auto intro: clean_text.clean_char)

lemma clean_single: "utf8_char c \<Longrightarrow> clean_text c"
  using clean_text.clean_char [of c "[]"] clean_text.clean_nil by simp

lemma clean_split:
  "clean_text zs \<Longrightarrow> zs = xs @ b # ys \<Longrightarrow> b < 0x80 \<Longrightarrow> clean_text xs \<and> clean_text ys"
proof (induction arbitrary: xs rule: clean_text.induct)
  case clean_nil
  then show ?case by simp
next
  case (clean_char c r)
  from clean_char.prems(1) obtain us where
    "xs = c @ us \<and> r = us @ b # ys \<or> c = xs @ us \<and> us @ r = b # ys"
    by (auto simp: append_eq_append_conv2)
  then consider us where "xs = c @ us" "r = us @ b # ys" | us where "c = xs @ us" "us @ r = b # ys" "us \<noteq> []"
    by (cases "us = []") auto
  then show ?case
  proof cases
    case (1 us)
    with clean_char.IH [OF 1(2) clean_char.prems(2)] clean_char.hyps(1) show ?thesis
      by (auto intro: clean_text.clean_char)
  next
    case (2 us)
    then obtain us' where "us = b # us'" "ys = us' @ r" by (cases us) auto
    with 2(1) utf8_char_ascii [OF clean_char.hyps(1) _ clean_char.prems(2)] have "xs = []" "ys = r"
      by (auto simp: append_eq_Cons_conv)
    with clean_char.hyps(2) show ?thesis by (auto intro: clean_text.clean_nil)
  qed
qed

lemma clean_ascii: "\<forall>b \<in> set bs. text_ascii b \<Longrightarrow> clean_text bs"
proof (induction bs)
  case Nil
  show ?case by (rule clean_text.clean_nil)
next
  case (Cons b bs)
  then have "clean_text ([b] @ bs)" by (intro clean_text.clean_char) simp_all
  then show ?case by simp
qed

lemma clean_replacement: "clean_text replacement"
  unfolding replacement_def
  by (rule clean_single) (simp add: need_of_def second_byte_ok_def cont_def byte_order)

lemma clean_banner: "clean_text banner"
  by (rule clean_ascii) (auto simp: banner_def text_ascii_def byte_order)

section \<open>The ESP-IDF prefix\<close>

lemma scan_whileD:
  assumes "start \<le> length s" "i = scan_while p s start"
  shows "start \<le> i" "i \<le> length s" "\<forall>b \<in> set (take (i - start) (drop start s)). p b"
    "i < length s \<Longrightarrow> \<not> p (s ! i)"
proof -
  have i: "i - start = length (takeWhile p (drop start s))" "start \<le> i" by (simp_all add: assms(2) scan_while_def)
  have i': "i = start + length (takeWhile p (drop start s))" by (simp add: assms(2) scan_while_def)
  show "start \<le> i" by (rule i(2))
  show "i \<le> length s" using assms length_takeWhile_le [of p "drop start s"] by (simp add: scan_while_def)
  show "\<forall>b \<in> set (take (i - start) (drop start s)). p b"
    unfolding i(1) by (metis set_takeWhileD takeWhile_eq_take)
  show "\<not> p (s ! i)" if "i < length s"
  proof -
    have "length (takeWhile p (drop start s)) < length (drop start s)" using that i by simp
    from nth_length_takeWhile [OF this] show ?thesis using assms(1) i' by simp
  qed
qed

text \<open>The characters of the prefix.\<close>

abbreviation B :: "char \<Rightarrow> byte" where "B c \<equiv> of_char c"

lemma parse_esp_idf_Some:
  assumes "parse_esp_idf s = Some (level, tag, rest)"
  shows "\<exists>c d time tail. s = [c, B (CHR '' ''), B (CHR ''(''), d] @ time @ [B (CHR '')''), B (CHR '' '')] @ tag @
      B (CHR '':'') # tail \<and> is_level_letter c = Some level \<and> is_digit_byte d \<and>
    (\<forall>b \<in> set time. is_time_byte b) \<and> B (CHR '':'') \<notin> set tag \<and> 1 \<le> length tag \<and>
    length tag \<le> LOG_STORE_MODULE_MAX \<and> (tail = [] \<and> rest = [] \<or> tail = B (CHR '' '') # rest)"
proof -
  let ?i = "scan_while is_time_byte s 4"
  let ?j = "scan_while (\<lambda>b. b \<noteq> B (CHR '':'')) s (?i + 2)"
  from assms have n: "7 \<le> length s" and lv: "is_level_letter (s ! 0) = Some level"
    and s1: "s ! 1 = B (CHR '' '')" "s ! 2 = B (CHR ''('')" "is_digit_byte (s ! 3)"
    and i: "?i + 1 < length s" "s ! ?i = B (CHR '')'')" "s ! (?i + 1) = B (CHR '' '')"
    and j: "?j < length s" "?j \<noteq> ?i + 2" "?j - (?i + 2) \<le> LOG_STORE_MODULE_MAX"
    and sp: "?j + 1 < length s \<Longrightarrow> s ! (?j + 1) = B (CHR '' '')"
    and tag: "tag = take (?j - (?i + 2)) (drop (?i + 2) s)"
    and rest: "rest = (if ?j + 1 < length s then drop (?j + 2) s else [])"
    unfolding parse_esp_idf_def Let_def
    by (auto split: if_splits option.splits)
  note wi = scan_whileD [of 4 s ?i is_time_byte, OF _ refl]
  note wj = scan_whileD [of "?i + 2" s ?j "\<lambda>b. b \<noteq> B (CHR '':'')", OF _ refl]
  have ij: "4 \<le> ?i" "?i + 2 \<le> ?j" using wi(1) wj(1) n i(1) by simp_all
  let ?time = "take (?i - 4) (drop 4 s)" and ?tail = "drop (?j + 1) s"
  have "s = take 4 s @ drop 4 s" by simp
  also have "drop 4 s = ?time @ drop ?i s" using ij(1) by (metis append_take_drop_id drop_drop le_add_diff_inverse2)
  also have "drop ?i s = [s ! ?i, s ! (?i + 1)] @ drop (?i + 2) s"
    using i(1) by (simp add: Cons_nth_drop_Suc)
  also have "drop (?i + 2) s = tag @ drop ?j s"
    unfolding tag using ij(2) by (metis append_take_drop_id drop_drop le_add_diff_inverse2)
  also have "drop ?j s = s ! ?j # ?tail" using j(1) by (simp add: Cons_nth_drop_Suc)
  also have "take 4 s = [s ! 0, s ! 1, s ! 2, s ! 3]"
  proof -
    obtain a b c d r where "s = a # b # c # d # r"
      using n by (auto simp: Suc_le_length_iff numeral_eq_Suc)
    then show ?thesis by simp
  qed
  also have "s ! ?j = B (CHR '':'')" using wj(4) j(1) i(1) by simp
  finally have "s = [s ! 0, B (CHR '' ''), B (CHR ''(''), s ! 3] @ ?time @ [B (CHR '')''), B (CHR '' '')] @ tag @
      B (CHR '':'') # ?tail" by (simp only: s1(1,2) i(2,3))
  moreover have "?tail = [] \<and> rest = [] \<or> ?tail = B (CHR '' '') # rest"
  proof (cases "?j + 1 < length s")
    case True
    then have "?tail = s ! (?j + 1) # drop (?j + 2) s" by (simp add: Cons_nth_drop_Suc)
    with True rest sp show ?thesis by simp
  next
    case False
    with rest show ?thesis by simp
  qed
  moreover have "\<forall>b \<in> set tag. b \<noteq> B (CHR '':'')"
    unfolding tag by (rule wj(3)) (use i(1) in simp)
  then have "B (CHR '':'') \<notin> set tag" by blast
  moreover have "1 \<le> length tag" "length tag \<le> LOG_STORE_MODULE_MAX"
    unfolding tag using j ij(2) by simp_all
  moreover have "\<forall>b \<in> set ?time. is_time_byte b" using wi(3) n by simp
  ultimately show ?thesis using lv s1(3) by blast
qed


lemma scan_while_stop:
  assumes "s = xs @ ys @ b # zs" "length xs = start" "\<forall>y \<in> set ys. p y" "\<not> p b"
  shows "scan_while p s start = start + length ys"
proof -
  have "drop start s = ys @ b # zs" using assms(1,2) by simp
  then have "takeWhile p (drop start s) = ys" using assms(3,4) by simp
  then show ?thesis by (simp add: scan_while_def)
qed

lemma drop_pre: "s = p @ q \<Longrightarrow> n = length p \<Longrightarrow> drop n s = q"
  by simp

lemma nth_pre: "s = p @ x # q \<Longrightarrow> n = length p \<Longrightarrow> s ! n = x"
  by simp

lemma parse_esp_idf_text:
  assumes s: "s = [c, B (CHR '' ''), B (CHR ''(''), d] @ time @ [B (CHR '')''), B (CHR '' '')] @ tag @
      B (CHR '':'') # tail"
    and c: "is_level_letter c = Some level" and d: "is_digit_byte d" and time: "\<forall>b \<in> set time. is_time_byte b"
    and tag: "B (CHR '':'') \<notin> set tag" "1 \<le> length tag" "length tag \<le> LOG_STORE_MODULE_MAX"
    and tail: "tail = [] \<and> rest = [] \<or> tail = B (CHR '' '') # rest"
  shows "parse_esp_idf s = Some (level, tag, rest)"
proof -
  have i: "scan_while is_time_byte s 4 = 4 + length time"
    by (rule scan_while_stop [where xs = "[c, B (CHR '' ''), B (CHR ''(''), d]" and b = "B (CHR '')'')"
          and zs = "B (CHR '' '') # tag @ B (CHR '':'') # tail"])
      (use s time in \<open>simp_all add: is_time_byte_def is_digit_byte_def byte_order\<close>)
  have j: "scan_while (\<lambda>b. b \<noteq> B (CHR '':'')) s (4 + length time + 2) = 4 + length time + 2 + length tag"
    by (rule scan_while_stop [where b = "B (CHR '':'')" and zs = tail
          and xs = "[c, B (CHR '' ''), B (CHR ''(''), d] @ time @ [B (CHR '')''), B (CHR '' '')]"])
      (use s tag in auto)
  let ?pre = "[c, B (CHR '' ''), B (CHR ''(''), d]"
  let ?pre2 = "(?pre @ time) @ [B (CHR '')''), B (CHR '' '')]" and ?pre3 = "(?pre @ time) @ [B (CHR '')''), B (CHR '' '')] @ tag"
  have nth: "s ! 0 = c" "s ! 1 = B (CHR '' '')" "s ! 2 = B (CHR ''('')" "s ! 3 = d"
    using s by simp_all
  have nth': "s ! (4 + length time) = B (CHR '')'')" "s ! (4 + length time + 1) = B (CHR '' '')"
    by (rule nth_pre [where p = "?pre @ time"], use s in simp, simp)
      (rule nth_pre [where p = "(?pre @ time) @ [B (CHR '')'')]"], use s in simp, simp)
  have tne: "tag \<noteq> []" using tag(2) by auto
  have len: "length s = 4 + length time + 2 + length tag + 1 + length tail" using s by simp
  have dr: "drop (4 + length time + 2) s = tag @ B (CHR '':'') # tail"
    "drop (4 + length time + 2 + length tag + 1) s = tail"
    by (rule drop_pre [where p = ?pre2], use s in simp, simp)
      (rule drop_pre [where p = "?pre3 @ [B (CHR '':'')]"], use s in simp, simp)
  have last: "s ! (4 + length time + 2 + length tag + 1) = B (CHR '' '')"
    "drop (4 + length time + 2 + length tag + 2) s = rest" if "tail \<noteq> []"
  proof -
    have t: "tail = B (CHR '' '') # rest" using tail that by simp
    show "s ! (4 + length time + 2 + length tag + 1) = B (CHR '' '')"
      by (rule nth_pre [where p = "?pre3 @ [B (CHR '':'')]"], use s t in simp, simp)
    show "drop (4 + length time + 2 + length tag + 2) s = rest"
      by (rule drop_pre [where p = "?pre3 @ [B (CHR '':''), B (CHR '' '')]"], use s t in simp, simp)
  qed
  show ?thesis
  proof (cases "tail = []")
    case True
    with tail have "rest = []" by auto
    with True i j nth nth' len dr tag tne c d show ?thesis by (simp add: parse_esp_idf_def Let_def)
  next
    case False
    from last [OF False] i j nth nth' len dr tag tne c d False show ?thesis by (simp add: parse_esp_idf_def Let_def)
  qed
qed

lemma parse_clean:
  assumes "clean_text s" "parse_esp_idf s = Some (level, tag, rest)"
  shows "clean_text tag \<and> clean_text rest \<and> 1 \<le> length tag \<and> length tag \<le> LOG_STORE_MODULE_MAX \<and>
    length rest \<le> length s"
proof -
  from parse_esp_idf_Some [OF assms(2)] obtain c d time tail where
    s: "s = [c, B (CHR '' ''), B (CHR ''(''), d] @ time @ [B (CHR '')''), B (CHR '' '')] @ tag @ B (CHR '':'') # tail"
    and tag: "1 \<le> length tag" "length tag \<le> LOG_STORE_MODULE_MAX"
    and tail: "tail = [] \<and> rest = [] \<or> tail = B (CHR '' '') # rest" by blast
  let ?h = "[c, B (CHR '' ''), B (CHR ''(''), d] @ time @ [B (CHR '')'')]"
  have a: "B (CHR '' '') < 0x80" "B (CHR '':'') < 0x80" by (simp_all add: byte_order)
  have "clean_text (tag @ B (CHR '':'') # tail)"
    using clean_split [OF assms(1), of ?h "B (CHR '' '')"] s a by simp
  from clean_split [OF this refl a(2)] have "clean_text tag" "clean_text tail" by simp_all
  moreover have "clean_text rest"
    using tail clean_split [OF \<open>clean_text tail\<close>, of "[]" "B (CHR '' '')" rest] a clean_nil by auto
  moreover have "length rest \<le> length s" using s tail by auto
  ultimately show ?thesis using tag by simp
qed

section \<open>The assembler's invariant\<close>

text \<open>
  The capturing assembler: its context is the list of the lines handed out so far.
\<close>

definition capture :: "(esp32_log_line \<Rightarrow> esp32_log_line list \<Rightarrow> esp32_log_line list) option" where
  "capture = Some (\<lambda>l ls. ls @ [l])"

type_synonym capturing = "esp32_log_line list esp32_log_assembler"

definition line_ok :: "esp32_log_line \<Rightarrow> bool" where
  "line_ok l \<longleftrightarrow> length (el_text l) \<le> LOG_STORE_TEXT_MAX \<and> clean_text (el_text l) \<and>
     (case el_module l of None \<Rightarrow> el_level l = LOG_STORE_LEVEL_UNKNOWN
      | Some m \<Rightarrow> clean_text m \<and> 1 \<le> length m \<and> length m \<le> LOG_STORE_MODULE_MAX)"

definition seq_ok :: "byte list \<Rightarrow> nat \<Rightarrow> bool" where
  "seq_ok s need \<longleftrightarrow> s = [] \<or> (need_of (s ! 0) = need \<and> length s < need \<and>
     (2 \<le> length s \<longrightarrow> second_byte_ok (s ! 0) (s ! 1)) \<and> (3 \<le> length s \<longrightarrow> cont (s ! 2)))"

definition asm_inv :: "capturing \<Rightarrow> bool" where
  "asm_inv a \<longleftrightarrow> ea_emit a = capture \<and> (\<forall>l \<in> set (ea_ctx a). line_ok l) \<and>
     clean_text (ea_line a) \<and> length (ea_line a) \<le> LOG_STORE_TEXT_MAX \<and>
     seq_ok (ea_seq a) (ea_seq_need a) \<and> ea_banner_match a < length banner \<and>
     (ea_discarding a \<longrightarrow> ea_line a = [])"

lemma line_of_ok: "clean_text bs \<Longrightarrow> length bs \<le> LOG_STORE_TEXT_MAX \<Longrightarrow> line_ok (line_of bs t)"
proof (cases "parse_esp_idf bs")
  case (Some r)
  obtain level tag rest where r: "r = (level, tag, rest)" by (cases r)
  assume a: "clean_text bs" "length bs \<le> LOG_STORE_TEXT_MAX"
  from parse_clean [OF a(1) Some [unfolded r]] a show ?thesis
    by (simp add: line_of_def line_ok_def Some r)
qed (simp add: line_of_def line_ok_def)

lemma seq_ok_nil [simp]: "seq_ok [] n"
  by (simp add: seq_ok_def)

lemma banner_nonempty [simp]: "banner \<noteq> []"
  by (simp add: banner_def)

lemma clear_inv: "asm_inv a \<Longrightarrow> asm_inv (clear_line a)"
  by (simp add: asm_inv_def clear_line_def clean_nil)

lemma emit_simps [simp]:
  "ea_emit (emit a) = ea_emit a" "ea_line (emit a) = ea_line a" "ea_seq (emit a) = ea_seq a"
  "ea_seq_need (emit a) = ea_seq_need a" "ea_discarding (emit a) = ea_discarding a"
  "ea_banner_match (emit a) = ea_banner_match a" "ea_escape (emit a) = ea_escape a"
  "ea_truncated (emit a) = ea_truncated a" "ea_last_was_replacement (emit a) = ea_last_was_replacement a"
  "ea_emit a = capture \<Longrightarrow> ea_ctx (emit a) = ea_ctx a @ [line_of (ea_line a) (ea_truncated a)]"
  by (simp_all add: emit_def Let_def capture_def)

lemma emit_inv: "asm_inv a \<Longrightarrow> asm_inv (emit a)"
  by (auto simp: asm_inv_def line_of_ok)

lemma emit_pending_inv: "asm_inv a \<Longrightarrow> asm_inv (emit_pending a)"
  by (simp add: emit_pending_def emit_inv)

lemma append_inv:
  assumes "asm_inv a" "clean_text bs"
  shows "asm_inv (append_bytes bs a)"
proof -
  have "asm_inv (clear_line (emit (a\<lparr>ea_truncated := True\<rparr>)))"
    by (rule clear_inv, rule emit_inv) (use assms(1) in \<open>simp add: asm_inv_def\<close>)
  then show ?thesis
    using assms by (auto simp: append_bytes_def asm_inv_def clean_append clear_line_def)
qed

lemma asm_inv_fields [simp]:
  "asm_inv (a\<lparr>ea_last_was_replacement := v\<rparr>) = asm_inv a" "asm_inv (a\<lparr>ea_stats := st\<rparr>) = asm_inv a"
  "asm_inv (a\<lparr>ea_escape := e\<rparr>) = asm_inv a" "asm_inv (a\<lparr>ea_after_cr := v\<rparr>) = asm_inv a"
  "asm_inv (a\<lparr>ea_csi_len := k\<rparr>) = asm_inv a" "asm_inv (a\<lparr>ea_has_partial := v\<rparr>) = asm_inv a"
  "asm_inv (a\<lparr>ea_last_byte_ms := t\<rparr>) = asm_inv a" "asm_inv (a\<lparr>ea_truncated := v\<rparr>) = asm_inv a"
  by (simp_all add: asm_inv_def)

lemma asm_inv_weaken:
  "asm_inv a \<Longrightarrow> asm_inv (a\<lparr>ea_seq := [], ea_seq_need := n\<rparr>)"
  "asm_inv a \<Longrightarrow> asm_inv (a\<lparr>ea_banner_match := 0\<rparr>)" "asm_inv a \<Longrightarrow> asm_inv (a\<lparr>ea_discarding := False\<rparr>)"
  by (simp_all add: asm_inv_def)

lemma append_char_inv: "asm_inv a \<Longrightarrow> clean_text bs \<Longrightarrow> asm_inv (append_char bs a)"
  by (simp add: append_char_def append_inv)

lemma append_replacement_inv: "asm_inv a \<Longrightarrow> asm_inv (append_replacement a)"
  by (simp add: append_replacement_def append_inv clean_replacement)

lemma abandon_inv: "asm_inv a \<Longrightarrow> asm_inv (abandon_sequence a)"
  by (simp add: abandon_sequence_def append_replacement_inv asm_inv_weaken)

lemma end_line_inv: "asm_inv a \<Longrightarrow> asm_inv (end_line a)"
proof -
  assume "asm_inv a"
  then have a1: "asm_inv ((abandon_sequence a)\<lparr>ea_escape := ESC_NONE, ea_banner_match := 0\<rparr>)"
    by (simp add: abandon_inv asm_inv_weaken)
  then show ?thesis
    by (simp add: end_line_def asm_inv_weaken clear_inv emit_pending_inv)
qed

lemma banner_step_bound: "m < length banner \<Longrightarrow> snd (banner_step m c) < length banner"
  by (auto simp: banner_step_def Let_def banner_def)

lemma banner_completed_inv:
  "asm_inv a \<Longrightarrow> asm_inv (snd (banner_completed c a))"
  using banner_step_bound [of "ea_banner_match a" c]
  by (auto simp: banner_completed_def asm_inv_def split: prod.splits)

lemma start_banner_inv:
  assumes "asm_inv a"
  shows "asm_inv (start_banner_line a)"
proof -
  let ?head = "length banner - 1"
  let ?cut = "a\<lparr>ea_line := take (length (ea_line a) - ?head) (ea_line a)\<rparr>"
  have c: "asm_inv ?cut"
    if t: "?head \<le> length (ea_line a)" "drop (length (ea_line a) - ?head) (ea_line a) = take ?head banner"
  proof -
    have "ea_line a = take (length (ea_line a) - ?head) (ea_line a) @ take ?head banner"
      using t(2) by (metis append_take_drop_id)
    then have "ea_line a = take (length (ea_line a) - ?head) (ea_line a) @ 0x45 # tl (take ?head banner)"
      by (simp add: banner_def)
    from clean_split [OF _ this] assms have "clean_text (take (length (ea_line a) - ?head) (ea_line a))"
      by (simp add: asm_inv_def byte_order)
    with assms show ?thesis by (auto simp: asm_inv_def)
  qed
  have colon: "clean_text [0x3A]" by (rule clean_ascii) (simp add: text_ascii_def byte_order)
  show ?thesis
    using assms c
    by (auto simp: start_banner_line_def Let_def intro!: append_char_inv colon clean_banner asm_inv_weaken
        clear_inv emit_pending_inv)
qed

lemma fresh_byte_inv:
  assumes "asm_inv a"
  shows "asm_inv (fresh_byte b a)"
proof (cases "b = 0x09 \<or> (0x20 \<le> b \<and> b < 0x7F)")
  case True
  then have "clean_text [b]" by (intro clean_ascii) (auto simp: text_ascii_def)
  with True banner_completed_inv [OF assms, of b] show ?thesis
    by (auto simp: fresh_byte_def intro: start_banner_inv append_char_inv split: prod.splits bool.splits)
next
  case False
  have s: "asm_inv (a\<lparr>ea_banner_match := 0, ea_seq := [b], ea_seq_need := n\<rparr>)" if "need_of b = n" "2 \<le> n" for n
    using assms that by (simp add: asm_inv_def seq_ok_def)
  have n: "0xE0 \<le> b \<Longrightarrow> b \<le> 0xEF \<Longrightarrow> need_of b = 3" "0xF0 \<le> b \<Longrightarrow> b \<le> 0xF4 \<Longrightarrow> need_of b = 4"
    "0xC2 \<le> b \<Longrightarrow> b \<le> 0xDF \<Longrightarrow> need_of b = 2"
    by (auto simp: need_of_def byte_order)
  show ?thesis
    using False s n assms
    by (auto simp: fresh_byte_def Let_def intro: append_replacement_inv asm_inv_weaken)
qed

lemma seq_step:
  assumes "seq_ok s need" "s \<noteq> []" "if length s = 1 then second_byte_ok (s ! 0) b else cont b"
  shows "length s + 1 = need \<Longrightarrow> clean_text (s @ [b])" "length s + 1 \<noteq> need \<Longrightarrow> seq_ok (s @ [b]) need"
proof -
  have need: "need \<in> {2, 3, 4}" "length s < need" "need_of (s ! 0) = need"
    using assms(1,2) by (auto simp: seq_ok_def need_of_def split: if_splits)
  have l: "length s = 1 \<or> length s = 2 \<or> length s = 3"
    using need assms(2) by (auto simp: less_Suc_eq numeral_eq_Suc)
  show "clean_text (s @ [b])" if "length s + 1 = need"
  proof (rule clean_single)
    from l consider x where "s = [x]" | x y where "s = [x, y]" | x y z where "s = [x, y, z]"
      by (auto simp: numeral_eq_Suc length_Suc_conv)
    then show "utf8_char (s @ [b])"
      by cases (use assms that need in \<open>auto simp: seq_ok_def\<close>)
  qed
  show "seq_ok (s @ [b]) need" if "length s + 1 \<noteq> need"
  proof -
    from l that need have "length s = 1 \<or> length s = 2" by auto
    then consider x where "s = [x]" | x y where "s = [x, y]"
      by (auto simp: numeral_eq_Suc length_Suc_conv)
    then show ?thesis
      by cases (use assms that need in \<open>auto simp: seq_ok_def\<close>)
  qed
qed

lemma text_byte_inv:
  assumes "asm_inv a"
  shows "asm_inv (text_byte b a)"
proof (cases "0 < length (ea_seq a)")
  case False
  with assms show ?thesis by (simp add: text_byte_def fresh_byte_inv)
next
  case True
  let ?ok = "if length (ea_seq a) = 1 then second_byte_ok (ea_seq a ! 0) b else 0x80 \<le> b \<and> b \<le> 0xBF"
  show ?thesis
  proof (cases ?ok)
    case False
    with True assms show ?thesis by (simp add: text_byte_def fresh_byte_inv abandon_inv)
  next
    case ok: True
    have seq: "seq_ok (ea_seq a) (ea_seq_need a)" "ea_seq a \<noteq> []"
      "if length (ea_seq a) = 1 then second_byte_ok (ea_seq a ! 0) b else cont b"
      using assms True ok by (auto simp: asm_inv_def cont_def)
    note step = seq_step [OF seq]
    show ?thesis
    proof (cases "length (ea_seq a) + 1 = ea_seq_need a")
      case full: True
      have "asm_inv (append_char (ea_seq a @ [b]) a)" by (rule append_char_inv [OF assms step(1) [OF full]])
      moreover have "(append_char (ea_seq a @ [b]) (a\<lparr>ea_seq := ea_seq a @ [b]\<rparr>))\<lparr>ea_seq := [], ea_seq_need := 0\<rparr> =
          (append_char (ea_seq a @ [b]) a)\<lparr>ea_seq := [], ea_seq_need := 0\<rparr>"
        by (simp add: append_char_def append_bytes_def clear_line_def emit_def Let_def cong: option.case_cong)
      ultimately show ?thesis
        using True ok full by (simp add: text_byte_def Let_def asm_inv_weaken)
    next
      case False
      with True ok step(2) assms show ?thesis by (simp add: text_byte_def Let_def asm_inv_def)
    qed
  qed
qed

lemma esc_or_text_inv: "asm_inv a \<Longrightarrow> asm_inv (esc_or_text b a)"
  by (simp add: esc_or_text_def Let_def abandon_inv text_byte_inv)

lemma feed_byte_inv: "asm_inv a \<Longrightarrow> asm_inv (feed_byte b a)"
  by (auto simp: feed_byte_def Let_def end_line_inv esc_or_text_inv split: esc_state.split)

lemma feed_bytes_inv: "asm_inv a \<Longrightarrow> asm_inv (feed_bytes bs a)"
  by (induction bs arbitrary: a) (simp_all add: feed_byte_inv)

text \<open>Runs of the entry points.\<close>

datatype asm_op = Feed "byte list" int | Poll int | Flush | Overflow | Reset

fun asm_step :: "asm_op \<Rightarrow> capturing \<Rightarrow> capturing" where
  "asm_step (Feed bs t) a = esp32_log_feed bs t a"
| "asm_step (Poll t) a = esp32_log_poll t a"
| "asm_step Flush a = esp32_log_flush a"
| "asm_step Overflow a = esp32_log_note_overflow a"
| "asm_step Reset a = esp32_log_reset a"

lemma overflow_inv: "asm_inv a \<Longrightarrow> asm_inv (esp32_log_note_overflow a)"
proof -
  let ?a = "a\<lparr>ea_stats := (ea_stats a)\<lparr>es_overflows := es_overflows (ea_stats a) + 1\<rparr>,
                ea_escape := ESC_NONE, ea_seq := [], ea_seq_need := 0, ea_after_cr := False,
                ea_banner_match := 0\<rparr>"
  assume "asm_inv a"
  then have "asm_inv ?a" by (simp add: asm_inv_def)
  with append_replacement_inv [OF this] show ?thesis
    by (simp add: esp32_log_note_overflow_def Let_def)
qed

interpretation assembler: op_machine asm_step asm_inv
proof unfold_locales
  fix a :: capturing and x
  assume a: "asm_inv a"
  then show "asm_inv (asm_step x a)"
  proof (cases x)
    case (Feed bs t)
    with feed_bytes_inv [OF a] a show ?thesis by (simp add: esp32_log_feed_def Let_def)
  next
    case (Poll t)
    with a show ?thesis by (simp add: esp32_log_poll_def Let_def end_line_inv)
  next
    case Flush
    with a show ?thesis by (simp add: esp32_log_flush_def end_line_inv)
  next
    case Overflow
    with a overflow_inv show ?thesis by simp
  next
    case Reset
    with clear_inv [OF a] show ?thesis by (simp add: esp32_log_reset_def asm_inv_weaken)
  qed
qed

lemma asm_init_inv: "asm_inv (esp32_log_init capture [] ms)"
  by (simp add: esp32_log_init_def asm_inv_def clean_nil)

section \<open>Fragments\<close>

text \<open>The fields only \<^verbatim>\<open>esp32_log_feed\<close> and \<^verbatim>\<open>esp32_log_poll\<close> look at, set to fixed values.\<close>

definition forget :: "'c esp32_log_assembler \<Rightarrow> 'c esp32_log_assembler" where
  "forget a = a\<lparr>ea_last_byte_ms := 0, ea_has_partial := False\<rparr>"

lemma forget_simps [simp]:
  "ea_emit (forget a) = ea_emit a" "ea_ctx (forget a) = ea_ctx a" "ea_line (forget a) = ea_line a"
  "ea_truncated (forget a) = ea_truncated a" "ea_discarding (forget a) = ea_discarding a"
  "ea_last_was_replacement (forget a) = ea_last_was_replacement a" "ea_after_cr (forget a) = ea_after_cr a"
  "ea_seq (forget a) = ea_seq a" "ea_seq_need (forget a) = ea_seq_need a" "ea_escape (forget a) = ea_escape a"
  "ea_csi_len (forget a) = ea_csi_len a" "ea_banner_match (forget a) = ea_banner_match a"
  "ea_stats (forget a) = ea_stats a"
  by (simp_all add: forget_def)

lemma forget_updates:
  "forget (a\<lparr>ea_line := v1\<rparr>) = (forget a)\<lparr>ea_line := v1\<rparr>"
  "forget (a\<lparr>ea_truncated := v2\<rparr>) = (forget a)\<lparr>ea_truncated := v2\<rparr>"
  "forget (a\<lparr>ea_discarding := v3\<rparr>) = (forget a)\<lparr>ea_discarding := v3\<rparr>"
  "forget (a\<lparr>ea_last_was_replacement := v4\<rparr>) = (forget a)\<lparr>ea_last_was_replacement := v4\<rparr>"
  "forget (a\<lparr>ea_after_cr := v5\<rparr>) = (forget a)\<lparr>ea_after_cr := v5\<rparr>"
  "forget (a\<lparr>ea_seq := v6\<rparr>) = (forget a)\<lparr>ea_seq := v6\<rparr>"
  "forget (a\<lparr>ea_seq_need := v7\<rparr>) = (forget a)\<lparr>ea_seq_need := v7\<rparr>"
  "forget (a\<lparr>ea_escape := v8\<rparr>) = (forget a)\<lparr>ea_escape := v8\<rparr>"
  "forget (a\<lparr>ea_csi_len := v9\<rparr>) = (forget a)\<lparr>ea_csi_len := v9\<rparr>"
  "forget (a\<lparr>ea_banner_match := v10\<rparr>) = (forget a)\<lparr>ea_banner_match := v10\<rparr>"
  "forget (a\<lparr>ea_stats := v11\<rparr>) = (forget a)\<lparr>ea_stats := v11\<rparr>"
  "forget (a\<lparr>ea_ctx := v12\<rparr>) = (forget a)\<lparr>ea_ctx := v12\<rparr>"
  "forget (a\<lparr>ea_has_partial := p\<rparr>) = forget a" "forget (a\<lparr>ea_last_byte_ms := t\<rparr>) = forget a"
  "(forget a)\<lparr>ea_has_partial := False\<rparr> = forget a"
  by (simp_all add: forget_def)

lemma forget_emit: "forget (emit a) = emit (forget a)"
  by (simp add: emit_def Let_def forget_updates cong: option.case_cong)

lemma forget_pending: "forget (emit_pending a) = emit_pending (forget a)"
  by (simp add: emit_pending_def forget_emit)

lemma forget_clear: "forget (clear_line a) = clear_line (forget a)"
  by (simp add: clear_line_def forget_updates)

lemma forget_append: "forget (append_bytes bs a) = append_bytes bs (forget a)"
  by (simp add: append_bytes_def forget_updates forget_emit forget_clear)

lemma forget_append_char: "forget (append_char bs a) = append_char bs (forget a)"
  by (simp add: append_char_def forget_updates forget_append)

lemma forget_append_replacement: "forget (append_replacement a) = append_replacement (forget a)"
  by (simp add: append_replacement_def forget_updates forget_append)

lemma forget_abandon: "forget (abandon_sequence a) = abandon_sequence (forget a)"
  by (simp add: abandon_sequence_def forget_updates forget_append_replacement)

lemma discarding_forget: "ea_discarding (abandon_sequence (forget a)) = ea_discarding (abandon_sequence a)"
  "ea_line (abandon_sequence (forget a)) = ea_line (abandon_sequence a)"
  by (simp_all flip: forget_abandon)

lemma forget_end_line: "forget (end_line a) = end_line (forget a)"
  by (simp add: end_line_def forget_updates(13-) flip: forget_updates(1-12) forget_abandon forget_pending
      forget_clear)

lemma if_forget: "forget (if c then x else y) = (if c then forget x else forget y)"
  by simp

lemma forget_start_banner: "forget (start_banner_line a) = start_banner_line (forget a)"
  unfolding start_banner_line_def Let_def if_forget forget_append_char forget_updates forget_clear forget_pending
    forget_simps ..

lemma forget_banner_completed:
  "banner_completed b (forget a) = (fst (banner_completed b a), forget (snd (banner_completed b a)))"
  by (simp add: banner_completed_def forget_updates split: prod.split)

lemma forget_fresh: "forget (fresh_byte b a) = fresh_byte b (forget a)"
proof (cases "b = 0x09 \<or> (0x20 \<le> b \<and> b < 0x7F)")
  case True
  then show ?thesis
    unfolding fresh_byte_def forget_banner_completed
    by (cases "banner_completed b a"; cases "fst (banner_completed b a)")
      (simp_all add: forget_start_banner forget_append_char)
next
  case False
  then show ?thesis
    unfolding fresh_byte_def Let_def
    by (simp only: if_False if_forget forget_updates forget_append_replacement)
qed

lemma forget_text: "forget (text_byte b a) = text_byte b (forget a)"
  unfolding text_byte_def Let_def
  by (simp only: if_forget forget_updates forget_append_char forget_fresh forget_abandon forget_simps)
    (simp add: forget_updates forget_append_char)

lemma stats_forget: "ea_stats (abandon_sequence (forget a)) = ea_stats (abandon_sequence a)"
  by (simp flip: forget_abandon)

lemma forget_esc: "forget (esc_or_text b a) = esc_or_text b (forget a)"
  by (simp add: esc_or_text_def Let_def forget_updates forget_abandon forget_text stats_forget)

lemma forget_feed_byte: "forget (feed_byte b a) = feed_byte b (forget a)"
  by (cases "ea_escape a")
    (simp_all add: feed_byte_def Let_def if_distrib [of forget] forget_updates forget_end_line forget_esc)

lemma forget_feed_bytes: "forget (feed_bytes bs a) = feed_bytes bs (forget a)"
  by (induction bs arbitrary: a) (simp_all add: forget_feed_byte)

lemma feed_bytes_append: "feed_bytes (xs @ ys) a = feed_bytes ys (feed_bytes xs a)"
  by (induction xs arbitrary: a) simp_all

lemma forget_feed: "forget (esp32_log_feed bs t a) = feed_bytes bs (forget a)"
  by (simp add: esp32_log_feed_def Let_def forget_updates forget_feed_bytes)

text \<open>What \<^verbatim>\<open>esp32_log_feed\<close> leaves, from the bytes' effect alone.\<close>

definition stamp :: "int \<Rightarrow> 'c esp32_log_assembler \<Rightarrow> 'c esp32_log_assembler" where
  "stamp t a = a\<lparr>ea_last_byte_ms := t,
     ea_has_partial := 0 < length (ea_line a) \<or> 0 < length (ea_seq a) \<or> ea_discarding a \<or> ea_escape a \<noteq> ESC_NONE\<rparr>"

lemma stamp_forget: "stamp t (forget a) = stamp t a"
  by (simp add: stamp_def forget_def)

lemma feed_stamp: "bs \<noteq> [] \<Longrightarrow> esp32_log_feed bs t a = stamp t (feed_bytes bs a)"
  by (simp add: esp32_log_feed_def stamp_def Let_def)

lemma feed_fragments:
  assumes "ys \<noteq> []"
  shows "esp32_log_feed ys t2 (esp32_log_feed xs t1 a) = esp32_log_feed (xs @ ys) t2 a"
proof -
  have "forget (feed_bytes ys (esp32_log_feed xs t1 a)) = forget (feed_bytes (xs @ ys) a)"
    by (simp add: forget_feed_bytes forget_feed feed_bytes_append)
  then have "stamp t2 (feed_bytes ys (esp32_log_feed xs t1 a)) = stamp t2 (feed_bytes (xs @ ys) a)"
    by (metis stamp_forget)
  with assms show ?thesis by (simp add: feed_stamp)
qed

section \<open>The banner matcher\<close>

definition banner_state :: "byte list \<Rightarrow> nat" where
  "banner_state cs = foldl (\<lambda>m c. snd (banner_step m c)) 0 cs"

lemma banner_state_snoc: "banner_state (cs @ [c]) = snd (banner_step (banner_state cs) c)"
  by (simp add: banner_state_def)

lemma banner_nth:
  "banner ! 0 = 0x45" "banner ! 1 = 0x53" "banner ! 2 = 0x50" "banner ! 3 = 0x2D" "banner ! 4 = 0x52"
  "banner ! 5 = 0x4F" "banner ! 6 = 0x4D" "banner ! 7 = 0x3A" "length banner = 8"
  by (simp_all add: banner_def numeral_eq_Suc)

text \<open>No beginning of the banner is also an end of a longer beginning of it.\<close>

lemma banner_borderless:
  assumes "k < m" "m \<le> 8" "suffix (take k banner) (take m banner)"
  shows "k = 0"
proof (rule ccontr)
  assume k: "k \<noteq> 0"
  from assms(3) obtain zs where z: "take m banner = zs @ take k banner" by (auto simp: suffix_def)
  have len: "length zs = m - k" using arg_cong [OF z, of length] assms(1,2) by (simp add: banner_nth)
  have "(take m banner) ! (m - k) = (take k banner) ! 0" using z len by (simp add: nth_append)
  then have "banner ! (m - k) = 0x45" using assms(1,2) k by (simp add: banner_nth)
  moreover have "m - k \<in> {1, 2, 3, 4, 5, 6, 7}" using assms(1,2) k by auto
  ultimately show False using banner_nth by auto
qed

definition longest :: "byte list \<Rightarrow> nat \<Rightarrow> bool" where
  "longest cs m \<longleftrightarrow> m < 8 \<and> suffix (take m banner) cs \<and>
     (\<forall>k. k < 8 \<longrightarrow> suffix (take k banner) cs \<longrightarrow> k \<le> m)"

lemma suffix_step:
  "k < 8 \<Longrightarrow> suffix (take (Suc k) banner) (cs @ [c]) \<longleftrightarrow> suffix (take k banner) cs \<and> c = banner ! k"
  by (auto simp: take_Suc_conv_app_nth banner_nth)

lemma longest_step:
  assumes "longest cs m"
  shows "fst (banner_step m c) \<longleftrightarrow> suffix banner (cs @ [c])"
    and "longest (cs @ [c]) (snd (banner_step m c))"
proof -
  have m: "m < 8" "suffix (take m banner) cs" using assms by (simp_all add: longest_def)
  have only: "k = m \<or> k = 0" if "k < 8" "suffix (take k banner) cs" for k
  proof (cases "k < m")
    case True
    have "suffix (take k banner) (take m banner)"
      by (rule suffix_length_suffix [OF that(2) m(2)]) (use True in \<open>simp add: banner_nth\<close>)
    with banner_borderless [OF True] m(1) show ?thesis by simp
  next
    case False
    moreover have "k \<le> m" using assms that unfolding longest_def by blast
    ultimately show ?thesis by simp
  qed
  have full: "suffix banner (cs @ [c]) \<longleftrightarrow> m = 7 \<and> c = 0x3A"
  proof -
    have "suffix banner (cs @ [c]) \<longleftrightarrow> suffix (take 7 banner) cs \<and> c = banner ! 7"
      using suffix_step [of 7 cs c] by (simp add: banner_nth)
    also have "suffix (take 7 banner) cs \<longleftrightarrow> m = 7" using only [of 7] m by auto
    finally show ?thesis by (simp add: banner_nth)
  qed
  show hit: "fst (banner_step m c) \<longleftrightarrow> suffix banner (cs @ [c])"
    unfolding full using m(1) by (cases "m = 7") (auto simp: banner_step_def Let_def banner_nth)
  have cand: "k = Suc m \<and> c = banner ! m \<or> k = 1 \<and> c = 0x45 \<or> k = 0"
    if "k < 8" "suffix (take k banner) (cs @ [c])" for k
  proof (cases k)
    case (Suc j)
    with that suffix_step [of j cs c] have "suffix (take j banner) cs" "c = banner ! j" by simp_all
    with only [of j] that(1) Suc show ?thesis by (auto simp: banner_nth)
  qed simp
  show "longest (cs @ [c]) (snd (banner_step m c))"
  proof (cases "c = banner ! m")
    case True
    show ?thesis
    proof (cases "Suc m < 8")
      case True
      with \<open>c = banner ! m\<close> have s: "snd (banner_step m c) = Suc m" by (simp add: banner_step_def Let_def banner_nth)
      have "suffix (take (Suc m) banner) (cs @ [c])"
        using suffix_step [OF m(1)] m(2) \<open>c = banner ! m\<close> by simp
      with True cand s show ?thesis by (auto simp: longest_def) 
    next
      case False
      with m(1) have m7: "m = 7" by simp
      with \<open>c = banner ! m\<close> have s: "snd (banner_step m c) = 0" by (simp add: banner_step_def Let_def banner_nth)
      have "c = 0x3A" using m7 \<open>c = banner ! m\<close> by (simp add: banner_nth)
      with cand m7 s show ?thesis by (force simp: longest_def)
    qed
  next
    case False
    show ?thesis
    proof (cases "c = 0x45")
      case True
      with False have s: "snd (banner_step m c) = 1" by (simp add: banner_step_def Let_def banner_nth)
      have "suffix (take 1 banner) (cs @ [c])" using True by (simp add: banner_def suffix_def)
      with cand False s show ?thesis by (force simp: longest_def)
    next
      case no: False
      with False have "snd (banner_step m c) = 0" by (simp add: banner_step_def Let_def banner_nth)
      with cand False no show ?thesis by (force simp: longest_def)
    qed
  qed
qed

lemma banner_state_longest: "longest cs (banner_state cs)"
proof (induction cs rule: rev_induct)
  case Nil
  then show ?case by (auto simp: longest_def banner_state_def banner_def)
next
  case (snoc c cs)
  from longest_step(2) [OF this] show ?case by (simp add: banner_state_snoc)
qed

section \<open>Text that is kept\<close>

text \<open>An assembler in the middle of a line: \<open>l\<close> is buffered, \<open>cs\<close> is what the banner matcher has seen.\<close>

definition midline :: "byte list \<Rightarrow> byte list \<Rightarrow> capturing \<Rightarrow> bool" where
  "midline cs l a \<longleftrightarrow> ea_emit a = capture \<and> ea_line a = l \<and> \<not> ea_truncated a \<and> \<not> ea_discarding a \<and>
     ea_seq a = [] \<and> ea_escape a = ESC_NONE \<and> ea_banner_match a = banner_state cs"

abbreviation idle :: "capturing \<Rightarrow> bool" where "idle \<equiv> midline [] []"

lemma banner_state_lt: "banner_state cs < length banner"
  using banner_state_longest [of cs] by (simp add: longest_def banner_nth)

lemma not_control:
  assumes "text_ascii b \<or> 0x80 \<le> b"
  shows "b \<noteq> 0x0D" "b \<noteq> 0x0A" "b \<noteq> 0x1B"
  using assms by (auto simp: text_ascii_def byte_order)

lemma feed_text_byte:
  assumes "ea_escape a = ESC_NONE" "text_ascii b \<or> 0x80 \<le> b"
  shows "feed_byte b a = text_byte b (a\<lparr>ea_after_cr := False\<rparr>)"
  using assms(1) not_control [OF assms(2)] by (simp add: feed_byte_def esc_or_text_def)

lemma append_midline:
  assumes "midline cs l a" "length l + length bs \<le> LOG_STORE_TEXT_MAX"
  shows "midline cs (l @ bs) (append_char bs a)" "ea_ctx (append_char bs a) = ea_ctx a"
  using assms by (simp_all add: midline_def append_char_def append_bytes_def)

lemma no_hit:
  "\<not> suffix banner (cs @ [b]) \<Longrightarrow>
   banner_step (banner_state cs) b = (False, banner_state (cs @ [b]))"
  using longest_step(1) [OF banner_state_longest, of cs b] by (simp add: banner_state_snoc prod_eq_iff)

lemma hit:
  "suffix banner (cs @ [b]) \<Longrightarrow> banner_step (banner_state cs) b = (True, 0)"
  using longest_step(1) [OF banner_state_longest, of cs b]
  by (auto simp: banner_step_def Let_def split: if_splits)

lemma feed_ascii:
  assumes a: "midline cs l a" and b: "text_ascii b" and no: "\<not> suffix banner (cs @ [b])"
    and room: "length l < LOG_STORE_TEXT_MAX"
  shows "midline (cs @ [b]) (l @ [b]) (feed_byte b a)" "ea_ctx (feed_byte b a) = ea_ctx a"
proof -
  let ?a = "a\<lparr>ea_after_cr := False, ea_banner_match := banner_state (cs @ [b])\<rparr>"
  have "feed_byte b a = append_char [b] ?a"
    using a b no_hit [OF no]
    by (simp add: feed_text_byte midline_def text_byte_def fresh_byte_def banner_completed_def text_ascii_def)
  moreover have "midline (cs @ [b]) l ?a" using a by (simp add: midline_def)
  ultimately show "midline (cs @ [b]) (l @ [b]) (feed_byte b a)" "ea_ctx (feed_byte b a) = ea_ctx a"
    using append_midline [of "cs @ [b]" l ?a "[b]"] room by simp_all
qed

text \<open>A whole multi-byte code point.\<close>

definition collecting :: "byte list \<Rightarrow> byte list \<Rightarrow> nat \<Rightarrow> capturing \<Rightarrow> bool" where
  "collecting l s n a \<longleftrightarrow> ea_emit a = capture \<and> ea_line a = l \<and> \<not> ea_truncated a \<and> \<not> ea_discarding a \<and>
     ea_seq a = s \<and> ea_seq_need a = n \<and> ea_escape a = ESC_NONE \<and> ea_banner_match a = 0"

lemma feed_lead:
  assumes "midline cs l a" "need_of b = n" "n \<noteq> 0"
  shows "collecting l [b] n (feed_byte b a) \<and> ea_ctx (feed_byte b a) = ea_ctx a"
proof -
  have "0x80 \<le> b" using high_bytes(3) [of b] assms by (simp add: not_less)
  then have "feed_byte b a = fresh_byte b (a\<lparr>ea_after_cr := False\<rparr>)"
    using assms(1) by (simp add: feed_text_byte midline_def text_byte_def)
  with assms show ?thesis
    by (auto simp: fresh_byte_def Let_def midline_def collecting_def need_of_def byte_order split: if_splits)
qed

lemma feed_next:
  assumes "collecting l s n a" "s \<noteq> []" "if length s = 1 then second_byte_ok (s ! 0) b else cont b"
    "length s + 1 < n"
  shows "collecting l (s @ [b]) n (feed_byte b a) \<and> ea_ctx (feed_byte b a) = ea_ctx a"
proof -
  have "0x80 \<le> b" using assms(3) by (auto simp: not_less dest: high_bytes(1,2) split: if_splits)
  with assms show ?thesis
    by (auto simp: feed_text_byte text_byte_def collecting_def cont_def Let_def split: if_splits)
qed

lemma feed_last:
  assumes "collecting l s n a" "s \<noteq> []" "if length s = 1 then second_byte_ok (s ! 0) b else cont b"
    "length s + 1 = n" "length l + n \<le> LOG_STORE_TEXT_MAX" "banner_state cs = 0"
  shows "midline cs (l @ s @ [b]) (feed_byte b a) \<and> ea_ctx (feed_byte b a) = ea_ctx a"
proof -
  have "0x80 \<le> b" using assms(3) by (auto simp: not_less dest: high_bytes(1,2) split: if_splits)
  with assms show ?thesis
    by (auto simp: feed_text_byte text_byte_def collecting_def cont_def Let_def append_char_def append_bytes_def
        midline_def split: if_splits)
qed

lemma banner_state_high: "0x80 \<le> b \<Longrightarrow> banner_state (cs @ [b]) = 0"
proof -
  assume b: "0x80 \<le> b"
  have "banner ! k < 0x80" if "k < 8" for k
  proof -
    from that have "k \<in> {0, 1, 2, 3, 4, 5, 6, 7}" by auto
    then show ?thesis by (auto simp: banner_def byte_order)
  qed
  from this [of "banner_state cs"] this [of 0] b banner_state_lt [of cs]
  have "b \<noteq> banner ! banner_state cs" "b \<noteq> banner ! 0" by (auto simp: banner_nth byte_order)
  then show ?thesis by (simp add: banner_state_snoc banner_step_def Let_def banner_nth)
qed

lemma utf8_char_cases:
  assumes "utf8_char c"
  obtains (ascii) b where "c = [b]" "text_ascii b"
  | (two) l b where "c = [l, b]" "need_of l = 2" "second_byte_ok l b"
  | (three) l b d where "c = [l, b, d]" "need_of l = 3" "second_byte_ok l b" "cont d"
  | (four) l b d e where "c = [l, b, d, e]" "need_of l = 4" "second_byte_ok l b" "cont d" "cont e"
  using assms by (cases c rule: utf8_char.cases) auto

lemma feed_char:
  assumes a: "midline cs l a" and c: "utf8_char c" and no: "\<not> sublist banner (cs @ c)"
    and room: "length l + length c \<le> LOG_STORE_TEXT_MAX"
  shows "midline (cs @ c) (l @ c) (feed_bytes c a) \<and> ea_ctx (feed_bytes c a) = ea_ctx a"
  using c
proof (cases rule: utf8_char_cases)
  case (ascii b)
  with no have "\<not> suffix banner (cs @ [b])" by (metis suffix_imp_sublist)
  with feed_ascii [OF a ascii(2)] ascii room show ?thesis by simp
next
  case (two x b)
  have "banner_state (cs @ c) = 0"
    using banner_state_high [of b "cs @ [x]"] high_bytes(2) [OF two(3)] two(1) by simp
  with feed_lead [OF a two(2)] feed_last [of l "[x]" 2 _ b "cs @ c"] two room show ?thesis by simp
next
  case (three x b d)
  have "banner_state (cs @ c) = 0"
    using banner_state_high [of d "cs @ [x, b]"] high_bytes(1) [OF three(4)] three(1) by simp
  with feed_lead [OF a three(2)] feed_next [of l "[x]" 3 _ b] feed_last [of l "[x, b]" 3 _ d "cs @ c"] three room
  show ?thesis by simp
next
  case (four x b d e)
  have "banner_state (cs @ c) = 0"
    using banner_state_high [of e "cs @ [x, b, d]"] high_bytes(1) [OF four(5)] four(1) by simp
  with feed_lead [OF a four(2)] feed_next [of l "[x]" 4 _ b] feed_next [of l "[x, b]" 4 _ d]
    feed_last [of l "[x, b, d]" 4 _ e "cs @ c"] four room
  show ?thesis by simp
qed

lemma feed_clean:
  assumes "clean_text xs" "midline cs l a" "\<not> sublist banner (cs @ xs)"
    "length l + length xs \<le> LOG_STORE_TEXT_MAX"
  shows "midline (cs @ xs) (l @ xs) (feed_bytes xs a) \<and> ea_ctx (feed_bytes xs a) = ea_ctx a"
  using assms
proof (induction arbitrary: cs l a rule: clean_text.induct)
  case clean_nil
  then show ?case by simp
next
  case (clean_char c r)
  have "\<not> sublist banner (cs @ c)"
    using clean_char.prems(2) by (metis append.assoc sublist_append_rightI sublist_order.order_trans)
  from feed_char [OF clean_char.prems(1) clean_char.hyps(1) this] clean_char.prems(3)
  have "midline (cs @ c) (l @ c) (feed_bytes c a)" "ea_ctx (feed_bytes c a) = ea_ctx a" by simp_all
  with clean_char.IH [of "cs @ c" "l @ c" "feed_bytes c a"] clean_char.prems show ?case
    by (simp add: feed_bytes_append)
qed

text \<open>The byte that completes the banner.\<close>

lemma feed_banner_end:
  assumes a: "midline cs (l @ take 7 banner) a" and c: "suffix banner (cs @ [0x3A])"
    and l: "length l + 7 \<le> LOG_STORE_TEXT_MAX"
  shows "midline [] banner (feed_byte 0x3A a)"
    "ea_ctx (feed_byte 0x3A a) = ea_ctx a @ (if l = [] then [] else [line_of l False])"
proof -
  let ?a = "a\<lparr>ea_after_cr := False, ea_banner_match := 0\<rparr>"
  have f: "feed_byte 0x3A a = start_banner_line ?a"
    using a hit [OF c]
    by (simp add: feed_text_byte midline_def text_byte_def fresh_byte_def banner_completed_def text_ascii_def byte_order)
  have t: "drop (length l) (ea_line ?a) = take 7 banner" "length (ea_line ?a) = length l + 7"
    "take (length l) (ea_line ?a) = l" "ea_line ?a = l @ take 7 banner"
    using a by (simp_all add: midline_def banner_nth)
  have room: "8 \<le> LOG_STORE_TEXT_MAX" by (simp add: LOG_STORE_TEXT_MAX_def)
  have z: "banner_state [] = 0" by (simp add: banner_state_def)
  have seven: "take 7 banner @ [0x3A] = banner" by (simp add: banner_def)
  show "midline [] banner (feed_byte 0x3A a)"
    "ea_ctx (feed_byte 0x3A a) = ea_ctx a @ (if l = [] then [] else [line_of l False])"
  proof (atomize (full), cases "l = []")
    case True
    have "feed_byte 0x3A a = append_char [0x3A] ?a"
      unfolding f start_banner_line_def Let_def using t True a by (simp add: banner_nth midline_def)
    moreover have "midline [] (take 7 banner) ?a" using a True by (simp add: midline_def z)
    ultimately show "midline [] banner (feed_byte 0x3A a) \<and>
        ea_ctx (feed_byte 0x3A a) = ea_ctx a @ (if l = [] then [] else [line_of l False])"
      using append_midline [of "[]" "take 7 banner" ?a "[0x3A]"] True seven room by (simp add: banner_nth)
  next
    case False
    let ?b = "(clear_line (emit_pending (?a\<lparr>ea_line := l\<rparr>)))\<lparr>ea_discarding := False\<rparr>"
    have "feed_byte 0x3A a = append_char banner ?b"
      unfolding f start_banner_line_def Let_def using t False a by (simp add: banner_nth midline_def)
    moreover have b: "midline [] [] ?b" "ea_ctx ?b = ea_ctx a @ [line_of l False]"
      using a False by (simp_all add: midline_def z emit_pending_def clear_line_def)
    ultimately show "midline [] banner (feed_byte 0x3A a) \<and>
        ea_ctx (feed_byte 0x3A a) = ea_ctx a @ (if l = [] then [] else [line_of l False])"
      using append_midline [OF b(1), of banner] room False b(2) by (simp add: banner_nth)
  qed
qed

lemma feed_newline:
  assumes "midline cs l a" "\<not> ea_after_cr a"
  shows "idle (feed_byte 0x0A a)"
    "ea_ctx (feed_byte 0x0A a) = ea_ctx a @ (if l = [] then [] else [line_of l False])"
  using assms
  by (simp_all add: feed_byte_def end_line_def abandon_sequence_def emit_pending_def clear_line_def midline_def
      banner_state_def Let_def)

text \<open>Only a CR sets the CR flag.\<close>

lemma after_cr_simps [simp]:
  "ea_after_cr (emit a) = ea_after_cr a" "ea_after_cr (clear_line a) = ea_after_cr a"
  "ea_after_cr (emit_pending a) = ea_after_cr a"
  by (simp_all add: emit_def clear_line_def emit_pending_def Let_def)

lemma after_cr_append [simp]: "ea_after_cr (append_bytes bs a) = ea_after_cr a"
  by (simp add: append_bytes_def)

lemma after_cr_append_char [simp]: "ea_after_cr (append_char bs a) = ea_after_cr a"
  by (simp add: append_char_def)

lemma after_cr_replacement [simp]: "ea_after_cr (append_replacement a) = ea_after_cr a"
  by (simp add: append_replacement_def)

lemma after_cr_abandon [simp]: "ea_after_cr (abandon_sequence a) = ea_after_cr a"
  by (simp add: abandon_sequence_def)

lemma after_cr_end_line [simp]: "ea_after_cr (end_line a) = ea_after_cr a"
  by (simp add: end_line_def)

lemma after_cr_banner [simp]: "ea_after_cr (snd (banner_completed b a)) = ea_after_cr a"
  by (simp add: banner_completed_def split: prod.split)

lemma after_cr_start [simp]: "ea_after_cr (start_banner_line a) = ea_after_cr a"
  by (simp add: start_banner_line_def Let_def)

lemma after_cr_fresh [simp]: "ea_after_cr (fresh_byte b a) = ea_after_cr a"
  using after_cr_banner [of b a]
  by (auto simp: fresh_byte_def Let_def simp del: after_cr_banner split: prod.split bool.split)

lemma after_cr_text [simp]: "ea_after_cr (text_byte b a) = ea_after_cr a"
  by (simp add: text_byte_def Let_def)

lemma after_cr_esc [simp]: "ea_after_cr (esc_or_text b a) = ea_after_cr a"
  by (simp add: esc_or_text_def Let_def)

lemma after_cr_feed_byte: "b \<noteq> 0x0D \<Longrightarrow> \<not> ea_after_cr (feed_byte b a)"
  by (cases "ea_escape a") (simp_all add: feed_byte_def Let_def)

lemma after_cr_feed_bytes:
  "0x0D \<notin> set bs \<Longrightarrow> bs \<noteq> [] \<Longrightarrow> \<not> ea_after_cr (feed_bytes bs a)"
proof (induction bs rule: rev_induct)
  case (snoc b bs)
  then show ?case by (simp add: feed_bytes_append after_cr_feed_byte)
qed simp

lemma clean_no_cr: "clean_text bs \<Longrightarrow> 0x0D \<notin> set bs"
proof
  assume a: "clean_text bs" "0x0D \<in> set bs"
  then show False
  proof (induction rule: clean_text.induct)
    case (clean_char c r)
    then consider "0x0D \<in> set c" | "0x0D \<in> set r" by auto
    then show False
    proof cases
      case 1
      from utf8_char_ascii [OF clean_char.hyps(1) this] clean_char.hyps(1) show False
        by (simp add: text_ascii_def byte_order)
    qed (use clean_char in blast)
  qed simp
qed

text \<open>A line that is too long.\<close>

definition overlong :: "byte list \<Rightarrow> capturing \<Rightarrow> bool" where
  "overlong cs a \<longleftrightarrow> ea_emit a = capture \<and> ea_line a = [] \<and> ea_discarding a \<and>
     ea_seq a = [] \<and> ea_escape a = ESC_NONE \<and> ea_banner_match a = banner_state cs"

lemma feed_ascii_full:
  assumes a: "midline cs l a" and b: "text_ascii b" and no: "\<not> suffix banner (cs @ [b])"
    and room: "length l = LOG_STORE_TEXT_MAX"
  shows "overlong (cs @ [b]) (feed_byte b a)" "ea_ctx (feed_byte b a) = ea_ctx a @ [line_of l True]"
proof -
  let ?a = "a\<lparr>ea_after_cr := False, ea_banner_match := banner_state (cs @ [b])\<rparr>"
  have "feed_byte b a = append_char [b] ?a"
    using a b no_hit [OF no]
    by (simp add: feed_text_byte midline_def text_byte_def fresh_byte_def banner_completed_def text_ascii_def)
  with a room show "overlong (cs @ [b]) (feed_byte b a)"
    "ea_ctx (feed_byte b a) = ea_ctx a @ [line_of l True]"
    by (simp_all add: midline_def overlong_def append_char_def append_bytes_def clear_line_def)
qed

lemma feed_ascii_overlong:
  assumes a: "overlong cs a" and b: "text_ascii b" and no: "\<not> suffix banner (cs @ [b])"
  shows "overlong (cs @ [b]) (feed_byte b a) \<and> ea_ctx (feed_byte b a) = ea_ctx a"
proof -
  let ?a = "a\<lparr>ea_after_cr := False, ea_banner_match := banner_state (cs @ [b])\<rparr>"
  have "feed_byte b a = append_char [b] ?a"
    using a b no_hit [OF no]
    by (simp add: feed_text_byte overlong_def text_byte_def fresh_byte_def banner_completed_def text_ascii_def)
  with a show ?thesis by (simp add: overlong_def append_char_def append_bytes_def)
qed

lemma feed_overlong:
  assumes "\<forall>b \<in> set xs. text_ascii b" "overlong cs a" "\<not> sublist banner (cs @ xs)"
  shows "overlong (cs @ xs) (feed_bytes xs a) \<and> ea_ctx (feed_bytes xs a) = ea_ctx a"
  using assms
proof (induction xs arbitrary: cs a)
  case (Cons b xs)
  have "\<not> suffix banner (cs @ [b])"
    using Cons.prems(3)
    by (metis append.assoc append_Cons append_Nil sublist_append_rightI sublist_order.order_trans suffix_imp_sublist)
  with feed_ascii_overlong [OF Cons.prems(2)] Cons.prems(1)
  have "overlong (cs @ [b]) (feed_byte b a)" "ea_ctx (feed_byte b a) = ea_ctx a" by simp_all
  with Cons.IH [of "cs @ [b]" "feed_byte b a"] Cons.prems show ?case by simp
qed simp

lemma newline_overlong:
  assumes "overlong cs a" "\<not> ea_after_cr a"
  shows "idle (feed_byte 0x0A a) \<and> ea_ctx (feed_byte 0x0A a) = ea_ctx a"
  using assms
  by (simp add: feed_byte_def end_line_def abandon_sequence_def emit_pending_def clear_line_def midline_def
      overlong_def banner_state_def Let_def)

section \<open>Properties\<close>

lemma feed_nil: "esp32_log_feed [] t a = a"
  by (simp add: esp32_log_feed_def)

lemma feed_midline: "midline cs l (esp32_log_feed bs t a) = midline cs l (feed_bytes bs a)"
  "ea_ctx (esp32_log_feed bs t a) = ea_ctx (feed_bytes bs a)"
  by (cases "bs = []", simp_all add: esp32_log_feed_def Let_def midline_def)

text \<open>C20: Whatever bytes arrive, in whatever pieces and with whatever polls, flushes, overflows and
  resets between them, every line the assembler hands out has at most 512 bytes of well-formed UTF-8
  with no control character but TAB, and a module name, when there is one, of 1 to 64 such bytes.\<close>

theorem assembled_lines_are_clean:
  "list_all line_ok (ea_ctx (run_ops asm_step ops (esp32_log_init capture [] ms)))"
  using assembler.inv_run [OF asm_init_inv] by (simp add: asm_inv_def list_all_iff)

text \<open>C21: How the UART cuts the stream into pieces does not matter: feeding the pieces one by one
  leaves the very state that feeding their concatenation at the last piece's time leaves.\<close>

theorem fragments_do_not_matter:
  assumes "frags \<noteq> []" "fst (last frags) \<noteq> []"
  shows "fold (\<lambda>(bs, t). esp32_log_feed bs t) frags a =
    esp32_log_feed (concat (map fst frags)) (snd (last frags)) a"
proof -
  have "fold (\<lambda>(bs, t). esp32_log_feed bs t) (fs @ [f]) a =
      esp32_log_feed (concat (map fst (fs @ [f]))) (snd f) a" if "fst f \<noteq> []" for fs f
  proof -
    have "\<exists>u. fold (\<lambda>(bs, t). esp32_log_feed bs t) fs a = esp32_log_feed (concat (map fst fs)) u a"
    proof (induction fs rule: rev_induct)
      case Nil
      then show ?case by (simp add: feed_nil)
    next
      case (snoc g gs)
      then obtain u where u: "fold (\<lambda>(bs, t). esp32_log_feed bs t) gs a = esp32_log_feed (concat (map fst gs)) u a" ..
      obtain gb gt where g: "g = (gb, gt)" by (cases g)
      show ?case
      proof (cases "gb = []")
        case True
        with u g show ?thesis by (auto simp: feed_nil)
      next
        case False
        with u g feed_fragments [OF False, of gt "concat (map fst gs)" u a] show ?thesis by auto
      qed
    qed
    with feed_fragments [OF that] show ?thesis by (cases f) auto
  qed
  from this [of "last frags" "butlast frags"] assms show ?thesis by simp
qed

theorem fragments_do_not_matter_witness:
  "fold (\<lambda>(bs, t). esp32_log_feed bs t) [([0x48], 1), ([0x69, 0x0A], 2)] (esp32_log_init capture [] 100) =
    esp32_log_feed [0x48, 0x69, 0x0A] 2 (esp32_log_init capture [] 100)"
  using fragments_do_not_matter [of "[([0x48], 1), ([0x69, 0x0A], 2)]" "esp32_log_init capture [] 100"] by simp

text \<open>The boot banner always starts a line of its own: when valid text \<open>xs\<close>, the banner, valid
  text \<open>ys\<close> and a newline arrive, \<open>xs\<close> (if any) comes out as one complete line and the banner with
  \<open>ys\<close> as the next, byte for byte and unmarked, and the assembler is idle again.\<close>

theorem banner_starts_its_own_line:
  assumes "idle a" "clean_text xs" "clean_text ys"
    and "\<not> sublist banner (xs @ take 7 banner)" "\<not> sublist banner ys"
    and "length xs + 7 \<le> LOG_STORE_TEXT_MAX" "8 + length ys \<le> LOG_STORE_TEXT_MAX"
  shows "idle (esp32_log_feed (xs @ banner @ ys @ [0x0A]) t a) \<and>
    ea_ctx (esp32_log_feed (xs @ banner @ ys @ [0x0A]) t a) =
      ea_ctx a @ (if xs = [] then [] else [line_of xs False]) @ [line_of (banner @ ys) False]"
proof -
  have split: "xs @ banner @ ys @ [0x0A] = (xs @ take 7 banner) @ [0x3A] @ ys @ [0x0A]"
    by (simp add: banner_def)
  have head: "clean_text (take 7 banner)"
    by (rule clean_ascii) (auto simp: banner_def text_ascii_def byte_order)
  let ?a1 = "feed_bytes (xs @ take 7 banner) a"
  have a1: "midline (xs @ take 7 banner) (xs @ take 7 banner) ?a1" "ea_ctx ?a1 = ea_ctx a"
    using feed_clean [OF clean_append [OF assms(2) head] assms(1)] assms(4,6) by (simp_all add: banner_nth)
  let ?a2 = "feed_byte 0x3A ?a1"
  have "suffix banner ((xs @ take 7 banner) @ [0x3A])" by (simp add: banner_def suffix_def)
  note a2 = feed_banner_end [OF a1(1) this assms(6)]
  let ?a3 = "feed_bytes ys ?a2"
  have a3: "midline ys (banner @ ys) ?a3" "ea_ctx ?a3 = ea_ctx ?a2"
    using feed_clean [OF assms(3) a2(1)] assms(5,7) by (simp_all add: banner_nth)
  have cr: "\<not> ea_after_cr ?a3"
    using after_cr_feed_byte [of "0x3A" ?a1] after_cr_feed_bytes [OF clean_no_cr [OF assms(3)], of ?a2]
    by (cases "ys = []") simp_all
  have "feed_bytes (xs @ banner @ ys @ [0x0A]) a = feed_byte 0x0A ?a3"
    by (simp only: split feed_bytes_append) simp
  with feed_newline [OF a3(1) cr] a3(2) a2(2) a1(2) show ?thesis by (simp add: feed_midline)
qed

lemma idle_init: "idle (esp32_log_init capture ls ms)"
  by (simp add: midline_def esp32_log_init_def banner_state_def)

theorem banner_starts_its_own_line_witness:
  "ea_ctx (esp32_log_feed ([0x62, 0x6F, 0x6F] @ banner @ [0x65] @ [0x0A]) 5 (esp32_log_init capture [] 100)) =
    [line_of [0x62, 0x6F, 0x6F] False, line_of (banner @ [0x65]) False]"
proof -
  have n: "\<not> sublist banner ([0x62, 0x6F, 0x6F] @ take 7 banner)" "\<not> sublist banner [0x65]"
    by (simp_all add: banner_def sublist_Cons_right)
  have c: "clean_text [0x62, 0x6F, 0x6F]" "clean_text [0x65]"
    by (auto intro!: clean_ascii simp: text_ascii_def byte_order)
  show ?thesis
    using banner_starts_its_own_line [OF idle_init [of "[]" 100] c n, where t = 5]
    by (simp add: LOG_STORE_TEXT_MAX_def esp32_log_init_def)
qed

text \<open>A line of printable characters comes out exactly once when its newline arrives: whole when it
  has at most 512 bytes, and otherwise cut to its first 512 bytes and marked as truncated, the rest
  being dropped up to the newline. An empty line gives nothing.\<close>

theorem printable_line_comes_out_once:
  assumes "idle a" "list_all text_ascii xs" "\<not> sublist banner xs"
  shows "idle (esp32_log_feed (xs @ [0x0A]) t a) \<and>
    ea_ctx (esp32_log_feed (xs @ [0x0A]) t a) = ea_ctx a @ (if xs = [] then []
      else [line_of (take LOG_STORE_TEXT_MAX xs) (LOG_STORE_TEXT_MAX < length xs)])"
proof -
  have asc: "\<forall>b \<in> set xs. text_ascii b" using assms(2) by (simp add: list_all_iff)
  have cr: "xs \<noteq> [] \<Longrightarrow> \<not> ea_after_cr (feed_bytes xs a)"
    using after_cr_feed_bytes [OF clean_no_cr [OF clean_ascii [OF asc]]] by blast
  consider "xs = []" | "xs \<noteq> []" "length xs \<le> LOG_STORE_TEXT_MAX" | "LOG_STORE_TEXT_MAX < length xs" by linarith
  then show ?thesis
  proof cases
    case 1
    have "idle (feed_byte 0x0A a) \<and> ea_ctx (feed_byte 0x0A a) = ea_ctx a"
    proof (cases "ea_after_cr a")
      case True
      with assms(1) show ?thesis by (simp add: feed_byte_def Let_def midline_def)
    next
      case False
      with feed_newline [OF assms(1)] show ?thesis by simp
    qed
    with 1 show ?thesis by (simp add: feed_midline)
  next
    case 2
    from feed_clean [OF clean_ascii [OF asc] assms(1)] assms(3) 2(2)
    have "midline xs xs (feed_bytes xs a)" "ea_ctx (feed_bytes xs a) = ea_ctx a" by simp_all
    with feed_newline [OF _ cr] 2 show ?thesis by (simp add: feed_midline feed_bytes_append)
  next
    case 3
    let ?h = "take LOG_STORE_TEXT_MAX xs" and ?b = "xs ! LOG_STORE_TEXT_MAX" and ?r = "drop (Suc LOG_STORE_TEXT_MAX) xs"
    have x: "xs = ?h @ [?b] @ ?r" using 3 id_take_nth_drop by simp
    have no: "\<not> sublist banner ?h" "\<not> suffix banner (?h @ [?b])"
      using assms(3) x
      by (metis sublist_append_rightI sublist_order.order_trans,
          metis append.assoc sublist_append_rightI sublist_order.order_trans suffix_imp_sublist)
    have asc': "clean_text ?h" "text_ascii ?b" "\<forall>b \<in> set ?r. text_ascii b"
      using asc 3 by (auto intro!: clean_ascii dest: in_set_takeD in_set_dropD)
    let ?a1 = "feed_bytes ?h a"
    have a1: "midline ?h ?h ?a1" "ea_ctx ?a1 = ea_ctx a"
      using feed_clean [OF asc'(1) assms(1)] no(1) by simp_all
    have "length ?h = LOG_STORE_TEXT_MAX" using 3 by simp
    note a2 = feed_ascii_full [OF a1(1) asc'(2) no(2) this]
    have "\<not> sublist banner ((?h @ [?b]) @ ?r)" using assms(3) x by simp
    note a3 = feed_overlong [OF asc'(3) a2(1) this]
    have f: "feed_bytes xs a = feed_bytes ?r (feed_byte ?b ?a1)"
      by (subst x) (simp add: feed_bytes_append)
    have "overlong xs (feed_bytes xs a)" "ea_ctx (feed_bytes xs a) = ea_ctx a @ [line_of ?h True]"
      using a3 a2(2) a1(2) f x by simp_all
    with newline_overlong [OF _ cr] 3 show ?thesis by (auto simp: feed_midline feed_bytes_append)
  qed
qed

theorem printable_line_comes_out_once_witness:
  "ea_ctx (esp32_log_feed (replicate 600 0x41 @ [0x0A]) 5 (esp32_log_init capture [] 100)) =
    [line_of (replicate 512 0x41) True]"
proof -
  have "list_all text_ascii (replicate 600 0x41)" by (simp add: list_all_iff text_ascii_def byte_order)
  moreover have "\<not> sublist banner (replicate 600 0x41)"
  proof
    assume "sublist banner (replicate 600 0x41)"
    then have "set banner \<subseteq> {0x41}" by (auto simp: sublist_def dest!: arg_cong [of _ _ set])
    then show False by (simp add: banner_def)
  qed
  ultimately show ?thesis
    using printable_line_comes_out_once [OF idle_init [of "[]" 100], where xs = "replicate 600 0x41" and t = 5]
    by (simp add: LOG_STORE_TEXT_MAX_def take_replicate esp32_log_init_def)
qed

text \<open>A line is given a level and a module exactly when it has the ESP-IDF form: a level letter, a
  blank, a bracketed time that starts with a digit, a blank, a module name of 1 to 64 bytes without a
  colon, a colon, and either nothing or a blank and the text; the pieces are then those of the line.\<close>

theorem idf_prefix_recognised_exactly:
  "parse_esp_idf s = Some (level, tag, rest) \<longleftrightarrow>
    (\<exists>c d time tail. s = [c, B (CHR '' ''), B (CHR ''(''), d] @ time @ [B (CHR '')''), B (CHR '' '')] @ tag @
        B (CHR '':'') # tail \<and> is_level_letter c = Some level \<and> is_digit_byte d \<and>
      list_all is_time_byte time \<and> B (CHR '':'') \<notin> set tag \<and> 1 \<le> length tag \<and>
      length tag \<le> LOG_STORE_MODULE_MAX \<and> (tail = [] \<and> rest = [] \<or> tail = B (CHR '' '') # rest))"
  unfolding list_all_iff by (blast intro: parse_esp_idf_text dest: parse_esp_idf_Some)

end
