(* ===== verification/Log_Store.thy ===== *)
theory Log_Store
  imports Log_Types "HOL-Library.Sublist"
begin

text \<open>
  Model of \<^verbatim>\<open>modules/log-store/lib/log_store.c\<close>: one byte ring of variable-length records per log
  source, one sequence for both, readers that walk the rings, and cursors.

  Positions in a ring are absolute (bytes ever written), \<^verbatim>\<open>uint64_t\<close> in the code and naturals here:
  a device does not write \<open>2 ^ 64\<close> bytes. Sequence numbers, counters and the fields of a record keep
  their widths. Fields of enum type that come from callers or from ring bytes are the enum's integer.
  The cycle counter and its conversion to microseconds are parameters (\<open>hw\<close>); each entry point runs
  whole under the store's mutex, and reads take it once per record, which is one \<open>read_one\<close> here.
\<close>

section \<open>Data\<close>

definition LOG_STORE_CONTAINS_MAX :: nat where "LOG_STORE_CONTAINS_MAX = 512"
definition LOG_STORE_SOURCE_COUNT :: nat where "LOG_STORE_SOURCE_COUNT = 2"
definition LOG_STORE_LOSS_COUNT :: nat where "LOG_STORE_LOSS_COUNT = 2"

definition HDR_SIZE :: nat where "HDR_SIZE = 28"
definition TRAILER_SIZE :: nat where "TRAILER_SIZE = 4"
definition TRAILER_MAGIC :: nat where "TRAILER_MAGIC = 0xC3D5"

text \<open>\<^verbatim>\<open>ROUND_UP(n, 4)\<close>.\<close>

definition round_up4 :: "nat \<Rightarrow> nat" where "round_up4 n = (n + 3) div 4 * 4"

definition RECORD_MIN :: nat where "RECORD_MIN = round_up4 HDR_SIZE + TRAILER_SIZE"
definition RECORD_MAX :: nat where
  "RECORD_MAX = round_up4 (HDR_SIZE + LOG_STORE_MODULE_MAX + LOG_STORE_TEXT_MAX) + TRAILER_SIZE"

definition FLAG_KIND_MASK :: byte where "FLAG_KIND_MASK = 0x07"
definition FLAG_HAS_MODULE :: byte where "FLAG_HAS_MODULE = 0x40"
definition FLAG_TRUNCATED :: byte where "FLAG_TRUNCATED = 0x80"

definition CURSOR_VERSION :: byte where "CURSOR_VERSION = 1"
definition CURSOR_RAW_LEN :: nat where "CURSOR_RAW_LEN = 29"
definition CURSOR_TEXT_LEN :: nat where "CURSOR_TEXT_LEN = 39"
definition FNV32_INIT :: u32 where "FNV32_INIT = 0x811C9DC5"
definition FNV32_PRIME :: u32 where "FNV32_PRIME = 0x01000193"

record ring =
  rb_buf :: "byte list"
  rb_size :: nat
  rb_head :: nat
  rb_tail :: nat
  rb_records :: u32
  rb_appended :: u64
  rb_overwritten :: u64

record log_store_entry =
  le_source :: nat
  le_level :: nat
  le_kind :: nat
  le_truncated :: bool
  le_generation :: u32
  le_uptime_ms :: u64
  le_module :: "byte list option"
  le_text :: "byte list option"
  le_text_len :: nat

record log_store_record =
  lr_source :: nat
  lr_level :: nat
  lr_kind :: nat
  lr_truncated :: bool
  lr_generation :: u32
  lr_seq :: u64
  lr_uptime_ms :: u64
  lr_has_module :: bool
  lr_module :: "byte list"
  lr_text :: "byte list"

record log_store_filter =
  lf_sources :: byte
  lf_min_level :: nat
  lf_has_module :: bool
  lf_module :: "byte list"
  lf_has_contains :: bool
  lf_contains :: "byte list"

record log_store_reader =
  rd_filter :: log_store_filter
  rd_pos :: "nat list"
  rd_upper_seq :: u64
  rd_gap :: bool
  rd_scanned :: u32

datatype log_store_read_result = LOG_STORE_READ_RECORD | LOG_STORE_READ_END | LOG_STORE_READ_BUDGET

record log_store_stats =
  lt_appended :: u64
  lt_overwritten :: u64
  lt_lost :: "u64 list"
  lt_used_bytes :: u32
  lt_capacity_bytes :: u32
  lt_records :: u32

record log_store_timing =
  tm_append_hold_max_us :: u32
  tm_append_wait_max_us :: u32
  tm_read_hold_max_us :: u32

text \<open>The statics of the file; \<open>ls_ticks\<close> counts how often the cycle counter was read.\<close>

record log_store =
  ls_rings :: "ring list"
  ls_next_seq :: u64
  ls_initialized :: bool
  ls_panicked :: bool
  ls_losses :: "u64 list list"
  ls_timing :: log_store_timing
  ls_ticks :: nat

text \<open>The \<open>n\<close>-th reading of \<^verbatim>\<open>k_cycle_get_32\<close>, and \<^verbatim>\<open>k_cyc_to_us_floor32\<close>.\<close>

record hw =
  hw_cycles :: "nat \<Rightarrow> u32"
  hw_us :: "u32 \<Rightarrow> u32"

section \<open>Ring bytes\<close>

definition ring_off :: "ring \<Rightarrow> nat \<Rightarrow> nat" where
  "ring_off r pos = pos AND (rb_size r - 1)"

definition ring_put :: "ring \<Rightarrow> nat \<Rightarrow> byte list \<Rightarrow> ring" where
  "ring_put r pos src =
     (let off = ring_off r pos; n = length src; first = min n (rb_size r - off);
          buf1 = blit off (take first src) (rb_buf r);
          buf2 = (if first < n then blit 0 (drop first src) buf1 else buf1)
      in r\<lparr>rb_buf := buf2\<rparr>)"

definition ring_get :: "ring \<Rightarrow> nat \<Rightarrow> nat \<Rightarrow> byte list" where
  "ring_get r pos n =
     (let off = ring_off r pos; first = min n (rb_size r - off) in
      take first (drop off (rb_buf r)) @ (if first < n then take (n - first) (rb_buf r) else []))"

definition length_sane :: "nat \<Rightarrow> bool" where
  "length_sane len \<longleftrightarrow> RECORD_MIN \<le> len \<and> len \<le> RECORD_MAX \<and> len AND 3 = 0"

section \<open>Timing\<close>

definition cycles_us :: "hw \<Rightarrow> u32 \<Rightarrow> u32 \<Rightarrow> u32" where
  "cycles_us h t0 t1 = hw_us h (t1 - t0)"

definition k_cycle_get :: "hw \<Rightarrow> log_store \<Rightarrow> u32 \<times> log_store" where
  "k_cycle_get h st = (hw_cycles h (ls_ticks st), st\<lparr>ls_ticks := ls_ticks st + 1\<rparr>)"

text \<open>The moment the lock was taken, the time waited for it, and the state.\<close>

definition lock_store :: "hw \<Rightarrow> log_store \<Rightarrow> u32 \<times> u32 \<times> log_store" where
  "lock_store h st =
     (case k_cycle_get h st of (t0, st1) \<Rightarrow>
      case k_cycle_get h st1 of (t1, st2) \<Rightarrow> (t1, cycles_us h t0 t1, st2))"

definition note_max :: "u32 \<Rightarrow> u32 \<Rightarrow> u32" where
  "note_max old value = (if old < value then value else old)"

definition note_append_times :: "hw \<Rightarrow> u32 \<Rightarrow> u32 \<Rightarrow> log_store \<Rightarrow> log_store" where
  "note_append_times h wait_us t1 st =
     (case k_cycle_get h st of (t2, st1) \<Rightarrow>
      let tm = ls_timing st1 in
      st1\<lparr>ls_timing := tm\<lparr>tm_append_wait_max_us := note_max (tm_append_wait_max_us tm) wait_us,
                           tm_append_hold_max_us := note_max (tm_append_hold_max_us tm) (cycles_us h t1 t2)\<rparr>\<rparr>)"

definition note_read_time :: "hw \<Rightarrow> u32 \<Rightarrow> log_store \<Rightarrow> log_store" where
  "note_read_time h t1 st =
     (case k_cycle_get h st of (t2, st1) \<Rightarrow>
      let tm = ls_timing st1 in
      st1\<lparr>ls_timing := tm\<lparr>tm_read_hold_max_us := note_max (tm_read_hold_max_us tm) (cycles_us h t1 t2)\<rparr>\<rparr>)"

section \<open>Text helpers\<close>

text \<open>The loop of \<^verbatim>\<open>log_store_utf8_cut\<close> from \<open>back\<close> on, \<open>left\<close> rounds before \<open>back\<close> passes 4.\<close>

definition lead_need :: "byte \<Rightarrow> nat" where
  "lead_need c = (if c < 0x80 then 1 else if c AND 0xE0 = 0xC0 then 2
     else if c AND 0xF0 = 0xE0 then 3 else if c AND 0xF8 = 0xF0 then 4 else 1)"

fun cut_loop :: "byte list \<Rightarrow> nat \<Rightarrow> nat \<Rightarrow> nat \<Rightarrow> nat" where
  "cut_loop text n back 0 = n"
| "cut_loop text n back (Suc left) =
     (if n < back then n
      else let c = text ! (n - back) in
        if c AND 0xC0 = 0x80 then cut_loop text n (back + 1) left
        else if back < lead_need c then n - back else n)"

definition log_store_utf8_cut :: "byte list \<Rightarrow> nat \<Rightarrow> nat \<Rightarrow> nat" where
  "log_store_utf8_cut text len cap = cut_loop text (min len cap) 1 4"

definition bounded_len :: "byte list \<Rightarrow> nat \<Rightarrow> nat" where
  "bounded_len s max_len = length (cstr (take max_len s))"

definition fnv1a :: "u32 \<Rightarrow> byte list \<Rightarrow> u32" where
  "fnv1a h data = foldl (\<lambda>h b. (h XOR ucast b) * FNV32_PRIME) h data"

section \<open>Initialisation, append, counters\<close>

definition zero_timing :: log_store_timing where
  "zero_timing = \<lparr>tm_append_hold_max_us = 0, tm_append_wait_max_us = 0, tm_read_hold_max_us = 0\<rparr>"

definition empty_ring :: "nat \<Rightarrow> ring" where
  "empty_ring n = \<lparr>rb_buf = replicate n 0, rb_size = n, rb_head = 0, rb_tail = 0,
     rb_records = 0, rb_appended = 0, rb_overwritten = 0\<rparr>"

text \<open>The statics at boot, for ring sizes in KiB (Kconfig).\<close>

definition log_store_statics :: "nat \<Rightarrow> nat \<Rightarrow> log_store" where
  "log_store_statics stm32_kib esp32_kib =
     \<lparr>ls_rings = [empty_ring (stm32_kib * 1024), empty_ring (esp32_kib * 1024)], ls_next_seq = 1,
      ls_initialized = False, ls_panicked = False,
      ls_losses = replicate LOG_STORE_SOURCE_COUNT (replicate LOG_STORE_LOSS_COUNT 0),
      ls_timing = zero_timing, ls_ticks = 0\<rparr>"

definition log_store_init :: "log_store \<Rightarrow> log_store" where
  "log_store_init st = st\<lparr>
     ls_rings := map (\<lambda>r. r\<lparr>rb_head := 0, rb_tail := 0, rb_records := 0, rb_appended := 0,
                            rb_overwritten := 0\<rparr>) (ls_rings st),
     ls_next_seq := 1, ls_timing := zero_timing, ls_panicked := False, ls_initialized := True,
     ls_losses := replicate LOG_STORE_SOURCE_COUNT (replicate LOG_STORE_LOSS_COUNT 0)\<rparr>"

definition log_store_ready :: "log_store \<Rightarrow> bool" where
  "log_store_ready st = ls_initialized st"

definition log_store_panic :: "log_store \<Rightarrow> log_store" where
  "log_store_panic st = st\<lparr>ls_panicked := True\<rparr>"

text \<open>Push out the oldest records until \<open>total\<close> more bytes fit.\<close>

function make_room :: "nat \<Rightarrow> ring \<Rightarrow> ring" where
  "make_room len_total r =
     (if rb_size r < rb_head r + len_total - rb_tail r then
        let len = get_le (ring_get r (rb_tail r) 2) in
        if \<not> length_sane len
        then r\<lparr>rb_overwritten := rb_overwritten r + ucast (rb_records r), rb_records := 0,
               rb_tail := rb_head r\<rparr>
        else make_room len_total (r\<lparr>rb_tail := rb_tail r + len, rb_records := rb_records r - 1,
                                    rb_overwritten := rb_overwritten r + 1\<rparr>)
      else r)"
  by pat_completeness auto
termination
  by (relation "measure (\<lambda>(t, r). rb_head r + t - rb_tail r)")
    (auto simp: length_sane_def RECORD_MIN_def HDR_SIZE_def TRAILER_SIZE_def round_up4_def)

declare make_room.simps [simp del]

text \<open>The text and module bytes that are stored, and whether the record is marked.\<close>

definition entry_text :: "log_store_entry \<Rightarrow> byte list" where
  "entry_text e = (case le_text e of None \<Rightarrow> [] | Some t \<Rightarrow>
     take (if LOG_STORE_TEXT_MAX < le_text_len e then log_store_utf8_cut t (le_text_len e) LOG_STORE_TEXT_MAX
           else le_text_len e) t)"

definition entry_truncated :: "log_store_entry \<Rightarrow> bool" where
  "entry_truncated e \<longleftrightarrow> le_truncated e \<or> LOG_STORE_TEXT_MAX < le_text_len e"

definition entry_module :: "log_store_entry \<Rightarrow> byte list" where
  "entry_module e = (case le_module e of None \<Rightarrow> [] | Some m \<Rightarrow>
     (if LOG_STORE_MODULE_MAX < length m then take (log_store_utf8_cut m (length m) LOG_STORE_MODULE_MAX) m
      else m))"

definition record_total :: "nat \<Rightarrow> nat \<Rightarrow> nat" where
  "record_total mlen tlen = round_up4 (HDR_SIZE + mlen + tlen) + TRAILER_SIZE"

definition entry_header :: "nat \<Rightarrow> log_store_entry \<Rightarrow> u64 \<Rightarrow> byte list" where
  "entry_header len_total e seq =
     put_le 2 len_total @
     [of_nat (le_level e),
      of_nat (le_kind e) OR (if le_module e \<noteq> None then FLAG_HAS_MODULE else 0) OR
        (if entry_truncated e then FLAG_TRUNCATED else 0),
      of_nat (length (entry_module e)), of_nat (le_source e)] @
     put_le 2 (length (entry_text e)) @ put_le 4 (unat (le_generation e)) @ put_le 8 (unat seq) @
     put_le 8 (unat (le_uptime_ms e))"

text \<open>The five writes of one record at the head, then the head moves.\<close>

definition write_record :: "log_store_entry \<Rightarrow> u64 \<Rightarrow> ring \<Rightarrow> ring" where
  "write_record e seq r =
     (let m = entry_module e; t = entry_text e; len_total = record_total (length m) (length t);
          trailer = put_le 2 len_total @ put_le 2 TRAILER_MAGIC;
          pos0 = rb_head r; r1 = ring_put r pos0 (entry_header len_total e seq); pos1 = pos0 + HDR_SIZE;
          r2 = (if 0 < length m then ring_put r1 pos1 m else r1); pos2 = pos1 + length m;
          r3 = (if 0 < length t then ring_put r2 pos2 t else r2); pos3 = pos2 + length t;
          r4 = ring_put r3 pos3 (replicate (len_total - TRAILER_SIZE - HDR_SIZE - length m - length t) 0);
          r5 = ring_put r4 (rb_head r4 + len_total - TRAILER_SIZE) trailer
      in r5\<lparr>rb_head := rb_head r5 + len_total, rb_records := rb_records r5 + 1,
            rb_appended := rb_appended r5 + 1\<rparr>)"

definition entry_invalid :: "log_store_entry \<Rightarrow> bool" where
  "entry_invalid e \<longleftrightarrow> LOG_STORE_SOURCE_COUNT \<le> le_source e \<or> 5 < le_level e \<or> 3 < le_kind e \<or>
     (le_text e = None \<and> 0 < le_text_len e)"

text \<open>
  \<open>panics\<close>: another thread panics while this one waits for the lock. \<open>None\<close> as the entry is the NULL
  pointer; the result \<open>None\<close> is 0.
\<close>

definition log_store_append ::
    "hw \<Rightarrow> bool \<Rightarrow> log_store_entry option \<Rightarrow> log_store \<Rightarrow> errno option \<times> log_store" where
  "log_store_append h panics entry st0 =
     (if ls_panicked st0 \<or> \<not> ls_initialized st0 then (Some EAGAIN, st0)
      else (case entry of
        None \<Rightarrow> (Some EINVAL, st0)
      | Some e \<Rightarrow>
          if entry_invalid e then (Some EINVAL, st0)
          else
            (case lock_store h (if panics then log_store_panic st0 else st0) of (t1, wait_us, st) \<Rightarrow>
             if ls_panicked st then (Some EAGAIN, st)
             else let seq = ls_next_seq st;
                      r = ls_rings st ! le_source e;
                      r' = write_record e seq
                             (make_room (record_total (length (entry_module e)) (length (entry_text e))) r)
                  in (None, note_append_times h wait_us t1
                        (st\<lparr>ls_next_seq := seq + 1, ls_rings := (ls_rings st)[le_source e := r']\<rparr>)))))"

definition log_store_count_loss :: "nat \<Rightarrow> nat \<Rightarrow> u32 \<Rightarrow> log_store \<Rightarrow> log_store" where
  "log_store_count_loss source loss n st =
     (if LOG_STORE_SOURCE_COUNT \<le> source \<or> LOG_STORE_LOSS_COUNT \<le> loss then st
      else st\<lparr>ls_losses := (ls_losses st)[source :=
             (ls_losses st ! source)[loss := ls_losses st ! source ! loss + ucast n]]\<rparr>)"

definition source_bit :: "nat \<Rightarrow> byte" where
  "source_bit s = push_bit s 1"

definition LOG_STORE_SOURCES_ALL :: byte where
  "LOG_STORE_SOURCES_ALL = source_bit 0 OR source_bit 1"

definition log_store_dropped :: "byte \<Rightarrow> log_store \<Rightarrow> u64" where
  "log_store_dropped sources st =
     foldl (\<lambda>sum s. if sources AND source_bit s = 0 then sum
            else foldl (\<lambda>sum l. sum + ls_losses st ! s ! l) sum [0..<LOG_STORE_LOSS_COUNT])
       0 [0..<LOG_STORE_SOURCE_COUNT]"

definition log_store_get_stats :: "nat \<Rightarrow> log_store \<Rightarrow> log_store_stats" where
  "log_store_get_stats source st =
     (if LOG_STORE_SOURCE_COUNT \<le> source
      then \<lparr>lt_appended = 0, lt_overwritten = 0, lt_lost = replicate LOG_STORE_LOSS_COUNT 0,
            lt_used_bytes = 0, lt_capacity_bytes = 0, lt_records = 0\<rparr>
      else let r = ls_rings st ! source in
        \<lparr>lt_appended = rb_appended r, lt_overwritten = rb_overwritten r, lt_lost = ls_losses st ! source,
         lt_used_bytes = of_nat (rb_head r - rb_tail r), lt_capacity_bytes = of_nat (rb_size r),
         lt_records = rb_records r\<rparr>)"

definition log_store_get_timing :: "log_store \<Rightarrow> log_store_timing" where
  "log_store_get_timing st = ls_timing st"

definition log_store_next_seq :: "log_store \<Rightarrow> u64" where
  "log_store_next_seq st = ls_next_seq st"

section \<open>Reading\<close>

definition copy_record :: "ring \<Rightarrow> nat \<Rightarrow> byte list \<Rightarrow> log_store_record" where
  "copy_record r pos hdr =
     (let flags = hdr ! 3;
          mlen = min (unat (hdr ! 4)) LOG_STORE_MODULE_MAX;
          tlen = min (get_le (take 2 (drop 6 hdr))) LOG_STORE_TEXT_MAX in
      \<lparr>lr_source = unat (hdr ! 5), lr_level = unat (hdr ! 2), lr_kind = unat (flags AND FLAG_KIND_MASK),
       lr_truncated = (flags AND FLAG_TRUNCATED \<noteq> 0), lr_generation = of_nat (get_le (take 4 (drop 8 hdr))),
       lr_seq = of_nat (get_le (take 8 (drop 12 hdr))), lr_uptime_ms = of_nat (get_le (take 8 (drop 20 hdr))),
       lr_has_module = (flags AND FLAG_HAS_MODULE \<noteq> 0),
       lr_module = ring_get r (pos + HDR_SIZE) mlen,
       lr_text = ring_get r (pos + HDR_SIZE + mlen) tlen\<rparr>)"

definition lower_ascii :: "byte \<Rightarrow> byte" where
  "lower_ascii b = (if of_char (CHR ''A'') \<le> b \<and> b \<le> of_char (CHR ''Z'')
     then b - of_char (CHR ''A'') + of_char (CHR ''a'') else b)"

fun same_text :: "byte list \<Rightarrow> byte list \<Rightarrow> bool" where
  "same_text hay [] = True"
| "same_text [] (b # needle) = False"
| "same_text (a # hay) (b # needle) = (lower_ascii a = lower_ascii b \<and> same_text hay needle)"

definition ascii_contains :: "byte list \<Rightarrow> byte list \<Rightarrow> bool" where
  "ascii_contains hay needle0 =
     (let needle = cstr needle0; n = length needle in
      if n = 0 then True
      else list_ex (\<lambda>i. same_text (drop i hay) needle) [0..<length hay + 1 - n])"

definition log_store_filter_match :: "log_store_filter \<Rightarrow> log_store_record \<Rightarrow> bool" where
  "log_store_filter_match f rec =
     (if LOG_STORE_SOURCE_COUNT \<le> lr_source rec \<or> lf_sources f AND source_bit (lr_source rec) = 0 then False
      else if lf_min_level f \<noteq> 0 \<and> 1 \<le> lr_level rec \<and> lr_level rec \<le> 4 \<and> lr_level rec < lf_min_level f
      then False
      else if lf_has_module f \<and> (\<not> lr_has_module rec \<or> cstr (lf_module f) \<noteq> cstr (lr_module rec)) then False
      else if lf_has_contains f \<and> \<not> ascii_contains (lr_text rec) (lf_contains f) then False
      else True)"

definition reader_init :: "log_store_filter \<Rightarrow> log_store_reader" where
  "reader_init f = \<lparr>rd_filter = f, rd_pos = replicate LOG_STORE_SOURCE_COUNT 0, rd_upper_seq = 0,
     rd_gap = False, rd_scanned = 0\<rparr>"

definition log_store_reader_at :: "log_store_filter \<Rightarrow> nat list \<Rightarrow> log_store \<Rightarrow> log_store_reader" where
  "log_store_reader_at f pos st =
     (reader_init f)\<lparr>
        rd_pos := map (\<lambda>s. min (max (pos ! s) (rb_tail (ls_rings st ! s))) (rb_head (ls_rings st ! s)))
                    [0..<LOG_STORE_SOURCE_COUNT],
        rd_gap := list_ex (\<lambda>s. pos ! s < rb_tail (ls_rings st ! s) \<and> lf_sources f AND source_bit s \<noteq> 0)
                    [0..<LOG_STORE_SOURCE_COUNT]\<rparr>"

definition header_seq :: "byte list \<Rightarrow> u64" where
  "header_seq hdr = of_nat (get_le (take 8 (drop 12 hdr)))"

text \<open>The best candidate of both rings: the first one no later one is better than.\<close>

fun pick :: "(u64 \<Rightarrow> u64 \<Rightarrow> bool) \<Rightarrow> nat \<Rightarrow> byte list option list \<Rightarrow> (nat \<times> u64) option \<Rightarrow> (nat \<times> u64) option" where
  "pick better s [] best = best"
| "pick better s (None # hs) best = pick better (Suc s) hs best"
| "pick better s (Some hdr # hs) best =
     pick better (Suc s) hs
       (case best of None \<Rightarrow> Some (s, header_seq hdr)
        | Some (b, q) \<Rightarrow> if better (header_seq hdr) q then Some (s, header_seq hdr) else best)"

text \<open>One ring as a walk towards its tail sees it: the position, whether it is done, and the record
  that ends there.\<close>

definition peek_back :: "ring \<Rightarrow> nat \<times> bool \<Rightarrow> nat \<times> bool \<times> (nat \<times> byte list) option" where
  "peek_back r bd =
     (case bd of (bp, finished) \<Rightarrow>
      if finished then (bp, True, None)
      else if bp \<le> rb_tail r then (max bp (rb_tail r), True, None)
      else let tr = ring_get r (bp - TRAILER_SIZE) TRAILER_SIZE; len = get_le (take 2 tr) in
        if get_le (drop 2 tr) \<noteq> TRAILER_MAGIC \<or> \<not> length_sane len \<or> bp - rb_tail r < len
        then (rb_tail r, True, None)
        else (bp, False, Some (bp - len, ring_get r (bp - len) HDR_SIZE)))"

text \<open>One round of the walk: the newest record of both rings that was not passed yet.\<close>

definition back_one ::
    "hw \<Rightarrow> (nat \<times> bool) list \<Rightarrow> log_store \<Rightarrow> log_store_record option \<times> (nat \<times> bool) list \<times> log_store" where
  "back_one h bds st0 =
     (case lock_store h st0 of (t1, wait_us, st) \<Rightarrow>
      let peeks = map (\<lambda>s. peek_back (ls_rings st ! s) (bds ! s)) [0..<LOG_STORE_SOURCE_COUNT];
          bds1 = map (\<lambda>(bp, d, x). (bp, d)) peeks in
      case pick (\<lambda>q b. b < q) 0 (map (\<lambda>(bp, d, x). map_option snd x) peeks) None of
        None \<Rightarrow> (None, bds1, st)
      | Some (b, q) \<Rightarrow>
          (case peeks ! b of
             (bp, d, Some (start, hdr)) \<Rightarrow>
               (Some (copy_record (ls_rings st ! b) start hdr), bds1[b := (start, d)], note_read_time h t1 st)
           | _ \<Rightarrow> (None, bds1, st)))"

fun tail_loop ::
    "hw \<Rightarrow> log_store_filter \<Rightarrow> nat \<Rightarrow> nat \<Rightarrow> u32 \<Rightarrow> (nat \<times> bool) list \<Rightarrow> log_store \<Rightarrow>
     (nat \<times> bool) list \<times> u32 \<times> log_store" where
  "tail_loop h f budget 0 scanned bds st = (bds, scanned, st)"
| "tail_loop h f 0 (Suc count) scanned bds st = (bds, scanned, st)"
| "tail_loop h f (Suc budget) (Suc count) scanned bds st =
     (case back_one h bds st of
        (None, bds', st') \<Rightarrow> (bds', scanned, st')
      | (Some rec, bds', st') \<Rightarrow>
          tail_loop h f budget (if log_store_filter_match f rec then count else Suc count) (scanned + 1) bds' st')"

definition log_store_reader_tail ::
    "hw \<Rightarrow> log_store_filter \<Rightarrow> nat \<Rightarrow> nat \<Rightarrow> log_store \<Rightarrow> log_store_reader \<times> log_store" where
  "log_store_reader_tail h f count scan_budget st =
     (case tail_loop h f scan_budget count 0
             (map (\<lambda>s. (rb_head (ls_rings st ! s), lf_sources f AND source_bit s = 0)) [0..<LOG_STORE_SOURCE_COUNT]) st
      of (bds, scanned, st') \<Rightarrow> ((reader_init f)\<lparr>rd_pos := map fst bds, rd_scanned := scanned\<rparr>, st'))"

text \<open>One ring as a read sees it: the corrected position, whether it fell behind, the next header.\<close>

definition peek_forward :: "byte \<Rightarrow> nat \<Rightarrow> ring \<Rightarrow> nat \<Rightarrow> nat \<times> bool \<times> byte list option" where
  "peek_forward sources s r p =
     (if sources AND source_bit s = 0 then (p, False, None)
      else let behind = p < rb_tail r; p1 = (if behind then rb_tail r else p) in
        if rb_head r \<le> p1 then (rb_head r, behind, None)
        else let hdr = ring_get r p1 HDR_SIZE in
          if \<not> length_sane (get_le (take 2 hdr)) then (rb_head r, behind, None) else (p1, behind, Some hdr))"

text \<open>One round of the loop of \<^verbatim>\<open>log_store_read\<close>, under one holding of the lock: the next record.\<close>

definition read_one ::
    "hw \<Rightarrow> log_store_reader \<Rightarrow> log_store \<Rightarrow> log_store_record option \<times> log_store_reader \<times> log_store" where
  "read_one h rd st0 =
     (case lock_store h st0 of (t1, wait_us, st) \<Rightarrow>
      let peeks = map (\<lambda>s. peek_forward (lf_sources (rd_filter rd)) s (ls_rings st ! s) (rd_pos rd ! s))
                    [0..<LOG_STORE_SOURCE_COUNT];
          rd1 = rd\<lparr>rd_pos := map fst peeks, rd_gap := rd_gap rd \<or> list_ex (\<lambda>(p, g, x). g) peeks\<rparr> in
      case pick (\<lambda>q b. q < b) 0 (map (\<lambda>(p, g, x). x) peeks) None of
        None \<Rightarrow> (None, rd1, st)
      | Some (b, q) \<Rightarrow>
          if rd_upper_seq rd \<noteq> 0 \<and> rd_upper_seq rd \<le> q then (None, rd1, st)
          else (case peeks ! b of
             (p, g, Some hdr) \<Rightarrow>
               (Some (copy_record (ls_rings st ! b) p hdr),
                rd1\<lparr>rd_pos := (rd_pos rd1)[b := p + get_le (take 2 hdr)], rd_scanned := rd_scanned rd + 1\<rparr>,
                note_read_time h t1 st)
           | _ \<Rightarrow> (None, rd1, st)))"

fun read_loop ::
    "hw \<Rightarrow> nat \<Rightarrow> log_store_reader \<Rightarrow> log_store \<Rightarrow>
     log_store_read_result \<times> log_store_record option \<times> log_store_reader \<times> log_store" where
  "read_loop h 0 rd st = (LOG_STORE_READ_BUDGET, None, rd, st)"
| "read_loop h (Suc budget) rd st =
     (case read_one h rd st of
        (None, rd', st') \<Rightarrow> (LOG_STORE_READ_END, None, rd', st')
      | (Some rec, rd', st') \<Rightarrow>
          if log_store_filter_match (rd_filter rd') rec then (LOG_STORE_READ_RECORD, Some rec, rd', st')
          else read_loop h budget rd' st')"

text \<open>The record is what \<^verbatim>\<open>*out\<close> holds when the result says that it holds one.\<close>

definition log_store_read ::
    "hw \<Rightarrow> log_store_reader \<Rightarrow> nat \<Rightarrow> log_store \<Rightarrow>
     log_store_read_result \<times> log_store_record option \<times> log_store_reader \<times> log_store" where
  "log_store_read h rd scan_budget st =
     (if \<not> ls_initialized st then (LOG_STORE_READ_END, None, rd, st)
      else if lf_sources (rd_filter rd) AND LOG_STORE_SOURCES_ALL = 0
      then (LOG_STORE_READ_END, None, rd\<lparr>rd_pos := map rb_head (ls_rings st)\<rparr>, st)
      else read_loop h scan_budget rd st)"

section \<open>Cursors\<close>

definition b64url :: string where
  "b64url = ''ABCDEFGHIJKLMNOPQRSTUVWXYZabcdefghijklmnopqrstuvwxyz0123456789-_''"

definition b64url_value :: "char \<Rightarrow> u32 option" where
  "b64url_value c =
     (let n = of_char c :: nat in
      if of_char (CHR ''A'') \<le> n \<and> n \<le> of_char (CHR ''Z'') then Some (of_nat (n - of_char (CHR ''A'')))
      else if of_char (CHR ''a'') \<le> n \<and> n \<le> of_char (CHR ''z'') then Some (of_nat (n - of_char (CHR ''a'') + 26))
      else if of_char (CHR ''0'') \<le> n \<and> n \<le> of_char (CHR ''9'') then Some (of_nat (n - of_char (CHR ''0'') + 52))
      else if c = CHR ''-'' then Some 62
      else if c = CHR ''_'' then Some 63
      else None)"

definition log_store_boot_tag :: "string option \<Rightarrow> u32" where
  "log_store_boot_tag boot_id = (case boot_id of None \<Rightarrow> 0 | Some s \<Rightarrow> fnv1a FNV32_INIT (bytes_of s))"

definition filter_digest :: "log_store_filter \<Rightarrow> u32" where
  "filter_digest f =
     (let h0 = fnv1a FNV32_INIT [lf_sources f AND LOG_STORE_SOURCES_ALL, of_nat (lf_min_level f),
                 (if lf_has_module f then 1 else 0) OR (if lf_has_contains f then 2 else 0)];
          h1 = (if lf_has_module f
                then let n = bounded_len (lf_module f) LOG_STORE_MODULE_MAX in
                  fnv1a (fnv1a h0 [of_nat n]) (take n (lf_module f))
                else h0)
      in if lf_has_contains f
         then let n = bounded_len (lf_contains f) LOG_STORE_CONTAINS_MAX in
           fnv1a (fnv1a h1 (put_le 2 n)) (take n (lf_contains f))
         else h1)"

definition cursor_check :: "byte list \<Rightarrow> u32" where
  "cursor_check raw = fnv1a (fnv1a FNV32_INIT (bytes_of ''cedar-log-cursor'')) (take (CURSOR_RAW_LEN - 4) raw)"

definition b64_char :: "u32 \<Rightarrow> nat \<Rightarrow> char" where
  "b64_char v shift = b64url ! unat (drop_bit shift v AND 0x3F)"

fun b64url_encode :: "byte list \<Rightarrow> string" where
  "b64url_encode [] = []"
| "b64url_encode [a] =
     (let v = push_bit 16 (ucast a :: u32) in [b64_char v 18, b64_char v 12])"
| "b64url_encode [a, b] =
     (let v = push_bit 16 (ucast a :: u32) OR push_bit 8 (ucast b)
      in [b64_char v 18, b64_char v 12, b64_char v 6])"
| "b64url_encode (a # b # c # raw) =
     (let v = push_bit 16 (ucast a :: u32) OR push_bit 8 (ucast b) OR ucast c
      in [b64_char v 18, b64_char v 12, b64_char v 6, b64_char v 0] @ b64url_encode raw)"

definition cursor_body :: "log_store_reader \<Rightarrow> u32 \<Rightarrow> byte list" where
  "cursor_body rd boot_tag =
     [CURSOR_VERSION] @ put_le 4 (unat boot_tag) @ put_le 4 (unat (filter_digest (rd_filter rd))) @
     put_le 8 (rd_pos rd ! 0) @ put_le 8 (rd_pos rd ! 1)"

definition log_store_cursor_encode :: "log_store_reader \<Rightarrow> u32 \<Rightarrow> nat \<Rightarrow> errno + string" where
  "log_store_cursor_encode rd boot_tag cap =
     (if cap < CURSOR_TEXT_LEN + 1 then Inl ENOSPC
      else let body = cursor_body rd boot_tag in
        Inr (b64url_encode (body @ put_le 4 (unat (cursor_check body)))))"

text \<open>One group of up to four characters: its value, \<open>None\<close> for a character outside the alphabet.\<close>

fun b64_group :: "nat \<Rightarrow> string \<Rightarrow> u32 \<Rightarrow> u32 option" where
  "b64_group k [] v = Some v"
| "b64_group k (c # cs) v =
     (case b64url_value c of None \<Rightarrow> None
      | Some d \<Rightarrow> b64_group (k + 1) cs (v OR push_bit (18 - 6 * k) d))"

definition group_bytes :: "nat \<Rightarrow> u32 \<Rightarrow> byte list" where
  "group_bytes rem v = [ucast (drop_bit 16 v)] @ (if 2 < rem then [ucast (drop_bit 8 v)] else []) @
     (if 3 < rem then [ucast v] else [])"

definition group_canonical :: "nat \<Rightarrow> u32 \<Rightarrow> bool" where
  "group_canonical rem v \<longleftrightarrow> \<not> ((rem = 3 \<and> v AND 0xFF \<noteq> 0) \<or> (rem = 2 \<and> v AND 0xFFFF \<noteq> 0))"

function b64url_decode :: "string \<Rightarrow> byte list option" where
  "b64url_decode cs =
     (if cs = [] then Some []
      else let rem = min 4 (length cs) in
        case b64_group 0 (take rem cs) 0 of
          None \<Rightarrow> None
        | Some v \<Rightarrow>
            if \<not> group_canonical rem v then None
            else map_option (\<lambda>raw. group_bytes rem v @ raw) (b64url_decode (drop rem cs)))"
  by pat_completeness auto
termination
  by (relation "measure length") auto

declare b64url_decode.simps [simp del]

definition cursor_positions :: "byte list \<Rightarrow> nat list" where
  "cursor_positions raw = [get_le (take 8 (drop 9 raw)), get_le (take 8 (drop 17 raw))]"

definition log_store_cursor_decode ::
    "string option \<Rightarrow> u32 \<Rightarrow> log_store_filter \<Rightarrow> log_store \<Rightarrow> errno + nat list" where
  "log_store_cursor_decode cursor boot_tag f st =
     (case cursor of None \<Rightarrow> Inl EINVAL
      | Some cs \<Rightarrow>
          if length cs \<noteq> CURSOR_TEXT_LEN then Inl EINVAL
          else (case b64url_decode cs of None \<Rightarrow> Inl EINVAL
           | Some raw \<Rightarrow>
               if length raw \<noteq> CURSOR_RAW_LEN \<or> raw ! 0 \<noteq> CURSOR_VERSION \<or>
                  of_nat (get_le (take 4 (drop 25 raw))) \<noteq> cursor_check raw then Inl EINVAL
               else if of_nat (get_le (take 4 (drop 5 raw))) \<noteq> filter_digest f then Inl EINVAL
               else if of_nat (get_le (take 4 (drop 1 raw))) \<noteq> boot_tag then Inl ESTALE
               else let p = cursor_positions raw in
                 if list_ex (\<lambda>s. p ! s AND 3 \<noteq> 0 \<or> rb_head (ls_rings st ! s) < p ! s) [0..<LOG_STORE_SOURCE_COUNT]
                 then Inl EINVAL else Inr p))"

section \<open>Wire names\<close>

definition log_store_source_str :: "nat \<Rightarrow> string option" where
  "log_store_source_str source =
     (if source = 0 then Some ''stm32'' else if source = 1 then Some ''esp32'' else None)"

definition log_store_level_str :: "nat \<Rightarrow> string option" where
  "log_store_level_str level =
     (if level = 1 then Some ''debug'' else if level = 2 then Some ''info''
      else if level = 3 then Some ''warning'' else if level = 4 then Some ''error''
      else if level = 5 then Some ''unknown'' else None)"

definition log_store_kind_str :: "nat \<Rightarrow> string option" where
  "log_store_kind_str kind =
     (if kind = 0 then Some ''message'' else if kind = 1 then Some ''reset''
      else if kind = 2 then Some ''paused'' else if kind = 3 then Some ''gap'' else None)"

section \<open>The ring as a window on a byte stream\<close>

text \<open>What the buffer holds at an absolute position, and a run of such bytes.\<close>

definition rbyte :: "ring \<Rightarrow> nat \<Rightarrow> byte" where
  "rbyte r p = rb_buf r ! (p mod rb_size r)"

definition window :: "ring \<Rightarrow> nat \<Rightarrow> nat \<Rightarrow> byte list" where
  "window r a n = map (\<lambda>i. rbyte r (a + i)) [0..<n]"

definition ring_ok :: "ring \<Rightarrow> bool" where
  "ring_ok r \<longleftrightarrow> length (rb_buf r) = rb_size r \<and> (\<exists>k. rb_size r = 2 ^ k) \<and> RECORD_MAX \<le> rb_size r"

lemma length_window [simp]: "length (window r a n) = n"
  by (simp add: window_def)

lemma nth_window [simp]: "i < n \<Longrightarrow> window r a n ! i = rbyte r (a + i)"
  by (simp add: window_def)

lemma take_window: "m \<le> n \<Longrightarrow> take m (window r a n) = window r a m"
  by (rule nth_equalityI) simp_all

lemma drop_window: "drop m (window r a n) = window r (a + m) (n - m)"
  by (rule nth_equalityI) (simp_all add: add.assoc)

lemma window_append: "window r a (m + n) = window r a m @ window r (a + m) n"
  by (rule nth_equalityI) (auto simp: nth_append)

lemma window_cong:
  "(\<And>p. a \<le> p \<Longrightarrow> p < a + n \<Longrightarrow> rbyte r p = rbyte r' p) \<Longrightarrow> window r a n = window r' a n"
  by (rule nth_equalityI) simp_all

lemma ring_size_pos: "ring_ok r \<Longrightarrow> 0 < rb_size r"
  by (auto simp: ring_ok_def)

lemma ring_off_mod: "ring_ok r \<Longrightarrow> ring_off r p = p mod rb_size r"
proof -
  assume "ring_ok r"
  then obtain k where k: "rb_size r = 2 ^ k" by (auto simp: ring_ok_def)
  have "p AND (2 ^ k - 1) = take_bit k p" by (simp add: take_bit_eq_mask mask_eq_exp_minus_1)
  with k show ?thesis by (simp add: ring_off_def take_bit_eq_mod)
qed

lemma ring_off_less: "ring_ok r \<Longrightarrow> ring_off r p < rb_size r"
  using ring_size_pos by (simp add: ring_off_mod)

text \<open>The offset of a position a little further on.\<close>

lemma mod_ahead:
  assumes "d < (n::nat)"
  shows "(a + d) mod n = (if a mod n + d < n then a mod n + d else a mod n + d - n)"
proof (cases "a mod n + d < n")
  case True
  have "(a + d) mod n = (a mod n + d) mod n" by (simp add: mod_simps)
  with True show ?thesis by simp
next
  case False
  have "(a + d) mod n = (a mod n + d) mod n" by (simp add: mod_simps)
  moreover have "a mod n < n" using assms by simp
  ultimately show ?thesis using False assms by (simp add: le_mod_geq)
qed

text \<open>The two halves of a read and of a write that may wrap.\<close>

lemma wrapped_read:
  assumes "off < n" "length buf = n" "k \<le> n" "i < k"
  shows "(take (min k (n - off)) (drop off buf) @ (if min k (n - off) < k then take (k - min k (n - off)) buf else [])) ! i =
    buf ! (if off + i < n then off + i else off + i - n)"
proof (cases "k \<le> n - off")
  case True
  then have "off + i < n" using assms by simp
  with True assms show ?thesis by (simp add: min_def nth_append)
next
  case False
  then have "min k (n - off) = n - off" "n - off < k" by simp_all
  with assms show ?thesis by (auto simp: nth_append add.commute)
qed

lemma length_wrapped_read:
  assumes "off < n" "length buf = n" "k \<le> n"
  shows "length (take (min k (n - off)) (drop off buf) @ (if min k (n - off) < k then take (k - min k (n - off)) buf else [])) = k"
proof (cases "k \<le> n - off")
  case True
  with assms show ?thesis by (simp add: min_def)
next
  case False
  then have "min k (n - off) = n - off" "n - off < k" by simp_all
  with assms show ?thesis by auto
qed

lemma ring_get_window:
  assumes "ring_ok r" "n \<le> rb_size r"
  shows "ring_get r p n = window r p n"
proof (rule nth_equalityI)
  have off: "p mod rb_size r < rb_size r" "length (rb_buf r) = rb_size r"
    using assms ring_size_pos by (auto simp: ring_ok_def)
  show len: "length (ring_get r p n) = length (window r p n)"
    using length_wrapped_read [OF off assms(2)] assms(1) by (simp only: ring_get_def Let_def ring_off_mod length_window)
  show "ring_get r p n ! i = window r p n ! i" if "i < length (ring_get r p n)" for i
  proof -
    have i: "i < n" using that len by simp
    have "i < rb_size r" using i assms(2) by simp
    note j = mod_ahead [OF this, of p]
    have "ring_get r p n ! i = rb_buf r ! ((p + i) mod rb_size r)"
      unfolding j using wrapped_read [OF off assms(2) i] assms(1) by (simp only: ring_get_def Let_def ring_off_mod)
    then show ?thesis using i by (simp add: rbyte_def)
  qed
qed

lemma wrapped_write:
  assumes "off < n" "length buf = n" "length src \<le> n"
    and buf1: "buf1 = blit off (take (min (length src) (n - off)) src) buf"
  shows "length (if min (length src) (n - off) < length src then blit 0 (drop (min (length src) (n - off)) src) buf1 else buf1) = n"
    and "d < n \<Longrightarrow> (if min (length src) (n - off) < length src then blit 0 (drop (min (length src) (n - off)) src) buf1 else buf1) !
      (if off + d < n then off + d else off + d - n) =
      (if d < length src then src ! d else buf ! (if off + d < n then off + d else off + d - n))"
proof -
  have l1: "length buf1 = n" unfolding buf1 by (subst length_blit) (use assms in auto)
  show "length (if min (length src) (n - off) < length src then blit 0 (drop (min (length src) (n - off)) src) buf1 else buf1) = n"
  proof (cases "length src \<le> n - off")
    case True
    with l1 show ?thesis by (simp add: min_def)
  next
    case False
    then have f: "min (length src) (n - off) = n - off" "n - off < length src" by simp_all
    have "length (blit 0 (drop (n - off) src) buf1) = n" by (subst length_blit) (use l1 assms in auto)
    with f show ?thesis by simp
  qed
  assume d: "d < n"
  define j where "j = (if off + d < n then off + d else off + d - n)"
  have jn: "j < n" using d assms(1) by (auto simp: j_def)
  have b1: "buf1 ! j = (if off \<le> j \<and> j < off + min (length src) (n - off) then src ! (j - off) else buf ! j)"
  proof -
    define m where "m = min (length src) (n - off)"
    have m: "off + length (take m src) \<le> length buf" using assms by (simp add: m_def)
    have "blit off (take m src) buf ! j =
        (if off \<le> j \<and> j < off + length (take m src) then take m src ! (j - off) else buf ! j)"
      by (rule nth_blit [OF m]) (use jn assms in simp)
    moreover have "length (take m src) = m" by (simp add: m_def)
    moreover have "off \<le> j \<and> j < off + m \<Longrightarrow> take m src ! (j - off) = src ! (j - off)" by auto
    ultimately show ?thesis unfolding buf1 m_def [symmetric] by simp
  qed
  have "(if min (length src) (n - off) < length src then blit 0 (drop (min (length src) (n - off)) src) buf1 else buf1) ! j =
      (if d < length src then src ! d else buf ! j)"
  proof (cases "length src \<le> n - off")
    case True
    with b1 d assms show ?thesis by (auto simp: j_def)
  next
    case False
    then have f: "min (length src) (n - off) = n - off" "n - off < length src" by simp_all
    have "blit 0 (drop (n - off) src) buf1 ! j = (if j < length src - (n - off) then src ! (n - off + j) else buf1 ! j)"
      by (subst nth_blit) (use l1 jn assms f in auto)
    with f b1 d assms show ?thesis by (auto simp: j_def)
  qed
  then show "(if min (length src) (n - off) < length src then blit 0 (drop (min (length src) (n - off)) src) buf1 else buf1) !
      (if off + d < n then off + d else off + d - n) =
      (if d < length src then src ! d else buf ! (if off + d < n then off + d else off + d - n))"
    by (simp only: j_def)
qed

lemma ring_put_simps [simp]:
  "rb_size (ring_put r a src) = rb_size r" "rb_head (ring_put r a src) = rb_head r"
  "rb_tail (ring_put r a src) = rb_tail r" "rb_records (ring_put r a src) = rb_records r"
  "rb_appended (ring_put r a src) = rb_appended r" "rb_overwritten (ring_put r a src) = rb_overwritten r"
  by (simp_all add: ring_put_def Let_def)

lemma ring_put_buf:
  assumes "ring_ok r" "length src \<le> rb_size r"
  shows "length (rb_buf (ring_put r a src)) = rb_size r"
    and "\<And>d. d < rb_size r \<Longrightarrow> rbyte (ring_put r a src) (a + d) =
      (if d < length src then src ! d else rbyte r (a + d))"
proof -
  have off: "a mod rb_size r < rb_size r" "length (rb_buf r) = rb_size r"
    using assms ring_size_pos by (auto simp: ring_ok_def)
  note w = wrapped_write [OF off assms(2) refl]
  show "length (rb_buf (ring_put r a src)) = rb_size r"
    using w(1) assms(1) by (simp add: ring_put_def Let_def ring_off_mod)
  fix d assume d: "d < rb_size r"
  have buf: "rb_buf (ring_put r a src) =
      (if min (length src) (rb_size r - a mod rb_size r) < length src
       then blit 0 (drop (min (length src) (rb_size r - a mod rb_size r)) src)
         (blit (a mod rb_size r) (take (min (length src) (rb_size r - a mod rb_size r)) src) (rb_buf r))
       else blit (a mod rb_size r) (take (min (length src) (rb_size r - a mod rb_size r)) src) (rb_buf r))"
    using assms(1) by (simp add: ring_put_def Let_def ring_off_mod)
  show "rbyte (ring_put r a src) (a + d) = (if d < length src then src ! d else rbyte r (a + d))"
    using w(2) [OF d] unfolding rbyte_def buf ring_put_simps mod_ahead [OF d, of a] .
qed

lemma ring_put_ok: "ring_ok r \<Longrightarrow> length src \<le> rb_size r \<Longrightarrow> ring_ok (ring_put r a src)"
  using ring_put_buf(1) by (simp add: ring_ok_def)

lemma ring_put_window:
  assumes "ring_ok r" "length src \<le> rb_size r"
  shows "window (ring_put r a src) a (length src) = src"
  by (rule nth_equalityI) (use ring_put_buf(2) [OF assms] assms(2) in simp_all)

text \<open>Bytes that lie within one ring length behind the end of what is written stay.\<close>

lemma ring_put_behind:
  assumes "ring_ok r" "length src \<le> rb_size r" "a + length src \<le> p + rb_size r" "p < a"
  shows "rbyte (ring_put r a src) p = rbyte r p"
proof -
  let ?d = "p + rb_size r - a"
  have d: "?d < rb_size r" "\<not> ?d < length src" "a + ?d = p + rb_size r" using assms(3,4) by auto
  have "rbyte (ring_put r a src) (p + rb_size r) = rbyte r (p + rb_size r)"
    using ring_put_buf(2) [OF assms(1,2) d(1), of a] d(2,3) by simp
  then show ?thesis by (simp add: rbyte_def)
qed

lemma ring_put_window_behind:
  assumes "ring_ok r" "length src \<le> rb_size r" "a + length src \<le> b + rb_size r" "b + n \<le> a"
  shows "window (ring_put r a src) b n = window r b n"
  by (rule window_cong, rule ring_put_behind) (use assms in auto)

lemma buf_eqI:
  assumes "length (rb_buf r) = n" "length (rb_buf r') = n" "rb_size r = n" "rb_size r' = n" "0 < n"
    and "\<And>d. d < n \<Longrightarrow> rbyte r (a + d) = rbyte r' (a + d)"
  shows "rb_buf r = rb_buf r'"
proof (rule nth_equalityI)
  show "length (rb_buf r) = length (rb_buf r')" using assms by simp
  fix j assume "j < length (rb_buf r)"
  then have j: "j < n" using assms(1) by simp
  let ?d = "(j + n - a mod n) mod n"
  have "(a + ?d) mod n = (a mod n + (j + n - a mod n)) mod n" by (simp add: mod_simps)
  also have "a mod n + (j + n - a mod n) = j + n"
    using mod_less_divisor [OF assms(5), of a] by linarith
  finally have m: "(a + ?d) mod n = j" using j by simp
  from assms(6) [of ?d] assms(3-5) m show "rb_buf r ! j = rb_buf r' ! j"
    by (simp add: rbyte_def)
qed

lemma ring_put_append:
  assumes "ring_ok r" "length xs + length ys \<le> rb_size r"
  shows "ring_put (ring_put r a xs) (a + length xs) ys = ring_put r a (xs @ ys)"
proof -
  let ?r1 = "ring_put r a xs" and ?n = "rb_size r"
  have le: "length xs \<le> ?n" "length ys \<le> ?n" "length (xs @ ys) \<le> ?n" using assms(2) by simp_all
  have ok1: "ring_ok ?r1" using assms(1) le(1) by (rule ring_put_ok)
  have le1: "length ys \<le> rb_size ?r1" using le(2) by simp
  have "rb_buf (ring_put ?r1 (a + length xs) ys) = rb_buf (ring_put r a (xs @ ys))"
  proof (rule buf_eqI [where n = ?n and a = a])
    show "length (rb_buf (ring_put ?r1 (a + length xs) ys)) = ?n"
      using ring_put_buf(1) [OF ok1 le1] by simp
    show "length (rb_buf (ring_put r a (xs @ ys))) = ?n" using ring_put_buf(1) [OF assms(1) le(3)] .
    show "0 < ?n" using assms(1) by (rule ring_size_pos)
    fix d assume d: "d < ?n"
    show "rbyte (ring_put ?r1 (a + length xs) ys) (a + d) = rbyte (ring_put r a (xs @ ys)) (a + d)"
    proof (cases "d < length xs")
      case True
      have "rbyte (ring_put ?r1 (a + length xs) ys) (a + d) = rbyte ?r1 (a + d)"
        by (rule ring_put_behind [OF ok1 le1]) (use True assms(2) in auto)
      with True ring_put_buf(2) [OF assms(1) le(1) d] ring_put_buf(2) [OF assms(1) le(3) d] show ?thesis
        by (simp add: nth_append)
    next
      case False
      then have dd: "d - length xs < rb_size ?r1" "a + length xs + (d - length xs) = a + d" using d by auto
      from ring_put_buf(2) [OF ok1 le1 dd(1), of "a + length xs"] dd(2) False
        ring_put_buf(2) [OF assms(1) le(1) d] ring_put_buf(2) [OF assms(1) le(3) d]
      show ?thesis by (auto simp: nth_append)
    qed
  qed simp_all
  then show ?thesis by (simp add: ring_put_def Let_def)
qed

section \<open>Records\<close>

definition record_size :: "log_store_record \<Rightarrow> nat" where
  "record_size rec = record_total (length (lr_module rec)) (length (lr_text rec))"

definition header_bytes :: "log_store_record \<Rightarrow> byte list" where
  "header_bytes rec =
     put_le 2 (record_size rec) @
     [of_nat (lr_level rec),
      of_nat (lr_kind rec) OR (if lr_has_module rec then FLAG_HAS_MODULE else 0) OR
        (if lr_truncated rec then FLAG_TRUNCATED else 0),
      of_nat (length (lr_module rec)), of_nat (lr_source rec)] @
     put_le 2 (length (lr_text rec)) @ put_le 4 (unat (lr_generation rec)) @ put_le 8 (unat (lr_seq rec)) @
     put_le 8 (unat (lr_uptime_ms rec))"

definition record_bytes :: "log_store_record \<Rightarrow> byte list" where
  "record_bytes rec = header_bytes rec @ lr_module rec @ lr_text rec @
     replicate (record_size rec - TRAILER_SIZE - HDR_SIZE - length (lr_module rec) - length (lr_text rec)) 0 @
     put_le 2 (record_size rec) @ put_le 2 TRAILER_MAGIC"

text \<open>The records the store can hold.\<close>

definition ring_record_ok :: "log_store_record \<Rightarrow> bool" where
  "ring_record_ok rec \<longleftrightarrow> lr_source rec < LOG_STORE_SOURCE_COUNT \<and> lr_level rec \<le> 5 \<and> lr_kind rec \<le> 3 \<and>
     length (lr_text rec) \<le> LOG_STORE_TEXT_MAX \<and> length (lr_module rec) \<le> LOG_STORE_MODULE_MAX \<and>
     (\<not> lr_has_module rec \<longrightarrow> lr_module rec = [])"

text \<open>The record an entry becomes.\<close>

definition stored :: "log_store_entry \<Rightarrow> u64 \<Rightarrow> log_store_record" where
  "stored e seq = \<lparr>lr_source = le_source e, lr_level = le_level e, lr_kind = le_kind e,
     lr_truncated = entry_truncated e, lr_generation = le_generation e, lr_seq = seq,
     lr_uptime_ms = le_uptime_ms e, lr_has_module = (le_module e \<noteq> None), lr_module = entry_module e,
     lr_text = entry_text e\<rparr>"

lemmas sizes = HDR_SIZE_def TRAILER_SIZE_def LOG_STORE_MODULE_MAX_def LOG_STORE_TEXT_MAX_def

lemma round_up4_bounds: "n \<le> round_up4 n" "round_up4 n \<le> n + 3" "round_up4 n mod 4 = 0"
  by (simp_all add: round_up4_def)

lemma round_up4_mono: "m \<le> n \<Longrightarrow> round_up4 m \<le> round_up4 n"
  by (simp add: round_up4_def div_le_mono)

lemma and_3: "(n::nat) AND 3 = n mod 4"
proof -
  have "n AND 3 = take_bit 2 n" by (simp add: take_bit_eq_mask mask_eq_exp_minus_1)
  then show ?thesis by (simp add: take_bit_eq_mod)
qed

lemma record_size_sane:
  assumes "ring_record_ok rec"
  shows "length_sane (record_size rec)" "record_size rec \<le> RECORD_MAX" "RECORD_MIN \<le> record_size rec"
    "record_size rec < 65536"
proof -
  have a: "RECORD_MIN \<le> record_size rec"
    unfolding RECORD_MIN_def record_size_def record_total_def by (intro add_mono round_up4_mono) simp_all
  have b: "record_size rec \<le> RECORD_MAX"
    unfolding RECORD_MAX_def record_size_def record_total_def
    by (intro add_mono round_up4_mono) (use assms in \<open>simp_all add: ring_record_ok_def\<close>)
  have c: "record_size rec mod 4 = 0"
    using round_up4_bounds(3) by (simp add: record_size_def record_total_def TRAILER_SIZE_def mod_simps)
  show "length_sane (record_size rec)" "record_size rec \<le> RECORD_MAX" "RECORD_MIN \<le> record_size rec"
    using a b c by (simp_all add: length_sane_def and_3)
  show "record_size rec < 65536" using b by (simp add: RECORD_MAX_def sizes round_up4_def)
qed

lemma record_size_pos: "ring_record_ok rec \<Longrightarrow> 0 < record_size rec"
  using record_size_sane(3) by (force simp: RECORD_MIN_def TRAILER_SIZE_def)

lemma length_header_bytes [simp]: "length (header_bytes rec) = HDR_SIZE"
  by (simp add: header_bytes_def HDR_SIZE_def)

lemma length_record_bytes [simp]: "length (record_bytes rec) = record_size rec"
proof -
  have "HDR_SIZE + length (lr_module rec) + length (lr_text rec) + TRAILER_SIZE \<le> record_size rec"
    using round_up4_bounds(1) by (simp add: record_size_def record_total_def)
  then show ?thesis by (simp add: record_bytes_def TRAILER_SIZE_def)
qed

lemma header_fields:
  "take 2 (header_bytes rec) = put_le 2 (record_size rec)"
  "header_bytes rec ! 2 = of_nat (lr_level rec)"
  "header_bytes rec ! 3 = of_nat (lr_kind rec) OR (if lr_has_module rec then FLAG_HAS_MODULE else 0) OR
        (if lr_truncated rec then FLAG_TRUNCATED else 0)"
  "header_bytes rec ! 4 = of_nat (length (lr_module rec))"
  "header_bytes rec ! 5 = of_nat (lr_source rec)"
  "take 2 (drop 6 (header_bytes rec)) = put_le 2 (length (lr_text rec))"
  "take 4 (drop 8 (header_bytes rec)) = put_le 4 (unat (lr_generation rec))"
  "take 8 (drop 12 (header_bytes rec)) = put_le 8 (unat (lr_seq rec))"
  "take 8 (drop 20 (header_bytes rec)) = put_le 8 (unat (lr_uptime_ms rec))"
  by (simp_all add: header_bytes_def nth_append)

lemma unat_small:
  "unat (w :: u32) < 256 ^ 4" "unat (x :: u64) < 256 ^ 8"
  using unsigned_less [of w] unsigned_less [of x] by simp_all

lemma word_fields:
  "of_nat (get_le (put_le 4 (unat (w :: u32)))) = w" "of_nat (get_le (put_le 8 (unat (x :: u64)))) = x"
  unfolding get_put_le [OF unat_small(1)] get_put_le [OF unat_small(2)] by simp_all

lemma record_flags:
  fixes k :: nat and flags :: byte
  assumes "k \<le> 3" and flags: "flags = of_nat k OR (if m then FLAG_HAS_MODULE else 0) OR (if t then FLAG_TRUNCATED else 0)"
  shows "unat (flags AND FLAG_KIND_MASK) = k" "(flags AND FLAG_HAS_MODULE \<noteq> 0) = m"
    "(flags AND FLAG_TRUNCATED \<noteq> 0) = t"
proof -
  have "k \<in> {0, 1, 2, 3}" using assms(1) by auto
  then show "unat (flags AND FLAG_KIND_MASK) = k" "(flags AND FLAG_HAS_MODULE \<noteq> 0) = m"
    "(flags AND FLAG_TRUNCATED \<noteq> 0) = t"
    unfolding flags FLAG_HAS_MODULE_def FLAG_TRUNCATED_def FLAG_KIND_MASK_def
    by (cases m; cases t; auto)+
qed

lemma header_size: "ring_record_ok rec \<Longrightarrow> get_le (take 2 (header_bytes rec)) = record_size rec"
  using record_size_sane(4) by (simp add: header_fields get_put_le del: put_le.simps)

lemma header_seq_eq: "header_seq (header_bytes rec) = lr_seq rec"
  by (simp only: header_seq_def header_fields word_fields)

lemma record_bytes_parts:
  "take HDR_SIZE (record_bytes rec) = header_bytes rec"
  "take 2 (record_bytes rec) = put_le 2 (record_size rec)"
  "take (length (lr_module rec)) (drop HDR_SIZE (record_bytes rec)) = lr_module rec"
  "take (length (lr_text rec)) (drop (HDR_SIZE + length (lr_module rec)) (record_bytes rec)) = lr_text rec"
proof -
  show "take HDR_SIZE (record_bytes rec) = header_bytes rec" by (simp add: record_bytes_def)
  have "take 2 (record_bytes rec) = take 2 (header_bytes rec)"
    by (simp add: record_bytes_def HDR_SIZE_def)
  then show "take 2 (record_bytes rec) = put_le 2 (record_size rec)" by (simp only: header_fields)
  show "take (length (lr_module rec)) (drop HDR_SIZE (record_bytes rec)) = lr_module rec"
    by (simp add: record_bytes_def)
  show "take (length (lr_text rec)) (drop (HDR_SIZE + length (lr_module rec)) (record_bytes rec)) = lr_text rec"
    by (simp add: record_bytes_def)
qed

lemma trailer_bytes:
  "drop (record_size rec - TRAILER_SIZE) (record_bytes rec) = put_le 2 (record_size rec) @ put_le 2 TRAILER_MAGIC"
proof -
  let ?tr = "put_le 2 (record_size rec) @ put_le 2 TRAILER_MAGIC"
  obtain pre where p: "record_bytes rec = pre @ ?tr" by (simp add: record_bytes_def)
  have "record_size rec = length pre + TRAILER_SIZE"
    using arg_cong [OF p, of length] unfolding length_record_bytes by (simp add: TRAILER_SIZE_def)
  then have "length pre = record_size rec - TRAILER_SIZE" by simp
  then show ?thesis using p by simp
qed

text \<open>A record that lies in the ring is read back as it is.\<close>

lemma copy_record_eq:
  assumes "ring_ok r" "ring_record_ok rec" "window r pos (record_size rec) = record_bytes rec"
  shows "copy_record r pos (header_bytes rec) = rec"
proof -
  let ?m = "length (lr_module rec)" and ?t = "length (lr_text rec)"
  have sz: "HDR_SIZE + ?m + ?t \<le> record_size rec"
    using round_up4_bounds(1) by (simp add: record_size_def record_total_def trans_le_add1)
  have big: "RECORD_MAX \<le> rb_size r" using assms(1) by (simp add: ring_ok_def)
  have len: "?m \<le> rb_size r" "?t \<le> rb_size r" using sz big record_size_sane(2) [OF assms(2)] by simp_all
  have m: "ring_get r (pos + HDR_SIZE) ?m = lr_module rec"
    using record_bytes_parts(3) [of rec] sz
    unfolding ring_get_window [OF assms(1) len(1)] assms(3) [symmetric] drop_window
    by (simp add: take_window)
  have t: "ring_get r (pos + HDR_SIZE + ?m) ?t = lr_text rec"
    using record_bytes_parts(4) [of rec] sz
    unfolding ring_get_window [OF assms(1) len(2)] assms(3) [symmetric] drop_window
    by (simp add: take_window add.assoc)
  have ml: "unat (of_nat ?m :: byte) = ?m" "?m \<le> LOG_STORE_MODULE_MAX"
    using assms(2) by (simp_all add: ring_record_ok_def LOG_STORE_MODULE_MAX_def unat_of_nat)
  have tl: "get_le (put_le 2 ?t) = ?t" "?t \<le> LOG_STORE_TEXT_MAX"
    using assms(2) by (simp_all add: ring_record_ok_def LOG_STORE_TEXT_MAX_def get_put_le del: put_le.simps)
  have small: "unat (of_nat (lr_source rec) :: byte) = lr_source rec"
    "unat (of_nat (lr_level rec) :: byte) = lr_level rec" "lr_kind rec \<le> 3"
    using assms(2) by (simp_all add: ring_record_ok_def LOG_STORE_SOURCE_COUNT_def unat_of_nat)
  note fl = record_flags [OF small(3) refl, of "lr_has_module rec" "lr_truncated rec"]
  show ?thesis
    unfolding copy_record_def Let_def header_fields ml(1) tl(1) min_absorb1 [OF ml(2)] min_absorb1 [OF tl(2)] m t
    by (simp add: fl small word_fields del: put_le.simps)
qed

section \<open>What a ring holds\<close>

definition holds :: "ring \<Rightarrow> log_store_record list \<Rightarrow> bool" where
  "holds r rs \<longleftrightarrow> ring_ok r \<and> rb_head r = rb_tail r + sum_list (map record_size rs) \<and>
     rb_head r \<le> rb_tail r + rb_size r \<and> rb_tail r mod 4 = 0 \<and> (\<forall>x \<in> set rs. ring_record_ok x) \<and>
     window r (rb_tail r) (rb_head r - rb_tail r) = concat (map record_bytes rs) \<and>
     rb_records r = of_nat (length rs)"

abbreviation bytes_total :: "log_store_record list \<Rightarrow> nat" where
  "bytes_total rs \<equiv> sum_list (map record_size rs)"

lemma length_concat_records: "length (concat (map record_bytes rs)) = bytes_total rs"
  by (induction rs) simp_all

lemma holdsD:
  assumes "holds r rs"
  shows "ring_ok r" "rb_head r = rb_tail r + bytes_total rs" "bytes_total rs \<le> rb_size r" "rb_tail r mod 4 = 0"
    "\<And>x. x \<in> set rs \<Longrightarrow> ring_record_ok x" "rb_records r = of_nat (length rs)"
    "window r (rb_tail r) (bytes_total rs) = concat (map record_bytes rs)"
  using assms by (auto simp: holds_def)

text \<open>The record after the records of \<open>xs\<close>.\<close>

lemma holds_window:
  assumes "holds r (xs @ rec # ys)"
  shows "window r (rb_tail r + bytes_total xs) (record_size rec) = record_bytes rec"
proof -
  have w: "window r (rb_tail r) (bytes_total (xs @ rec # ys)) =
      concat (map record_bytes xs) @ record_bytes rec @ concat (map record_bytes ys)"
    using holdsD(7) [OF assms] by simp
  have "take (record_size rec) (drop (bytes_total xs) (window r (rb_tail r) (bytes_total (xs @ rec # ys)))) =
      record_bytes rec"
    unfolding w by (simp add: length_concat_records [symmetric])
  then show ?thesis by (simp add: drop_window take_window)
qed

lemma holds_header:
  assumes "holds r (xs @ rec # ys)"
  shows "ring_get r (rb_tail r + bytes_total xs) HDR_SIZE = header_bytes rec"
    "ring_get r (rb_tail r + bytes_total xs) 2 = put_le 2 (record_size rec)"
    "copy_record r (rb_tail r + bytes_total xs) (header_bytes rec) = rec"
proof -
  have ok: "ring_ok r" "ring_record_ok rec" using assms by (simp_all add: holds_def)
  have h: "HDR_SIZE \<le> record_size rec" "HDR_SIZE \<le> rb_size r" "2 \<le> rb_size r"
    using record_size_sane(2,3) [OF ok(2)] ok(1) by (simp_all add: ring_ok_def RECORD_MIN_def RECORD_MAX_def
        HDR_SIZE_def TRAILER_SIZE_def round_up4_def)
  note w = holds_window [OF assms]
  have "window r (rb_tail r + bytes_total xs) HDR_SIZE = header_bytes rec"
    using arg_cong [OF w, of "take HDR_SIZE"] h(1) by (simp add: take_window record_bytes_parts)
  then show "ring_get r (rb_tail r + bytes_total xs) HDR_SIZE = header_bytes rec"
    using ring_get_window [OF ok(1) h(2)] by simp
  have "2 \<le> record_size rec" using h(1) by (simp add: HDR_SIZE_def)
  then have "window r (rb_tail r + bytes_total xs) 2 = put_le 2 (record_size rec)"
    using arg_cong [OF w, of "take 2"] by (simp add: take_window record_bytes_parts(2) del: put_le.simps)
  then show "ring_get r (rb_tail r + bytes_total xs) 2 = put_le 2 (record_size rec)"
    using ring_get_window [OF ok(1) h(3)] by simp
  show "copy_record r (rb_tail r + bytes_total xs) (header_bytes rec) = rec"
    by (rule copy_record_eq [OF ok w])
qed

section \<open>Appending\<close>

text \<open>The specification of overwriting: drop records from the front until what is left leaves room.\<close>

fun evict :: "nat \<Rightarrow> nat \<Rightarrow> log_store_record list \<Rightarrow> log_store_record list" where
  "evict cap need [] = []"
| "evict cap need (x # xs) = (if cap < bytes_total (x # xs) + need then evict cap need xs else x # xs)"

lemma evict_drop:
  "\<exists>k \<le> length rs. evict cap need rs = drop k rs \<and>
     (\<forall>j < k. cap < bytes_total (drop j rs) + need) \<and> (need \<le> cap \<longrightarrow> bytes_total (drop k rs) + need \<le> cap)"
proof (induction rs)
  case Nil
  then show ?case by simp
next
  case (Cons x xs)
  show ?case
  proof (cases "cap < bytes_total (x # xs) + need")
    case True
    from Cons.IH obtain k where "k \<le> length xs" "evict cap need xs = drop k xs"
      "\<forall>j < k. cap < bytes_total (drop j xs) + need" "need \<le> cap \<longrightarrow> bytes_total (drop k xs) + need \<le> cap" by blast
    with True show ?thesis by (intro exI [of _ "Suc k"]) (auto simp: less_Suc_eq_0_disj)
  next
    case False
    then show ?thesis by (intro exI [of _ 0]) simp
  qed
qed

lemma set_evict: "set (evict cap need rs) \<subseteq> set rs"
  by (induction rs) auto

lemma evict_fits: "need \<le> cap \<Longrightarrow> bytes_total (evict cap need rs) + need \<le> cap"
  by (induction rs) auto

lemma length_evict: "length (evict cap need rs) \<le> length rs"
  by (induction rs) auto

lemma rbyte_fields [simp]:
  "rbyte (r\<lparr>rb_tail := a\<rparr>) p = rbyte r p" "rbyte (r\<lparr>rb_head := b\<rparr>) p = rbyte r p"
  "rbyte (r\<lparr>rb_records := c\<rparr>) p = rbyte r p" "rbyte (r\<lparr>rb_appended := d\<rparr>) p = rbyte r p"
  "rbyte (r\<lparr>rb_overwritten := e\<rparr>) p = rbyte r p"
  by (simp_all add: rbyte_def)

lemma window_fields [simp]:
  "window (r\<lparr>rb_tail := a\<rparr>) p n = window r p n" "window (r\<lparr>rb_head := b\<rparr>) p n = window r p n"
  "window (r\<lparr>rb_records := c\<rparr>) p n = window r p n" "window (r\<lparr>rb_appended := d\<rparr>) p n = window r p n"
  "window (r\<lparr>rb_overwritten := e\<rparr>) p n = window r p n"
  by (simp_all add: window_def)

lemma ring_ok_fields [simp]:
  "ring_ok (r\<lparr>rb_tail := a\<rparr>) = ring_ok r" "ring_ok (r\<lparr>rb_head := b\<rparr>) = ring_ok r"
  "ring_ok (r\<lparr>rb_records := c\<rparr>) = ring_ok r" "ring_ok (r\<lparr>rb_appended := d\<rparr>) = ring_ok r"
  "ring_ok (r\<lparr>rb_overwritten := e\<rparr>) = ring_ok r"
  by (simp_all add: ring_ok_def)

lemma holds_counters [simp]:
  "holds (r\<lparr>rb_appended := d\<rparr>) rs = holds r rs" "holds (r\<lparr>rb_overwritten := e\<rparr>) rs = holds r rs"
  by (simp_all add: holds_def)

lemma holdsI:
  assumes "ring_ok r" "rb_head r = rb_tail r + bytes_total rs" "bytes_total rs \<le> rb_size r" "rb_tail r mod 4 = 0"
    "\<And>x. x \<in> set rs \<Longrightarrow> ring_record_ok x" "rb_records r = of_nat (length rs)"
    "window r (rb_tail r) (bytes_total rs) = concat (map record_bytes rs)"
  shows "holds r rs"
  using assms by (simp add: holds_def)

lemma holds_drop_first:
  assumes "holds r (x # xs)"
  shows "holds (r\<lparr>rb_tail := rb_tail r + record_size x, rb_records := rb_records r - 1\<rparr>) xs"
proof (rule holdsI)
  note h = holdsD [OF assms]
  have sz: "record_size x mod 4 = 0"
    using record_size_sane(1) [OF h(5), of x] by (simp add: length_sane_def and_3)
  have "drop (record_size x) (window r (rb_tail r) (bytes_total (x # xs))) = concat (map record_bytes xs)"
    using h(7) by simp
  then show "window (r\<lparr>rb_tail := rb_tail r + record_size x, rb_records := rb_records r - 1\<rparr>)
      (rb_tail (r\<lparr>rb_tail := rb_tail r + record_size x, rb_records := rb_records r - 1\<rparr>)) (bytes_total xs) =
      concat (map record_bytes xs)"
    by (simp add: drop_window)
  show "rb_tail (r\<lparr>rb_tail := rb_tail r + record_size x, rb_records := rb_records r - 1\<rparr>) mod 4 = 0"
    using h(4) sz by (simp add: mod_add_eq [symmetric])
qed (use holdsD [OF assms] in simp_all)

lemma make_room_holds:
  assumes "holds r rs" "need \<le> rb_size r"
  shows "holds (make_room need r) (evict (rb_size r) need rs) \<and>
    rb_size (make_room need r) = rb_size r \<and> rb_head (make_room need r) = rb_head r \<and>
    rb_appended (make_room need r) = rb_appended r \<and>
    rb_overwritten (make_room need r) = rb_overwritten r + of_nat (length rs - length (evict (rb_size r) need rs))"
  using assms
proof (induction rs arbitrary: r)
  case Nil
  then have "make_room need r = r" by (subst make_room.simps) (simp add: holds_def)
  with Nil show ?case by simp
next
  case (Cons x xs)
  note h = holdsD [OF Cons.prems(1)]
  show ?case
  proof (cases "rb_size r < bytes_total (x # xs) + need")
    case False
    then have "make_room need r = r" using h(2) by (subst make_room.simps) simp
    with False Cons.prems show ?thesis by simp
  next
    case True
    let ?r = "r\<lparr>rb_tail := rb_tail r + record_size x, rb_records := rb_records r - 1,
                rb_overwritten := rb_overwritten r + 1\<rparr>"
    have x: "ring_record_ok x" using h(5) by simp
    have "get_le (ring_get r (rb_tail r) 2) = record_size x"
      using holds_header(2) [of r "[]" x xs] Cons.prems(1) record_size_sane(4) [OF x]
      by (simp add: get_put_le del: put_le.simps)
    then have m: "make_room need r = make_room need ?r"
      using True h(2) record_size_sane(1) [OF x] by (subst make_room.simps) (simp add: Let_def)
    have "holds ?r xs" using holds_drop_first [OF Cons.prems(1)] by simp
    from Cons.IH [OF this] Cons.prems(2) have ih: "holds (make_room need ?r) (evict (rb_size r) need xs)"
      "rb_size (make_room need ?r) = rb_size r" "rb_head (make_room need ?r) = rb_head r"
      "rb_appended (make_room need ?r) = rb_appended r"
      "rb_overwritten (make_room need ?r) = rb_overwritten r + 1 + of_nat (length xs - length (evict (rb_size r) need xs))"
      by simp_all
    have "length (x # xs) - length (evict (rb_size r) need xs) = Suc (length xs - length (evict (rb_size r) need xs))"
      using length_evict [of "rb_size r" need xs] by simp
    with m ih True show ?thesis by (simp add: add.commute add.left_commute)
  qed
qed

lemma ring_put_nil: "ring_ok r \<Longrightarrow> ring_put r a [] = r"
  by (simp add: ring_put_def blit_def)

lemma cut_loop_le: "cut_loop text n bk left \<le> n"
  by (induction left arbitrary: bk) (auto simp: Let_def)

lemma utf8_cut_le: "log_store_utf8_cut text len cap \<le> cap" "log_store_utf8_cut text len cap \<le> len"
  using cut_loop_le [of "text" "min len cap" 1 4] by (simp_all add: log_store_utf8_cut_def)

lemma stored_ok: "\<not> entry_invalid e \<Longrightarrow> ring_record_ok (stored e seq)"
  using utf8_cut_le
  by (auto simp: ring_record_ok_def stored_def entry_invalid_def entry_text_def entry_module_def
      intro: min.coboundedI2 split: option.split)

lemma stored_entry_header: "entry_header (record_size (stored e seq)) e seq = header_bytes (stored e seq)"
  unfolding entry_header_def header_bytes_def by (simp add: stored_def)

text \<open>The five writes are one.\<close>

lemma write_record_eq:
  assumes r: "ring_ok r" and x: "ring_record_ok (stored e seq)"
  shows "write_record e seq r = (ring_put r (rb_head r) (record_bytes (stored e seq)))
    \<lparr>rb_head := rb_head r + record_size (stored e seq), rb_records := rb_records r + 1,
     rb_appended := rb_appended r + 1\<rparr>"
proof -
  let ?x = "stored e seq" and ?m = "entry_module e" and ?t = "entry_text e"
  let ?h = "header_bytes ?x" and ?pad = "replicate (record_size ?x - TRAILER_SIZE - HDR_SIZE - length ?m - length ?t) (0 :: byte)"
  let ?tr = "put_le 2 (record_size ?x) @ put_le 2 TRAILER_MAGIC"
  have mt: "lr_module ?x = ?m" "lr_text ?x = ?t" by (simp_all add: stored_def)
  have bytes: "record_bytes ?x = ?h @ ?m @ ?t @ ?pad @ ?tr" by (simp add: record_bytes_def mt)
  have total: "record_total (length ?m) (length ?t) = record_size ?x" by (simp add: record_size_def mt)
  have len: "length (?h @ ?m @ ?t @ ?pad @ ?tr) \<le> rb_size r"
    using record_size_sane(2) [OF x] r bytes by (metis length_record_bytes order_trans ring_ok_def)
  let ?a = "rb_head r"
  have ok: "ring_ok (ring_put r ?a ?h)" "ring_ok (ring_put r ?a (?h @ ?m))" "ring_ok (ring_put r ?a (?h @ ?m @ ?t))"
    "ring_ok (ring_put r ?a (?h @ ?m @ ?t @ ?pad))"
    using len by (auto intro: ring_put_ok [OF r])
  have p1: "ring_put (ring_put r ?a ?h) (?a + HDR_SIZE) ?m = ring_put r ?a (?h @ ?m)"
    using ring_put_append [OF r, of ?h ?m ?a] len by simp
  have p2: "ring_put (ring_put r ?a (?h @ ?m)) (?a + HDR_SIZE + length ?m) ?t = ring_put r ?a (?h @ ?m @ ?t)"
    using ring_put_append [OF r, of "?h @ ?m" ?t ?a] len by (simp add: add.assoc)
  have p3: "ring_put (ring_put r ?a (?h @ ?m @ ?t)) (?a + HDR_SIZE + length ?m + length ?t) ?pad =
      ring_put r ?a (?h @ ?m @ ?t @ ?pad)"
    using ring_put_append [OF r, of "?h @ ?m @ ?t" ?pad ?a] len by (simp add: add.assoc)
  have skip1: "(if 0 < length ?m then ring_put r ?a (?h @ ?m) else ring_put r ?a ?h) = ring_put r ?a (?h @ ?m)"
    and skip2: "(if 0 < length ?t then ring_put r ?a (?h @ ?m @ ?t) else ring_put r ?a (?h @ ?m)) =
      ring_put r ?a (?h @ ?m @ ?t)"
    by (cases "?m = []"; simp) (cases "?t = []"; simp)
  have pl: "length (?h @ ?m @ ?t @ ?pad) = record_size ?x - TRAILER_SIZE"
  proof -
    have "length (?h @ ?m @ ?t @ ?pad) + length ?tr = record_size ?x"
      using arg_cong [OF bytes, of length] by simp
    then show ?thesis by (simp add: TRAILER_SIZE_def)
  qed
  have ts: "TRAILER_SIZE \<le> record_size ?x"
    using record_size_sane(3) [OF x] by (simp add: RECORD_MIN_def)
  have p4: "ring_put (ring_put r ?a (?h @ ?m @ ?t @ ?pad)) (?a + record_size ?x - TRAILER_SIZE) ?tr =
      ring_put r ?a (record_bytes ?x)"
    using ring_put_append [OF r, of "?h @ ?m @ ?t @ ?pad" ?tr ?a] len pl ts unfolding bytes by simp
  show ?thesis
    unfolding write_record_def Let_def total stored_entry_header
    by (simp only: skip1 skip2 p1 p2 p3 p4 ring_put_simps)
qed

lemma write_record_holds:
  assumes "holds r rs" "ring_record_ok (stored e seq)" "bytes_total rs + record_size (stored e seq) \<le> rb_size r"
  shows "holds (write_record e seq r) (rs @ [stored e seq])"
proof -
  let ?x = "stored e seq" and ?p = "ring_put r (rb_head r) (record_bytes (stored e seq))"
  note h = holdsD [OF assms(1)]
  have le: "length (record_bytes ?x) \<le> rb_size r" using assms(3) by simp
  have w1: "window ?p (rb_tail r) (bytes_total rs) = concat (map record_bytes rs)"
    using ring_put_window_behind [OF h(1) le, of "rb_head r" "rb_tail r" "bytes_total rs"] h(2,7) assms(3) by simp
  have w2: "window ?p (rb_tail r + bytes_total rs) (record_size ?x) = record_bytes ?x"
    using ring_put_window [OF h(1) le, of "rb_head r"] h(2) by simp
  show ?thesis
  proof (rule holdsI)
    show "window (write_record e seq r) (rb_tail (write_record e seq r)) (bytes_total (rs @ [?x])) =
        concat (map record_bytes (rs @ [?x]))"
      using w1 w2 by (simp add: write_record_eq [OF h(1) assms(2)] window_append)
  qed (use h assms ring_put_ok [OF h(1) le] in \<open>auto simp: write_record_eq\<close>)
qed

section \<open>The store\<close>

definition store_holds :: "log_store \<Rightarrow> log_store_record list list \<Rightarrow> bool" where
  "store_holds st L \<longleftrightarrow> length (ls_rings st) = 2 \<and> length L = 2 \<and> (\<forall>s < 2. holds (ls_rings st ! s) (L ! s))"

text \<open>Sequence numbers: increasing in each ring, below the next one, never shared by the rings.\<close>

definition seqs_ok :: "log_store \<Rightarrow> log_store_record list list \<Rightarrow> bool" where
  "seqs_ok st L \<longleftrightarrow>
     (\<forall>s < 2. sorted_wrt (\<lambda>x y. lr_seq x < lr_seq y) (L ! s) \<and>
        (\<forall>x \<in> set (L ! s). lr_seq x < ls_next_seq st \<and> lr_source x = s)) \<and>
     (\<forall>x \<in> set (L ! 0). \<forall>y \<in> set (L ! 1). lr_seq x \<noteq> lr_seq y)"

lemma less_2: "(s::nat) < 2 \<longleftrightarrow> s = 0 \<or> s = 1"
  by auto

lemma sources_list: "[0..<LOG_STORE_SOURCE_COUNT] = [0, 1]"
  by (simp add: LOG_STORE_SOURCE_COUNT_def upt_rec)

text \<open>Taking the lock and noting times touch neither rings nor sequence.\<close>

lemma lock_store_frame:
  assumes "lock_store h st = (t1, w, st')"
  shows "ls_rings st' = ls_rings st" "ls_next_seq st' = ls_next_seq st" "ls_initialized st' = ls_initialized st"
    "ls_panicked st' = ls_panicked st" "ls_losses st' = ls_losses st"
  using assms by (auto simp: lock_store_def k_cycle_get_def)

lemma note_frame [simp]:
  "ls_rings (note_append_times h w t st) = ls_rings st" "ls_next_seq (note_append_times h w t st) = ls_next_seq st"
  "ls_initialized (note_append_times h w t st) = ls_initialized st"
  "ls_panicked (note_append_times h w t st) = ls_panicked st" "ls_losses (note_append_times h w t st) = ls_losses st"
  "ls_rings (note_read_time h t st) = ls_rings st" "ls_next_seq (note_read_time h t st) = ls_next_seq st"
  "ls_initialized (note_read_time h t st) = ls_initialized st"
  "ls_panicked (note_read_time h t st) = ls_panicked st" "ls_losses (note_read_time h t st) = ls_losses st"
  by (simp_all add: note_append_times_def note_read_time_def k_cycle_get_def Let_def)

text \<open>Which entries are stored, and what a stored entry does.\<close>

definition append_refused :: "bool \<Rightarrow> log_store_entry option \<Rightarrow> log_store \<Rightarrow> errno option" where
  "append_refused panics entry st =
     (if ls_panicked st \<or> \<not> ls_initialized st then Some EAGAIN
      else case entry of None \<Rightarrow> Some EINVAL
      | Some e \<Rightarrow> if entry_invalid e then Some EINVAL else if panics then Some EAGAIN else None)"

definition after_append :: "log_store \<Rightarrow> log_store_entry \<Rightarrow> log_store_record list list \<Rightarrow> log_store_record list list" where
  "after_append st e L =
     (let s = le_source e; x = stored e (ls_next_seq st) in
      L[s := evict (rb_size (ls_rings st ! s)) (record_size x) (L ! s) @ [x]])"

lemma append_result: "fst (log_store_append h panics entry st) = append_refused panics entry st"
  by (auto simp: log_store_append_def append_refused_def log_store_panic_def Let_def dest!: lock_store_frame(4)
      split: option.split prod.split)

lemma append_refused_frame:
  assumes "append_refused panics entry st \<noteq> None"
  shows "ls_rings (snd (log_store_append h panics entry st)) = ls_rings st"
    "ls_next_seq (snd (log_store_append h panics entry st)) = ls_next_seq st"
proof -
  obtain t1 w st' where l: "lock_store h (log_store_panic st) = (t1, w, st')" by (metis surj_pair)
  note f = lock_store_frame [OF l]
  have "ls_rings (snd (log_store_append h panics entry st)) = ls_rings st \<and>
      ls_next_seq (snd (log_store_append h panics entry st)) = ls_next_seq st"
  proof (cases "ls_panicked st \<or> \<not> ls_initialized st \<or> entry = None \<or> entry_invalid (the entry)")
    case True
    then show ?thesis by (auto simp: log_store_append_def split: option.split)
  next
    case False
    then obtain e where e: "entry = Some e" "\<not> ls_panicked st" "ls_initialized st" "\<not> entry_invalid e" by auto
    then have "panics" using assms by (simp add: append_refused_def split: if_splits)
    with e f l show ?thesis by (simp add: log_store_append_def log_store_panic_def)
  qed
  then show "ls_rings (snd (log_store_append h panics entry st)) = ls_rings st"
    "ls_next_seq (snd (log_store_append h panics entry st)) = ls_next_seq st" by simp_all
qed

lemma append_stored:
  assumes "append_refused panics (Some e) st = None"
  shows "\<exists>t1 w. snd (log_store_append h panics (Some e) st) = note_append_times h w t1
     (snd (snd (lock_store h st))\<lparr>ls_next_seq := ls_next_seq st + 1,
       ls_rings := (ls_rings st)[le_source e := write_record e (ls_next_seq st)
         (make_room (record_size (stored e (ls_next_seq st))) (ls_rings st ! le_source e))]\<rparr>)"
proof -
  obtain t1 w st' where l: "lock_store h st = (t1, w, st')" by (metis surj_pair)
  have c: "\<not> (ls_panicked st \<or> \<not> ls_initialized st)" "\<not> entry_invalid e" "\<not> panics"
    using assms by (auto simp: append_refused_def split: if_splits)
  have sz: "record_total (length (entry_module e)) (length (entry_text e)) = record_size (stored e (ls_next_seq st))"
    by (simp add: record_size_def stored_def)
  from c lock_store_frame [OF l] show ?thesis
    by (intro exI [of _ t1] exI [of _ w]) (simp add: log_store_append_def l Let_def sz)
qed

lemma append_holds:
  assumes "store_holds st L" "append_refused panics (Some e) st = None"
  shows "store_holds (snd (log_store_append h panics (Some e) st)) (after_append st e L)"
    and "ls_next_seq (snd (log_store_append h panics (Some e) st)) = ls_next_seq st + 1"
    and "\<And>s. s < 2 \<Longrightarrow> rb_size (ls_rings (snd (log_store_append h panics (Some e) st)) ! s) = rb_size (ls_rings st ! s)"
    and "\<And>s. s < 2 \<Longrightarrow> rb_head (ls_rings (snd (log_store_append h panics (Some e) st)) ! s) =
      rb_head (ls_rings st ! s) + (if s = le_source e then record_size (stored e (ls_next_seq st)) else 0)"
proof -
  let ?s = "le_source e" and ?x = "stored e (ls_next_seq st)"
  let ?r = "ls_rings st ! ?s" and ?st = "snd (log_store_append h panics (Some e) st)"
  let ?rs = "evict (rb_size ?r) (record_size ?x) (L ! ?s)" and ?r1 = "make_room (record_size ?x) ?r"
  let ?r2 = "write_record e (ls_next_seq st) ?r1"
  have e: "\<not> entry_invalid e" using assms(2) by (auto simp: append_refused_def split: if_splits)
  then have s: "?s < 2" by (simp add: entry_invalid_def LOG_STORE_SOURCE_COUNT_def)
  have x: "ring_record_ok ?x" by (rule stored_ok [OF e])
  have h: "holds ?r (L ! ?s)" using assms(1) s by (simp add: store_holds_def)
  have le: "record_size ?x \<le> rb_size ?r"
    using record_size_sane(2) [OF x] holdsD(1) [OF h] by (simp add: ring_ok_def)
  have room: "holds ?r1 ?rs" "rb_size ?r1 = rb_size ?r" "rb_head ?r1 = rb_head ?r"
    using make_room_holds [OF h le] by simp_all
  have new: "holds ?r2 (?rs @ [?x])"
    by (rule write_record_holds [OF room(1) x]) (use evict_fits [OF le] room(2) in simp)
  have sz: "rb_size ?r2 = rb_size ?r" "rb_head ?r2 = rb_head ?r + record_size ?x"
    using write_record_eq [OF holdsD(1) [OF room(1)] x] room(2,3) by simp_all
  obtain t1 w where "?st = note_append_times h w t1 (snd (snd (lock_store h st))\<lparr>ls_next_seq := ls_next_seq st + 1,
       ls_rings := (ls_rings st)[?s := ?r2]\<rparr>)"
    using append_stored [OF assms(2)] by blast
  then have st: "ls_rings ?st = (ls_rings st)[?s := ?r2]" "ls_next_seq ?st = ls_next_seq st + 1" by simp_all
  show "ls_next_seq ?st = ls_next_seq st + 1" by (rule st(2))
  show "store_holds ?st (after_append st e L)"
    using assms(1) s new by (auto simp: store_holds_def st after_append_def Let_def nth_list_update)
  show "rb_size (ls_rings ?st ! i) = rb_size (ls_rings st ! i)" if "i < 2" for i
    using assms(1) s that sz by (auto simp: store_holds_def st nth_list_update)
  show "rb_head (ls_rings ?st ! i) = rb_head (ls_rings st ! i) + (if i = ?s then record_size ?x else 0)" if "i < 2" for i
    using assms(1) s that sz by (auto simp: store_holds_def st nth_list_update)
qed

lemma less_next: "(q::u64) < n \<Longrightarrow> unat n < 2 ^ 64 - 1 \<Longrightarrow> q < n + 1"
proof -
  assume a: "q < n" "unat n < 2 ^ 64 - 1"
  then have "unat (n + 1) = unat n + 1" by (simp add: unat_word_ariths)
  with a(1) show ?thesis by (simp add: word_less_nat_alt)
qed

lemma append_seqs:
  assumes "store_holds st L" "seqs_ok st L" "append_refused panics (Some e) st = None" "unat (ls_next_seq st) < 2 ^ 64 - 1"
  shows "seqs_ok (snd (log_store_append h panics (Some e) st)) (after_append st e L)"
proof -
  let ?s = "le_source e" and ?x = "stored e (ls_next_seq st)"
  have "\<not> entry_invalid e" using assms(3) by (auto simp: append_refused_def split: if_splits)
  then have s: "?s = 0 \<or> ?s = 1" by (auto simp: entry_invalid_def LOG_STORE_SOURCE_COUNT_def)
  have l: "length L = 2" using assms(1) by (simp add: store_holds_def)
  have sub: "y \<in> set (L ! i)" if "y \<in> set (evict c n (L ! i))" for y c n i using set_evict that by blast
  have sorted: "sorted_wrt (\<lambda>x y. lr_seq x < lr_seq y) (evict c n (L ! i))" if "i < 2" for c n i
    using evict_drop [of "L ! i" c n] assms(2) that by (auto simp: seqs_ok_def sorted_wrt_drop)
  have old: "lr_seq y < ls_next_seq st" "lr_source y = i" if "y \<in> set (L ! i)" "i < 2" for y i
    using assms(2) that by (simp_all add: seqs_ok_def)
  have new: "ls_next_seq st < ls_next_seq st + 1"
    using assms(4) by (simp add: word_less_nat_alt unat_word_ariths)
  have dis: "\<And>x y. x \<in> set (L ! 0) \<Longrightarrow> y \<in> set (L ! 1) \<Longrightarrow> lr_seq x \<noteq> lr_seq y"
    using assms(2) unfolding seqs_ok_def by blast
  have x: "lr_seq ?x = ls_next_seq st" "lr_source ?x = ?s" by (simp_all add: stored_def)
  show ?thesis
    unfolding seqs_ok_def append_holds(2) [OF assms(1,3)]
  proof (intro conjI allI impI ballI)
    fix i :: nat assume i: "i < 2"
    show "sorted_wrt (\<lambda>x y. lr_seq x < lr_seq y) (after_append st e L ! i)"
    proof (cases "i = ?s")
      case True
      have "lr_seq y < ls_next_seq st" if "y \<in> set (evict c n (L ! i))" for y c n
        by (rule old(1) [OF sub [OF that] i])
      with True i l sorted [OF i] x show ?thesis by (simp add: after_append_def Let_def sorted_wrt_append)
    next
      case False
      with i l assms(2) show ?thesis by (simp add: after_append_def Let_def seqs_ok_def)
    qed
    fix y assume "y \<in> set (after_append st e L ! i)"
    then have "y = ?x \<and> i = ?s \<or> y \<in> set (L ! i)"
      using i l s sub by (auto simp: after_append_def Let_def nth_list_update split: if_splits)
    then show "lr_seq y < ls_next_seq st + 1" "lr_source y = i"
      using x new old [of y i] i less_next [OF _ assms(4)] by auto
  next
    fix y z assume "y \<in> set (after_append st e L ! 0)" "z \<in> set (after_append st e L ! 1)"
    then have "(y = ?x \<and> z \<in> set (L ! 1)) \<or> (z = ?x \<and> y \<in> set (L ! 0)) \<or> (y \<in> set (L ! 0) \<and> z \<in> set (L ! 1))"
      using l s sub by (auto simp: after_append_def Let_def nth_list_update split: if_splits)
    then show "lr_seq y \<noteq> lr_seq z"
      using x old(1) [of z 1] old(1) [of y 0] dis by auto
  qed
qed

end
