(* ===== verification/Log_Store_Readers.thy ===== *)
theory Log_Store_Readers
  imports Log_Store
begin

text \<open>
  Readers of \<^verbatim>\<open>log_store.c\<close>: what lies ahead of a reader in each ring, one step of a read, reads interleaved
  with appends, and the walk backwards that opens a reader at the last matches.
\<close>

section \<open>Reading forwards\<close>

fun seq_merge :: "log_store_record list \<Rightarrow> log_store_record list \<Rightarrow> log_store_record list" where
  "seq_merge [] ys = ys"
| "seq_merge (x # xs) [] = x # xs"
| "seq_merge (x # xs) (y # ys) =
     (if lr_seq y < lr_seq x then y # seq_merge (x # xs) ys else x # seq_merge xs (y # ys))"

lemma seq_merge_nil [simp]: "seq_merge xs [] = xs"
  by (cases xs) simp_all

lemma set_seq_merge: "set (seq_merge xs ys) = set xs \<union> set ys"
  by (induction xs ys rule: seq_merge.induct) auto

lemma seq_merge_last_left:
  "\<forall>z \<in> set xs \<union> set ys. lr_seq z < lr_seq x \<Longrightarrow> seq_merge (xs @ [x]) ys = seq_merge xs ys @ [x]"
proof (induction xs ys rule: seq_merge.induct)
  case (1 ys)
  then show ?case by (induction ys) (auto dest: less_imp_not_less)
qed (auto dest: less_imp_not_less)

lemma seq_merge_last_right:
  "\<forall>z \<in> set xs \<union> set ys. lr_seq z < lr_seq y \<Longrightarrow> seq_merge xs (ys @ [y]) = seq_merge xs ys @ [y]"
proof (induction xs ys rule: seq_merge.induct)
  case (2 x xs)
  then show ?case by (induction xs arbitrary: x) (auto dest: less_imp_not_less)
qed (auto dest: less_imp_not_less)

definition sel :: "log_store_filter \<Rightarrow> nat \<Rightarrow> bool" where
  "sel f s \<longleftrightarrow> lf_sources f AND source_bit s \<noteq> 0"

text \<open>A position in a ring as a cut through the records it holds: \<open>ys\<close> lie ahead.\<close>

definition cut_at :: "ring \<Rightarrow> log_store_record list \<Rightarrow> nat \<Rightarrow> log_store_record list \<Rightarrow> bool" where
  "cut_at r rs p ys \<longleftrightarrow> (\<exists>xs. rs = xs @ ys \<and> p = rb_tail r + bytes_total xs)"

text \<open>What lies ahead of a reader, per source; nothing for a source it does not select.\<close>

definition ahead :: "log_store_reader \<Rightarrow> log_store \<Rightarrow> log_store_record list list \<Rightarrow> log_store_record list list \<Rightarrow> bool" where
  "ahead rd st L Y \<longleftrightarrow> length (rd_pos rd) = 2 \<and> length Y = 2 \<and>
     (\<forall>s < 2. if sel (rd_filter rd) s then cut_at (ls_rings st ! s) (L ! s) (rd_pos rd ! s) (Y ! s) else Y ! s = [])"

abbreviation merged :: "log_store_record list list \<Rightarrow> log_store_record list" where
  "merged Y \<equiv> seq_merge (Y ! 0) (Y ! 1)"

lemma bytes_total_pos: "\<forall>x \<in> set rs. ring_record_ok x \<Longrightarrow> rs \<noteq> [] \<Longrightarrow> 0 < bytes_total rs"
  using record_size_pos by (cases rs) auto

lemma peek_forward_cut:
  assumes "holds r rs" "cut_at r rs p ys" "sel f s"
  shows "peek_forward (lf_sources f) s r p =
    (p, False, case ys of [] \<Rightarrow> None | y # _ \<Rightarrow> Some (header_bytes y))"
proof -
  obtain xs where xs: "rs = xs @ ys" "p = rb_tail r + bytes_total xs" using assms(2) by (auto simp: cut_at_def)
  note h = holdsD [OF assms(1)]
  have s: "lf_sources f AND source_bit s \<noteq> 0" using assms(3) by (simp add: sel_def)
  show ?thesis
  proof (cases ys)
    case Nil
    with xs h(2) have "rb_head r = p" by simp
    with s xs Nil show ?thesis by (simp add: peek_forward_def Let_def)
  next
    case (Cons y zs)
    have y: "ring_record_ok y" using h(5) [of y] xs Cons by simp
    have "p < rb_head r" using h(2) xs Cons record_size_pos [OF y] by simp
    with s xs Cons holds_header(1) [of r xs y zs] assms(1) header_size [OF y] record_size_sane(1) [OF y] show ?thesis
      by (simp add: peek_forward_def Let_def)
  qed
qed

lemma peek_forward_unselected: "\<not> sel f s \<Longrightarrow> peek_forward (lf_sources f) s r p = (p, False, None)"
  by (simp add: peek_forward_def sel_def)

text \<open>The next record of each ring, and the choice between them.\<close>

lemma cut_at_next:
  assumes "cut_at r rs p (y # ys)"
  shows "cut_at r rs (p + record_size y) ys"
proof -
  from assms obtain xs where "rs = (xs @ [y]) @ ys" "p + record_size y = rb_tail r + bytes_total (xs @ [y])"
    by (auto simp: cut_at_def)
  then show ?thesis unfolding cut_at_def by blast
qed

lemma ahead_peeks:
  assumes "store_holds st L" "ahead rd st L Y" "s < 2"
  shows "peek_forward (lf_sources (rd_filter rd)) s (ls_rings st ! s) (rd_pos rd ! s) =
    (rd_pos rd ! s, False, case Y ! s of [] \<Rightarrow> None | y # _ \<Rightarrow> Some (header_bytes y))"
proof (cases "sel (rd_filter rd) s")
  case True
  with assms show ?thesis
    by (intro peek_forward_cut [of _ "L ! s"]) (auto simp: store_holds_def ahead_def)
next
  case False
  with assms show ?thesis by (auto simp: peek_forward_unselected ahead_def)
qed

lemma ahead_record_ok:
  assumes "store_holds st L" "ahead rd st L Y" "s < 2" "y \<in> set (Y ! s)"
  shows "ring_record_ok y" "y \<in> set (L ! s)" "sel (rd_filter rd) s"
proof -
  have sel: "sel (rd_filter rd) s" using assms by (auto simp: ahead_def split: if_splits)
  with assms have "cut_at (ls_rings st ! s) (L ! s) (rd_pos rd ! s) (Y ! s)" by (auto simp: ahead_def)
  with assms(4) show y: "y \<in> set (L ! s)" by (auto simp: cut_at_def)
  with assms(1,3) show "ring_record_ok y" using holdsD(5) by (auto simp: store_holds_def)
  show "sel (rd_filter rd) s" by (rule sel)
qed

lemma copy_ahead:
  assumes "store_holds st L" "ahead rd st L Y" "s < 2" "Y ! s = y # ys"
  shows "copy_record (ls_rings st ! s) (rd_pos rd ! s) (header_bytes y) = y"
proof -
  have "sel (rd_filter rd) s" using ahead_record_ok(3) [OF assms(1-3), of y] assms(4) by simp
  then have "cut_at (ls_rings st ! s) (L ! s) (rd_pos rd ! s) (y # ys)"
    using assms(2-4) unfolding ahead_def by metis
  then obtain xs where "L ! s = xs @ y # ys" "rd_pos rd ! s = rb_tail (ls_rings st ! s) + bytes_total xs"
    by (auto simp: cut_at_def)
  moreover have "holds (ls_rings st ! s) (L ! s)" using assms(1,3) by (simp add: store_holds_def)
  ultimately show ?thesis using holds_header(3) [of "ls_rings st ! s" xs y ys] by simp
qed

lemma ahead_step:
  assumes "store_holds st L" "ahead rd st L Y" "s < 2" "Y ! s = y # ys"
  shows "ahead (rd\<lparr>rd_pos := (rd_pos rd)[s := rd_pos rd ! s + record_size y], rd_scanned := n\<rparr>) st L (Y[s := ys])"
proof -
  have "sel (rd_filter rd) s" using ahead_record_ok(3) [OF assms(1-3), of y] assms(4) by simp
  with assms have "cut_at (ls_rings st ! s) (L ! s) (rd_pos rd ! s) (y # ys)" by (auto simp: ahead_def)
  from cut_at_next [OF this] assms(2,3) \<open>sel (rd_filter rd) s\<close> show ?thesis
    by (auto simp: ahead_def nth_list_update)
qed

text \<open>The source \<open>pick\<close> settles on is where the head of the merge comes from.\<close>

definition heads :: "log_store_record list list \<Rightarrow> byte list option list" where
  "heads Y = map (\<lambda>s. case Y ! s of [] \<Rightarrow> None | y # _ \<Rightarrow> Some (header_bytes y)) [0, 1]"

lemma pick_merge:
  assumes "length Y = 2"
  shows "case pick (\<lambda>q b. q < b) 0 (heads Y) None of
      None \<Rightarrow> merged Y = []
    | Some (s, q) \<Rightarrow> \<exists>y ys. s < 2 \<and> Y ! s = y # ys \<and> q = lr_seq y \<and> merged Y = y # merged (Y[s := ys])"
proof -
  obtain A B where Y: "Y = [A, B]" using assms by (auto simp: length_Suc_conv numeral_2_eq_2)
  show ?thesis
    by (cases A; cases B) (auto simp: Y heads_def header_seq_eq)
qed

lemma read_one_ahead:
  assumes st: "store_holds st L" and a: "ahead rd st L Y" and up: "rd_upper_seq rd = 0"
  shows "case merged Y of
      [] \<Rightarrow> fst (read_one h rd st) = None \<and> ahead (fst (snd (read_one h rd st))) st L Y
    | y # M \<Rightarrow> fst (read_one h rd st) = Some y \<and>
        (\<exists>Y'. ahead (fst (snd (read_one h rd st))) st L Y' \<and> merged Y' = M)"
    and "rd_gap (fst (snd (read_one h rd st))) = rd_gap rd"
    and "rd_filter (fst (snd (read_one h rd st))) = rd_filter rd"
    and "rd_upper_seq (fst (snd (read_one h rd st))) = 0"
proof -
  obtain t1 w st1 where l: "lock_store h st = (t1, w, st1)" by (metis surj_pair)
  note f = lock_store_frame [OF l]
  let ?pk = "\<lambda>s. peek_forward (lf_sources (rd_filter rd)) s (ls_rings st ! s) (rd_pos rd ! s)"
  have pk: "?pk 0 = (rd_pos rd ! 0, False, heads Y ! 0)" "?pk 1 = (rd_pos rd ! 1, False, heads Y ! 1)"
    using ahead_peeks [OF st a, of 0] ahead_peeks [OF st a, of 1] by (simp_all add: heads_def)
  have pos: "[rd_pos rd ! 0, rd_pos rd ! 1] = rd_pos rd"
    using a by (auto simp: ahead_def length_Suc_conv numeral_2_eq_2)
  have hd2: "[heads Y ! 0, heads Y ! 1] = heads Y" by (simp add: heads_def)
  have lY: "length Y = 2" using a by (simp add: ahead_def)
  have "(case merged Y of
      [] \<Rightarrow> fst (read_one h rd st) = None \<and> ahead (fst (snd (read_one h rd st))) st L Y
    | y # M \<Rightarrow> fst (read_one h rd st) = Some y \<and>
        (\<exists>Y'. ahead (fst (snd (read_one h rd st))) st L Y' \<and> merged Y' = M)) \<and>
    rd_gap (fst (snd (read_one h rd st))) = rd_gap rd \<and>
    rd_filter (fst (snd (read_one h rd st))) = rd_filter rd \<and> rd_upper_seq (fst (snd (read_one h rd st))) = 0"
  proof (cases "pick (\<lambda>q b. q < b) 0 (heads Y) None")
    case None
    with pick_merge [OF lY] have "merged Y = []" by simp
    moreover have "read_one h rd st = (None, rd, st1)"
      using None pos by (simp add: read_one_def l f sources_list pk [simplified] hd2 [simplified] Let_def)
    ultimately show ?thesis using a up by simp
  next
    case (Some sq)
    obtain s q where sq: "sq = (s, q)" by (cases sq)
    from pick_merge [OF lY] Some sq obtain y ys where y: "s < 2" "Y ! s = y # ys" "merged Y = y # merged (Y[s := ys])" by auto
    have ok: "ring_record_ok y" using ahead_record_ok(1) [OF st a y(1)] y(2) by simp
    have pks: "[?pk 0, ?pk 1] ! s = (rd_pos rd ! s, False, Some (header_bytes y))"
      using y(1,2) pk by (auto simp: less_2 heads_def)
    have "read_one h rd st = (Some y,
        rd\<lparr>rd_pos := (rd_pos rd)[s := rd_pos rd ! s + record_size y], rd_scanned := rd_scanned rd + 1\<rparr>,
        note_read_time h t1 st1)"
      using Some sq pks pos up header_size [OF ok] copy_ahead [OF st a y(1,2)]
      by (simp add: read_one_def l f sources_list pk [simplified] hd2 [simplified] Let_def)
    with ahead_step [OF st a y(1,2)] y(3) up show ?thesis by auto
  qed
  then show "case merged Y of
      [] \<Rightarrow> fst (read_one h rd st) = None \<and> ahead (fst (snd (read_one h rd st))) st L Y
    | y # M \<Rightarrow> fst (read_one h rd st) = Some y \<and>
        (\<exists>Y'. ahead (fst (snd (read_one h rd st))) st L Y' \<and> merged Y' = M)"
    "rd_gap (fst (snd (read_one h rd st))) = rd_gap rd"
    "rd_filter (fst (snd (read_one h rd st))) = rd_filter rd" "rd_upper_seq (fst (snd (read_one h rd st))) = 0"
    by simp_all
qed

section \<open>Reading while others append\<close>

text \<open>Two kinds of steps interleave: an append, and one holding of the lock by a reader that hands out
  what it matches. The state is the store, the reader and what was handed out.\<close>

datatype log_event = Appending log_store_entry | Reading

type_synonym log_system = "log_store \<times> log_store_reader \<times> log_store_record list"

fun log_step :: "hw \<Rightarrow> log_event \<Rightarrow> log_system \<Rightarrow> log_system" where
  "log_step h (Appending e) (st, rd, out) = (snd (log_store_append h False (Some e) st), rd, out)"
| "log_step h Reading (st, rd, out) =
     (case read_one h rd st of
        (None, rd', st') \<Rightarrow> (st', rd', out)
      | (Some rec, rd', st') \<Rightarrow> (st', rd', if log_store_filter_match (rd_filter rd') rec then out @ [rec] else out))"

text \<open>The records that the appends of a run store.\<close>

fun appended :: "u64 \<Rightarrow> log_event list \<Rightarrow> log_store_record list" where
  "appended seq [] = []"
| "appended seq (Reading # evs) = appended seq evs"
| "appended seq (Appending e # evs) =
     (if entry_invalid e then appended seq evs else stored e seq # appended (seq + 1) evs)"

text \<open>The reader lost a race: what it would read next was overwritten.\<close>

definition behind :: "log_store_reader \<Rightarrow> log_store \<Rightarrow> bool" where
  "behind rd st \<longleftrightarrow> (\<exists>s < 2. sel (rd_filter rd) s \<and> rd_pos rd ! s < rb_tail (ls_rings st ! s))"

lemma read_one_frame:
  assumes "read_one h rd st = (res, rd', st')"
  shows "ls_rings st' = ls_rings st" "ls_next_seq st' = ls_next_seq st" "ls_initialized st' = ls_initialized st"
    "ls_panicked st' = ls_panicked st" "rd_filter rd' = rd_filter rd" "rd_upper_seq rd' = rd_upper_seq rd"
    "length (rd_pos rd') = 2" "rd_gap rd \<Longrightarrow> rd_gap rd'" "behind rd st \<Longrightarrow> rd_gap rd'"
proof -
  obtain t1 w st1 where l: "lock_store h st = (t1, w, st1)" by (metis surj_pair)
  note f = lock_store_frame [OF l]
  let ?pk = "\<lambda>s. peek_forward (lf_sources (rd_filter rd)) s (ls_rings st ! s) (rd_pos rd ! s)"
  let ?gap = "rd_gap rd \<or> fst (snd (?pk 0)) \<or> fst (snd (?pk 1))"
  have b: "behind rd st \<Longrightarrow> ?gap"
    by (auto simp: behind_def less_2 peek_forward_def sel_def Let_def)
  have "ls_rings st' = ls_rings st \<and> ls_next_seq st' = ls_next_seq st \<and> ls_initialized st' = ls_initialized st \<and>
    ls_panicked st' = ls_panicked st \<and> rd_filter rd' = rd_filter rd \<and> rd_upper_seq rd' = rd_upper_seq rd \<and>
    length (rd_pos rd') = 2 \<and> rd_gap rd' = ?gap"
    using assms f
    by (auto simp: read_one_def l sources_list Let_def case_prod_beta simp del: list_update.simps
        split: option.splits if_splits prod.splits)
  with b show "ls_rings st' = ls_rings st" "ls_next_seq st' = ls_next_seq st" "ls_initialized st' = ls_initialized st"
    "ls_panicked st' = ls_panicked st" "rd_filter rd' = rd_filter rd" "rd_upper_seq rd' = rd_upper_seq rd"
    "length (rd_pos rd') = 2" "rd_gap rd \<Longrightarrow> rd_gap rd'" "behind rd st \<Longrightarrow> rd_gap rd'" by auto
qed

text \<open>How an append moves the tails.\<close>

lemma append_tails:
  assumes "store_holds st L" "append_refused panics (Some e) st = None"
    and st'_def: "st' = snd (log_store_append h panics (Some e) st)"
  shows "\<exists>k \<le> length (L ! le_source e).
      after_append st e L ! le_source e = drop k (L ! le_source e) @ [stored e (ls_next_seq st)] \<and>
      rb_tail (ls_rings st' ! le_source e) =
        rb_tail (ls_rings st ! le_source e) + bytes_total (take k (L ! le_source e))"
    and "\<And>s. s < 2 \<Longrightarrow> s \<noteq> le_source e \<Longrightarrow> ls_rings st' ! s = ls_rings st ! s \<and> after_append st e L ! s = L ! s"
proof -
  let ?s = "le_source e" and ?x = "stored e (ls_next_seq st)"
  have "\<not> entry_invalid e" using assms(2) by (auto simp: append_refused_def split: if_splits)
  then have s: "?s < 2" by (simp add: entry_invalid_def LOG_STORE_SOURCE_COUNT_def)
  have l: "length L = 2" using assms(1) by (simp add: store_holds_def)
  obtain k where k: "k \<le> length (L ! ?s)"
    "evict (rb_size (ls_rings st ! ?s)) (record_size ?x) (L ! ?s) = drop k (L ! ?s)"
    using evict_drop by blast
  have L': "after_append st e L ! ?s = drop k (L ! ?s) @ [?x]"
    using k(2) s l by (simp add: after_append_def Let_def)
  have "holds (ls_rings st' ! ?s) (drop k (L ! ?s) @ [?x])"
    using append_holds(1) [OF assms(1,2), of h] s unfolding store_holds_def st'_def L' [symmetric] by blast
  from holdsD(2) [OF this] have "rb_head (ls_rings st' ! ?s) = rb_tail (ls_rings st' ! ?s) + bytes_total (drop k (L ! ?s)) + record_size ?x"
    by simp
  moreover have "rb_head (ls_rings st' ! ?s) = rb_head (ls_rings st ! ?s) + record_size ?x"
    using append_holds(4) [OF assms(1,2) s] by (simp add: st'_def)
  moreover have "rb_head (ls_rings st ! ?s) = rb_tail (ls_rings st ! ?s) + bytes_total (L ! ?s)"
    using holdsD(2) [of "ls_rings st ! ?s" "L ! ?s"] assms(1) s by (simp add: store_holds_def)
  moreover have "bytes_total (L ! ?s) = bytes_total (take k (L ! ?s)) + bytes_total (drop k (L ! ?s))"
    by (metis append_take_drop_id map_append sum_list_append)
  ultimately have "rb_tail (ls_rings st' ! ?s) = rb_tail (ls_rings st ! ?s) + bytes_total (take k (L ! ?s))" by simp
  with k(1) L' show "\<exists>k \<le> length (L ! ?s). after_append st e L ! ?s = drop k (L ! ?s) @ [?x] \<and>
      rb_tail (ls_rings st' ! ?s) = rb_tail (ls_rings st ! ?s) + bytes_total (take k (L ! ?s))" by blast
  fix i assume "i < 2" "i \<noteq> ?s"
  moreover obtain t1 w r2 where "st' = note_append_times h w t1 (snd (snd (lock_store h st))\<lparr>ls_next_seq := ls_next_seq st + 1,
       ls_rings := (ls_rings st)[?s := r2]\<rparr>)"
    using append_stored [OF assms(2)] unfolding st'_def by blast
  ultimately show "ls_rings st' ! i = ls_rings st ! i \<and> after_append st e L ! i = L ! i"
    by (simp add: after_append_def Let_def)
qed

lemma append_behind:
  assumes "store_holds st L" "append_refused panics (Some e) st = None" "behind rd st"
  shows "behind rd (snd (log_store_append h panics (Some e) st))"
proof -
  from assms(3) obtain s where s: "s < 2" "sel (rd_filter rd) s" "rd_pos rd ! s < rb_tail (ls_rings st ! s)"
    by (auto simp: behind_def)
  have "rb_tail (ls_rings st ! s) \<le> rb_tail (ls_rings (snd (log_store_append h panics (Some e) st)) ! s)"
  proof (cases "s = le_source e")
    case True
    with append_tails(1) [OF assms(1,2) refl, of h] show ?thesis by auto
  next
    case False
    with append_tails(2) [OF assms(1,2) refl s(1)] show ?thesis by simp
  qed
  with s show ?thesis unfolding behind_def by (meson less_le_trans)
qed

lemma append_ahead:
  assumes st: "store_holds st L" and ok: "append_refused panics (Some e) st = None" and a: "ahead rd st L Y"
    and seqs: "seqs_ok st L"
    and st'_def: "st' = snd (log_store_append h panics (Some e) st)" and x_def: "x = stored e (ls_next_seq st)"
  shows "behind rd st' \<or> (\<exists>Y'. ahead rd st' (after_append st e L) Y' \<and>
    merged Y' = merged Y @ (if sel (rd_filter rd) (le_source e) then [x] else []))"
proof -
  let ?s = "le_source e" and ?L = "after_append st e L"
  have "\<not> entry_invalid e" using ok by (auto simp: append_refused_def split: if_splits)
  then have s: "?s < 2" by (simp add: entry_invalid_def LOG_STORE_SOURCE_COUNT_def)
  have lY: "length Y = 2" using a by (simp add: ahead_def)
  obtain k where k: "k \<le> length (L ! ?s)" "?L ! ?s = drop k (L ! ?s) @ [x]"
    "rb_tail (ls_rings st' ! ?s) = rb_tail (ls_rings st ! ?s) + bytes_total (take k (L ! ?s))"
    using append_tails(1) [OF st ok st'_def] unfolding x_def by blast
  have other: "ls_rings st' ! i = ls_rings st ! i \<and> ?L ! i = L ! i" if "i < 2" "i \<noteq> ?s" for i
    using append_tails(2) [OF st ok st'_def that] .
  show ?thesis
  proof (cases "sel (rd_filter rd) ?s")
    case False
    have "ahead rd st' ?L Y"
      using a other False unfolding ahead_def by (metis (no_types, lifting))
    with False show ?thesis by auto
  next
    case True
    with a s have "cut_at (ls_rings st ! ?s) (L ! ?s) (rd_pos rd ! ?s) (Y ! ?s)" by (auto simp: ahead_def)
    then obtain xs where xs: "L ! ?s = xs @ Y ! ?s" "rd_pos rd ! ?s = rb_tail (ls_rings st ! ?s) + bytes_total xs"
      by (auto simp: cut_at_def)
    show ?thesis
    proof (cases "k \<le> length xs")
      case small: True
      have "bytes_total xs = bytes_total (take k xs) + bytes_total (drop k xs)"
        by (metis append_take_drop_id map_append sum_list_append)
      with small xs k have "?L ! ?s = drop k xs @ Y ! ?s @ [x]"
        "rd_pos rd ! ?s = rb_tail (ls_rings st' ! ?s) + bytes_total (drop k xs)" by simp_all
      then have "cut_at (ls_rings st' ! ?s) (?L ! ?s) (rd_pos rd ! ?s) (Y ! ?s @ [x])"
        unfolding cut_at_def by blast
      then have "ahead rd st' ?L (Y[?s := Y ! ?s @ [x]])"
        using a other True s lY by (auto simp: ahead_def nth_list_update)
      moreover have old: "\<forall>z \<in> set (Y ! 0) \<union> set (Y ! 1). lr_seq z < lr_seq x"
      proof
        fix z assume "z \<in> set (Y ! 0) \<union> set (Y ! 1)"
        then obtain i where i: "i < 2" "z \<in> set (Y ! i)" by (auto intro: that [of 0] that [of 1])
        from ahead_record_ok(2) [OF st a i] seqs i(1) show "lr_seq z < lr_seq x"
          by (simp add: seqs_ok_def x_def stored_def)
      qed
      have "merged (Y[?s := Y ! ?s @ [x]]) = merged Y @ [x]"
        using s lY seq_merge_last_left [OF old] seq_merge_last_right [OF old] by (auto simp: less_2)
      ultimately show ?thesis using True by auto
    next
      case False
      then have t: "take k (L ! ?s) = xs @ take (k - length xs) (Y ! ?s)" using xs(1) by simp
      have ne: "take (k - length xs) (Y ! ?s) \<noteq> []" using False k(1) xs(1) by auto
      have "\<forall>y \<in> set (take (k - length xs) (Y ! ?s)). ring_record_ok y"
        using ahead_record_ok(1) [OF st a s] by (auto dest: in_set_takeD)
      from bytes_total_pos [OF this ne] have "rd_pos rd ! ?s < rb_tail (ls_rings st' ! ?s)"
        using k(3) xs(2) t by simp
      with True s show ?thesis unfolding behind_def by blast
    qed
  qed
qed

text \<open>What every run keeps: the ghost lists, and, while no gap was flagged, that what was handed out is
  the beginning of what matches, the rest still lying ahead unless the reader was overtaken.\<close>

definition running :: "log_store_filter \<Rightarrow> u64 \<Rightarrow> log_store_record list \<Rightarrow> log_system \<Rightarrow> bool" where
  "running f seq matching sys \<longleftrightarrow> (case sys of (st, rd, out) \<Rightarrow> \<exists>L.
     store_holds st L \<and> seqs_ok st L \<and> ls_initialized st \<and> \<not> ls_panicked st \<and> ls_next_seq st = seq \<and>
     rd_filter rd = f \<and> rd_upper_seq rd = 0 \<and>
     (\<not> rd_gap rd \<longrightarrow> (\<exists>rest. matching = out @ rest \<and>
        (behind rd st \<or> (\<exists>Y. ahead rd st L Y \<and> rest = filter (log_store_filter_match f) (merged Y))))))"

lemma match_selected: "log_store_filter_match f x \<Longrightarrow> sel f (lr_source x)"
  by (simp add: log_store_filter_match_def sel_def split: if_splits)

lemma holds_same_rings:
  "ls_rings st' = ls_rings st \<Longrightarrow> store_holds st' L = store_holds st L"
  "ls_rings st' = ls_rings st \<Longrightarrow> ahead rd st' L Y = ahead rd st L Y"
  "ls_rings st' = ls_rings st \<Longrightarrow> behind rd st' = behind rd st"
  "ls_next_seq st' = ls_next_seq st \<Longrightarrow> seqs_ok st' L = seqs_ok st L"
  by (simp_all add: store_holds_def ahead_def behind_def seqs_ok_def)

lemma running_read:
  assumes "running f seq matching (st, rd, out)"
  shows "running f seq matching (log_step h Reading (st, rd, out))"
proof -
  obtain res rd' st' where r: "read_one h rd st = (res, rd', st')" by (metis surj_pair)
  note fr = read_one_frame [OF r]
  from assms obtain L where L: "store_holds st L" "seqs_ok st L" "ls_initialized st" "\<not> ls_panicked st"
    "ls_next_seq st = seq" "rd_filter rd = f" "rd_upper_seq rd = 0"
    and run: "\<not> rd_gap rd \<longrightarrow> (\<exists>rest. matching = out @ rest \<and>
        (behind rd st \<or> (\<exists>Y. ahead rd st L Y \<and> rest = filter (log_store_filter_match f) (merged Y))))"
    by (auto simp: running_def)
  have kept: "store_holds st' L" "seqs_ok st' L" using L holds_same_rings(1,4) fr(1,2) by blast+
  let ?out = "case res of None \<Rightarrow> out | Some x \<Rightarrow> if log_store_filter_match f x then out @ [x] else out"
  have step: "log_step h Reading (st, rd, out) = (st', rd', ?out)"
    using r fr(5) L(6) by (auto split: option.split)
  have "\<exists>rest. matching = ?out @ rest \<and>
      (behind rd' st' \<or> (\<exists>Y. ahead rd' st' L Y \<and> rest = filter (log_store_filter_match f) (merged Y)))"
    if g: "\<not> rd_gap rd'"
  proof -
    from fr(8,9) g have "\<not> rd_gap rd" "\<not> behind rd st" by blast+
    with run obtain Y where Y: "ahead rd st L Y" "matching = out @ filter (log_store_filter_match f) (merged Y)" by blast
    note ra = read_one_ahead(1) [OF L(1) Y(1) L(7), of h]
    show ?thesis
    proof (cases "merged Y")
      case Nil
      with ra r Y holds_same_rings(2) [OF fr(1)] show ?thesis by auto
    next
      case (Cons y M)
      with ra r obtain Y' where "res = Some y" "ahead rd' st L Y'" "merged Y' = M" by auto
      with Y Cons holds_same_rings(2) [OF fr(1)] show ?thesis by auto
    qed
  qed
  with kept L fr show ?thesis unfolding step by (auto simp: running_def)
qed

lemma running_append:
  assumes "running f seq matching (st, rd, out)" "unat seq < 2 ^ 64 - 1" "\<not> entry_invalid e"
  shows "running f (seq + 1) (matching @ filter (log_store_filter_match f) [stored e seq])
    (log_step h (Appending e) (st, rd, out))"
proof -
  let ?st = "snd (log_store_append h False (Some e) st)" and ?x = "stored e seq"
  from assms(1) obtain L where L: "store_holds st L" "seqs_ok st L" "ls_initialized st" "\<not> ls_panicked st"
    "ls_next_seq st = seq" "rd_filter rd = f" "rd_upper_seq rd = 0"
    and run: "\<not> rd_gap rd \<longrightarrow> (\<exists>rest. matching = out @ rest \<and>
        (behind rd st \<or> (\<exists>Y. ahead rd st L Y \<and> rest = filter (log_store_filter_match f) (merged Y))))"
    by (auto simp: running_def)
  have ok: "append_refused False (Some e) st = None" using L assms(3) by (simp add: append_refused_def)
  have "ls_initialized ?st" "\<not> ls_panicked ?st"
    using L append_stored [OF ok, of h] lock_store_frame [of h st "fst (lock_store h st)"
        "fst (snd (lock_store h st))" "snd (snd (lock_store h st))"] by auto
  moreover have "store_holds ?st (after_append st e L)" "ls_next_seq ?st = seq + 1"
    using append_holds [OF L(1) ok] L(5) by simp_all
  moreover have "seqs_ok ?st (after_append st e L)"
    using append_seqs [OF L(1,2) ok] assms(2) L(5) by simp
  moreover have "\<exists>rest. matching @ filter (log_store_filter_match f) [?x] = out @ rest \<and>
      (behind rd ?st \<or> (\<exists>Y. ahead rd ?st (after_append st e L) Y \<and>
         rest = filter (log_store_filter_match f) (merged Y)))" if g: "\<not> rd_gap rd"
  proof -
    from run g obtain rest where rest: "matching = out @ rest"
      "behind rd st \<or> (\<exists>Y. ahead rd st L Y \<and> rest = filter (log_store_filter_match f) (merged Y))" by blast
    show ?thesis
    proof (cases "behind rd ?st")
      case True
      with rest show ?thesis by auto
    next
      case False
      with append_behind [OF L(1) ok] rest(2) obtain Y where
        Y: "ahead rd st L Y" "rest = filter (log_store_filter_match f) (merged Y)" by blast
      from append_ahead [OF L(1) ok Y(1) L(2) refl refl, of h] False obtain Y' where
        Y': "ahead rd ?st (after_append st e L) Y'"
        "merged Y' = merged Y @ (if sel f (le_source e) then [?x] else [])"
        using L(5,6) by auto
      have "lr_source ?x = le_source e" by (simp add: stored_def)
      then have "filter (log_store_filter_match f) (merged Y') = rest @ filter (log_store_filter_match f) [?x]"
        using Y' Y(2) match_selected [of f ?x] by auto
      with rest(1) Y'(1) show ?thesis by auto
    qed
  qed
  ultimately show ?thesis using L(6,7) by (auto simp: running_def)
qed

lemma running_append_refused:
  assumes "running f seq matching (st, rd, out)" "entry_invalid e"
  shows "log_step h (Appending e) (st, rd, out) = (st, rd, out)"
  using assms by (auto simp: log_store_append_def)

lemma seq_Suc: "unat (seq :: u64) < 2 ^ 64 - 1 \<Longrightarrow> unat (seq + 1) = unat seq + 1"
  by (simp add: unat_word_ariths)

lemma running_run:
  "running f seq matching sys \<Longrightarrow> unat seq + length evs < 2 ^ 64 \<Longrightarrow>
   \<exists>seq'. running f seq' (matching @ filter (log_store_filter_match f) (appended seq evs)) (run_ops (log_step h) evs sys)"
proof (induction evs arbitrary: seq matching sys)
  case Nil
  then show ?case by auto
next
  case (Cons ev evs)
  obtain st rd out where sys: "sys = (st, rd, out)" by (cases sys)
  note run = Cons.prems(1) [unfolded sys]
  have len: "unat seq < 2 ^ 64 - 1" "unat seq + length evs < 2 ^ 64" using Cons.prems(2) by simp_all
  show ?case
  proof (cases ev)
    case Reading
    from Cons.IH [OF running_read [OF run] len(2)] Reading sys show ?thesis by simp
  next
    case (Appending e)
    show ?thesis
    proof (cases "entry_invalid e")
      case True
      from Cons.IH [OF run len(2)] Appending True running_append_refused [OF run True, of h] sys show ?thesis
        by (simp del: log_step.simps)
    next
      case False
      have "unat (seq + 1) + length evs < 2 ^ 64" using seq_Suc [OF len(1)] Cons.prems(2) by simp
      from Cons.IH [OF running_append [OF run len(1) False, of h] this] Appending False sys show ?thesis
        by (auto simp del: log_step.simps)
    qed
  qed
qed


lemma running_start:
  assumes "store_holds st L" "seqs_ok st L" "ls_initialized st" "\<not> ls_panicked st" "ahead rd st L Y"
    "rd_upper_seq rd = 0"
  shows "running (rd_filter rd) (ls_next_seq st) (filter (log_store_filter_match (rd_filter rd)) (merged Y)) (st, rd, [])"
  using assms by (auto simp: running_def)

lemma running_end:
  assumes "running f seq matching (st, rd, out)" "read_one h rd st = (None, rd', st')" "\<not> rd_gap rd'"
  shows "out = matching"
proof -
  from read_one_frame(8,9) [OF assms(2)] assms(3) have g: "\<not> rd_gap rd" "\<not> behind rd st" by blast+
  with assms(1) obtain L Y where L: "store_holds st L" "rd_upper_seq rd = 0" "ahead rd st L Y"
    "matching = out @ filter (log_store_filter_match f) (merged Y)"
    by (auto simp: running_def)
  from read_one_ahead(1) [OF L(1,3,2), of h] assms(2) have "merged Y = []" by (auto split: list.splits)
  with L(4) show ?thesis by simp
qed

section \<open>Walking backwards\<close>

text \<open>A backward position as a cut: \<open>xs\<close> lie behind it, \<open>ys\<close> were passed.\<close>

definition walked :: "log_store_filter \<Rightarrow> log_store \<Rightarrow> log_store_record list list \<Rightarrow> (nat \<times> bool) list \<Rightarrow>
    log_store_record list list \<Rightarrow> log_store_record list list \<Rightarrow> bool" where
  "walked f st L bds X Y \<longleftrightarrow> length bds = 2 \<and> length X = 2 \<and> length Y = 2 \<and>
     (\<forall>s < 2. if sel f s
        then L ! s = X ! s @ Y ! s \<and> fst (bds ! s) = rb_tail (ls_rings st ! s) + bytes_total (X ! s) \<and>
          (snd (bds ! s) \<longrightarrow> X ! s = [])
        else X ! s = [] \<and> Y ! s = [] \<and> snd (bds ! s))"

lemma peek_back_cut:
  assumes "holds r (xs @ ys)" "bp = rb_tail r + bytes_total xs" "d \<longrightarrow> xs = []"
  shows "peek_back r (bp, d) = (if xs = [] then (bp, True, None)
    else (bp, False, Some (bp - record_size (last xs), header_bytes (last xs))))"
proof (cases "xs = []")
  case True
  with assms show ?thesis by (simp add: peek_back_def)
next
  case False
  then obtain zs z where xs: "xs = zs @ [z]" by (metis rev_exhaust)
  note h = holdsD [OF assms(1)]
  have z: "ring_record_ok z" using h(5) [of z] xs by simp
  note sz = record_size_sane [OF z]
  have ok: "ring_ok r" "TRAILER_SIZE \<le> record_size z" "TRAILER_SIZE \<le> rb_size r"
    using h(1) sz(2,3) by (auto simp: ring_ok_def RECORD_MIN_def)
  have hz: "holds r (zs @ z # ys)" using assms(1) xs by simp
  let ?start = "rb_tail r + bytes_total zs"
  have bp: "bp = ?start + record_size z" using assms(2) xs by simp
  have "drop (record_size z - TRAILER_SIZE) (window r ?start (record_size z)) =
      put_le 2 (record_size z) @ put_le 2 TRAILER_MAGIC"
    unfolding holds_window [OF hz] by (rule trailer_bytes)
  then have "window r (bp - TRAILER_SIZE) TRAILER_SIZE = put_le 2 (record_size z) @ put_le 2 TRAILER_MAGIC"
    using ok(2) bp by (simp add: drop_window)
  then have tr: "ring_get r (bp - TRAILER_SIZE) TRAILER_SIZE = put_le 2 (record_size z) @ put_le 2 TRAILER_MAGIC"
    using ring_get_window [OF ok(1,3)] by simp
  have le: "get_le (take 2 (put_le 2 (record_size z) @ put_le 2 TRAILER_MAGIC)) = record_size z"
    "get_le (drop 2 (put_le 2 (record_size z) @ put_le 2 TRAILER_MAGIC)) = TRAILER_MAGIC"
    using sz(4) by (simp_all add: get_put_le TRAILER_MAGIC_def del: put_le.simps)
  have hd: "ring_get r (bp - record_size z) HDR_SIZE = header_bytes z"
    using holds_header(1) [OF hz] bp by simp
  have lt: "\<not> bp \<le> rb_tail r" "\<not> bp - rb_tail r < record_size z"
    using bp record_size_pos [OF z] by simp_all
  have "\<not> d" using assms(3) False by blast
  with False xs lt tr le hd sz(1) show ?thesis
    by (simp add: peek_back_def Let_def)
qed

text \<open>The newest record behind the walk is where the merge of what lies behind ends.\<close>

definition lasts :: "log_store_record list list \<Rightarrow> byte list option list" where
  "lasts X = map (\<lambda>s. if X ! s = [] then None else Some (header_bytes (last (X ! s)))) [0, 1]"

definition seq_sorted :: "log_store_record list \<Rightarrow> bool" where
  "seq_sorted xs \<longleftrightarrow> sorted_wrt (\<lambda>x y. lr_seq x < lr_seq y) xs"

lemma below_last: "seq_sorted (zs @ [z]) \<Longrightarrow> x \<in> set (zs @ [z]) \<Longrightarrow> lr_seq x \<le> lr_seq z"
  by (auto simp: seq_sorted_def sorted_wrt_append less_imp_le)

lemma pick_last:
  assumes "length X = 2" "seq_sorted (X ! 0)" "seq_sorted (X ! 1)"
    and dis: "\<And>x y. x \<in> set (X ! 0) \<Longrightarrow> y \<in> set (X ! 1) \<Longrightarrow> lr_seq x \<noteq> lr_seq y"
  shows "case pick (\<lambda>q b. b < q) 0 (lasts X) None of
      None \<Rightarrow> X ! 0 = [] \<and> X ! 1 = []
    | Some (s, q) \<Rightarrow> s < 2 \<and> X ! s \<noteq> [] \<and>
        merged X = merged (X[s := butlast (X ! s)]) @ [last (X ! s)] \<and>
        (\<forall>x \<in> set (butlast (X ! s)) \<union> set (X ! (1 - s)). lr_seq x < lr_seq (last (X ! s)))"
proof -
  obtain A B where X: "X = [A, B]" using assms by (auto simp: length_Suc_conv numeral_2_eq_2)
  consider "A = []" "B = []" | zs z where "A = zs @ [z]" "B = []" | zs z where "A = []" "B = zs @ [z]"
    | zs z us u where "A = zs @ [z]" "B = us @ [u]"
    by (metis rev_exhaust)
  then show ?thesis
  proof cases
    case 1
    then show ?thesis by (simp add: X lasts_def)
  next
    case (2 zs z)
    with assms(2) have lt: "\<forall>x \<in> set zs. lr_seq x < lr_seq z" by (simp add: X seq_sorted_def sorted_wrt_append)
    with 2 show ?thesis by (simp add: X lasts_def)
  next
    case (3 zs z)
    with assms(3) have lt: "\<forall>x \<in> set zs. lr_seq x < lr_seq z" by (simp add: X seq_sorted_def sorted_wrt_append)
    with 3 show ?thesis by (simp add: X lasts_def)
  next
    case (4 zs z us u)
    have zs: "\<forall>x \<in> set zs. lr_seq x < lr_seq z" and us: "\<forall>x \<in> set us. lr_seq x < lr_seq u"
      using assms(2,3) 4 by (simp_all add: X seq_sorted_def sorted_wrt_append)
    have ne: "lr_seq z \<noteq> lr_seq u" using dis [of z u] 4 by (simp add: X)
    show ?thesis
    proof (cases "lr_seq z < lr_seq u")
      case True
      have lt: "\<forall>x \<in> set A \<union> set us. lr_seq x < lr_seq u"
        using 4 zs us True by (auto intro: less_trans)
      with seq_merge_last_right [OF lt] True 4 us show ?thesis by (auto simp: X lasts_def header_seq_eq)
    next
      case False
      with ne have "lr_seq u < lr_seq z" by simp
      then have lt: "\<forall>x \<in> set zs \<union> set B. lr_seq x < lr_seq z"
        using 4 zs us by (auto intro: less_trans)
      with seq_merge_last_left [OF lt] False 4 show ?thesis by (auto simp: X lasts_def header_seq_eq)
    qed
  qed
qed

text \<open>What the walk passed is newer than what lies behind it.\<close>

definition newer :: "log_store_record list list \<Rightarrow> log_store_record list list \<Rightarrow> bool" where
  "newer X Y \<longleftrightarrow> seq_sorted (X ! 0) \<and> seq_sorted (X ! 1) \<and>
     (\<forall>x \<in> set (X ! 0). \<forall>y \<in> set (X ! 1). lr_seq x \<noteq> lr_seq y) \<and>
     (\<forall>x \<in> set (X ! 0) \<union> set (X ! 1). \<forall>y \<in> set (Y ! 0) \<union> set (Y ! 1). lr_seq x < lr_seq y)"

lemma seq_merge_first:
  "\<forall>y \<in> set ys. lr_seq x < lr_seq y \<Longrightarrow> seq_merge (x # xs) ys = x # seq_merge xs ys"
  "\<forall>z \<in> set xs. lr_seq y < lr_seq z \<Longrightarrow> seq_merge xs (y # ys) = y # seq_merge xs ys"
  by (cases ys; auto) (cases xs; auto)

lemma newer_step:
  assumes "newer X Y" "length X = 2" "length Y = 2" "s < 2" "X ! s \<noteq> []"
    and big: "\<forall>x \<in> set (butlast (X ! s)) \<union> set (X ! (1 - s)). lr_seq x < lr_seq (last (X ! s))"
  shows "newer (X[s := butlast (X ! s)]) (Y[s := last (X ! s) # Y ! s])"
    and "merged (Y[s := last (X ! s) # Y ! s]) = last (X ! s) # merged Y"
proof -
  obtain zs z where z: "X ! s = zs @ [z]" using assms(5) by (metis rev_exhaust)
  obtain A B C D where X: "X = [A, B]" "Y = [C, D]" using assms(2,3) by (auto simp: length_Suc_conv numeral_2_eq_2)
  have n: "seq_sorted A" "seq_sorted B" "\<forall>x \<in> set A. \<forall>y \<in> set B. lr_seq x \<noteq> lr_seq y"
    "\<forall>x \<in> set A \<union> set B. \<forall>y \<in> set C \<union> set D. lr_seq x < lr_seq y"
    using assms(1) by (simp_all add: newer_def X)
  have big': "\<forall>x \<in> set zs \<union> set (X ! (1 - s)). lr_seq x < lr_seq z" using big z by simp
  show "newer (X[s := butlast (X ! s)]) (Y[s := last (X ! s) # Y ! s])"
    using n z big' assms(4) by (auto simp: newer_def X less_2 seq_sorted_def sorted_wrt_append)
  have "\<forall>y \<in> set C \<union> set D. lr_seq z < lr_seq y" using n(4) z assms(4) by (auto simp: X less_2)
  then show "merged (Y[s := last (X ! s) # Y ! s]) = last (X ! s) # merged Y"
    using assms(4) z seq_merge_first by (auto simp: X less_2)
qed

lemma back_one_walked:
  assumes st: "store_holds st L" and w: "walked f st L bds X Y" and n: "newer X Y"
  obtains (stop) bds' where "back_one h bds st = (None, bds', snd (snd (lock_store h st)))" "merged X = []"
      "walked f st L bds' X Y"
  | (found) rec M X' Y' bds' st' where "back_one h bds st = (Some rec, bds', st')" "merged X = M @ [rec]"
      "merged X' = M" "merged Y' = rec # merged Y" "walked f st L bds' X' Y'" "newer X' Y'"
      "ls_rings st' = ls_rings st"
proof -
  obtain t1 wt st1 where l: "lock_store h st = (t1, wt, st1)" by (metis surj_pair)
  note fr = lock_store_frame [OF l]
  have len: "length bds = 2" "length X = 2" "length Y = 2" using w by (simp_all add: walked_def)
  have pk: "peek_back (ls_rings st ! s) (bds ! s) = (fst (bds ! s), X ! s = [],
      if X ! s = [] then None else Some (fst (bds ! s) - record_size (last (X ! s)), header_bytes (last (X ! s))))"
    if s: "s < 2" for s
  proof (cases "sel f s")
    case True
    with w s have c: "L ! s = X ! s @ Y ! s" "fst (bds ! s) = rb_tail (ls_rings st ! s) + bytes_total (X ! s)"
      "snd (bds ! s) \<longrightarrow> X ! s = []" by (auto simp: walked_def)
    have "holds (ls_rings st ! s) (X ! s @ Y ! s)" using st s c(1) by (metis store_holds_def)
    from peek_back_cut [OF this c(2,3)] show ?thesis by simp
  next
    case False
    with w s have "X ! s = []" "snd (bds ! s)" by (auto simp: walked_def)
    then show ?thesis by (cases "bds ! s") (simp add: peek_back_def)
  qed
  let ?pks = "[peek_back (ls_rings st ! 0) (bds ! 0), peek_back (ls_rings st ! 1) (bds ! 1)]"
  have hs: "map (\<lambda>(bp, d, x). map_option snd x) ?pks = lasts X"
    using pk [of 0] pk [of 1] by (simp add: lasts_def)
  let ?bds = "map (\<lambda>(bp, d, x). (bp, d)) ?pks"
  have nth: "?bds ! s = (fst (bds ! s), X ! s = [])" if "s < 2" for s
    using that pk by (auto simp: less_2)
  have lb: "length ?bds = 2" by simp
  have wb: "walked f st L ?bds X Y"
  proof -
    have "if sel f s then L ! s = X ! s @ Y ! s \<and> fst (?bds ! s) = rb_tail (ls_rings st ! s) + bytes_total (X ! s) \<and>
          (snd (?bds ! s) \<longrightarrow> X ! s = []) else X ! s = [] \<and> Y ! s = [] \<and> snd (?bds ! s)" if s: "s < 2" for s
      unfolding nth [OF s] using w s by (simp add: walked_def)
    with lb len show ?thesis unfolding walked_def by blast
  qed
  have srt: "seq_sorted (X ! 0)" "seq_sorted (X ! 1)"
    "\<And>x y. x \<in> set (X ! 0) \<Longrightarrow> y \<in> set (X ! 1) \<Longrightarrow> lr_seq x \<noteq> lr_seq y" using n by (simp_all add: newer_def)
  note pl = pick_last [OF len(2) srt]
  show thesis
  proof (cases "pick (\<lambda>q b. b < q) 0 (lasts X) None")
    case None
    have "back_one h bds st = (None, ?bds, snd (snd (lock_store h st)))"
      unfolding back_one_def l sources_list Let_def list.map(1) prod.case fr(1)
      using None hs by (simp add: l)
    moreover have "merged X = []" using pl None by simp
    ultimately show thesis using wb by (rule stop)
  next
    case (Some sq)
    obtain s q where sq: "sq = (s, q)" by (cases sq)
    from pl Some sq have s: "s < 2" "X ! s \<noteq> []" "merged X = merged (X[s := butlast (X ! s)]) @ [last (X ! s)]"
      "\<forall>x \<in> set (butlast (X ! s)) \<union> set (X ! (1 - s)). lr_seq x < lr_seq (last (X ! s))" by simp_all
    let ?x = "last (X ! s)" and ?X = "X[s := butlast (X ! s)]" and ?Y = "Y[s := last (X ! s) # Y ! s]"
    let ?start = "fst (bds ! s) - record_size ?x"
    let ?bds' = "?bds[s := (?start, False)]"
    have sel: "sel f s" using w s(1,2) unfolding walked_def by metis
    obtain zs where zs: "X ! s = zs @ [?x]" using s(2) by (metis append_butlast_last_id)
    have c: "L ! s = zs @ ?x # Y ! s" "fst (bds ! s) = rb_tail (ls_rings st ! s) + bytes_total (zs @ [?x])"
      using w s(1) sel zs unfolding walked_def by (metis append.assoc append_Cons append_Nil, metis)
    have hz: "holds (ls_rings st ! s) (zs @ ?x # Y ! s)" using st s(1) c(1) by (metis store_holds_def)
    have start: "?start = rb_tail (ls_rings st ! s) + bytes_total zs" using c(2) by simp
    have cp: "copy_record (ls_rings st ! s) ?start (header_bytes ?x) = ?x"
      unfolding start by (rule holds_header(3) [OF hz])
    have pks: "?pks ! s = (fst (bds ! s), False, Some (?start, header_bytes ?x))"
      using pk [OF s(1)] s(1,2) by (auto simp: less_2)
    have "back_one h bds st = (Some ?x, ?bds', note_read_time h t1 st1)"
      unfolding back_one_def l sources_list Let_def prod.case fr(1)
      using Some sq hs pks cp by simp
    moreover have "walked f st L ?bds' ?X ?Y"
    proof -
      have bl: "butlast (X ! s) = zs" by (subst zs) simp
      have "if sel f i then L ! i = ?X ! i @ ?Y ! i \<and> fst (?bds' ! i) = rb_tail (ls_rings st ! i) + bytes_total (?X ! i) \<and>
          (snd (?bds' ! i) \<longrightarrow> ?X ! i = []) else ?X ! i = [] \<and> ?Y ! i = [] \<and> snd (?bds' ! i)" if i: "i < 2" for i
      proof (cases "i = s")
        case True
        have "?bds' ! s = (?start, False)" using s(1) lb by (metis nth_list_update_eq)
        with True sel c(1) start len s(1) bl show ?thesis by simp
      next
        case False
        then have "?bds' ! i = ?bds ! i" "?X ! i = X ! i" "?Y ! i = Y ! i" by (metis nth_list_update_neq)+
        with wb i show ?thesis unfolding walked_def by metis
      qed
      moreover have "length ?bds' = 2" "length ?X = 2" "length ?Y = 2" using len lb by (simp_all del: list_update.simps)
      ultimately show ?thesis unfolding walked_def by blast
    qed
    ultimately show thesis
      using found s(3) newer_step [OF n len(2,3) s(1,2,4)] fr(1) by simp
  qed
qed


lemma walked_same_rings: "ls_rings st' = ls_rings st \<Longrightarrow> walked f st' L bds X Y = walked f st L bds X Y"
  by (simp add: walked_def)

lemma lock_rings: "ls_rings (snd (snd (lock_store h st))) = ls_rings st"
  "ls_next_seq (snd (snd (lock_store h st))) = ls_next_seq st"
  using lock_store_frame [of h st "fst (lock_store h st)" "fst (snd (lock_store h st))"
      "snd (snd (lock_store h st))"] by simp_all

lemma tail_loop_walks:
  assumes "store_holds st L" "walked f st L bds X Y" "newer X Y" "length (merged X) \<le> budget"
  shows "\<exists>X' Y'. walked f st L (fst (tail_loop h f budget count scanned bds st)) X' Y' \<and>
    ls_rings (snd (snd (tail_loop h f budget count scanned bds st))) = ls_rings st \<and>
    merged X' @ merged Y' = merged X @ merged Y \<and>
    filter (log_store_filter_match f) (merged Y') =
      drop (length (filter (log_store_filter_match f) (merged X)) - count) (filter (log_store_filter_match f) (merged X)) @
      filter (log_store_filter_match f) (merged Y)"
  using assms
proof (induction h f budget count scanned bds st arbitrary: X Y rule: tail_loop.induct)
  case (1 h f budget scanned bds st)
  then show ?case by (intro exI [of _ X] exI [of _ Y]) simp
next
  case (2 h f count scanned bds st)
  then show ?case by (intro exI [of _ X] exI [of _ Y]) simp
next
  case (3 h f budget count scanned bds st)
  show ?case
  proof (cases rule: back_one_walked [OF 3(2-4), of h, case_names stop found])
    case (stop bds')
    then show ?thesis
      by (intro exI [of _ X] exI [of _ Y]) (simp add: lock_rings)
  next
    case (found rec M X' Y' bds' st')
    let ?count = "if log_store_filter_match f rec then count else Suc count"
    have t: "tail_loop h f (Suc budget) (Suc count) scanned bds st = tail_loop h f budget ?count (scanned + 1) bds' st'"
      using found(1) by simp
    have "store_holds st' L" "walked f st' L bds' X' Y'" "length (merged X') \<le> budget"
      using 3(2) holds_same_rings(1) [OF found(7)] found(5) walked_same_rings [OF found(7)] 3(5) found(2,3) by simp_all
    from 3(1) [OF found(1) [symmetric] refl refl this(1,2) found(6) this(3)] obtain X2 Y2 where
      w: "walked f st' L (fst (tail_loop h f budget ?count (scanned + 1) bds' st')) X2 Y2"
      "ls_rings (snd (snd (tail_loop h f budget ?count (scanned + 1) bds' st'))) = ls_rings st'"
      "merged X2 @ merged Y2 = merged X' @ merged Y'"
      "filter (log_store_filter_match f) (merged Y2) =
        drop (length (filter (log_store_filter_match f) (merged X')) - ?count) (filter (log_store_filter_match f) (merged X')) @
        filter (log_store_filter_match f) (merged Y')" by blast
    show ?thesis
      unfolding t using w found walked_same_rings [OF found(7)]
      by (intro exI [of _ X2] exI [of _ Y2]) simp
  qed
qed

lemma filter_merge_unmatched:
  "\<forall>x \<in> set xs. \<not> P x \<Longrightarrow> filter P (seq_merge xs ys) = filter P ys"
  "\<forall>y \<in> set ys. \<not> P y \<Longrightarrow> filter P (seq_merge xs ys) = filter P xs"
  by (induction xs ys rule: seq_merge.induct) auto

lemma filter_merge_selected:
  assumes "seqs_ok st L"
  shows "filter (log_store_filter_match f) (seq_merge (if sel f 0 then L ! 0 else []) (if sel f 1 then L ! 1 else [])) =
    filter (log_store_filter_match f) (merged L)"
proof -
  have u: "\<not> sel f s \<Longrightarrow> \<forall>x \<in> set (L ! s). \<not> log_store_filter_match f x" if "s < 2" for s
  proof
    fix x assume "\<not> sel f s" "x \<in> set (L ! s)"
    with assms that match_selected [of f x] show "\<not> log_store_filter_match f x" by (auto simp: seqs_ok_def)
  qed
  show ?thesis
    using u [of 0] u [of 1] filter_merge_unmatched by (cases "sel f 0"; cases "sel f 1") auto
qed

text \<open>Where \<^verbatim>\<open>log_store_reader_tail\<close> leaves a reader.\<close>

lemma reader_tail_ahead:
  assumes st: "store_holds st L" and seqs: "seqs_ok st L" and budget: "length (L ! 0) + length (L ! 1) \<le> budget"
    and r: "log_store_reader_tail h f count budget st = (rd, st')"
  shows "\<exists>Y. ahead rd st' L Y \<and> filter (log_store_filter_match f) (merged Y) =
      drop (length (filter (log_store_filter_match f) (merged L)) - count) (filter (log_store_filter_match f) (merged L)) \<and>
    ls_rings st' = ls_rings st \<and> rd_filter rd = f \<and> rd_upper_seq rd = 0 \<and> \<not> rd_gap rd \<and>
    length (merged Y) \<le> length (L ! 0) + length (L ! 1)"
proof -
  let ?bds = "map (\<lambda>s. (rb_head (ls_rings st ! s), lf_sources f AND source_bit s = 0)) [0..<LOG_STORE_SOURCE_COUNT]"
  let ?X = "[if sel f 0 then L ! 0 else [], if sel f 1 then L ! 1 else []]" and ?Y = "[[], []]"
  let ?t = "tail_loop h f budget count 0 ?bds st"
  have h: "rb_head (ls_rings st ! s) = rb_tail (ls_rings st ! s) + bytes_total (L ! s)" if "s < 2" for s
    using st that holdsD(2) by (auto simp: store_holds_def)
  have w: "walked f st L ?bds ?X ?Y"
    using h [of 0] h [of 1] by (auto simp: walked_def sources_list less_2 sel_def)
  have n: "newer ?X ?Y"
    using seqs by (auto simp: newer_def seq_sorted_def seqs_ok_def less_2)
  have lm: "length (seq_merge xs ys) = length xs + length ys" for xs ys
    by (induction xs ys rule: seq_merge.induct) auto
  have b: "length (merged ?X) \<le> budget" using budget by (auto simp: lm)
  from tail_loop_walks [OF st w n b, of h count 0] obtain X' Y' where
    w': "walked f st L (fst ?t) X' Y'" "ls_rings (snd (snd ?t)) = ls_rings st"
    and m: "merged X' @ merged Y' = merged ?X @ merged ?Y"
    and f: "filter (log_store_filter_match f) (merged Y') =
      drop (length (filter (log_store_filter_match f) (merged ?X)) - count) (filter (log_store_filter_match f) (merged ?X)) @
      filter (log_store_filter_match f) (merged ?Y)" by blast
  have rd: "rd = (reader_init f)\<lparr>rd_pos := map fst (fst ?t), rd_scanned := fst (snd ?t)\<rparr>" "st' = snd (snd ?t)"
    using r by (auto simp: log_store_reader_tail_def split: prod.splits)
  have "ahead rd st' L Y'"
    using w' by (auto simp: ahead_def walked_def rd reader_init_def cut_at_def split: if_splits)
  moreover have "filter (log_store_filter_match f) (merged Y') =
      drop (length (filter (log_store_filter_match f) (merged L)) - count) (filter (log_store_filter_match f) (merged L))"
    using f filter_merge_selected [OF seqs, of f] by simp
  moreover have "length (merged Y') \<le> length (L ! 0) + length (L ! 1)"
    using arg_cong [OF m, of length] by (auto simp: lm split: if_splits)
  ultimately show ?thesis using w'(2) rd by (auto simp: reader_init_def)
qed

text \<open>Readings of a store nobody appends to.\<close>

lemma static_reads:
  assumes "store_holds st L" "ahead rd st L Y" "rd_upper_seq rd = 0" "length (merged Y) \<le> n"
  shows "snd (snd (run_ops (log_step h) (replicate n Reading) (st, rd, out))) =
    out @ filter (log_store_filter_match (rd_filter rd)) (merged Y)"
  using assms
proof (induction n arbitrary: st rd Y out)
  case 0
  then show ?case by simp
next
  case (Suc n)
  obtain res rd' st' where r: "read_one h rd st = (res, rd', st')" by (metis surj_pair)
  note fr = read_one_frame [OF r] and ra = read_one_ahead(1) [OF Suc.prems(1-3), of h]
  have st': "store_holds st' L" using Suc.prems(1) holds_same_rings(1) [OF fr(1)] by simp
  show ?case
  proof (cases "merged Y")
    case Nil
    with ra r holds_same_rings(2) [OF fr(1)] have "res = None" "ahead rd' st' L Y" by auto
    with Suc.IH [OF st' this(2)] fr Suc.prems(3) Nil r show ?thesis by simp
  next
    case (Cons y M)
    with ra r obtain Y' where Y': "res = Some y" "ahead rd' st L Y'" "merged Y' = M" by auto
    then have "ahead rd' st' L Y'" "length (merged Y') \<le> n"
      using holds_same_rings(2) [OF fr(1)] Suc.prems(4) Cons by auto
    with Suc.IH [OF st' this(1)] fr Suc.prems(3) Cons Y' r show ?thesis by simp
  qed
qed

end
