(* ===== verification/Log_Store_Text.thy ===== *)
theory Log_Store_Text
  imports Log_Store
begin

text \<open>
  The text side of \<^verbatim>\<open>log_store.c\<close>: the base64url cursor and its round trip, and the cut of UTF-8 text.
\<close>

section \<open>Cursors\<close>

lemma b64_alphabet: "map b64url_value b64url = map (\<lambda>i. Some (of_nat i)) [0..<64]"
  by (simp add: b64url_def b64url_value_def upt_rec)

lemma length_b64url: "length b64url = 64"
  by (simp add: b64url_def)

lemma b64_value:
  assumes "i < 64"
  shows "b64url_value (b64url ! i) = Some (of_nat i)"
proof -
  have "map b64url_value b64url ! i = map (\<lambda>i. Some (of_nat i)) [0..<64] ! i"
    by (rule arg_cong [OF b64_alphabet, of "\<lambda>xs. xs ! i"])
  then show ?thesis using assms by (simp add: length_b64url)
qed

lemma six_bits: "unat (w AND 0x3F :: u32) < 64" "of_nat (unat (w AND 0x3F :: u32)) = (w AND 0x3F :: u32)"
proof -
  have "(0x3F :: u32) = mask 6" by (simp add: mask_eq_exp_minus_1)
  then have "w AND 0x3F = take_bit 6 w" by (simp add: take_bit_eq_mask)
  then have "unat (w AND 0x3F) = take_bit 6 (unat w)" by (simp add: unsigned_take_bit_eq)
  then show "unat (w AND 0x3F) < 64" by (simp add: take_bit_eq_mod)
qed simp

lemma b64_char_value: "b64url_value (b64_char v k) = Some (drop_bit k v AND 0x3F)"
  unfolding b64_char_def by (subst b64_value [OF six_bits(1)]) (simp add: six_bits(2))

lemma sixty_three: "(0x3F :: u32) = mask 6" "(0xFF :: u32) = mask 8" "(0xFFFF :: u32) = mask 16"
  by (simp_all add: mask_eq_exp_minus_1)

lemma slice_bit:
  "bit (push_bit k (drop_bit k v AND mask 6)) n \<longleftrightarrow> n < 32 \<and> k \<le> n \<and> n < k + 6 \<and> bit (v :: u32) n"
  by (auto simp: bit_simps)

lemma groups_of_word:
  fixes v :: u32
  assumes "\<And>n. bit v n \<Longrightarrow> n < 24"
  shows "push_bit 18 (drop_bit 18 v AND 0x3F) OR push_bit 12 (drop_bit 12 v AND 0x3F) OR
      push_bit 6 (drop_bit 6 v AND 0x3F) OR (drop_bit 0 v AND 0x3F) = v" (is "?all = v")
    and "(\<And>n. bit v n \<Longrightarrow> 6 \<le> n) \<Longrightarrow> push_bit 18 (drop_bit 18 v AND 0x3F) OR push_bit 12 (drop_bit 12 v AND 0x3F) OR
      push_bit 6 (drop_bit 6 v AND 0x3F) = v"
    and "(\<And>n. bit v n \<Longrightarrow> 12 \<le> n) \<Longrightarrow> push_bit 18 (drop_bit 18 v AND 0x3F) OR push_bit 12 (drop_bit 12 v AND 0x3F) = v"
proof -
  note bits = bit_or_iff slice_bit
  have low: "bit (drop_bit 0 v AND mask 6) n \<longleftrightarrow> n < 6 \<and> bit v n" for n
    by (auto simp: bit_simps)
  have "bit ?all n = bit v n" for n
    unfolding sixty_three bits low using assms [of n] by auto
  then show "?all = v" by (intro bit_eqI)
  show "push_bit 18 (drop_bit 18 v AND 0x3F) OR push_bit 12 (drop_bit 12 v AND 0x3F) OR
      push_bit 6 (drop_bit 6 v AND 0x3F) = v" if six: "\<And>n. bit v n \<Longrightarrow> 6 \<le> n"
  proof (rule bit_eqI)
    fix n
    show "bit (push_bit 18 (drop_bit 18 v AND 0x3F) OR push_bit 12 (drop_bit 12 v AND 0x3F) OR
      push_bit 6 (drop_bit 6 v AND 0x3F)) n = bit v n"
      unfolding sixty_three bits using assms [of n] six [of n] by auto
  qed
  show "push_bit 18 (drop_bit 18 v AND 0x3F) OR push_bit 12 (drop_bit 12 v AND 0x3F) = v"
    if twelve: "\<And>n. bit v n \<Longrightarrow> 12 \<le> n"
  proof (rule bit_eqI)
    fix n
    show "bit (push_bit 18 (drop_bit 18 v AND 0x3F) OR push_bit 12 (drop_bit 12 v AND 0x3F)) n = bit v n"
      unfolding sixty_three bits using assms [of n] twelve [of n] by auto
  qed
qed

text \<open>The word of three, two and one bytes.\<close>

definition word3 :: "byte \<Rightarrow> byte \<Rightarrow> byte \<Rightarrow> u32" where
  "word3 a b c = push_bit 16 (ucast a) OR push_bit 8 (ucast b) OR ucast c"

lemma byte_bit: "bit (a :: byte) n \<Longrightarrow> n < 8"
  using bit_imp_le_length [of a n] by simp

lemma word3_bits:
  "bit (word3 a b c) n \<Longrightarrow> n < 24" "bit (word3 a b 0) n \<Longrightarrow> 8 \<le> n" "bit (word3 a 0 0) n \<Longrightarrow> 16 \<le> n"
  by (auto simp: word3_def bit_simps dest!: byte_bit)

lemma word3_bytes:
  "ucast (drop_bit 16 (word3 a b c)) = a" "ucast (drop_bit 8 (word3 a b c)) = b" "ucast (word3 a b c) = c"
  unfolding word3_def by (rule bit_word_eqI; auto simp: bit_simps dest: byte_bit)+

lemma word3_low:
  "word3 a b 0 AND 0xFF = 0" "word3 a 0 0 AND 0xFFFF = 0"
  unfolding sixty_three by (rule bit_word_eqI; auto simp: bit_simps dest: word3_bits)+

lemma encode_word3:
  "b64url_encode [a] = [b64_char (word3 a 0 0) 18, b64_char (word3 a 0 0) 12]"
  "b64url_encode [a, b] = [b64_char (word3 a b 0) 18, b64_char (word3 a b 0) 12, b64_char (word3 a b 0) 6]"
  "b64url_encode (a # b # c # raw) = b64_char (word3 a b c) 18 # b64_char (word3 a b c) 12 #
     b64_char (word3 a b c) 6 # b64_char (word3 a b c) 0 # b64url_encode raw"
  by (simp_all add: word3_def Let_def)

lemma group_round:
  assumes "\<And>n. bit (v :: u32) n \<Longrightarrow> n < 24"
  shows "b64_group 0 [b64_char v 18, b64_char v 12, b64_char v 6, b64_char v 0] 0 = Some v"
    and "(\<And>n. bit v n \<Longrightarrow> 6 \<le> n) \<Longrightarrow> b64_group 0 [b64_char v 18, b64_char v 12, b64_char v 6] 0 = Some v"
    and "(\<And>n. bit v n \<Longrightarrow> 12 \<le> n) \<Longrightarrow> b64_group 0 [b64_char v 18, b64_char v 12] 0 = Some v"
proof -
  note g = groups_of_word [OF assms]
  show "b64_group 0 [b64_char v 18, b64_char v 12, b64_char v 6, b64_char v 0] 0 = Some v"
    using g(1) by (simp add: b64_char_value or.assoc)
  show "b64_group 0 [b64_char v 18, b64_char v 12, b64_char v 6] 0 = Some v" if "\<And>n. bit v n \<Longrightarrow> 6 \<le> n"
    using g(2) that by (simp add: b64_char_value or.assoc)
  show "b64_group 0 [b64_char v 18, b64_char v 12] 0 = Some v" if "\<And>n. bit v n \<Longrightarrow> 12 \<le> n"
    using g(3) that by (simp add: b64_char_value)
qed

lemma decode_encode: "b64url_decode (b64url_encode raw) = Some raw"
proof (induction raw rule: b64url_encode.induct)
  case 1
  then show ?case by (simp add: b64url_decode.simps)
next
  case (2 a)
  have "b64_group 0 (b64url_encode [a]) 0 = Some (word3 a 0 0)"
    unfolding encode_word3 by (rule group_round(3)) (use word3_bits(1,3) in force)+
  then show ?case
    unfolding encode_word3
    by (subst b64url_decode.simps)
      (simp add: Let_def min_def group_canonical_def word3_low group_bytes_def word3_bytes b64url_decode.simps [of "[]"])
next
  case (3 a b)
  have "b64_group 0 (b64url_encode [a, b]) 0 = Some (word3 a b 0)"
    unfolding encode_word3 by (rule group_round(2)) (use word3_bits(1,2) in force)+
  then show ?case
    unfolding encode_word3
    by (subst b64url_decode.simps)
      (simp add: Let_def min_def group_canonical_def word3_low group_bytes_def word3_bytes b64url_decode.simps [of "[]"])
next
  case (4 a b c raw)
  have "b64_group 0 [b64_char (word3 a b c) 18, b64_char (word3 a b c) 12, b64_char (word3 a b c) 6,
      b64_char (word3 a b c) 0] 0 = Some (word3 a b c)"
    by (rule group_round(1)) (rule word3_bits(1))
  with 4 show ?case
    unfolding encode_word3
    by (subst b64url_decode.simps)
      (simp add: Let_def min_def group_canonical_def group_bytes_def word3_bytes)
qed

lemma length_encode: "length (b64url_encode raw) = (4 * length raw + 2) div 3"
proof (induction raw rule: b64url_encode.induct)
  case (4 a b c raw)
  have "(4 * (length raw + 3) + 2) div 3 = 4 + (4 * length raw + 2) div 3" by simp
  with 4 show ?case by (simp add: Let_def)
qed (simp_all add: Let_def)

lemma length_cursor_body: "length (cursor_body rd tag) = CURSOR_RAW_LEN - 4"
  by (simp add: cursor_body_def CURSOR_RAW_LEN_def)

text \<open>What decoding makes of an encoded cursor.\<close>

lemma cursor_decode_encode:
  assumes "CURSOR_TEXT_LEN < cap" "length (rd_pos rd) = 2" "rd_pos rd ! 0 < 2 ^ 64" "rd_pos rd ! 1 < 2 ^ 64"
  shows "\<exists>cs. log_store_cursor_encode rd tag cap = Inr cs \<and> length cs = CURSOR_TEXT_LEN \<and>
    log_store_cursor_decode (Some cs) tag' f st =
      (if filter_digest (rd_filter rd) \<noteq> filter_digest f then Inl EINVAL
       else if tag \<noteq> tag' then Inl ESTALE
       else if rd_pos rd ! 0 mod 4 = 0 \<and> rd_pos rd ! 1 mod 4 = 0 \<and>
          rd_pos rd ! 0 \<le> rb_head (ls_rings st ! 0) \<and> rd_pos rd ! 1 \<le> rb_head (ls_rings st ! 1)
       then Inr (rd_pos rd) else Inl EINVAL)"
proof -
  let ?body = "cursor_body rd tag" and ?raw = "cursor_body rd tag @ put_le 4 (unat (cursor_check (cursor_body rd tag)))"
  let ?cs = "b64url_encode ?raw"
  have lr: "length ?raw = CURSOR_RAW_LEN" by (simp add: length_cursor_body CURSOR_RAW_LEN_def)
  have enc: "log_store_cursor_encode rd tag cap = Inr ?cs"
    using assms(1) by (simp add: log_store_cursor_encode_def Let_def)
  have lc: "length ?cs = CURSOR_TEXT_LEN"
    unfolding length_encode lr by (simp add: CURSOR_RAW_LEN_def CURSOR_TEXT_LEN_def)
  have dec: "b64url_decode ?cs = Some ?raw" by (rule decode_encode)
  have lb: "length ?body = 25" by (simp add: length_cursor_body CURSOR_RAW_LEN_def)
  have check: "cursor_check ?raw = cursor_check ?body"
    using lb by (simp add: cursor_check_def CURSOR_RAW_LEN_def)
  have parts: "?raw ! 0 = CURSOR_VERSION" "take 4 (drop 25 ?raw) = put_le 4 (unat (cursor_check ?body))"
    using lb by (simp_all add: cursor_body_def nth_append del: put_le.simps)
  have body: "take 4 (drop 5 ?raw) = put_le 4 (unat (filter_digest (rd_filter rd)))"
    "take 4 (drop 1 ?raw) = put_le 4 (unat tag)"
    "take 8 (drop 9 ?raw) = put_le 8 (rd_pos rd ! 0)" "take 8 (drop 17 ?raw) = put_le 8 (rd_pos rd ! 1)"
    by (simp_all add: cursor_body_def del: put_le.simps)
  have big: "get_le (put_le 8 (rd_pos rd ! 0)) = rd_pos rd ! 0" "get_le (put_le 8 (rd_pos rd ! 1)) = rd_pos rd ! 1"
    by (rule get_put_le, use assms(3,4) in simp)+
  have pos: "cursor_positions ?raw = rd_pos rd"
    unfolding cursor_positions_def body big using assms(2) by (auto simp: length_Suc_conv numeral_2_eq_2)
  have lst: "list_ex (\<lambda>s. rd_pos rd ! s AND 3 \<noteq> 0 \<or> rb_head (ls_rings st ! s) < rd_pos rd ! s) [0..<LOG_STORE_SOURCE_COUNT]
    \<longleftrightarrow> \<not> (rd_pos rd ! 0 mod 4 = 0 \<and> rd_pos rd ! 1 mod 4 = 0 \<and>
          rd_pos rd ! 0 \<le> rb_head (ls_rings st ! 0) \<and> rd_pos rd ! 1 \<le> rb_head (ls_rings st ! 1))"
    by (auto simp: sources_list and_3 not_le)
  have "log_store_cursor_decode (Some ?cs) tag' f st =
      (if filter_digest (rd_filter rd) \<noteq> filter_digest f then Inl EINVAL
       else if tag \<noteq> tag' then Inl ESTALE
       else if rd_pos rd ! 0 mod 4 = 0 \<and> rd_pos rd ! 1 mod 4 = 0 \<and>
          rd_pos rd ! 0 \<le> rb_head (ls_rings st ! 0) \<and> rd_pos rd ! 1 \<le> rb_head (ls_rings st ! 1)
       then Inr (rd_pos rd) else Inl EINVAL)"
    unfolding log_store_cursor_decode_def option.case lc dec parts body check pos Let_def lst word_fields lr
    by simp
  with enc lc show ?thesis by blast
qed

section \<open>Cutting text\<close>

text \<open>One UTF-8 sequence by its structure: a lead byte that announces its length, and continuation bytes.\<close>

definition is_cont :: "byte \<Rightarrow> bool" where
  "is_cont b \<longleftrightarrow> b AND 0xC0 = 0x80"

definition utf8_unit :: "byte list \<Rightarrow> bool" where
  "utf8_unit u \<longleftrightarrow> u \<noteq> [] \<and> \<not> is_cont (hd u) \<and> lead_need (hd u) = length u \<and> list_all is_cont (tl u)"

lemma cut_loop_finds:
  assumes "\<And>b. bk \<le> b \<Longrightarrow> b < d \<Longrightarrow> is_cont (cs ! (n - b))" "\<not> is_cont (cs ! (n - d))" "d \<le> n" "bk \<le> d" "d < bk + left"
  shows "cut_loop cs n bk left = (if d < lead_need (cs ! (n - d)) then n - d else n)"
  using assms
proof (induction left arbitrary: bk)
  case 0
  then show ?case by simp
next
  case (Suc left)
  show ?case
  proof (cases "bk = d")
    case True
    with Suc.prems show ?thesis by (simp add: Let_def is_cont_def)
  next
    case False
    have "is_cont (cs ! (n - bk))" by (rule Suc.prems(1)) (use False Suc.prems(4) in simp_all)
    moreover have "cut_loop cs n (bk + 1) left = (if d < lead_need (cs ! (n - d)) then n - d else n)"
      by (rule Suc.IH) (use Suc.prems False in auto)
    ultimately show ?thesis using Suc.prems(3,4) by (simp add: Let_def is_cont_def)
  qed
qed

lemma split_units:
  "n \<le> length (concat us) \<Longrightarrow> \<exists>us1 us2. us = us1 @ us2 \<and> length (concat us1) \<le> n \<and>
     (us2 \<noteq> [] \<longrightarrow> n < length (concat us1) + length (hd us2))"
proof (induction us arbitrary: n)
  case Nil
  then show ?case by simp
next
  case (Cons u us)
  show ?case
  proof (cases "n < length u")
    case True
    then show ?thesis by (intro exI [of _ "[]"] exI [of _ "u # us"]) simp
  next
    case False
    from Cons.prems have "n - length u \<le> length (concat us)" by simp
    from Cons.IH [OF this] obtain us1 us2 where "us = us1 @ us2"
      "length (concat us1) \<le> n - length u" "us2 \<noteq> [] \<longrightarrow> n - length u < length (concat us1) + length (hd us2)" by blast
    with False show ?thesis by (intro exI [of _ "u # us1"] exI [of _ us2]) auto
  qed
qed

lemma lead_need_le: "lead_need b \<le> 4"
  by (simp add: lead_need_def)

text \<open>The loop, when \<open>d\<close> bytes of the unit \<open>u\<close> lie before the cut.\<close>

lemma cut_in_unit:
  assumes "cs = pre @ u @ post" "utf8_unit u" "0 < d" "d \<le> length u"
  shows "cut_loop cs (length pre + d) 1 4 = (if d < length u then length pre else length pre + d)"
proof -
  have nth: "cs ! (length pre + d - b) = u ! (d - b)" if "b \<le> d" "0 < b" for b
  proof -
    have "length pre + d - b = length pre + (d - b)" "d - b < length u" using that assms(3,4) by auto
    then show ?thesis by (simp add: assms(1) nth_append)
  qed
  have hd: "u ! 0 = hd u" using assms(2) by (simp add: utf8_unit_def hd_conv_nth)
  have "cut_loop cs (length pre + d) 1 4 =
      (if d < lead_need (cs ! (length pre + d - d)) then length pre + d - d else length pre + d)"
  proof (rule cut_loop_finds)
    show "is_cont (cs ! (length pre + d - b))" if "1 \<le> b" "b < d" for b
    proof -
      have "d - b = Suc (d - b - 1)" using that by simp
      moreover have "u \<noteq> []" using assms(2) by (simp add: utf8_unit_def)
      ultimately have "u ! (d - b) = tl u ! (d - b - 1)" "d - b - 1 < length (tl u)"
        using that assms(4) by (cases u; simp)+
      then show ?thesis using nth [of b] that assms(2) by (auto simp: utf8_unit_def list_all_length)
    qed
    show "\<not> is_cont (cs ! (length pre + d - d))"
      using nth [of d] assms(2,3) hd by (simp add: utf8_unit_def)
    show "d < 1 + 4" using assms(2,4) lead_need_le [of "hd u"] by (simp add: utf8_unit_def)
  qed (use assms(3) in simp_all)
  with nth [of d] hd assms(2,3) show ?thesis by (simp add: utf8_unit_def)
qed

lemma utf8_cut_units:
  assumes "list_all utf8_unit us"
  shows "\<exists>us1 us2. us = us1 @ us2 \<and> take (log_store_utf8_cut (concat us) (length (concat us)) cap) (concat us) = concat us1 \<and>
    length (concat us1) \<le> cap \<and> (us2 \<noteq> [] \<longrightarrow> cap < length (concat us1) + length (hd us2))"
proof -
  let ?n = "min (length (concat us)) cap"
  from split_units [of ?n us] obtain us1 us2 where us: "us = us1 @ us2" "length (concat us1) \<le> ?n"
    "us2 \<noteq> [] \<longrightarrow> ?n < length (concat us1) + length (hd us2)" by auto
  have cut: "log_store_utf8_cut (concat us) (length (concat us)) cap = cut_loop (concat us) ?n 1 4"
    by (simp add: log_store_utf8_cut_def)
  have res: "cut_loop (concat us) ?n 1 4 = length (concat us1)"
  proof (cases "length (concat us1) < ?n")
    case True
    then have ne: "us2 \<noteq> []" using us(1) by auto
    let ?d = "?n - length (concat us1)"
    have "concat us = concat us1 @ hd us2 @ concat (tl us2)" using us(1) ne by (cases us2) simp_all
    moreover have "utf8_unit (hd us2)" using assms us(1) ne by (cases us2) simp_all
    moreover have "0 < ?d" "?d < length (hd us2)" using True us(3) ne by auto
    ultimately have "cut_loop (concat us) (length (concat us1) + ?d) 1 4 = length (concat us1)"
      using cut_in_unit [of "concat us" "concat us1" "hd us2" "concat (tl us2)" ?d] by simp
    with True show ?thesis by simp
  next
    case False
    with us(2) have n: "?n = length (concat us1)" by linarith
    show ?thesis
    proof (cases "us1 = []")
      case True
      with n have "?n = 0" by simp
      then show ?thesis using True by (simp add: numeral_eq_Suc)
    next
      case ne: False
      let ?u = "last us1" and ?pre = "concat (butlast us1)"
      have us1: "us1 = butlast us1 @ [?u]" using ne by simp
      have u: "utf8_unit ?u" using assms us(1) ne by (auto simp: list_all_iff)
      have c1: "concat us1 = ?pre @ ?u" by (subst us1) simp
      have "concat us = ?pre @ ?u @ concat us2" using us(1) c1 by simp
      moreover have "0 < length ?u" using u by (simp add: utf8_unit_def)
      ultimately have "cut_loop (concat us) (length ?pre + length ?u) 1 4 = length ?pre + length ?u"
        using cut_in_unit [of "concat us" ?pre ?u "concat us2" "length ?u"] u by simp
      with n c1 show ?thesis by simp
    qed
  qed
  have "us2 \<noteq> [] \<longrightarrow> cap < length (concat us1) + length (hd us2)"
    using us by (cases us2) (auto simp: min_def split: if_splits)
  moreover have "length (concat us1) \<le> cap" using us(2) by simp
  moreover have "take (log_store_utf8_cut (concat us) (length (concat us)) cap) (concat us) = concat us1"
    unfolding cut res using us(1) by simp
  ultimately show ?thesis using us(1) by blast
qed

end
