(* ===== verification/Log_Store_Properties.thy ===== *)
theory Log_Store_Properties
  imports Log_Store_Readers Log_Store_Text
begin

text \<open>
  What the log store promises its callers: which records a filter accepts, what the rings hold after any run,
  what an append stores and drops, what readers give, and what cursors and cut texts keep.
\<close>

section \<open>Filters\<close>

lemma same_text_take:
  "same_text hay needle \<longleftrightarrow> length needle \<le> length hay \<and>
     map lower_ascii (take (length needle) hay) = map lower_ascii needle"
  by (induction hay needle rule: same_text.induct) auto

lemma ascii_contains_sublist:
  "ascii_contains hay needle \<longleftrightarrow> sublist (map lower_ascii (cstr needle)) (map lower_ascii hay)"
proof -
  let ?n = "cstr needle" and ?low = "map lower_ascii"
  have "sublist (?low ?n) (?low hay)" if "i < length hay + 1 - length ?n" "same_text (drop i hay) ?n" for i
  proof -
    have "?low hay = ?low (take i hay) @ ?low (take (length ?n) (drop i hay)) @ ?low (drop (length ?n) (drop i hay))"
      unfolding map_append [symmetric] append_take_drop_id by simp
    with that(2) show ?thesis unfolding sublist_def same_text_take by metis
  qed
  moreover have "\<exists>i < length hay + 1 - length ?n. same_text (drop i hay) ?n" if "sublist (?low ?n) (?low hay)"
  proof -
    from that obtain ps ss where s: "?low hay = ps @ ?low ?n @ ss" by (auto simp: sublist_def)
    have len: "length hay = length ps + length ?n + length ss" using arg_cong [OF s, of length] by simp
    have "?low (take (length ?n) (drop (length ps) hay)) = ?low ?n"
      unfolding take_map [symmetric] drop_map [symmetric] s by simp
    with len show ?thesis by (intro exI [of _ "length ps"]) (simp add: same_text_take)
  qed
  moreover have "ascii_contains hay needle \<longleftrightarrow>
      length ?n = 0 \<or> (\<exists>i < length hay + 1 - length ?n. same_text (drop i hay) ?n)"
    by (simp add: ascii_contains_def Let_def list_ex_iff Bex_def)
  ultimately show ?thesis by (cases "?n = []") (simp, blast)
qed

text \<open>C39: \<^verbatim>\<open>log_store_filter_match\<close> accepts a record exactly when its source is selected, its level is not
  below the minimum (records without a level, and markers of unknown level, pass any minimum), its module
  name is the wanted one, and its text contains the wanted text without regard to ASCII case.\<close>

theorem filter_accepts_exactly:
  "log_store_filter_match f rec \<longleftrightarrow>
     lr_source rec < 2 \<and> lf_sources f AND source_bit (lr_source rec) \<noteq> 0 \<and>
     (1 \<le> lr_level rec \<and> lr_level rec \<le> 4 \<longrightarrow> lf_min_level f \<le> lr_level rec) \<and>
     (lf_has_module f \<longrightarrow> lr_has_module rec \<and> cstr (lf_module f) = cstr (lr_module rec)) \<and>
     (lf_has_contains f \<longrightarrow>
        sublist (map lower_ascii (cstr (lf_contains f))) (map lower_ascii (lr_text rec)))"
  by (auto simp: log_store_filter_match_def ascii_contains_sublist LOG_STORE_SOURCE_COUNT_def not_le)

section \<open>Runs of the store\<close>

definition store_inv :: "log_store \<Rightarrow> bool" where
  "store_inv st \<longleftrightarrow> (\<exists>L. store_holds st L)"

datatype store_op = S_append bool "log_store_entry option" | S_loss nat nat u32 | S_panic | S_init
  | S_read log_store_reader nat | S_tail log_store_filter nat nat

fun store_step :: "hw \<Rightarrow> store_op \<Rightarrow> log_store \<Rightarrow> log_store" where
  "store_step h (S_append panics e) st = snd (log_store_append h panics e st)"
| "store_step h (S_loss source loss n) st = log_store_count_loss source loss n st"
| "store_step h S_panic st = log_store_panic st"
| "store_step h S_init st = log_store_init st"
| "store_step h (S_read rd budget) st = snd (snd (snd (log_store_read h rd budget st)))"
| "store_step h (S_tail f count budget) st = snd (log_store_reader_tail h f count budget st)"


lemma back_one_frame:
  assumes "back_one h bds st = (res, bds', st')"
  shows "ls_rings st' = ls_rings st" "ls_next_seq st' = ls_next_seq st"
    "ls_initialized st' = ls_initialized st" "ls_panicked st' = ls_panicked st"
proof -
  obtain t1 w st1 where l: "lock_store h st = (t1, w, st1)" by (metis surj_pair)
  note f = lock_store_frame [OF l]
  show "ls_rings st' = ls_rings st" "ls_next_seq st' = ls_next_seq st"
    "ls_initialized st' = ls_initialized st" "ls_panicked st' = ls_panicked st"
    using assms f unfolding back_one_def l prod.case Let_def
    by (auto split: option.splits prod.splits)
qed

lemma tail_loop_frame:
  "ls_rings (snd (snd (tail_loop h f budget count n bds st))) = ls_rings st \<and>
   ls_next_seq (snd (snd (tail_loop h f budget count n bds st))) = ls_next_seq st \<and>
   ls_initialized (snd (snd (tail_loop h f budget count n bds st))) = ls_initialized st \<and>
   ls_panicked (snd (snd (tail_loop h f budget count n bds st))) = ls_panicked st"
proof (induction h f budget count n bds st rule: tail_loop.induct)
  case (3 h f budget count n bds st)
  obtain res bds' st' where b: "back_one h bds st = (res, bds', st')" by (metis surj_pair)
  note f = back_one_frame [OF b]
  show ?case
  proof (cases res)
    case None
    then show ?thesis using b f by simp
  next
    case (Some rec)
    from 3 [OF b [unfolded Some, symmetric] refl refl] b f Some show ?thesis by simp
  qed
qed simp_all

lemma reader_tail_frame:
  assumes "log_store_reader_tail h f count budget st = (rd, st')"
  shows "ls_rings st' = ls_rings st" "ls_next_seq st' = ls_next_seq st"
    "ls_initialized st' = ls_initialized st" "ls_panicked st' = ls_panicked st"
proof -
  let ?b = "map (\<lambda>s. (rb_head (ls_rings st ! s), lf_sources f AND source_bit s = 0)) [0..<LOG_STORE_SOURCE_COUNT]"
  have "st' = snd (snd (tail_loop h f budget count 0 ?b st))"
    using assms unfolding log_store_reader_tail_def by (auto split: prod.splits)
  with tail_loop_frame [of h f budget count 0 ?b st]
  show "ls_rings st' = ls_rings st" "ls_next_seq st' = ls_next_seq st"
    "ls_initialized st' = ls_initialized st" "ls_panicked st' = ls_panicked st" by blast+
qed

lemma read_loop_frame:
  "ls_rings (snd (snd (snd (read_loop h budget rd st)))) = ls_rings st"
proof (induction budget arbitrary: rd st)
  case (Suc budget)
  obtain res rd' st' where r: "read_one h rd st = (res, rd', st')" by (metis surj_pair)
  with read_one_frame(1) [OF r] Suc show ?case by (cases res) simp_all
qed simp

lemma read_frame: "ls_rings (snd (snd (snd (log_store_read h rd budget st)))) = ls_rings st"
  by (simp add: log_store_read_def read_loop_frame)

lemma holds_reset:
  assumes "ring_ok r"
  shows "holds (r\<lparr>rb_head := 0, rb_tail := 0, rb_records := 0\<rparr>) []"
  by (rule holdsI) (use assms in \<open>simp_all add: window_def\<close>)

lemma init_holds:
  assumes "length (ls_rings st) = 2" "\<And>s. s < 2 \<Longrightarrow> ring_ok (ls_rings st ! s)"
  shows "store_holds (log_store_init st) [[], []]" "seqs_ok (log_store_init st) [[], []]"
    "ls_initialized (log_store_init st)" "\<not> ls_panicked (log_store_init st)" "ls_next_seq (log_store_init st) = 1"
  using assms by (auto simp: log_store_init_def store_holds_def seqs_ok_def less_2 intro: holds_reset)

lemma store_append_inv: "store_inv st \<Longrightarrow> store_inv (snd (log_store_append h panics entry st))"
proof (cases "append_refused panics entry st")
  case None
  assume "store_inv st"
  then obtain L where L: "store_holds st L" by (auto simp: store_inv_def)
  from None obtain e where e: "entry = Some e" by (cases entry) (auto simp: append_refused_def split: if_splits)
  from append_holds(1) [OF L, of panics e h] None e show ?thesis by (auto simp: store_inv_def)
next
  case (Some x)
  assume "store_inv st"
  then show ?thesis
    using append_refused_frame(1) [of panics entry st h] Some by (simp add: store_inv_def store_holds_def)
qed

lemma store_inv_rings: "ls_rings st' = ls_rings st \<Longrightarrow> store_inv st' = store_inv st"
  by (simp add: store_inv_def store_holds_def)

lemma store_init_inv:
  assumes "store_inv st"
  shows "store_inv (log_store_init st)"
proof -
  from assms obtain L where "store_holds st L" by (auto simp: store_inv_def)
  then have "length (ls_rings st) = 2" "\<And>s. s < 2 \<Longrightarrow> ring_ok (ls_rings st ! s)"
    by (auto simp: store_holds_def dest: holdsD(1))
  from init_holds(1) [OF this] show ?thesis by (auto simp: store_inv_def)
qed

lemma loss_panic_rings:
  "ls_rings (log_store_count_loss source loss n st) = ls_rings st" "ls_rings (log_store_panic st) = ls_rings st"
  by (simp_all add: log_store_count_loss_def log_store_panic_def)

lemma store_inv_step: "store_inv st \<Longrightarrow> store_inv (store_step h x st)"
proof (cases x)
  case (S_tail f count budget)
  assume "store_inv st"
  then show ?thesis
    using store_inv_rings [OF reader_tail_frame(1) [OF surjective_pairing]] S_tail by simp
next
  case (S_read rd budget)
  assume "store_inv st"
  then show ?thesis using store_inv_rings [OF read_frame] S_read by simp
next
  case (S_loss source loss n)
  assume "store_inv st"
  then show ?thesis using store_inv_rings [OF loss_panic_rings(1)] S_loss by simp
next
  case S_panic
  assume "store_inv st"
  then show ?thesis using store_inv_rings [OF loss_panic_rings(2)] S_panic by simp
qed (simp_all add: store_append_inv store_init_inv)

interpretation log_rings: op_machine "store_step h" store_inv for h
  by unfold_locales (rule store_inv_step)

lemma statics_ok:
  assumes "1024 * a = 2 ^ i" "RECORD_MAX \<le> 1024 * a" "1024 * b = 2 ^ j" "RECORD_MAX \<le> 1024 * b"
  shows "length (ls_rings (log_store_statics a b)) = 2" "\<And>s. s < 2 \<Longrightarrow> ring_ok (ls_rings (log_store_statics a b) ! s)"
proof -
  have "ring_ok (empty_ring (k * 1024))" if "1024 * k = 2 ^ n" "RECORD_MAX \<le> 1024 * k" for k n :: nat
    unfolding ring_ok_def empty_ring_def using that by (auto simp: mult.commute intro: exI [of _ n])
  from this [OF assms(1,2)] this [OF assms(3,4)]
  show "length (ls_rings (log_store_statics a b)) = 2"
    "\<And>s. s < 2 \<Longrightarrow> ring_ok (ls_rings (log_store_statics a b) ! s)"
    by (auto simp: log_store_statics_def less_2)
qed

lemma record_max: "RECORD_MAX = 608"
  by (simp add: RECORD_MAX_def round_up4_def sizes)

text \<open>C13: After \<^verbatim>\<open>log_store_init\<close> on rings of power-of-two sizes, whatever sequence of appends, reads, walks
  back, loss counts, panics and re-initialisations follows, each ring between its tail and its head is exactly
  the spelled-out bytes of a list of well-formed records, no longer than the ring, as many as the ring's
  counter says.\<close>

theorem rings_hold_whole_records:
  assumes "1024 * a = 2 ^ i" "1024 * b = 2 ^ j" "s < 2"
    and r_def: "r = ls_rings (run_ops (store_step h) ops (log_store_init (log_store_statics a b))) ! s"
  shows "\<exists>rs. list_all ring_record_ok rs \<and> rb_head r - rb_tail r = bytes_total rs \<and> bytes_total rs \<le> rb_size r \<and>
    ring_get r (rb_tail r) (rb_head r - rb_tail r) = concat (map record_bytes rs) \<and>
    rb_records r = of_nat (length rs)"
proof -
  have "0 < 1024 * a" "0 < 1024 * b" unfolding assms(1,2) by simp_all
  then have big: "RECORD_MAX \<le> 1024 * a" "RECORD_MAX \<le> 1024 * b" by (simp_all add: record_max)
  have "store_holds (log_store_init (log_store_statics a b)) [[], []]"
    using statics_ok [OF assms(1) big(1) assms(2) big(2)] by (rule init_holds)
  then have "store_inv (log_store_init (log_store_statics a b))" unfolding store_inv_def by blast
  from log_rings.inv_run [OF this, of h ops] obtain L where
    "store_holds (run_ops (store_step h) ops (log_store_init (log_store_statics a b))) L"
    by (auto simp: store_inv_def)
  then have h: "holds r (L ! s)" using assms(3) r_def by (simp add: store_holds_def)
  note d = holdsD [OF h]
  show ?thesis
    using d ring_get_window [OF d(1,3)] by (intro exI [of _ "L ! s"]) (auto simp: list_all_iff)
qed

text \<open>C6: An accepted \<^verbatim>\<open>log_store_append\<close> stores exactly one new record, numbered with the next sequence number,
  at the end of its source's ring; to make room it drops the oldest records of that ring, no more than needed,
  and the other ring keeps every record.\<close>

theorem append_drops_only_the_oldest:
  assumes st: "store_holds st L" and e: "\<not> entry_invalid e" "ls_initialized st" "\<not> ls_panicked st"
    and a: "log_store_append h False (Some e) st = (res, st')"
    and s: "s = le_source e" and x: "x = stored e (ls_next_seq st)"
  shows "res = None \<and> ls_next_seq st' = ls_next_seq st + 1 \<and>
    (\<exists>k \<le> length (L ! s). store_holds st' (L[s := drop k (L ! s) @ [x]]) \<and>
       (\<forall>j < k. rb_size (ls_rings st ! s) < bytes_total (drop j (L ! s)) + record_size x))"
proof -
  have ok: "append_refused False (Some e) st = None" using e by (simp add: append_refused_def)
  have st': "st' = snd (log_store_append h False (Some e) st)" "res = fst (log_store_append h False (Some e) st)"
    using a by simp_all
  from evict_drop [of "L ! s" "rb_size (ls_rings st ! s)" "record_size x"] obtain k where
    k: "k \<le> length (L ! s)" "evict (rb_size (ls_rings st ! s)) (record_size x) (L ! s) = drop k (L ! s)"
    "\<forall>j < k. rb_size (ls_rings st ! s) < bytes_total (drop j (L ! s)) + record_size x" by blast
  have "store_holds st' (L[s := drop k (L ! s) @ [x]])"
    using append_holds(1) [OF st ok, of h] k(2) unfolding st' after_append_def Let_def s x by simp
  moreover have "res = None" unfolding st' append_result by (rule ok)
  moreover have "ls_next_seq st' = ls_next_seq st + 1" unfolding st' by (rule append_holds(2) [OF st ok])
  ultimately show ?thesis using k by blast
qed

text \<open>A small store, a counter that stands still and an entry, for the witnesses.\<close>

definition sample_store :: log_store where
  "sample_store = log_store_init (log_store_statics 4 4)"

definition sample_hw :: hw where
  "sample_hw = \<lparr>hw_cycles = (\<lambda>n. of_nat n), hw_us = (\<lambda>c. c div 160)\<rparr>"

definition sample_entry :: log_store_entry where
  "sample_entry = \<lparr>le_source = 1, le_level = 3, le_kind = 0, le_truncated = False, le_generation = 1,
     le_uptime_ms = 5, le_module = Some [0x77], le_text = Some [0x68, 0x69], le_text_len = 2\<rparr>"

definition sample_filter :: log_store_filter where
  "sample_filter = \<lparr>lf_sources = 3, lf_min_level = 2, lf_has_module = False, lf_module = [],
     lf_has_contains = True, lf_contains = [0x49]\<rparr>"

lemma sample_start:
  "store_holds sample_store [[], []]" "seqs_ok sample_store [[], []]" "ls_initialized sample_store"
  "\<not> ls_panicked sample_store" "ls_next_seq sample_store = 1"
proof -
  have "1024 * 4 = (2 :: nat) ^ 12" "RECORD_MAX \<le> 1024 * 4" by (simp_all add: record_max)
  note ok = statics_ok [OF this this]
  show "store_holds sample_store [[], []]" "seqs_ok sample_store [[], []]" "ls_initialized sample_store"
    "\<not> ls_panicked sample_store" "ls_next_seq sample_store = 1"
    unfolding sample_store_def by (rule init_holds [OF ok], assumption?)+
qed

lemma sample_valid: "\<not> entry_invalid sample_entry"
  by (simp add: entry_invalid_def sample_entry_def LOG_STORE_SOURCE_COUNT_def)

lemma filter_accepts_exactly_witness: "log_store_filter_match sample_filter (stored sample_entry 1)"
  unfolding filter_accepts_exactly
  by (simp add: stored_def sample_filter_def sample_entry_def entry_text_def source_bit_def cstr_def lower_ascii_def
      LOG_STORE_TEXT_MAX_def sublist_Cons_right)

lemma rings_hold_whole_records_witness:
  "\<exists>rs. rb_records (ls_rings (run_ops (store_step sample_hw) [S_append False (Some sample_entry)] sample_store) ! 1) =
     of_nat (length rs) \<and> list_all ring_record_ok rs"
  using rings_hold_whole_records [of 4 12 4 12 1, OF _ _ _ refl, of sample_hw "[S_append False (Some sample_entry)]"]
  unfolding sample_store_def by auto

lemma append_drops_only_the_oldest_witness:
  "\<exists>st'. log_store_append sample_hw False (Some sample_entry) sample_store = (None, st') \<and>
     store_holds st' [[], [stored sample_entry 1]]"
proof -
  obtain res st' where a: "log_store_append sample_hw False (Some sample_entry) sample_store = (res, st')"
    by (metis surj_pair)
  have "le_source sample_entry = 1" by (simp add: sample_entry_def)
  with append_drops_only_the_oldest [OF sample_start(1) sample_valid sample_start(3,4) a refl refl] a
  show ?thesis by (auto simp: sample_start(5))
qed

text \<open>A refused \<^verbatim>\<open>log_store_append\<close> says why (not initialised or panicked: EAGAIN, also when the panic comes
  while it waits for the lock; no entry, or one with a source, level or kind out of range or a length without
  a text: EINVAL) and leaves rings and sequence as they were.\<close>

theorem refused_append_changes_nothing:
  "fst (log_store_append h panics entry st) =
     (if ls_panicked st \<or> \<not> ls_initialized st then Some EAGAIN
      else case entry of None \<Rightarrow> Some EINVAL
      | Some e \<Rightarrow> if 2 \<le> le_source e \<or> 5 < le_level e \<or> 3 < le_kind e \<or> (le_text e = None \<and> 0 < le_text_len e)
          then Some EINVAL else if panics then Some EAGAIN else None) \<and>
   (fst (log_store_append h panics entry st) \<noteq> None \<longrightarrow>
      ls_rings (snd (log_store_append h panics entry st)) = ls_rings st \<and>
      ls_next_seq (snd (log_store_append h panics entry st)) = ls_next_seq st)"
  using append_refused_frame [of panics entry st h] unfolding append_result
  by (auto simp: append_refused_def entry_invalid_def LOG_STORE_SOURCE_COUNT_def split: option.splits)

lemma refused_append_changes_nothing_witness:
  "ls_rings (snd (log_store_append sample_hw False None sample_store)) = ls_rings sample_store"
  using refused_append_changes_nothing [of sample_hw False None sample_store] sample_start(3,4) by simp




text \<open>The loop of a read over what lies ahead.\<close>

lemma read_loop_ahead:
  assumes "store_holds st L" "ahead rd st L Y" "rd_upper_seq rd = 0"
    and "pre = takeWhile (\<lambda>x. \<not> log_store_filter_match (rd_filter rd) x) (merged Y)"
  shows "\<exists>Y' rd' st'. read_loop h budget rd st =
      (if budget \<le> length pre then (LOG_STORE_READ_BUDGET, None, rd', st')
       else if pre = merged Y then (LOG_STORE_READ_END, None, rd', st')
       else (LOG_STORE_READ_RECORD, Some (merged Y ! length pre), rd', st')) \<and>
     ls_rings st' = ls_rings st \<and> ahead rd' st' L Y' \<and> rd_gap rd' = rd_gap rd \<and> rd_filter rd' = rd_filter rd \<and>
     rd_upper_seq rd' = 0 \<and> merged Y' = drop (if budget \<le> length pre then budget else Suc (length pre)) (merged Y)"
  using assms
proof (induction budget arbitrary: rd st Y pre)
  case 0
  then show ?case by auto
next
  case (Suc budget)
  let ?P = "log_store_filter_match (rd_filter rd)"
  obtain res rd1 st1 where r: "read_one h rd st = (res, rd1, st1)" by (metis surj_pair)
  note fr = read_one_frame [OF r] and ra = read_one_ahead [OF Suc.prems(1-3), of h]
  have g: "rd_gap rd1 = rd_gap rd" "rd_filter rd1 = rd_filter rd" "rd_upper_seq rd1 = 0" using ra(2-4) r by simp_all
  have same: "store_holds st1 L = store_holds st L" "\<And>rd Y. ahead rd st1 L Y = ahead rd st L Y"
    using fr(1) by (simp_all add: store_holds_def ahead_def)
  show ?case
  proof (cases "merged Y")
    case Nil
    with ra(1) r have "res = None" "ahead rd1 st L Y" by auto
    with Nil r g same fr(1) Suc.prems(4) show ?thesis by (intro exI [of _ Y] exI [of _ rd1] exI [of _ st1]) simp
  next
    case (Cons y M)
    with ra(1) r obtain Y1 where Y1: "res = Some y" "ahead rd1 st L Y1" "merged Y1 = M" by auto
    show ?thesis
    proof (cases "?P y")
      case True
      then have "pre = []" using Suc.prems(4) Cons by simp
      with Cons Y1 r g same fr(1) True show ?thesis
        by (intro exI [of _ Y1] exI [of _ rd1] exI [of _ st1]) simp
    next
      case False
      let ?pre = "takeWhile (\<lambda>x. \<not> ?P x) M"
      have pre: "pre = y # ?pre" using Suc.prems(4) Cons False by simp
      have p1: "?pre = takeWhile (\<lambda>x. \<not> log_store_filter_match (rd_filter rd1) x) (merged Y1)"
        using Y1(3) g(2) by simp
      have "store_holds st1 L" "ahead rd1 st1 L Y1" using Suc.prems(1) Y1(2) same by simp_all
      from Suc.IH [OF this g(3) p1] obtain Y' rd' st' where ih: "read_loop h budget rd1 st1 =
          (if budget \<le> length ?pre then (LOG_STORE_READ_BUDGET, None, rd', st')
           else if ?pre = merged Y1 then (LOG_STORE_READ_END, None, rd', st')
           else (LOG_STORE_READ_RECORD, Some (merged Y1 ! length ?pre), rd', st'))"
        "ls_rings st' = ls_rings st1" "ahead rd' st' L Y'" "rd_gap rd' = rd_gap rd1" "rd_filter rd' = rd_filter rd1"
        "rd_upper_seq rd' = 0" "merged Y' = drop (if budget \<le> length ?pre then budget else Suc (length ?pre)) (merged Y1)"
        by blast
      have "read_loop h (Suc budget) rd st = read_loop h budget rd1 st1" using r Y1(1) False g(2) by simp
      with ih Cons pre Y1(3) g fr(1) show ?thesis
        by (intro exI [of _ Y'] exI [of _ rd'] exI [of _ st']) simp
    qed
  qed
qed

text \<open>C23: One \<^verbatim>\<open>log_store_read\<close> from a reader that has not fallen behind looks at the records ahead of it in
  sequence order: it gives the first one that matches, if that is within the scan budget, says that the end is
  reached if none matches and the budget covers them all, and otherwise that the budget is used up; it moves
  past exactly the records it looked at and never touches the rings.\<close>

theorem read_gives_the_next_match:
  assumes "store_holds st L" "ahead rd st L Y" "rd_upper_seq rd = 0" "ls_initialized st"
    "lf_sources (rd_filter rd) AND LOG_STORE_SOURCES_ALL \<noteq> 0"
    and pre: "pre = takeWhile (\<lambda>x. \<not> log_store_filter_match (rd_filter rd) x) (merged Y)"
    and r: "log_store_read h rd budget st = (res, out, rd', st')"
  shows "(res, out) = (if budget \<le> length pre then (LOG_STORE_READ_BUDGET, None)
      else if pre = merged Y then (LOG_STORE_READ_END, None)
      else (LOG_STORE_READ_RECORD, Some (merged Y ! length pre))) \<and>
    ls_rings st' = ls_rings st \<and> rd_gap rd' = rd_gap rd \<and>
    (\<exists>Y'. ahead rd' st' L Y' \<and>
       merged Y' = drop (if budget \<le> length pre then budget else Suc (length pre)) (merged Y))"
proof -
  have "log_store_read h rd budget st = read_loop h budget rd st"
    using assms(4,5) by (simp add: log_store_read_def)
  with read_loop_ahead [OF assms(1-3) pre, of h budget] r show ?thesis by (auto split: if_splits)
qed

lemma sample_ahead: "ahead (reader_init sample_filter) sample_store [[], []] [[], []]"
proof -
  have h: "holds (ls_rings sample_store ! s) []" if "s < 2" for s
    using sample_start(1) that by (auto simp: store_holds_def less_2)
  have "rb_tail (ls_rings sample_store ! s) = 0" if "s < 2" for s
    using that by (auto simp: sample_store_def log_store_init_def log_store_statics_def less_2)
  then show ?thesis
    by (auto simp: ahead_def reader_init_def LOG_STORE_SOURCE_COUNT_def cut_at_def less_2)
qed

lemma read_gives_the_next_match_witness:
  "\<exists>rd' st'. log_store_read sample_hw (reader_init sample_filter) 1 sample_store = (LOG_STORE_READ_END, None, rd', st')"
proof -
  obtain res out rd' st' where r: "log_store_read sample_hw (reader_init sample_filter) 1 sample_store = (res, out, rd', st')"
    by (metis surj_pair)
  have "(res, out) = (LOG_STORE_READ_END, None)"
    using read_gives_the_next_match [OF sample_start(1) sample_ahead _ sample_start(3) _ refl r]
    by (simp add: reader_init_def sample_filter_def LOG_STORE_SOURCES_ALL_def source_bit_def)
  with r show ?thesis by auto
qed



text \<open>\<^verbatim>\<open>log_store_utf8_cut\<close> of a text made of whole UTF-8 sequences cuts between sequences: what is kept is the
  longest prefix of whole sequences that fits.\<close>

theorem utf8_cut_keeps_whole_characters:
  assumes "list_all utf8_unit us"
  shows "\<exists>us1 us2. us = us1 @ us2 \<and> take (log_store_utf8_cut (concat us) (length (concat us)) cap) (concat us) = concat us1 \<and>
    length (concat us1) \<le> cap \<and> (us2 \<noteq> [] \<longrightarrow> cap < length (concat us1) + length (hd us2))"
  by (rule utf8_cut_units [OF assms])

text \<open>A letter and a two-byte character, cut at two bytes.\<close>

lemma utf8_cut_keeps_whole_characters_witness:
  "take (log_store_utf8_cut [0x41, 0xC3, 0xA9] 3 2) [0x41, 0xC3, 0xA9] = [0x41 :: byte]"
proof -
  let ?us = "[[0x41], [0xC3, 0xA9 :: byte]]"
  have "list_all utf8_unit ?us" by (simp add: utf8_unit_def is_cont_def lead_need_def)
  moreover have "concat ?us = [0x41, 0xC3, 0xA9]" "length (concat ?us) = 3" by simp_all
  ultimately obtain us1 us2 where
    "?us = us1 @ us2" and cut: "take (log_store_utf8_cut [0x41, 0xC3, 0xA9] 3 2) [0x41, 0xC3, 0xA9] = concat us1"
    and "length (concat us1) \<le> 2" "us2 \<noteq> [] \<longrightarrow> 2 < length (concat us1) + length (hd us2)"
    using utf8_cut_keeps_whole_characters [of ?us 2] by metis
  then have "concat us1 = [0x41]"
    by (cases us1; cases "tl us1"; cases us2) (auto simp: Cons_eq_append_conv)
  with cut show ?thesis by simp
qed

end
