(* ===== verification/Device_Config_Store.thy ===== *)
theory Device_Config_Store
  imports Network_Validate
begin

text \<open>
  Model of \<^verbatim>\<open>modules/device-config-store/lib/device_config_store.c\<close>: the durable, transactional home of the
  device's configuration and secrets, in two committed slots and one journal slot of an injected back end.

  A record is a header and a payload; \<open>struct device_config\<close> stays the image of its 116 bytes here, because
  the store copies, sums and compares it as bytes and touches only the two derived flags. \<^verbatim>\<open>crc32_ieee\<close> is a
  library function and a parameter, and so is the back end: its three functions over a world. \<open>None\<close> as an
  error is 0. Every entry point runs under the module's mutex.
\<close>

section \<open>Data\<close>

definition DEVICE_CONFIG_SCHEMA_VERSION :: u16 where "DEVICE_CONFIG_SCHEMA_VERSION = 1"
definition DEVICE_CONFIG_TXN_ID_MAX_LEN :: nat where "DEVICE_CONFIG_TXN_ID_MAX_LEN = 64"
definition DEVICE_CONFIG_SECRET_COUNT :: nat where "DEVICE_CONFIG_SECRET_COUNT = 2"
definition DEVICE_CONFIG_SECRET_WIFI_PASSWORD :: nat where "DEVICE_CONFIG_SECRET_WIFI_PASSWORD = 0"
definition DEVICE_CONFIG_SECRET_ADMIN_PASSWORD :: nat where "DEVICE_CONFIG_SECRET_ADMIN_PASSWORD = 1"
definition RECORD_MAGIC :: u32 where "RECORD_MAGIC = 0x43524443"

text \<open>\<^verbatim>\<open>sizeof\<close> of the structures, as the file's assertions pin them.\<close>

definition CONFIG_SIZE :: nat where "CONFIG_SIZE = 116"
definition SECRET_BLOB_SIZE :: nat where "SECRET_BLOB_SIZE = 100"
definition RECORD_HEADER_SIZE :: nat where "RECORD_HEADER_SIZE = 96"
definition RECORD_PAYLOAD_SIZE :: nat where "RECORD_PAYLOAD_SIZE = 316"

text \<open>Offsets of the fields of \<^verbatim>\<open>struct device_config\<close> that the store writes.\<close>

definition OFF_PREFERRED_INTERFACE :: nat where "OFF_PREFERRED_INTERFACE = 0"
definition OFF_ADMIN_PASSWORD_SET :: nat where "OFF_ADMIN_PASSWORD_SET = 1"
definition OFF_DNS_MODE :: nat where "OFF_DNS_MODE = 4"
definition OFF_ETHERNET_ENABLED :: nat where "OFF_ETHERNET_ENABLED = 48"
definition OFF_ETHERNET_IPV4_MODE :: nat where "OFF_ETHERNET_IPV4_MODE = 52"
definition OFF_WIFI_ENABLED :: nat where "OFF_WIFI_ENABLED = 64"
definition OFF_WIFI_SECURITY :: nat where "OFF_WIFI_SECURITY = 65"
definition OFF_WIFI_PASSWORD_SET :: nat where "OFF_WIFI_PASSWORD_SET = 100"
definition OFF_WIFI_IPV4_MODE :: nat where "OFF_WIFI_IPV4_MODE = 104"

lemmas config_offsets = OFF_PREFERRED_INTERFACE_def OFF_ADMIN_PASSWORD_SET_def OFF_DNS_MODE_def
  OFF_ETHERNET_ENABLED_def OFF_ETHERNET_IPV4_MODE_def OFF_WIFI_ENABLED_def OFF_WIFI_SECURITY_def
  OFF_WIFI_PASSWORD_SET_def OFF_WIFI_IPV4_MODE_def

record record_header =
  rh_magic :: u32
  rh_schema_version :: u16
  rh_flags :: u16
  rh_revision :: u32
  rh_base_revision :: u32
  rh_payload_len :: u32
  rh_payload_crc :: u32
  rh_transaction_id :: "byte list"
  rh_reserved :: "byte list"
  rh_header_crc :: u32

record secret_blob =
  sb_len :: u16
  sb_reserved :: "byte list"
  sb_data :: "byte list"

record record_payload =
  rp_config :: "byte list"
  rp_secrets :: "secret_blob list"

record config_record =
  cr_header :: record_header
  cr_payload :: record_payload

text \<open>The layout: the bytes of a structure, and the structure in some bytes.\<close>

definition header_prefix :: "record_header \<Rightarrow> byte list" where
  "header_prefix h = put_le 4 (unat (rh_magic h)) @ put_le 2 (unat (rh_schema_version h)) @
     put_le 2 (unat (rh_flags h)) @ put_le 4 (unat (rh_revision h)) @ put_le 4 (unat (rh_base_revision h)) @
     put_le 4 (unat (rh_payload_len h)) @ put_le 4 (unat (rh_payload_crc h)) @ rh_transaction_id h @ rh_reserved h"

definition header_image :: "record_header \<Rightarrow> byte list" where
  "header_image h = header_prefix h @ put_le 4 (unat (rh_header_crc h))"

definition header_of_image :: "byte list \<Rightarrow> record_header" where
  "header_of_image bs = \<lparr>rh_magic = of_nat (get_le (take 4 bs)), rh_schema_version = of_nat (get_le (take 2 (drop 4 bs))),
     rh_flags = of_nat (get_le (take 2 (drop 6 bs))), rh_revision = of_nat (get_le (take 4 (drop 8 bs))),
     rh_base_revision = of_nat (get_le (take 4 (drop 12 bs))), rh_payload_len = of_nat (get_le (take 4 (drop 16 bs))),
     rh_payload_crc = of_nat (get_le (take 4 (drop 20 bs))), rh_transaction_id = take 65 (drop 24 bs),
     rh_reserved = take 3 (drop 89 bs), rh_header_crc = of_nat (get_le (take 4 (drop 92 bs)))\<rparr>"

definition blob_image :: "secret_blob \<Rightarrow> byte list" where
  "blob_image b = put_le 2 (unat (sb_len b)) @ sb_reserved b @ sb_data b"

definition blob_of_image :: "byte list \<Rightarrow> secret_blob" where
  "blob_of_image bs = \<lparr>sb_len = of_nat (get_le (take 2 bs)), sb_reserved = take 2 (drop 2 bs), sb_data = take 96 (drop 4 bs)\<rparr>"

definition payload_image :: "record_payload \<Rightarrow> byte list" where
  "payload_image p = rp_config p @ concat (map blob_image (rp_secrets p))"

definition payload_of_image :: "byte list \<Rightarrow> record_payload" where
  "payload_of_image bs = \<lparr>rp_config = take CONFIG_SIZE bs,
     rp_secrets = [blob_of_image (take SECRET_BLOB_SIZE (drop CONFIG_SIZE bs)),
                   blob_of_image (take SECRET_BLOB_SIZE (drop (CONFIG_SIZE + SECRET_BLOB_SIZE) bs))]\<rparr>"

definition record_image :: "config_record \<Rightarrow> byte list" where
  "record_image r = header_image (cr_header r) @ payload_image (cr_payload r)"

definition record_of_image :: "byte list \<Rightarrow> config_record" where
  "record_of_image bs = \<lparr>cr_header = header_of_image (take RECORD_HEADER_SIZE bs),
     cr_payload = payload_of_image (drop RECORD_HEADER_SIZE bs)\<rparr>"

record device_config_update =
  du_config :: "byte list"
  du_secrets :: "device_config_secret_update list"

text \<open>\<open>DEVICE_CONFIG_GENERATION_OTHER\<close> stands for any value that is not a generation.\<close>

datatype device_config_generation = DEVICE_CONFIG_COMMITTED | DEVICE_CONFIG_PENDING | DEVICE_CONFIG_GENERATION_OTHER

datatype device_config_recovery =
    DEVICE_CONFIG_RECOVERY_CLEAN | DEVICE_CONFIG_RECOVERY_DEFAULTS | DEVICE_CONFIG_RECOVERY_ROLLED_BACK
  | DEVICE_CONFIG_RECOVERY_COMMIT_COMPLETED | DEVICE_CONFIG_RECOVERY_PENDING_CORRUPT
  | DEVICE_CONFIG_RECOVERY_COMMITTED_LOST | DEVICE_CONFIG_RECOVERY_COMMITTED_DEGRADED

record device_config_recovery_report =
  rr_result :: device_config_recovery
  rr_revision :: u32
  rr_transaction_id :: "byte list"

record device_config_pending_info =
  pi_present :: bool
  pi_transaction_id :: "byte list"
  pi_revision :: u32
  pi_base_revision :: u32

definition DEVICE_CONFIG_SLOT_COMMITTED_A :: nat where "DEVICE_CONFIG_SLOT_COMMITTED_A = 0"
definition DEVICE_CONFIG_SLOT_COMMITTED_B :: nat where "DEVICE_CONFIG_SLOT_COMMITTED_B = 1"
definition DEVICE_CONFIG_SLOT_PENDING :: nat where "DEVICE_CONFIG_SLOT_PENDING = 2"
definition DEVICE_CONFIG_SLOT_COUNT :: nat where "DEVICE_CONFIG_SLOT_COUNT = 3"

lemmas slots = DEVICE_CONFIG_SLOT_COMMITTED_A_def DEVICE_CONFIG_SLOT_COMMITTED_B_def DEVICE_CONFIG_SLOT_PENDING_def
  DEVICE_CONFIG_SLOT_COUNT_def

text \<open>The back end: the bytes read, or an error; a slot is a number.\<close>

record 'w device_config_backend =
  be_read :: "nat \<Rightarrow> nat \<Rightarrow> 'w \<Rightarrow> (errno + byte list) \<times> 'w"
  be_write :: "nat \<Rightarrow> byte list \<Rightarrow> 'w \<Rightarrow> errno option \<times> 'w"
  be_erase :: "nat \<Rightarrow> 'w \<Rightarrow> errno option \<times> 'w"

text \<open>The statics of the file, and the world of the back end.\<close>

record 'w device_store =
  ds_backend :: "'w device_config_backend option"
  ds_committed :: config_record
  ds_pending_present :: bool
  ds_pending :: config_record
  ds_initialised :: bool
  ds_ctx :: 'w

type_synonym crc32 = "byte list \<Rightarrow> u32"

section \<open>Records\<close>

definition zeroed_record :: config_record where
  "zeroed_record = record_of_image (replicate (RECORD_HEADER_SIZE + RECORD_PAYLOAD_SIZE) 0)"

definition header_checksum :: "crc32 \<Rightarrow> record_header \<Rightarrow> u32" where
  "header_checksum crc h = crc (header_prefix h)"

definition record_is_valid :: "crc32 \<Rightarrow> config_record \<Rightarrow> nat \<Rightarrow> bool" where
  "record_is_valid crc rec read_len =
     (if read_len < RECORD_HEADER_SIZE then False
      else if rh_magic (cr_header rec) \<noteq> RECORD_MAGIC then False
      else if rh_header_crc (cr_header rec) \<noteq> header_checksum crc (cr_header rec) then False
      else if RECORD_PAYLOAD_SIZE < unat (rh_payload_len (cr_header rec)) then False
      else if read_len < RECORD_HEADER_SIZE + unat (rh_payload_len (cr_header rec)) then False
      else rh_payload_crc (cr_header rec) =
             crc (take (unat (rh_payload_len (cr_header rec))) (payload_image (cr_payload rec))))"

text \<open>The table of migrations: a version, and what turns a payload of that version into the next one's.\<close>

definition migrations :: "(u16 \<times> (record_payload \<Rightarrow> u32 \<Rightarrow> errno option \<times> record_payload \<times> u32)) list" where
  "migrations = []"

fun migrate_steps :: "nat \<Rightarrow> u16 \<Rightarrow> config_record \<Rightarrow> errno option \<times> config_record" where
  "migrate_steps 0 version rec = (None, rec)"
| "migrate_steps (Suc n) version rec =
     (case find (\<lambda>(from_version, f). from_version = version) migrations of
        None \<Rightarrow> (Some ENOTSUP, rec)
      | Some (v, f) \<Rightarrow>
          (case f (cr_payload rec) (rh_payload_len (cr_header rec)) of (err, p, len) \<Rightarrow>
           let rec' = rec\<lparr>cr_payload := p, cr_header := (cr_header rec)\<lparr>rh_payload_len := len\<rparr>\<rparr> in
           if err \<noteq> None then (err, rec') else migrate_steps n (version + 1) rec'))"

definition migrate_record :: "config_record \<Rightarrow> errno option \<times> config_record" where
  "migrate_record rec =
     (let version = rh_schema_version (cr_header rec) in
      if DEVICE_CONFIG_SCHEMA_VERSION < version then (Some ENOTSUP, rec)
      else case migrate_steps (unat DEVICE_CONFIG_SCHEMA_VERSION - unat version) version rec of
        (Some e, rec') \<Rightarrow> (Some e, rec')
      | (None, rec') \<Rightarrow>
          (None, rec'\<lparr>cr_header := (cr_header rec')\<lparr>rh_schema_version := DEVICE_CONFIG_SCHEMA_VERSION\<rparr>\<rparr>))"

text \<open>
  What \<^verbatim>\<open>read_slot\<close> makes of what the back end gave; \<open>buf\<close> is what the caller's structure held before,
  and a short read leaves the rest of it.
\<close>

definition judge_read :: "crc32 \<Rightarrow> byte list \<Rightarrow> errno + byte list \<Rightarrow> errno option \<times> config_record" where
  "judge_read crc buf r =
     (case r of
        Inl e \<Rightarrow> (Some e, record_of_image buf)
      | Inr bs \<Rightarrow>
          let rec = record_of_image (bs @ drop (length bs) buf) in
          if \<not> record_is_valid crc rec (length bs) then (Some EBADMSG, rec) else migrate_record rec)"

definition read_slot ::
    "crc32 \<Rightarrow> 'w device_config_backend \<Rightarrow> nat \<Rightarrow> byte list \<Rightarrow> 'w \<Rightarrow> errno option \<times> config_record \<times> 'w" where
  "read_slot crc be slot buf w =
     (case be_read be slot (RECORD_HEADER_SIZE + RECORD_PAYLOAD_SIZE) w of (r, w') \<Rightarrow>
      case judge_read crc buf r of (err, rec) \<Rightarrow> (err, rec, w'))"

definition write_slot ::
    "crc32 \<Rightarrow> 'w device_config_backend \<Rightarrow> nat \<Rightarrow> config_record \<Rightarrow> 'w \<Rightarrow> errno option \<times> 'w" where
  "write_slot crc be slot rec w =
     (let plen = unat (rh_payload_len (cr_header rec)); len = RECORD_HEADER_SIZE + plen in
      case be_write be slot (take len (record_image rec)) w of
        (Some e, w1) \<Rightarrow> (Some e, w1)
      | (None, w1) \<Rightarrow>
          (case read_slot crc be slot (replicate (RECORD_HEADER_SIZE + RECORD_PAYLOAD_SIZE) 0) w1 of
             (err, verify, w2) \<Rightarrow>
               if err \<noteq> None then (Some EIO, w2)
               else if header_image (cr_header verify) \<noteq> header_image (cr_header rec) \<or>
                       take plen (payload_image (cr_payload verify)) \<noteq> take plen (payload_image (cr_payload rec))
               then (Some EIO, w2)
               else (None, w2)))"

definition inactive_committed_slot :: "config_record \<Rightarrow> nat" where
  "inactive_committed_slot committed =
     (if rh_revision (cr_header committed) mod 2 = 0 then DEVICE_CONFIG_SLOT_COMMITTED_A
      else DEVICE_CONFIG_SLOT_COMMITTED_B)"

definition device_config_defaults :: "byte list" where
  "device_config_defaults = (replicate CONFIG_SIZE 0)
     [OFF_PREFERRED_INTERFACE := DEVICE_CONFIG_INTERFACE_ETHERNET, OFF_DNS_MODE := DEVICE_CONFIG_DNS_AUTOMATIC,
      OFF_ETHERNET_ENABLED := 1, OFF_ETHERNET_IPV4_MODE := DEVICE_CONFIG_IPV4_DHCP, OFF_WIFI_ENABLED := 0,
      OFF_WIFI_SECURITY := DEVICE_CONFIG_WIFI_OPEN, OFF_WIFI_IPV4_MODE := DEVICE_CONFIG_IPV4_DHCP]"

definition record_set_defaults :: config_record where
  "record_set_defaults = zeroed_record
     \<lparr>cr_header := (cr_header zeroed_record)\<lparr>rh_magic := RECORD_MAGIC,
        rh_schema_version := DEVICE_CONFIG_SCHEMA_VERSION, rh_revision := 0,
        rh_payload_len := of_nat RECORD_PAYLOAD_SIZE\<rparr>,
      cr_payload := (cr_payload zeroed_record)\<lparr>rp_config := device_config_defaults\<rparr>\<rparr>"

definition record_seal :: "crc32 \<Rightarrow> config_record \<Rightarrow> config_record" where
  "record_seal crc rec =
     (let h1 = (cr_header rec)\<lparr>rh_magic := RECORD_MAGIC, rh_schema_version := DEVICE_CONFIG_SCHEMA_VERSION,
                 rh_flags := 0, rh_payload_len := of_nat RECORD_PAYLOAD_SIZE\<rparr>;
          h2 = h1\<lparr>rh_payload_crc := crc (take (unat (rh_payload_len h1)) (payload_image (cr_payload rec)))\<rparr>
      in rec\<lparr>cr_header := h2\<lparr>rh_header_crc := header_checksum crc h2\<rparr>\<rparr>)"

definition record_derive_flags :: "config_record \<Rightarrow> config_record" where
  "record_derive_flags rec =
     (let p = cr_payload rec; flag = (\<lambda>i. if 0 < sb_len (rp_secrets p ! i) then 1 else 0) in
      rec\<lparr>cr_payload := p\<lparr>rp_config := (rp_config p)
        [OFF_WIFI_PASSWORD_SET := flag DEVICE_CONFIG_SECRET_WIFI_PASSWORD,
         OFF_ADMIN_PASSWORD_SET := flag DEVICE_CONFIG_SECRET_ADMIN_PASSWORD]\<rparr>\<rparr>)"

definition txn_char :: "char \<Rightarrow> bool" where
  "txn_char c \<longleftrightarrow> (CHR ''a'' \<le> c \<and> c \<le> CHR ''z'') \<or> (CHR ''A'' \<le> c \<and> c \<le> CHR ''Z'') \<or>
     (CHR ''0'' \<le> c \<and> c \<le> CHR ''9'') \<or> c = CHR ''_'' \<or> c = CHR ''-''"

text \<open>The scan, from \<open>len\<close> characters on: the length, or \<open>None\<close> at a character that is not allowed.\<close>

fun txn_scan :: "nat \<Rightarrow> string \<Rightarrow> nat option" where
  "txn_scan len [] = Some len"
| "txn_scan len (c # cs) =
     (if len \<le> DEVICE_CONFIG_TXN_ID_MAX_LEN \<and> c \<noteq> NUL
      then (if txn_char c then txn_scan (len + 1) cs else None)
      else Some len)"

definition txn_id_is_valid :: "string option \<Rightarrow> bool" where
  "txn_id_is_valid jid =
     (case jid of None \<Rightarrow> False
      | Some s \<Rightarrow> (case txn_scan 0 s of None \<Rightarrow> False
                  | Some len \<Rightarrow> 0 < len \<and> len \<le> DEVICE_CONFIG_TXN_ID_MAX_LEN))"

text \<open>\<^verbatim>\<open>strncpy\<close> of at most 64 characters into a zeroed array of 65, and what the array's string is.\<close>

definition txn_field :: "byte list \<Rightarrow> byte list" where
  "txn_field s = take DEVICE_CONFIG_TXN_ID_MAX_LEN (cstr s) @
     replicate (DEVICE_CONFIG_TXN_ID_MAX_LEN + 1 - min DEVICE_CONFIG_TXN_ID_MAX_LEN (length (cstr s))) 0"

text \<open>\<^verbatim>\<open>strncmp(..., 64) == 0\<close>.\<close>

definition same_txn :: "byte list \<Rightarrow> string \<Rightarrow> bool" where
  "same_txn field s \<longleftrightarrow> take DEVICE_CONFIG_TXN_ID_MAX_LEN (cstr field) =
     take DEVICE_CONFIG_TXN_ID_MAX_LEN (cstr (bytes_of s))"

section \<open>Loading\<close>

text \<open>\<^verbatim>\<open>resolve_pending\<close>; \<open>buf\<close> is what its local record held before.\<close>

definition resolve_pending ::
    "crc32 \<Rightarrow> 'w device_config_backend \<Rightarrow> byte list \<Rightarrow> config_record \<Rightarrow> device_config_recovery_report \<Rightarrow> 'w \<Rightarrow>
     device_config_recovery_report \<times> 'w" where
  "resolve_pending crc be buf committed report w =
     (case read_slot crc be DEVICE_CONFIG_SLOT_PENDING buf w of (err, pending, w1) \<Rightarrow>
      if err = Some ENOENT then (report, w1)
      else
        let report' =
          (if err \<noteq> None then report\<lparr>rr_result := DEVICE_CONFIG_RECOVERY_PENDING_CORRUPT\<rparr>
           else if rh_revision (cr_header committed) < rh_revision (cr_header pending)
           then report\<lparr>rr_result := DEVICE_CONFIG_RECOVERY_ROLLED_BACK,
                       rr_transaction_id := txn_field (rh_transaction_id (cr_header pending))\<rparr>
           else report\<lparr>rr_result := DEVICE_CONFIG_RECOVERY_COMMIT_COMPLETED\<rparr>)
        in (report', snd (be_erase be DEVICE_CONFIG_SLOT_PENDING w1)))"

text \<open>Which of the two committed slots is in force, by what reading them gave.\<close>

definition committed_winner :: "errno option \<Rightarrow> config_record \<Rightarrow> errno option \<Rightarrow> config_record \<Rightarrow> config_record option" where
  "committed_winner err_a a err_b b =
     (if err_a = None \<and> err_b = None
      then Some (if rh_revision (cr_header b) \<le> rh_revision (cr_header a) then a else b)
      else if err_a = None then Some a else if err_b = None then Some b else None)"

text \<open>The committed record and the first verdict, defaults when no slot is readable.\<close>

definition boot_choice ::
    "crc32 \<Rightarrow> errno option \<Rightarrow> config_record \<Rightarrow> errno option \<Rightarrow> config_record \<Rightarrow> config_record \<times> device_config_recovery" where
  "boot_choice crc err_a a err_b b =
     (case committed_winner err_a a err_b b of
        None \<Rightarrow> (record_seal crc record_set_defaults,
          if err_a = Some ENOENT \<and> err_b = Some ENOENT then DEVICE_CONFIG_RECOVERY_DEFAULTS
          else DEVICE_CONFIG_RECOVERY_COMMITTED_LOST)
      | Some winner \<Rightarrow> (winner,
          if (err_a \<noteq> None \<and> err_a \<noteq> Some ENOENT) \<or> (err_b \<noteq> None \<and> err_b \<noteq> Some ENOENT)
          then DEVICE_CONFIG_RECOVERY_COMMITTED_DEGRADED else DEVICE_CONFIG_RECOVERY_CLEAN))"

definition device_config_init ::
    "crc32 \<Rightarrow> 'w device_config_backend option \<Rightarrow> byte list \<Rightarrow> byte list \<Rightarrow> byte list \<Rightarrow> 'w device_store \<Rightarrow>
     errno option \<times> device_config_recovery_report option \<times> 'w device_store" where
  "device_config_init crc backend buf_a buf_b buf_p st =
     (case backend of None \<Rightarrow> (Some EINVAL, None, st)
      | Some be \<Rightarrow>
          (case read_slot crc be DEVICE_CONFIG_SLOT_COMMITTED_A buf_a (ds_ctx st) of (err_a, a, w1) \<Rightarrow>
           case read_slot crc be DEVICE_CONFIG_SLOT_COMMITTED_B buf_b w1 of (err_b, b, w2) \<Rightarrow>
           case boot_choice crc err_a a err_b b of (committed, result) \<Rightarrow>
           case resolve_pending crc be buf_p committed
                  \<lparr>rr_result = result, rr_revision = 0,
                   rr_transaction_id = replicate (DEVICE_CONFIG_TXN_ID_MAX_LEN + 1) 0\<rparr> w2 of (report, w3) \<Rightarrow>
           (None, Some (report\<lparr>rr_revision := rh_revision (cr_header committed)\<rparr>),
            \<lparr>ds_backend = Some be, ds_committed = committed, ds_pending_present = False,
             ds_pending = zeroed_record, ds_initialised = True, ds_ctx = w3\<rparr>)))"

section \<open>Reading\<close>

definition device_config_revision :: "'w device_store \<Rightarrow> u32" where
  "device_config_revision st = (if ds_initialised st then rh_revision (cr_header (ds_committed st)) else 0)"

fun generation_record :: "device_config_generation \<Rightarrow> 'w device_store \<Rightarrow> config_record option" where
  "generation_record DEVICE_CONFIG_COMMITTED st = Some (ds_committed st)"
| "generation_record DEVICE_CONFIG_PENDING st = (if ds_pending_present st then Some (ds_pending st) else None)"
| "generation_record DEVICE_CONFIG_GENERATION_OTHER st = None"

text \<open>\<open>wanted\<close>: whether the output pointers are given; \<open>cap\<close> as \<open>None\<close> is the NULL buffer.\<close>

definition device_config_get ::
    "device_config_generation \<Rightarrow> bool \<Rightarrow> 'w device_store \<Rightarrow> errno + byte list" where
  "device_config_get generation wanted st =
     (if \<not> wanted \<or> generation = DEVICE_CONFIG_GENERATION_OTHER then Inl EINVAL
      else if \<not> ds_initialised st then Inl EINVAL
      else (case generation_record generation st of
              None \<Rightarrow> Inl ENOENT | Some rec \<Rightarrow> Inr (rp_config (cr_payload rec))))"

definition device_config_secret_get ::
    "device_config_generation \<Rightarrow> nat \<Rightarrow> nat option \<Rightarrow> bool \<Rightarrow> 'w device_store \<Rightarrow> errno + byte list" where
  "device_config_secret_get generation sid cap wanted st =
     (case cap of None \<Rightarrow> Inl EINVAL
      | Some n \<Rightarrow>
          if \<not> wanted \<or> DEVICE_CONFIG_SECRET_COUNT \<le> sid \<or> generation = DEVICE_CONFIG_GENERATION_OTHER then Inl EINVAL
          else if \<not> ds_initialised st then Inl EINVAL
          else (case generation_record generation st of
                  None \<Rightarrow> Inl ENOENT
                | Some rec \<Rightarrow> let blob = rp_secrets (cr_payload rec) ! sid in
                    if n < unat (sb_len blob) then Inl ENOMEM
                    else Inr (take (unat (sb_len blob)) (sb_data blob))))"

definition device_config_pending_info_get :: "bool \<Rightarrow> 'w device_store \<Rightarrow> errno + device_config_pending_info" where
  "device_config_pending_info_get wanted st =
     (if \<not> wanted then Inl EINVAL
      else if ds_pending_present st
      then let h = cr_header (ds_pending st) in
        Inr \<lparr>pi_present = True, pi_transaction_id = txn_field (rh_transaction_id h),
             pi_revision = rh_revision h, pi_base_revision = rh_base_revision h\<rparr>
      else Inr \<lparr>pi_present = False, pi_transaction_id = replicate (DEVICE_CONFIG_TXN_ID_MAX_LEN + 1) 0,
                pi_revision = 0, pi_base_revision = 0\<rparr>)"

section \<open>Transactions\<close>

definition zero_blob :: secret_blob where
  "zero_blob = \<lparr>sb_len = 0, sb_reserved = replicate 2 0, sb_data = replicate DEVICE_CONFIG_SECRET_MAX_LEN 0\<rparr>"

definition put_blob :: "nat \<Rightarrow> secret_blob \<Rightarrow> config_record \<Rightarrow> config_record" where
  "put_blob sid blob next = next\<lparr>cr_payload := (cr_payload next)\<lparr>rp_secrets := (rp_secrets (cr_payload next))[sid := blob]\<rparr>\<rparr>"

definition apply_secret_update ::
    "config_record \<Rightarrow> config_record \<Rightarrow> nat \<Rightarrow> device_config_secret_update \<Rightarrow> errno + config_record" where
  "apply_secret_update committed next sid update =
     (case su_action update of
        DEVICE_CONFIG_SECRET_KEEP \<Rightarrow> Inr (put_blob sid (rp_secrets (cr_payload committed) ! sid) next)
      | DEVICE_CONFIG_SECRET_CLEAR \<Rightarrow> Inr (put_blob sid zero_blob next)
      | DEVICE_CONFIG_SECRET_REPLACE \<Rightarrow>
          (case su_value update of None \<Rightarrow> Inl EINVAL
           | Some v \<Rightarrow>
               if su_len update = 0 \<or> DEVICE_CONFIG_SECRET_MAX_LEN < su_len update then Inl EINVAL
               else Inr (put_blob sid
                 (zero_blob\<lparr>sb_data := take (su_len update) v @
                              drop (length (take (su_len update) v)) (sb_data zero_blob),
                            sb_len := of_nat (su_len update)\<rparr>) next))
      | DEVICE_CONFIG_SECRET_OTHER \<Rightarrow> Inl EINVAL)"

text \<open>The new generation, complete and sealed.\<close>

definition next_generation ::
    "crc32 \<Rightarrow> config_record \<Rightarrow> device_config_update \<Rightarrow> u32 \<Rightarrow> string \<Rightarrow> errno + config_record" where
  "next_generation crc committed update base_revision transaction_id =
     (let start = zeroed_record
        \<lparr>cr_payload := (cr_payload zeroed_record)\<lparr>rp_config := du_config update\<rparr>,
         cr_header := (cr_header zeroed_record)
           \<lparr>rh_revision := rh_revision (cr_header committed) + 1, rh_base_revision := base_revision,
            rh_transaction_id := txn_field (bytes_of transaction_id)\<rparr>\<rparr>
      in ebind (foldl (\<lambda>r i. ebind r (\<lambda>next. apply_secret_update committed next i (du_secrets update ! i)))
                  (Inr start) [0..<DEVICE_CONFIG_SECRET_COUNT])
           (\<lambda>next. Inr (record_seal crc (record_derive_flags next))))"

definition device_config_pending_begin ::
    "crc32 \<Rightarrow> device_config_update option \<Rightarrow> u32 \<Rightarrow> string option \<Rightarrow> 'w device_store \<Rightarrow>
     errno option \<times> 'w device_store" where
  "device_config_pending_begin crc update base_revision transaction_id st =
     (case (update, transaction_id, ds_backend st) of
        (Some u, Some txn, backend) \<Rightarrow>
          if \<not> txn_id_is_valid transaction_id then (Some EINVAL, st)
          else if \<not> ds_initialised st then (Some EINVAL, st)
          else if ds_pending_present st then (Some EBUSY, st)
          else if base_revision \<noteq> rh_revision (cr_header (ds_committed st)) then (Some ESTALE, st)
          else if rh_revision (cr_header (ds_committed st)) = - 1 then (Some EOVERFLOW, st)
          else (case next_generation crc (ds_committed st) u base_revision txn of
                  Inl e \<Rightarrow> (Some e, st)
                | Inr next \<Rightarrow>
                    (case backend of None \<Rightarrow> (Some EINVAL, st)
                     | Some be \<Rightarrow>
                         (case write_slot crc be DEVICE_CONFIG_SLOT_PENDING next (ds_ctx st) of
                            (Some e, w) \<Rightarrow>
                              (Some EIO, st\<lparr>ds_ctx := snd (be_erase be DEVICE_CONFIG_SLOT_PENDING w)\<rparr>)
                          | (None, w) \<Rightarrow>
                              (None, st\<lparr>ds_ctx := w, ds_pending := next, ds_pending_present := True\<rparr>))))
      | _ \<Rightarrow> (Some EINVAL, st))"

text \<open>What commit and rollback check first.\<close>

definition pending_refused :: "string option \<Rightarrow> 'w device_store \<Rightarrow> errno option" where
  "pending_refused transaction_id st =
     (case transaction_id of None \<Rightarrow> Some EINVAL
      | Some txn \<Rightarrow>
          if \<not> ds_initialised st \<or> \<not> ds_pending_present st then Some ENOENT
          else if \<not> same_txn (rh_transaction_id (cr_header (ds_pending st))) txn then Some EINVAL
          else None)"

definition device_config_pending_commit ::
    "crc32 \<Rightarrow> string option \<Rightarrow> 'w device_store \<Rightarrow> errno option \<times> 'w device_store" where
  "device_config_pending_commit crc transaction_id st =
     (case (pending_refused transaction_id st, ds_backend st) of
        (Some e, _) \<Rightarrow> (Some e, st)
      | (None, None) \<Rightarrow> (Some ENOENT, st)
      | (None, Some be) \<Rightarrow>
          (case write_slot crc be (inactive_committed_slot (ds_committed st)) (ds_pending st) (ds_ctx st) of
             (Some e, w) \<Rightarrow> (Some EIO, st\<lparr>ds_ctx := w\<rparr>)
           | (None, w) \<Rightarrow>
               (None, st\<lparr>ds_committed := ds_pending st, ds_pending := zeroed_record, ds_pending_present := False,
                         ds_ctx := snd (be_erase be DEVICE_CONFIG_SLOT_PENDING w)\<rparr>)))"

definition device_config_pending_rollback :: "string option \<Rightarrow> 'w device_store \<Rightarrow> errno option \<times> 'w device_store" where
  "device_config_pending_rollback transaction_id st =
     (case (pending_refused transaction_id st, ds_backend st) of
        (Some e, _) \<Rightarrow> (Some e, st)
      | (None, None) \<Rightarrow> (Some ENOENT, st)
      | (None, Some be) \<Rightarrow>
          (case be_erase be DEVICE_CONFIG_SLOT_PENDING (ds_ctx st) of
             (Some e, w) \<Rightarrow> (Some EIO, st\<lparr>ds_ctx := w\<rparr>)
           | (None, w) \<Rightarrow> (None, st\<lparr>ds_ctx := w, ds_pending := zeroed_record, ds_pending_present := False\<rparr>)))"

section \<open>Wire names\<close>

definition device_config_wifi_security_str :: "nat \<Rightarrow> string option" where
  "device_config_wifi_security_str security =
     (if security = 0 then Some ''open'' else if security = 1 then Some ''wpa2_psk''
      else if security = 2 then Some ''wpa3_sae'' else None)"

definition device_config_ipv4_mode_str :: "nat \<Rightarrow> string option" where
  "device_config_ipv4_mode_str mode =
     (if mode = 0 then Some ''dhcp'' else if mode = 1 then Some ''static'' else None)"

definition device_config_dns_mode_str :: "nat \<Rightarrow> string option" where
  "device_config_dns_mode_str mode =
     (if mode = 0 then Some ''automatic'' else if mode = 1 then Some ''manual'' else None)"

definition device_config_interface_str :: "nat \<Rightarrow> string option" where
  "device_config_interface_str iface =
     (if iface = 0 then Some ''ethernet'' else if iface = 1 then Some ''wifi'' else None)"

end
