(* ===== verification/Device_Config_Recovery.thy ===== *)
theory Device_Config_Recovery
  imports Device_Config_Store
begin

text \<open>
  The device configuration store over storage that may fail at any call: the layout of records and its round trip,
  the contract of the back end (locale \<open>slot_storage\<close>), which generation is in force, and what every operation
  leaves of it (locale \<open>rebootable\<close>).
\<close>

section \<open>Images\<close>

text \<open>Structures whose arrays have their declared lengths.\<close>

definition header_sized :: "record_header \<Rightarrow> bool" where
  "header_sized h \<longleftrightarrow> length (rh_transaction_id h) = DEVICE_CONFIG_TXN_ID_MAX_LEN + 1 \<and> length (rh_reserved h) = 3"

definition blob_sized :: "secret_blob \<Rightarrow> bool" where
  "blob_sized b \<longleftrightarrow> length (sb_reserved b) = 2 \<and> length (sb_data b) = DEVICE_CONFIG_SECRET_MAX_LEN"

definition payload_sized :: "record_payload \<Rightarrow> bool" where
  "payload_sized p \<longleftrightarrow> length (rp_config p) = CONFIG_SIZE \<and> length (rp_secrets p) = DEVICE_CONFIG_SECRET_COUNT \<and>
     list_all blob_sized (rp_secrets p)"

definition record_sized :: "config_record \<Rightarrow> bool" where
  "record_sized r \<longleftrightarrow> header_sized (cr_header r) \<and> payload_sized (cr_payload r)"

lemmas config_sizes = CONFIG_SIZE_def SECRET_BLOB_SIZE_def RECORD_HEADER_SIZE_def RECORD_PAYLOAD_SIZE_def
  DEVICE_CONFIG_TXN_ID_MAX_LEN_def DEVICE_CONFIG_SECRET_COUNT_def DEVICE_CONFIG_SECRET_MAX_LEN_def

lemma word_field:
  "of_nat (get_le (put_le 2 (unat (v :: u16)))) = v" "of_nat (get_le (put_le 4 (unat (w :: u32)))) = w"
proof -
  have "unat v < 256 ^ 2" "unat w < 256 ^ 4" using unsigned_less [of v] unsigned_less [of w] by simp_all
  then have "get_le (put_le 2 (unat v)) = unat v" "get_le (put_le 4 (unat w)) = unat w" by (simp_all only: get_put_le)
  then show "of_nat (get_le (put_le 2 (unat v))) = v" "of_nat (get_le (put_le 4 (unat w))) = w" by simp_all
qed

lemma field_word:
  "length bs = 2 \<Longrightarrow> put_le 2 (unat (of_nat (get_le bs) :: u16)) = bs"
  "length bs = 4 \<Longrightarrow> put_le 4 (unat (of_nat (get_le bs) :: u32)) = bs"
  using get_le_bound [of bs] put_get_le [of bs] by (simp_all add: unat_of_nat_small del: put_le.simps)

lemma length_header_prefix [simp]: "header_sized h \<Longrightarrow> length (header_prefix h) = 92"
  by (simp add: header_prefix_def header_sized_def DEVICE_CONFIG_TXN_ID_MAX_LEN_def)

lemma length_header_image [simp]: "header_sized h \<Longrightarrow> length (header_image h) = 96"
  by (simp add: header_image_def)

lemma header_of_image_image: "header_sized h \<Longrightarrow> header_of_image (header_image h) = h"
  by (simp add: header_of_image_def header_image_def header_prefix_def header_sized_def
      DEVICE_CONFIG_TXN_ID_MAX_LEN_def word_field del: put_le.simps)

lemma header_image_inj: "header_sized h \<Longrightarrow> header_sized h' \<Longrightarrow> header_image h = header_image h' \<Longrightarrow> h = h'"
  by (metis header_of_image_image)

lemma split_at: "take n bs @ take m (drop n bs) = take (n + m) bs"
  by (simp add: take_add)

lemma header_image_of_image:
  assumes "length bs = 96"
  shows "header_image (header_of_image bs) = bs" "header_sized (header_of_image bs)"
proof -
  have "header_image (header_of_image bs) = take 4 bs @ take 2 (drop 4 bs) @ take 2 (drop 6 bs) @ take 4 (drop 8 bs) @
      take 4 (drop 12 bs) @ take 4 (drop 16 bs) @ take 4 (drop 20 bs) @ take 65 (drop 24 bs) @ take 3 (drop 89 bs) @
      take 4 (drop 92 bs)"
    using assms by (simp add: header_image_def header_prefix_def header_of_image_def field_word del: put_le.simps)
  also have "\<dots> = take 96 bs"
    unfolding append_assoc [symmetric] by (simp add: take_add [symmetric])
  finally show "header_image (header_of_image bs) = bs" using assms by simp
  show "header_sized (header_of_image bs)"
    using assms by (simp add: header_sized_def header_of_image_def DEVICE_CONFIG_TXN_ID_MAX_LEN_def)
qed

lemma length_blob_image [simp]: "blob_sized b \<Longrightarrow> length (blob_image b) = 100"
  by (simp add: blob_image_def blob_sized_def DEVICE_CONFIG_SECRET_MAX_LEN_def)

lemma blob_of_image_image: "blob_sized b \<Longrightarrow> blob_of_image (blob_image b) = b"
  by (simp add: blob_of_image_def blob_image_def blob_sized_def DEVICE_CONFIG_SECRET_MAX_LEN_def word_field del: put_le.simps)

lemma blob_image_of_image:
  assumes "length bs = 100"
  shows "blob_image (blob_of_image bs) = bs" "blob_sized (blob_of_image bs)"
proof -
  have "blob_image (blob_of_image bs) = take 2 bs @ take 2 (drop 2 bs) @ take 96 (drop 4 bs)"
    using assms by (simp add: blob_image_def blob_of_image_def field_word del: put_le.simps)
  also have "\<dots> = take 100 bs"
    unfolding append_assoc [symmetric] by (simp add: take_add [symmetric])
  finally show "blob_image (blob_of_image bs) = bs" using assms by simp
  show "blob_sized (blob_of_image bs)"
    using assms by (simp add: blob_sized_def blob_of_image_def DEVICE_CONFIG_SECRET_MAX_LEN_def)
qed

lemma two_secrets: "payload_sized p \<Longrightarrow> \<exists>a b. rp_secrets p = [a, b] \<and> blob_sized a \<and> blob_sized b"
  by (auto simp: payload_sized_def DEVICE_CONFIG_SECRET_COUNT_def length_Suc_conv numeral_2_eq_2)

lemma length_payload_image [simp]: "payload_sized p \<Longrightarrow> length (payload_image p) = 316"
  using two_secrets [of p] by (auto simp: payload_image_def payload_sized_def config_sizes)

lemma payload_of_image_image:
  assumes "payload_sized p"
  shows "payload_of_image (payload_image p) = p"
proof -
  obtain a b where ab: "rp_secrets p = [a, b]" "blob_sized a" "blob_sized b" using two_secrets [OF assms] by blast
  have "length (rp_config p) = 116" using assms by (simp add: payload_sized_def CONFIG_SIZE_def)
  with ab show ?thesis
    by (simp add: payload_of_image_def payload_image_def config_sizes blob_of_image_image)
qed

lemma payload_image_of_image:
  assumes "length bs = 316"
  shows "payload_image (payload_of_image bs) = bs" "payload_sized (payload_of_image bs)"
proof -
  have "payload_image (payload_of_image bs) = take 116 bs @ take 100 (drop 116 bs) @ take 100 (drop 216 bs)"
    using assms by (simp add: payload_image_def payload_of_image_def config_sizes blob_image_of_image)
  also have "\<dots> = take 316 bs"
    unfolding append_assoc [symmetric] by (simp add: take_add [symmetric])
  finally show "payload_image (payload_of_image bs) = bs" using assms by simp
  show "payload_sized (payload_of_image bs)"
    using assms by (simp add: payload_sized_def payload_of_image_def config_sizes blob_image_of_image)
qed

lemma length_record_image [simp]: "record_sized r \<Longrightarrow> length (record_image r) = 412"
  by (simp add: record_image_def record_sized_def)

lemma record_of_image_image: "record_sized r \<Longrightarrow> record_of_image (record_image r) = r"
  by (simp add: record_of_image_def record_image_def record_sized_def RECORD_HEADER_SIZE_def header_of_image_image
      payload_of_image_image)

lemma record_image_of_image:
  assumes "length bs = 412"
  shows "record_image (record_of_image bs) = bs" "record_sized (record_of_image bs)"
  using assms by (simp_all add: record_image_def record_of_image_def record_sized_def RECORD_HEADER_SIZE_def
      header_image_of_image payload_image_of_image)

lemma record_image_inj: "record_sized r \<Longrightarrow> record_sized r' \<Longrightarrow> record_image r = record_image r' \<Longrightarrow> r = r'"
  by (metis record_of_image_image)

section \<open>Sealed records\<close>

definition sealed :: "crc32 \<Rightarrow> config_record \<Rightarrow> bool" where
  "sealed crc r \<longleftrightarrow> record_sized r \<and> record_seal crc r = r"

lemma header_prefix_crc [simp]: "header_prefix (h\<lparr>rh_header_crc := x\<rparr>) = header_prefix h"
  by (simp add: header_prefix_def)

lemma seal_idem [simp]: "record_seal crc (record_seal crc r) = record_seal crc r"
  by (simp add: record_seal_def Let_def header_checksum_def header_prefix_def del: put_le.simps)

lemma seal_sized: "record_sized r \<Longrightarrow> record_sized (record_seal crc r)"
  by (simp add: record_sized_def record_seal_def Let_def header_sized_def)

lemma sealed_seal: "record_sized r \<Longrightarrow> sealed crc (record_seal crc r)"
  by (simp add: sealed_def seal_sized)

lemma seal_keeps [simp]:
  "cr_payload (record_seal crc r) = cr_payload r" "rh_revision (cr_header (record_seal crc r)) = rh_revision (cr_header r)"
  "rh_base_revision (cr_header (record_seal crc r)) = rh_base_revision (cr_header r)"
  "rh_transaction_id (cr_header (record_seal crc r)) = rh_transaction_id (cr_header r)"
  by (simp_all add: record_seal_def Let_def)

lemma sealed_fields:
  assumes "sealed crc r"
  shows "rh_magic (cr_header r) = RECORD_MAGIC" "rh_schema_version (cr_header r) = DEVICE_CONFIG_SCHEMA_VERSION"
    "rh_payload_len (cr_header r) = of_nat RECORD_PAYLOAD_SIZE" "record_sized r"
    "rh_header_crc (cr_header r) = header_checksum crc (cr_header r)"
    "rh_payload_crc (cr_header r) = crc (take 316 (payload_image (cr_payload r)))"
proof -
  have "record_seal crc r = r" using assms by (simp add: sealed_def)
  then have h: "cr_header (record_seal crc r) = cr_header r" by simp
  show "rh_magic (cr_header r) = RECORD_MAGIC" "rh_schema_version (cr_header r) = DEVICE_CONFIG_SCHEMA_VERSION"
    "rh_payload_len (cr_header r) = of_nat RECORD_PAYLOAD_SIZE"
    "rh_payload_crc (cr_header r) = crc (take 316 (payload_image (cr_payload r)))"
    by (subst h [symmetric], simp add: record_seal_def Let_def RECORD_PAYLOAD_SIZE_def)+
  have "rh_header_crc (cr_header (record_seal crc r)) = header_checksum crc (cr_header (record_seal crc r))"
    by (simp add: record_seal_def Let_def header_checksum_def)
  then show "rh_header_crc (cr_header r) = header_checksum crc (cr_header r)" unfolding h .
  show "record_sized r" using assms by (simp add: sealed_def)
qed

lemma payload_len_val: "unat (of_nat RECORD_PAYLOAD_SIZE :: u32) = 316"
  by (simp add: RECORD_PAYLOAD_SIZE_def)

lemma sealed_valid: "sealed crc r \<Longrightarrow> record_is_valid crc r 412"
  using sealed_fields [of crc r]
  by (simp add: record_is_valid_def config_sizes)

lemma migrate_current: "rh_schema_version (cr_header r) = DEVICE_CONFIG_SCHEMA_VERSION \<Longrightarrow> migrate_record r = (None, r)"
  by (simp add: migrate_record_def)

lemma migrate_ok:
  assumes "migrate_record r = (None, r')"
  shows "r' = r" "rh_schema_version (cr_header r) = DEVICE_CONFIG_SCHEMA_VERSION"
proof -
  let ?v = "rh_schema_version (cr_header r)"
  have "?v = 1"
  proof (rule ccontr)
    assume n: "?v \<noteq> 1"
    show False
    proof (cases "(1 :: u16) < ?v")
      case True
      with assms show False by (simp add: migrate_record_def DEVICE_CONFIG_SCHEMA_VERSION_def)
    next
      case False
      then have "unat ?v \<le> 1" by (simp add: not_less word_le_nat_alt)
      moreover have "unat ?v \<noteq> unat (1 :: u16)" using n unsigned_word_eqI by blast
      ultimately have "unat ?v = 0" by simp
      then have "?v = 0" by (simp only: unat_eq_zero)
      with assms show False
        by (simp add: migrate_record_def DEVICE_CONFIG_SCHEMA_VERSION_def migrations_def)
    qed
  qed
  then show v: "?v = DEVICE_CONFIG_SCHEMA_VERSION" by (simp add: DEVICE_CONFIG_SCHEMA_VERSION_def)
  from migrate_current [OF this] assms show "r' = r" by simp
qed

text \<open>Reading a sealed record gives it back; what reads well with a full payload is what was read.\<close>

lemma judge_sealed:
  assumes "sealed crc r" "length buf = 412"
  shows "judge_read crc buf (Inr (record_image r)) = (None, r)"
  using assms sealed_fields(2,4) [OF assms(1)] sealed_valid [OF assms(1)]
  by (simp add: judge_read_def record_of_image_image migrate_current)

lemma judge_full:
  assumes "judge_read crc buf (Inr bs) = (None, r)" "length bs \<le> 412" "length buf = 412"
    and "rh_payload_len (cr_header r) = of_nat RECORD_PAYLOAD_SIZE"
  shows "record_image r = bs" "record_sized r"
proof -
  let ?r = "record_of_image (bs @ drop (length bs) buf)"
  have len: "length (bs @ drop (length bs) buf) = 412" using assms(2,3) by simp
  from assms(1) have v: "record_is_valid crc ?r (length bs)" and m: "migrate_record ?r = (None, r)"
    by (auto simp: judge_read_def Let_def split: if_splits)
  from migrate_ok(1) [OF m] have r: "r = ?r" .
  from v assms(4) have "412 \<le> length bs" unfolding r by (simp add: record_is_valid_def config_sizes split: if_splits)
  with assms(2) have "length bs = 412" by simp
  with record_image_of_image [OF len] assms(3) show "record_image r = bs" "record_sized r" unfolding r by simp_all
qed

section \<open>Storage that may fail\<close>

text \<open>What a slot holds, and what an honest read of it gives.\<close>

datatype slot_contents = Absent | Holds "byte list" | Unreadable errno

definition told :: "slot_contents \<Rightarrow> nat \<Rightarrow> errno + byte list" where
  "told c cap = (case c of Absent \<Rightarrow> Inl ENOENT | Holds bs \<Rightarrow> if length bs \<le> cap then Inr bs else Inl EIO
     | Unreadable e \<Rightarrow> Inl e)"

text \<open>Contents that no read accepts, whatever the reader's buffer held before.\<close>

definition torn :: "crc32 \<Rightarrow> slot_contents \<Rightarrow> bool" where
  "torn crc c \<longleftrightarrow> (\<forall>buf. length buf = 412 \<longrightarrow> fst (judge_read crc buf (told c 412)) \<noteq> None)"

text \<open>
  The contract of the back end: a read changes nothing and is honest while the power is on; a write leaves the
  slot as it was, with the new bytes, or torn, and says nothing reliable about which; an erase likewise. Nothing
  touches another slot. Failure at any moment is allowed, so a loss of power is one such behaviour.
\<close>

locale slot_storage =
  fixes crc :: crc32
    and be :: "'w device_config_backend"
    and contents :: "'w \<Rightarrow> nat \<Rightarrow> slot_contents"
    and up :: "'w \<Rightarrow> bool"
  assumes read_keeps: "be_read be s cap w = (r, w') \<Longrightarrow> contents w' = contents w \<and> (up w \<longrightarrow> up w')"
    and read_tells: "be_read be s cap w = (r, w') \<Longrightarrow> r = told (contents w s) cap \<or> (\<not> up w \<and> (\<exists>e. r = Inl e))"
    and write_lands: "be_write be s bs w = (rc, w') \<Longrightarrow>
      \<exists>c. contents w' = (contents w)(s := c) \<and> (c = contents w s \<or> c = Holds bs \<or> torn crc c)"
    and erase_lands: "be_erase be s w = (rc, w') \<Longrightarrow>
      \<exists>c. contents w' = (contents w)(s := c) \<and> (c = contents w s \<or> c = Absent \<or> torn crc c)"

fun slot_record :: "crc32 \<Rightarrow> slot_contents \<Rightarrow> config_record option \<Rightarrow> bool" where
  "slot_record crc c (Some r) = (c = Holds (record_image r) \<and> sealed crc r)"
| "slot_record crc c None = torn crc c"

lemma slot_record_judge:
  assumes "slot_record crc c x" "length buf = 412"
  shows "case x of Some r \<Rightarrow> judge_read crc buf (told c 412) = (None, r)
    | None \<Rightarrow> fst (judge_read crc buf (told c 412)) \<noteq> None"
  using assms judge_sealed [of crc _ buf] sealed_fields(4)
  by (cases x) (auto simp: told_def torn_def)

lemma torn_absent [simp]: "torn crc Absent"
  by (simp add: torn_def told_def judge_read_def)

section \<open>Which generation is in force\<close>

definition default_record :: "crc32 \<Rightarrow> config_record" where
  "default_record crc = record_seal crc record_set_defaults"

abbreviation rev_of :: "config_record \<Rightarrow> nat" where
  "rev_of r \<equiv> unat (rh_revision (cr_header r))"

fun chosen :: "crc32 \<Rightarrow> config_record option \<Rightarrow> config_record option \<Rightarrow> config_record" where
  "chosen crc None None = default_record crc"
| "chosen crc (Some a) None = a"
| "chosen crc None (Some b) = b"
| "chosen crc (Some a) (Some b) = (if rev_of b \<le> rev_of a then a else b)"

text \<open>The committed slots hold \<open>a\<close> and \<open>b\<close>, generations of odd and of even revision.\<close>

definition slots_hold :: "crc32 \<Rightarrow> (nat \<Rightarrow> slot_contents) \<Rightarrow> config_record option \<Rightarrow> config_record option \<Rightarrow> bool" where
  "slots_hold crc c a b \<longleftrightarrow> slot_record crc (c DEVICE_CONFIG_SLOT_COMMITTED_A) a \<and>
     slot_record crc (c DEVICE_CONFIG_SLOT_COMMITTED_B) b \<and>
     (\<forall>r. a = Some r \<longrightarrow> odd (rev_of r)) \<and> (\<forall>r. b = Some r \<longrightarrow> even (rev_of r) \<and> 0 < rev_of r)"

definition in_force :: "crc32 \<Rightarrow> (nat \<Rightarrow> slot_contents) \<Rightarrow> config_record \<Rightarrow> bool" where
  "in_force crc c R \<longleftrightarrow> (\<exists>a b. slots_hold crc c a b \<and> R = chosen crc a b)"

text \<open>The generation \<open>R\<close> is safe: the slot it lives in holds it, and the other slot holds at most its successor.\<close>

definition lives_in :: "crc32 \<Rightarrow> config_record \<Rightarrow> config_record option \<Rightarrow> config_record option \<Rightarrow> bool" where
  "lives_in crc R a b \<longleftrightarrow>
     (if rev_of R = 0 then R = default_record crc \<and> b = None \<and> (\<forall>r. a = Some r \<longrightarrow> rev_of r = 1)
      else if odd (rev_of R) then a = Some R \<and> (\<forall>r. b = Some r \<longrightarrow> rev_of r \<le> rev_of R + 1)
      else b = Some R \<and> (\<forall>r. a = Some r \<longrightarrow> rev_of r \<le> rev_of R + 1))"

lemma default_revision: "rh_revision (cr_header (default_record crc)) = 0"
  by (simp add: default_record_def record_set_defaults_def)

lemma lives_cases:
  assumes "lives_in crc R a b"
  obtains (default) "R = default_record crc" "b = None" "\<forall>r. a = Some r \<longrightarrow> rev_of r = 1" "rev_of R = 0"
    | (in_a) "odd (rev_of R)" "a = Some R" "\<forall>r. b = Some r \<longrightarrow> rev_of r \<le> rev_of R + 1"
    | (in_b) "even (rev_of R)" "0 < rev_of R" "b = Some R" "\<forall>r. a = Some r \<longrightarrow> rev_of r \<le> rev_of R + 1"
  using assms unfolding lives_in_def by (auto split: if_splits)

lemma chosen_lives:
  assumes "slots_hold crc c a b" "lives_in crc R a b"
  shows "lives_in crc (chosen crc a b) a b \<and> (chosen crc a b = R \<or> rev_of (chosen crc a b) = rev_of R + 1)"
proof -
  have par: "\<And>r. a = Some r \<Longrightarrow> odd (rev_of r)" "\<And>r. b = Some r \<Longrightarrow> even (rev_of r) \<and> 0 < rev_of r"
    using assms(1) by (auto simp: slots_hold_def)
  from assms(2) show ?thesis
  proof (cases rule: lives_cases)
    case default
    then show ?thesis by (cases a) (auto simp: lives_in_def default_revision)
  next
    case in_a
    show ?thesis
    proof (cases b)
      case None
      with in_a assms(2) show ?thesis by simp
    next
      case (Some y)
      with par(2) in_a have "even (rev_of y)" "0 < rev_of y" "rev_of y \<le> rev_of R + 1" by auto
      with in_a(1,2) Some show ?thesis
        by (cases "rev_of y \<le> rev_of R") (auto simp: lives_in_def)
    qed
  next
    case in_b
    show ?thesis
    proof (cases a)
      case None
      with in_b assms(2) show ?thesis by simp
    next
      case (Some x)
      with par(1) in_b have "odd (rev_of x)" "rev_of x \<le> rev_of R + 1" by auto
      moreover from this(1) in_b(1) have "rev_of x \<noteq> rev_of R" by auto
      ultimately have "rev_of x < rev_of R \<or> rev_of x = rev_of R + 1" by linarith
      with in_b(1-3) Some show ?thesis
        by (cases "rev_of R \<le> rev_of x") (auto simp: lives_in_def)
    qed
  qed
qed

text \<open>Writing the successor of \<open>R\<close> into the slot \<open>R\<close> does not live in.\<close>

lemma slot_of_lives:
  assumes "lives_in crc R a b"
  shows "inactive_committed_slot R = (if even (rev_of R) then DEVICE_CONFIG_SLOT_COMMITTED_A else DEVICE_CONFIG_SLOT_COMMITTED_B)"
proof -
  have "rh_revision (cr_header R) mod 2 = 0 \<longleftrightarrow> unat (rh_revision (cr_header R) mod 2) = 0"
    by (simp only: unat_eq_zero)
  also have "\<dots> \<longleftrightarrow> even (rev_of R)" by (simp add: unat_mod even_iff_mod_2_eq_zero)
  finally show ?thesis by (simp add: inactive_committed_slot_def)
qed

lemma write_successor:
  assumes h: "slots_hold crc c a b" "lives_in crc R a b" and N: "sealed crc N" "rev_of N = rev_of R + 1"
    and x: "x = c (inactive_committed_slot R) \<or> x = Holds (record_image N) \<or> torn crc x"
  shows "\<exists>a' b'. slots_hold crc (c(inactive_committed_slot R := x)) a' b' \<and> lives_in crc R a' b' \<and>
    set_option a' \<union> set_option b' \<subseteq> set_option a \<union> set_option b \<union> {N} \<and>
    (x = Holds (record_image N) \<longrightarrow> chosen crc a' b' = N \<and> lives_in crc N a' b')"
proof -
  have hold: "slot_record crc (c 0) a" "slot_record crc (c 1) b" "\<And>r. a = Some r \<Longrightarrow> odd (rev_of r)"
    "\<And>r. b = Some r \<Longrightarrow> even (rev_of r) \<and> 0 < rev_of r"
    using h(1) by (auto simp: slots_hold_def slots)
  obtain y where y: "slot_record crc x y" "y = (if even (rev_of R) then a else b) \<or> y = Some N \<or> y = None"
    "x = Holds (record_image N) \<longrightarrow> y = Some N"
  proof (cases "x = Holds (record_image N)")
    case True
    with N(1) show ?thesis by (intro that [of "Some N"]) auto
  next
    case False
    with x have "x = c (inactive_committed_slot R) \<or> torn crc x" by simp
    then show ?thesis
    proof
      assume "torn crc x" with False show ?thesis by (intro that [of None]) auto
    next
      assume "x = c (inactive_committed_slot R)"
      with False hold(1,2) show ?thesis
        by (intro that [of "if even (rev_of R) then a else b"]) (auto simp: slot_of_lives [OF h(2)] slots)
    qed
  qed
  show ?thesis
  proof (cases "even (rev_of R)")
    case True
    have slot: "inactive_committed_slot R = 0" using slot_of_lives [OF h(2)] True by (simp add: slots)
    have "slots_hold crc (c(inactive_committed_slot R := x)) y b"
      using y hold N(2) True by (auto simp: slots_hold_def slots slot)
    moreover have "lives_in crc R y b"
      using h(2) y(2) True N(2) unfolding lives_in_def by (auto split: if_splits)
    moreover have "chosen crc (Some N) b = N \<and> lives_in crc N (Some N) b"
      using h(2) N(2) True by (cases b) (auto simp: lives_in_def split: if_splits)
    moreover have "set_option y \<union> set_option b \<subseteq> set_option a \<union> set_option b \<union> {N}" using y(2) True by auto
    ultimately show ?thesis using y(3) by (intro exI [of _ y] exI [of _ b]) auto
  next
    case False
    have slot: "inactive_committed_slot R = 1" using slot_of_lives [OF h(2)] False by (simp add: slots)
    have "slots_hold crc (c(inactive_committed_slot R := x)) a y"
      using y hold N(2) False by (auto simp: slots_hold_def slots slot)
    moreover have "lives_in crc R a y"
      using h(2) y(2) False N(2) unfolding lives_in_def by (auto split: if_splits)
    moreover have "chosen crc a (Some N) = N \<and> lives_in crc N a (Some N)"
      using h(2) N(2) False by (cases a) (auto simp: lives_in_def split: if_splits)
    moreover have "set_option a \<union> set_option y \<subseteq> set_option a \<union> set_option b \<union> {N}" using y(2) False by auto
    ultimately show ?thesis using y(3) by (intro exI [of _ a] exI [of _ y]) auto
  qed
qed

section \<open>Generations\<close>

lemma zeroed_record_sized: "record_sized zeroed_record"
  unfolding zeroed_record_def by (rule record_image_of_image) (simp add: config_sizes)

lemma length_defaults: "length device_config_defaults = CONFIG_SIZE"
  by (simp add: device_config_defaults_def)

lemma sealed_default: "sealed crc (default_record crc)"
  unfolding default_record_def
  by (rule sealed_seal)
    (use zeroed_record_sized in \<open>simp add: record_set_defaults_def record_sized_def header_sized_def payload_sized_def
      length_defaults\<close>)

lemma length_txn_field: "length (txn_field s) = 65"
  by (simp add: txn_field_def DEVICE_CONFIG_TXN_ID_MAX_LEN_def)

lemma zero_blob_sized: "blob_sized zero_blob"
  by (simp add: zero_blob_def blob_sized_def)

lemma put_blob_sized: "record_sized r \<Longrightarrow> blob_sized b \<Longrightarrow> record_sized (put_blob i b r)"
  by (cases "i < length (rp_secrets (cr_payload r))")
    (auto simp: put_blob_def record_sized_def payload_sized_def list_all_length nth_list_update list_update_beyond)

lemma apply_secret_sized:
  assumes "record_sized committed" "record_sized r" "i < DEVICE_CONFIG_SECRET_COUNT"
    "apply_secret_update committed r i u = Inr r'"
  shows "record_sized r' \<and> cr_header r' = cr_header r \<and> rp_config (cr_payload r') = rp_config (cr_payload r)"
proof -
  have k: "blob_sized (rp_secrets (cr_payload committed) ! i)"
    using assms(1,3) by (simp add: record_sized_def payload_sized_def list_all_length)
  have rep: "blob_sized (zero_blob\<lparr>sb_data := take n v @ drop (min (length v) n) (sb_data zero_blob), sb_len := l\<rparr>)"
    if "n \<le> DEVICE_CONFIG_SECRET_MAX_LEN" for n v l
    using that by (simp add: blob_sized_def zero_blob_def min_def)
  have h: "cr_header (put_blob i b r) = cr_header r" "rp_config (cr_payload (put_blob i b r)) = rp_config (cr_payload r)" for b
    by (simp_all add: put_blob_def)
  from assms(4) show ?thesis
    unfolding apply_secret_update_def
    by (auto simp: h not_le intro!: put_blob_sized assms(2) k zero_blob_sized rep
        split: device_config_secret_action.splits option.splits if_splits)
qed

lemma apply_secret_secrets:
  assumes "apply_secret_update committed r i u = Inr r'"
  shows "\<exists>b. rp_secrets (cr_payload r') = (rp_secrets (cr_payload r))[i := b]"
  using assms unfolding apply_secret_update_def put_blob_def
  by (auto split: device_config_secret_action.splits option.splits if_splits)

lemma derive_flags_sized: "record_sized r \<Longrightarrow> record_sized (record_derive_flags r)"
  by (simp add: record_sized_def record_derive_flags_def Let_def payload_sized_def)

lemma secrets_list: "[0..<DEVICE_CONFIG_SECRET_COUNT] = [0, 1]"
  by (simp add: DEVICE_CONFIG_SECRET_COUNT_def upt_rec)

lemma next_generation_steps:
  assumes "next_generation crc committed u base txn = Inr N" "record_sized committed" "length (du_config u) = CONFIG_SIZE"
  obtains start r1 r2 where
    "start = zeroed_record\<lparr>cr_payload := (cr_payload zeroed_record)\<lparr>rp_config := du_config u\<rparr>,
         cr_header := (cr_header zeroed_record)\<lparr>rh_revision := rh_revision (cr_header committed) + 1,
            rh_base_revision := base, rh_transaction_id := txn_field (bytes_of txn)\<rparr>\<rparr>"
    "record_sized start" "apply_secret_update committed start 0 (du_secrets u ! 0) = Inr r1"
    "apply_secret_update committed r1 1 (du_secrets u ! 1) = Inr r2" "record_sized r1" "record_sized r2"
    "N = record_seal crc (record_derive_flags r2)"
proof -
  let ?start = "zeroed_record\<lparr>cr_payload := (cr_payload zeroed_record)\<lparr>rp_config := du_config u\<rparr>,
         cr_header := (cr_header zeroed_record)\<lparr>rh_revision := rh_revision (cr_header committed) + 1,
            rh_base_revision := base, rh_transaction_id := txn_field (bytes_of txn)\<rparr>\<rparr>"
  have start: "record_sized ?start"
    using zeroed_record_sized assms(3)
    by (simp add: record_sized_def header_sized_def payload_sized_def length_txn_field DEVICE_CONFIG_TXN_ID_MAX_LEN_def)
  from assms(1) obtain r1 r2 where r: "apply_secret_update committed ?start 0 (du_secrets u ! 0) = Inr r1"
    "apply_secret_update committed r1 1 (du_secrets u ! 1) = Inr r2" "N = record_seal crc (record_derive_flags r2)"
    unfolding next_generation_def Let_def secrets_list by (auto simp: ebind_Inr_iff)
  have s1: "record_sized r1"
    using apply_secret_sized [OF assms(2) start _ r(1)] by (simp add: DEVICE_CONFIG_SECRET_COUNT_def)
  have "record_sized r2"
    using apply_secret_sized [OF assms(2) s1 _ r(2)] by (simp add: DEVICE_CONFIG_SECRET_COUNT_def)
  with that [OF refl start r(1,2) s1 _ r(3)] show thesis .
qed

lemma next_generation_sealed:
  assumes "next_generation crc committed u base txn = Inr N" "record_sized committed" "length (du_config u) = CONFIG_SIZE"
  shows "sealed crc N" "rh_revision (cr_header N) = rh_revision (cr_header committed) + 1"
proof -
  obtain start r1 r2 where s: "start = zeroed_record\<lparr>cr_payload := (cr_payload zeroed_record)\<lparr>rp_config := du_config u\<rparr>,
         cr_header := (cr_header zeroed_record)\<lparr>rh_revision := rh_revision (cr_header committed) + 1,
            rh_base_revision := base, rh_transaction_id := txn_field (bytes_of txn)\<rparr>\<rparr>"
    "record_sized start" "apply_secret_update committed start 0 (du_secrets u ! 0) = Inr r1"
    "apply_secret_update committed r1 1 (du_secrets u ! 1) = Inr r2" "record_sized r1" "record_sized r2"
    "N = record_seal crc (record_derive_flags r2)"
    by (rule next_generation_steps [OF assms])
  show "sealed crc N" unfolding s(7) by (rule sealed_seal [OF derive_flags_sized [OF s(6)]])
  have "cr_header r1 = cr_header start" "cr_header r2 = cr_header r1"
    using apply_secret_sized [OF assms(2) s(2) _ s(3)] apply_secret_sized [OF assms(2) s(5) _ s(4)]
    by (simp_all add: DEVICE_CONFIG_SECRET_COUNT_def)
  then show "rh_revision (cr_header N) = rh_revision (cr_header committed) + 1"
    unfolding s(7) by (simp add: record_derive_flags_def Let_def s(1))
qed

lemma revision_Suc: "r \<noteq> (- 1 :: u32) \<Longrightarrow> unat (r + 1) = unat r + 1"
proof -
  assume "r \<noteq> - 1"
  then have "r + 1 \<noteq> 0" by (metis add_eq_0_iff2)
  then show ?thesis by (simp add: unatSuc [of r] add.commute)
qed

text \<open>The system: the store, and every generation it was ever given.\<close>

definition generation_ok :: "crc32 \<Rightarrow> 'w device_store \<Rightarrow> config_record list \<Rightarrow> bool" where
  "generation_ok crc st H \<longleftrightarrow> list_all (sealed crc) H \<and>
     (ds_committed st = default_record crc \<or> ds_committed st \<in> set H) \<and>
     (ds_pending_present st \<longrightarrow> ds_pending st \<in> set H \<and> rev_of (ds_pending st) = rev_of (ds_committed st) + 1)"

definition store_safe ::
    "crc32 \<Rightarrow> 'w device_config_backend \<Rightarrow> ('w \<Rightarrow> nat \<Rightarrow> slot_contents) \<Rightarrow> 'w device_store \<times> config_record list \<Rightarrow> bool" where
  "store_safe crc be contents sys \<longleftrightarrow> (case sys of (st, H) \<Rightarrow>
     ds_backend st = Some be \<and> ds_initialised st \<and> generation_ok crc st H \<and>
     (\<exists>a b. slots_hold crc (contents (ds_ctx st)) a b \<and> lives_in crc (ds_committed st) a b \<and>
        set_option a \<union> set_option b \<subseteq> set H))"

section \<open>The operations on storage that may fail\<close>

lemma slots_hold_pending [simp]:
  "slots_hold crc (c(DEVICE_CONFIG_SLOT_PENDING := x)) a b = slots_hold crc c a b"
  by (simp add: slots_hold_def slots)

context slot_storage
begin

lemma read_slot_keeps:
  "read_slot crc be s buf w = (e, r, w') \<Longrightarrow> contents w' = contents w \<and> (up w \<longrightarrow> up w')"
  using read_keeps by (fastforce simp: read_slot_def split: prod.splits)

lemma read_slot_up:
  assumes "read_slot crc be s buf w = (e, r, w')" "up w" "slot_record crc (contents w s) x" "length buf = 412"
  shows "case x of Some R \<Rightarrow> e = None \<and> r = R | None \<Rightarrow> e \<noteq> None"
proof -
  obtain res w1 where b: "be_read be s 412 w = (res, w1)" by (cases "be_read be s 412 w")
  from read_tells [OF b] assms(2) have "res = told (contents w s) 412" by blast
  with b assms(1) have "judge_read crc buf (told (contents w s) 412) = (e, r)"
    by (auto simp: read_slot_def config_sizes split: prod.splits)
  with slot_record_judge [OF assms(3,4)] show ?thesis by (auto split: option.splits)
qed

lemma write_slot_lands:
  assumes "write_slot crc be s N w = (rc, w')" "sealed crc N"
  shows "\<exists>x. contents w' = (contents w)(s := x) \<and>
    (x = contents w s \<or> x = Holds (record_image N) \<or> torn crc x) \<and> (rc = None \<longrightarrow> x = Holds (record_image N))"
proof -
  note f = sealed_fields [OF assms(2)]
  have plen: "unat (rh_payload_len (cr_header N)) = 316" unfolding f(3) by (rule payload_len_val)
  have img: "take (RECORD_HEADER_SIZE + 316) (record_image N) = record_image N"
    using f(4) by (simp add: RECORD_HEADER_SIZE_def)
  obtain e w1 where b: "be_write be s (record_image N) w = (e, w1)" by (cases "be_write be s (record_image N) w")
  from write_lands [OF b] obtain x where x: "contents w1 = (contents w)(s := x)"
    "x = contents w s \<or> x = Holds (record_image N) \<or> torn crc x" by blast
  show ?thesis
  proof (cases e)
    case (Some err)
    with assms(1) b have "rc = Some err" "w' = w1" by (simp_all add: write_slot_def Let_def plen img)
    with x show ?thesis by blast
  next
    case None
    let ?zeros = "replicate (RECORD_HEADER_SIZE + RECORD_PAYLOAD_SIZE) (0 :: byte)"
    obtain err v w2 where r: "read_slot crc be s ?zeros w1 = (err, v, w2)" by (metis surj_pair)
    with assms(1) b None have w': "w' = w2" "rc = None \<Longrightarrow> err = None \<and> header_image (cr_header v) = header_image (cr_header N) \<and>
        take 316 (payload_image (cr_payload v)) = take 316 (payload_image (cr_payload N))"
      by (auto simp: write_slot_def Let_def plen img split: if_splits)
    have c2: "contents w2 = (contents w)(s := x)" using read_slot_keeps [OF r] x(1) by simp
    have "x = Holds (record_image N)" if "rc = None"
    proof -
      note ok = w'(2) [OF that]
      obtain res w3 where br: "be_read be s 412 w1 = (res, w3)" by (cases "be_read be s 412 w1")
      with r have j: "judge_read crc ?zeros res = (err, v)"
        by (auto simp: read_slot_def config_sizes split: prod.splits)
      with ok obtain bs where bs: "res = Inr bs" by (cases res) (auto simp: judge_read_def)
      with read_tells [OF br] x(1) have "told x 412 = Inr bs" by simp
      then have xb: "x = Holds bs" "length bs \<le> 412" by (auto simp: told_def split: slot_contents.splits if_splits)
      have j': "judge_read crc ?zeros (Inr bs) = (None, v)" using j bs ok by simp
      have lz: "length ?zeros = 412" by (simp add: config_sizes)
      have vz: "record_sized v"
      proof -
        have "record_sized (record_of_image (bs @ drop (length bs) ?zeros))"
          by (rule record_image_of_image) (use xb lz in simp)
        with j' migrate_ok(1) show ?thesis by (fastforce simp: judge_read_def Let_def split: if_splits)
      qed
      have "cr_header v = cr_header N"
        by (rule header_image_inj) (use ok vz f(4) in \<open>simp_all add: record_sized_def\<close>)
      moreover have "cr_payload v = cr_payload N"
        using ok vz f(4) by (metis record_sized_def length_payload_image order_refl take_all payload_of_image_image)
      ultimately have "v = N" by simp
      with judge_full(1) [OF j' xb(2) lz] f(3) xb(1) show ?thesis by simp
    qed
    with c2 x(2) w'(1) show ?thesis by blast
  qed
qed

end

section \<open>Runs with failures and reboots\<close>

text \<open>What a reboot finds in the memory of three local records is arbitrary, but as long as a record.\<close>

datatype config_op = Begin device_config_update u32 "string option" | Commit "string option"
  | Rollback "string option" | Reboot "byte list" "byte list" "byte list"

definition as_buffer :: "byte list \<Rightarrow> byte list" where
  "as_buffer bs = take 412 (bs @ replicate 412 0)"

lemma length_as_buffer [simp]: "length (as_buffer bs) = 412"
  by (simp add: as_buffer_def)

text \<open>One call on the store; the list collects every generation that was journalled. An update whose
  configuration does not have the size of the structure cannot be passed.\<close>

fun config_step ::
    "crc32 \<Rightarrow> 'w device_config_backend \<Rightarrow> ('w \<Rightarrow> 'w) \<Rightarrow> config_op \<Rightarrow> 'w device_store \<times> config_record list \<Rightarrow>
     'w device_store \<times> config_record list" where
  "config_step crc be power_on (Begin u base txn) (st, H) =
     (if length (du_config u) \<noteq> CONFIG_SIZE then (st, H)
      else case device_config_pending_begin crc (Some u) base txn st of
        (None, st') \<Rightarrow> (st', ds_pending st' # H) | (Some e, st') \<Rightarrow> (st', H))"
| "config_step crc be power_on (Commit txn) (st, H) = (snd (device_config_pending_commit crc txn st), H)"
| "config_step crc be power_on (Rollback txn) (st, H) = (snd (device_config_pending_rollback txn st), H)"
| "config_step crc be power_on (Reboot x y z) (st, H) =
     (snd (snd (device_config_init crc (Some be) (as_buffer x) (as_buffer y) (as_buffer z)
        (st\<lparr>ds_ctx := power_on (ds_ctx st)\<rparr>))), H)"

locale rebootable = slot_storage crc be contents up
  for crc :: crc32 and be :: "'w device_config_backend"
    and contents :: "'w \<Rightarrow> nat \<Rightarrow> slot_contents" and up :: "'w \<Rightarrow> bool" +
  fixes power_on :: "'w \<Rightarrow> 'w"
  assumes power_on_keeps: "contents (power_on w) = contents w"
    and power_on_up: "up (power_on w)"
begin

lemma erase_pending:
  "\<exists>x. contents (snd (be_erase be DEVICE_CONFIG_SLOT_PENDING w)) = (contents w)(DEVICE_CONFIG_SLOT_PENDING := x)"
  using erase_lands [of DEVICE_CONFIG_SLOT_PENDING w "fst (be_erase be DEVICE_CONFIG_SLOT_PENDING w)"
      "snd (be_erase be DEVICE_CONFIG_SLOT_PENDING w)"] by auto

lemma resolve_pending_keeps:
  assumes "resolve_pending crc be buf R report w = (report', w')"
  shows "slots_hold crc (contents w') a b = slots_hold crc (contents w) a b"
proof -
  obtain e p w1 where r: "read_slot crc be DEVICE_CONFIG_SLOT_PENDING buf w = (e, p, w1)" by (metis surj_pair)
  obtain x where x: "contents (snd (be_erase be DEVICE_CONFIG_SLOT_PENDING w1)) =
      (contents w1)(DEVICE_CONFIG_SLOT_PENDING := x)" using erase_pending by blast
  from assms r have "w' = w1 \<or> w' = snd (be_erase be DEVICE_CONFIG_SLOT_PENDING w1)"
    by (auto simp: resolve_pending_def Let_def split: if_splits)
  with read_slot_keeps [OF r] x show ?thesis by auto
qed

text \<open>Loading takes the generation in force.\<close>

lemma init_loads:
  assumes "slots_hold crc (contents (ds_ctx st)) a b" "up (ds_ctx st)"
    and "length x = 412" "length y = 412"
  shows "\<exists>report st'. device_config_init crc (Some be) x y z st = (None, Some report, st') \<and>
    ds_backend st' = Some be \<and> ds_initialised st' \<and> \<not> ds_pending_present st' \<and> ds_committed st' = chosen crc a b \<and>
    rr_revision report = rh_revision (cr_header (chosen crc a b)) \<and>
    slots_hold crc (contents (ds_ctx st')) a b"
proof -
  let ?A = DEVICE_CONFIG_SLOT_COMMITTED_A and ?B = DEVICE_CONFIG_SLOT_COMMITTED_B
  have h: "slot_record crc (contents (ds_ctx st) ?A) a" "slot_record crc (contents (ds_ctx st) ?B) b"
    using assms(1) by (auto simp: slots_hold_def)
  obtain ea ra w1 where r1: "read_slot crc be ?A x (ds_ctx st) = (ea, ra, w1)" by (metis surj_pair)
  note k1 = read_slot_keeps [OF r1] and a = read_slot_up [OF r1 assms(2) h(1) assms(3)]
  obtain eb rb w2 where r2: "read_slot crc be ?B y w1 = (eb, rb, w2)" by (metis surj_pair)
  have h2: "slot_record crc (contents w1 ?B) b" "up w1" using h(2) k1 assms(2) by auto
  note k2 = read_slot_keeps [OF r2] and b = read_slot_up [OF r2 h2(2,1) assms(4)]
  let ?C = "chosen crc a b"
  have "fst (boot_choice crc ea ra eb rb) = ?C"
    using a b by (cases a; cases b)
      (auto simp: boot_choice_def committed_winner_def default_record_def word_le_nat_alt)
  then obtain result where res: "boot_choice crc ea ra eb rb = (?C, result)" by (metis prod.collapse)
  obtain report w3 where p: "resolve_pending crc be z ?C \<lparr>rr_result = result, rr_revision = 0,
      rr_transaction_id = replicate (DEVICE_CONFIG_TXN_ID_MAX_LEN + 1) 0\<rparr> w2 = (report, w3)" by (metis surj_pair)
  have "slots_hold crc (contents w3) a b"
    using resolve_pending_keeps [OF p, of a b] k1 k2 assms(1) by simp
  moreover have "device_config_init crc (Some be) x y z st = (None, Some (report\<lparr>rr_revision := rh_revision (cr_header ?C)\<rparr>),
      \<lparr>ds_backend = Some be, ds_committed = ?C, ds_pending_present = False, ds_pending = zeroed_record,
       ds_initialised = True, ds_ctx = w3\<rparr>)"
    by (simp only: device_config_init_def option.case r1 r2 prod.case res p)
  ultimately show ?thesis by simp
qed

lemma committed_sealed:
  "generation_ok crc st H \<Longrightarrow> sealed crc (ds_committed st)"
  using sealed_default by (auto simp: generation_ok_def list_all_iff)

lemma begin_outcome:
  assumes "store_safe crc be contents (st, H)" "length (du_config u) = CONFIG_SIZE"
    "device_config_pending_begin crc (Some u) base txn st = (rc, st')"
  shows "ds_committed st' = ds_committed st \<and> ds_backend st' = Some be \<and> ds_initialised st' \<and>
    (\<forall>a b. slots_hold crc (contents (ds_ctx st')) a b = slots_hold crc (contents (ds_ctx st)) a b) \<and>
    (if rc = None then ds_pending_present st' \<and> sealed crc (ds_pending st') \<and>
         rev_of (ds_pending st') = rev_of (ds_committed st) + 1 \<and>
         (\<exists>t. txn = Some t \<and> next_generation crc (ds_committed st) u base t = Inr (ds_pending st'))
     else ds_pending_present st' = ds_pending_present st \<and> ds_pending st' = ds_pending st)"
proof -
  have st: "ds_backend st = Some be" "ds_initialised st" "generation_ok crc st H" using assms(1) by (auto simp: store_safe_def)
  note szc = sealed_fields(4) [OF committed_sealed [OF st(3)]]
  show ?thesis
  proof (cases "st' = st \<and> rc \<noteq> None")
    case True
    with st show ?thesis by auto
  next
    case False
    with assms(3) st obtain t N where tn: "txn = Some t" "next_generation crc (ds_committed st) u base t = Inr N"
      "rh_revision (cr_header (ds_committed st)) \<noteq> - 1"
      and res: "(case write_slot crc be DEVICE_CONFIG_SLOT_PENDING N (ds_ctx st) of
          (Some e, w) \<Rightarrow> (Some EIO, st\<lparr>ds_ctx := snd (be_erase be DEVICE_CONFIG_SLOT_PENDING w)\<rparr>)
        | (None, w) \<Rightarrow> (None, st\<lparr>ds_ctx := w, ds_pending := N, ds_pending_present := True\<rparr>)) = (rc, st')"
      unfolding device_config_pending_begin_def by (auto split: option.splits if_splits sum.splits)
    note N = next_generation_sealed [OF tn(2) szc assms(2)]
    obtain e w where w: "write_slot crc be DEVICE_CONFIG_SLOT_PENDING N (ds_ctx st) = (e, w)" by (metis surj_pair)
    from write_slot_lands [OF w N(1)] obtain x where x: "contents w = (contents (ds_ctx st))(DEVICE_CONFIG_SLOT_PENDING := x)"
      by blast
    obtain x' where x': "contents (snd (be_erase be DEVICE_CONFIG_SLOT_PENDING w)) =
      (contents w)(DEVICE_CONFIG_SLOT_PENDING := x')" using erase_pending by blast
    have "rev_of N = rev_of (ds_committed st) + 1" unfolding N(2) by (rule revision_Suc [OF tn(3)])
    with res w x x' st tn N(1) show ?thesis by (cases e) auto
  qed
qed

lemma rollback_outcome:
  assumes "ds_backend st = Some be" "device_config_pending_rollback txn st = (rc, st')"
  shows "ds_committed st' = ds_committed st \<and> ds_backend st' = Some be \<and> ds_initialised st' = ds_initialised st \<and>
    (\<forall>a b. slots_hold crc (contents (ds_ctx st')) a b = slots_hold crc (contents (ds_ctx st)) a b) \<and>
    (ds_pending_present st' \<longrightarrow> ds_pending_present st \<and> ds_pending st' = ds_pending st)"
proof -
  obtain x where x: "contents (snd (be_erase be DEVICE_CONFIG_SLOT_PENDING (ds_ctx st))) =
      (contents (ds_ctx st))(DEVICE_CONFIG_SLOT_PENDING := x)" using erase_pending by blast
  obtain e w where "be_erase be DEVICE_CONFIG_SLOT_PENDING (ds_ctx st) = (e, w)" by (metis surj_pair)
  with assms x show ?thesis
    unfolding device_config_pending_rollback_def by (cases "pending_refused txn st"; cases e) auto
qed

text \<open>A commit, whatever happens to the storage under it.\<close>

lemma commit_outcome:
  assumes "store_safe crc be contents (st, H)" "slots_hold crc (contents (ds_ctx st)) a b" "lives_in crc (ds_committed st) a b"
    "device_config_pending_commit crc txn st = (rc, st')"
  shows "ds_backend st' = Some be \<and> ds_initialised st' \<and>
    (\<exists>a' b'. slots_hold crc (contents (ds_ctx st')) a' b' \<and> lives_in crc (ds_committed st') a' b' \<and>
       set_option a' \<union> set_option b' \<subseteq> set_option a \<union> set_option b \<union> (if pending_refused txn st = None then {ds_pending st} else {}) \<and>
       (rc = None \<longrightarrow> chosen crc a' b' = ds_pending st)) \<and>
    (if rc = None then ds_committed st' = ds_pending st \<and> \<not> ds_pending_present st' \<and> ds_pending_present st
     else ds_committed st' = ds_committed st \<and> ds_pending_present st' = ds_pending_present st \<and> ds_pending st' = ds_pending st)"
proof -
  have st: "ds_backend st = Some be" "ds_initialised st" "generation_ok crc st H" using assms(1) by (auto simp: store_safe_def)
  show ?thesis
  proof (cases "pending_refused txn st")
    case (Some e)
    with assms(4) have "rc = Some e" "st' = st" by (simp_all add: device_config_pending_commit_def)
    with st assms(2,3) show ?thesis by auto
  next
    case None
    then have pp: "ds_pending_present st" by (auto simp: pending_refused_def split: option.splits if_splits)
    let ?N = "ds_pending st" and ?s = "inactive_committed_slot (ds_committed st)"
    have N: "sealed crc ?N" "rev_of ?N = rev_of (ds_committed st) + 1"
      using st(3) pp by (auto simp: generation_ok_def list_all_iff)
    obtain e w where w: "write_slot crc be ?s ?N (ds_ctx st) = (e, w)" by (metis surj_pair)
    from write_slot_lands [OF w N(1)] obtain x where x: "contents w = (contents (ds_ctx st))(?s := x)"
      "x = contents (ds_ctx st) ?s \<or> x = Holds (record_image ?N) \<or> torn crc x" "e = None \<longrightarrow> x = Holds (record_image ?N)"
      by blast
    from write_successor [OF assms(2,3) N x(2)] obtain a' b' where
      ab: "slots_hold crc (contents w) a' b'" "lives_in crc (ds_committed st) a' b'"
        "set_option a' \<union> set_option b' \<subseteq> set_option a \<union> set_option b \<union> {?N}"
        "e = None \<longrightarrow> chosen crc a' b' = ?N \<and> lives_in crc ?N a' b'"
      using x(1,3) by auto
    obtain x' where x': "contents (snd (be_erase be DEVICE_CONFIG_SLOT_PENDING w)) =
      (contents w)(DEVICE_CONFIG_SLOT_PENDING := x')" using erase_pending by blast
    show ?thesis
    proof (cases e)
      case None
      with assms(4) \<open>pending_refused txn st = None\<close> st(1) w have
        r: "rc = None" "st' = st\<lparr>ds_committed := ?N, ds_pending := zeroed_record, ds_pending_present := False,
           ds_ctx := snd (be_erase be DEVICE_CONFIG_SLOT_PENDING w)\<rparr>"
        by (simp_all add: device_config_pending_commit_def)
      have "\<exists>a' b'. slots_hold crc (contents (ds_ctx st')) a' b' \<and> lives_in crc (ds_committed st') a' b' \<and>
         set_option a' \<union> set_option b' \<subseteq> set_option a \<union> set_option b \<union> (if pending_refused txn st = None then {?N} else {}) \<and>
         (rc = None \<longrightarrow> chosen crc a' b' = ?N)"
        by (rule exI [of _ a'], rule exI [of _ b']) (use r ab x' \<open>pending_refused txn st = None\<close> None in auto)
      with r st pp show ?thesis by simp
    next
      case (Some err)
      with assms(4) \<open>pending_refused txn st = None\<close> st(1) w have r: "rc = Some EIO" "st' = st\<lparr>ds_ctx := w\<rparr>"
        by (simp_all add: device_config_pending_commit_def)
      have "\<exists>a' b'. slots_hold crc (contents (ds_ctx st')) a' b' \<and> lives_in crc (ds_committed st') a' b' \<and>
         set_option a' \<union> set_option b' \<subseteq> set_option a \<union> set_option b \<union> (if pending_refused txn st = None then {?N} else {}) \<and>
         (rc = None \<longrightarrow> chosen crc a' b' = ?N)"
        by (rule exI [of _ a'], rule exI [of _ b']) (use r ab x' \<open>pending_refused txn st = None\<close> Some in auto)
      with r st pp show ?thesis by simp
    qed
  qed
qed

end

lemma chosen_max:
  "r \<in> set_option a \<union> set_option b \<Longrightarrow> rev_of r \<le> rev_of (chosen crc a b)"
  by (cases a; cases b) auto

lemma chosen_in: "chosen crc a b = default_record crc \<or> chosen crc a b \<in> set_option a \<union> set_option b"
  by (cases a; cases b) auto

context rebootable
begin

lemma reboot_outcome:
  assumes "store_safe crc be contents (st, H)" "slots_hold crc (contents (ds_ctx st)) a b" "lives_in crc (ds_committed st) a b"
    "set_option a \<union> set_option b \<subseteq> set H"
    and st': "st' = snd (snd (device_config_init crc (Some be) (as_buffer x) (as_buffer y) (as_buffer z)
        (st\<lparr>ds_ctx := power_on (ds_ctx st)\<rparr>)))"
  shows "store_safe crc be contents (st', H) \<and> ds_committed st' = chosen crc a b \<and>
    slots_hold crc (contents (ds_ctx st')) a b \<and> rev_of (ds_committed st) \<le> rev_of (ds_committed st')"
proof -
  have "slots_hold crc (contents (ds_ctx (st\<lparr>ds_ctx := power_on (ds_ctx st)\<rparr>))) a b"
    using assms(2) power_on_keeps by simp
  from init_loads [OF this, of "as_buffer x" "as_buffer y" "as_buffer z"] power_on_up st' have
    s: "ds_backend st' = Some be" "ds_initialised st'" "\<not> ds_pending_present st'" "ds_committed st' = chosen crc a b"
      "slots_hold crc (contents (ds_ctx st')) a b"
    by auto
  note c = chosen_lives [OF assms(2,3)]
  have "list_all (sealed crc) H" using assms(1) by (auto simp: store_safe_def generation_ok_def)
  then have "generation_ok crc st' H" using s(3,4) chosen_in [of crc a b] assms(4) by (auto simp: generation_ok_def)
  with s c assms(4) show ?thesis by (auto simp: store_safe_def)
qed

lemma begin_safe:
  assumes "store_safe crc be contents (st, H)"
  shows "store_safe crc be contents (config_step crc be power_on (Begin u base txn) (st, H)) \<and>
    ds_committed (fst (config_step crc be power_on (Begin u base txn) (st, H))) = ds_committed st"
proof (cases "length (du_config u) = CONFIG_SIZE")
  case False
  with assms show ?thesis by simp
next
  case True
  obtain rc st' where b: "device_config_pending_begin crc (Some u) base txn st = (rc, st')" by (metis surj_pair)
  note o = begin_outcome [OF assms True b]
  show ?thesis
  proof (cases rc)
    case None
    with o assms b True show ?thesis
      unfolding store_safe_def generation_ok_def by (auto simp: list_all_iff)
  next
    case (Some e)
    with o assms b True show ?thesis
      unfolding store_safe_def generation_ok_def by (auto simp: list_all_iff)
  qed
qed

lemma rollback_safe:
  assumes "store_safe crc be contents (st, H)"
  shows "store_safe crc be contents (config_step crc be power_on (Rollback txn) (st, H)) \<and>
    ds_committed (fst (config_step crc be power_on (Rollback txn) (st, H))) = ds_committed st"
proof -
  obtain rc st' where r: "device_config_pending_rollback txn st = (rc, st')" by (metis surj_pair)
  have "ds_backend st = Some be" using assms by (auto simp: store_safe_def)
  from rollback_outcome [OF this r] assms r show ?thesis
    unfolding store_safe_def generation_ok_def by auto
qed

lemma commit_safe:
  assumes "store_safe crc be contents (st, H)"
  shows "store_safe crc be contents (config_step crc be power_on (Commit txn) (st, H)) \<and>
    rev_of (ds_committed st) \<le> rev_of (ds_committed (fst (config_step crc be power_on (Commit txn) (st, H))))"
proof -
  obtain rc st' where r: "device_config_pending_commit crc txn st = (rc, st')" by (metis surj_pair)
  from assms obtain a b where ab: "slots_hold crc (contents (ds_ctx st)) a b" "lives_in crc (ds_committed st) a b"
    "set_option a \<union> set_option b \<subseteq> set H" by (auto simp: store_safe_def)
  note o = commit_outcome [OF assms ab(1,2) r]
  from o obtain a' b' where ab': "slots_hold crc (contents (ds_ctx st')) a' b'" "lives_in crc (ds_committed st') a' b'"
    "set_option a' \<union> set_option b' \<subseteq> set_option a \<union> set_option b \<union> (if pending_refused txn st = None then {ds_pending st} else {})"
    by blast
  have g: "generation_ok crc st H" using assms by (auto simp: store_safe_def)
  have pin: "ds_pending st \<in> set H" if "pending_refused txn st = None"
    using that g by (auto simp: pending_refused_def generation_ok_def split: option.splits if_splits)
  have "set_option a' \<union> set_option b' \<subseteq> set H" using ab(3) ab'(3) pin by (auto split: if_splits)
  moreover have "generation_ok crc st' H"
    using o g by (auto simp: generation_ok_def split: if_splits)
  moreover have "rev_of (ds_committed st) \<le> rev_of (ds_committed st')"
    using o g by (auto simp: generation_ok_def split: if_splits)
  ultimately show ?thesis using o ab' r by (auto simp: store_safe_def)
qed

lemma store_safe_step:
  assumes "store_safe crc be contents sys"
  shows "store_safe crc be contents (config_step crc be power_on x sys) \<and>
    rev_of (ds_committed (fst sys)) \<le> rev_of (ds_committed (fst (config_step crc be power_on x sys)))"
proof (cases sys)
  case (Pair st H)
  note s = assms [unfolded Pair]
  show ?thesis
  proof (cases x)
    case (Begin u base txn)
    with begin_safe [OF s, of u base txn] Pair show ?thesis by simp
  next
    case (Commit txn)
    with commit_safe [OF s, of txn] Pair show ?thesis by simp
  next
    case (Rollback txn)
    with rollback_safe [OF s, of txn] Pair show ?thesis by simp
  next
    case (Reboot p q r)
    from s obtain a b where ab: "slots_hold crc (contents (ds_ctx st)) a b" "lives_in crc (ds_committed st) a b"
      "set_option a \<union> set_option b \<subseteq> set H" by (auto simp: store_safe_def)
    from reboot_outcome [OF s ab refl, of p q r] show ?thesis
      unfolding Pair Reboot config_step.simps fst_conv by blast
  qed
qed

text \<open>A reboot right after a commit, whatever the storage did during it.\<close>

lemma commit_then_reboot:
  assumes s: "store_safe crc be contents (st, H)" "in_force crc (contents (ds_ctx st)) (ds_committed st)"
    and c: "device_config_pending_commit crc txn st = (rc, st1)"
    and i: "device_config_init crc (Some be) (as_buffer x) (as_buffer y) (as_buffer z)
        (st1\<lparr>ds_ctx := power_on (ds_ctx st1)\<rparr>) = (rc2, report, st2)"
  shows "rc2 = None \<and> ds_committed st2 \<in> {ds_committed st, ds_pending st} \<and>
    (rc = None \<longrightarrow> ds_committed st2 = ds_pending st) \<and> in_force crc (contents (ds_ctx st2)) (ds_committed st2)"
proof -
  from s(2) obtain a b where ab: "slots_hold crc (contents (ds_ctx st)) a b" "ds_committed st = chosen crc a b"
    by (auto simp: in_force_def)
  from s(1) obtain a0 b0 where ab0: "slots_hold crc (contents (ds_ctx st)) a0 b0" "lives_in crc (ds_committed st) a0 b0"
    by (auto simp: store_safe_def)
  have same: "x = y" if "slot_record crc c x" "slot_record crc c y" for c x y
  proof -
    have "case x of Some r \<Rightarrow> judge_read crc (as_buffer []) (told c 412) = (None, r)
        | None \<Rightarrow> fst (judge_read crc (as_buffer []) (told c 412)) \<noteq> None"
      "case y of Some r \<Rightarrow> judge_read crc (as_buffer []) (told c 412) = (None, r)
        | None \<Rightarrow> fst (judge_read crc (as_buffer []) (told c 412)) \<noteq> None"
      using slot_record_judge [OF that(1)] slot_record_judge [OF that(2)] by simp_all
    then show ?thesis by (cases x; cases y) auto
  qed
  have "a0 = a" "b0 = b" using ab(1) ab0(1) same by (auto simp: slots_hold_def)
  with ab0 have l: "lives_in crc (ds_committed st) a b" by simp
  note o = commit_outcome [OF s(1) ab(1) l c]
  from o obtain a' b' where ab': "slots_hold crc (contents (ds_ctx st1)) a' b'" "lives_in crc (ds_committed st1) a' b'"
    "set_option a' \<union> set_option b' \<subseteq> set_option a \<union> set_option b \<union> (if pending_refused txn st = None then {ds_pending st} else {})"
    "rc = None \<longrightarrow> chosen crc a' b' = ds_pending st" by blast
  have "slots_hold crc (contents (ds_ctx (st1\<lparr>ds_ctx := power_on (ds_ctx st1)\<rparr>))) a' b'"
    using ab'(1) power_on_keeps by simp
  from init_loads [OF this, of "as_buffer x" "as_buffer y" "as_buffer z"] power_on_up i
  have st2: "rc2 = None" "ds_committed st2 = chosen crc a' b'" "slots_hold crc (contents (ds_ctx st2)) a' b'" by auto
  have "chosen crc a' b' \<in> {ds_committed st, ds_pending st}"
  proof (cases "rc = None")
    case True
    with ab'(4) show ?thesis by simp
  next
    case False
    with o have R: "ds_committed st1 = ds_committed st" by simp
    from chosen_lives [OF ab'(1,2)] R have "chosen crc a' b' = ds_committed st \<or>
      rev_of (chosen crc a' b') = rev_of (ds_committed st) + 1" by simp
    then show ?thesis
    proof
      assume big: "rev_of (chosen crc a' b') = rev_of (ds_committed st) + 1"
      then have "chosen crc a' b' \<noteq> default_record crc" by (auto simp: default_revision)
      with chosen_in [of crc a' b'] ab'(3) have "chosen crc a' b' \<in> set_option a \<union> set_option b \<union> {ds_pending st}"
        by (auto split: if_splits)
      with big chosen_max [of "chosen crc a' b'" a b crc] ab(2) show ?thesis by auto
    qed simp
  qed
  with st2 ab'(4) show ?thesis by (auto simp: in_force_def)
qed

end

sublocale rebootable \<subseteq> generations: op_machine "config_step crc be power_on" "store_safe crc be contents"
  by unfold_locales (use store_safe_step in blast)

context rebootable
begin

lemma run_safe: "store_safe crc be contents sys \<Longrightarrow> store_safe crc be contents (run_ops (config_step crc be power_on) ops sys)"
  by (rule generations.inv_run)

lemma run_keeps_revisions:
  assumes "store_safe crc be contents sys"
  shows "rev_of (ds_committed (fst sys)) \<le> rev_of (ds_committed (fst (run_ops (config_step crc be power_on) ops sys)))"
  by (rule generations.run_preserves [OF assms]) (use store_safe_step le_trans in blast)+

end

section \<open>What a journalled generation contains\<close>

text \<open>The secret that an update asks for, without the store's steps.\<close>

fun wanted_secret :: "secret_blob \<Rightarrow> device_config_secret_update \<Rightarrow> secret_blob" where
  "wanted_secret old u =
     (case su_action u of
        DEVICE_CONFIG_SECRET_CLEAR \<Rightarrow> zero_blob
      | DEVICE_CONFIG_SECRET_REPLACE \<Rightarrow>
          (let v = take (su_len u) (the (su_value u)) in
           \<lparr>sb_len = of_nat (su_len u), sb_reserved = [0, 0],
            sb_data = v @ replicate (DEVICE_CONFIG_SECRET_MAX_LEN - length v) 0\<rparr>)
      | _ \<Rightarrow> old)"

lemma apply_secret_eq:
  assumes "apply_secret_update committed r i u = Inr r'"
  shows "rp_secrets (cr_payload r') = (rp_secrets (cr_payload r))[i := wanted_secret (rp_secrets (cr_payload committed) ! i) u]"
  using assms unfolding apply_secret_update_def
  by (auto simp: put_blob_def zero_blob_def Let_def numeral_2_eq_2
      split: device_config_secret_action.splits option.splits if_splits)

lemma next_generation_contents:
  assumes g: "next_generation crc committed u base txn = Inr N" "record_sized committed" "length (du_config u) = CONFIG_SIZE"
  shows "rp_secrets (cr_payload N) =
      [wanted_secret (rp_secrets (cr_payload committed) ! 0) (du_secrets u ! 0),
       wanted_secret (rp_secrets (cr_payload committed) ! 1) (du_secrets u ! 1)]"
    and "rp_config (cr_payload N) = (du_config u)
      [OFF_WIFI_PASSWORD_SET := if 0 < sb_len (rp_secrets (cr_payload N) ! 0) then 1 else 0,
       OFF_ADMIN_PASSWORD_SET := if 0 < sb_len (rp_secrets (cr_payload N) ! 1) then 1 else 0]"
    and "rh_base_revision (cr_header N) = base \<and> rh_transaction_id (cr_header N) = txn_field (bytes_of txn)"
proof -
  obtain start r1 r2 where s: "start = zeroed_record\<lparr>cr_payload := (cr_payload zeroed_record)\<lparr>rp_config := du_config u\<rparr>,
         cr_header := (cr_header zeroed_record)\<lparr>rh_revision := rh_revision (cr_header committed) + 1,
            rh_base_revision := base, rh_transaction_id := txn_field (bytes_of txn)\<rparr>\<rparr>"
    "record_sized start" "apply_secret_update committed start 0 (du_secrets u ! 0) = Inr r1"
    "apply_secret_update committed r1 1 (du_secrets u ! 1) = Inr r2" "record_sized r1" "record_sized r2"
    "N = record_seal crc (record_derive_flags r2)"
    by (rule next_generation_steps [OF assms])
  have "payload_sized (cr_payload start)" using s(2) by (simp add: record_sized_def)
  then obtain b0 b1 where "rp_secrets (cr_payload start) = [b0, b1]" using two_secrets by blast
  then have sec: "rp_secrets (cr_payload r2) =
      [wanted_secret (rp_secrets (cr_payload committed) ! 0) (du_secrets u ! 0),
       wanted_secret (rp_secrets (cr_payload committed) ! 1) (du_secrets u ! 1)]"
    unfolding apply_secret_eq [OF s(4)] apply_secret_eq [OF s(3)] by simp
  note z1 = apply_secret_sized [OF assms(2) s(2) _ s(3)] and z2 = apply_secret_sized [OF assms(2) s(5) _ s(4)]
  have keep: "cr_header r2 = cr_header start" "rp_config (cr_payload r2) = du_config u"
    using z1 z2 s(1) by (simp_all add: DEVICE_CONFIG_SECRET_COUNT_def)
  have N: "cr_payload N = (cr_payload r2)\<lparr>rp_config := (rp_config (cr_payload r2))
      [OFF_WIFI_PASSWORD_SET := if 0 < sb_len (rp_secrets (cr_payload r2) ! 0) then 1 else 0,
       OFF_ADMIN_PASSWORD_SET := if 0 < sb_len (rp_secrets (cr_payload r2) ! 1) then 1 else 0]\<rparr>"
    unfolding s(7) by (simp add: record_derive_flags_def Let_def DEVICE_CONFIG_SECRET_WIFI_PASSWORD_def
        DEVICE_CONFIG_SECRET_ADMIN_PASSWORD_def)
  show "rp_secrets (cr_payload N) =
      [wanted_secret (rp_secrets (cr_payload committed) ! 0) (du_secrets u ! 0),
       wanted_secret (rp_secrets (cr_payload committed) ! 1) (du_secrets u ! 1)]"
    using sec N by simp
  show "rp_config (cr_payload N) = (du_config u)
      [OFF_WIFI_PASSWORD_SET := if 0 < sb_len (rp_secrets (cr_payload N) ! 0) then 1 else 0,
       OFF_ADMIN_PASSWORD_SET := if 0 < sb_len (rp_secrets (cr_payload N) ! 1) then 1 else 0]"
    using keep(2) N by simp
  show "rh_base_revision (cr_header N) = base \<and> rh_transaction_id (cr_header N) = txn_field (bytes_of txn)"
    using keep(1) s(1) unfolding s(7) by (simp add: record_derive_flags_def Let_def)
qed

section \<open>What only a commit can change\<close>

fun is_commit :: "config_op \<Rightarrow> bool" where
  "is_commit (Commit txn) = True"
| "is_commit _ = False"

definition settled ::
    "crc32 \<Rightarrow> 'w device_config_backend \<Rightarrow> ('w \<Rightarrow> nat \<Rightarrow> slot_contents) \<Rightarrow> 'w device_store \<times> config_record list \<Rightarrow> bool" where
  "settled crc be contents sys \<longleftrightarrow> store_safe crc be contents sys \<and>
     in_force crc (contents (ds_ctx (fst sys))) (ds_committed (fst sys))"

context rebootable
begin

lemma settled_step:
  assumes "settled crc be contents sys" "\<not> is_commit x"
  shows "settled crc be contents (config_step crc be power_on x sys) \<and>
    ds_committed (fst (config_step crc be power_on x sys)) = ds_committed (fst sys)"
proof -
  obtain st H where sys: "sys = (st, H)" by (cases sys)
  from assms(1) sys have s: "store_safe crc be contents (st, H)" and f: "in_force crc (contents (ds_ctx st)) (ds_committed st)"
    by (simp_all add: settled_def)
  note step = store_safe_step [OF s]
  show ?thesis
  proof (cases x)
    case (Begin u base txn)
    note b = begin_safe [OF s, of u base txn]
    have "\<forall>a b. slots_hold crc (contents (ds_ctx (fst (config_step crc be power_on x (st, H))))) a b =
        slots_hold crc (contents (ds_ctx st)) a b"
    proof (cases "length (du_config u) = CONFIG_SIZE")
      case True
      obtain rc st' where p: "device_config_pending_begin crc (Some u) base txn st = (rc, st')" by (metis surj_pair)
      from begin_outcome [OF s True p] p True Begin show ?thesis by (cases rc) auto
    qed (simp add: Begin)
    with b f show ?thesis unfolding settled_def in_force_def sys Begin by simp
  next
    case (Rollback txn)
    note b = rollback_safe [OF s, of txn]
    obtain rc st' where p: "device_config_pending_rollback txn st = (rc, st')" by (metis surj_pair)
    have "ds_backend st = Some be" using s by (auto simp: store_safe_def)
    from rollback_outcome [OF this p] p Rollback
    have "\<forall>a b. slots_hold crc (contents (ds_ctx (fst (config_step crc be power_on x (st, H))))) a b =
        slots_hold crc (contents (ds_ctx st)) a b" by simp
    with b f show ?thesis unfolding settled_def in_force_def sys Rollback by simp
  next
    case (Reboot p q r)
    from f obtain a b where ab: "slots_hold crc (contents (ds_ctx st)) a b" "ds_committed st = chosen crc a b"
      by (auto simp: in_force_def)
    have "slots_hold crc (contents (ds_ctx (st\<lparr>ds_ctx := power_on (ds_ctx st)\<rparr>))) a b"
      using ab(1) power_on_keeps by simp
    from init_loads [OF this, of "as_buffer p" "as_buffer q" "as_buffer r"] power_on_up
    have "ds_committed (fst (config_step crc be power_on x (st, H))) = chosen crc a b \<and>
      slots_hold crc (contents (ds_ctx (fst (config_step crc be power_on x (st, H))))) a b"
      unfolding Reboot by auto
    with step [of x] ab(2) sys show ?thesis by (auto simp: settled_def in_force_def)
  next
    case (Commit txn)
    with assms(2) show ?thesis by simp
  qed
qed

lemma settled_run:
  "settled crc be contents sys \<Longrightarrow> list_all (\<lambda>x. \<not> is_commit x) ops \<Longrightarrow>
   settled crc be contents (run_ops (config_step crc be power_on) ops sys) \<and>
   ds_committed (fst (run_ops (config_step crc be power_on) ops sys)) = ds_committed (fst sys)"
proof (induction ops arbitrary: sys)
  case (Cons x ops)
  then have "settled crc be contents (config_step crc be power_on x sys)"
    "ds_committed (fst (config_step crc be power_on x sys)) = ds_committed (fst sys)"
    using settled_step [of sys x] by simp_all
  with Cons show ?case by simp
qed simp

text \<open>A device with nothing readable in its committed slots comes up settled on the defaults.\<close>

lemma blank_start:
  assumes "torn crc (contents w DEVICE_CONFIG_SLOT_COMMITTED_A)" "torn crc (contents w DEVICE_CONFIG_SLOT_COMMITTED_B)"
    "up w" "ds_ctx st = w"
    and st': "st' = snd (snd (device_config_init crc (Some be) (as_buffer x) (as_buffer y) (as_buffer z) st))"
  shows "settled crc be contents (st', []) \<and> ds_committed st' = default_record crc \<and> \<not> ds_pending_present st'"
proof -
  have "slots_hold crc (contents (ds_ctx st)) None None" using assms(1,2,4) by (simp add: slots_hold_def)
  from init_loads [OF this, of "as_buffer x" "as_buffer y" "as_buffer z"] assms(3,4) st'
  have s: "ds_backend st' = Some be" "ds_initialised st'" "\<not> ds_pending_present st'" "ds_committed st' = default_record crc"
    "slots_hold crc (contents (ds_ctx st')) None None" by auto
  have "in_force crc (contents (ds_ctx st')) (ds_committed st')"
    unfolding in_force_def using s(4,5) by (intro exI [of _ None]) simp
  moreover have "lives_in crc (default_record crc) None None" by (simp add: lives_in_def default_revision)
  ultimately show ?thesis using s by (auto simp: settled_def store_safe_def generation_ok_def)
qed

end

end
