(* ===== verification/Netcfg_Store.thy ===== *)
theory Netcfg_Store
  imports Device_Config_Recovery
begin

text \<open>
  Model of \<^verbatim>\<open>src/services/network/netcfg_store.c\<close>: the three slots of the device configuration store as
  fixed-size values of a key-value store, and the proof that it keeps the back end's contract.
\<close>

section \<open>Slots as fixed-size values\<close>

definition NETCFG_RECORD_BYTES :: nat where "NETCFG_RECORD_BYTES = 512"
definition LENGTH_BYTES :: nat where "LENGTH_BYTES = 2"

text \<open>The injected store: a value of exactly so many bytes, or an error.\<close>

record 'w netcfg_kv =
  kv_get :: "string \<Rightarrow> nat \<Rightarrow> 'w \<Rightarrow> (errno + byte list) \<times> 'w"
  kv_set :: "string \<Rightarrow> byte list \<Rightarrow> 'w \<Rightarrow> errno option \<times> 'w"

definition netcfg_slot_keys :: "string list" where
  "netcfg_slot_keys = [''net/config_a'', ''net/config_b'', ''net/config_pending'']"

definition slot_read :: "'w netcfg_kv \<Rightarrow> nat \<Rightarrow> nat \<Rightarrow> 'w \<Rightarrow> (errno + byte list) \<times> 'w" where
  "slot_read kv slot cap w =
     (if DEVICE_CONFIG_SLOT_COUNT \<le> slot then (Inl EINVAL, w)
      else (case kv_get kv (netcfg_slot_keys ! slot) NETCFG_RECORD_BYTES w of
        (Inl rc, w') \<Rightarrow> (Inl rc, w')
      | (Inr blob, w') \<Rightarrow>
          let len = unat (blob ! 0) OR push_bit 8 (unat (blob ! 1)) in
          if len = 0 then (Inl ENOENT, w')
          else if NETCFG_RECORD_BYTES - LENGTH_BYTES < len \<or> cap < len then (Inl EIO, w')
          else (Inr (take len (drop LENGTH_BYTES blob)), w')))"

definition slot_write :: "'w netcfg_kv \<Rightarrow> nat \<Rightarrow> byte list \<Rightarrow> 'w \<Rightarrow> errno option \<times> 'w" where
  "slot_write kv slot buf w =
     (let len = length buf in
      if DEVICE_CONFIG_SLOT_COUNT \<le> slot \<or> len = 0 then (Some EINVAL, w)
      else if NETCFG_RECORD_BYTES - LENGTH_BYTES < len then (Some ENOSPC, w)
      else kv_set kv (netcfg_slot_keys ! slot)
        ([of_nat (len AND 0xFF), of_nat (drop_bit 8 len)] @ buf @
         replicate (NETCFG_RECORD_BYTES - LENGTH_BYTES - len) 0) w)"

definition slot_erase :: "'w netcfg_kv \<Rightarrow> nat \<Rightarrow> 'w \<Rightarrow> errno option \<times> 'w" where
  "slot_erase kv slot w =
     (if DEVICE_CONFIG_SLOT_COUNT \<le> slot then (Some EINVAL, w)
      else kv_set kv (netcfg_slot_keys ! slot) (replicate NETCFG_RECORD_BYTES 0) w)"

definition netcfg_store_bind :: "'w netcfg_kv \<Rightarrow> 'w device_config_backend" where
  "netcfg_store_bind kv = \<lparr>be_read = slot_read kv, be_write = slot_write kv, be_erase = slot_erase kv\<rparr>"

section \<open>The slot in a value\<close>

definition slot_in :: "errno + byte list \<Rightarrow> slot_contents" where
  "slot_in v = (case v of Inl e \<Rightarrow> Unreadable e
     | Inr blob \<Rightarrow> let len = unat (blob ! 0) OR push_bit 8 (unat (blob ! 1)) in
         if len = 0 then Absent else if NETCFG_RECORD_BYTES - LENGTH_BYTES < len then Unreadable EIO
         else Holds (take len (drop LENGTH_BYTES blob)))"

definition netcfg_contents :: "('w \<Rightarrow> string \<Rightarrow> errno + byte list) \<Rightarrow> 'w \<Rightarrow> nat \<Rightarrow> slot_contents" where
  "netcfg_contents val w slot =
     (if DEVICE_CONFIG_SLOT_COUNT \<le> slot then Unreadable EINVAL else slot_in (val w (netcfg_slot_keys ! slot)))"

lemma length_field:
  assumes "len < 65536"
  shows "unat (of_nat (len AND 0xFF) :: byte) OR push_bit 8 (unat (of_nat (drop_bit 8 len) :: byte)) = len"
proof -
  have a: "len AND 0xFF = take_bit 8 len" by (simp add: take_bit_eq_mask mask_eq_exp_minus_1)
  have "drop_bit 8 len < 256" using assms by (simp add: drop_bit_eq_div)
  then have b: "unat (of_nat (drop_bit 8 len) :: byte) = drop_bit 8 len" by (simp add: unat_of_nat_small)
  have c: "unat (of_nat (len AND 0xFF) :: byte) = take_bit 8 len"
    unfolding a by (simp add: unat_of_nat take_bit_eq_mod)
  show ?thesis unfolding b c
  proof (rule bit_eqI)
    fix n
    show "bit (take_bit 8 len OR push_bit 8 (drop_bit 8 len)) n = bit len n"
      by (cases "n < 8") (simp_all add: bit_simps)
  qed
qed

lemma slot_in_blob:
  assumes "0 < length bs" "length bs \<le> NETCFG_RECORD_BYTES - LENGTH_BYTES"
  shows "slot_in (Inr ([of_nat (length bs AND 0xFF), of_nat (drop_bit 8 (length bs))] @ bs @
    replicate (NETCFG_RECORD_BYTES - LENGTH_BYTES - length bs) 0)) = Holds bs"
  using assms length_field [of "length bs"]
  by (simp add: slot_in_def Let_def LENGTH_BYTES_def NETCFG_RECORD_BYTES_def)

lemma slot_in_zeros: "slot_in (Inr (replicate NETCFG_RECORD_BYTES 0)) = Absent"
  by (simp add: slot_in_def NETCFG_RECORD_BYTES_def)

lemma keys_distinct: "i < 3 \<Longrightarrow> j < 3 \<Longrightarrow> netcfg_slot_keys ! i = netcfg_slot_keys ! j \<longleftrightarrow> i = j"
  by (auto simp: netcfg_slot_keys_def numeral_3_eq_3 less_Suc_eq)

text \<open>
  The contract of the key-value store (\<^verbatim>\<open>struct netcfg_kv\<close>): a get changes nothing and is honest while the power is
  on; a set leaves the key with the old value, the new one, or one that no slot read accepts.
\<close>

locale netcfg_storage =
  fixes crc :: crc32
    and kv :: "'w netcfg_kv"
    and val :: "'w \<Rightarrow> string \<Rightarrow> errno + byte list"
    and up :: "'w \<Rightarrow> bool"
    and power_on :: "'w \<Rightarrow> 'w"
  assumes get_keeps: "kv_get kv key cap w = (r, w') \<Longrightarrow> val w' = val w \<and> (up w \<longrightarrow> up w')"
    and get_tells: "kv_get kv key NETCFG_RECORD_BYTES w = (r, w') \<Longrightarrow> r = val w key \<or> (\<not> up w \<and> (\<exists>e. r = Inl e))"
    and val_size: "val w key = Inr bs \<Longrightarrow> length bs = NETCFG_RECORD_BYTES"
    and set_lands: "kv_set kv key bs w = (rc, w') \<Longrightarrow>
      \<exists>v. val w' = (val w)(key := v) \<and> (v = val w key \<or> v = Inr bs \<or> torn crc (slot_in v))"
    and power_keeps: "val (power_on w) = val w"
    and power_up: "up (power_on w)"
begin

lemma set_slot:
  assumes "kv_set kv (netcfg_slot_keys ! s) bs w = (rc, w')" "s < DEVICE_CONFIG_SLOT_COUNT"
  shows "\<exists>c. netcfg_contents val w' = (netcfg_contents val w)(s := c) \<and>
    (c = netcfg_contents val w s \<or> c = slot_in (Inr bs) \<or> torn crc c)"
proof -
  obtain v where v: "val w' = (val w)(netcfg_slot_keys ! s := v)"
    "v = val w (netcfg_slot_keys ! s) \<or> v = Inr bs \<or> torn crc (slot_in v)"
    using set_lands [OF assms(1)] by blast
  have "netcfg_contents val w' = (netcfg_contents val w)(s := slot_in v)"
  proof
    fix t
    show "netcfg_contents val w' t = ((netcfg_contents val w)(s := slot_in v)) t"
      using v(1) assms(2) keys_distinct [of t s] by (auto simp: netcfg_contents_def slots)
  qed
  moreover have "slot_in v = netcfg_contents val w s \<or> slot_in v = slot_in (Inr bs) \<or> torn crc (slot_in v)"
    using v(2) assms(2) by (auto simp: netcfg_contents_def)
  ultimately show ?thesis by blast
qed

end

sublocale netcfg_storage \<subseteq> rebootable crc "netcfg_store_bind kv" "netcfg_contents val" up power_on
proof unfold_locales
  fix s cap w r w'
  assume "be_read (netcfg_store_bind kv) s cap w = (r, w')"
  then have rd: "slot_read kv s cap w = (r, w')" by (simp add: netcfg_store_bind_def)
  show "netcfg_contents val w' = netcfg_contents val w \<and> (up w \<longrightarrow> up w')"
  proof (cases "DEVICE_CONFIG_SLOT_COUNT \<le> s")
    case False
    obtain res w1 where g: "kv_get kv (netcfg_slot_keys ! s) NETCFG_RECORD_BYTES w = (res, w1)" by (metis surj_pair)
    with rd False have "w' = w1" by (auto simp: slot_read_def Let_def split: sum.splits if_splits)
    with get_keeps [OF g] show ?thesis by (simp add: netcfg_contents_def fun_eq_iff)
  qed (use rd in \<open>simp add: slot_read_def\<close>)
  show "r = told (netcfg_contents val w s) cap \<or> \<not> up w \<and> (\<exists>e. r = Inl e)"
  proof (cases "DEVICE_CONFIG_SLOT_COUNT \<le> s")
    case True
    with rd show ?thesis by (simp add: slot_read_def netcfg_contents_def told_def)
  next
    case False
    obtain res w1 where g: "kv_get kv (netcfg_slot_keys ! s) NETCFG_RECORD_BYTES w = (res, w1)" by (metis surj_pair)
    from get_tells [OF g] show ?thesis
    proof
      assume res: "res = val w (netcfg_slot_keys ! s)"
      have "netcfg_contents val w s = slot_in res" using False res by (simp add: netcfg_contents_def)
      moreover have "length blob = NETCFG_RECORD_BYTES" if "res = Inr blob" for blob
        using val_size res that by simp
      then have "r = told (slot_in res) cap"
        using g rd False
        by (cases res) (auto simp: slot_read_def told_def slot_in_def Let_def min_def
            NETCFG_RECORD_BYTES_def LENGTH_BYTES_def split: if_splits)
      ultimately show ?thesis by simp
    next
      assume "\<not> up w \<and> (\<exists>e. res = Inl e)"
      with g rd False show ?thesis by (auto simp: slot_read_def)
    qed
  qed
next
  fix s bs w rc w'
  assume "be_write (netcfg_store_bind kv) s bs w = (rc, w')"
  then have wr: "slot_write kv s bs w = (rc, w')" by (simp add: netcfg_store_bind_def)
  show "\<exists>c. netcfg_contents val w' = (netcfg_contents val w)(s := c) \<and>
      (c = netcfg_contents val w s \<or> c = Holds bs \<or> torn crc c)"
  proof (cases "DEVICE_CONFIG_SLOT_COUNT \<le> s \<or> length bs = 0 \<or> NETCFG_RECORD_BYTES - LENGTH_BYTES < length bs")
    case True
    with wr have "w' = w" by (auto simp: slot_write_def Let_def split: if_splits)
    then show ?thesis by (intro exI [of _ "netcfg_contents val w s"]) simp
  next
    case False
    with wr have "kv_set kv (netcfg_slot_keys ! s) ([of_nat (length bs AND 0xFF), of_nat (drop_bit 8 (length bs))] @ bs @
         replicate (NETCFG_RECORD_BYTES - LENGTH_BYTES - length bs) 0) w = (rc, w')"
      by (simp add: slot_write_def Let_def)
    from set_slot [OF this] False slot_in_blob [of bs] show ?thesis by simp
  qed
next
  fix s w rc w'
  assume "be_erase (netcfg_store_bind kv) s w = (rc, w')"
  then have er: "slot_erase kv s w = (rc, w')" by (simp add: netcfg_store_bind_def)
  show "\<exists>c. netcfg_contents val w' = (netcfg_contents val w)(s := c) \<and>
      (c = netcfg_contents val w s \<or> c = Absent \<or> torn crc c)"
  proof (cases "DEVICE_CONFIG_SLOT_COUNT \<le> s")
    case True
    with er show ?thesis by (intro exI [of _ "netcfg_contents val w s"]) (simp add: slot_erase_def)
  next
    case False
    with er have "kv_set kv (netcfg_slot_keys ! s) (replicate NETCFG_RECORD_BYTES 0) w = (rc, w')"
      by (simp add: slot_erase_def)
    from set_slot [OF this] False show ?thesis by (simp add: slot_in_zeros)
  qed
qed (use power_keeps power_up in \<open>simp_all add: netcfg_contents_def fun_eq_iff\<close>)

end
