(* ===== verification/Device_Config_Properties.thy ===== *)
theory Device_Config_Properties
  imports Netcfg_Store
begin

text \<open>
  The properties of the device configuration store, and a key-value store that loses power, on which its contract
  holds and the witnesses run.
\<close>

section \<open>A key-value store that loses power\<close>

text \<open>
  A store for the contract's use: after a chosen number of writes the power goes during the next one, which
  leaves the old value, the new one or nothing readable; a chosen number of reads fails first.
\<close>

datatype cut_outcome = Keeps_old | Has_new | Is_torn

record cut_world =
  cw_values :: "string \<Rightarrow> errno + byte list"
  cw_left :: "nat option"
  cw_outcome :: cut_outcome
  cw_bad_reads :: nat

definition cut_val :: "cut_world \<Rightarrow> string \<Rightarrow> errno + byte list" where
  "cut_val w key = (case cw_values w key of Inl e \<Rightarrow> Inl e
     | Inr bs \<Rightarrow> if length bs = NETCFG_RECORD_BYTES then Inr bs else Inl EIO)"

definition cut_up :: "cut_world \<Rightarrow> bool" where
  "cut_up w \<longleftrightarrow> cw_left w \<noteq> Some 0 \<and> cw_bad_reads w = 0"

definition cut_power_on :: "cut_world \<Rightarrow> cut_world" where
  "cut_power_on w = w\<lparr>cw_left := None, cw_bad_reads := 0\<rparr>"

definition cut_get :: "string \<Rightarrow> nat \<Rightarrow> cut_world \<Rightarrow> (errno + byte list) \<times> cut_world" where
  "cut_get key cap w =
     (if cw_left w = Some 0 then (Inl EIO, w)
      else if 0 < cw_bad_reads w then (Inl EIO, w\<lparr>cw_bad_reads := cw_bad_reads w - 1\<rparr>)
      else (cut_val w key, w))"

definition cut_set :: "string \<Rightarrow> byte list \<Rightarrow> cut_world \<Rightarrow> errno option \<times> cut_world" where
  "cut_set key bs w =
     (if length bs \<noteq> NETCFG_RECORD_BYTES then (Some EINVAL, w)
      else (case cw_left w of
        None \<Rightarrow> (None, w\<lparr>cw_values := (cw_values w)(key := Inr bs)\<rparr>)
      | Some 0 \<Rightarrow> (Some EIO, w)
      | Some (Suc n) \<Rightarrow>
          if 0 < n then (None, w\<lparr>cw_values := (cw_values w)(key := Inr bs), cw_left := Some n\<rparr>)
          else (Some EIO, w\<lparr>cw_left := Some 0, cw_values :=
            (case cw_outcome w of Keeps_old \<Rightarrow> cw_values w | Has_new \<Rightarrow> (cw_values w)(key := Inr bs)
             | Is_torn \<Rightarrow> (cw_values w)(key := Inl EIO))\<rparr>)))"

definition cut_kv :: "cut_world netcfg_kv" where
  "cut_kv = \<lparr>kv_get = cut_get, kv_set = cut_set\<rparr>"

lemma torn_unreadable [simp]: "torn crc (Unreadable e)"
  by (simp add: torn_def told_def judge_read_def)

lemma cut_val_upd:
  "cut_val (w\<lparr>cw_values := (cw_values w)(key := v)\<rparr>) =
     (cut_val w)(key := (case v of Inl e \<Rightarrow> Inl e | Inr bs \<Rightarrow> if length bs = NETCFG_RECORD_BYTES then Inr bs else Inl EIO))"
  "cut_val (w\<lparr>cw_left := l\<rparr>) = cut_val w" "cut_val (w\<lparr>cw_bad_reads := n\<rparr>) = cut_val w"
  by (auto simp: cut_val_def fun_eq_iff)

lemma cut_set_lands:
  assumes "cut_set key bs w = (rc, w')"
  shows "\<exists>v. cut_val w' = (cut_val w)(key := v) \<and> (v = cut_val w key \<or> v = Inr bs \<or> torn crc (slot_in v))"
proof -
  have "cut_val w' = cut_val w \<or> cut_val w' = (cut_val w)(key := Inr bs) \<or> cut_val w' = (cut_val w)(key := Inl EIO)"
  proof (cases "length bs = NETCFG_RECORD_BYTES")
    case False
    with assms show ?thesis by (simp add: cut_set_def)
  next
    case len: True
    show ?thesis
    proof (cases "cw_left w")
      case None
      with assms len show ?thesis by (auto simp: cut_set_def cut_val_upd)
    next
      case (Some n)
      show ?thesis
      proof (cases n)
        case 0
        with assms Some show ?thesis by (simp add: cut_set_def split: if_splits)
      next
        case (Suc m)
        with assms len Some have "w' = (if 0 < m then w\<lparr>cw_values := (cw_values w)(key := Inr bs), cw_left := Some m\<rparr>
          else w\<lparr>cw_left := Some 0, cw_values :=
            (case cw_outcome w of Keeps_old \<Rightarrow> cw_values w | Has_new \<Rightarrow> (cw_values w)(key := Inr bs)
             | Is_torn \<Rightarrow> (cw_values w)(key := Inl EIO))\<rparr>)"
          by (simp add: cut_set_def split: if_splits)
        with len show ?thesis
          by (cases "cw_outcome w") (auto simp: cut_val_def fun_eq_iff split: if_splits)
      qed
    qed
  qed
  then show ?thesis
  proof (elim disjE)
    assume "cut_val w' = cut_val w"
    then show ?thesis by (intro exI [of _ "cut_val w key"]) simp
  qed (auto simp: slot_in_def)
qed

interpretation cut_store: netcfg_storage crc cut_kv cut_val cut_up cut_power_on for crc
proof unfold_locales
  show "cut_val w' = cut_val w \<and> (cut_up w \<longrightarrow> cut_up w')" if "kv_get cut_kv key cap w = (r, w')" for key cap w r w'
    using that by (auto simp: cut_kv_def cut_get_def cut_up_def cut_val_upd split: if_splits)
  show "r = cut_val w key \<or> \<not> cut_up w \<and> (\<exists>e. r = Inl e)"
    if "kv_get cut_kv key NETCFG_RECORD_BYTES w = (r, w')" for key w r w'
    using that by (auto simp: cut_kv_def cut_get_def cut_up_def split: if_splits)
  show "length bs = NETCFG_RECORD_BYTES" if "cut_val w key = Inr bs" for w key bs
    using that by (auto simp: cut_val_def split: sum.splits if_splits)
  show "\<exists>v. cut_val w' = (cut_val w)(key := v) \<and> (v = cut_val w key \<or> v = Inr bs \<or> torn crc (slot_in v))"
    if "kv_set cut_kv key bs w = (rc, w')" for key bs w rc w'
    using cut_set_lands that by (simp add: cut_kv_def)
qed (auto simp: cut_power_on_def cut_val_def cut_up_def fun_eq_iff)

section \<open>Properties\<close>

text \<open>C5: Whatever the storage does during a commit (any call may fail, tear the slot, or the power may go), the
  reboot that follows loads a whole generation: the one that was in force or the one being committed; it is the
  new one whenever the commit reported success.\<close>

theorem power_loss_leaves_old_or_new:
  assumes "rebootable crc be contents up power_on" "settled crc be contents (st, H)"
    and "device_config_pending_commit crc txn st = (rc, st1)"
    and "device_config_init crc (Some be) (as_buffer x) (as_buffer y) (as_buffer z)
      (st1\<lparr>ds_ctx := power_on (ds_ctx st1)\<rparr>) = (rc2, report, st2)"
  shows "rc2 = None \<and> ds_committed st2 \<in> {ds_committed st, ds_pending st} \<and>
    (rc = None \<longrightarrow> ds_committed st2 = ds_pending st)"
  using rebootable.commit_then_reboot [OF assms(1) _ _ assms(3,4)] assms(2) by (auto simp: settled_def)



text \<open>C33: A journalled generation is complete by itself: each secret is the committed one when it is to be kept,
  empty when it is cleared and the given bytes when it is replaced, and the two flags that say whether a
  password exists are derived from those secrets; every other byte of the configuration is the caller's.\<close>

theorem journalled_generation_is_complete:
  assumes "next_generation crc committed u base txn = Inr N" "record_sized committed" "length (du_config u) = CONFIG_SIZE"
  shows "rp_secrets (cr_payload N) = map (\<lambda>i. wanted_secret (rp_secrets (cr_payload committed) ! i) (du_secrets u ! i)) [0, 1] \<and>
    rp_config (cr_payload N) = (du_config u)
      [OFF_WIFI_PASSWORD_SET := if 0 < sb_len (rp_secrets (cr_payload N) ! 0) then 1 else 0,
       OFF_ADMIN_PASSWORD_SET := if 0 < sb_len (rp_secrets (cr_payload N) ! 1) then 1 else 0] \<and>
    rh_revision (cr_header N) = rh_revision (cr_header committed) + 1 \<and> sealed crc N"
  using next_generation_contents [OF assms] next_generation_sealed [OF assms] by simp

text \<open>C35: A record that was sealed, laid out as bytes and read back into any buffer is accepted and is the same
  record, whatever the checksum function.\<close>

theorem sealed_record_reads_back:
  assumes "record_sized r" "length buf = 412"
  shows "judge_read crc buf (Inr (record_image (record_seal crc r))) = (None, record_seal crc r)"
  by (rule judge_sealed [OF sealed_seal [OF assms(1)] assms(2)])

section \<open>A run on the failing store\<close>

abbreviation cut_be :: "cut_world device_config_backend" where
  "cut_be \<equiv> netcfg_store_bind cut_kv"

definition cut_stored :: "nat \<Rightarrow> config_record \<Rightarrow> cut_world \<Rightarrow> cut_world" where
  "cut_stored s N w = w\<lparr>cw_values := (cw_values w)(netcfg_slot_keys ! s := Inr
     ([of_nat (412 AND 0xFF), of_nat (drop_bit 8 412)] @ record_image N @ replicate (NETCFG_RECORD_BYTES - LENGTH_BYTES - 412) 0))\<rparr>"

lemma cut_stored_contents:
  assumes "sealed crc N" "s < 3"
  shows "netcfg_contents cut_val (cut_stored s N w) = (netcfg_contents cut_val w)(s := Holds (record_image N))"
proof -
  have len: "length (record_image N) = 412" using sealed_fields(4) [OF assms(1)] by simp
  let ?blob = "[of_nat (412 AND 0xFF), of_nat (drop_bit 8 412)] @ record_image N @ replicate (NETCFG_RECORD_BYTES - LENGTH_BYTES - 412) (0 :: byte)"
  have "length ?blob = NETCFG_RECORD_BYTES" using len by (simp add: NETCFG_RECORD_BYTES_def LENGTH_BYTES_def)
  then have v: "cut_val (cut_stored s N w) = (cut_val w)(netcfg_slot_keys ! s := Inr ?blob)"
    unfolding cut_stored_def cut_val_upd by simp
  have "slot_in (Inr ?blob) = Holds (record_image N)"
    using slot_in_blob [of "record_image N"] len by (simp add: NETCFG_RECORD_BYTES_def LENGTH_BYTES_def)
  then show ?thesis
    using assms(2) keys_distinct [of _ s]
    by (auto simp: netcfg_contents_def fun_eq_iff slots v simp del: append.simps)
qed


lemma cut_write:
  assumes "sealed crc N" "s < 3" "cw_left w = None"
  shows "be_write cut_be s (record_image N) w = (None, cut_stored s N w)"
proof -
  have len: "length (record_image N) = 412" using sealed_fields(4) [OF assms(1)] by simp
  with assms(2,3) show ?thesis
    by (simp add: netcfg_store_bind_def slot_write_def Let_def slots cut_kv_def cut_set_def cut_stored_def
        NETCFG_RECORD_BYTES_def LENGTH_BYTES_def)
qed

lemma cut_read:
  assumes "s < 3" "cw_left w = None"
  shows "be_read cut_be s cap w = (if 0 < cw_bad_reads w then (Inl EIO, w\<lparr>cw_bad_reads := cw_bad_reads w - 1\<rparr>)
    else (told (netcfg_contents cut_val w s) cap, w))"
proof (cases "0 < cw_bad_reads w")
  case True
  with assms show ?thesis by (simp add: netcfg_store_bind_def slot_read_def cut_kv_def cut_get_def slots)
next
  case False
  then have up: "cut_up w" using assms(2) by (simp add: cut_up_def)
  obtain r w' where r: "be_read cut_be s cap w = (r, w')" by (metis surj_pair)
  then have "w' = w" using False assms
    by (auto simp: netcfg_store_bind_def slot_read_def cut_kv_def cut_get_def slots Let_def split: sum.splits if_splits)
  with cut_store.read_tells [OF r] up r False show ?thesis by simp
qed

lemma cut_write_slot:
  assumes "sealed crc N" "s < 3" "cw_left w = None"
  shows "write_slot crc cut_be s N w =
    (if 0 < cw_bad_reads w then (Some EIO, (cut_stored s N w)\<lparr>cw_bad_reads := cw_bad_reads w - 1\<rparr>)
     else (None, cut_stored s N w))"
proof -
  note f = sealed_fields [OF assms(1)]
  have plen: "unat (rh_payload_len (cr_header N)) = 316" unfolding f(3) by (rule payload_len_val)
  have img: "take (RECORD_HEADER_SIZE + 316) (record_image N) = record_image N"
    using f(4) by (simp add: RECORD_HEADER_SIZE_def)
  let ?w = "cut_stored s N w"
  have w: "cw_left ?w = None" "cw_bad_reads ?w = cw_bad_reads w" using assms(3) by (simp_all add: cut_stored_def)
  have told: "told (netcfg_contents cut_val ?w s) 412 = Inr (record_image N)"
    using f(4) unfolding cut_stored_contents [OF assms(1,2)] by (simp add: told_def)
  have "read_slot crc cut_be s (replicate (RECORD_HEADER_SIZE + RECORD_PAYLOAD_SIZE) 0) ?w =
      (if 0 < cw_bad_reads w then (Some EIO, record_of_image (replicate 412 0), ?w\<lparr>cw_bad_reads := cw_bad_reads w - 1\<rparr>)
       else (None, N, ?w))"
    unfolding read_slot_def cut_read [OF assms(2) w(1)] w(2)
    using told judge_sealed [OF assms(1), of "replicate 412 0"]
    by (simp add: config_sizes judge_read_def)
  then show ?thesis
    unfolding write_slot_def Let_def plen img cut_write [OF assms] by simp
qed



text \<open>A blank device, its first boot, and a transaction that keeps both secrets.\<close>

definition blank_world :: cut_world where
  "blank_world = \<lparr>cw_values = (\<lambda>key. Inr (replicate NETCFG_RECORD_BYTES 0)), cw_left = None, cw_outcome = Is_torn,
     cw_bad_reads = 0\<rparr>"

definition unbooted :: "cut_world device_store" where
  "unbooted = \<lparr>ds_backend = None, ds_committed = zeroed_record, ds_pending_present = False, ds_pending = zeroed_record,
     ds_initialised = False, ds_ctx = blank_world\<rparr>"

definition sample_crc :: crc32 where "sample_crc bs = of_nat (get_le (take 4 bs))"

definition booted :: "cut_world device_store" where
  "booted = snd (snd (device_config_init sample_crc (Some cut_be) (as_buffer []) (as_buffer []) (as_buffer []) unbooted))"

definition keep_both :: device_config_update where
  "keep_both = \<lparr>du_config = device_config_defaults, du_secrets = replicate 2
     \<lparr>su_action = DEVICE_CONFIG_SECRET_KEEP, su_value = None, su_len = 0\<rparr>\<rparr>"

definition journalled :: "cut_world device_store \<times> config_record list" where
  "journalled = config_step sample_crc cut_be cut_power_on (Begin keep_both 0 (Some ''t1'')) (booted, [])"

lemma cut_init_world:
  assumes "cw_left (ds_ctx st) = None" "cw_bad_reads (ds_ctx st) = 0"
  shows "cw_left (ds_ctx (snd (snd (device_config_init crc (Some cut_be) x y z st)))) = None \<and>
    cw_bad_reads (ds_ctx (snd (snd (device_config_init crc (Some cut_be) x y z st)))) = 0"
proof -
  have rd: "snd (snd (read_slot crc cut_be s buf w)) = w" if "cw_left w = None" "cw_bad_reads w = 0" "s < 3" for s buf w
    using that by (simp add: read_slot_def cut_read split: prod.splits)
  have er: "cw_left (snd (be_erase cut_be 2 w)) = None \<and> cw_bad_reads (snd (be_erase cut_be 2 w)) = 0"
    if "cw_left w = None" "cw_bad_reads w = 0" for w
    using that by (auto simp: netcfg_store_bind_def slot_erase_def slots cut_kv_def cut_set_def)
  have rp: "cw_left (snd (resolve_pending crc cut_be buf R rep w)) = None \<and> cw_bad_reads (snd (resolve_pending crc cut_be buf R rep w)) = 0"
    if "cw_left w = None" "cw_bad_reads w = 0" for buf R rep w
    using rd [OF that, of 2 buf] er [OF that] that
    by (auto simp: resolve_pending_def slots Let_def split: prod.splits)
  obtain ea ra w1 where r1: "read_slot crc cut_be DEVICE_CONFIG_SLOT_COMMITTED_A x (ds_ctx st) = (ea, ra, w1)" by (metis surj_pair)
  obtain eb rb w2 where r2: "read_slot crc cut_be DEVICE_CONFIG_SLOT_COMMITTED_B y w1 = (eb, rb, w2)" by (metis surj_pair)
  have "w1 = ds_ctx st" "w2 = w1" using rd [OF assms, of DEVICE_CONFIG_SLOT_COMMITTED_A x] r1
      rd [of w1 DEVICE_CONFIG_SLOT_COMMITTED_B y] r2 assms by (auto simp: slots)
  then have "cw_left w2 = None" "cw_bad_reads w2 = 0" using assms by simp_all
  note rp' = rp [OF this]
  obtain C v where "boot_choice crc ea ra eb rb = (C, v)" by (metis surj_pair)
  with rp' [of z C] show ?thesis
    by (simp add: device_config_init_def r1 r2 case_prod_beta)
qed

lemma booted_settled:
  "settled sample_crc cut_be (netcfg_contents cut_val) (booted, [])" "ds_committed booted = default_record sample_crc"
  "\<not> ds_pending_present booted" "cw_left (ds_ctx booted) = None" "cw_bad_reads (ds_ctx booted) = 0"
proof -
  have c: "netcfg_contents cut_val blank_world s = Absent" if "s < 3" for s
    using that slot_in_zeros by (simp add: netcfg_contents_def slots cut_val_def blank_world_def)
  have "settled sample_crc cut_be (netcfg_contents cut_val) (booted, []) \<and> ds_committed booted = default_record sample_crc \<and>
    \<not> ds_pending_present booted"
  proof (rule cut_store.blank_start [of _ blank_world unbooted, OF _ _ _ _ booted_def])
    show "torn sample_crc (netcfg_contents cut_val blank_world DEVICE_CONFIG_SLOT_COMMITTED_A)"
      "torn sample_crc (netcfg_contents cut_val blank_world DEVICE_CONFIG_SLOT_COMMITTED_B)"
      by (simp_all add: c [of 0] c [of "Suc 0"] DEVICE_CONFIG_SLOT_COMMITTED_A_def DEVICE_CONFIG_SLOT_COMMITTED_B_def)
  qed (simp_all add: cut_up_def unbooted_def blank_world_def)
  then show "settled sample_crc cut_be (netcfg_contents cut_val) (booted, [])" "ds_committed booted = default_record sample_crc"
    "\<not> ds_pending_present booted" by simp_all
  show "cw_left (ds_ctx booted) = None" "cw_bad_reads (ds_ctx booted) = 0"
    using cut_init_world [of unbooted sample_crc] unfolding booted_def by (simp_all add: unbooted_def blank_world_def)
qed

lemma zero_from_defaults: "record_sized (default_record crc)"
  using sealed_default sealed_fields(4) by blast

lemma journalled_pending:
  "snd (device_config_pending_begin sample_crc (Some keep_both) 0 (Some ''t1'') booted) = fst journalled"
  "ds_pending_present (fst journalled)" "pending_refused (Some ''t1'') (fst journalled) = None"
  "cw_left (ds_ctx (fst journalled)) = None" "cw_bad_reads (ds_ctx (fst journalled)) = 0"
  "settled sample_crc cut_be (netcfg_contents cut_val) journalled"
  "rh_revision (cr_header (ds_pending (fst journalled))) = 1"
proof -
  have b: "ds_backend booted = Some cut_be" "ds_initialised booted"
    using booted_settled(1) by (auto simp: settled_def store_safe_def)
  have rev: "rh_revision (cr_header (ds_committed booted)) = 0" by (simp add: booted_settled(2) default_revision)
  obtain N where N: "next_generation sample_crc (ds_committed booted) keep_both 0 ''t1'' = Inr N"
    by (simp add: next_generation_def Let_def secrets_list apply_secret_update_def keep_both_def numeral_2_eq_2)
  have len: "length (du_config keep_both) = CONFIG_SIZE" by (simp add: keep_both_def length_defaults)
  note sized = zero_from_defaults [of sample_crc, folded booted_settled(2)]
  note g = next_generation_sealed [OF N sized len] and gc = next_generation_contents(3) [OF N sized len]
  have valid: "txn_id_is_valid (Some ''t1'')"
    by (simp add: txn_id_is_valid_def DEVICE_CONFIG_TXN_ID_MAX_LEN_def txn_char_def less_eq_char_def)
  let ?w = "cut_stored DEVICE_CONFIG_SLOT_PENDING N (ds_ctx booted)"
  have p: "device_config_pending_begin sample_crc (Some keep_both) 0 (Some ''t1'') booted =
      (None, booted\<lparr>ds_ctx := ?w, ds_pending := N, ds_pending_present := True\<rparr>)"
    using b rev N valid booted_settled(3-5) cut_write_slot [OF g(1), of DEVICE_CONFIG_SLOT_PENDING "ds_ctx booted"]
    by (simp add: device_config_pending_begin_def slots)
  have j: "fst journalled = booted\<lparr>ds_ctx := ?w, ds_pending := N, ds_pending_present := True\<rparr>"
    by (simp add: journalled_def p len)
  show "snd (device_config_pending_begin sample_crc (Some keep_both) 0 (Some ''t1'') booted) = fst journalled"
    using p j by simp
  show "ds_pending_present (fst journalled)" "cw_left (ds_ctx (fst journalled)) = None"
    "cw_bad_reads (ds_ctx (fst journalled)) = 0" "rh_revision (cr_header (ds_pending (fst journalled))) = 1"
    using j booted_settled(4,5) g(2) rev by (simp_all add: cut_stored_def)
  have "same_txn (rh_transaction_id (cr_header N)) ''t1''"
    using gc by (simp add: same_txn_def txn_field_def DEVICE_CONFIG_TXN_ID_MAX_LEN_def cstr_def bytes_of_def)
  then show "pending_refused (Some ''t1'') (fst journalled) = None"
    using j b by (simp add: pending_refused_def)
  show "settled sample_crc cut_be (netcfg_contents cut_val) journalled"
    unfolding journalled_def by (rule cut_store.settled_step [OF booted_settled(1), THEN conjunct1]) simp
qed

text \<open>The commit of that transaction, with the power lost in the middle of its write.\<close>

definition doomed :: "cut_world device_store" where
  "doomed = (fst journalled)\<lparr>ds_ctx := (ds_ctx (fst journalled))\<lparr>cw_left := Some 1\<rparr>\<rparr>"

lemma settled_same_contents:
  assumes "settled crc be contents (st, H)" "contents w = contents (ds_ctx st)"
  shows "settled crc be contents (st\<lparr>ds_ctx := w\<rparr>, H)"
  using assms by (simp add: settled_def store_safe_def generation_ok_def)

lemma doomed_settled: "settled sample_crc cut_be (netcfg_contents cut_val) (doomed, snd journalled)"
  unfolding doomed_def
  by (rule settled_same_contents)
    (use journalled_pending(6) in \<open>simp_all add: netcfg_contents_def cut_val_upd fun_eq_iff\<close>)

lemma power_loss_leaves_old_or_new_witness:
  "\<exists>rc st1 st2. device_config_pending_commit sample_crc (Some ''t1'') doomed = (rc, st1) \<and>
     ds_committed st2 \<in> {ds_committed doomed, ds_pending doomed} \<and>
     st2 = snd (snd (device_config_init sample_crc (Some cut_be) (as_buffer []) (as_buffer []) (as_buffer [])
        (st1\<lparr>ds_ctx := cut_power_on (ds_ctx st1)\<rparr>)))"
proof -
  obtain rc st1 where c: "device_config_pending_commit sample_crc (Some ''t1'') doomed = (rc, st1)" by (metis surj_pair)
  obtain rc2 rep st2 where i: "device_config_init sample_crc (Some cut_be) (as_buffer []) (as_buffer []) (as_buffer [])
      (st1\<lparr>ds_ctx := cut_power_on (ds_ctx st1)\<rparr>) = (rc2, rep, st2)" by (metis surj_pair)
  from power_loss_leaves_old_or_new [OF cut_store.rebootable_axioms doomed_settled c i]
  have "ds_committed st2 \<in> {ds_committed doomed, ds_pending doomed}" by blast
  with c i show ?thesis by auto
qed



lemma journalled_generation_is_complete_witness:
  "\<exists>N. next_generation sample_crc (default_record sample_crc) keep_both 0 ''t1'' = Inr N \<and>
     rh_revision (cr_header N) = 1"
proof -
  obtain N where N: "next_generation sample_crc (default_record sample_crc) keep_both 0 ''t1'' = Inr N"
    by (simp add: next_generation_def Let_def secrets_list apply_secret_update_def keep_both_def numeral_2_eq_2)
  from journalled_generation_is_complete [OF N zero_from_defaults] N show ?thesis
    by (simp add: keep_both_def length_defaults default_revision)
qed

lemma sealed_record_reads_back_witness:
  "judge_read sample_crc (as_buffer []) (Inr (record_image (record_seal sample_crc record_set_defaults))) =
     (None, default_record sample_crc)"
proof -
  have "record_sized record_set_defaults"
    using zeroed_record_sized by (simp add: record_set_defaults_def record_sized_def header_sized_def payload_sized_def length_defaults)
  from sealed_record_reads_back [OF this, of "as_buffer []"] show ?thesis by (simp add: default_record_def)
qed


end
