(* ===== verification/Json_Reader.thy ===== *)
theory Json_Reader
  imports Api_Validation "HOL-Library.Monad_Syntax" "HOL-Library.Signed_Division"
begin

text \<open>
  The request reader of the web API (\<^verbatim>\<open>src/modules/web-api/lib/json_reader.c\<close> and
  \<^verbatim>\<open>include/web_api/json_reader.h\<close>): the lexical layer, numbers, the values that are only checked, the values
  that a schema describes, the order of the reports, and \<^verbatim>\<open>web_json_decode\<close>. The text left is a list of bytes, the
  destination a list of bytes that slots point into by offset.
\<close>

section \<open>Data\<close>

definition MAX_COLLECTED :: nat where "MAX_COLLECTED = 32"
definition NAME_MAX :: nat where "NAME_MAX = 64"
definition MAX_MEMBERS :: nat where "MAX_MEMBERS = 64"
definition WEB_JSON_MAX_DEPTH :: nat where "WEB_JSON_MAX_DEPTH = 8"

record collected =
  cf_path :: "byte list"
  cf_code :: api_field_code

text \<open>\<open>jr_p\<close> is what lies between \<^verbatim>\<open>p\<close> and \<^verbatim>\<open>end\<close>, \<open>jr_dest\<close> the \<^verbatim>\<open>dest_size\<close> bytes at \<^verbatim>\<open>dest_base\<close>.\<close>

record reader =
  jr_p :: "byte list"
  jr_syntax :: "string option"
  jr_fields :: "collected list"
  jr_truncated :: bool
  jr_path :: "byte list"
  jr_depth :: nat
  jr_dest :: "byte list"

section \<open>Errors and paths\<close>

definition syntax_error :: "string \<Rightarrow> reader \<Rightarrow> reader" where
  "syntax_error message r =
     r\<lparr>jr_syntax := (case jr_syntax r of None \<Rightarrow> Some message | Some m \<Rightarrow> Some m), jr_p := []\<rparr>"

definition failed :: "reader \<Rightarrow> bool" where
  "failed r \<longleftrightarrow> jr_syntax r \<noteq> None"

definition report :: "api_field_code \<Rightarrow> reader \<Rightarrow> reader" where
  "report code r =
     (if MAX_COLLECTED \<le> length (jr_fields r) then r\<lparr>jr_truncated := True\<rparr>
      else r\<lparr>jr_fields := jr_fields r @
              [\<lparr>cf_path = (if jr_path r = [] then [0x2F] else jr_path r), cf_code = code\<rparr>]\<rparr>)"

text \<open>The loop that escapes a name into \<^verbatim>\<open>seg\<close>; \<open>None\<close> when it returns early.\<close>

fun push_segment :: "byte list \<Rightarrow> byte list \<Rightarrow> byte list option" where
  "push_segment seg [] = Some seg"
| "push_segment seg (c # cs) =
     (if c = 0x7E \<or> c = 0x2F then
        (if API_ERROR_PATH_MAX_LEN < length seg + 2 then None
         else push_segment (seg @ [0x7E, if c = 0x7E then 0x30 else 0x31]) cs)
      else if c < 0x20 \<or> API_ERROR_PATH_MAX_LEN < length seg + 1 then None
      else push_segment (seg @ [c]) cs)"

text \<open>The saved length that the code returns is the length of the path before the call.\<close>

definition path_push_bytes :: "byte list \<Rightarrow> reader \<Rightarrow> reader" where
  "path_push_bytes name r =
     (case push_segment [0x2F] name of
        None \<Rightarrow> r
      | Some seg \<Rightarrow> if API_ERROR_PATH_MAX_LEN < length (jr_path r) + length seg then r
                    else r\<lparr>jr_path := jr_path r @ seg\<rparr>)"

text \<open>The digits of an index, least significant first, in a buffer of \<open>k\<close>.\<close>

fun rev_digits :: "nat \<Rightarrow> nat \<Rightarrow> byte list" where
  "rev_digits 0 i = []"
| "rev_digits (Suc k) i = of_nat (48 + i mod 10) # (if 0 < i div 10 then rev_digits k (i div 10) else [])"

definition path_push_index :: "nat \<Rightarrow> reader \<Rightarrow> reader" where
  "path_push_index index r = path_push_bytes (rev (rev_digits 12 index)) r"

definition path_pop :: "nat \<Rightarrow> reader \<Rightarrow> reader" where
  "path_pop saved r = r\<lparr>jr_path := take saved (jr_path r)\<rparr>"

section \<open>Lexical layer\<close>

definition is_ws :: "byte \<Rightarrow> bool" where
  "is_ws c \<longleftrightarrow> c = 0x20 \<or> c = 0x09 \<or> c = 0x0A \<or> c = 0x0D"

definition skip_ws :: "reader \<Rightarrow> reader" where
  "skip_ws r = r\<lparr>jr_p := dropWhile is_ws (jr_p r)\<rparr>"

definition jr_peek :: "byte \<Rightarrow> reader \<Rightarrow> bool" where
  "jr_peek c r \<longleftrightarrow> jr_p r \<noteq> [] \<and> hd (jr_p r) = c"

text \<open>\<^verbatim>\<open>r->p++\<close>.\<close>

definition advance :: "reader \<Rightarrow> reader" where
  "advance r = r\<lparr>jr_p := tl (jr_p r)\<rparr>"

definition is_digit :: "byte \<Rightarrow> bool" where
  "is_digit c \<longleftrightarrow> 0x30 \<le> c \<and> c \<le> 0x39"

definition hex_value :: "byte \<Rightarrow> nat option" where
  "hex_value c =
     (if is_digit c then Some (unat c - 48)
      else if 0x61 \<le> c \<and> c \<le> 0x66 then Some (unat c - 97 + 10)
      else if 0x41 \<le> c \<and> c \<le> 0x46 then Some (unat c - 65 + 10)
      else None)"

fun hex_digits :: "u32 \<Rightarrow> byte list \<Rightarrow> u32 option" where
  "hex_digits v [] = Some v"
| "hex_digits v (c # cs) =
     (case hex_value c of None \<Rightarrow> None | Some h \<Rightarrow> hex_digits (push_bit 4 v OR of_nat h) cs)"

definition read_hex4 :: "byte list \<Rightarrow> (u32 \<times> byte list) option" where
  "read_hex4 s = (if length s < 4 then None
     else case hex_digits 0 (take 4 s) of None \<Rightarrow> None | Some v \<Rightarrow> Some (v, drop 4 s))"

text \<open>\<open>tx_text\<close> is what was written before the NUL, \<open>None\<close> when \<^verbatim>\<open>dst\<close> is NULL.\<close>

record json_text =
  tx_text :: "byte list option"
  tx_cap :: nat
  tx_bytes :: nat
  tx_chars :: nat
  tx_overflow :: bool
  tx_bad :: bool
  tx_hash :: u64

definition fnv_byte :: "byte \<Rightarrow> u64 \<Rightarrow> u64" where
  "fnv_byte b h = (h XOR ucast b) * 0x100000001b3"

definition text_put :: "byte list \<Rightarrow> json_text \<Rightarrow> json_text" where
  "text_put bs t =
     (let t1 = t\<lparr>tx_hash := fold fnv_byte bs (tx_hash t)\<rparr>;
          t2 = (case tx_text t1 of
                  None \<Rightarrow> t1
                | Some s \<Rightarrow> if tx_overflow t1 then t1
                            else if tx_cap t1 < tx_bytes t1 + length bs + 1 then t1\<lparr>tx_overflow := True\<rparr>
                            else t1\<lparr>tx_text := Some (s @ bs)\<rparr>)
      in t2\<lparr>tx_bytes := tx_bytes t2 + length bs\<rparr>)"

definition utf8_of_code_point :: "u32 \<Rightarrow> byte list" where
  "utf8_of_code_point cp =
     (if cp < 0x80 then [ucast cp]
      else if cp < 0x800 then [ucast (0xC0 OR drop_bit 6 cp), ucast (0x80 OR (cp AND 0x3F))]
      else if cp < 0x10000 then
        [ucast (0xE0 OR drop_bit 12 cp), ucast (0x80 OR (drop_bit 6 cp AND 0x3F)), ucast (0x80 OR (cp AND 0x3F))]
      else
        [ucast (0xF0 OR drop_bit 18 cp), ucast (0x80 OR (drop_bit 12 cp AND 0x3F)),
         ucast (0x80 OR (drop_bit 6 cp AND 0x3F)), ucast (0x80 OR (cp AND 0x3F))])"

definition text_put_cp :: "u32 \<Rightarrow> json_text \<Rightarrow> json_text" where
  "text_put_cp cp t = text_put (utf8_of_code_point cp) t"

text \<open>\<^verbatim>\<open>t->chars++\<close>.\<close>

definition count_char :: "json_text \<Rightarrow> json_text" where
  "count_char t = t\<lparr>tx_chars := tx_chars t + 1\<rparr>"

text \<open>The payload bits of a lead byte and the number of continuation bytes.\<close>

definition utf8_lead :: "byte \<Rightarrow> (u32 \<times> nat) option" where
  "utf8_lead c =
     (if c AND 0xE0 = 0xC0 then Some (ucast (c AND 0x1F), 1)
      else if c AND 0xF0 = 0xE0 then Some (ucast (c AND 0x0F), 2)
      else if c AND 0xF8 = 0xF0 then Some (ucast (c AND 0x07), 3)
      else None)"

fun utf8_tail :: "u32 \<Rightarrow> byte list \<Rightarrow> u32 option" where
  "utf8_tail cp [] = Some cp"
| "utf8_tail cp (b # bs) =
     (if b AND 0xC0 \<noteq> 0x80 then None else utf8_tail (push_bit 6 cp OR ucast (b AND 0x3F)) bs)"

definition utf8_bad_code_point :: "nat \<Rightarrow> u32 \<Rightarrow> bool" where
  "utf8_bad_code_point extra cp \<longleftrightarrow>
     extra = 1 \<and> cp < 0x80 \<or> extra = 2 \<and> cp < 0x800 \<or> extra = 3 \<and> cp < 0x10000 \<or>
     0x10FFFF < cp \<or> 0xD800 \<le> cp \<and> cp \<le> 0xDFFF"

text \<open>The bytes of the sequence and what follows it; the text is put by the caller.\<close>

definition read_utf8 :: "byte list \<Rightarrow> (byte list \<times> byte list) option" where
  "read_utf8 s =
     (case utf8_lead (hd s) of
        None \<Rightarrow> None
      | Some (cp0, extra) \<Rightarrow>
          if length s \<le> extra then None
          else case utf8_tail cp0 (take extra (tl s)) of
                 None \<Rightarrow> None
               | Some cp \<Rightarrow> if utf8_bad_code_point extra cp then None
                            else Some (take (extra + 1) s, drop (extra + 1) s))"


text \<open>\<^verbatim>\<open>"A \u escape needs four hexadecimal digits"\<close>.\<close>

definition bad_hex_message :: string where
  "bad_hex_message = ''A '' @ [CHR 0x5C] @ ''u escape needs four hexadecimal digits''"

text \<open>A \<^verbatim>\<open>\u\<close> escape, after the letter; a pair of surrogates is read as one code point.\<close>

definition read_unicode_escape :: "byte list \<Rightarrow> json_text \<Rightarrow> (string + byte list) \<times> json_text" where
  "read_unicode_escape s t =
     (case read_hex4 s of
        None \<Rightarrow> (Inl bad_hex_message, t)
      | Some (cp, s1) \<Rightarrow>
          if 0xD800 \<le> cp \<and> cp \<le> 0xDBFF \<and> 6 \<le> length s1 \<and> s1 ! 0 = 0x5C \<and> s1 ! 1 = 0x75 then
            (case read_hex4 (drop 2 s1) of
               None \<Rightarrow> (Inl bad_hex_message, t)
             | Some (low, s2) \<Rightarrow>
                 if 0xDC00 \<le> low \<and> low \<le> 0xDFFF then
                   let cp2 = 0x10000 + push_bit 10 (cp - 0xD800) + (low - 0xDC00) in
                   (Inr s2, count_char (if cp2 = 0 then t\<lparr>tx_bad := True\<rparr> else text_put_cp cp2 t))
                 else (Inr s1, count_char (t\<lparr>tx_bad := True\<rparr>)))
          else if 0xD800 \<le> cp \<and> cp \<le> 0xDFFF then (Inr s1, count_char (t\<lparr>tx_bad := True\<rparr>))
          else (Inr s1, count_char (if cp = 0 then t\<lparr>tx_bad := True\<rparr> else text_put_cp cp t)))"

text \<open>The escapes of one character: the character and the byte it stands for.\<close>

definition simple_escape :: "byte \<Rightarrow> byte option" where
  "simple_escape c =
     (if c = 0x22 \<or> c = 0x5C \<or> c = 0x2F then Some c
      else if c = 0x62 then Some 0x08
      else if c = 0x66 then Some 0x0C
      else if c = 0x6E then Some 0x0A
      else if c = 0x72 then Some 0x0D
      else if c = 0x74 then Some 0x09
      else None)"

text \<open>What follows a backslash: the \<^verbatim>\<open>switch\<close> of \<^verbatim>\<open>read_string\<close>.\<close>

definition read_escape :: "byte list \<Rightarrow> json_text \<Rightarrow> (string + byte list) \<times> json_text" where
  "read_escape s t =
     (case s of
        [] \<Rightarrow> (Inl ''A string is not terminated'', t)
      | c # s1 \<Rightarrow>
          (case simple_escape c of
             Some b \<Rightarrow> (Inr s1, count_char (text_put [b] t))
           | None \<Rightarrow> if c = 0x75 then read_unicode_escape s1 t
                     else (Inl ''Unknown escape in a string'', t)))"

lemma read_hex4_shorter: "read_hex4 s = Some (v, s') \<Longrightarrow> length s' + 4 = length s"
  by (auto simp: read_hex4_def split: if_splits option.splits)

lemma read_utf8_shorter: "read_utf8 s = Some (bs, s') \<Longrightarrow> length s' < length s"
  by (auto simp: read_utf8_def split: if_splits option.splits prod.splits)

lemma read_unicode_escape_shorter: "read_unicode_escape s t = (Inr s', t') \<Longrightarrow> length s' < length s"
  by (auto simp: read_unicode_escape_def Let_def split: if_splits option.splits dest!: read_hex4_shorter)

lemma read_escape_shorter: "read_escape s t = (Inr s', t') \<Longrightarrow> length s' < length s"
  by (auto simp: read_escape_def split: list.splits option.splits if_splits dest: read_unicode_escape_shorter)

text \<open>The loop of \<^verbatim>\<open>read_string\<close>: an error message or what follows the closing quote, and the text.\<close>

function read_chars :: "byte list \<Rightarrow> json_text \<Rightarrow> (string + byte list) \<times> json_text" where
  "read_chars s t =
     (case s of
        [] \<Rightarrow> (Inl ''A string is not terminated'', t)
      | c # s1 \<Rightarrow>
          if c = 0x22 then (Inr s1, t)
          else if c < 0x20 then (Inl ''A control character must be escaped inside a string'', t)
          else if 0x80 \<le> c then
            (case read_utf8 s of
               None \<Rightarrow> (Inl ''The body is not valid UTF-8'', t)
             | Some (bs, s2) \<Rightarrow> read_chars s2 (count_char (text_put bs t)))
          else if c \<noteq> 0x5C then read_chars s1 (count_char (text_put [c] t))
          else (case read_escape s1 t of
                  (Inl m, t2) \<Rightarrow> (Inl m, t2)
                | (Inr s2, t2) \<Rightarrow> read_chars s2 t2))"
  by pat_completeness auto
termination
proof (relation "measure (length \<circ> fst)", goal_cases)
  case 1 show ?case by simp
next
  case (2 s t c s1 a bs s2) then show ?case by (auto dest: read_utf8_shorter)
next
  case (3 s t c s1) then show ?case by simp
next
  case (4 s t c s1 a t2 s2)
  then have "length s2 < length s1" by (auto dest: sym intro: read_escape_shorter)
  with 4 show ?case by simp
qed

declare read_chars.simps [simp del]

text \<open>\<^verbatim>\<open>struct text t = {.dst = dst, .cap = cap}\<close>.\<close>

definition fresh_text :: "bool \<Rightarrow> nat \<Rightarrow> json_text" where
  "fresh_text has_dst cap = \<lparr>tx_text = (if has_dst then Some [] else None), tx_cap = cap, tx_bytes = 0, tx_chars = 0,
     tx_overflow = False, tx_bad = False, tx_hash = 0xcbf29ce484222325\<rparr>"

text \<open>The reader stands at the opening quote.\<close>

definition read_string :: "json_text \<Rightarrow> reader \<Rightarrow> reader \<times> json_text" where
  "read_string t r =
     (let t0 = t\<lparr>tx_bytes := 0, tx_chars := 0, tx_overflow := False, tx_bad := False, tx_hash := 0xcbf29ce484222325\<rparr>;
          r1 = advance r
      in case read_chars (jr_p r1) t0 of
           (Inl m, t1) \<Rightarrow> (syntax_error m r1, t1)
         | (Inr s, t1) \<Rightarrow> (r1\<lparr>jr_p := s\<rparr>, t1))"

section \<open>Numbers\<close>

datatype number_kind = NUMBER_INTEGRAL | NUMBER_OUT_OF_RANGE | NUMBER_FRACTIONAL

definition DIGITS_KEPT :: nat where "DIGITS_KEPT = 40"
definition INT64_MIN :: int where "INT64_MIN = - (2 ^ 63)"

definition digit_value :: "byte \<Rightarrow> nat" where
  "digit_value c = unat c - 48"

definition keep_int_digit :: "byte \<Rightarrow> nat list \<times> int \<Rightarrow> nat list \<times> int" where
  "keep_int_digit c a =
     (case a of (digits, exp10) \<Rightarrow>
        if length digits < DIGITS_KEPT then (digits @ [digit_value c], exp10) else (digits, exp10 + 1))"

definition keep_frac_digit :: "byte \<Rightarrow> nat list \<times> int \<times> bool \<Rightarrow> nat list \<times> int \<times> bool" where
  "keep_frac_digit c a =
     (case a of (digits, exp10, dropped) \<Rightarrow>
        if length digits < DIGITS_KEPT then (digits @ [digit_value c], exp10 - 1, dropped)
        else if c \<noteq> 0x30 then (digits, exp10, True) else a)"

definition exp_digit :: "byte \<Rightarrow> int \<Rightarrow> int" where
  "exp_digit c e = (if e < 100000 then e * 10 + int (digit_value c) else e)"

text \<open>The three parts of a number's text; \<open>None\<close> is a malformed number.\<close>

definition read_int_part :: "byte list \<Rightarrow> ((nat list \<times> int) \<times> byte list) option" where
  "read_int_part s =
     (case s of
        [] \<Rightarrow> None
      | c # s1 \<Rightarrow>
          if c = 0x30 then Some (([], 0), s1)
          else if 0x31 \<le> c \<and> c \<le> 0x39 then
            Some (fold keep_int_digit (takeWhile is_digit s) ([], 0), dropWhile is_digit s)
          else None)"

definition read_frac_part :: "nat list \<times> int \<Rightarrow> byte list \<Rightarrow> ((nat list \<times> int \<times> bool) \<times> byte list) option" where
  "read_frac_part a s =
     (case a of (digits, exp10) \<Rightarrow>
        if s \<noteq> [] \<and> hd s = 0x2E then
          (if tl s \<noteq> [] \<and> is_digit (hd (tl s)) then
             Some (fold keep_frac_digit (takeWhile is_digit (tl s)) (digits, exp10, False), dropWhile is_digit (tl s))
           else None)
        else Some ((digits, exp10, False), s))"

definition read_exp_part :: "byte list \<Rightarrow> (int \<times> byte list) option" where
  "read_exp_part s =
     (if s \<noteq> [] \<and> (hd s = 0x65 \<or> hd s = 0x45) then
        (let s1 = tl s;
             signed = (s1 \<noteq> [] \<and> (hd s1 = 0x2B \<or> hd s1 = 0x2D));
             exp_negative = (signed \<and> hd s1 = 0x2D);
             s2 = (if signed then tl s1 else s1)
         in if s2 \<noteq> [] \<and> is_digit (hd s2) then
              (let e = fold exp_digit (takeWhile is_digit s2) 0
               in Some (if exp_negative then - e else e, dropWhile is_digit s2))
            else None)
      else Some (0, s))"

text \<open>The two accumulation loops; \<open>None\<close> is the early return. C's division rounds towards zero.\<close>

fun accumulate :: "int \<Rightarrow> nat list \<Rightarrow> int option" where
  "accumulate v [] = Some v"
| "accumulate v (d # ds) =
     (if v < (INT64_MIN + int d) sdiv 10 then None else accumulate (v * 10 - int d) ds)"

fun scale_up :: "int \<Rightarrow> nat \<Rightarrow> int option" where
  "scale_up v 0 = Some v"
| "scale_up v (Suc k) = (if v < INT64_MIN sdiv 10 then None else scale_up (v * 10) k)"

definition number_value :: "bool \<Rightarrow> nat list \<Rightarrow> int \<Rightarrow> bool \<Rightarrow> number_kind \<times> int" where
  "number_value negative digits exp10 any_dropped_nonzero =
     (let sig = dropWhile (\<lambda>d. d = 0) digits;
          zeros = length (takeWhile (\<lambda>d. d = 0) (rev sig));
          kept = take (length sig - zeros) sig;
          e = exp10 + int zeros
      in if kept = [] then (if any_dropped_nonzero then NUMBER_FRACTIONAL else NUMBER_INTEGRAL, 0)
         else if e < 0 \<or> any_dropped_nonzero then (NUMBER_FRACTIONAL, 0)
         else if 19 < int (length kept) + e then (NUMBER_OUT_OF_RANGE, 0)
         else case accumulate 0 kept of
                None \<Rightarrow> (NUMBER_OUT_OF_RANGE, 0)
              | Some v \<Rightarrow>
                  (case scale_up v (nat e) of
                     None \<Rightarrow> (NUMBER_OUT_OF_RANGE, 0)
                   | Some w \<Rightarrow> if \<not> negative then
                                 (if w = INT64_MIN then (NUMBER_OUT_OF_RANGE, 0) else (NUMBER_INTEGRAL, - w))
                               else (NUMBER_INTEGRAL, w)))"

text \<open>The number at the head of a text, and what follows it.\<close>

definition scan_number :: "byte list \<Rightarrow> ((number_kind \<times> int) \<times> byte list) option" where
  "scan_number s =
     (let negative = (s \<noteq> [] \<and> hd s = 0x2D); s1 = (if negative then tl s else s) in
      do {
        (a, s2) \<leftarrow> read_int_part s1;
        ((digits, e, dropped), s3) \<leftarrow> read_frac_part a s2;
        (x, s4) \<leftarrow> read_exp_part s3;
        Some (number_value negative digits (e + x) dropped, s4)
      })"

definition read_number :: "reader \<Rightarrow> (number_kind \<times> int) \<times> reader" where
  "read_number r =
     (case scan_number (jr_p r) of
        None \<Rightarrow> ((NUMBER_FRACTIONAL, 0), syntax_error ''Malformed number'' r)
      | Some (v, s) \<Rightarrow> (v, r\<lparr>jr_p := s\<rparr>))"

definition read_literal :: "string \<Rightarrow> reader \<Rightarrow> bool \<times> reader" where
  "read_literal word r =
     (if length (jr_p r) < length word \<or> take (length word) (jr_p r) \<noteq> bytes_of word
      then (False, syntax_error ''Unexpected token'' r)
      else (True, r\<lparr>jr_p := drop (length word) (jr_p r)\<rparr>))"


section \<open>Generic values\<close>

definition quoted :: "string \<Rightarrow> string" where
  "quoted s = [CHR 0x27] @ s @ [CHR 0x27]"

text \<open>The members seen so far of one object, by hash and length of their names.\<close>

type_synonym members = "(u64 \<times> nat) list"

definition member_is_duplicate :: "members \<Rightarrow> json_text \<Rightarrow> reader \<Rightarrow> bool \<times> members \<times> reader" where
  "member_is_duplicate m name r =
     (if (tx_hash name, tx_bytes name) \<in> set m
      then (True, m, syntax_error ''A member name appears twice in one object'' r)
      else if MAX_MEMBERS \<le> length m then (True, m, syntax_error ''An object has too many members'' r)
      else (False, m @ [(tx_hash name, tx_bytes name)], r))"

text \<open>The head of one member, up to and including the colon: \<open>Inl\<close> is the return on an error.\<close>

definition member_name :: "members \<Rightarrow> reader \<Rightarrow> reader + json_text \<times> members \<times> reader" where
  "member_name m r =
     (let r1 = skip_ws r in
      if \<not> jr_peek 0x22 r1 then Inl (syntax_error ''Expected a member name'' r1)
      else case read_string (fresh_text True (NAME_MAX + 1)) r1 of
        (r2, name) \<Rightarrow>
          if failed r2 then Inl r2
          else (case member_is_duplicate m name r2 of
                  (dup, m', r3) \<Rightarrow>
                    if dup then Inl r3
                    else (let r4 = skip_ws r3 in
                          if \<not> jr_peek 0x3A r4 then Inl (syntax_error (''Expected '' @ quoted '':'' @ '' after a member name'') r4)
                          else Inr (name, m', advance r4))))"

text \<open>What follows an item: true when a comma says that there is another.\<close>

definition next_item :: "byte \<Rightarrow> string \<Rightarrow> reader \<Rightarrow> bool \<times> reader" where
  "next_item close message r =
     (let r1 = skip_ws r in
      if jr_peek 0x2C r1 then (True, advance r1)
      else if jr_peek close r1 then (False, advance r1)
      else (False, syntax_error message r1))"

abbreviation next_member :: "reader \<Rightarrow> bool \<times> reader" where
  "next_member \<equiv> next_item 0x7D (''Expected '' @ quoted '','' @ '' or '' @ quoted ''}'' @ '' in an object'')"

abbreviation next_element :: "reader \<Rightarrow> bool \<times> reader" where
  "next_element \<equiv> next_item 0x5D (''Expected '' @ quoted '','' @ '' or '' @ quoted '']'' @ '' in an array'')"

text \<open>One level deeper, as long as the cap allows it.\<close>

definition nested :: "(reader \<Rightarrow> reader option) \<Rightarrow> reader \<Rightarrow> reader option" where
  "nested f r =
     (if WEB_JSON_MAX_DEPTH \<le> jr_depth r then Some (syntax_error ''The body is nested too deeply'' r)
      else do { r1 \<leftarrow> f (r\<lparr>jr_depth := jr_depth r + 1\<rparr>); Some (r1\<lparr>jr_depth := jr_depth r1 - 1\<rparr>) })"

text \<open>The values without parts: \<open>c\<close> is the byte they begin with.\<close>

definition skip_scalar :: "byte \<Rightarrow> reader \<Rightarrow> reader" where
  "skip_scalar c r =
     (if c = 0x22 then fst (read_string (fresh_text False 0) r)
      else if c = 0x74 then snd (read_literal ''true'' r)
      else if c = 0x66 then snd (read_literal ''false'' r)
      else if c = 0x6E then snd (read_literal ''null'' r)
      else if c = 0x2D \<or> is_digit c then snd (read_number r)
      else syntax_error ''Unexpected token'' r)"

text \<open>
  The recursion through the body goes by nesting. The loops of \<^verbatim>\<open>skip_object\<close> and \<^verbatim>\<open>skip_array\<close> take the function
  that reads a value as an argument, and a bound on their rounds: every round consumes a byte, so the number of
  bytes left, plus one, is enough. \<open>skip_value\<close> is cut by a bound on the nesting, which the depth cap makes
  unreachable. \<open>None\<close> is a bound run out.
\<close>

fun skip_members :: "(reader \<Rightarrow> reader option) \<Rightarrow> nat \<Rightarrow> members \<Rightarrow> reader \<Rightarrow> reader option" where
  "skip_members value_at 0 m r = None"
| "skip_members value_at (Suc k) m r =
     (case member_name m r of
        Inl r1 \<Rightarrow> Some r1
      | Inr (name, m', r1) \<Rightarrow> do {
          r2 \<leftarrow> value_at r1;
          if failed r2 then Some r2
          else (case next_member r2 of
                  (True, r3) \<Rightarrow> skip_members value_at k m' r3
                | (False, r3) \<Rightarrow> Some r3) })"

definition skip_object :: "(reader \<Rightarrow> reader option) \<Rightarrow> reader \<Rightarrow> reader option" where
  "skip_object value_at r =
     (let r1 = skip_ws (advance r) in
      if jr_peek 0x7D r1 then Some (advance r1) else skip_members value_at (Suc (length (jr_p r1))) [] r1)"

fun skip_elements :: "(reader \<Rightarrow> reader option) \<Rightarrow> nat \<Rightarrow> reader \<Rightarrow> reader option" where
  "skip_elements value_at 0 r = None"
| "skip_elements value_at (Suc k) r = do {
     r1 \<leftarrow> value_at r;
     if failed r1 then Some r1
     else (case next_element r1 of
             (True, r2) \<Rightarrow> skip_elements value_at k r2
           | (False, r2) \<Rightarrow> Some r2) }"

definition skip_array :: "(reader \<Rightarrow> reader option) \<Rightarrow> reader \<Rightarrow> reader option" where
  "skip_array value_at r =
     (let r1 = skip_ws (advance r) in
      if jr_peek 0x5D r1 then Some (advance r1) else skip_elements value_at (Suc (length (jr_p r1))) r1)"

fun skip_value :: "nat \<Rightarrow> reader \<Rightarrow> reader option" where
  "skip_value 0 r = None"
| "skip_value (Suc n) r =
     (let r1 = skip_ws r in
      case jr_p r1 of
        [] \<Rightarrow> Some (syntax_error ''Unexpected end of the body'' r1)
      | c # _ \<Rightarrow>
          if c = 0x7B then nested (skip_object (skip_value n)) r1
          else if c = 0x5B then nested (skip_array (skip_value n)) r1
          else Some (skip_scalar c r1))"

section \<open>Schemas\<close>

definition WEB_JSON_REQUIRED :: byte where "WEB_JSON_REQUIRED = 1"
definition WEB_JSON_NULLABLE :: byte where "WEB_JSON_NULLABLE = 2"
definition WEB_JSON_PRESENT :: byte where "WEB_JSON_PRESENT = 4"
definition WEB_JSON_ONEOF :: byte where "WEB_JSON_ONEOF = 8"

text \<open>
  A member's description. \<^verbatim>\<open>type\<close> and the members of \<^verbatim>\<open>struct web_json_field\<close> that only this type uses are one
  value of \<open>web_json_type\<close>; a pointer that a type always follows is what it points to. \<open>WEB_JSON_OTHER\<close> is any
  other value of \<^verbatim>\<open>type\<close>.
\<close>

datatype web_json_field =
  Field (wf_name: "byte list") (wf_flags: byte) (wf_offset: nat) (wf_present_offset: nat)
    (wf_null_offset: nat) (wf_type: web_json_type)
and web_json_type =
    WEB_JSON_STRING (ws_size: nat) (ws_min_len: nat) (ws_max_len: nat) (ws_enum_values: "byte list list option")
      (ws_format: "(byte list \<Rightarrow> bool) option")
  | WEB_JSON_BOOL
  | WEB_JSON_INT (wi_min: int) (wi_max: int)
  | WEB_JSON_OBJECT (wo_fields: "web_json_field list")
  | WEB_JSON_ARRAY (wa_items: web_json_field) (wa_item_size: nat) (wa_min_len: nat) (wa_max_len: nat)
      (wa_count_offset: nat)
  | WEB_JSON_OTHER

definition has_flag :: "web_json_field \<Rightarrow> byte \<Rightarrow> bool" where
  "has_flag f b \<longleftrightarrow> wf_flags f AND b \<noteq> 0"

text \<open>Where a value of \<open>n\<close> bytes goes, if it lies inside the destination; a pointer is an offset into it.\<close>

definition slot :: "reader \<Rightarrow> nat \<Rightarrow> nat \<Rightarrow> nat \<Rightarrow> nat option" where
  "slot r base offset n =
     (if length (jr_dest r) < base + offset + n then None else Some (base + offset))"

definition store_bytes :: "nat option \<Rightarrow> byte list \<Rightarrow> reader \<Rightarrow> reader" where
  "store_bytes p bs r = (case p of None \<Rightarrow> r | Some a \<Rightarrow> r\<lparr>jr_dest := blit a bs (jr_dest r)\<rparr>)"

text \<open>\<^verbatim>\<open>sizeof(bool)\<close>, \<^verbatim>\<open>sizeof(int64_t)\<close> and \<^verbatim>\<open>sizeof(size_t)\<close> on the device.\<close>

definition SIZEOF_BOOL :: nat where "SIZEOF_BOOL = 1"
definition SIZEOF_INT64 :: nat where "SIZEOF_INT64 = 8"
definition SIZEOF_SIZE_T :: nat where "SIZEOF_SIZE_T = 4"

definition set_flag :: "nat \<Rightarrow> nat \<Rightarrow> reader \<Rightarrow> reader" where
  "set_flag base offset r = store_bytes (slot r base offset SIZEOF_BOOL) [1] r"

definition in_enum :: "byte list list \<Rightarrow> byte list \<Rightarrow> bool" where
  "in_enum values v \<longleftrightarrow> v \<in> set values"

text \<open>What \<^verbatim>\<open>read_string\<close> leaves in the destination: the text and its terminator.\<close>

definition store_text :: "nat option \<Rightarrow> json_text \<Rightarrow> reader \<Rightarrow> reader" where
  "store_text dst t r =
     (case tx_text t of
        None \<Rightarrow> r
      | Some s \<Rightarrow> if tx_cap t = 0 then r else store_bytes dst (s @ [0]) r)"

definition read_string_field ::
    "nat \<Rightarrow> nat \<Rightarrow> nat \<Rightarrow> byte list list option \<Rightarrow> (byte list \<Rightarrow> bool) option \<Rightarrow> nat \<Rightarrow> nat \<Rightarrow> reader \<Rightarrow> reader" where
  "read_string_field n min_len max_len enum_values format_ok offset base r =
     (let dst = slot r base offset n in
      case read_string (fresh_text (dst \<noteq> None) (if dst \<noteq> None then n else 0)) r of
        (r1, t) \<Rightarrow>
          let r2 = store_text dst t r1;
              text_at = cstr (drop (base + offset) (jr_dest r2));
              rejected = (\<lambda>code. store_bytes dst (replicate n 0) (report code r2))
          in if failed r2 then r2
             else if tx_overflow t \<or> 0 < max_len \<and> max_len < tx_chars t then rejected API_FIELD_TOO_LONG
             else if tx_chars t < min_len then rejected API_FIELD_OUT_OF_RANGE
             else if tx_bad t \<or>
               (case format_ok of None \<Rightarrow> False | Some p \<Rightarrow> dst \<noteq> None \<and> \<not> p text_at)
             then rejected API_FIELD_INVALID_FORMAT
             else if (case enum_values of None \<Rightarrow> False | Some vs \<Rightarrow> dst \<noteq> None \<and> \<not> in_enum vs text_at)
             then rejected API_FIELD_NOT_ALLOWED
             else r2)"

definition read_bool :: "nat \<Rightarrow> nat \<Rightarrow> reader \<Rightarrow> reader" where
  "read_bool offset base r =
     (let v = jr_peek 0x74 r in
      case read_literal (if v then ''true'' else ''false'') r of
        (ok, r1) \<Rightarrow> if ok then store_bytes (slot r1 base offset SIZEOF_BOOL) [if v then 1 else 0] r1 else r1)"

text \<open>The bytes of an \<^verbatim>\<open>int64_t\<close>, little-endian and in two's complement.\<close>

definition int64_bytes :: "int \<Rightarrow> byte list" where
  "int64_bytes v = put_le 8 (nat (v mod 2 ^ 64))"

definition read_int :: "int \<Rightarrow> int \<Rightarrow> nat \<Rightarrow> nat \<Rightarrow> reader \<Rightarrow> reader" where
  "read_int lo hi offset base r =
     (case read_number r of
        ((kind, v), r1) \<Rightarrow>
          if failed r1 then r1
          else if kind = NUMBER_FRACTIONAL then report API_FIELD_INVALID_FORMAT r1
          else if kind = NUMBER_OUT_OF_RANGE \<or> v < lo \<or> hi < v then report API_FIELD_OUT_OF_RANGE r1
          else store_bytes (slot r1 base offset SIZEOF_INT64) (int64_bytes v) r1)"

definition read_null :: "web_json_field \<Rightarrow> nat \<Rightarrow> reader \<Rightarrow> reader" where
  "read_null f base r =
     (case read_literal ''null'' r of
        (ok, r1) \<Rightarrow>
          if \<not> ok then r1
          else if has_flag f WEB_JSON_NULLABLE then set_flag base (wf_null_offset f) r1
          else report API_FIELD_INVALID_FORMAT r1)"

text \<open>The index of the member a name belongs to.\<close>

definition find_field :: "web_json_field list \<Rightarrow> json_text \<Rightarrow> nat option" where
  "find_field fs name =
     (if tx_overflow name then None
      else case tx_text name of None \<Rightarrow> None | Some s \<Rightarrow> find_index (\<lambda>f. wf_name f = s) fs)"

text \<open>\<^verbatim>\<open>BIT64(i)\<close>.\<close>

definition bit64 :: "nat \<Rightarrow> u64" where
  "bit64 i = push_bit i 1"

definition report_missing :: "u64 \<Rightarrow> nat \<times> web_json_field \<Rightarrow> reader \<Rightarrow> reader" where
  "report_missing seen jf r =
     (case jf of (i, f) \<Rightarrow>
        if has_flag f WEB_JSON_REQUIRED \<and> seen AND bit64 i = 0
        then path_pop (length (jr_path r)) (report API_FIELD_REQUIRED (path_push_bytes (wf_name f) r))
        else r)"

definition check_required :: "web_json_field list \<Rightarrow> u64 \<Rightarrow> reader \<Rightarrow> reader" where
  "check_required fs seen r = fold (report_missing seen) (List.enumerate 0 fs) r"

definition push_member_name :: "json_text \<Rightarrow> reader \<Rightarrow> reader" where
  "push_member_name name r =
     (if tx_overflow name then r
      else case tx_text name of None \<Rightarrow> r | Some s \<Rightarrow> path_push_bytes s r)"

text \<open>A \<open>WEB_JSON_ONEOF\<close> value: all its problems become one.\<close>

definition merge_oneof :: "web_json_field \<Rightarrow> reader \<Rightarrow> reader \<Rightarrow> reader" where
  "merge_oneof f before r =
     (if has_flag f WEB_JSON_ONEOF \<and> \<not> failed r \<and>
         (length (jr_fields r) \<noteq> length (jr_fields before) \<or> jr_truncated r \<noteq> jr_truncated before)
      then report API_FIELD_CONFLICTING
             (r\<lparr>jr_fields := take (length (jr_fields before)) (jr_fields r), jr_truncated := jr_truncated before\<rparr>)
      else r)"

text \<open>The end of an array: its length is judged and stored.\<close>

definition finish_array :: "nat \<Rightarrow> nat \<Rightarrow> nat \<Rightarrow> nat \<Rightarrow> nat \<Rightarrow> reader \<Rightarrow> reader" where
  "finish_array count min_len max_len count_offset base r =
     (let r1 = (if max_len < count \<or> count < min_len then report API_FIELD_OUT_OF_RANGE r else r)
      in store_bytes (slot r1 base count_offset SIZEOF_SIZE_T) (put_le SIZEOF_SIZE_T (min count max_len)) r1)"

text \<open>
  The loops again take what reads a member's value (\<open>value_at\<close>) and what skips one (\<open>skip_at\<close>). A value that is
  not of the declared type is read for its syntax and reported.
\<close>

definition skip_mistyped :: "(reader \<Rightarrow> reader option) \<Rightarrow> reader \<Rightarrow> reader option" where
  "skip_mistyped skip_at r = do {
     r1 \<leftarrow> skip_at r;
     Some (if failed r1 then r1 else report API_FIELD_INVALID_FORMAT r1) }"

type_synonym value_reader = "web_json_field \<Rightarrow> nat \<Rightarrow> reader \<Rightarrow> reader option"

definition read_field_value :: "value_reader \<Rightarrow> value_reader" where
  "read_field_value value_at f base r = do { r1 \<leftarrow> value_at f base r; Some (merge_oneof f r r1) }"

text \<open>The value of one member, and the members seen.\<close>

definition read_member_value ::
    "value_reader \<Rightarrow> (reader \<Rightarrow> reader option) \<Rightarrow> web_json_field list \<Rightarrow> nat \<Rightarrow> json_text \<Rightarrow> u64 \<Rightarrow> reader
       \<Rightarrow> (reader \<times> u64) option" where
  "read_member_value value_at skip_at fs base name seen r =
     (case (if tx_bad name then None else find_field fs name) of
        None \<Rightarrow> do { r1 \<leftarrow> skip_at r; Some (if failed r1 then r1 else report API_FIELD_UNKNOWN r1, seen) }
      | Some i \<Rightarrow>
          let f = fs ! i; r1 = (if has_flag f WEB_JSON_PRESENT then set_flag base (wf_present_offset f) r else r)
          in do { r2 \<leftarrow> read_field_value value_at f base r1; Some (r2, seen OR bit64 i) })"

fun read_members ::
    "value_reader \<Rightarrow> (reader \<Rightarrow> reader option) \<Rightarrow> nat \<Rightarrow> web_json_field list \<Rightarrow> nat \<Rightarrow> members \<Rightarrow> u64 \<Rightarrow> reader
       \<Rightarrow> (reader \<times> u64) option" where
  "read_members value_at skip_at 0 fs base m seen r = None"
| "read_members value_at skip_at (Suc k) fs base m seen r =
     (case member_name m r of
        Inl r1 \<Rightarrow> Some (r1, seen)
      | Inr (name, m', r1) \<Rightarrow> do {
          (r2, seen') \<leftarrow> read_member_value value_at skip_at fs base name seen (push_member_name name r1);
          let r3 = path_pop (length (jr_path r1)) r2;
          if failed r3 then Some (r3, seen')
          else (case next_member r3 of
                  (True, r4) \<Rightarrow> read_members value_at skip_at k fs base m' seen' r4
                | (False, r4) \<Rightarrow> Some (r4, seen')) })"

definition read_object ::
    "value_reader \<Rightarrow> (reader \<Rightarrow> reader option) \<Rightarrow> web_json_field list \<Rightarrow> nat \<Rightarrow> reader \<Rightarrow> reader option" where
  "read_object value_at skip_at fs base r =
     (let r1 = skip_ws (advance r) in do {
        (r2, seen) \<leftarrow> (if jr_peek 0x7D r1 then Some (advance r1, 0)
                        else read_members value_at skip_at (Suc (length (jr_p r1))) fs base [] 0 r1);
        Some (if failed r2 then r2 else check_required fs seen r2) })"

definition read_element_value ::
    "value_reader \<Rightarrow> (reader \<Rightarrow> reader option) \<Rightarrow> web_json_field \<Rightarrow> nat \<Rightarrow> nat \<Rightarrow> nat option \<Rightarrow> nat \<Rightarrow> reader
       \<Rightarrow> reader option" where
  "read_element_value value_at skip_at item item_size max_len items count r =
     (case items of
        None \<Rightarrow> skip_at r
      | Some a \<Rightarrow> if count < max_len then read_field_value value_at item (a + count * item_size) r else skip_at r)"

fun read_elements ::
    "value_reader \<Rightarrow> (reader \<Rightarrow> reader option) \<Rightarrow> nat \<Rightarrow> web_json_field \<Rightarrow> nat \<Rightarrow> nat \<Rightarrow> nat option \<Rightarrow> nat \<Rightarrow> reader
       \<Rightarrow> (reader \<times> nat) option" where
  "read_elements value_at skip_at 0 item item_size max_len items count r = None"
| "read_elements value_at skip_at (Suc k) item item_size max_len items count r = do {
     r1 \<leftarrow> read_element_value value_at skip_at item item_size max_len items count (path_push_index count r);
     let r2 = path_pop (length (jr_path r)) r1;
     if failed r2 then Some (r2, count + 1)
     else (case next_element r2 of
             (True, r3) \<Rightarrow> read_elements value_at skip_at k item item_size max_len items (count + 1) r3
           | (False, r3) \<Rightarrow> Some (r3, count + 1)) }"

definition read_array_field ::
    "value_reader \<Rightarrow> (reader \<Rightarrow> reader option) \<Rightarrow> web_json_field \<Rightarrow> nat \<Rightarrow> nat \<Rightarrow> nat \<Rightarrow> nat \<Rightarrow> nat \<Rightarrow> nat \<Rightarrow> reader
       \<Rightarrow> reader option" where
  "read_array_field value_at skip_at item item_size min_len max_len count_offset offset base r =
     (let items = slot r base offset (item_size * max_len); r1 = skip_ws (advance r) in do {
        (r2, count) \<leftarrow>
          (if jr_peek 0x5D r1 then Some (advance r1, 0)
           else read_elements value_at skip_at (Suc (length (jr_p r1))) item item_size max_len items 0 r1);
        Some (if failed r2 then r2 else finish_array count min_len max_len count_offset base r2) })"

text \<open>The \<^verbatim>\<open>switch\<close> over the declared type; \<open>None\<close> when the value that begins with \<open>c\<close> is not of it.\<close>

definition read_typed ::
    "value_reader \<Rightarrow> (reader \<Rightarrow> reader option) \<Rightarrow> byte \<Rightarrow> web_json_field \<Rightarrow> nat \<Rightarrow> (reader \<Rightarrow> reader option) option" where
  "read_typed value_at skip_at c f base =
     (case wf_type f of
        WEB_JSON_STRING sz lo hi vs p \<Rightarrow>
          if c = 0x22 then Some (\<lambda>r. Some (read_string_field sz lo hi vs p (wf_offset f) base r)) else None
      | WEB_JSON_BOOL \<Rightarrow>
          if c = 0x74 \<or> c = 0x66 then Some (\<lambda>r. Some (read_bool (wf_offset f) base r)) else None
      | WEB_JSON_INT lo hi \<Rightarrow>
          if c = 0x2D \<or> is_digit c then Some (\<lambda>r. Some (read_int lo hi (wf_offset f) base r)) else None
      | WEB_JSON_OBJECT fs \<Rightarrow>
          if c = 0x7B then Some (nested (read_object value_at skip_at fs (base + wf_offset f))) else None
      | WEB_JSON_ARRAY item item_size lo hi count_offset \<Rightarrow>
          if c = 0x5B
          then Some (nested (read_array_field value_at skip_at item item_size lo hi count_offset (wf_offset f) base))
          else None
      | WEB_JSON_OTHER \<Rightarrow> None)"

fun read_value :: "nat \<Rightarrow> value_reader" where
  "read_value 0 f base r = None"
| "read_value (Suc n) f base r =
     (let r1 = skip_ws r in
      case jr_p r1 of
        [] \<Rightarrow> Some (syntax_error ''Unexpected end of the body'' r1)
      | c # _ \<Rightarrow>
          if c = 0x6E then Some (read_null f base r1)
          else (case read_typed (read_value n) (skip_value n) c f base of
                  Some read_it \<Rightarrow> read_it r1
                | None \<Rightarrow> skip_mistyped (skip_value (Suc n)) r1))"

section \<open>The order of reports\<close>

definition all_digits :: "byte list \<Rightarrow> bool" where
  "all_digits s \<longleftrightarrow> s \<noteq> [] \<and> (\<forall>c \<in> set s. is_digit c)"

text \<open>The sign of \<^verbatim>\<open>memcmp\<close> on the common length.\<close>

fun memcmp_sign :: "byte list \<Rightarrow> byte list \<Rightarrow> int" where
  "memcmp_sign (x # xs) (y # ys) = (if x < y then - 1 else if y < x then 1 else memcmp_sign xs ys)"
| "memcmp_sign _ _ = 0"

definition segment_compare :: "byte list \<Rightarrow> byte list \<Rightarrow> int" where
  "segment_compare a b =
     (if all_digits a \<and> all_digits b \<and> length a \<noteq> length b then (if length a < length b then - 1 else 1)
      else let c = memcmp_sign a b in
           if c = 0 \<and> length a \<noteq> length b then (if length a < length b then - 1 else 1) else c)"

definition next_char :: "byte list \<Rightarrow> byte" where
  "next_char s = (case s of [] \<Rightarrow> 0 | c # _ \<Rightarrow> c)"

function path_compare_loop :: "byte list \<Rightarrow> byte list \<Rightarrow> int" where
  "path_compare_loop a b =
     (if next_char a = 0x2F \<and> next_char b = 0x2F then
        (let sa = takeWhile (\<lambda>c. c \<noteq> 0x2F) (tl a); sb = takeWhile (\<lambda>c. c \<noteq> 0x2F) (tl b);
             c = segment_compare sa sb
         in if c \<noteq> 0 then c else path_compare_loop (drop (length sa) (tl a)) (drop (length sb) (tl b)))
      else if next_char a = next_char b then 0
      else if next_char a = 0 then - 1 else 1)"
  by pat_completeness auto
termination
  by (relation "measure (length \<circ> fst)") (auto simp: next_char_def split: list.splits)

declare path_compare_loop.simps [simp del]

definition path_compare :: "byte list \<Rightarrow> byte list \<Rightarrow> int" where
  "path_compare a b =
     path_compare_loop (if a = [0x2F] then [] else a) (if b = [0x2F] then [] else b)"

definition precedence :: "api_field_code \<Rightarrow> nat" where
  "precedence code =
     (case code of
        API_FIELD_REQUIRED \<Rightarrow> 0 | API_FIELD_UNKNOWN \<Rightarrow> 1 | API_FIELD_TOO_LONG \<Rightarrow> 2 | API_FIELD_OUT_OF_RANGE \<Rightarrow> 3
      | API_FIELD_INVALID_FORMAT \<Rightarrow> 4 | API_FIELD_NOT_ALLOWED \<Rightarrow> 5 | _ \<Rightarrow> 6)"

text \<open>The inner loop: \<open>tmp\<close> goes behind the last entry that does not compare greater.\<close>

definition insert_field :: "collected \<Rightarrow> collected list \<Rightarrow> collected list" where
  "insert_field tmp xs =
     (let k = length xs - length (takeWhile (\<lambda>c. 0 < path_compare (cf_path c) (cf_path tmp)) (rev xs))
      in take k xs @ [tmp] @ drop k xs)"

text \<open>The second loop; \<open>out\<close> is what was kept so far.\<close>

fun merge_fields :: "collected list \<Rightarrow> collected list \<Rightarrow> collected list" where
  "merge_fields out [] = out"
| "merge_fields out (x # xs) =
     (if out \<noteq> [] \<and> cf_path (last out) = cf_path x then
        (if precedence (cf_code x) < precedence (cf_code (last out))
         then merge_fields (butlast out @ [(last out)\<lparr>cf_code := cf_code x\<rparr>]) xs
         else merge_fields out xs)
      else merge_fields (out @ [x]) xs)"

definition sort_fields :: "collected list \<Rightarrow> collected list" where
  "sort_fields xs = merge_fields [] (fold insert_field xs [])"

section \<open>Decoding\<close>

definition string_of :: "byte list \<Rightarrow> string" where
  "string_of bs = map (\<lambda>b. char_of (unat b)) bs"

definition add_collected :: "collected \<Rightarrow> api_error \<Rightarrow> api_error" where
  "add_collected c err = snd (api_error_add_field err (Some (string_of (cf_path c))) (cf_code c))"

text \<open>\<^verbatim>\<open>(void)api_error_init(err, code, message, NULL)\<close>.\<close>

definition init_error ::
    "u32 \<Rightarrow> api_error_code \<Rightarrow> string \<Rightarrow> api_error \<Rightarrow> request_id_gen \<Rightarrow> api_error \<times> request_id_gen" where
  "init_error cycles code message err g =
     (case api_error_init cycles code (Some message) None g of
        (Inl _, g') \<Rightarrow> (err, g')
      | (Inr e, g') \<Rightarrow> (e, g'))"

definition start_reader :: "byte list \<Rightarrow> nat \<Rightarrow> reader" where
  "start_reader body dest_size =
     \<lparr>jr_p = body, jr_syntax = None, jr_fields = [], jr_truncated = False, jr_path = [], jr_depth = 0,
      jr_dest = replicate dest_size 0\<rparr>"

text \<open>The reading part of \<^verbatim>\<open>web_json_decode\<close>.\<close>

definition read_body :: "web_json_field list \<Rightarrow> byte list \<Rightarrow> nat \<Rightarrow> reader option" where
  "read_body schema body dest_size =
     (let n = WEB_JSON_MAX_DEPTH; r = skip_ws (start_reader body dest_size) in do {
        r1 \<leftarrow> (if jr_peek 0x7B r
               then do { r' \<leftarrow> read_object (read_value n) (skip_value n) schema 0 (r\<lparr>jr_depth := 1\<rparr>); Some (r'\<lparr>jr_depth := 0\<rparr>) }
               else skip_mistyped (skip_value (Suc n)) r);
        Some (if failed r1 then r1
              else let r2 = skip_ws r1 in
                   if jr_p r2 \<noteq> [] then syntax_error ''Unexpected data after the JSON value'' r2 else r2) })"

text \<open>What is made of the reader's findings: the return value (\<open>None\<close> is 0), the destination, the error record and
  the request id generator.\<close>

definition decode_result ::
    "nat \<Rightarrow> u32 \<Rightarrow> api_error \<Rightarrow> request_id_gen \<Rightarrow> reader \<Rightarrow> errno option \<times> byte list \<times> api_error \<times> request_id_gen" where
  "decode_result dest_size cycles err g r =
     (case jr_syntax r of
        Some message \<Rightarrow>
          (case init_error cycles API_ERR_INVALID_JSON message err g of
             (e, g') \<Rightarrow> (Some EBADMSG, replicate dest_size 0, e, g'))
      | None \<Rightarrow>
          if length (jr_fields r) = 0 then (None, jr_dest r, err, g)
          else (case init_error cycles API_ERR_VALIDATION_FAILED ''The request body is not acceptable'' err g of
                  (e, g') \<Rightarrow>
                    let e1 = fold add_collected (sort_fields (jr_fields r)) e;
                        e2 = (if jr_truncated r then e1\<lparr>ae_fields_truncated := True\<rparr> else e1)
                    in (Some EINVAL, replicate dest_size 0, e2, g')))"

definition web_json_decode ::
    "byte list \<Rightarrow> web_json_field list \<Rightarrow> nat \<Rightarrow> u32 \<Rightarrow> api_error \<Rightarrow> request_id_gen
       \<Rightarrow> (errno option \<times> byte list \<times> api_error \<times> request_id_gen) option" where
  "web_json_decode body schema dest_size cycles err g = do {
     r \<leftarrow> read_body schema body dest_size;
     Some (decode_result dest_size cycles err g r) }"

end
