(* ===== verification/Json_Utf8.thy ===== *)
theory Json_Utf8
  imports Json_Reader
begin

text \<open>
  UTF-8 by arithmetic, and that the reader takes exactly the encodings of scalar values.
\<close>

section \<open>UTF-8\<close>

text \<open>The encoding of a code point, by arithmetic.\<close>

definition scalar_value :: "nat \<Rightarrow> bool" where
  "scalar_value n \<longleftrightarrow> n \<le> 0x10FFFF \<and> \<not> (0xD800 \<le> n \<and> n \<le> 0xDFFF)"

definition utf8_of :: "nat \<Rightarrow> byte list" where
  "utf8_of n =
     (if n < 0x80 then [of_nat n]
      else if n < 0x800 then [of_nat (0xC0 + n div 64), of_nat (0x80 + n mod 64)]
      else if n < 0x10000 then
        [of_nat (0xE0 + n div 4096), of_nat (0x80 + n div 64 mod 64), of_nat (0x80 + n mod 64)]
      else [of_nat (0xF0 + n div 262144), of_nat (0x80 + n div 4096 mod 64), of_nat (0x80 + n div 64 mod 64),
            of_nat (0x80 + n mod 64)])"

lemma utf8_of_nonempty [simp]: "utf8_of n \<noteq> []"
  by (simp add: utf8_of_def)

subsection \<open>Bits as arithmetic\<close>

lemma unat_and_mask: "unat (w AND mask n :: 'a::len word) = unat w mod 2 ^ n"
proof -
  have "unat (take_bit n w) = take_bit n (unat w)" by (rule unsigned_take_bit_eq)
  then show ?thesis by (simp only: take_bit_eq_mask [of n w] take_bit_eq_mod [of n "unat w"])
qed

lemma unat_drop_bit: "unat (drop_bit n w :: 'a::len word) = unat w div 2 ^ n"
proof -
  have "unat (drop_bit n w) = drop_bit n (take_bit LENGTH('a) (unat w))" by (rule unsigned_drop_bit_eq)
  moreover have "take_bit LENGTH('a) (unat w) = unat w"
    using unsigned_less [of w] by (simp only: take_bit_nat_eq_self_iff)
  ultimately show ?thesis by (simp only: drop_bit_eq_div [of n "unat w"])
qed

lemma nat_or_disjoint:
  fixes a b :: nat
  assumes "2 ^ k dvd a" "b < 2 ^ k"
  shows "a OR b = a + b"
proof -
  from assms(1) obtain c where a: "a = push_bit k c" by (auto simp: push_bit_eq_mult dvd_def mult.commute)
  have b: "b = take_bit k b" using assms(2) by (rule take_bit_nat_eq_self [symmetric])
  have "a AND b = 0"
  proof (rule bit_eqI)
    fix n
    have "\<not> bit b n" if "k \<le> n" using that by (subst b) (simp add: bit_simps)
    then show "bit (a AND b) n \<longleftrightarrow> bit (0 :: nat) n" by (auto simp: a bit_simps)
  qed
  then show ?thesis by (rule disjunctive_add_eq_or [symmetric])
qed

lemma unat_or_disjoint:
  fixes a b :: "'a::len word"
  assumes "2 ^ k dvd unat a" "unat b < 2 ^ k"
  shows "unat (a OR b) = unat a + unat b"
  using nat_or_disjoint [OF assms] by (simp add: unsigned_or_eq)

lemma unat_ucast_up: "LENGTH('a) \<le> LENGTH('b) \<Longrightarrow> unat (ucast (w :: 'a::len word) :: 'b::len word) = unat w"
proof -
  assume "LENGTH('a) \<le> LENGTH('b)"
  moreover have "unat w < 2 ^ LENGTH('a)" by (rule unsigned_less)
  ultimately have "unat w < 2 ^ LENGTH('b)" by (meson less_le_trans one_le_numeral power_increasing)
  then show ?thesis by (simp add: unsigned_ucast_eq take_bit_nat_eq_self_iff)
qed

lemma unat_and_not_mask: "unat (w AND NOT (mask n) :: 'a::len word) = unat w div 2 ^ n * 2 ^ n"
proof -
  let ?m = "w AND mask n"
  have "w - ?m = w AND NOT ?m"
    by (rule disjunctive_diff_eq_and_not) (auto simp: bit_eq_iff bit_simps)
  also have "\<dots> = w AND NOT (mask n)" by (auto simp: bit_eq_iff bit_simps)
  finally have "unat (w AND NOT (mask n)) = unat (w - ?m)" by simp
  also have "\<dots> = unat w - unat ?m" by (rule unat_sub) (simp add: word_le_nat_alt unat_and_mask)
  finally show ?thesis by (simp add: unat_and_mask minus_mod_eq_div_mult)
qed

lemma div_eq_range:
  fixes n q k :: nat
  assumes "0 < q"
  shows "n div q * q = k * q \<longleftrightarrow> k * q \<le> n \<and> n < k * q + q"
proof -
  have "n div q * q = k * q \<longleftrightarrow> k \<le> n div q \<and> n div q < k + 1" using assms by auto
  also have "\<dots> \<longleftrightarrow> k * q \<le> n \<and> n < (k + 1) * q"
    using assms by (simp add: less_eq_div_iff_mult_less_eq div_less_iff_less_mult)
  finally show ?thesis by (simp add: algebra_simps)
qed

lemma high_bits_range:
  fixes b :: "'a::len word"
  assumes "k * 2 ^ n < 2 ^ LENGTH('a)"
  shows "b AND NOT (mask n) = of_nat (k * 2 ^ n) \<longleftrightarrow> k * 2 ^ n \<le> unat b \<and> unat b < k * 2 ^ n + 2 ^ n"
proof -
  have "b AND NOT (mask n) = of_nat (k * 2 ^ n) \<longleftrightarrow> unat (b AND NOT (mask n)) = k * 2 ^ n"
    using assms unat_of_nat_small [where 'a = 'a, of "k * 2 ^ n"] by (simp only: word_unat_eq_iff)
  then show ?thesis by (simp only: unat_and_not_mask div_eq_range [of "2 ^ n"] zero_less_power zero_less_numeral)
qed

lemma byte_prefix:
  "(b :: byte) AND 0xE0 = 0xC0 \<longleftrightarrow> 192 \<le> unat b \<and> unat b < 224"
  "b AND 0xF0 = 0xE0 \<longleftrightarrow> 224 \<le> unat b \<and> unat b < 240"
  "b AND 0xF8 = 0xF0 \<longleftrightarrow> 240 \<le> unat b \<and> unat b < 248"
  "b AND 0xC0 = 0x80 \<longleftrightarrow> 128 \<le> unat b \<and> unat b < 192"
proof -
  have m: "NOT (mask 5) = (0xE0 :: byte)" "NOT (mask 4) = (0xF0 :: byte)" "NOT (mask 3) = (0xF8 :: byte)"
    "NOT (mask 6) = (0xC0 :: byte)" by (simp_all add: mask_eq_exp_minus_1)
  note h = high_bits_range [where 'a = 8, of _ _ b]
  show "b AND 0xE0 = 0xC0 \<longleftrightarrow> 192 \<le> unat b \<and> unat b < 224" using h [of 6 5] unfolding m by simp
  show "b AND 0xF0 = 0xE0 \<longleftrightarrow> 224 \<le> unat b \<and> unat b < 240" using h [of 14 4] unfolding m by simp
  show "b AND 0xF8 = 0xF0 \<longleftrightarrow> 240 \<le> unat b \<and> unat b < 248" using h [of 30 3] unfolding m by simp
  show "b AND 0xC0 = 0x80 \<longleftrightarrow> 128 \<le> unat b \<and> unat b < 192" using h [of 2 6] unfolding m by simp
qed

lemma byte_payload:
  "unat (b AND 0x1F :: byte) = unat b mod 32" "unat (b AND 0x0F :: byte) = unat b mod 16"
  "unat (b AND 0x07 :: byte) = unat b mod 8" "unat (b AND 0x3F :: byte) = unat b mod 64"
  using unat_and_mask [of b 5] unat_and_mask [of b 4] unat_and_mask [of b 3] unat_and_mask [of b 6]
  by (simp_all add: mask_eq_exp_minus_1)

lemma unat_shift_in:
  assumes "unat (cp :: u32) < 2 ^ 26"
  shows "unat (push_bit 6 cp OR ucast (b AND 0x3F :: byte)) = unat cp * 64 + unat b mod 64"
proof -
  have p: "unat (push_bit 6 cp) = unat cp * 64"
  proof -
    have "unat (push_bit 6 cp) = take_bit LENGTH(32) (push_bit 6 (unat cp))" by (rule unsigned_push_bit_eq)
    also have "\<dots> = push_bit 6 (unat cp)" using assms by (intro take_bit_nat_eq_self) (simp add: push_bit_eq_mult [of 6 "unat cp"])
    finally show ?thesis by (simp only: push_bit_eq_mult [of 6 "unat cp"]) simp
  qed
  have c: "unat (ucast (b AND 0x3F) :: u32) = unat b mod 64"
    by (simp add: unat_ucast_up byte_payload)
  have "unat (push_bit 6 cp OR ucast (b AND 0x3F)) = unat (push_bit 6 cp) + unat (ucast (b AND 0x3F) :: u32)"
    by (rule unat_or_disjoint [of 6]) (simp_all add: p c)
  then show ?thesis by (simp add: p c)
qed

subsection \<open>Encoding\<close>

lemma unat_cont: "unat (0x80 OR (w AND 0x3F) :: u32) = 128 + unat w mod 64"
proof -
  have c: "unat (w AND 0x3F) = unat w mod 64" using unat_and_mask [of w 6] by (simp add: mask_eq_exp_minus_1)
  show ?thesis by (subst unat_or_disjoint [of 6]) (simp_all add: c)
qed

lemma byte_of_u32: "unat (w :: u32) < 256 \<Longrightarrow> (ucast w :: byte) = of_nat (unat w)"
  by (simp add: unsigned_of_nat)

lemma utf8_of_code_point_eq:
  assumes "unat cp \<le> 0x10FFFF"
  shows "utf8_of_code_point cp = utf8_of (unat cp)"
proof -
  have lead: "unat (0xC0 OR drop_bit 6 cp) = 192 + unat cp div 64" if "unat cp < 0x800"
  proof (subst unat_or_disjoint [of 5])
    show "unat (drop_bit 6 cp) < 2 ^ 5" using that by (simp add: unat_drop_bit less_mult_imp_div_less)
  qed (simp_all add: unat_drop_bit)
  have lead3: "unat (0xE0 OR drop_bit 12 cp) = 224 + unat cp div 4096" if "unat cp < 0x10000"
  proof (subst unat_or_disjoint [of 4])
    show "unat (drop_bit 12 cp) < 2 ^ 4" using that by (simp add: unat_drop_bit less_mult_imp_div_less)
  qed (simp_all add: unat_drop_bit)
  have lead4: "unat (0xF0 OR drop_bit 18 cp) = 240 + unat cp div 262144"
  proof (subst unat_or_disjoint [of 3])
    show "unat (drop_bit 18 cp) < 2 ^ 3" using assms by (simp add: unat_drop_bit less_mult_imp_div_less)
  qed (simp_all add: unat_drop_bit)
  have cont: "ucast (0x80 OR (w AND 0x3F) :: u32) = (of_nat (128 + unat w mod 64) :: byte)" for w
    using byte_of_u32 [of "0x80 OR (w AND 0x3F)"] by (simp add: unat_cont)
  have l1: "ucast (0xC0 OR drop_bit 6 cp) = (of_nat (192 + unat cp div 64) :: byte)" if "unat cp < 0x800"
    using byte_of_u32 [of "0xC0 OR drop_bit 6 cp"] lead [OF that] that by simp
  have l2: "ucast (0xE0 OR drop_bit 12 cp) = (of_nat (224 + unat cp div 4096) :: byte)" if "unat cp < 0x10000"
    using byte_of_u32 [of "0xE0 OR drop_bit 12 cp"] lead3 [OF that] that by simp
  have l3: "ucast (0xF0 OR drop_bit 18 cp) = (of_nat (240 + unat cp div 262144) :: byte)"
    using byte_of_u32 [of "0xF0 OR drop_bit 18 cp"] lead4 assms by simp
  have cmp: "cp < 0x80 \<longleftrightarrow> unat cp < 0x80" "cp < 0x800 \<longleftrightarrow> unat cp < 0x800" "cp < 0x10000 \<longleftrightarrow> unat cp < 0x10000"
    by (simp_all add: word_less_nat_alt)
  have d: "unat (drop_bit 6 cp) = unat cp div 64" "unat (drop_bit 12 cp) = unat cp div 4096"
    using unat_drop_bit [of 6 cp] unat_drop_bit [of 12 cp] by simp_all
  have l0: "ucast cp = (of_nat (unat cp) :: byte)" if "unat cp < 0x80" using byte_of_u32 [of cp] that by simp
  show ?thesis
    unfolding utf8_of_code_point_def utf8_of_def cmp cont d
    by (intro if_cong refl arg_cong2 [where f = "(#)"]) (use l0 l1 l2 l3 in simp_all)
qed

subsection \<open>Decoding\<close>

lemma unat_of_nat_byte: "n < 256 \<Longrightarrow> unat (of_nat n :: byte) = n"
  by (rule unat_of_nat_small) simp

lemma unat_char_byte: "unat (of_char c :: byte) = of_char c"
proof -
  have "(of_char c :: byte) = of_nat (of_char c)" by (simp only: of_nat_of_char)
  moreover have "(of_char c :: nat) < 256" by simp
  ultimately show ?thesis by (metis unat_of_nat_byte)
qed

lemma byte_eqI: "unat (b :: byte) = n \<Longrightarrow> of_nat n = b"
  by auto

definition cont_byte :: "byte \<Rightarrow> bool" where
  "cont_byte b \<longleftrightarrow> 128 \<le> unat b \<and> unat b < 192"

definition shift_in :: "nat \<Rightarrow> byte \<Rightarrow> nat" where
  "shift_in v b = v * 64 + unat b mod 64"

lemma shift_in_le: "shift_in v b + 1 \<le> (v + 1) * 64"
proof -
  have "unat b mod 64 + 1 \<le> 64" by (simp add: Suc_le_eq)
  then show ?thesis by (simp add: shift_in_def algebra_simps)
qed

lemma utf8_tail_value:
  "(unat cp + 1) * 64 ^ length bs \<le> 2 ^ 32 \<Longrightarrow>
   utf8_tail cp bs = (if list_all cont_byte bs then Some (of_nat (foldl shift_in (unat cp) bs)) else None)"
proof (induction bs arbitrary: cp)
  case Nil
  then show ?case by simp
next
  case (Cons b bs)
  let ?cp = "push_bit 6 cp OR ucast (b AND 0x3F)"
  have "(unat cp + 1) * 64 \<le> (unat cp + 1) * 64 ^ length (b # bs)" by (rule mult_le_mono2) simp
  also have "\<dots> \<le> 2 ^ 32" by (rule Cons.prems)
  finally have "unat cp < 2 ^ 26" by simp
  then have v: "unat ?cp = shift_in (unat cp) b" unfolding shift_in_def by (rule unat_shift_in)
  have "(unat ?cp + 1) * 64 ^ length bs \<le> (unat cp + 1) * 64 * 64 ^ length bs"
    unfolding v by (rule mult_right_mono [OF shift_in_le]) simp
  also have "\<dots> = (unat cp + 1) * 64 ^ length (b # bs)" by (simp add: algebra_simps)
  also have "\<dots> \<le> 2 ^ 32" by (rule Cons.prems)
  finally have "utf8_tail ?cp bs = (if list_all cont_byte bs then Some (of_nat (foldl shift_in (unat ?cp) bs)) else None)"
    by (rule Cons.IH)
  then show ?case by (simp add: byte_prefix(4) cont_byte_def [of b] v)
qed

text \<open>The least code point that needs so many continuation bytes.\<close>

definition least_for :: "nat \<Rightarrow> nat" where
  "least_for extra = (if extra = 1 then 0x80 else if extra = 2 then 0x800 else 0x10000)"

lemma utf8_bad_code_point_nat:
  "n < 2 ^ 32 \<Longrightarrow> 1 \<le> extra \<Longrightarrow> extra \<le> 3 \<Longrightarrow>
   utf8_bad_code_point extra (of_nat n) \<longleftrightarrow> \<not> (scalar_value n \<and> least_for extra \<le> n)"
  by (auto simp: utf8_bad_code_point_def scalar_value_def least_for_def word_less_nat_alt word_le_nat_alt
      unat_of_nat_small not_le not_less)

lemma utf8_lead_value:
  "utf8_lead c = (if 192 \<le> unat c \<and> unat c < 224 then Some (ucast (c AND 0x1F), 1)
     else if 224 \<le> unat c \<and> unat c < 240 then Some (ucast (c AND 0x0F), 2)
     else if 240 \<le> unat c \<and> unat c < 248 then Some (ucast (c AND 0x07), 3) else None)"
  unfolding utf8_lead_def byte_prefix ..

text \<open>One sequence by its number of continuation bytes.\<close>

lemma read_utf8_eq:
  assumes "utf8_lead c = Some (cp0, extra)" "unat cp0 < 32"
  shows "read_utf8 (c # s) =
    (let bs = take extra s; n = foldl shift_in (unat cp0) bs in
     if extra \<le> length s \<and> list_all cont_byte bs \<and> scalar_value n \<and> least_for extra \<le> n
     then Some (c # bs, drop extra s) else None)"
proof -
  have e: "1 \<le> extra" "extra \<le> 3" using assms(1) by (auto simp: utf8_lead_def split: if_splits)
  have l: "length (take extra s) \<le> 3" using e by simp
  have "(unat cp0 + 1) * 64 ^ length (take extra s) \<le> 32 * 64 ^ 3"
    by (rule mult_le_mono) (use assms(2) power_increasing [OF l, of "64 :: nat"] in simp_all)
  then have b: "(unat cp0 + 1) * 64 ^ length (take extra s) \<le> 2 ^ 32" by simp
  have "foldl shift_in v bs < (v + 1) * 64 ^ length bs" for v bs
  proof (induction bs arbitrary: v)
    case (Cons x bs)
    have "(shift_in v x + 1) * 64 ^ length bs \<le> (v + 1) * 64 * 64 ^ length bs"
      by (rule mult_right_mono [OF shift_in_le]) simp
    with Cons [of "shift_in v x"] have "foldl shift_in (shift_in v x) bs < (v + 1) * 64 * 64 ^ length bs"
      by (rule less_le_trans)
    then show ?case by (simp add: algebra_simps)
  qed simp
  from less_le_trans [OF this b] have n: "foldl shift_in (unat cp0) (take extra s) < 2 ^ 32" .
  show ?thesis
    by (auto simp: read_utf8_def assms(1) utf8_tail_value [OF b] utf8_bad_code_point_nat [OF n e] Let_def not_le)
qed

lemma unat_masked_u32:
  "unat (ucast (c AND 0x1F :: byte) :: u32) = unat c mod 32" "unat (ucast (c AND 0x0F :: byte) :: u32) = unat c mod 16"
  "unat (ucast (c AND 0x07 :: byte) :: u32) = unat c mod 8"
  by (simp_all add: unat_ucast_up byte_payload)

lemma split_digits:
  fixes x y z w :: nat
  assumes "y < 64" "z < 64" "w < 64"
  shows "(x * 64 + y) div 64 = x" "(x * 64 + y) mod 64 = y"
    "((x * 64 + y) * 64 + z) div 4096 = x" "((x * 64 + y) * 64 + z) div 64 mod 64 = y" "((x * 64 + y) * 64 + z) mod 64 = z"
    "(((x * 64 + y) * 64 + z) * 64 + w) div 262144 = x" "(((x * 64 + y) * 64 + z) * 64 + w) div 4096 mod 64 = y"
    "(((x * 64 + y) * 64 + z) * 64 + w) div 64 mod 64 = z" "(((x * 64 + y) * 64 + z) * 64 + w) mod 64 = w"
proof -
  have a: "(u * 64 + v) div 64 = u" "(u * 64 + v) mod 64 = v" if "v < 64" for u v :: nat using that by simp_all
  have d: "n div 4096 = n div 64 div 64" "n div 262144 = n div 64 div 64 div 64" for n :: nat
    by (simp_all add: div_mult2_eq [symmetric])
  show "(x * 64 + y) div 64 = x" "(x * 64 + y) mod 64 = y"
    "((x * 64 + y) * 64 + z) div 4096 = x" "((x * 64 + y) * 64 + z) div 64 mod 64 = y" "((x * 64 + y) * 64 + z) mod 64 = z"
    "(((x * 64 + y) * 64 + z) * 64 + w) div 262144 = x" "(((x * 64 + y) * 64 + z) * 64 + w) div 4096 mod 64 = y"
    "(((x * 64 + y) * 64 + z) * 64 + w) div 64 mod 64 = z" "(((x * 64 + y) * 64 + z) * 64 + w) mod 64 = w"
    unfolding d a [OF assms(1)] a [OF assms(2)] a [OF assms(3)] by (rule refl)+
qed


lemma block_offset:
  fixes u k m :: nat
  assumes "m dvd k" "k \<le> u" "u < k + m"
  shows "u = k + u mod m"
proof -
  obtain x where u: "u = k + x" using assms(2) by (auto simp: le_iff_add)
  from assms(1) obtain q where "k = m * q" by (auto simp: dvd_def)
  with u assms(3) show ?thesis by simp
qed

lemma cont_byte_of: "cont_byte b \<Longrightarrow> of_nat (128 + unat b mod 64) = b"
  unfolding cont_byte_def by (intro byte_eqI block_offset) simp_all

lemma shift_in_bound: "v < k \<Longrightarrow> shift_in v b < k * 64"
  using shift_in_le [of v b] mult_le_mono1 [of "v + 1" k 64] by linarith

text \<open>The three shapes of a sequence: its bytes are the encoding of its value.\<close>

lemma utf8_of_two:
  assumes "unat c = 192 + x" "x < 32" "cont_byte b" "n = shift_in x b" "0x80 \<le> n"
  shows "utf8_of n = [c, b]"
proof -
  have y: "unat b mod 64 < 64" by simp
  have "n div 64 = x" "n mod 64 = unat b mod 64"
    using split_digits(1,2) [OF y y y, of x] by (simp_all add: assms(4) shift_in_def)
  moreover have "n < 0x800" using shift_in_bound [OF assms(2), of b] assms(4) by simp
  ultimately show ?thesis
    using assms(5) cont_byte_of [OF assms(3)] byte_eqI [OF assms(1)] by (simp add: utf8_of_def del: of_nat_add)
qed

lemma utf8_of_three:
  assumes "unat c = 224 + x" "x < 16" "cont_byte b1" "cont_byte b2" "n = shift_in (shift_in x b1) b2" "0x800 \<le> n"
  shows "utf8_of n = [c, b1, b2]"
proof -
  have y: "unat b mod 64 < 64" for b :: byte by simp
  have "n div 4096 = x" "n div 64 mod 64 = unat b1 mod 64" "n mod 64 = unat b2 mod 64"
    using split_digits(3-5) [OF y y y, of x] by (simp_all add: assms(5) shift_in_def)
  moreover have "n < 0x10000" using shift_in_bound [OF shift_in_bound [OF assms(2), of b1], of b2] assms(5) by simp
  ultimately show ?thesis
    using assms(6) cont_byte_of [OF assms(3)] cont_byte_of [OF assms(4)] byte_eqI [OF assms(1)]
    by (simp add: utf8_of_def del: of_nat_add)
qed

lemma utf8_of_four:
  assumes "unat c = 240 + x" "cont_byte b1" "cont_byte b2" "cont_byte b3"
    "n = shift_in (shift_in (shift_in x b1) b2) b3" "0x10000 \<le> n"
  shows "utf8_of n = [c, b1, b2, b3]"
proof -
  have y: "unat b mod 64 < 64" for b :: byte by simp
  have "n div 262144 = x" "n div 4096 mod 64 = unat b1 mod 64" "n div 64 mod 64 = unat b2 mod 64"
    "n mod 64 = unat b3 mod 64"
    using split_digits(6-9) [OF y y y, of x] by (simp_all add: assms(5) shift_in_def)
  then show ?thesis
    using assms(6) cont_byte_of [OF assms(2)] cont_byte_of [OF assms(3)] cont_byte_of [OF assms(4)] byte_eqI [OF assms(1)]
    by (simp add: utf8_of_def del: of_nat_add)
qed

lemma utf8_lead_cases:
  assumes "utf8_lead c = Some (cp0, extra)"
  obtains (two) "unat c = 192 + unat cp0" "unat cp0 < 32" "extra = 1"
    | (three) "unat c = 224 + unat cp0" "unat cp0 < 16" "extra = 2"
    | (four) "unat c = 240 + unat cp0" "unat cp0 < 8" "extra = 3"
proof -
  have b: "192 \<le> u \<Longrightarrow> u < 224 \<Longrightarrow> u = 192 + u mod 32" "224 \<le> u \<Longrightarrow> u < 240 \<Longrightarrow> u = 224 + u mod 16"
    "240 \<le> u \<Longrightarrow> u < 248 \<Longrightarrow> u = 240 + u mod 8" for u :: nat
    by (rule block_offset; simp)+
  from assms consider "192 \<le> unat c" "unat c < 224" "unat cp0 = unat c mod 32" "extra = 1"
    | "224 \<le> unat c" "unat c < 240" "unat cp0 = unat c mod 16" "extra = 2"
    | "240 \<le> unat c" "unat c < 248" "unat cp0 = unat c mod 8" "extra = 3"
    by (auto simp: utf8_lead_value unat_masked_u32 split: if_splits)
  then show thesis
    by cases (use b [of "unat c"] two three four in \<open>simp_all del: less_imp_le\<close>)
qed

lemma utf8_of_shifted:
  assumes "utf8_lead c = Some (cp0, extra)" "list_all cont_byte bs" "length bs = extra"
    "n = foldl shift_in (unat cp0) bs" "least_for extra \<le> n"
  shows "utf8_of n = c # bs"
  using assms(1)
proof (cases rule: utf8_lead_cases)
  case two
  then show ?thesis using assms(2-5) utf8_of_two [OF two(1,2)] by (auto simp: length_Suc_conv least_for_def)
next
  case three
  then show ?thesis using assms(2-5) utf8_of_three [OF three(1,2)]
    by (auto simp: length_Suc_conv least_for_def numeral_2_eq_2)
next
  case four
  then show ?thesis using assms(2-5) utf8_of_four [OF four(1)]
    by (auto simp: length_Suc_conv least_for_def numeral_3_eq_3)
qed

lemma read_utf8_sound:
  assumes "read_utf8 s = Some (bs, s')" "s \<noteq> []"
  shows "\<exists>n. scalar_value n \<and> 0x80 \<le> n \<and> bs = utf8_of n \<and> s = bs @ s'"
proof -
  from assms obtain c t cp0 extra where s: "s = c # t" and l: "utf8_lead c = Some (cp0, extra)"
    by (cases s) (auto simp: read_utf8_def split: option.splits)
  then have "unat cp0 < 32" by (auto elim: utf8_lead_cases)
  from assms(1) read_utf8_eq [OF l this, of t] have r: "bs = c # take extra t" "s' = drop extra t"
    "extra \<le> length t" "list_all cont_byte (take extra t)" "scalar_value (foldl shift_in (unat cp0) (take extra t))"
    "least_for extra \<le> foldl shift_in (unat cp0) (take extra t)"
    by (auto simp: s Let_def split: if_splits)
  then have "utf8_of (foldl shift_in (unat cp0) (take extra t)) = bs"
    using utf8_of_shifted [OF l r(4)] by simp
  moreover have "0x80 \<le> least_for extra" by (simp add: least_for_def)
  ultimately show ?thesis using r s by (metis append_Cons append_take_drop_id le_trans)
qed


lemma block_mod:
  fixes x k m :: nat
  assumes "m dvd k" "x < m"
  shows "(k + x) mod m = x"
  using assms by (auto simp: dvd_def)

lemma cont_byte_cont: "m < 64 \<Longrightarrow> cont_byte (of_nat (128 + m))"
  unfolding cont_byte_def by (subst (1 2) unat_of_nat_byte) simp_all

lemma shift_in_cont: "m < 64 \<Longrightarrow> shift_in v (of_nat (128 + m)) = v * 64 + m"
  unfolding shift_in_def by (subst unat_of_nat_byte) (simp_all add: block_mod)

lemma read_utf8_of:
  assumes "scalar_value n" "0x80 \<le> n"
  shows "read_utf8 (utf8_of n @ s) = Some (utf8_of n, s)"
proof -
  have m: "k mod 64 < 64" for k :: nat by simp
  note [simp del] = of_nat_add
  have lead: "\<exists>cp0. utf8_lead (of_nat u) = Some (cp0, extra) \<and> unat cp0 = x \<and> x < 32"
    if "u = 192 + x \<and> x < 32 \<and> extra = 1 \<or> u = 224 + x \<and> x < 16 \<and> extra = 2 \<or> u = 240 + x \<and> x < 8 \<and> extra = 3" for u x extra
  proof -
    have "u < 256" using that by auto
    then have "unat (of_nat u :: byte) = u" by (rule unat_of_nat_byte)
    then show ?thesis using that by (auto simp: utf8_lead_value unat_masked_u32 block_mod)
  qed
  have cont: "cont_byte (of_nat (128 + k mod 64))" "shift_in v (of_nat (128 + k mod 64)) = v * 64 + k mod 64" for k v
    by (simp_all only: cont_byte_cont shift_in_cont m)
  have n3: "n div 4096 * 64 + n div 64 mod 64 = n div 64" "n div 64 * 64 + n mod 64 = n"
    "n div 262144 * 64 + n div 4096 mod 64 = n div 4096"
    using div_mult_mod_eq [of "n div 64" 64] div_mult_mod_eq [of n 64] div_mult_mod_eq [of "n div 4096" 64]
    by (simp_all add: div_mult2_eq [symmetric])
  consider "n < 0x800" | "0x800 \<le> n" "n < 0x10000" | "0x10000 \<le> n" "n \<le> 0x10FFFF"
    using assms(1) unfolding scalar_value_def by linarith
  then show ?thesis
  proof cases
    case 1
    then have "n div 64 < 32" by (simp add: less_mult_imp_div_less)
    with lead [of "192 + n div 64" "n div 64" 1] obtain cp0 where
      l: "utf8_lead (of_nat (192 + n div 64)) = Some (cp0, 1)" "unat cp0 = n div 64" "unat cp0 < 32" by auto
    show ?thesis
      using 1 assms read_utf8_eq [OF l(1,3)] by (simp add: utf8_of_def cont l(2) n3 least_for_def)
  next
    case 2
    then have "n div 4096 < 16" by (simp add: less_mult_imp_div_less)
    with lead [of "224 + n div 4096" "n div 4096" 2] obtain cp0 where
      l: "utf8_lead (of_nat (224 + n div 4096)) = Some (cp0, 2)" "unat cp0 = n div 4096" "unat cp0 < 32" by auto
    show ?thesis
      using 2 assms read_utf8_eq [OF l(1,3)] by (simp add: utf8_of_def cont l(2) n3 least_for_def numeral_2_eq_2)
  next
    case 3
    then have "n div 262144 < 8" by (simp add: less_mult_imp_div_less)
    with lead [of "240 + n div 262144" "n div 262144" 3] obtain cp0 where
      l: "utf8_lead (of_nat (240 + n div 262144)) = Some (cp0, 3)" "unat cp0 = n div 262144" "unat cp0 < 32" by auto
    show ?thesis
      using 3 assms read_utf8_eq [OF l(1,3)] by (simp add: utf8_of_def cont l(2) n3 least_for_def numeral_3_eq_3)
  qed
qed

lemma utf8_of_head: "0x80 \<le> n \<Longrightarrow> n \<le> 0x10FFFF \<Longrightarrow> 0x80 \<le> hd (utf8_of n)"
proof -
  assume n: "0x80 \<le> n" "n \<le> 0x10FFFF"
  have h: "u < 256 \<Longrightarrow> 128 \<le> u \<Longrightarrow> (0x80 :: byte) \<le> of_nat u" for u
    by (simp add: word_le_nat_alt unat_of_nat_byte)
  have "n < 0x800 \<Longrightarrow> n div 64 < 32" "n < 0x10000 \<Longrightarrow> n div 4096 < 16" "n div 262144 < 8"
    using n by (simp_all add: less_mult_imp_div_less)
  then show ?thesis using n h [of "192 + n div 64"] h [of "224 + n div 4096"] h [of "240 + n div 262144"]
    by (simp add: utf8_of_def del: of_nat_add)
qed

end
