(* ===== verification/Json_Strings.thy ===== *)
theory Json_Strings
  imports Json_Utf8
begin

text \<open>
  The grammar of string texts, and that the reader takes exactly these and puts what they stand for.
\<close>

section \<open>Hexadecimal escapes\<close>

definition hex_step :: "nat \<Rightarrow> byte \<Rightarrow> nat" where
  "hex_step v c = v * 16 + the (hex_value c)"

text \<open>Four hexadecimal digits and the number they spell.\<close>

definition hex4 :: "byte list \<Rightarrow> nat \<Rightarrow> bool" where
  "hex4 h n \<longleftrightarrow> length h = 4 \<and> list_all (\<lambda>c. hex_value c \<noteq> None) h \<and> n = foldl hex_step 0 h"

lemma hex_value_less: "hex_value c = Some d \<Longrightarrow> d < 16"
  by (auto simp: hex_value_def is_digit_def word_le_nat_alt split: if_splits)

lemma hex_step_le: "hex_value c \<noteq> None \<Longrightarrow> hex_step v c + 1 \<le> (v + 1) * 16"
  using hex_value_less [of c] by (auto simp: hex_step_def)

lemma foldl_hex_bound:
  "list_all (\<lambda>c. hex_value c \<noteq> None) h \<Longrightarrow> foldl hex_step v h + 1 \<le> (v + 1) * 16 ^ length h"
proof (induction h arbitrary: v)
  case Nil
  then show ?case by simp
next
  case (Cons c h)
  have "(hex_step v c + 1) * 16 ^ length h \<le> (v + 1) * 16 * 16 ^ length h"
    by (rule mult_right_mono [OF hex_step_le]) (use Cons.prems in simp_all)
  with Cons.IH [of "hex_step v c"] Cons.prems show ?case by (simp add: algebra_simps)
qed

lemma hex4_bound: "hex4 h n \<Longrightarrow> n < 65536"
  using foldl_hex_bound [of h 0] by (auto simp: hex4_def)

lemma unat_shift_in_hex:
  assumes "unat (v :: u32) < 2 ^ 28" "d < 16"
  shows "unat (push_bit 4 v OR of_nat d) = unat v * 16 + d"
proof -
  have "unat (push_bit 4 v) = take_bit LENGTH(32) (push_bit 4 (unat v))" by (rule unsigned_push_bit_eq)
  also have "\<dots> = push_bit 4 (unat v)" using assms by (intro take_bit_nat_eq_self) (simp add: push_bit_eq_mult [of 4 "unat v"])
  finally have p: "unat (push_bit 4 v) = unat v * 16" by (simp only: push_bit_eq_mult [of 4 "unat v"]) simp
  have d: "unat (of_nat d :: u32) = d" using assms by (intro unat_of_nat_small) simp
  have "unat (push_bit 4 v OR of_nat d) = unat (push_bit 4 v) + unat (of_nat d :: u32)"
    by (rule unat_or_disjoint [of 4]) (simp_all only: p d, use assms in simp_all)
  then show ?thesis by (simp only: p d)
qed

lemma hex_digits_eq:
  "(unat v + 1) * 16 ^ length h \<le> 2 ^ 32 \<Longrightarrow>
   hex_digits v h = (if list_all (\<lambda>c. hex_value c \<noteq> None) h then Some (of_nat (foldl hex_step (unat v) h)) else None)"
proof (induction h arbitrary: v)
  case Nil
  then show ?case by simp
next
  case (Cons c h)
  show ?case
  proof (cases "hex_value c")
    case None
    then show ?thesis by simp
  next
    case (Some d)
    have "(unat v + 1) * 16 \<le> (unat v + 1) * 16 ^ length (c # h)" by (rule mult_le_mono2) simp
    also have "\<dots> \<le> 2 ^ 32" by (rule Cons.prems)
    finally have "unat v < 2 ^ 28" by simp
    then have v: "unat (push_bit 4 v OR of_nat d) = hex_step (unat v) c"
      using unat_shift_in_hex [OF _ hex_value_less [OF Some]] by (simp add: hex_step_def Some)
    have "(hex_step (unat v) c + 1) * 16 ^ length h \<le> (unat v + 1) * 16 * 16 ^ length h"
      by (rule mult_right_mono [OF hex_step_le]) (simp_all add: Some)
    also have "\<dots> = (unat v + 1) * 16 ^ length (c # h)" by (simp add: algebra_simps)
    also have "\<dots> \<le> 2 ^ 32" by (rule Cons.prems)
    finally show ?thesis using Cons.IH [of "push_bit 4 v OR of_nat d"] by (simp add: v Some)
  qed
qed

lemma read_hex4_Some: "read_hex4 s = Some (v, s') \<longleftrightarrow> (\<exists>h. hex4 h (unat v) \<and> s = h @ s')"
proof -
  have e: "hex_digits 0 (take 4 s) = (if list_all (\<lambda>c. hex_value c \<noteq> None) (take 4 s)
      then Some (of_nat (foldl hex_step 0 (take 4 s))) else None)"
  proof -
    have "16 ^ length (take 4 s) \<le> (16 :: nat) ^ 4" by (rule power_increasing) simp_all
    then have "(unat (0 :: u32) + 1) * 16 ^ length (take 4 s) \<le> 2 ^ 32" by (simp del: length_take)
    from hex_digits_eq [OF this] show ?thesis by (simp only: unsigned_0)
  qed
  have u: "unat (of_nat n :: u32) = n" if "n < 65536" for n
    using that by (intro unat_of_nat_small) simp
  show ?thesis
  proof
    assume "read_hex4 s = Some (v, s')"
    then have l: "4 \<le> length s" and a: "list_all (\<lambda>c. hex_value c \<noteq> None) (take 4 s)"
      and v: "v = of_nat (foldl hex_step 0 (take 4 s))" and s': "s' = drop 4 s"
      by (auto simp: read_hex4_def e split: if_splits)
    have h: "hex4 (take 4 s) (foldl hex_step 0 (take 4 s))" using l a by (simp add: hex4_def)
    with hex4_bound [OF h] v s' show "\<exists>h. hex4 h (unat v) \<and> s = h @ s'"
      by (intro exI [of _ "take 4 s"]) (simp add: u)
  next
    assume "\<exists>h. hex4 h (unat v) \<and> s = h @ s'"
    then obtain h where h: "hex4 h (unat v)" "s = h @ s'" by blast
    then have "take 4 s = h" "drop 4 s = s'" "4 \<le> length s" by (auto simp: hex4_def)
    moreover from h(1) have "list_all (\<lambda>c. hex_value c \<noteq> None) h" "unat v = foldl hex_step 0 h"
      by (auto simp: hex4_def)
    moreover from this(2) have "of_nat (foldl hex_step 0 h) = v" by (metis word_unat_eq_iff unat_of_nat unsigned_less mod_less)
    ultimately have "hex_digits 0 h = Some v" using e by simp
    with \<open>take 4 s = h\<close> \<open>drop 4 s = s'\<close> \<open>4 \<le> length s\<close> show "read_hex4 s = Some (v, s')" by (simp add: read_hex4_def)
  qed
qed

section \<open>Strings\<close>

text \<open>What one item of a string stands for: bytes, or \<open>None\<close> for text that C cannot hold.\<close>

type_synonym item = "byte list option"

definition high_surrogate :: "nat \<Rightarrow> bool" where "high_surrogate n \<longleftrightarrow> 0xD800 \<le> n \<and> n \<le> 0xDBFF"
definition low_surrogate :: "nat \<Rightarrow> bool" where "low_surrogate n \<longleftrightarrow> 0xDC00 \<le> n \<and> n \<le> 0xDFFF"

definition low_escape_next :: "byte list \<Rightarrow> bool" where
  "low_escape_next s \<longleftrightarrow> (\<exists>l n t. s = 0x5C # 0x75 # l @ t \<and> hex4 l n \<and> low_surrogate n)"

text \<open>The text of a string after its opening quote, up to and including the closing one.\<close>

inductive string_chars :: "byte list \<Rightarrow> item list \<Rightarrow> bool" where
  chars_end: "string_chars [0x22] []"
| chars_plain: "0x20 \<le> c \<Longrightarrow> c < 0x80 \<Longrightarrow> c \<noteq> 0x22 \<Longrightarrow> c \<noteq> 0x5C \<Longrightarrow> string_chars s xs \<Longrightarrow>
    string_chars (c # s) (Some [c] # xs)"
| chars_utf8: "scalar_value n \<Longrightarrow> 0x80 \<le> n \<Longrightarrow> string_chars s xs \<Longrightarrow>
    string_chars (utf8_of n @ s) (Some (utf8_of n) # xs)"
| chars_simple: "simple_escape c = Some b \<Longrightarrow> string_chars s xs \<Longrightarrow> string_chars (0x5C # c # s) (Some [b] # xs)"
| chars_unicode: "hex4 h n \<Longrightarrow> scalar_value n \<Longrightarrow> n \<noteq> 0 \<Longrightarrow> string_chars s xs \<Longrightarrow>
    string_chars (0x5C # 0x75 # h @ s) (Some (utf8_of n) # xs)"
| chars_null: "hex4 h 0 \<Longrightarrow> string_chars s xs \<Longrightarrow> string_chars (0x5C # 0x75 # h @ s) (None # xs)"
| chars_pair: "hex4 h hi \<Longrightarrow> high_surrogate hi \<Longrightarrow> hex4 l lo \<Longrightarrow> low_surrogate lo \<Longrightarrow> string_chars s xs \<Longrightarrow>
    string_chars (0x5C # 0x75 # h @ 0x5C # 0x75 # l @ s)
      (Some (utf8_of (0x10000 + (hi - 0xD800) * 1024 + (lo - 0xDC00))) # xs)"
| chars_lone: "hex4 h n \<Longrightarrow> high_surrogate n \<and> \<not> low_escape_next s \<or> low_surrogate n \<Longrightarrow> string_chars s xs \<Longrightarrow>
    string_chars (0x5C # 0x75 # h @ s) (None # xs)"

definition put_item :: "item \<Rightarrow> json_text \<Rightarrow> json_text" where
  "put_item x t = count_char (case x of None \<Rightarrow> t\<lparr>tx_bad := True\<rparr> | Some bs \<Rightarrow> text_put bs t)"

lemma put_item_simps:
  "put_item None t = count_char (t\<lparr>tx_bad := True\<rparr>)" "put_item (Some bs) t = count_char (text_put bs t)"
  by (simp_all add: put_item_def)

lemma unat_three_parts:
  "unat (p :: u32) < 2 ^ 20 \<Longrightarrow> unat q < 2 ^ 20 \<Longrightarrow> unat (0x10000 + p + q) = 0x10000 + unat p + unat q"
  by (simp add: unat_word_ariths)

lemma pair_code_point:
  assumes "high_surrogate (unat cp)" "low_surrogate (unat low)"
  shows "unat (0x10000 + push_bit 10 (cp - 0xD800) + (low - 0xDC00) :: u32) =
      0x10000 + (unat cp - 0xD800) * 1024 + (unat low - 0xDC00)"
    and "0x10000 + push_bit 10 (cp - 0xD800) + (low - 0xDC00) \<noteq> (0 :: u32)"
proof -
  have c: "unat (cp - 0xD800) = unat cp - 0xD800" "unat (low - 0xDC00) = unat low - 0xDC00"
    using assms by (simp_all add: high_surrogate_def low_surrogate_def unat_sub word_le_nat_alt)
  have small: "unat cp - 0xD800 < 0x400" using assms(1) unfolding high_surrogate_def by linarith
  have "unat (push_bit 10 (cp - 0xD800)) = take_bit LENGTH(32) (push_bit 10 (unat (cp - 0xD800)))" by (rule unsigned_push_bit_eq)
  also have "\<dots> = push_bit 10 (unat (cp - 0xD800))"
    by (intro take_bit_nat_eq_self) (use small in \<open>simp add: c push_bit_eq_mult [of 10 "unat cp - 0xD800"]\<close>)
  finally have p: "unat (push_bit 10 (cp - 0xD800)) = (unat cp - 0xD800) * 1024"
    by (simp add: c push_bit_eq_mult [of 10 "unat cp - 0xD800"])
  show u: "unat (0x10000 + push_bit 10 (cp - 0xD800) + (low - 0xDC00) :: u32) =
      0x10000 + (unat cp - 0xD800) * 1024 + (unat low - 0xDC00)"
  proof (subst unat_three_parts)
    show "unat (push_bit 10 (cp - 0xD800)) < 2 ^ 20" unfolding p using small by simp
    have "unat low - 0xDC00 < 0x400" using assms(2) unfolding low_surrogate_def by linarith
    then show "unat (low - 0xDC00) < 2 ^ 20" unfolding c by simp
  qed (simp only: p c)
  then show "0x10000 + push_bit 10 (cp - 0xD800) + (low - 0xDC00) \<noteq> (0 :: u32)" by force
qed


section \<open>The loop reads exactly the strings\<close>

lemma u32_le: "(a :: u32) \<le> b \<longleftrightarrow> unat a \<le> unat b" by (rule word_le_nat_alt)

text \<open>A \<^verbatim>\<open>\u\<close> escape, with the code points as numbers.\<close>

lemma read_unicode_escape_eq:
  "read_unicode_escape s t =
     (case read_hex4 s of
        None \<Rightarrow> (Inl bad_hex_message, t)
      | Some (cp, s1) \<Rightarrow>
          if high_surrogate (unat cp) \<and> 6 \<le> length s1 \<and> s1 ! 0 = 0x5C \<and> s1 ! 1 = 0x75 then
            (case read_hex4 (drop 2 s1) of
               None \<Rightarrow> (Inl bad_hex_message, t)
             | Some (low, s2) \<Rightarrow>
                 if low_surrogate (unat low) then
                   (Inr s2, put_item (Some (utf8_of (0x10000 + (unat cp - 0xD800) * 1024 + (unat low - 0xDC00)))) t)
                 else (Inr s1, put_item None t))
          else if high_surrogate (unat cp) \<or> low_surrogate (unat cp) then (Inr s1, put_item None t)
          else (Inr s1, put_item (if unat cp = 0 then None else Some (utf8_of (unat cp))) t))"
proof -
  have r: "0xD800 \<le> cp \<and> cp \<le> 0xDBFF \<and> P \<longleftrightarrow> high_surrogate (unat cp) \<and> P" "0xDC00 \<le> cp \<and> cp \<le> 0xDFFF \<longleftrightarrow> low_surrogate (unat cp)"
    "0xD800 \<le> cp \<and> cp \<le> 0xDFFF \<longleftrightarrow> high_surrogate (unat cp) \<or> low_surrogate (unat cp)" for cp :: u32 and P
    by (auto simp: u32_le high_surrogate_def low_surrogate_def)
  have cp: "text_put_cp cp t = text_put (utf8_of (unat cp)) t" if "unat cp \<le> 0x10FFFF" for cp t
    using that by (simp add: text_put_cp_def utf8_of_code_point_eq)
  have pr: "text_put_cp (0x10000 + push_bit 10 (cp - 0xD800) + (low - 0xDC00)) t =
      text_put (utf8_of (0x10000 + (unat cp - 0xD800) * 1024 + (unat low - 0xDC00))) t"
    if "high_surrogate (unat cp)" "low_surrogate (unat low)" for cp low t
  proof -
    have "(unat cp - 0xD800) * 1024 + (unat low - 0xDC00) \<le> 0xFFFFF"
      using that unfolding high_surrogate_def low_surrogate_def by linarith
    then have "unat (0x10000 + push_bit 10 (cp - 0xD800) + (low - 0xDC00)) \<le> 0x10FFFF"
      unfolding pair_code_point(1) [OF that] by linarith
    from cp [OF this] show ?thesis unfolding pair_code_point(1) [OF that] .
  qed
  have small: "read_hex4 s = Some (v, s') \<Longrightarrow> unat v < 65536" for s v s'
    using hex4_bound by (auto simp: read_hex4_Some)
  show ?thesis
  proof (cases "read_hex4 s")
    case None
    then show ?thesis by (simp add: read_unicode_escape_def)
  next
    case (Some p)
    obtain v s1 where p: "p = (v, s1)" by fastforce
    have v: "unat v \<le> 0x10FFFF" using small Some p by fastforce
    have z: "v = 0 \<longleftrightarrow> unat v = 0" by (simp add: unat_eq_zero)
    have alone: "count_char (if v = 0 then t\<lparr>tx_bad := True\<rparr> else text_put_cp v t) =
        put_item (if unat v = 0 then None else Some (utf8_of (unat v))) t"
      by (simp add: put_item_def cp [OF v] z)
    have none: "count_char (t\<lparr>tx_bad := True\<rparr>) = put_item None t" by (simp add: put_item_def)
    have pair: "(if 0x10000 + push_bit 10 (v - 0xD800) + (low - 0xDC00) = 0 then t\<lparr>tx_bad := True\<rparr>
        else text_put_cp (0x10000 + push_bit 10 (v - 0xD800) + (low - 0xDC00)) t) =
        text_put (utf8_of (0x10000 + (unat v - 0xD800) * 1024 + (unat low - 0xDC00))) t"
      if "high_surrogate (unat v)" "low_surrogate (unat low)" for low
      unfolding pr [OF that] using pair_code_point(2) [OF that] by (simp only: if_False)
    show ?thesis
    proof (cases "high_surrogate (unat v) \<and> 6 \<le> length s1 \<and> s1 ! 0 = 0x5C \<and> s1 ! 1 = 0x75")
      case True
      show ?thesis
      proof (cases "read_hex4 (drop 2 s1)")
        case None
        then show ?thesis unfolding read_unicode_escape_def Some p option.case prod.case r Let_def using True by simp
      next
        case (Some q)
        obtain low s2 where q: "q = (low, s2)" by fastforce
        show ?thesis
          unfolding read_unicode_escape_def \<open>read_hex4 s = Some p\<close> p option.case prod.case r Let_def Some q
            if_P [OF True] none
          by (rule if_cong [OF refl _ refl], subst pair) (use True in \<open>simp_all add: put_item_def\<close>)
      qed
    next
      case False
      show ?thesis
        unfolding read_unicode_escape_def Some p option.case prod.case r Let_def if_not_P [OF False] none alone ..
    qed
  qed
qed

lemma low_escape_next_iff:
  "low_escape_next s \<longleftrightarrow> 6 \<le> length s \<and> s ! 0 = 0x5C \<and> s ! 1 = 0x75 \<and>
     (\<exists>low s2. read_hex4 (drop 2 s) = Some (low, s2) \<and> low_surrogate (unat low))"
proof
  assume "low_escape_next s"
  then obtain l n t where s: "s = 0x5C # 0x75 # l @ t" "hex4 l n" "low_surrogate n" by (auto simp: low_escape_next_def)
  have u: "unat (of_nat n :: u32) = n" using hex4_bound [OF s(2)] by (intro unat_of_nat_small) simp
  have "read_hex4 (drop 2 s) = Some (of_nat n, t)" using s by (auto simp: read_hex4_Some u)
  moreover have "6 \<le> length s" using s by (simp add: hex4_def)
  ultimately show "6 \<le> length s \<and> s ! 0 = 0x5C \<and> s ! 1 = 0x75 \<and>
     (\<exists>low s2. read_hex4 (drop 2 s) = Some (low, s2) \<and> low_surrogate (unat low))" using s u by auto
next
  assume a: "6 \<le> length s \<and> s ! 0 = 0x5C \<and> s ! 1 = 0x75 \<and>
     (\<exists>low s2. read_hex4 (drop 2 s) = Some (low, s2) \<and> low_surrogate (unat low))"
  then obtain low s2 where "read_hex4 (drop 2 s) = Some (low, s2)" and l: "low_surrogate (unat low)" by blast
  then obtain h where "hex4 h (unat low)" "drop 2 s = h @ s2" by (auto simp: read_hex4_Some)
  moreover have "s = 0x5C # 0x75 # drop 2 s" using a by (cases s; cases "tl s") (auto simp: nth_Cons')
  ultimately show "low_escape_next s" using l unfolding low_escape_next_def by metis
qed


lemma surrogate_cases:
  "n < 65536 \<Longrightarrow> scalar_value n \<longleftrightarrow> \<not> high_surrogate n \<and> \<not> low_surrogate n"
  "\<not> (high_surrogate n \<and> low_surrogate n)"
  by (auto simp: scalar_value_def high_surrogate_def low_surrogate_def)

lemma read_escape_complete:
  "simple_escape c = Some b \<Longrightarrow> read_escape (c # s) t = (Inr s, put_item (Some [b]) t)"
  "simple_escape 0x75 = None"
  by (simp_all add: read_escape_def put_item_def simple_escape_def)

lemma read_hex4_app: "hex4 h n \<Longrightarrow> read_hex4 (h @ s) = Some (of_nat n, s)"
  using unat_of_nat_small [where 'a = 32, of n] hex4_bound [of h n] by (auto simp: read_hex4_Some)

lemma unat_hex4: "hex4 h n \<Longrightarrow> unat (of_nat n :: u32) = n"
  using hex4_bound [of h n] by (intro unat_of_nat_small) simp

text \<open>A high surrogate whose low half does not follow is read alone, wherever the string goes on.\<close>

lemma string_chars_low_next:
  assumes "string_chars s xs" "\<not> low_escape_next s" "6 \<le> length (s @ r)" "(s @ r) ! 0 = 0x5C" "(s @ r) ! 1 = 0x75"
  obtains low s2 where "read_hex4 (drop 2 (s @ r)) = Some (low, s2)" "\<not> low_surrogate (unat low)"
  using assms(1)
proof cases
  case chars_end
  with assms(4) show thesis by simp
next
  case (chars_plain c)
  with assms(4) show thesis by simp
next
  case (chars_utf8 n)
  then have "0x80 \<le> hd (utf8_of n)" by (intro utf8_of_head) (auto simp: scalar_value_def)
  moreover have "hd (utf8_of n) = 0x5C" using assms(4) chars_utf8(1) by (cases "utf8_of n") simp_all
  ultimately show thesis by simp
next
  case (chars_simple c)
  with assms(5) show thesis by (simp add: simple_escape_def)
next
  case (chars_unicode h n)
  then have "\<not> low_surrogate n" by (auto simp: scalar_value_def low_surrogate_def)
  with chars_unicode that show thesis by (auto simp: read_hex4_app unat_hex4)
next
  case (chars_null h)
  with that show thesis by (auto simp: read_hex4_app low_surrogate_def)
next
  case (chars_pair h hi l lo)
  then have "\<not> low_surrogate hi" using surrogate_cases(2) by blast
  with chars_pair that show thesis by (auto simp: read_hex4_app unat_hex4)
next
  case (chars_lone h n)
  then have "\<not> low_surrogate n" using assms(2) by (auto simp: low_escape_next_def)
  with chars_lone that show thesis by (auto simp: read_hex4_app unat_hex4)
qed

lemma read_escape_unicode: "read_escape (0x75 # s) t = read_unicode_escape s t"
  by (simp add: read_escape_def read_escape_complete(2))

lemma read_chars_escape: "read_chars (0x5C # s) t =
    (case read_escape s t of (Inl m, t2) \<Rightarrow> (Inl m, t2) | (Inr s2, t2) \<Rightarrow> read_chars s2 t2)"
  by (subst read_chars.simps) simp

theorem read_chars_complete: "string_chars w xs \<Longrightarrow> read_chars (w @ r) t = (Inr r, fold put_item xs t)"
proof (induction arbitrary: t rule: string_chars.induct)
  case chars_end
  then show ?case by (simp add: read_chars.simps)
next
  case (chars_plain c s xs)
  then show ?case by (subst read_chars.simps) (simp add: put_item_simps(2) not_le [symmetric])
next
  case (chars_utf8 n s xs)
  then have h: "0x80 \<le> hd (utf8_of n)" by (intro utf8_of_head) (auto simp: scalar_value_def)
  obtain c u where u: "utf8_of n = c # u" by (cases "utf8_of n") simp_all
  with h have "c \<noteq> 0x22" "\<not> c < 0x20" "0x80 \<le> c" by (auto simp: word_le_nat_alt word_less_nat_alt)
  then show ?case
    using read_utf8_of [OF chars_utf8.hyps(1,2), of "s @ r"] chars_utf8.IH
    by (subst read_chars.simps) (simp add: u put_item_simps(2))
next
  case (chars_simple c b s xs)
  then show ?case by (simp add: read_chars_escape read_escape_complete(1))
next
  case (chars_unicode h n s xs)
  then have "\<not> high_surrogate n" "\<not> low_surrogate n" using surrogate_cases(1) hex4_bound by blast+
  with chars_unicode show ?case
    by (simp add: read_chars_escape read_escape_unicode read_unicode_escape_eq read_hex4_app unat_hex4)
next
  case (chars_null h s xs)
  then show ?case
    by (simp add: read_chars_escape read_escape_unicode read_unicode_escape_eq read_hex4_app high_surrogate_def low_surrogate_def)
next
  case (chars_pair h hi l lo s xs)
  then have "6 \<le> length (0x5C # 0x75 # l @ s @ r)" by (simp add: hex4_def)
  with chars_pair show ?case
    by (simp add: read_chars_escape read_escape_unicode read_unicode_escape_eq read_hex4_app unat_hex4)
next
  case (chars_lone h n s xs)
  have n: "high_surrogate n \<or> low_surrogate n" using chars_lone.hyps(2) by blast
  have "read_unicode_escape (h @ s @ r) t = (Inr (s @ r), put_item None t)"
  proof (cases "high_surrogate n \<and> 6 \<le> length (s @ r) \<and> (s @ r) ! 0 = 0x5C \<and> (s @ r) ! 1 = 0x75")
    case True
    then have "\<not> low_escape_next s" using chars_lone.hyps(2) surrogate_cases(2) by blast
    from string_chars_low_next [OF chars_lone.hyps(3) this] True obtain low s2 where
      "read_hex4 (drop 2 (s @ r)) = Some (low, s2)" "\<not> low_surrogate (unat low)" by blast
    with True show ?thesis
      by (simp add: read_unicode_escape_eq read_hex4_app [OF chars_lone.hyps(1)] unat_hex4 [OF chars_lone.hyps(1)])
  next
    case False
    with n show ?thesis
      unfolding read_unicode_escape_eq read_hex4_app [OF chars_lone.hyps(1)] option.case prod.case unat_hex4 [OF chars_lone.hyps(1)]
        if_not_P [OF False] if_P [OF n] by blast
  qed
  with chars_lone.IH show ?case by (simp add: read_chars_escape read_escape_unicode)
qed


lemma read_unicode_escape_sound:
  assumes "read_unicode_escape s t = (Inr s', t')" "string_chars s'' xs" "s' = s'' @ r"
  shows "\<exists>w x. s = w @ r \<and> string_chars (0x5C # 0x75 # w) (x # xs) \<and> t' = put_item x t"
proof -
  from assms(1) obtain cp s1 where "read_hex4 s = Some (cp, s1)"
    by (auto simp: read_unicode_escape_eq split: option.splits)
  moreover from this obtain h where h: "hex4 h (unat cp)" "s = h @ s1" by (auto simp: read_hex4_Some)
  ultimately have e: "read_hex4 s = Some (cp, s1)" by simp
  let ?n = "unat cp"
  show ?thesis
  proof (cases "high_surrogate ?n \<and> 6 \<le> length s1 \<and> s1 ! 0 = 0x5C \<and> s1 ! 1 = 0x75")
    case True
    then obtain low s2 where l: "read_hex4 (drop 2 s1) = Some (low, s2)"
      using assms(1) by (auto simp: read_unicode_escape_eq e split: option.splits)
    then obtain k where k: "hex4 k (unat low)" "drop 2 s1 = k @ s2" by (auto simp: read_hex4_Some)
    have s1: "s1 = 0x5C # 0x75 # k @ s2" using True k(2) by (cases s1; cases "tl s1") (auto simp: nth_Cons')
    show ?thesis
    proof (cases "low_surrogate (unat low)")
      case low: True
      then have r: "s' = s2" "t' = put_item (Some (utf8_of (0x10000 + (?n - 0xD800) * 1024 + (unat low - 0xDC00)))) t"
        using assms(1) unfolding read_unicode_escape_eq e option.case prod.case if_P [OF True] l by simp_all
      have "string_chars (0x5C # 0x75 # h @ 0x5C # 0x75 # k @ s'')
          (Some (utf8_of (0x10000 + (?n - 0xD800) * 1024 + (unat low - 0xDC00))) # xs)"
        using True low h(1) k(1) assms(2) by (blast intro: chars_pair)
      then show ?thesis using h(2) s1 r assms(3)
        by (intro exI [of _ "h @ 0x5C # 0x75 # k @ s''"] exI [of _ "Some _"]) simp
    next
      case low: False
      then have r: "s' = s1" "t' = put_item None t"
        using assms(1) unfolding read_unicode_escape_eq e option.case prod.case if_P [OF True] l by simp_all
      have "\<not> low_escape_next s''"
      proof
        assume "low_escape_next s''"
        then have "read_hex4 (drop 2 (s'' @ r)) \<noteq> None \<and> (\<forall>v u. read_hex4 (drop 2 (s'' @ r)) = Some (v, u) \<longrightarrow> low_surrogate (unat v))"
          by (auto simp: low_escape_next_def read_hex4_app unat_hex4)
        with l low r assms(3) show False by auto
      qed
      then have "string_chars (0x5C # 0x75 # h @ s'') (None # xs)"
        using True h(1) assms(2) by (blast intro: chars_lone)
      then show ?thesis using h(2) r assms(3) by (intro exI [of _ "h @ s''"] exI [of _ None]) simp
    qed
  next
    case False
    have r: "s' = s1" "t' = put_item (if high_surrogate ?n \<or> low_surrogate ?n \<or> ?n = 0 then None else Some (utf8_of ?n)) t"
      using assms(1) unfolding read_unicode_escape_eq e option.case prod.case if_not_P [OF False] by (auto split: if_splits)
    have "string_chars (0x5C # 0x75 # h @ s'') ((if high_surrogate ?n \<or> low_surrogate ?n \<or> ?n = 0 then None else Some (utf8_of ?n)) # xs)"
    proof (cases "high_surrogate ?n")
      case True
      have "\<not> low_escape_next s''"
      proof
        assume "low_escape_next s''"
        then have "6 \<le> length s1 \<and> s1 ! 0 = 0x5C \<and> s1 ! 1 = 0x75" using r(1) assms(3) by (auto simp: low_escape_next_def hex4_def)
        with True False show False by blast
      qed
      with True show ?thesis using h(1) assms(2) by (simp add: chars_lone)
    next
      case False
      then show ?thesis
        using h(1) assms(2) chars_null [of h s'' xs] chars_unicode [OF h(1) _ _ assms(2)] chars_lone [OF h(1) _ assms(2)]
          surrogate_cases(1) [OF hex4_bound [OF h(1)]] by auto
    qed
    then show ?thesis using h(2) r assms(3) by (intro exI [of _ "h @ s''"] exI) auto
  qed
qed

theorem read_chars_sound:
  "read_chars s t = (Inr r, t') \<Longrightarrow> \<exists>w xs. s = w @ r \<and> string_chars w xs \<and> t' = fold put_item xs t"
proof (induction s t rule: read_chars.induct)
  case (1 s t)
  show ?case
  proof (cases s)
    case Nil
    with 1(4) show ?thesis by (simp add: read_chars.simps)
  next
    case (Cons c s1)
    note res = 1(4) [unfolded Cons, simplified read_chars.simps [of "c # s1"] list.case]
    consider "c = 0x22" | "0x80 \<le> c" "c \<noteq> 0x22" "\<not> c < 0x20" | "c \<noteq> 0x22" "\<not> c < 0x20" "\<not> 0x80 \<le> c" "c \<noteq> 0x5C"
      | "c = 0x5C" "\<not> c < 0x20" "\<not> 0x80 \<le> c" "c \<noteq> 0x22"
      using res by (auto split: if_splits)
    then show ?thesis
    proof cases
      case 1
      with res Cons show ?thesis by (intro exI [of _ "[0x22]"] exI [of _ "[]"]) (simp add: chars_end)
    next
      case 2
      then obtain bs s2 where u: "read_utf8 (c # s1) = Some (bs, s2)"
        and rd: "read_chars s2 (count_char (text_put bs t)) = (Inr r, t')"
        using res by (auto split: option.splits)
      from "1.IH"(1) [OF Cons 2(2,3,1) u [folded Cons] refl rd] obtain w xs where
        w: "s2 = w @ r" "string_chars w xs" "t' = fold put_item xs (count_char (text_put bs t))" by blast
      from read_utf8_sound [OF u] obtain n where n: "scalar_value n" "0x80 \<le> n" "bs = utf8_of n" "c # s1 = bs @ s2" by auto
      with chars_utf8 [OF n(1,2) w(2)] w Cons show ?thesis
        by (intro exI [of _ "bs @ w"] exI [of _ "Some bs # xs"]) (simp add: put_item_simps)
    next
      case 3
      then have rd: "read_chars s1 (count_char (text_put [c] t)) = (Inr r, t')" using res by simp
      from "1.IH"(2) [OF Cons 3(1,2,3,4) rd] obtain w xs where
        w: "s1 = w @ r" "string_chars w xs" "t' = fold put_item xs (count_char (text_put [c] t))" by blast
      with chars_plain [OF _ _ 3(1,4) w(2)] 3 Cons show ?thesis
        by (intro exI [of _ "c # w"] exI [of _ "Some [c] # xs"]) (simp add: put_item_simps not_less not_le)
    next
      case 4
      then obtain s2 t2 where e: "read_escape s1 t = (Inr s2, t2)" and rd: "read_chars s2 t2 = (Inr r, t')"
        using res by (auto split: prod.splits sum.splits)
      from "1.IH"(3) [OF Cons 4(4,2,3) _ e [symmetric] refl rd] 4(1) obtain w xs where
        w: "s2 = w @ r" "string_chars w xs" "t' = fold put_item xs t2" by blast
      from e obtain c1 s3 where s1: "s1 = c1 # s3" by (cases s1) (simp_all add: read_escape_def)
      show ?thesis
      proof (cases "simple_escape c1")
        case (Some b)
        with e s1 have "s2 = s3" "t2 = put_item (Some [b]) t" by (simp_all add: read_escape_complete(1))
        with chars_simple [OF Some w(2)] w Cons s1 4(1) show ?thesis
          by (intro exI [of _ "0x5C # c1 # w"] exI [of _ "Some [b] # xs"]) simp
      next
        case None
        with e s1 have c1: "c1 = 0x75" and e2: "read_unicode_escape s3 t = (Inr s2, t2)"
          by (auto simp: read_escape_def split: if_splits)
        from read_unicode_escape_sound [OF e2 w(2,1)] obtain w' x where
          "s3 = w' @ r" "string_chars (0x5C # 0x75 # w') (x # xs)" "t2 = put_item x t" by blast
        with w Cons s1 c1 4(1) show ?thesis
          by (intro exI [of _ "0x5C # 0x75 # w'"] exI [of _ "x # xs"]) simp
      qed
    qed
  qed
qed


section \<open>What a text collects\<close>

definition item_bytes :: "item \<Rightarrow> byte list" where
  "item_bytes x = (case x of None \<Rightarrow> [] | Some bs \<Rightarrow> bs)"

definition decoded :: "item list \<Rightarrow> byte list" where
  "decoded xs = concat (map item_bytes xs)"

definition FNV_OFFSET :: u64 where "FNV_OFFSET = 0xcbf29ce484222325"

text \<open>What tells members of one object apart: the hash of the name and its length.\<close>

definition name_key :: "item list \<Rightarrow> u64 \<times> nat" where
  "name_key xs = (fold fnv_byte (decoded xs) FNV_OFFSET, length (decoded xs))"

lemma decoded_simps [simp]: "decoded [] = []" "decoded (x # xs) = item_bytes x @ decoded xs" "decoded (xs @ ys) = decoded xs @ decoded ys"
  by (simp_all add: decoded_def)

lemma item_bytes_simps [simp]: "item_bytes None = []" "item_bytes (Some bs) = bs"
  by (simp_all add: item_bytes_def)

lemma string_chars_nonempty: "string_chars w xs \<Longrightarrow> Some [] \<notin> set xs"
  by (induction rule: string_chars.induct) (auto dest: sym [of "[]"])

lemma string_chars_length: "string_chars w xs \<Longrightarrow> length xs < length w"
  by (induction rule: string_chars.induct) (auto simp: hex4_def Suc_le_eq intro: less_le_trans)

text \<open>The state of a text that took the bytes \<open>d\<close>: it holds them as long as they fit with their NUL.\<close>

definition collects :: "json_text \<Rightarrow> byte list \<Rightarrow> bool" where
  "collects t d \<longleftrightarrow> tx_bytes t = length d \<and>
     (case tx_text t of
        None \<Rightarrow> \<not> tx_overflow t
      | Some s \<Rightarrow> tx_overflow t = (d \<noteq> [] \<and> tx_cap t \<le> length d) \<and> (\<not> tx_overflow t \<longrightarrow> s = d) \<and>
                  (s \<noteq> [] \<longrightarrow> length s < tx_cap t))"

lemma collects_put:
  assumes "collects t d" "x \<noteq> Some []"
  shows "collects (put_item x t) (d @ item_bytes x)"
  using assms by (cases x) (auto simp: collects_def put_item_def count_char_def text_put_def Let_def split: option.splits)

lemma put_item_fields [simp]:
  "tx_cap (put_item x t) = tx_cap t" "tx_chars (put_item x t) = Suc (tx_chars t)"
  "tx_bad (put_item x t) = (tx_bad t \<or> x = None)" "tx_hash (put_item x t) = fold fnv_byte (item_bytes x) (tx_hash t)"
  "tx_text (put_item x t) = None \<longleftrightarrow> tx_text t = None"
  by (cases x; simp add: put_item_def count_char_def text_put_def Let_def split: option.split)+

lemma put_items_fields [simp]:
  "tx_cap (fold put_item xs t) = tx_cap t" "tx_chars (fold put_item xs t) = tx_chars t + length xs"
  "tx_bad (fold put_item xs t) = (tx_bad t \<or> None \<in> set xs)"
  "tx_hash (fold put_item xs t) = fold fnv_byte (decoded xs) (tx_hash t)"
  "tx_text (fold put_item xs t) = None \<longleftrightarrow> tx_text t = None"
  by (induction xs arbitrary: t) auto

lemma collects_items:
  "collects t d \<Longrightarrow> Some [] \<notin> set xs \<Longrightarrow> collects (fold put_item xs t) (d @ decoded xs)"
proof (induction xs arbitrary: t d)
  case Nil
  then show ?case by simp
next
  case (Cons x xs)
  then have "collects (put_item x t) (d @ item_bytes x)" by (intro collects_put) auto
  from Cons.IH [OF this] Cons.prems(2) show ?case by simp
qed

lemma fresh_collects: "collects (fresh_text b cap) []"
  by (simp add: collects_def fresh_text_def)

lemma read_items:
  assumes "string_chars w xs" and t: "t = fold put_item xs (fresh_text b cap)"
  shows "collects t (decoded xs)" "tx_cap t = cap" "tx_chars t = length xs" "tx_bad t \<longleftrightarrow> None \<in> set xs"
    "tx_hash t = fst (name_key xs)" "tx_bytes t = snd (name_key xs)" "tx_text t = None \<longleftrightarrow> \<not> b"
proof -
  show c: "collects t (decoded xs)"
    using collects_items [OF fresh_collects string_chars_nonempty [OF assms(1)], of b cap] by (simp add: t)
  then show "tx_bytes t = snd (name_key xs)" by (simp add: collects_def name_key_def)
qed (auto simp: t fresh_text_def name_key_def FNV_OFFSET_def)

end
