(* ===== verification/Json_Numbers.thy ===== *)
theory Json_Numbers
  imports Json_Reader
begin

text \<open>
  The grammar of number texts, that the reader takes exactly these, and when the value it gives is exact.
\<close>

section \<open>The grammar of numbers\<close>

definition digits_text :: "byte list \<Rightarrow> bool" where
  "digits_text ds \<longleftrightarrow> ds \<noteq> [] \<and> list_all is_digit ds"

definition int_text :: "byte list \<Rightarrow> bool" where
  "int_text ip \<longleftrightarrow> ip = [0x30] \<or> digits_text ip \<and> hd ip \<noteq> 0x30"

definition frac_text :: "byte list \<Rightarrow> bool" where
  "frac_text fp \<longleftrightarrow> fp = [] \<or> (\<exists>ds. digits_text ds \<and> fp = 0x2E # ds)"

definition exp_text :: "byte list \<Rightarrow> bool" where
  "exp_text ep \<longleftrightarrow> ep = [] \<or>
     (\<exists>c sg ds. (c = 0x65 \<or> c = 0x45) \<and> (sg = [] \<or> sg = [0x2B] \<or> sg = [0x2D]) \<and> digits_text ds \<and> ep = c # sg @ ds)"

definition number_text :: "byte list \<Rightarrow> bool" where
  "number_text w \<longleftrightarrow> (\<exists>sg ip fp ep. (sg = [] \<or> sg = [0x2D]) \<and> int_text ip \<and> frac_text fp \<and> exp_text ep \<and>
     w = sg @ ip @ fp @ ep)"

definition number_meaning :: "byte list \<Rightarrow> number_kind \<times> int" where
  "number_meaning w = fst (the (scan_number w))"

text \<open>What cannot make a number longer.\<close>

definition ends_number :: "byte list \<Rightarrow> bool" where
  "ends_number s \<longleftrightarrow> s = [] \<or> \<not> is_digit (hd s) \<and> hd s \<noteq> 0x2E \<and> hd s \<noteq> 0x65 \<and> hd s \<noteq> 0x45"

definition ends_digits :: "byte list \<Rightarrow> bool" where
  "ends_digits s \<longleftrightarrow> s = [] \<or> \<not> is_digit (hd s)"

lemma digit_bytes [simp]:
  "is_digit 0x30" "\<not> is_digit 0x2E" "\<not> is_digit 0x65" "\<not> is_digit 0x45" "\<not> is_digit 0x2B" "\<not> is_digit 0x2D"
  "is_digit c \<and> c \<noteq> 0x30 \<longleftrightarrow> 0x31 \<le> c \<and> c \<le> 0x39"
proof -
  show "is_digit c \<and> c \<noteq> 0x30 \<longleftrightarrow> 0x31 \<le> c \<and> c \<le> 0x39"
    unfolding is_digit_def word_le_nat_alt word_unat_eq_iff by auto
qed (simp_all add: is_digit_def)

lemma run_of_digits:
  assumes "list_all is_digit ds" "ends_digits s"
  shows "takeWhile is_digit (ds @ s) = ds" "dropWhile is_digit (ds @ s) = s"
  using assms by (induction ds) (cases s; simp add: ends_digits_def)+

lemma digit_run:
  obtains ds s' where "s = ds @ s'" "takeWhile is_digit s = ds" "dropWhile is_digit s = s'" "list_all is_digit ds"
    "ends_digits s'"
proof
  show "s = takeWhile is_digit s @ dropWhile is_digit s" by simp
  show "list_all is_digit (takeWhile is_digit s)" by (auto simp: list_all_iff dest: set_takeWhileD)
  show "ends_digits (dropWhile is_digit s)" using hd_dropWhile [of is_digit s] by (auto simp: ends_digits_def)
qed simp_all

lemma ends_digits_nil [simp]: "ends_digits []"
  by (simp add: ends_digits_def)

subsection \<open>The three parts\<close>

lemma read_int_part_run:
  assumes "digits_text ip" "hd ip \<noteq> 0x30" "ends_digits s"
  shows "read_int_part (ip @ s) = Some (fold keep_int_digit ip ([], 0), s)"
proof -
  obtain c t where ip: "ip = c # t" using assms(1) by (cases ip) (simp_all add: digits_text_def)
  then have "0x31 \<le> c \<and> c \<le> 0x39" "c \<noteq> 0x30" using assms(1,2) digit_bytes(7) [of c] by (auto simp: digits_text_def)
  moreover have "list_all is_digit ip" using assms(1) by (simp add: digits_text_def)
  ultimately show ?thesis using run_of_digits [OF _ assms(3), of ip] by (simp add: read_int_part_def ip)
qed

lemma read_int_part_complete:
  "int_text ip \<Longrightarrow> ends_digits s \<Longrightarrow> \<exists>a. read_int_part (ip @ s) = Some (a, s) \<and> read_int_part ip = Some (a, [])"
  using read_int_part_run [of ip s] read_int_part_run [of ip "[]"] by (auto simp: int_text_def read_int_part_def)

lemma read_int_part_sound:
  assumes "read_int_part s = Some (a, s')"
  shows "\<exists>ip. int_text ip \<and> s = ip @ s' \<and> read_int_part ip = Some (a, [])"
proof -
  from assms obtain c t where s: "s = c # t" by (cases s) (simp_all add: read_int_part_def)
  show ?thesis
  proof (cases "c = 0x30")
    case True
    with assms s show ?thesis by (intro exI [of _ "[0x30]"]) (simp add: read_int_part_def int_text_def)
  next
    case False
    with assms s have c: "0x31 \<le> c \<and> c \<le> 0x39" and r: "a = fold keep_int_digit (takeWhile is_digit s) ([], 0)" "s' = dropWhile is_digit s"
      by (auto simp: read_int_part_def split: if_splits)
    obtain ds where d: "s = ds @ s'" "takeWhile is_digit s = ds" "list_all is_digit ds"
      using digit_run [of s] r(2) by metis
    have "is_digit c" using c digit_bytes(7) [of c] by blast
    then have n: "ds \<noteq> []" using d(2) s by auto
    then have "hd ds = c" using d(1) s by (cases ds) simp_all
    then have t: "digits_text ds" "hd ds \<noteq> 0x30" using d(3) n False by (simp_all add: digits_text_def)
    then have "read_int_part ds = Some (a, [])" using read_int_part_run [OF t, of "[]"] r(1) d(2) by simp
    with t d(1) show ?thesis by (auto simp: int_text_def)
  qed
qed

lemma digits_text_head: "digits_text ds \<Longrightarrow> ds @ s \<noteq> [] \<and> is_digit (hd (ds @ s))"
  by (cases ds) (simp_all add: digits_text_def)

lemma read_frac_part_run:
  assumes "digits_text ds" "ends_digits s"
  shows "read_frac_part (k, e) (0x2E # ds @ s) = Some (fold keep_frac_digit ds (k, e, False), s)"
  using digits_text_head [OF assms(1), of s] run_of_digits [OF _ assms(2), of ds] assms(1)
  by (simp add: read_frac_part_def digits_text_def)

lemma read_frac_part_none: "s = [] \<or> hd s \<noteq> 0x2E \<Longrightarrow> read_frac_part (k, e) s = Some ((k, e, False), s)"
  by (auto simp: read_frac_part_def)

lemma read_frac_part_complete:
  assumes "frac_text fp" "ends_digits s" "s = [] \<or> hd s \<noteq> 0x2E"
  shows "\<exists>b. read_frac_part a (fp @ s) = Some (b, s) \<and> read_frac_part a fp = Some (b, [])"
proof -
  obtain k e where a: "a = (k, e)" by fastforce
  show ?thesis
  proof (cases "fp = []")
    case True
    then show ?thesis using read_frac_part_none [OF assms(3)] read_frac_part_none [of "[]"]
      by (intro exI [of _ "(k, e, False)"]) (simp add: a)
  next
    case False
    with assms(1) obtain ds where d: "digits_text ds" "fp = 0x2E # ds" by (auto simp: frac_text_def)
    show ?thesis
      using read_frac_part_run [OF d(1) assms(2)] read_frac_part_run [OF d(1) ends_digits_nil]
      by (intro exI [of _ "fold keep_frac_digit ds (k, e, False)"]) (simp add: a d(2))
  qed
qed

lemma read_frac_part_sound:
  assumes "read_frac_part a s = Some (b, s')"
  shows "\<exists>fp. frac_text fp \<and> s = fp @ s' \<and> read_frac_part a fp = Some (b, []) \<and> (fp \<noteq> [] \<longrightarrow> ends_digits s')"
proof (cases "s \<noteq> [] \<and> hd s = 0x2E")
  case True
  then obtain t where s: "s = 0x2E # t" by (cases s) auto
  obtain k e where a: "a = (k, e)" by fastforce
  obtain ds where d: "t = ds @ dropWhile is_digit t" "takeWhile is_digit t = ds" "list_all is_digit ds"
    "ends_digits (dropWhile is_digit t)" using digit_run [of t] by metis
  from assms have h: "t \<noteq> []" "is_digit (hd t)" "b = fold keep_frac_digit ds (k, e, False)" "s' = dropWhile is_digit t"
    using d(2) by (auto simp: read_frac_part_def s a split: if_splits)
  then have "digits_text ds" using d(2,3) by (cases t) (auto simp: digits_text_def)
  with h d s a read_frac_part_run [OF this ends_digits_nil] show ?thesis
    by (intro exI [of _ "0x2E # ds"]) (auto simp: frac_text_def)
next
  case False
  with assms show ?thesis
    by (intro exI [of _ "[]"]) (cases a, auto simp: read_frac_part_def frac_text_def)
qed

text \<open>The exponent that a text spells out, as the loop adds it up.\<close>

definition exp_value :: "byte list \<Rightarrow> byte list \<Rightarrow> int" where
  "exp_value sg ds = (let e = fold exp_digit ds 0 in if sg = [0x2D] then - e else e)"

lemma read_exp_part_run:
  assumes "c = 0x65 \<or> c = 0x45" "sg = [] \<or> sg = [0x2B] \<or> sg = [0x2D]" "digits_text ds" "ends_digits s"
  shows "read_exp_part (c # sg @ ds @ s) = Some (exp_value sg ds, s)"
proof -
  have d: "is_digit (hd (ds @ s))" "ds @ s \<noteq> []" using digits_text_head [OF assms(3)] by auto
  then have "hd (ds @ s) \<noteq> 0x2B" "hd (ds @ s) \<noteq> 0x2D" by auto
  moreover have "takeWhile is_digit (ds @ s) = ds" "dropWhile is_digit (ds @ s) = s"
    using run_of_digits [OF _ assms(4)] assms(3) by (auto simp: digits_text_def)
  ultimately show ?thesis
    using assms(1,2) d by (elim disjE) (simp_all add: read_exp_part_def Let_def exp_value_def del: append_is_Nil_conv)
qed

lemma read_exp_part_complete:
  assumes "exp_text ep" "ends_number s"
  shows "\<exists>x. read_exp_part (ep @ s) = Some (x, s) \<and> read_exp_part ep = Some (x, [])"
proof (cases "ep = []")
  case True
  with assms(2) show ?thesis by (auto simp: read_exp_part_def ends_number_def)
next
  case False
  with assms(1) obtain c sg ds where e: "c = 0x65 \<or> c = 0x45" "sg = [] \<or> sg = [0x2B] \<or> sg = [0x2D]"
    "digits_text ds" "ep = c # sg @ ds" by (auto simp: exp_text_def)
  have "ends_digits s" using assms(2) by (auto simp: ends_number_def ends_digits_def)
  from read_exp_part_run [OF e(1-3) this] read_exp_part_run [OF e(1-3) ends_digits_nil] show ?thesis by (simp add: e(4))
qed

lemma read_exp_part_sound:
  assumes "read_exp_part s = Some (x, s')"
  shows "\<exists>ep. exp_text ep \<and> s = ep @ s' \<and> read_exp_part ep = Some (x, [])"
proof (cases "s \<noteq> [] \<and> (hd s = 0x65 \<or> hd s = 0x45)")
  case True
  then obtain c t where s: "s = c # t" and c: "c = 0x65 \<or> c = 0x45" by (cases s) auto
  obtain sg u where t: "t = sg @ u" "sg = [] \<or> sg = [0x2B] \<or> sg = [0x2D]"
    "sg = [] \<longrightarrow> \<not> (t \<noteq> [] \<and> (hd t = 0x2B \<or> hd t = 0x2D))"
  proof (cases "t \<noteq> [] \<and> (hd t = 0x2B \<or> hd t = 0x2D)")
    case True
    then show ?thesis by (intro that [of "[hd t]" "tl t"]) auto
  next
    case False
    then show ?thesis by (intro that [of "[]" t]) auto
  qed
  obtain ds where d: "u = ds @ dropWhile is_digit u" "takeWhile is_digit u = ds" "list_all is_digit ds"
    "ends_digits (dropWhile is_digit u)" using digit_run [of u] by metis
  have h: "u \<noteq> []" "is_digit (hd u)" "s' = dropWhile is_digit u" and x: "x = exp_value sg ds"
    using assms t c d(2) by (auto simp: read_exp_part_def s Let_def exp_value_def split: if_splits)
  then have dt: "digits_text ds" using d(2,3) by (cases u) (auto simp: digits_text_def)
  from read_exp_part_run [OF c t(2) dt ends_digits_nil] x have "read_exp_part (c # sg @ ds) = Some (x, [])" by simp
  moreover have "s = (c # sg @ ds) @ s'" using s t(1) d(1) h(3) by simp
  moreover have "exp_text (c # sg @ ds)" using c t(2) dt unfolding exp_text_def by blast
  ultimately show ?thesis by blast
next
  case False
  with assms show ?thesis by (intro exI [of _ "[]"]) (auto simp: read_exp_part_def exp_text_def)
qed


subsection \<open>Whole numbers\<close>

lemma int_text_head:
  "int_text ip \<Longrightarrow> ip \<noteq> [] \<and> is_digit (hd ip)"
  by (cases ip) (auto simp: int_text_def digits_text_def)

lemma part_boundaries:
  "exp_text ep \<Longrightarrow> ends_number s \<Longrightarrow> ends_digits (ep @ s)" "exp_text ep \<Longrightarrow> ends_number s \<Longrightarrow> ep @ s = [] \<or> hd (ep @ s) \<noteq> 0x2E"
  "frac_text fp \<Longrightarrow> ends_digits t \<Longrightarrow> ends_digits (fp @ t)"
  by (auto simp: exp_text_def frac_text_def ends_number_def ends_digits_def)

lemma scan_number_parts:
  assumes "sg = [] \<or> sg = [0x2D]" "int_text ip" "read_int_part (ip @ fp @ ep @ s) = Some (a, fp @ ep @ s)"
    "read_frac_part a (fp @ ep @ s) = Some ((k, e, d), ep @ s)" "read_exp_part (ep @ s) = Some (x, s)"
  shows "scan_number (sg @ ip @ fp @ ep @ s) = Some (number_value (sg \<noteq> []) k (e + x) d, s)"
proof -
  have "hd (ip @ fp @ ep @ s) \<noteq> 0x2D" using int_text_head [OF assms(2)] by auto
  with assms show ?thesis by (auto simp: scan_number_def Let_def)
qed

theorem scan_number_complete:
  assumes "number_text w" "ends_number s"
  shows "scan_number (w @ s) = Some (number_meaning w, s)"
proof -
  from assms(1) obtain sg ip fp ep where w: "sg = [] \<or> sg = [0x2D]" "int_text ip" "frac_text fp" "exp_text ep"
    "w = sg @ ip @ fp @ ep" by (auto simp: number_text_def)
  have n: "ends_number []" by (simp add: ends_number_def)
  have b: "ends_digits (ep @ t)" "ep @ t = [] \<or> hd (ep @ t) \<noteq> 0x2E" "ends_digits (fp @ ep @ t)" if "ends_number t" for t
    using part_boundaries(1,2) [OF w(4) that] part_boundaries(3) [OF w(3)] by blast+
  obtain a where a: "read_int_part (ip @ fp @ ep @ s) = Some (a, fp @ ep @ s)" "read_int_part (ip @ fp @ ep) = Some (a, fp @ ep)"
    using read_int_part_complete [OF w(2) b(3) [OF assms(2)]] read_int_part_complete [OF w(2) b(3) [OF n]] by auto
  obtain kb where kb: "read_frac_part a (fp @ ep @ s) = Some (kb, ep @ s)" "read_frac_part a (fp @ ep) = Some (kb, ep)"
    using read_frac_part_complete [OF w(3) b(1,2) [OF assms(2)], of a] read_frac_part_complete [OF w(3) b(1,2) [OF n], of a] by auto
  obtain x where x: "read_exp_part (ep @ s) = Some (x, s)" "read_exp_part ep = Some (x, [])"
    using read_exp_part_complete [OF w(4) assms(2)] by blast
  obtain k e d where k: "kb = (k, e, d)" by (cases kb)
  from scan_number_parts [OF w(1,2) a(1) kb(1) [unfolded k] x(1)]
    scan_number_parts [OF w(1,2), of fp ep "[]"] a(2) kb(2) x(2)
  show ?thesis by (simp add: w(5) number_meaning_def k)
qed

theorem scan_number_sound:
  assumes "scan_number s = Some (v, s')"
  shows "\<exists>w. number_text w \<and> s = w @ s' \<and> v = number_meaning w"
proof -
  define sg where "sg = (if s \<noteq> [] \<and> hd s = 0x2D then [0x2D :: byte] else [])"
  define t where "t = (if s \<noteq> [] \<and> hd s = 0x2D then tl s else s)"
  have s: "s = sg @ t" by (cases s) (simp_all add: sg_def t_def)
  have sg: "sg = [] \<or> sg = [0x2D]" by (simp add: sg_def)
  from assms obtain a s2 kb s3 x where p: "read_int_part t = Some (a, s2)" "read_frac_part a s2 = Some (kb, s3)"
    "read_exp_part s3 = Some (x, s')"
    by (auto simp: scan_number_def Let_def t_def bind_eq_Some_conv split: if_splits prod.splits)
  obtain ip where i: "int_text ip" "t = ip @ s2" "read_int_part ip = Some (a, [])" using read_int_part_sound [OF p(1)] by blast
  obtain fp where f: "frac_text fp" "s2 = fp @ s3" "read_frac_part a fp = Some (kb, [])" using read_frac_part_sound [OF p(2)] by blast
  obtain ep where e: "exp_text ep" "s3 = ep @ s'" "read_exp_part ep = Some (x, [])" using read_exp_part_sound [OF p(3)] by blast
  let ?w = "sg @ ip @ fp @ ep"
  have w: "number_text ?w" using sg i(1) f(1) e(1) unfolding number_text_def by blast
  obtain k e' d where k: "kb = (k, e', d)" by (cases kb)
  have "v = number_value (sg \<noteq> []) k (e' + x) d"
    using scan_number_parts [OF sg i(1), of fp ep s' a k e' d x] p assms i(2) f(2) e(2) s k by simp
  moreover have "scan_number (?w @ []) = Some (number_meaning ?w, [])"
    by (rule scan_number_complete [OF w]) (simp add: ends_number_def)
  moreover have "scan_number ?w = Some (number_value (sg \<noteq> []) k (e' + x) d, [])"
  proof -
    have n: "ends_number []" by (simp add: ends_number_def)
    obtain a' where a': "read_int_part (ip @ fp @ ep) = Some (a', fp @ ep)" "read_int_part ip = Some (a', [])"
      using read_int_part_complete [OF i(1) part_boundaries(3) [OF f(1) part_boundaries(1) [OF e(1) n]]] by auto
    then have a: "read_int_part (ip @ fp @ ep) = Some (a, fp @ ep)" using i(3) by simp
    obtain b' where b': "read_frac_part a (fp @ ep) = Some (b', ep)" "read_frac_part a fp = Some (b', [])"
      using read_frac_part_complete [OF f(1) part_boundaries(1,2) [OF e(1) n], of a] by auto
    then have b: "read_frac_part a (fp @ ep) = Some ((k, e', d), ep)" using f(3) k by simp
    from scan_number_parts [OF sg i(1), of fp ep "[]"] a b e(3) show ?thesis by simp
  qed
  ultimately show ?thesis using w s i(2) f(2) e(2) by (intro exI [of _ ?w]) simp
qed


section \<open>The value of a number\<close>

text \<open>The number that digits spell, most significant first.\<close>

definition digits_value :: "nat list \<Rightarrow> nat" where
  "digits_value ds = foldl (\<lambda>v d. v * 10 + d) 0 ds"

definition in_int64 :: "int \<Rightarrow> bool" where
  "in_int64 v \<longleftrightarrow> - (2 ^ 63) \<le> v \<and> v < 2 ^ 63"

text \<open>What JSON Schema makes of \<open>\<plusminus> M * 10 ^ E\<close>.\<close>

definition exact_number :: "bool \<Rightarrow> nat \<Rightarrow> int \<Rightarrow> number_kind \<times> int" where
  "exact_number negative M E =
     (if E < 0 \<and> \<not> 10 ^ nat (- E) dvd M then (NUMBER_FRACTIONAL, 0)
      else let V = (if E < 0 then M div 10 ^ nat (- E) else M * 10 ^ nat E);
               W = (if negative then - int V else int V)
           in if in_int64 W then (NUMBER_INTEGRAL, W) else (NUMBER_OUT_OF_RANGE, 0))"

lemma digits_value_foldl: "foldl (\<lambda>v d. v * 10 + d) v ds = v * 10 ^ length ds + digits_value ds"
proof (induction ds arbitrary: v)
  case Nil
  then show ?case by (simp add: digits_value_def)
next
  case (Cons d ds)
  have "digits_value (d # ds) = d * 10 ^ length ds + digits_value ds"
    using Cons [of d] by (simp add: digits_value_def)
  with Cons [of "v * 10 + d"] show ?case by (simp add: algebra_simps)
qed

lemma digits_value_simps [simp]:
  "digits_value [] = 0" "digits_value (d # ds) = d * 10 ^ length ds + digits_value ds"
  "digits_value (xs @ ys) = digits_value xs * 10 ^ length ys + digits_value ys"
proof -
  show "digits_value (d # ds) = d * 10 ^ length ds + digits_value ds"
    using digits_value_foldl [of d ds] by (simp add: digits_value_def)
  show "digits_value (xs @ ys) = digits_value xs * 10 ^ length ys + digits_value ys"
    using digits_value_foldl [of "digits_value xs" ys] by (simp add: digits_value_def)
qed (simp add: digits_value_def)

lemma digits_value_bound: "list_all (\<lambda>d. d < 10) ds \<Longrightarrow> digits_value ds < 10 ^ length ds"
proof (induction ds)
  case Nil
  then show ?case by simp
next
  case (Cons d ds)
  then have "(d + 1) * 10 ^ length ds \<le> 10 * 10 ^ length ds" by (intro mult_right_mono) simp_all
  then have "d * 10 ^ length ds + 10 ^ length ds \<le> 10 ^ length (d # ds)" by (simp only: add_mult_distrib mult_1 length_Cons power_Suc)
  moreover have "digits_value ds < 10 ^ length ds" using Cons by simp
  ultimately show ?case unfolding digits_value_simps by linarith
qed

lemma digits_value_zeros: "list_all (\<lambda>d. d = 0) ds \<Longrightarrow> digits_value ds = 0"
  by (induction ds) simp_all

lemma digits_value_dropWhile: "digits_value (dropWhile (\<lambda>d. d = 0) ds) = digits_value ds"
  by (induction ds) simp_all

text \<open>Stripping zeros at both ends.\<close>

lemma stripped:
  fixes ds :: "nat list"
  defines "sig \<equiv> dropWhile (\<lambda>d. d = 0) ds"
  defines "z \<equiv> length (takeWhile (\<lambda>d. d = 0) (rev sig))"
  defines "kept \<equiv> take (length sig - z) sig"
  assumes d: "list_all (\<lambda>d. d < 10) ds"
  shows "digits_value ds = digits_value kept * 10 ^ z" "kept \<noteq> [] \<Longrightarrow> hd kept \<noteq> 0 \<and> \<not> 10 dvd digits_value kept"
    "list_all (\<lambda>d. d < 10) kept"
proof -
  let ?t = "takeWhile (\<lambda>d. d = 0) (rev sig)"
  have rs: "rev sig = ?t @ dropWhile (\<lambda>d. d = 0) (rev sig)" by simp
  have sig: "sig = rev (dropWhile (\<lambda>d. d = 0) (rev sig)) @ rev ?t"
    using rs by (metis rev_append rev_rev_ident)
  have zt: "length (rev ?t) = z" by (simp add: z_def)
  have kept: "kept = rev (dropWhile (\<lambda>d. d = 0) (rev sig))"
  proof -
    have "length sig = length (dropWhile (\<lambda>d. d = 0) (rev sig)) + z" using arg_cong [OF sig, of length] zt by simp
    then have "length sig - z = length (rev (dropWhile (\<lambda>d. d = 0) (rev sig)))" by simp
    then show ?thesis unfolding kept_def by (subst (2) sig) simp
  qed
  have zeros: "list_all (\<lambda>d. d = 0) (rev ?t)" by (auto simp: list_all_iff dest: set_takeWhileD)
  have v: "digits_value ds = digits_value sig" by (simp add: sig_def digits_value_dropWhile)
  show "digits_value ds = digits_value kept * 10 ^ z"
    unfolding v by (subst sig) (simp add: digits_value_zeros [OF zeros] z_def kept)
  show k: "list_all (\<lambda>d. d < 10) kept"
    using d unfolding kept sig_def by (auto simp: list_all_iff dest!: set_dropWhileD)
  show "hd kept \<noteq> 0 \<and> \<not> 10 dvd digits_value kept" if ne: "kept \<noteq> []"
  proof
    have "hd kept = hd sig" using sig ne kept by (metis hd_append2)
    moreover have "sig \<noteq> []" using ne by (auto simp: kept_def)
    ultimately show "hd kept \<noteq> 0" using hd_dropWhile [of "\<lambda>d. d = 0" ds] by (simp add: sig_def)
    have "dropWhile (\<lambda>d. d = 0) (rev sig) \<noteq> []" using ne kept by simp
    then obtain x xs where x: "dropWhile (\<lambda>d. d = 0) (rev sig) = x # xs" by (cases "dropWhile (\<lambda>d. d = 0) (rev sig)") simp_all
    then have "x \<noteq> 0" using hd_dropWhile [of "\<lambda>d. d = 0" "rev sig"] by simp
    moreover have kx: "kept = rev xs @ [x]" using x kept by simp
    moreover have "x < 10" using k kx by simp
    ultimately have "\<not> 10 dvd x" by (auto dest: dvd_imp_le)
    then show "\<not> 10 dvd digits_value kept" unfolding kx by (simp add: dvd_add_right_iff)
  qed
qed

lemma sdiv_10: "x < 0 \<Longrightarrow> v < x sdiv 10 \<longleftrightarrow> v * 10 < (x :: int)"
proof -
  assume x: "x < 0"
  have "x sdiv 10 = - ((- x) div 10)" using x by (simp add: signed_divide_int_def sgn_if)
  then have "v < x sdiv 10 \<longleftrightarrow> (- x) div 10 < - v" by linarith
  also have "\<dots> \<longleftrightarrow> - x < (- v) * 10" by presburger
  finally show ?thesis by linarith
qed


lemma INT64_MIN_neg: "d < 10 \<Longrightarrow> INT64_MIN + int d < 0" "INT64_MIN < 0"
  by (simp_all add: INT64_MIN_def)

lemma diff_le_self_int: "a - int n \<le> a" by simp

lemma accumulate_step: "d < 10 \<Longrightarrow> v < (INT64_MIN + int d) sdiv 10 \<longleftrightarrow> v * 10 - int d < INT64_MIN"
  using sdiv_10 [OF INT64_MIN_neg(1), of d v] by simp linarith

text \<open>Both loops give the exact value, or nothing when it is below the least \<^verbatim>\<open>int64_t\<close>.\<close>

lemma accumulate_eq:
  "list_all (\<lambda>d. d < 10) ds \<Longrightarrow> INT64_MIN \<le> v \<Longrightarrow> v \<le> 0 \<Longrightarrow>
   accumulate v ds = (let w = v * 10 ^ length ds - int (digits_value ds) in if w < INT64_MIN then None else Some w)"
proof (induction ds arbitrary: v)
  case Nil
  then show ?case by simp
next
  case (Cons d ds)
  then have d: "d < 10" and ds: "list_all (\<lambda>d. d < 10) ds" by simp_all
  let ?u = "v * 10 - int d"
  have w: "v * 10 ^ length (d # ds) - int (digits_value (d # ds)) = ?u * 10 ^ length ds - int (digits_value ds)"
    by (simp add: algebra_simps)
  show ?case
  proof (cases "?u < INT64_MIN")
    case True
    have "?u * 10 ^ length ds \<le> ?u * 1"
      by (rule mult_left_mono_neg) (use Cons.prems(3) in simp_all)
    then have "?u * 10 ^ length ds \<le> ?u" by (simp only: mult_1_right)
    moreover have "?u * 10 ^ length ds - int (digits_value ds) \<le> ?u * 10 ^ length ds" by (rule diff_le_self_int)
    ultimately have "?u * 10 ^ length ds - int (digits_value ds) < INT64_MIN" using True by (meson le_less_trans)
    then show ?thesis using True unfolding accumulate.simps accumulate_step [OF d] w by (simp add: Let_def)
  next
    case False
    then have "accumulate ?u ds = (let w = ?u * 10 ^ length ds - int (digits_value ds) in if w < INT64_MIN then None else Some w)"
      using Cons.prems(3) by (intro Cons.IH [OF ds]) simp_all
    with False show ?thesis unfolding accumulate.simps accumulate_step [OF d] w by simp
  qed
qed

lemma scale_up_eq:
  "INT64_MIN \<le> v \<Longrightarrow> v \<le> 0 \<Longrightarrow>
   scale_up v k = (let w = v * 10 ^ k in if w < INT64_MIN then None else Some w)"
proof (induction k arbitrary: v)
  case 0
  then show ?case by simp
next
  case (Suc k)
  have s: "v < INT64_MIN sdiv 10 \<longleftrightarrow> v * 10 < INT64_MIN" by (rule sdiv_10 [OF INT64_MIN_neg(2)])
  show ?case
  proof (cases "v * 10 < INT64_MIN")
    case True
    have "v * 10 * 10 ^ k \<le> v * 10 * 1" by (rule mult_left_mono_neg) (use Suc.prems(2) in simp_all)
    with True have "v * 10 ^ Suc k < INT64_MIN" by (simp add: mult.assoc)
    with True show ?thesis by (simp add: s)
  next
    case False
    with Suc.IH [of "v * 10"] Suc.prems show ?thesis by (simp add: s mult.assoc)
  qed
qed

lemma power_dvd_strip:
  fixes K :: nat
  assumes "\<not> 10 dvd K"
  shows "10 ^ n dvd K * 10 ^ z \<longleftrightarrow> n \<le> z"
proof
  assume "n \<le> z"
  then show "10 ^ n dvd K * 10 ^ z" by (simp add: dvd_mult le_imp_power_dvd)
next
  assume d: "10 ^ n dvd K * 10 ^ z"
  show "n \<le> z"
  proof (rule ccontr)
    assume "\<not> n \<le> z"
    then have "10 ^ Suc z dvd (10 :: nat) ^ n" by (intro le_imp_power_dvd) simp
    with d have "10 ^ Suc z dvd K * 10 ^ z" by (rule dvd_trans [rotated])
    then have "10 * 10 ^ z dvd K * (10 :: nat) ^ z" by simp
    then have "10 dvd K" by (subst (asm) dvd_times_right_cancel_iff) simp_all
    with assms show False ..
  qed
qed

lemma int64_range:
  "in_int64 (- int V) \<longleftrightarrow> \<not> - int V < INT64_MIN"
  "in_int64 (int V) \<longleftrightarrow> \<not> - int V < INT64_MIN \<and> - int V \<noteq> INT64_MIN"
  by (auto simp: in_int64_def INT64_MIN_def)

text \<open>The judgement of the digits that were kept is exact.\<close>

lemma number_value_exact:
  assumes d: "list_all (\<lambda>d. d < 10) ds"
  shows "number_value negative ds e False = (if digits_value ds = 0 then (NUMBER_INTEGRAL, 0) else exact_number negative (digits_value ds) e)"
proof -
  define sig where "sig = dropWhile (\<lambda>d. d = 0) ds"
  define z where "z = length (takeWhile (\<lambda>d. d = 0) (rev sig))"
  define kept where "kept = take (length sig - z) sig"
  note st = stripped [OF d, folded sig_def, folded z_def, folded kept_def]
  let ?K = "digits_value kept" and ?E = "e + int z"
  have nv: "number_value negative ds e False =
     (if kept = [] then (NUMBER_INTEGRAL, 0)
      else if ?E < 0 then (NUMBER_FRACTIONAL, 0)
      else if 19 < int (length kept) + ?E then (NUMBER_OUT_OF_RANGE, 0)
      else case accumulate 0 kept of
             None \<Rightarrow> (NUMBER_OUT_OF_RANGE, 0)
           | Some v \<Rightarrow> (case scale_up v (nat ?E) of
                 None \<Rightarrow> (NUMBER_OUT_OF_RANGE, 0)
               | Some w \<Rightarrow> if \<not> negative then (if w = INT64_MIN then (NUMBER_OUT_OF_RANGE, 0) else (NUMBER_INTEGRAL, - w))
                           else (NUMBER_INTEGRAL, w)))"
    unfolding number_value_def Let_def sig_def [symmetric] z_def [symmetric] kept_def [symmetric] by simp
  show ?thesis
  proof (cases "kept = []")
    case True
    then show ?thesis using st(1) by (simp add: nv)
  next
    case False
    note k = st(2) [OF False]
    then have K0: "?K \<noteq> 0" by (intro notI) simp
    have M: "digits_value ds = ?K * 10 ^ z" by (rule st(1))
    then have M0: "digits_value ds \<noteq> 0" using K0 by simp
    have frac: "e < 0 \<and> \<not> 10 ^ nat (- e) dvd digits_value ds \<longleftrightarrow> ?E < 0"
      unfolding M power_dvd_strip [OF conjunct2 [OF k]] by (auto simp: le_nat_iff)
    show ?thesis
    proof (cases "?E < 0")
      case True
      then show ?thesis using False M0 frac by (simp add: nv exact_number_def)
    next
      case E: False
      let ?V = "?K * 10 ^ nat ?E"
      have V: "(if e < 0 then digits_value ds div 10 ^ nat (- e) else digits_value ds * 10 ^ nat e) = ?V"
      proof (cases "e < 0")
        case True
        then have "z = nat ?E + nat (- e)" using E by linarith
        then have "(10 :: nat) ^ z = 10 ^ nat ?E * 10 ^ nat (- e)" by (metis power_add)
        then have "digits_value ds = ?V * 10 ^ nat (- e)" unfolding M by (simp only: mult.assoc)
        with True show ?thesis by simp
      next
        case False
        then have "nat ?E = z + nat e" by linarith
        with False show ?thesis unfolding M by (simp add: power_add)
      qed
      have nf: "\<not> (e < 0 \<and> \<not> 10 ^ nat (- e) dvd digits_value ds)" using frac E by blast
      have ex: "exact_number negative (digits_value ds) e =
          (let W = (if negative then - int ?V else int ?V) in
           if in_int64 W then (NUMBER_INTEGRAL, W) else (NUMBER_OUT_OF_RANGE, 0))"
        unfolding exact_number_def if_not_P [OF nf] V Let_def ..
      show ?thesis
      proof (cases "19 < int (length kept) + ?E")
        case True
        obtain c ks where kc: "kept = c # ks" using False by (cases kept) simp_all
        have "1 * 10 ^ length ks \<le> c * 10 ^ length ks" using k by (intro mult_le_mono1) (simp add: kc)
        then have "10 ^ length ks \<le> ?K" unfolding kc digits_value_simps by linarith
        then have grow: "10 ^ length ks * 10 ^ nat ?E \<le> ?V" by (rule mult_right_mono) simp
        have "(10 :: nat) ^ 19 \<le> 10 ^ (length ks + nat ?E)"
          by (rule power_increasing) (use True E kc in simp_all)
        from le_trans [OF this [unfolded power_add] grow] have "10 ^ 19 \<le> ?V" .
        then have "(10 :: int) ^ 19 \<le> int ?V" by (metis of_nat_le_iff of_nat_numeral of_nat_power)
        then have "\<not> in_int64 (int ?V)" "\<not> in_int64 (- int ?V)" by (simp_all add: in_int64_def)
        then show ?thesis using True False E M0 by (simp add: nv ex Let_def)
      next
        case in19: False
        have acc: "accumulate 0 kept = (if - int ?K < INT64_MIN then None else Some (- int ?K))"
          using accumulate_eq [OF st(3), of 0] by (simp add: INT64_MIN_def)
        have mono: "int ?K \<le> int ?V" by (simp only: of_nat_le_iff) simp
        have range: "in_int64 (- int ?V) \<longleftrightarrow> \<not> - int ?V < INT64_MIN" "in_int64 (int ?V) \<longleftrightarrow> \<not> - int ?V < INT64_MIN \<and> - int ?V \<noteq> INT64_MIN"
          by (rule int64_range)+
        show ?thesis
        proof (cases "- int ?K < INT64_MIN")
          case True
          then have "- int ?V < INT64_MIN" using mono by linarith
          then show ?thesis using True False E in19 M0 range by (simp add: nv ex acc Let_def)
        next
          case fits: False
          have "scale_up (- int ?K) (nat ?E) = (if - int ?V < INT64_MIN then None else Some (- int ?V))"
            using scale_up_eq [of "- int ?K" "nat ?E"] fits by (simp add: not_less)
          then show ?thesis using fits False E in19 M0 range by (simp add: nv ex acc Let_def)
        qed
      qed
    qed
  qed
qed


subsection \<open>From the text to the value\<close>

definition digits_of :: "byte list \<Rightarrow> nat list" where
  "digits_of ds = map digit_value ds"

lemma digits_of_simps [simp]:
  "digits_of [] = []" "digits_of (xs @ ys) = digits_of xs @ digits_of ys" "length (digits_of ds) = length ds"
  by (simp_all add: digits_of_def)

lemma digits_of_small: "list_all is_digit ds \<Longrightarrow> list_all (\<lambda>d. d < 10) (digits_of ds)"
  by (induction ds) (auto simp: digits_of_def digit_value_def is_digit_def word_le_nat_alt)

lemma keep_int_digits:
  "length k + length ds \<le> DIGITS_KEPT \<Longrightarrow> fold keep_int_digit ds (k, e) = (k @ digits_of ds, e)"
  by (induction ds arbitrary: k) (simp_all add: keep_int_digit_def digits_of_def)

lemma keep_frac_digits:
  "length k + length ds \<le> DIGITS_KEPT \<Longrightarrow>
   fold keep_frac_digit ds (k, e, b) = (k @ digits_of ds, e - int (length ds), b)"
  by (induction ds arbitrary: k e) (simp_all add: keep_frac_digit_def digits_of_def)

text \<open>The exponent stops growing at 100000, where it no longer matters.\<close>

lemma exp_digits:
  fixes e :: int
  assumes "list_all is_digit ds" "0 \<le> e"
  shows "fold exp_digit ds e = e * 10 ^ length ds + int (digits_value (digits_of ds)) \<or>
         100000 \<le> fold exp_digit ds e \<and> 100000 \<le> e * 10 ^ length ds + int (digits_value (digits_of ds))"
  using assms
proof (induction ds arbitrary: e)
  case Nil
  then show ?case by simp
next
  case (Cons c ds)
  have grow: "100000 \<le> e * 10 ^ length (c # ds) + int (digits_value (digits_of (c # ds)))" if "100000 \<le> e"
  proof -
    have "e * 1 \<le> e * 10 ^ length (c # ds)" using Cons.prems(2) by (intro mult_left_mono one_le_power) simp_all
    then show ?thesis using that by linarith
  qed
  have stay: "fold exp_digit ds e = e" if "100000 \<le> e" for e :: int and ds
    using that by (induction ds) (simp_all add: exp_digit_def)
  show ?case
  proof (cases "e < 100000")
    case True
    let ?f = "e * 10 + int (digit_value c)"
    have "fold exp_digit (c # ds) e = fold exp_digit ds ?f" using True by (simp add: exp_digit_def)
    moreover have "e * 10 ^ length (c # ds) + int (digits_value (digits_of (c # ds))) =
        ?f * 10 ^ length ds + int (digits_value (digits_of ds))"
      by (simp add: digits_of_def algebra_simps)
    ultimately show ?thesis using Cons.IH [of ?f] Cons.prems by simp
  next
    case False
    then have "100000 \<le> e" by simp
    with stay [OF this, of "c # ds"] grow show ?thesis by metis
  qed
qed

text \<open>Beyond that exponent every number of 40 digits is judged alike.\<close>

lemma exact_number_far:
  assumes "0 < M" "M < 10 ^ 40"
  shows "1000 \<le> E \<Longrightarrow> exact_number negative M E = (NUMBER_OUT_OF_RANGE, 0)"
    and "E \<le> - 1000 \<Longrightarrow> exact_number negative M E = (NUMBER_FRACTIONAL, 0)"
proof -
  assume E: "1000 \<le> E"
  then have "(10 :: nat) ^ 19 \<le> 10 ^ nat E" by (intro power_increasing) simp_all
  then have "1 * 10 ^ 19 \<le> M * 10 ^ nat E" using assms(1) by (intro mult_le_mono) simp_all
  then have "int (10 ^ 19) \<le> int (M * 10 ^ nat E)" by (simp only: of_nat_le_iff mult_1)
  then have "\<not> in_int64 (int (M * 10 ^ nat E))" "\<not> in_int64 (- int (M * 10 ^ nat E))"
    by (simp_all add: in_int64_def)
  with E show "exact_number negative M E = (NUMBER_OUT_OF_RANGE, 0)" by (simp add: exact_number_def Let_def)
next
  assume E: "E \<le> - 1000"
  then have "(10 :: nat) ^ 40 \<le> 10 ^ nat (- E)" by (intro power_increasing) simp_all
  then have "\<not> 10 ^ nat (- E) dvd M" using assms by (auto dest: dvd_imp_le)
  with E show "exact_number negative M E = (NUMBER_FRACTIONAL, 0)" by (simp add: exact_number_def)
qed


lemma exact_number_zero: "exact_number negative 0 E = (NUMBER_INTEGRAL, 0)"
  by (simp add: exact_number_def in_int64_def Let_def)

lemma number_value_eq_exact:
  "list_all (\<lambda>d. d < 10) ds \<Longrightarrow> number_value negative ds e False = exact_number negative (digits_value ds) e"
  by (simp add: number_value_exact exact_number_zero)

text \<open>What an exponent part spells.\<close>

definition spells_exponent :: "byte list \<Rightarrow> int \<Rightarrow> bool" where
  "spells_exponent ep X \<longleftrightarrow> ep = [] \<and> X = 0 \<or>
     (\<exists>c sg ds. (c = 0x65 \<or> c = 0x45) \<and> (sg = [] \<or> sg = [0x2B] \<or> sg = [0x2D]) \<and> digits_text ds \<and>
        ep = c # sg @ ds \<and> X = (if sg = [0x2D] then - int (digits_value (digits_of ds)) else int (digits_value (digits_of ds))))"

lemma spelled_exponent_read:
  assumes "spells_exponent ep X" "ends_number s"
  shows "\<exists>x. read_exp_part (ep @ s) = Some (x, s) \<and> (x = X \<or> 100000 \<le> x \<and> 100000 \<le> X \<or> x \<le> - 100000 \<and> X \<le> - 100000)"
proof (cases "ep = []")
  case True
  with assms show ?thesis by (auto simp: spells_exponent_def read_exp_part_def ends_number_def)
next
  case False
  with assms(1) obtain c sg ds where e: "c = 0x65 \<or> c = 0x45" "sg = [] \<or> sg = [0x2B] \<or> sg = [0x2D]" "digits_text ds"
    "ep = c # sg @ ds" and X: "X = (if sg = [0x2D] then - int (digits_value (digits_of ds)) else int (digits_value (digits_of ds)))"
    by (auto simp: spells_exponent_def)
  have "ends_digits s" using assms(2) by (auto simp: ends_number_def ends_digits_def)
  from read_exp_part_run [OF e(1-3) this] have "read_exp_part (ep @ s) = Some (exp_value sg ds, s)" by (simp add: e(4))
  moreover have "list_all is_digit ds" using e(3) by (simp add: digits_text_def)
  from exp_digits [OF this, of 0] have "exp_value sg ds = X \<or> 100000 \<le> exp_value sg ds \<and> 100000 \<le> X \<or>
      exp_value sg ds \<le> - 100000 \<and> X \<le> - 100000"
    unfolding exp_value_def Let_def X by auto
  ultimately show ?thesis by blast
qed

theorem short_numbers_are_exact:
  assumes "sg = [] \<or> sg = [0x2D]" "int_text ip" "list_all is_digit fd" "spells_exponent ep X" "ends_number s"
    and "length ip + length fd \<le> DIGITS_KEPT" and fp: "fp = (if fd = [] then [] else 0x2E # fd)"
  shows "scan_number (sg @ ip @ fp @ ep @ s) =
    Some (exact_number (sg \<noteq> []) (digits_value (digits_of (ip @ fd))) (X - int (length fd)), s)"
proof -
  from spelled_exponent_read [OF assms(4,5)] obtain x where x: "read_exp_part (ep @ s) = Some (x, s)"
    "x = X \<or> 100000 \<le> x \<and> 100000 \<le> X \<or> x \<le> - 100000 \<and> X \<le> - 100000" by blast
  have ep: "exp_text ep" using assms(4) unfolding spells_exponent_def exp_text_def by blast
  have ft: "frac_text fp" using assms(3) fp by (auto simp: frac_text_def digits_text_def)
  note b = part_boundaries(1,2) [OF ep assms(5)] part_boundaries(3) [OF ft part_boundaries(1) [OF ep assms(5)]]
  have ipd: "list_all is_digit ip" using assms(2) by (auto simp: int_text_def digits_text_def)
  obtain k where k: "read_int_part (ip @ fp @ ep @ s) = Some ((k, 0), fp @ ep @ s)" "length k \<le> length ip"
    "digits_value k = digits_value (digits_of ip)" "list_all (\<lambda>d. d < 10) k"
  proof (cases "ip = [0x30]")
    case True
    then show thesis by (intro that [of "[]"]) (simp_all add: read_int_part_def digits_of_def digit_value_def)
  next
    case False
    then have i: "digits_text ip" "hd ip \<noteq> 0x30" using assms(2) by (auto simp: int_text_def)
    have "fold keep_int_digit ip ([], 0) = (digits_of ip, 0)" using keep_int_digits [of "[]" ip 0] assms(6) by simp
    with read_int_part_run [OF i b(3)] digits_of_small [OF ipd] show thesis by (intro that) simp_all
  qed
  have fr: "read_frac_part (k, 0) (fp @ ep @ s) = Some ((k @ digits_of fd, - int (length fd), False), ep @ s)"
  proof (cases "fd = []")
    case True
    then show ?thesis using read_frac_part_none [OF b(2), of k 0] fp by simp
  next
    case False
    then have "digits_text fd" using assms(3) by (simp add: digits_text_def)
    from read_frac_part_run [OF this b(1), of k 0] keep_frac_digits [of k fd 0 False] assms(6) k(2) False
    show ?thesis by (simp add: fp)
  qed
  let ?M = "digits_value (k @ digits_of fd)" and ?l = "int (length fd)"
  have M: "?M = digits_value (digits_of (ip @ fd))" using k(3) by simp
  have small: "list_all (\<lambda>d. d < 10) (k @ digits_of fd)" using k(4) digits_of_small [OF assms(3)] by simp
  have "number_value (sg \<noteq> []) (k @ digits_of fd) (- ?l + x) False = exact_number (sg \<noteq> []) ?M (x - ?l)"
    using number_value_eq_exact [OF small] by (simp add: algebra_simps)
  also have "\<dots> = exact_number (sg \<noteq> []) ?M (X - ?l)"
  proof (cases "?M = 0 \<or> x = X")
    case True
    then show ?thesis by (auto simp: exact_number_zero)
  next
    case False
    have len: "length (k @ digits_of fd) \<le> 40" using assms(6) k(2) by (simp add: DIGITS_KEPT_def)
    then have "?M < 10 ^ 40" using digits_value_bound [OF small] power_increasing [OF len, of "10 :: nat"] by linarith
    moreover have "0 < ?M" using False by simp
    moreover have "?l \<le> 40" using assms(6) by (simp add: DIGITS_KEPT_def)
    ultimately show ?thesis using x(2) False exact_number_far [of ?M] by auto
  qed
  finally show ?thesis using scan_number_parts [OF assms(1,2) k(1) fr x(1)] M by simp
qed

text \<open>With more digits the judgement may be wrong: \<open>10 ^ 40 + 5\<close> divided by \<open>10 ^ 40\<close> passes for 1.\<close>

definition long_number :: "byte list" where
  "long_number = 0x31 # replicate 39 0x30 @ [0x35, 0x65, 0x2D, 0x34, 0x30]"

theorem long_fraction_passes_for_an_integer:
  "scan_number long_number = Some ((NUMBER_INTEGRAL, 1), []) \<and> \<not> 10 ^ 40 dvd (10 ^ 40 + 5 :: nat)"
proof
  have "scan_number long_number = Some ((NUMBER_INTEGRAL, 1), [])" by code_simp
  then show "scan_number long_number = Some ((NUMBER_INTEGRAL, 1), [])" .
  show "\<not> 10 ^ 40 dvd (10 ^ 40 + 5 :: nat)" by (simp add: dvd_add_right_iff)
qed

end
