(* ===== verification/Json_Grammar.thy ===== *)
theory Json_Grammar
  imports Json_Strings Json_Numbers
begin

text \<open>
  JSON values as trees, the texts that spell them, and the contract of a function that reads one value
  (locale \<open>value_parser\<close>).
\<close>

section \<open>JSON texts\<close>

datatype json =
    JNull
  | JBool bool
  | JNumber number_kind int
  | JString "item list"
  | JArray "json list"
  | JObject "(item list \<times> json) list"

abbreviation blank :: "byte list \<Rightarrow> bool" where
  "blank w \<equiv> list_all is_ws w"

text \<open>
  \<open>spells d j w\<close>: the bytes \<open>w\<close> are the value \<open>j\<close>, in which objects and arrays nest at most \<open>d\<close> deep. The
  members of an object and the elements of an array are spelled up to and including the closing bracket.
\<close>

inductive spells :: "nat \<Rightarrow> json \<Rightarrow> byte list \<Rightarrow> bool"
  and spells_members :: "nat \<Rightarrow> (item list \<times> json) list \<Rightarrow> byte list \<Rightarrow> bool"
  and spells_elements :: "nat \<Rightarrow> json list \<Rightarrow> byte list \<Rightarrow> bool" where
  spells_null: "spells d JNull (bytes_of ''null'')"
| spells_true: "spells d (JBool True) (bytes_of ''true'')"
| spells_false: "spells d (JBool False) (bytes_of ''false'')"
| spells_number: "number_text w \<Longrightarrow> number_meaning w = (kind, v) \<Longrightarrow> spells d (JNumber kind v) w"
| spells_string: "string_chars w xs \<Longrightarrow> spells d (JString xs) (0x22 # w)"
| spells_empty_object: "blank w \<Longrightarrow> spells (Suc d) (JObject []) (0x7B # w @ [0x7D])"
| spells_object: "spells_members d ms w \<Longrightarrow> distinct (map (name_key \<circ> fst) ms) \<Longrightarrow> length ms \<le> MAX_MEMBERS \<Longrightarrow>
    spells (Suc d) (JObject ms) (0x7B # w)"
| spells_empty_array: "blank w \<Longrightarrow> spells (Suc d) (JArray []) (0x5B # w @ [0x5D])"
| spells_array: "spells_elements d js w \<Longrightarrow> spells (Suc d) (JArray js) (0x5B # w)"
| spells_last_member: "blank a \<Longrightarrow> string_chars n xs \<Longrightarrow> blank b \<Longrightarrow> blank c \<Longrightarrow> spells d j v \<Longrightarrow> blank e \<Longrightarrow>
    spells_members d [(xs, j)] (a @ 0x22 # n @ b @ 0x3A # c @ v @ e @ [0x7D])"
| spells_more_members: "blank a \<Longrightarrow> string_chars n xs \<Longrightarrow> blank b \<Longrightarrow> blank c \<Longrightarrow> spells d j v \<Longrightarrow> blank e \<Longrightarrow>
    spells_members d ms w \<Longrightarrow> spells_members d ((xs, j) # ms) (a @ 0x22 # n @ b @ 0x3A # c @ v @ e @ 0x2C # w)"
| spells_last_element: "blank a \<Longrightarrow> spells d j v \<Longrightarrow> blank e \<Longrightarrow> spells_elements d [j] (a @ v @ e @ [0x5D])"
| spells_more_elements: "blank a \<Longrightarrow> spells d j v \<Longrightarrow> blank e \<Longrightarrow> spells_elements d js w \<Longrightarrow>
    spells_elements d (j # js) (a @ v @ e @ 0x2C # w)"

inductive_cases spells_members_elim: "spells_members d ms w"
inductive_cases spells_elements_elim: "spells_elements d js w"
inductive_cases spells_elim: "spells d j w"

text \<open>A request body: one value of at most eight levels between blanks.\<close>

definition json_body :: "json \<Rightarrow> byte list \<Rightarrow> bool" where
  "json_body j body \<longleftrightarrow> (\<exists>a v e. blank a \<and> spells WEB_JSON_MAX_DEPTH j v \<and> blank e \<and> body = a @ v @ e)"

lemma ws_bytes [simp]:
  "\<not> is_ws 0x22" "\<not> is_ws 0x7B" "\<not> is_ws 0x7D" "\<not> is_ws 0x5B" "\<not> is_ws 0x5D" "\<not> is_ws 0x2C" "\<not> is_ws 0x3A"
  "\<not> is_ws 0x2D" "\<not> is_ws 0x6E" "\<not> is_ws 0x74" "\<not> is_ws 0x66"
  by (simp_all add: is_ws_def)

lemma ws_not_digit: "is_ws c \<Longrightarrow> \<not> is_digit c"
  by (auto simp: is_ws_def is_digit_def)

lemma number_text_head:
  assumes "number_text w"
  obtains c t where "w = c # t" "c = 0x2D \<or> is_digit c"
proof -
  from assms obtain sg ip fp ep where w: "sg = [] \<or> sg = [0x2D]" "int_text ip" "w = sg @ ip @ fp @ ep"
    by (auto simp: number_text_def)
  with int_text_head [OF w(2)] show thesis using that by (cases ip) auto
qed

lemma spells_head:
  assumes "spells d j w"
  obtains c t where "w = c # t" "\<not> is_ws c"
  using assms
proof (cases rule: spells.cases)
  case (spells_number kind v)
  then show thesis using that by (elim number_text_head) (auto dest: ws_not_digit)
qed (use that in \<open>simp_all add: bytes_of_def\<close>)

lemma drop_blank: "blank a \<Longrightarrow> dropWhile is_ws (a @ s) = dropWhile is_ws s"
  by (induction a) auto

lemma drop_blank_head: "blank a \<Longrightarrow> \<not> is_ws c \<Longrightarrow> dropWhile is_ws (a @ c # s) = c # s"
  by (simp add: drop_blank)

lemma drop_blank_value: "blank a \<Longrightarrow> spells d j v \<Longrightarrow> dropWhile is_ws (a @ v @ s) = v @ s"
  by (elim spells_head) (simp add: drop_blank)

lemma blank_split: obtains a where "blank a" "s = a @ dropWhile is_ws s"
proof
  show "blank (takeWhile is_ws s)" by (auto simp: list_all_iff dest: set_takeWhileD)
  show "s = takeWhile is_ws s @ dropWhile is_ws s" by simp
qed

lemma drop_blank_twice [simp]: "dropWhile is_ws (dropWhile is_ws s) = dropWhile is_ws s"
  by (induction s) auto

lemma ends_number_after:
  "blank e \<Longrightarrow> ends_number (e @ 0x7D # s)" "blank e \<Longrightarrow> ends_number (e @ 0x5D # s)" "blank e \<Longrightarrow> ends_number (e @ 0x2C # s)"
  "blank e \<Longrightarrow> ends_number e"
  by (cases e; auto simp: ends_number_def is_ws_def is_digit_def)+

section \<open>What the parsing state is\<close>

text \<open>The part of the reader that decides about syntax.\<close>

definition syn :: "reader \<Rightarrow> byte list \<times> string option \<times> nat" where
  "syn r = (jr_p r, jr_syntax r, jr_depth r)"

lemma syn_simps [simp]:
  "syn (r\<lparr>jr_p := s\<rparr>) = (s, jr_syntax r, jr_depth r)" "syn (syntax_error m r) = ([], Some (case jr_syntax r of None \<Rightarrow> m | Some x \<Rightarrow> x), jr_depth r)"
  "syn (report code r) = syn r" "syn (path_pop k r) = syn r" "syn (path_push_bytes b r) = syn r"
  "syn (path_push_index i r) = syn r" "syn (store_bytes p bs r) = syn r" "syn (set_flag base off r) = syn r"
  by (auto simp: syn_def syntax_error_def report_def path_pop_def path_push_bytes_def path_push_index_def store_bytes_def
      set_flag_def split: option.splits)

lemma syn_fields: "syn r = (p, e, d) \<longleftrightarrow> jr_p r = p \<and> jr_syntax r = e \<and> jr_depth r = d"
  by (auto simp: syn_def)

lemma failed_syn: "failed r \<longleftrightarrow> fst (snd (syn r)) \<noteq> None"
  by (simp add: failed_def syn_def)

lemma failed_syntax_error [simp]: "failed (syntax_error m r)"
  by (simp add: failed_def syntax_error_def split: option.split)

lemma failed_update [simp]: "failed (r\<lparr>jr_p := s\<rparr>) = failed r"
  by (simp add: failed_def)

section \<open>Names, separators, scalars\<close>

lemma read_string_complete:
  "string_chars w xs \<Longrightarrow> jr_p r = 0x22 # w @ s \<Longrightarrow>
   read_string (fresh_text b cap) r = (r\<lparr>jr_p := s\<rparr>, fold put_item xs (fresh_text b cap))"
  using read_chars_complete [of w xs s "fresh_text b cap"] by (simp add: read_string_def advance_def fresh_text_def)

lemma read_string_fresh:
  "read_string (fresh_text b cap) r =
     (case read_chars (tl (jr_p r)) (fresh_text b cap) of
        (Inl m, t) \<Rightarrow> (syntax_error m (advance r), t)
      | (Inr s, t) \<Rightarrow> (r\<lparr>jr_p := s\<rparr>, t))"
  by (simp add: read_string_def advance_def fresh_text_def Let_def split: prod.split sum.split)

lemma read_string_sound:
  assumes "read_string (fresh_text b cap) r = (r', t)" "jr_p r = 0x22 # u"
  shows "(\<exists>m. r' = syntax_error m (advance r)) \<or>
    (\<exists>w xs s. u = w @ s \<and> string_chars w xs \<and> r' = r\<lparr>jr_p := s\<rparr> \<and> t = fold put_item xs (fresh_text b cap))"
proof (cases "read_chars u (fresh_text b cap)")
  case (Pair x t1)
  show ?thesis
  proof (cases x)
    case (Inl m)
    then show ?thesis using assms Pair by (auto simp: read_string_fresh)
  next
    case (Inr s)
    with Pair have c: "read_chars u (fresh_text b cap) = (Inr s, t1)" by simp
    then have "r' = r\<lparr>jr_p := s\<rparr>" "t = t1" using assms by (simp_all add: read_string_fresh)
    with read_chars_sound [OF c] show ?thesis by blast
  qed
qed

lemma syn_advance [simp]: "syn (advance r) = (tl (jr_p r), jr_syntax r, jr_depth r)"
  by (simp add: advance_def syn_def)

lemma syn_skip_ws [simp]: "syn (skip_ws r) = (dropWhile is_ws (jr_p r), jr_syntax r, jr_depth r)"
  by (simp add: skip_ws_def syn_def)

text \<open>A member's name and colon.\<close>

definition name_text :: "item list \<Rightarrow> json_text" where
  "name_text xs = fold put_item xs (fresh_text True (NAME_MAX + 1))"

lemma name_text_key: "string_chars n xs \<Longrightarrow> (tx_hash (name_text xs), tx_bytes (name_text xs)) = name_key xs"
  using read_items(5,6) [OF _ refl, of n xs True "NAME_MAX + 1"] by (simp add: name_text_def prod_eq_iff)

lemma member_name_complete:
  assumes "\<not> failed r" "jr_p r = a @ 0x22 # n @ b @ 0x3A # s" "blank a" "string_chars n xs" "blank b"
    "name_key xs \<notin> set m" "length m < MAX_MEMBERS"
  shows "member_name m r = Inr (name_text xs, m @ [name_key xs], r\<lparr>jr_p := s\<rparr>)"
proof -
  have "read_string (fresh_text True (NAME_MAX + 1)) (skip_ws r) = (r\<lparr>jr_p := b @ 0x3A # s\<rparr>, name_text xs)"
    using read_string_complete [OF assms(4), of "skip_ws r" "b @ 0x3A # s"] assms(2,3)
    by (simp add: skip_ws_def drop_blank name_text_def)
  then show ?thesis
    using assms name_text_key [OF assms(4)]
    by (simp add: member_name_def Let_def jr_peek_def skip_ws_def drop_blank member_is_duplicate_def advance_def)
qed

lemma member_name_sound:
  assumes "\<not> failed r"
  shows "(\<exists>r'. member_name m r = Inl r' \<and> failed r' \<and> jr_p r' = [] \<and> jr_depth r' = jr_depth r) \<or>
    (\<exists>a n xs b s. jr_p r = a @ 0x22 # n @ b @ 0x3A # s \<and> blank a \<and> string_chars n xs \<and> blank b \<and>
       name_key xs \<notin> set m \<and> length m < MAX_MEMBERS \<and>
       member_name m r = Inr (name_text xs, m @ [name_key xs], r\<lparr>jr_p := s\<rparr>))"
    (is "?bad \<or> ?good")
proof -
  have bad: ?bad if "member_name m r = Inl (syntax_error msg x)" "jr_depth x = jr_depth r" for msg x
    using that by (simp add: syntax_error_def failed_def split: option.split)
  obtain a where a: "blank a" "jr_p r = a @ dropWhile is_ws (jr_p r)" by (rule blank_split)
  show ?thesis
  proof (cases "jr_peek 0x22 (skip_ws r)")
    case False
    then show ?thesis using bad by (simp add: member_name_def Let_def skip_ws_def)
  next
    case True
    then obtain u where u: "jr_p (skip_ws r) = 0x22 # u" by (cases "jr_p (skip_ws r)") (auto simp: jr_peek_def)
    obtain r1 t where rt: "read_string (fresh_text True (NAME_MAX + 1)) (skip_ws r) = (r1, t)" by fastforce
    from read_string_sound [OF rt u] consider (err) msg where "r1 = syntax_error msg (advance (skip_ws r))"
      | (ok) w xs s where "u = w @ s" "string_chars w xs" "r1 = (skip_ws r)\<lparr>jr_p := s\<rparr>" "t = name_text xs"
      unfolding name_text_def by blast
    then show ?thesis
    proof cases
      case err
      then show ?thesis using bad True rt by (simp add: member_name_def Let_def skip_ws_def advance_def)
    next
      case ok
      have nf: "\<not> failed r1" using assms ok(3) by (simp add: failed_def skip_ws_def)
      have d: "jr_depth r1 = jr_depth r" using ok(3) by (simp add: skip_ws_def)
      have key: "(tx_hash t, tx_bytes t) = name_key xs" using name_text_key [OF ok(2)] ok(4) by simp
      obtain b where b: "blank b" "s = b @ dropWhile is_ws s" by (rule blank_split)
      show ?thesis
      proof (cases "name_key xs \<in> set m \<or> MAX_MEMBERS \<le> length m")
        case True
        then show ?thesis using bad [of _ r1] \<open>jr_peek 0x22 (skip_ws r)\<close> rt nf d key
          by (auto simp: member_name_def Let_def member_is_duplicate_def)
      next
        case False
        show ?thesis
        proof (cases "jr_peek 0x3A (skip_ws r1)")
          case True
          then obtain s' where "dropWhile is_ws s = 0x3A # s'"
            using ok(3) by (cases "dropWhile is_ws s") (auto simp: jr_peek_def skip_ws_def)
          then have s: "s = b @ 0x3A # s'" using b(2) by simp
          have p: "jr_p r = a @ 0x22 # w @ b @ 0x3A # s'"
            using a(2) u ok(1) s by (simp add: skip_ws_def)
          from False have k: "name_key xs \<notin> set m" "length m < MAX_MEMBERS" by auto
          note mc = member_name_complete [OF assms p a(1) ok(2) b(1) k]
          show ?thesis
            by (rule disjI2, rule exI [of _ a], rule exI [of _ w], rule exI [of _ xs], rule exI [of _ b], rule exI [of _ s'])
              (use mc p a(1) ok(2) b(1) k in blast)
        next
          case nocolon: False
          then show ?thesis using bad [of _ "skip_ws r1"] \<open>jr_peek 0x22 (skip_ws r)\<close> False rt nf d key
            by (auto simp: member_name_def Let_def member_is_duplicate_def skip_ws_def)
        qed
      qed
    qed
  qed
qed

lemma next_item_complete:
  assumes "blank e" "\<not> is_ws close" "close \<noteq> 0x2C"
  shows "jr_p r = e @ 0x2C # s \<Longrightarrow> next_item close m r = (True, r\<lparr>jr_p := s\<rparr>)"
    and "jr_p r = e @ close # s \<Longrightarrow> next_item close m r = (False, r\<lparr>jr_p := s\<rparr>)"
  using assms by (simp_all add: next_item_def Let_def skip_ws_def jr_peek_def advance_def drop_blank)

lemma next_item_sound:
  assumes "\<not> is_ws close" "close \<noteq> 0x2C"
  shows "(\<exists>e s. blank e \<and> jr_p r = e @ 0x2C # s \<and> next_item close m r = (True, r\<lparr>jr_p := s\<rparr>)) \<or>
    (\<exists>e s. blank e \<and> jr_p r = e @ close # s \<and> next_item close m r = (False, r\<lparr>jr_p := s\<rparr>)) \<or>
    (\<exists>r'. next_item close m r = (False, r') \<and> failed r' \<and> jr_p r' = [] \<and> jr_depth r' = jr_depth r)"
proof -
  obtain e where e: "blank e" "jr_p r = e @ dropWhile is_ws (jr_p r)" by (rule blank_split)
  consider s where "dropWhile is_ws (jr_p r) = 0x2C # s" | s where "dropWhile is_ws (jr_p r) = close # s"
    | "\<not> jr_peek 0x2C (skip_ws r)" "\<not> jr_peek close (skip_ws r)"
    by (cases "dropWhile is_ws (jr_p r)") (auto simp: jr_peek_def skip_ws_def)
  then show ?thesis
  proof cases
    case (1 s)
    then have p: "jr_p r = e @ 0x2C # s" using e(2) by simp
    with next_item_complete(1) [OF e(1) assms p] e(1) show ?thesis by blast
  next
    case (2 s)
    then have p: "jr_p r = e @ close # s" using e(2) by simp
    with next_item_complete(2) [OF e(1) assms p] e(1) show ?thesis by blast
  next
    case 3
    then have "next_item close m r = (False, syntax_error m (skip_ws r))" by (simp add: next_item_def Let_def)
    then show ?thesis by (simp add: syntax_error_def skip_ws_def failed_def split: option.split)
  qed
qed


lemma read_number_complete:
  "number_text w \<Longrightarrow> ends_number s \<Longrightarrow> jr_p r = w @ s \<Longrightarrow> read_number r = (number_meaning w, r\<lparr>jr_p := s\<rparr>)"
  by (simp add: read_number_def scan_number_complete)

lemma read_number_sound:
  "(\<exists>w s. number_text w \<and> jr_p r = w @ s \<and> read_number r = (number_meaning w, r\<lparr>jr_p := s\<rparr>)) \<or>
   read_number r = ((NUMBER_FRACTIONAL, 0), syntax_error ''Malformed number'' r)"
proof (cases "scan_number (jr_p r)")
  case (Some vs)
  obtain v s where vs: "vs = (v, s)" by fastforce
  from scan_number_sound [OF Some [unfolded vs]] show ?thesis using Some vs by (auto simp: read_number_def)
qed (simp add: read_number_def)

lemma read_literal_cases:
  "(\<exists>s. jr_p r = bytes_of word @ s \<and> read_literal word r = (True, r\<lparr>jr_p := s\<rparr>)) \<or>
   read_literal word r = (False, syntax_error ''Unexpected token'' r)"
proof (cases "length (jr_p r) < length word \<or> take (length word) (jr_p r) \<noteq> bytes_of word")
  case False
  then have "jr_p r = bytes_of word @ drop (length word) (jr_p r)" by (metis append_take_drop_id)
  with False show ?thesis unfolding read_literal_def by auto
qed (simp add: read_literal_def)

lemma read_literal_complete: "jr_p r = bytes_of word @ s \<Longrightarrow> read_literal word r = (True, r\<lparr>jr_p := s\<rparr>)"
  by (simp add: read_literal_def)

text \<open>The values without parts.\<close>

definition scalar :: "json \<Rightarrow> bool" where
  "scalar j \<longleftrightarrow> (case j of JArray _ \<Rightarrow> False | JObject _ \<Rightarrow> False | _ \<Rightarrow> True)"

lemma skip_scalar_complete:
  assumes "spells d j w" "scalar j" "ends_number s" "jr_p r = w @ s"
  shows "skip_scalar (hd w) r = r\<lparr>jr_p := s\<rparr>"
  using assms
proof (cases rule: spells.cases)
  case (spells_number kind v)
  then obtain c t where w: "w = c # t" "c = 0x2D \<or> is_digit c" by (elim number_text_head)
  moreover from this have "c \<noteq> 0x22" "c \<noteq> 0x74" "c \<noteq> 0x66" "c \<noteq> 0x6E" by (auto simp: is_digit_def)
  ultimately show ?thesis
    using read_number_complete [OF spells_number(2) assms(3,4)] by (auto simp: skip_scalar_def)
qed (use read_literal_complete [of r] read_string_complete in \<open>auto simp: skip_scalar_def bytes_of_def scalar_def\<close>)

lemma skip_scalar_sound:
  assumes "jr_p r = c # t" "\<not> failed r"
  shows "(\<exists>j w s. spells d j w \<and> scalar j \<and> c # t = w @ s \<and> skip_scalar c r = r\<lparr>jr_p := s\<rparr>) \<or>
    (\<exists>r'. skip_scalar c r = r' \<and> failed r' \<and> jr_p r' = [] \<and> jr_depth r' = jr_depth r)"
proof -
  have bad: "failed (syntax_error m x) \<and> jr_p (syntax_error m x) = [] \<and> jr_depth (syntax_error m x) = jr_depth x" for m x
    by (simp add: syntax_error_def failed_def split: option.split)
  have lit: ?thesis if "skip_scalar c r = snd (read_literal word r)" "spells d j (bytes_of word)" "scalar j" for word j
    using read_literal_cases [of r word]
  proof
    assume "\<exists>s. jr_p r = bytes_of word @ s \<and> read_literal word r = (True, r\<lparr>jr_p := s\<rparr>)"
    then obtain s where s: "jr_p r = bytes_of word @ s" "read_literal word r = (True, r\<lparr>jr_p := s\<rparr>)" by blast
    have "c # t = bytes_of word @ s" using s(1) assms(1) by simp
    moreover have "skip_scalar c r = r\<lparr>jr_p := s\<rparr>" using that(1) s(2) by simp
    ultimately show ?thesis using that(2,3) by blast
  next
    assume "read_literal word r = (False, syntax_error ''Unexpected token'' r)"
    with that(1) bad [of "''Unexpected token''" r] show ?thesis by simp
  qed
  consider "c = 0x22" | "c = 0x74" | "c = 0x66" | "c = 0x6E" | "c = 0x2D \<or> is_digit c"
    | "c \<noteq> 0x22" "c \<noteq> 0x74" "c \<noteq> 0x66" "c \<noteq> 0x6E" "\<not> (c = 0x2D \<or> is_digit c)" by blast
  then show ?thesis
  proof cases
    case 1
    obtain r' u where rt: "read_string (fresh_text False 0) r = (r', u)" by fastforce
    have s: "skip_scalar c r = r'" using 1 rt by (simp add: skip_scalar_def)
    from read_string_sound [OF rt, of t] assms(1) 1 consider msg where "r' = syntax_error msg (advance r)"
      | w xs s where "t = w @ s" "string_chars w xs" "r' = r\<lparr>jr_p := s\<rparr>" by auto
    then show ?thesis
    proof cases
      case 1
      then show ?thesis using s bad [of _ "advance r"] by (simp add: advance_def)
    next
      case (2 w xs q)
      then have "spells d (JString xs) (0x22 # w)" by (simp add: spells_string)
      with 2 s \<open>c = 0x22\<close> show ?thesis
        by (intro disjI1) (rule exI [of _ "JString xs"], rule exI [of _ "0x22 # w"], rule exI [of _ q], simp add: scalar_def)
    qed
  next
    case 2
    then show ?thesis by (intro lit [of "''true''" "JBool True"]) (simp_all add: skip_scalar_def spells_true scalar_def)
  next
    case 3
    then show ?thesis by (intro lit [of "''false''" "JBool False"]) (simp_all add: skip_scalar_def spells_false scalar_def)
  next
    case 4
    then show ?thesis by (intro lit [of "''null''" JNull]) (simp_all add: skip_scalar_def spells_null scalar_def)
  next
    case 5
    then have "c \<noteq> 0x22" "c \<noteq> 0x74" "c \<noteq> 0x66" "c \<noteq> 0x6E" by (auto simp: is_digit_def)
    with 5 have s: "skip_scalar c r = snd (read_number r)" by (auto simp: skip_scalar_def)
    from read_number_sound [of r] show ?thesis
    proof
      assume "\<exists>w s. number_text w \<and> jr_p r = w @ s \<and> read_number r = (number_meaning w, r\<lparr>jr_p := s\<rparr>)"
      then obtain w q where w: "number_text w" "jr_p r = w @ q" "read_number r = (number_meaning w, r\<lparr>jr_p := q\<rparr>)" by blast
      obtain kind v where "number_meaning w = (kind, v)" by fastforce
      then have "spells d (JNumber kind v) w" using w(1) by (simp add: spells_number)
      with w s assms(1) show ?thesis
        by (intro disjI1) (rule exI [of _ "JNumber kind v"], rule exI [of _ w], rule exI [of _ q], simp add: scalar_def)
    next
      assume "read_number r = ((NUMBER_FRACTIONAL, 0), syntax_error ''Malformed number'' r)"
      with s bad [of _ r] show ?thesis by simp
    qed
  next
    case 6
    then show ?thesis using bad [of _ r] by (simp add: skip_scalar_def)
  qed
qed

section \<open>What a reader of values promises\<close>

text \<open>
  A function that reads one value with \<open>d\<close> levels of nesting left. It always returns; it takes every spelled
  value and stops right behind it; and when it takes something, that was a spelled value.
\<close>

locale value_parser =
  fixes d :: nat and value_at :: "reader \<Rightarrow> reader option"
  assumes total: "jr_depth r + d = WEB_JSON_MAX_DEPTH \<Longrightarrow> \<not> failed r \<Longrightarrow> value_at r \<noteq> None"
    and complete: "jr_depth r + d = WEB_JSON_MAX_DEPTH \<Longrightarrow> \<not> failed r \<Longrightarrow> spells d j w \<Longrightarrow> ends_number s \<Longrightarrow>
      dropWhile is_ws (jr_p r) = w @ s \<Longrightarrow> value_at r = Some r' \<Longrightarrow> syn r' = (s, None, jr_depth r)"
    and sound: "jr_depth r + d = WEB_JSON_MAX_DEPTH \<Longrightarrow> \<not> failed r \<Longrightarrow> value_at r = Some r' \<Longrightarrow> \<not> failed r' \<Longrightarrow>
      \<exists>j w s. spells d j w \<and> dropWhile is_ws (jr_p r) = w @ s \<and> syn r' = (s, None, jr_depth r)"
    and stopped: "jr_depth r + d = WEB_JSON_MAX_DEPTH \<Longrightarrow> \<not> failed r \<Longrightarrow> value_at r = Some r' \<Longrightarrow> failed r' \<Longrightarrow>
      jr_p r' = [] \<and> jr_depth r' = jr_depth r"
begin

lemma accepts:
  assumes "jr_depth r + d = WEB_JSON_MAX_DEPTH" "\<not> failed r" "spells d j w" "ends_number s" "dropWhile is_ws (jr_p r) = w @ s"
  obtains r' where "value_at r = Some r'" "syn r' = (s, None, jr_depth r)" "\<not> failed r'"
  using total [OF assms(1,2)] complete [OF assms] by (auto simp: failed_syn)

lemma outcome:
  assumes "jr_depth r + d = WEB_JSON_MAX_DEPTH" "\<not> failed r"
  obtains (took) r' a j w s where "value_at r = Some r'" "blank a" "spells d j w" "jr_p r = a @ w @ s"
      "syn r' = (s, None, jr_depth r)" "\<not> failed r'"
    | (broke) r' where "value_at r = Some r'" "failed r'" "jr_p r' = []" "jr_depth r' = jr_depth r"
proof -
  obtain r' where v: "value_at r = Some r'" using total [OF assms(1,2)] by auto
  obtain a where a: "blank a" "jr_p r = a @ dropWhile is_ws (jr_p r)" by (rule blank_split)
  show thesis
  proof (cases "failed r'")
    case True
    show thesis by (rule broke [OF v True]) (use stopped [OF assms v True] in simp_all)
  next
    case False
    from sound [OF assms v False] a v False show thesis by (elim exE conjE) (rule took; simp)
  qed
qed

end

end
