(* ===== verification/Json_Syntax.thy ===== *)
theory Json_Syntax
  imports Json_Grammar
begin

text \<open>
  The loops over members and elements meet the contract when the values do, and so does \<^verbatim>\<open>skip_value\<close>, for every
  number of levels left: the interpretation \<open>skipper\<close>.
\<close>

section \<open>The loops over members and elements\<close>

abbreviation key_of :: "item list \<times> json \<Rightarrow> u64 \<times> nat" where
  "key_of \<equiv> name_key \<circ> fst"

lemma syn_depth: "syn r = (s, None, n) \<Longrightarrow> jr_depth r = n" "syn r = (s, None, n) \<Longrightarrow> jr_p r = s"
  "syn r = (s, None, n) \<Longrightarrow> \<not> failed r"
  by (auto simp: syn_def failed_def)

lemma spells_not_close:
  assumes "spells d j w"
  shows "hd (w @ s) \<noteq> 0x5D"
  using assms
proof (cases rule: spells.cases)
  case (spells_number kind v)
  then show ?thesis by (elim number_text_head) (auto simp: is_digit_def)
qed (simp_all add: bytes_of_def)

text \<open>Blanks before the first member or element belong to it.\<close>

lemma spells_members_blank: "blank x \<Longrightarrow> spells_members d ms w \<Longrightarrow> spells_members d ms (x @ w)"
proof (erule spells_members_elim)
  fix a n xs b c j v e
  assume "blank x" "blank a" "string_chars n xs" "blank b" "blank c" "spells d j v" "blank e" "ms = [(xs, j)]"
    "w = a @ 0x22 # n @ b @ 0x3A # c @ v @ e @ [0x7D]"
  then show ?thesis using spells_last_member [of "x @ a" n xs b c d j v e] by simp
next
  fix a n xs b c j v e ms' w'
  assume "blank x" "blank a" "string_chars n xs" "blank b" "blank c" "spells d j v" "blank e" "spells_members d ms' w'"
    "ms = (xs, j) # ms'" "w = a @ 0x22 # n @ b @ 0x3A # c @ v @ e @ 0x2C # w'"
  then show ?thesis using spells_more_members [of "x @ a" n xs b c d j v e ms' w'] by simp
qed

lemma spells_elements_blank: "blank x \<Longrightarrow> spells_elements d js w \<Longrightarrow> spells_elements d js (x @ w)"
proof (erule spells_elements_elim)
  fix a j v e
  assume "blank x" "blank a" "spells d j v" "blank e" "js = [j]" "w = a @ v @ e @ [0x5D]"
  then show ?thesis using spells_last_element [of "x @ a" d j v e] by simp
next
  fix a j v e js' w'
  assume "blank x" "blank a" "spells d j v" "blank e" "spells_elements d js' w'" "js = j # js'" "w = a @ v @ e @ 0x2C # w'"
  then show ?thesis using spells_more_elements [of "x @ a" d j v e js' w'] by simp
qed

lemma spells_members_start:
  assumes "spells_members d ms w"
  shows "\<exists>w'. spells_members d ms w' \<and> dropWhile is_ws (w @ s) = w' @ s \<and> hd (w' @ s) \<noteq> 0x7D \<and> w' \<noteq> []"
  using assms
proof (cases rule: spells_members.cases)
  case (spells_last_member a n xs b c j v e)
  with Json_Grammar.spells_last_member [of "[]" n xs b c d j v e] show ?thesis
    by (intro exI [of _ "0x22 # n @ b @ 0x3A # c @ v @ e @ [0x7D]"]) (simp add: drop_blank)
next
  case (spells_more_members a n xs b c j v e ms' w')
  with Json_Grammar.spells_more_members [of "[]" n xs b c d j v e ms' w'] show ?thesis
    by (intro exI [of _ "0x22 # n @ b @ 0x3A # c @ v @ e @ 0x2C # w'"]) (simp add: drop_blank)
qed

lemma spells_elements_start:
  assumes "spells_elements d js w"
  shows "\<exists>w'. spells_elements d js w' \<and> dropWhile is_ws (w @ s) = w' @ s \<and> hd (w' @ s) \<noteq> 0x5D \<and> w' \<noteq> []"
  using assms
proof (cases rule: spells_elements.cases)
  case (spells_last_element a j v e)
  have "v \<noteq> []" using spells_last_element by (auto elim: spells_head)
  with spells_last_element Json_Grammar.spells_last_element [of "[]" d j v e] spells_not_close [of d j v] show ?thesis
    by (intro exI [of _ "v @ e @ [0x5D]"]) (simp add: drop_blank_value)
next
  case (spells_more_elements a j v e js' w')
  have "v \<noteq> []" using spells_more_elements by (auto elim: spells_head)
  with spells_more_elements Json_Grammar.spells_more_elements [of "[]" d j v e js' w'] spells_not_close [of d j v] show ?thesis
    by (intro exI [of _ "v @ e @ 0x2C # w'"]) (simp add: drop_blank_value)
qed

context value_parser begin

lemma members_complete:
  "spells_members d ms w \<Longrightarrow> jr_depth r + d = WEB_JSON_MAX_DEPTH \<Longrightarrow> \<not> failed r \<Longrightarrow> jr_p r = w @ s \<Longrightarrow>
   length ms \<le> k \<Longrightarrow> distinct (m @ map key_of ms) \<Longrightarrow> length m + length ms \<le> MAX_MEMBERS \<Longrightarrow>
   \<exists>r'. skip_members value_at k m r = Some r' \<and> syn r' = (s, None, jr_depth r)"
proof (induction ms arbitrary: w m k r)
  case Nil
  then show ?case by (auto elim: spells_members_elim)
next
  case (Cons x ms)
  obtain k' where k: "k = Suc k'" using Cons.prems(5) by (cases k) simp_all
  from Cons.prems(1) obtain a n xs b c j v e u where
    x: "x = (xs, j)" and w: "w = a @ 0x22 # n @ b @ 0x3A # c @ v @ e @ u"
    and h: "blank a" "string_chars n xs" "blank b" "blank c" "spells d j v" "blank e"
    and u: "u = [0x7D] \<and> ms = [] \<or> (\<exists>w'. u = 0x2C # w' \<and> spells_members d ms w')"
    by (cases rule: spells_members.cases) auto
  let ?r1 = "r\<lparr>jr_p := c @ v @ e @ u @ s\<rparr>"
  have name: "member_name m r = Inr (name_text xs, m @ [name_key xs], ?r1)"
    by (rule member_name_complete [OF Cons.prems(3) _ h(1,2,3)]) (use Cons.prems x w in auto)
  have en: "ends_number (e @ u @ s)" using u ends_number_after [OF h(6)] by auto
  obtain r2 where r2: "value_at ?r1 = Some r2" "syn r2 = (e @ u @ s, None, jr_depth r)" "\<not> failed r2"
    using accepts [of ?r1, OF _ _ h(5) en] Cons.prems(2,3) drop_blank_value [OF h(4,5)] by auto
  note r2' = syn_depth [OF r2(2)]
  show ?case
  proof (cases "u = [0x7D] \<and> ms = []")
    case True
    then have "next_member r2 = (False, r2\<lparr>jr_p := s\<rparr>)"
      using next_item_complete(2) [OF h(6), of "0x7D" r2 s] r2'(2) by simp
    then show ?thesis using name r2 by (simp add: k syn_fields)
  next
    case False
    with u obtain w' where w': "u = 0x2C # w'" "spells_members d ms w'" by blast
    then have nx: "next_member r2 = (True, r2\<lparr>jr_p := w' @ s\<rparr>)"
      using next_item_complete(1) [OF h(6), of "0x7D" r2 "w' @ s"] r2'(2) by simp
    have "\<exists>r'. skip_members value_at k' (m @ [name_key xs]) (r2\<lparr>jr_p := w' @ s\<rparr>) = Some r' \<and>
        syn r' = (s, None, jr_depth (r2\<lparr>jr_p := w' @ s\<rparr>))"
      by (rule Cons.IH [OF w'(2)]) (use Cons.prems k x r2' in auto)
    then show ?thesis using name r2 nx r2' by (auto simp: k)
  qed
qed

lemma members_outcome:
  assumes "distinct m"
  shows "jr_depth r + d = WEB_JSON_MAX_DEPTH \<Longrightarrow> \<not> failed r \<Longrightarrow> length (jr_p r) < k \<Longrightarrow>
   \<exists>r'. skip_members value_at k m r = Some r' \<and>
     (failed r' \<and> jr_p r' = [] \<and> jr_depth r' = jr_depth r \<or>
      (\<exists>ms w s. spells_members d ms w \<and> jr_p r = w @ s \<and> distinct (m @ map key_of ms) \<and>
         length m + length ms \<le> MAX_MEMBERS \<and> syn r' = (s, None, jr_depth r)))"
  using assms
proof (induction k arbitrary: m r)
  case 0
  then show ?case by simp
next
  case (Suc k)
  from member_name_sound [OF Suc.prems(2), of m] consider
      (bad) r' where "member_name m r = Inl r'" "failed r'" "jr_p r' = []" "jr_depth r' = jr_depth r"
    | (name) a n xs b p where "jr_p r = a @ 0x22 # n @ b @ 0x3A # p" "blank a" "string_chars n xs" "blank b"
        "name_key xs \<notin> set m" "length m < MAX_MEMBERS"
        "member_name m r = Inr (name_text xs, m @ [name_key xs], r\<lparr>jr_p := p\<rparr>)"
    by blast
  then show ?case
  proof cases
    case bad
    then show ?thesis by simp
  next
    case name
    have d1: "jr_depth (r\<lparr>jr_p := p\<rparr>) + d = WEB_JSON_MAX_DEPTH" "\<not> failed (r\<lparr>jr_p := p\<rparr>)" using Suc.prems by simp_all
    show ?thesis
    proof (cases rule: outcome [OF d1, case_names took broke])
      case (broke r2)
      then show ?thesis using name(7) by simp
    next
      case (took r2 c j v q)
      have p: "p = c @ v @ q" using took(4) by simp
      have d2: "jr_depth r2 + d = WEB_JSON_MAX_DEPTH" "jr_p r2 = q" "jr_depth r2 = jr_depth r"
        using syn_depth [OF took(5)] Suc.prems(1) by simp_all
      have nws: "\<not> is_ws (0x7D :: byte)" "(0x7D :: byte) \<noteq> 0x2C" by simp_all
      from next_item_sound [OF nws, of r2 "''Expected '' @ quoted '','' @ '' or '' @ quoted ''}'' @ '' in an object''"]
      consider (more) e s where "blank e" "q = e @ 0x2C # s" "next_member r2 = (True, r2\<lparr>jr_p := s\<rparr>)"
        | (closed) e s where "blank e" "q = e @ 0x7D # s" "next_member r2 = (False, r2\<lparr>jr_p := s\<rparr>)"
        | (neither) r3 where "next_member r2 = (False, r3)" "failed r3" "jr_p r3 = []" "jr_depth r3 = jr_depth r2"
        unfolding d2(2) by simp blast
      then show ?thesis
      proof cases
        case (more e s)
        let ?r3 = "r2\<lparr>jr_p := s\<rparr>" and ?m = "m @ [name_key xs]"
        have "length (jr_p ?r3) < k" using Suc.prems(3) name(1) p more(2) by simp
        moreover have "distinct ?m" "jr_depth ?r3 + d = WEB_JSON_MAX_DEPTH" "\<not> failed ?r3"
          using Suc.prems(4) name(5) took(6) d2 by simp_all
        moreover have e: "jr_p ?r3 = s" "jr_depth ?r3 = jr_depth r" using d2 by simp_all
        ultimately obtain r' where r': "skip_members value_at k ?m ?r3 = Some r'"
          "failed r' \<and> jr_p r' = [] \<and> jr_depth r' = jr_depth r \<or>
           (\<exists>ms w u. spells_members d ms w \<and> s = w @ u \<and> distinct (?m @ map key_of ms) \<and>
              length ?m + length ms \<le> MAX_MEMBERS \<and> syn r' = (u, None, jr_depth r))"
          using Suc.IH [of ?r3 ?m] unfolding e by blast
        have sk: "skip_members value_at (Suc k) m r = Some r'" using name(7) took(1,6) more(3) r'(1) by simp
        show ?thesis
        proof (cases "failed r' \<and> jr_p r' = [] \<and> jr_depth r' = jr_depth r")
          case True
          with sk show ?thesis by blast
        next
          case False
          with r'(2) obtain ms w u where ms: "spells_members d ms w" "s = w @ u" "distinct (?m @ map key_of ms)"
            "length ?m + length ms \<le> MAX_MEMBERS" "syn r' = (u, None, jr_depth r)" by blast
          have "spells_members d ((xs, j) # ms) (a @ 0x22 # n @ b @ 0x3A # c @ v @ e @ 0x2C # w)"
            by (rule spells_more_members) (use name took more ms in simp_all)
          moreover have "jr_p r = (a @ 0x22 # n @ b @ 0x3A # c @ v @ e @ 0x2C # w) @ u" using name(1) p more(2) ms(2) by simp
          moreover have "distinct (m @ map key_of ((xs, j) # ms))" "length m + length ((xs, j) # ms) \<le> MAX_MEMBERS"
            using ms(3,4) by auto
          ultimately show ?thesis using sk ms(5) by blast
        qed
      next
        case (closed e s)
        have "spells_members d [(xs, j)] (a @ 0x22 # n @ b @ 0x3A # c @ v @ e @ [0x7D])"
          by (rule spells_last_member) (use name took closed in simp_all)
        moreover have "jr_p r = (a @ 0x22 # n @ b @ 0x3A # c @ v @ e @ [0x7D]) @ s" using name(1) p closed(2) by simp
        moreover have "distinct (m @ map key_of [(xs, j)])" "length m + length [(xs, j)] \<le> MAX_MEMBERS"
          using name(5,6) Suc.prems(4) by simp_all
        moreover have "skip_members value_at (Suc k) m r = Some (r2\<lparr>jr_p := s\<rparr>)" using name(7) took(1,6) closed(3) by simp
        moreover have "syn (r2\<lparr>jr_p := s\<rparr>) = (s, None, jr_depth r)" using took(5) by (simp add: syn_def)
        ultimately show ?thesis by blast
      next
        case (neither r3)
        have "skip_members value_at (Suc k) m r = Some r3" using name(7) took(1,6) neither(1) by simp
        with neither d2 show ?thesis by auto
      qed
    qed
  qed
qed

lemma elements_complete:
  "spells_elements d js w \<Longrightarrow> jr_depth r + d = WEB_JSON_MAX_DEPTH \<Longrightarrow> \<not> failed r \<Longrightarrow> jr_p r = w @ s \<Longrightarrow>
   length js \<le> k \<Longrightarrow> \<exists>r'. skip_elements value_at k r = Some r' \<and> syn r' = (s, None, jr_depth r)"
proof (induction js arbitrary: w k r)
  case Nil
  then show ?case by (auto elim: spells_elements_elim)
next
  case (Cons j js)
  obtain k' where k: "k = Suc k'" using Cons.prems(5) by (cases k) simp_all
  from Cons.prems(1) obtain a v e u where w: "w = a @ v @ e @ u" and h: "blank a" "spells d j v" "blank e"
    and u: "u = [0x5D] \<and> js = [] \<or> (\<exists>w'. u = 0x2C # w' \<and> spells_elements d js w')"
    by (cases rule: spells_elements.cases) auto
  have en: "ends_number (e @ u @ s)" using u ends_number_after [OF h(3)] by auto
  obtain r2 where r2: "value_at r = Some r2" "syn r2 = (e @ u @ s, None, jr_depth r)" "\<not> failed r2"
    using accepts [OF Cons.prems(2,3) h(2) en] drop_blank_value [OF h(1,2)] Cons.prems(4) w by auto
  note r2' = syn_depth [OF r2(2)]
  show ?case
  proof (cases "u = [0x5D] \<and> js = []")
    case True
    then have "next_element r2 = (False, r2\<lparr>jr_p := s\<rparr>)"
      using next_item_complete(2) [OF h(3), of "0x5D" r2 s] r2'(2) by simp
    then show ?thesis using r2 by (simp add: k syn_fields)
  next
    case False
    with u obtain w' where w': "u = 0x2C # w'" "spells_elements d js w'" by blast
    then have nx: "next_element r2 = (True, r2\<lparr>jr_p := w' @ s\<rparr>)"
      using next_item_complete(1) [OF h(3), of "0x5D" r2 "w' @ s"] r2'(2) by simp
    have "\<exists>r'. skip_elements value_at k' (r2\<lparr>jr_p := w' @ s\<rparr>) = Some r' \<and> syn r' = (s, None, jr_depth (r2\<lparr>jr_p := w' @ s\<rparr>))"
      by (rule Cons.IH [OF w'(2)]) (use Cons.prems k r2' in auto)
    then show ?thesis using r2 nx r2' by (auto simp: k)
  qed
qed

lemma elements_outcome:
  "jr_depth r + d = WEB_JSON_MAX_DEPTH \<Longrightarrow> \<not> failed r \<Longrightarrow> length (jr_p r) < k \<Longrightarrow>
   \<exists>r'. skip_elements value_at k r = Some r' \<and>
     (failed r' \<and> jr_p r' = [] \<and> jr_depth r' = jr_depth r \<or>
      (\<exists>js w s. spells_elements d js w \<and> jr_p r = w @ s \<and> syn r' = (s, None, jr_depth r)))"
proof (induction k arbitrary: r)
  case 0
  then show ?case by simp
next
  case (Suc k)
  show ?case
  proof (cases rule: outcome [OF Suc.prems(1,2), case_names took broke])
    case (broke r2)
    then show ?thesis by simp
  next
    case (took r2 a j v q)
    have d2: "jr_depth r2 + d = WEB_JSON_MAX_DEPTH" "jr_p r2 = q" "jr_depth r2 = jr_depth r"
      using syn_depth [OF took(5)] Suc.prems(1) by simp_all
    have vne: "v \<noteq> []" using took(3) by (auto elim: spells_head)
    have nws: "\<not> is_ws (0x5D :: byte)" "(0x5D :: byte) \<noteq> 0x2C" by simp_all
    from next_item_sound [OF nws, of r2 "''Expected '' @ quoted '','' @ '' or '' @ quoted '']'' @ '' in an array''"]
    consider (more) e s where "blank e" "q = e @ 0x2C # s" "next_element r2 = (True, r2\<lparr>jr_p := s\<rparr>)"
      | (closed) e s where "blank e" "q = e @ 0x5D # s" "next_element r2 = (False, r2\<lparr>jr_p := s\<rparr>)"
      | (neither) r3 where "next_element r2 = (False, r3)" "failed r3" "jr_p r3 = []" "jr_depth r3 = jr_depth r2"
      unfolding d2(2) by simp blast
    then show ?thesis
    proof cases
      case (more e s)
      let ?r3 = "r2\<lparr>jr_p := s\<rparr>"
      have "length (jr_p ?r3) < k" using Suc.prems(3) took(4) more(2) by simp
      from Suc.IH [of ?r3, OF _ _ this] took(6) d2
      obtain r' where r': "skip_elements value_at k ?r3 = Some r'"
        "failed r' \<and> jr_p r' = [] \<and> jr_depth r' = jr_depth r \<or>
         (\<exists>js w u. spells_elements d js w \<and> s = w @ u \<and> syn r' = (u, None, jr_depth r))" by auto
      have sk: "skip_elements value_at (Suc k) r = Some r'" using took(1,6) more(3) r'(1) by simp
      show ?thesis
      proof (cases "failed r' \<and> jr_p r' = [] \<and> jr_depth r' = jr_depth r")
        case True
        with sk show ?thesis by blast
      next
        case False
        with r'(2) obtain js w u where js: "spells_elements d js w" "s = w @ u" "syn r' = (u, None, jr_depth r)" by blast
        have "spells_elements d (j # js) (a @ v @ e @ 0x2C # w)"
          by (rule spells_more_elements) (use took more js in simp_all)
        moreover have "jr_p r = (a @ v @ e @ 0x2C # w) @ u" using took(4) more(2) js(2) by simp
        ultimately show ?thesis using sk js(3) by blast
      qed
    next
      case (closed e s)
      have "spells_elements d [j] (a @ v @ e @ [0x5D])" by (rule spells_last_element) (use took closed in simp_all)
      moreover have "jr_p r = (a @ v @ e @ [0x5D]) @ s" using took(4) closed(2) by simp
      moreover have "skip_elements value_at (Suc k) r = Some (r2\<lparr>jr_p := s\<rparr>)" using took(1,6) closed(3) by simp
      moreover have "syn (r2\<lparr>jr_p := s\<rparr>) = (s, None, jr_depth r)" using took(5) by (simp add: syn_def)
      ultimately show ?thesis by blast
    next
      case (neither r3)
      have "skip_elements value_at (Suc k) r = Some r3" using took(1,6) neither(1) by simp
      with neither d2 show ?thesis by auto
    qed
  qed
qed


lemma object_complete:
  assumes "spells (Suc d) (JObject ms) w" "jr_depth r + d = WEB_JSON_MAX_DEPTH" "\<not> failed r" "jr_p r = w @ s"
  shows "\<exists>r'. skip_object value_at r = Some r' \<and> syn r' = (s, None, jr_depth r)"
proof -
  let ?r1 = "skip_ws (advance r)"
  have f: "\<not> failed ?r1" "jr_depth ?r1 = jr_depth r" "jr_syntax ?r1 = None" using assms(3) by (simp_all add: failed_def skip_ws_def advance_def)
  from assms(1) show ?thesis
  proof (cases rule: spells.cases)
    case (spells_empty_object u)
    then have "jr_p ?r1 = 0x7D # s" using assms(4) by (simp add: skip_ws_def advance_def drop_blank)
    then show ?thesis using f by (simp add: skip_object_def jr_peek_def syn_def advance_def [of ?r1])
  next
    case (spells_object u)
    from spells_members_start [OF spells_object(2), of s] obtain u' where u': "spells_members d ms u'"
      "dropWhile is_ws (u @ s) = u' @ s" "hd (u' @ s) \<noteq> 0x7D" "u' \<noteq> []" by blast
    have p: "jr_p ?r1 = u' @ s" using spells_object(1) assms(4) u'(2) by (simp add: skip_ws_def advance_def)
    have l: "length ms \<le> length u'" using u'(1)
    proof (induction ms arbitrary: u')
      case (Cons x ms)
      from Cons.prems show ?case by (cases rule: spells_members.cases) (use Cons.IH in force)+
    qed simp
    have "\<exists>r'. skip_members value_at (Suc (length (jr_p ?r1))) [] ?r1 = Some r' \<and> syn r' = (s, None, jr_depth ?r1)"
      by (rule members_complete [OF u'(1)]) (use f assms(2) p l spells_object in simp_all)
    then show ?thesis using u'(3) p f(2) by (simp add: skip_object_def jr_peek_def)
  qed
qed

lemma object_outcome:
  assumes "jr_depth r + d = WEB_JSON_MAX_DEPTH" "\<not> failed r" "jr_p r = 0x7B # t"
  shows "\<exists>r'. skip_object value_at r = Some r' \<and>
    (failed r' \<and> jr_p r' = [] \<and> jr_depth r' = jr_depth r \<or>
     (\<exists>ms w s. spells (Suc d) (JObject ms) w \<and> jr_p r = w @ s \<and> syn r' = (s, None, jr_depth r)))"
proof -
  let ?r1 = "skip_ws (advance r)"
  have f: "\<not> failed ?r1" "jr_depth ?r1 = jr_depth r" "jr_syntax ?r1 = None" using assms(2) by (simp_all add: failed_def skip_ws_def advance_def)
  have p: "jr_p ?r1 = dropWhile is_ws t" using assms(3) by (simp add: skip_ws_def advance_def)
  obtain a where a: "blank a" "t = a @ dropWhile is_ws t" by (rule blank_split)
  show ?thesis
  proof (cases "jr_peek 0x7D ?r1")
    case True
    then obtain s where s: "dropWhile is_ws t = 0x7D # s" using p by (cases "dropWhile is_ws t") (auto simp: jr_peek_def)
    have "spells (Suc d) (JObject []) (0x7B # a @ [0x7D])" using a(1) by (rule spells_empty_object)
    moreover have "jr_p r = (0x7B # a @ [0x7D]) @ s" using assms(3) a(2) s by simp
    moreover have "skip_object value_at r = Some (advance ?r1)" using True by (simp add: skip_object_def)
    moreover have "syn (advance ?r1) = (s, None, jr_depth r)" using p s f by simp
    ultimately show ?thesis by blast
  next
    case False
    have "\<exists>r'. skip_members value_at (Suc (length (jr_p ?r1))) [] ?r1 = Some r' \<and>
     (failed r' \<and> jr_p r' = [] \<and> jr_depth r' = jr_depth ?r1 \<or>
      (\<exists>ms w s. spells_members d ms w \<and> jr_p ?r1 = w @ s \<and> distinct ([] @ map key_of ms) \<and>
         length ([] :: members) + length ms \<le> MAX_MEMBERS \<and> syn r' = (s, None, jr_depth ?r1)))"
      by (rule members_outcome) (use f assms(1) in simp_all)
    then obtain r' where r': "skip_object value_at r = Some r'" "failed r' \<and> jr_p r' = [] \<and> jr_depth r' = jr_depth r \<or>
      (\<exists>ms w s. spells_members d ms w \<and> dropWhile is_ws t = w @ s \<and> distinct (map key_of ms) \<and>
         length ms \<le> MAX_MEMBERS \<and> syn r' = (s, None, jr_depth r))"
      using False f(2) p by (auto simp: skip_object_def)
    show ?thesis
    proof (cases "failed r' \<and> jr_p r' = [] \<and> jr_depth r' = jr_depth r")
      case False
      with r'(2) obtain ms w s where m: "spells_members d ms w" "dropWhile is_ws t = w @ s" "distinct (map key_of ms)"
        "length ms \<le> MAX_MEMBERS" "syn r' = (s, None, jr_depth r)" by blast
      have "spells (Suc d) (JObject ms) (0x7B # a @ w)" using spells_members_blank [OF a(1) m(1)] m(3,4) by (rule spells_object)
      moreover have "jr_p r = (0x7B # a @ w) @ s" using assms(3) a(2) m(2) by simp
      ultimately show ?thesis using r'(1) m(5) by blast
    qed (use r'(1) in blast)
  qed
qed

lemma array_complete:
  assumes "spells (Suc d) (JArray js) w" "jr_depth r + d = WEB_JSON_MAX_DEPTH" "\<not> failed r" "jr_p r = w @ s"
  shows "\<exists>r'. skip_array value_at r = Some r' \<and> syn r' = (s, None, jr_depth r)"
proof -
  let ?r1 = "skip_ws (advance r)"
  have f: "\<not> failed ?r1" "jr_depth ?r1 = jr_depth r" "jr_syntax ?r1 = None" using assms(3) by (simp_all add: failed_def skip_ws_def advance_def)
  from assms(1) show ?thesis
  proof (cases rule: spells.cases)
    case (spells_empty_array u)
    then have "jr_p ?r1 = 0x5D # s" using assms(4) by (simp add: skip_ws_def advance_def drop_blank)
    then show ?thesis using f by (simp add: skip_array_def jr_peek_def syn_def advance_def [of ?r1])
  next
    case (spells_array u)
    from spells_elements_start [OF spells_array(2), of s] obtain u' where u': "spells_elements d js u'"
      "dropWhile is_ws (u @ s) = u' @ s" "hd (u' @ s) \<noteq> 0x5D" "u' \<noteq> []" by blast
    have p: "jr_p ?r1 = u' @ s" using spells_array(1) assms(4) u'(2) by (simp add: skip_ws_def advance_def)
    have l: "length js \<le> length u'" using u'(1)
    proof (induction js arbitrary: u')
      case (Cons x js)
      from Cons.prems show ?case by (cases rule: spells_elements.cases) (use Cons.IH in force)+
    qed simp
    have "\<exists>r'. skip_elements value_at (Suc (length (jr_p ?r1))) ?r1 = Some r' \<and> syn r' = (s, None, jr_depth ?r1)"
      by (rule elements_complete [OF u'(1)]) (use f assms(2) p l in simp_all)
    then show ?thesis using u'(3) p f(2) by (simp add: skip_array_def jr_peek_def)
  qed
qed

lemma array_outcome:
  assumes "jr_depth r + d = WEB_JSON_MAX_DEPTH" "\<not> failed r" "jr_p r = 0x5B # t"
  shows "\<exists>r'. skip_array value_at r = Some r' \<and>
    (failed r' \<and> jr_p r' = [] \<and> jr_depth r' = jr_depth r \<or>
     (\<exists>js w s. spells (Suc d) (JArray js) w \<and> jr_p r = w @ s \<and> syn r' = (s, None, jr_depth r)))"
proof -
  let ?r1 = "skip_ws (advance r)"
  have f: "\<not> failed ?r1" "jr_depth ?r1 = jr_depth r" "jr_syntax ?r1 = None" using assms(2) by (simp_all add: failed_def skip_ws_def advance_def)
  have p: "jr_p ?r1 = dropWhile is_ws t" using assms(3) by (simp add: skip_ws_def advance_def)
  obtain a where a: "blank a" "t = a @ dropWhile is_ws t" by (rule blank_split)
  show ?thesis
  proof (cases "jr_peek 0x5D ?r1")
    case True
    then obtain s where s: "dropWhile is_ws t = 0x5D # s" using p by (cases "dropWhile is_ws t") (auto simp: jr_peek_def)
    have "spells (Suc d) (JArray []) (0x5B # a @ [0x5D])" using a(1) by (rule spells_empty_array)
    moreover have "jr_p r = (0x5B # a @ [0x5D]) @ s" using assms(3) a(2) s by simp
    moreover have "skip_array value_at r = Some (advance ?r1)" using True by (simp add: skip_array_def)
    moreover have "syn (advance ?r1) = (s, None, jr_depth r)" using p s f by simp
    ultimately show ?thesis by blast
  next
    case False
    have "\<exists>r'. skip_elements value_at (Suc (length (jr_p ?r1))) ?r1 = Some r' \<and>
     (failed r' \<and> jr_p r' = [] \<and> jr_depth r' = jr_depth ?r1 \<or>
      (\<exists>js w s. spells_elements d js w \<and> jr_p ?r1 = w @ s \<and> syn r' = (s, None, jr_depth ?r1)))"
      by (rule elements_outcome) (use f assms(1) in simp_all)
    then obtain r' where r': "skip_array value_at r = Some r'" "failed r' \<and> jr_p r' = [] \<and> jr_depth r' = jr_depth r \<or>
      (\<exists>js w s. spells_elements d js w \<and> dropWhile is_ws t = w @ s \<and> syn r' = (s, None, jr_depth r))"
      using False f(2) p by (auto simp: skip_array_def)
    show ?thesis
    proof (cases "failed r' \<and> jr_p r' = [] \<and> jr_depth r' = jr_depth r")
      case False
      with r'(2) obtain js w s where m: "spells_elements d js w" "dropWhile is_ws t = w @ s" "syn r' = (s, None, jr_depth r)" by blast
      have "spells (Suc d) (JArray js) (0x5B # a @ w)" using spells_elements_blank [OF a(1) m(1)] by (rule spells_array)
      moreover have "jr_p r = (0x5B # a @ w) @ s" using assms(3) a(2) m(2) by simp
      ultimately show ?thesis using r'(1) m(3) by blast
    qed (use r'(1) in blast)
  qed
qed

end

section \<open>Skipping a value is a parser\<close>

text \<open>A function that reads the objects, or the arrays, that begin with \<open>b\<close>.\<close>

definition container_ok :: "nat \<Rightarrow> byte \<Rightarrow> (reader \<Rightarrow> reader option) \<Rightarrow> bool" where
  "container_ok d b f \<longleftrightarrow>
     (\<forall>r t. jr_depth r + d = WEB_JSON_MAX_DEPTH \<and> \<not> failed r \<and> jr_p r = b # t \<longrightarrow>
        (\<exists>r'. f r = Some r' \<and>
          (failed r' \<and> jr_p r' = [] \<and> jr_depth r' = jr_depth r \<or>
           (\<exists>j w s. spells d j w \<and> jr_p r = w @ s \<and> syn r' = (s, None, jr_depth r))))) \<and>
     (\<forall>r j w s. jr_depth r + d = WEB_JSON_MAX_DEPTH \<and> \<not> failed r \<and> spells d j w \<and> hd w = b \<and> jr_p r = w @ s \<longrightarrow>
        (\<exists>r'. f r = Some r' \<and> syn r' = (s, None, jr_depth r)))"

lemma nested_step:
  assumes "jr_depth r < WEB_JSON_MAX_DEPTH" "f (r\<lparr>jr_depth := jr_depth r + 1\<rparr>) = Some r1"
  shows "nested f r = Some (r1\<lparr>jr_depth := jr_depth r1 - 1\<rparr>)"
  using assms by (simp add: nested_def)

lemma spells_container_head:
  "spells d j w \<Longrightarrow> hd w = 0x7B \<longleftrightarrow> (\<exists>ms. j = JObject ms)"
  "spells d j w \<Longrightarrow> hd w = 0x5B \<longleftrightarrow> (\<exists>js. j = JArray js)"
  by (cases rule: spells.cases, assumption; (elim number_text_head)?; auto simp: bytes_of_def is_digit_def)+

lemma object_container:
  assumes "value_parser d v"
  shows "container_ok (Suc d) 0x7B (nested (skip_object v))"
  unfolding container_ok_def
proof (intro conjI allI impI; elim conjE)
  fix r t
  assume d: "jr_depth r + Suc d = WEB_JSON_MAX_DEPTH" and f: "\<not> failed r" and p: "jr_p r = 0x7B # t"
  let ?r = "r\<lparr>jr_depth := jr_depth r + 1\<rparr>"
  have "jr_depth ?r + d = WEB_JSON_MAX_DEPTH" "\<not> failed ?r" "jr_p ?r = 0x7B # t" using d f p by (simp_all add: failed_def)
  from value_parser.object_outcome [OF assms this] obtain r1 where r1: "skip_object v ?r = Some r1"
    "failed r1 \<and> jr_p r1 = [] \<and> jr_depth r1 = jr_depth r + 1 \<or>
     (\<exists>ms w s. spells (Suc d) (JObject ms) w \<and> jr_p r = w @ s \<and> syn r1 = (s, None, jr_depth r + 1))" by auto
  have "nested (skip_object v) r = Some (r1\<lparr>jr_depth := jr_depth r1 - 1\<rparr>)" by (rule nested_step) (use d r1(1) in simp_all)
  with r1(2) show "\<exists>r'. nested (skip_object v) r = Some r' \<and> (failed r' \<and> jr_p r' = [] \<and> jr_depth r' = jr_depth r \<or>
      (\<exists>j w s. spells (Suc d) j w \<and> jr_p r = w @ s \<and> syn r' = (s, None, jr_depth r)))"
    by (auto simp: syn_def failed_def)
next
  fix r j w s
  assume d: "jr_depth r + Suc d = WEB_JSON_MAX_DEPTH" and f: "\<not> failed r" and j: "spells (Suc d) j w" "hd w = 0x7B" and p: "jr_p r = w @ s"
  from spells_container_head(1) [OF j(1)] j obtain ms where ms: "spells (Suc d) (JObject ms) w" by auto
  let ?r = "r\<lparr>jr_depth := jr_depth r + 1\<rparr>"
  have "jr_depth ?r + d = WEB_JSON_MAX_DEPTH" "\<not> failed ?r" "jr_p ?r = w @ s" using d f p by (simp_all add: failed_def)
  from value_parser.object_complete [OF assms ms this] obtain r1 where r1: "skip_object v ?r = Some r1"
    "syn r1 = (s, None, jr_depth r + 1)" by auto
  have "nested (skip_object v) r = Some (r1\<lparr>jr_depth := jr_depth r1 - 1\<rparr>)" by (rule nested_step) (use d r1(1) in simp_all)
  with r1(2) show "\<exists>r'. nested (skip_object v) r = Some r' \<and> syn r' = (s, None, jr_depth r)" by (auto simp: syn_def)
qed

lemma array_container:
  assumes "value_parser d v"
  shows "container_ok (Suc d) 0x5B (nested (skip_array v))"
  unfolding container_ok_def
proof (intro conjI allI impI; elim conjE)
  fix r t
  assume d: "jr_depth r + Suc d = WEB_JSON_MAX_DEPTH" and f: "\<not> failed r" and p: "jr_p r = 0x5B # t"
  let ?r = "r\<lparr>jr_depth := jr_depth r + 1\<rparr>"
  have "jr_depth ?r + d = WEB_JSON_MAX_DEPTH" "\<not> failed ?r" "jr_p ?r = 0x5B # t" using d f p by (simp_all add: failed_def)
  from value_parser.array_outcome [OF assms this] obtain r1 where r1: "skip_array v ?r = Some r1"
    "failed r1 \<and> jr_p r1 = [] \<and> jr_depth r1 = jr_depth r + 1 \<or>
     (\<exists>js w s. spells (Suc d) (JArray js) w \<and> jr_p r = w @ s \<and> syn r1 = (s, None, jr_depth r + 1))" by auto
  have "nested (skip_array v) r = Some (r1\<lparr>jr_depth := jr_depth r1 - 1\<rparr>)" by (rule nested_step) (use d r1(1) in simp_all)
  with r1(2) show "\<exists>r'. nested (skip_array v) r = Some r' \<and> (failed r' \<and> jr_p r' = [] \<and> jr_depth r' = jr_depth r \<or>
      (\<exists>j w s. spells (Suc d) j w \<and> jr_p r = w @ s \<and> syn r' = (s, None, jr_depth r)))"
    by (auto simp: syn_def failed_def)
next
  fix r j w s
  assume d: "jr_depth r + Suc d = WEB_JSON_MAX_DEPTH" and f: "\<not> failed r" and j: "spells (Suc d) j w" "hd w = 0x5B" and p: "jr_p r = w @ s"
  from spells_container_head(2) [OF j(1)] j obtain js where js: "spells (Suc d) (JArray js) w" by auto
  let ?r = "r\<lparr>jr_depth := jr_depth r + 1\<rparr>"
  have "jr_depth ?r + d = WEB_JSON_MAX_DEPTH" "\<not> failed ?r" "jr_p ?r = w @ s" using d f p by (simp_all add: failed_def)
  from value_parser.array_complete [OF assms js this] obtain r1 where r1: "skip_array v ?r = Some r1"
    "syn r1 = (s, None, jr_depth r + 1)" by auto
  have "nested (skip_array v) r = Some (r1\<lparr>jr_depth := jr_depth r1 - 1\<rparr>)" by (rule nested_step) (use d r1(1) in simp_all)
  with r1(2) show "\<exists>r'. nested (skip_array v) r = Some r' \<and> syn r' = (s, None, jr_depth r)" by (auto simp: syn_def)
qed

text \<open>At the cap no container is read, and none is spelled.\<close>

lemma flat_container: "b = 0x7B \<or> b = 0x5B \<Longrightarrow> container_ok 0 b (nested f)"
  unfolding container_ok_def
proof (intro conjI allI impI; elim conjE)
  fix r :: reader and t
  assume "jr_depth r + 0 = WEB_JSON_MAX_DEPTH"
  then show "\<exists>r'. nested f r = Some r' \<and> (failed r' \<and> jr_p r' = [] \<and> jr_depth r' = jr_depth r \<or>
      (\<exists>j w s. spells 0 j w \<and> jr_p r = w @ s \<and> syn r' = (s, None, jr_depth r)))"
    by (simp add: nested_def) (simp add: syntax_error_def failed_def split: option.split)
next
  fix r :: reader and j w s
  assume "spells 0 j w" "hd w = b" "b = 0x7B \<or> b = 0x5B"
  then show "\<exists>r'. nested f r = Some r' \<and> syn r' = (s, None, jr_depth r)"
    using spells_container_head [of 0 j w] by (auto elim: spells.cases)
qed

lemma value_parser_step:
  assumes "container_ok d 0x7B (nested (skip_object (skip_value d)))" "container_ok d 0x5B (nested (skip_array (skip_value d)))"
  shows "value_parser d (skip_value (Suc d))"
proof -
  have outcome: "\<exists>r'. skip_value (Suc d) r = Some r' \<and>
      (failed r' \<and> jr_p r' = [] \<and> jr_depth r' = jr_depth r \<or>
       (\<exists>j w s. spells d j w \<and> dropWhile is_ws (jr_p r) = w @ s \<and> syn r' = (s, None, jr_depth r)))"
    if d: "jr_depth r + d = WEB_JSON_MAX_DEPTH" and f: "\<not> failed r" for r
  proof -
    let ?r = "skip_ws r"
    have g: "jr_depth ?r + d = WEB_JSON_MAX_DEPTH" "\<not> failed ?r" "jr_p ?r = dropWhile is_ws (jr_p r)" "jr_depth ?r = jr_depth r"
      "jr_syntax ?r = None"
      using d f by (simp_all add: skip_ws_def failed_def)
    show ?thesis
    proof (cases "dropWhile is_ws (jr_p r)")
      case Nil
      have "skip_value (Suc d) r = Some (syntax_error ''Unexpected end of the body'' ?r)"
        by (simp only: skip_value.simps Let_def g(3) Nil list.case)
      then show ?thesis using g(4,5) by (simp add: syntax_error_def failed_def)
    next
      case (Cons c t)
      have sk: "skip_value (Suc d) r = (if c = 0x7B then nested (skip_object (skip_value d)) ?r
          else if c = 0x5B then nested (skip_array (skip_value d)) ?r else Some (skip_scalar c ?r))"
        using Cons g(3) by simp
      have p: "jr_p ?r = c # t" using Cons g(3) by simp
      consider "c = 0x7B" | "c = 0x5B" | "c \<noteq> 0x7B" "c \<noteq> 0x5B" by blast
      then show ?thesis
      proof cases
        case 1
        then show ?thesis unfolding sk g(3,4) [symmetric]
          using assms(1) [unfolded container_ok_def, THEN conjunct1, rule_format, of ?r t] g(1,2) p by simp
      next
        case 2
        then show ?thesis unfolding sk g(3,4) [symmetric]
          using assms(2) [unfolded container_ok_def, THEN conjunct1, rule_format, of ?r t] g(1,2) p by simp
      next
        case 3
        then have s3: "skip_value (Suc d) r = Some (skip_scalar c ?r)" using sk by simp
        from skip_scalar_sound [OF p g(2), of d] show ?thesis
        proof
          assume "\<exists>j w s. spells d j w \<and> scalar j \<and> c # t = w @ s \<and> skip_scalar c ?r = ?r\<lparr>jr_p := s\<rparr>"
          then obtain j w s where "spells d j w" "c # t = w @ s" "skip_scalar c ?r = ?r\<lparr>jr_p := s\<rparr>" by blast
          moreover have "syn (?r\<lparr>jr_p := s\<rparr>) = (s, None, jr_depth r)" using g(4,5) by simp
          ultimately show ?thesis using s3 Cons by metis
        qed (use s3 g(4) in auto)
      qed
    qed
  qed
  have complete: "\<exists>r'. skip_value (Suc d) r = Some r' \<and> syn r' = (s, None, jr_depth r)"
    if d: "jr_depth r + d = WEB_JSON_MAX_DEPTH" and f: "\<not> failed r" and j: "spells d j w" and e: "ends_number s"
      and p: "dropWhile is_ws (jr_p r) = w @ s" for r j w s
  proof -
    let ?r = "skip_ws r"
    have g: "jr_depth ?r + d = WEB_JSON_MAX_DEPTH" "\<not> failed ?r" "jr_p ?r = w @ s" "jr_depth ?r = jr_depth r" "jr_syntax ?r = None"
      using d f p by (simp_all add: skip_ws_def failed_def)
    obtain c t where w: "w = c # t" using j by (elim spells_head)
    have sk: "skip_value (Suc d) r = (if c = 0x7B then nested (skip_object (skip_value d)) ?r
        else if c = 0x5B then nested (skip_array (skip_value d)) ?r else Some (skip_scalar c ?r))"
      using g(3) w by simp
    consider "c = 0x7B" | "c = 0x5B" | "c \<noteq> 0x7B" "c \<noteq> 0x5B" by blast
    then show ?thesis
    proof cases
      case 1
      then show ?thesis unfolding sk g(4) [symmetric]
        using assms(1) [unfolded container_ok_def, THEN conjunct2, rule_format, of ?r j w s] g(1-3) j w by simp
    next
      case 2
      then show ?thesis unfolding sk g(4) [symmetric]
        using assms(2) [unfolded container_ok_def, THEN conjunct2, rule_format, of ?r j w s] g(1-3) j w by simp
    next
      case 3
      then have "scalar j" using spells_container_head [OF j] w by (cases j) (auto simp: scalar_def)
      from skip_scalar_complete [OF j this e g(3)] have "skip_scalar c ?r = ?r\<lparr>jr_p := s\<rparr>" by (simp add: w)
      then show ?thesis using sk 3 g(4,5) by simp
    qed
  qed
  show ?thesis
  proof
    fix r r' :: reader and j w s
    show "skip_value (Suc d) r \<noteq> None" if "jr_depth r + d = WEB_JSON_MAX_DEPTH" "\<not> failed r"
      using outcome [OF that] by blast
    show "syn r' = (s, None, jr_depth r)" if "jr_depth r + d = WEB_JSON_MAX_DEPTH" "\<not> failed r" "spells d j w" "ends_number s"
      "dropWhile is_ws (jr_p r) = w @ s" "skip_value (Suc d) r = Some r'"
      using complete [OF that(1-5)] that(6) by auto
    show "\<exists>j w s. spells d j w \<and> dropWhile is_ws (jr_p r) = w @ s \<and> syn r' = (s, None, jr_depth r)"
      if "jr_depth r + d = WEB_JSON_MAX_DEPTH" "\<not> failed r" "skip_value (Suc d) r = Some r'" "\<not> failed r'"
      using outcome [OF that(1,2)] that(3,4) by auto
    show "jr_p r' = [] \<and> jr_depth r' = jr_depth r"
      if "jr_depth r + d = WEB_JSON_MAX_DEPTH" "\<not> failed r" "skip_value (Suc d) r = Some r'" "failed r'"
      using outcome [OF that(1,2)] that(3,4) by (auto simp: syn_def failed_def)
  qed
qed

lemma skip_value_parser: "value_parser d (skip_value (Suc d))"
proof (induction d)
  case 0
  show ?case by (rule value_parser_step) (simp_all add: flat_container)
next
  case (Suc d)
  show ?case by (rule value_parser_step [OF object_container [OF Suc] array_container [OF Suc]])
qed

interpretation skipper: value_parser d "skip_value (Suc d)" for d
  by (rule skip_value_parser)

end
