(* ===== verification/Json_Body.thy ===== *)
theory Json_Body
  imports Json_Syntax
begin

text \<open>
  Reading by a schema follows the syntax exactly as skipping does, so a body is malformed exactly when it is no
  text of the grammar. Skipping leaves everything but the parsing state alone.
\<close>

section \<open>Reading against a schema follows the same syntax\<close>

text \<open>Two functions that move the parsing state alike, whatever else they do to the reader.\<close>

definition tracks :: "(reader \<Rightarrow> reader option) \<Rightarrow> (reader \<Rightarrow> reader option) \<Rightarrow> bool" where
  "tracks f g \<longleftrightarrow> (\<forall>r r2. syn r = syn r2 \<longrightarrow> map_option syn (f r) = map_option syn (g r2))"

lemma tracksI: "(\<And>r r2. syn r = syn r2 \<Longrightarrow> map_option syn (f r) = map_option syn (g r2)) \<Longrightarrow> tracks f g"
  by (simp add: tracks_def)

lemma tracksD: "tracks f g \<Longrightarrow> syn r = syn r2 \<Longrightarrow> map_option syn (f r) = map_option syn (g r2)"
  by (simp add: tracks_def)

lemma tracks_cases:
  assumes "tracks f g" "syn r = syn r2"
  obtains (none) "f r = None" "g r2 = None" | (some) r' r2' where "f r = Some r'" "g r2 = Some r2'" "syn r' = syn r2'"
  using tracksD [OF assms] by (cases "f r"; cases "g r2") auto

lemma syn_eqD: "syn r = syn r2 \<Longrightarrow> jr_p r = jr_p r2" "syn r = syn r2 \<Longrightarrow> jr_syntax r = jr_syntax r2"
  "syn r = syn r2 \<Longrightarrow> jr_depth r = jr_depth r2" "syn r = syn r2 \<Longrightarrow> failed r = failed r2"
  by (simp_all add: syn_def failed_def)

text \<open>The lexical functions look at nothing but the parsing state.\<close>

lemma read_unicode_escape_rest: "fst (read_unicode_escape s t) = fst (read_unicode_escape s t2)"
  by (cases "read_hex4 s"; cases "read_hex4 (drop 2 (snd (the (read_hex4 s))))")
    (simp_all add: read_unicode_escape_def Let_def case_prod_beta)

lemma read_escape_rest: "fst (read_escape s t) = fst (read_escape s t2)"
  using read_unicode_escape_rest by (simp add: read_escape_def split: list.split option.split)

lemma read_chars_rest: "fst (read_chars s t) = fst (read_chars s t2)"
proof (induction s t arbitrary: t2 rule: read_chars.induct)
  case (1 s t)
  show ?case
  proof (cases s)
    case Nil
    then show ?thesis by (simp add: read_chars.simps)
  next
    case (Cons c s1)
    have rd: "read_chars (c # s1) u =
        (if c = 0x22 then (Inr s1, u)
         else if c < 0x20 then (Inl ''A control character must be escaped inside a string'', u)
         else if 0x80 \<le> c then
           (case read_utf8 (c # s1) of None \<Rightarrow> (Inl ''The body is not valid UTF-8'', u)
            | Some (bs, s2) \<Rightarrow> read_chars s2 (count_char (text_put bs u)))
         else if c \<noteq> 0x5C then read_chars s1 (count_char (text_put [c] u))
         else (case read_escape s1 u of (Inl m, u2) \<Rightarrow> (Inl m, u2) | (Inr s2, u2) \<Rightarrow> read_chars s2 u2))" for u
      by (subst read_chars.simps) simp
    consider "c = 0x22 \<or> c < 0x20" | "\<not> (c = 0x22 \<or> c < 0x20)" "0x80 \<le> c" | "\<not> (c = 0x22 \<or> c < 0x20)" "\<not> 0x80 \<le> c" "c \<noteq> 0x5C"
      | "c = 0x5C" "\<not> 0x80 \<le> c" by (cases "c = 0x5C") auto
    then show ?thesis
    proof cases
      case 1
      then show ?thesis by (auto simp: Cons rd)
    next
      case 2
      show ?thesis
      proof (cases "read_utf8 (c # s1)")
        case None
        with 2 show ?thesis by (simp add: Cons rd)
      next
        case (Some p)
        obtain bs s2 where p: "p = (bs, s2)" by fastforce
        have "fst (read_chars s2 (count_char (text_put bs t))) = fst (read_chars s2 (count_char (text_put bs t2)))"
          by (rule "1.IH"(1) [OF Cons]) (use 2 Some p Cons in auto)
        with 2 Some p show ?thesis by (simp add: Cons rd)
      qed
    next
      case 3
      have "fst (read_chars s1 (count_char (text_put [c] t))) = fst (read_chars s1 (count_char (text_put [c] t2)))"
        by (rule "1.IH"(2) [OF Cons]) (use 3 in auto)
      with 3 show ?thesis by (simp add: Cons rd)
    next
      case 4
      obtain x t' y t2' where e: "read_escape s1 t = (x, t')" "read_escape s1 t2 = (y, t2')" by fastforce
      have xy: "x = y" using read_escape_rest [of s1 t t2] e by simp
      show ?thesis
      proof (cases x)
        case (Inl m)
        with xy have "y = Inl m" by simp
        with 4(1) e Inl show ?thesis by (simp add: Cons read_chars_escape)
      next
        case (Inr s2)
        have "fst (read_chars s2 t') = fst (read_chars s2 t2')"
          by (rule "1.IH"(3) [OF Cons]) (use 4 e Inr in auto)
        moreover have "y = Inr s2" using xy Inr by simp
        ultimately show ?thesis using 4(1) e Inr by (simp add: Cons read_chars_escape)
      qed
    qed
  qed
qed

lemma read_string_syn:
  assumes "syn r = syn r2"
  shows "syn (fst (read_string t r)) = syn (fst (read_string t2 r2))"
    and "snd (read_string t r) = snd (read_string t r2)"
proof -
  note e = syn_eqD [OF assms]
  let ?z = "\<lambda>t. t\<lparr>tx_bytes := 0, tx_chars := 0, tx_overflow := False, tx_bad := False, tx_hash := 0xcbf29ce484222325\<rparr>"
  obtain x t' y t2' where c: "read_chars (tl (jr_p r)) (?z t) = (x, t')" "read_chars (tl (jr_p r)) (?z t2) = (y, t2')" by fastforce
  have "x = y" using read_chars_rest [of "tl (jr_p r)" "?z t" "?z t2"] c by simp
  with c e show "syn (fst (read_string t r)) = syn (fst (read_string t2 r2))"
    by (simp add: read_string_def Let_def advance_def syn_def syntax_error_def split: sum.split)
  show "snd (read_string t r) = snd (read_string t r2)"
    using e by (simp add: read_string_def Let_def advance_def split: prod.split sum.split)
qed

lemma skip_ws_syn: "syn r = syn r2 \<Longrightarrow> syn (skip_ws r) = syn (skip_ws r2)"
  by (simp add: syn_def skip_ws_def)

lemma advance_syn: "syn r = syn r2 \<Longrightarrow> syn (advance r) = syn (advance r2)"
  by (simp add: syn_def advance_def)

lemma peek_syn: "syn r = syn r2 \<Longrightarrow> jr_peek c r = jr_peek c r2"
  by (simp add: syn_def jr_peek_def)

lemma error_syn: "syn r = syn r2 \<Longrightarrow> syn (syntax_error m r) = syn (syntax_error m r2)"
  by (simp add: syn_def syntax_error_def)

lemma read_literal_syn:
  "syn r = syn r2 \<Longrightarrow> fst (read_literal w r) = fst (read_literal w r2) \<and> syn (snd (read_literal w r)) = syn (snd (read_literal w r2))"
  by (auto simp: read_literal_def syn_def syntax_error_def)

lemma read_number_syn:
  "syn r = syn r2 \<Longrightarrow> fst (read_number r) = fst (read_number r2) \<and> syn (snd (read_number r)) = syn (snd (read_number r2))"
  by (auto simp: read_number_def syn_def syntax_error_def split: option.split prod.split)

lemma skip_scalar_syn:
  assumes "syn r = syn r2"
  shows "syn (skip_scalar c r) = syn (skip_scalar c r2)"
  using read_string_syn(1) [OF assms, of "fresh_text False 0" "fresh_text False 0"] read_literal_syn [OF assms] read_number_syn [OF assms]
    error_syn [OF assms] by (simp add: skip_scalar_def del: syn_simps)

lemma member_name_syn:
  assumes "syn r = syn r2"
  shows "(\<exists>r' r2'. member_name m r = Inl r' \<and> member_name m r2 = Inl r2' \<and> syn r' = syn r2') \<or>
    (\<exists>t m' r' r2'. member_name m r = Inr (t, m', r') \<and> member_name m r2 = Inr (t, m', r2') \<and> syn r' = syn r2')"
proof -
  let ?t = "fresh_text True (NAME_MAX + 1)"
  have w: "syn (skip_ws r) = syn (skip_ws r2)" by (rule skip_ws_syn [OF assms])
  obtain a x b y where s: "read_string ?t (skip_ws r) = (a, x)" "read_string ?t (skip_ws r2) = (b, y)" by fastforce
  have ab: "syn a = syn b" "x = y" using read_string_syn(1) [OF w, of ?t ?t] read_string_syn(2) [OF w, of ?t] s by simp_all
  have w2: "syn (skip_ws a) = syn (skip_ws b)" by (rule skip_ws_syn [OF ab(1)])
  have c: "jr_peek 0x3A (skip_ws a) = jr_peek 0x3A (skip_ws b)" by (rule peek_syn [OF w2])
  show ?thesis
    unfolding member_name_def Let_def s prod.case member_is_duplicate_def peek_syn [OF w] syn_eqD(4) [OF ab(1)] ab(2) peek_syn [OF w2]
    using error_syn [OF w] error_syn [OF w2] error_syn [OF ab(1)] ab(1) advance_syn [OF w2] c by auto
qed

lemma next_item_syn:
  assumes "syn r = syn r2"
  obtains b r' r2' where "next_item c m r = (b, r')" "next_item c m r2 = (b, r2')" "syn r' = syn r2'"
proof -
  have w: "syn (skip_ws r) = syn (skip_ws r2)" by (rule skip_ws_syn [OF assms])
  show thesis
    by (rule that [of "fst (next_item c m r)" "snd (next_item c m r)" "snd (next_item c m r2)"])
      (use peek_syn [OF w] advance_syn [OF w] error_syn [OF w] in \<open>simp_all add: next_item_def Let_def\<close>)
qed

text \<open>What the schema adds does not move the parsing state.\<close>

lemma syn_fold: "(\<And>x r. syn (f x r) = syn r) \<Longrightarrow> syn (fold f xs r) = syn r"
  by (induction xs arbitrary: r) simp_all

lemma syn_report_missing [simp]: "syn (report_missing seen jf r) = syn r"
  by (simp add: report_missing_def split: prod.split)

lemma syn_schema [simp]:
  "syn (store_text p t r) = syn r" "syn (merge_oneof f b r) = syn r" "syn (finish_array n lo hi off base r) = syn r"
  "syn (push_member_name t r) = syn r" "syn (check_required fs seen r) = syn r"
  by (auto simp: store_text_def merge_oneof_def finish_array_def push_member_name_def check_required_def Let_def syn_fold
      split: option.split) (simp_all add: syn_def)

lemma failed_schema [simp]:
  "failed (report code r) = failed r" "failed (store_bytes p bs r) = failed r" "failed (store_text p t r) = failed r"
  "failed (path_pop k r) = failed r"
  by (simp_all add: failed_syn)

lemma read_string_field_syn:
  assumes "syn r = syn r2" "jr_p r = 0x22 # u"
  shows "syn (read_string_field n lo hi vs p off base r) = syn (skip_scalar 0x22 r2)"
proof -
  have "syn (read_string_field n lo hi vs p off base r) =
      syn (fst (read_string (fresh_text (slot r base off n \<noteq> None) (if slot r base off n \<noteq> None then n else 0)) r))"
    by (simp add: read_string_field_def Let_def split: prod.split)
  also have "\<dots> = syn (fst (read_string (fresh_text False 0) r2))" by (rule read_string_syn(1) [OF assms(1)])
  finally show ?thesis by (simp add: skip_scalar_def)
qed

lemma read_scalar_fields_syn:
  assumes "syn r = syn r2"
  shows "c = 0x74 \<or> c = 0x66 \<Longrightarrow> jr_peek 0x74 r = (c = 0x74) \<Longrightarrow> syn (read_bool off base r) = syn (skip_scalar c r2)"
    and "c = 0x2D \<or> is_digit c \<Longrightarrow> syn (read_int lo hi off base r) = syn (skip_scalar c r2)"
    and "syn (read_null f base r) = syn (skip_scalar 0x6E r2)"
proof -
  assume c: "c = 0x74 \<or> c = 0x66" "jr_peek 0x74 r = (c = 0x74)"
  show "syn (read_bool off base r) = syn (skip_scalar c r2)"
    using c read_literal_syn [OF assms, of "''true''"] read_literal_syn [OF assms, of "''false''"]
    by (elim disjE) (simp_all add: read_bool_def Let_def skip_scalar_def case_prod_beta)
next
  assume "c = 0x2D \<or> is_digit c"
  then have "c \<noteq> 0x22" "c \<noteq> 0x74" "c \<noteq> 0x66" "c \<noteq> 0x6E" "c = 0x2D \<or> is_digit c" by (auto simp: is_digit_def)
  then show "syn (read_int lo hi off base r) = syn (skip_scalar c r2)"
    using read_number_syn [OF assms] by (auto simp: read_int_def skip_scalar_def case_prod_beta)
next
  show "syn (read_null f base r) = syn (skip_scalar 0x6E r2)"
    using read_literal_syn [OF assms, of "''null''"] by (simp add: read_null_def skip_scalar_def case_prod_beta)
qed

lemma skip_mistyped_tracks: "tracks f g \<Longrightarrow> tracks (skip_mistyped f) g"
proof (rule tracksI)
  fix r r2 assume "tracks f g" "syn r = syn r2"
  then show "map_option syn (skip_mistyped f r) = map_option syn (g r2)"
    by (cases rule: tracks_cases) (simp_all add: skip_mistyped_def)
qed

lemma nested_tracks: "tracks f g \<Longrightarrow> tracks (nested f) (nested g)"
proof (rule tracksI)
  fix r r2 assume t: "tracks f g" and s: "syn r = syn r2"
  have "syn (r\<lparr>jr_depth := jr_depth r + 1\<rparr>) = syn (r2\<lparr>jr_depth := jr_depth r2 + 1\<rparr>)" using s by (simp add: syn_def)
  with t show "map_option syn (nested f r) = map_option syn (nested g r2)"
    by (cases rule: tracks_cases) (use s in \<open>auto simp: nested_def syn_def syntax_error_def\<close>)
qed

text \<open>A reader of values that follows a parser, for every description.\<close>

definition follows :: "value_reader \<Rightarrow> (reader \<Rightarrow> reader option) \<Rightarrow> bool" where
  "follows v s \<longleftrightarrow> (\<forall>f base. tracks (v f base) s) \<and> tracks s s"

lemma read_field_value_tracks: "follows v s \<Longrightarrow> tracks (read_field_value v f base) s"
proof (rule tracksI)
  fix r r2 assume "follows v s" and syn: "syn r = syn r2"
  then have "tracks (v f base) s" by (simp add: follows_def)
  then show "map_option syn (read_field_value v f base r) = map_option syn (s r2)"
    using syn by (cases rule: tracks_cases) (simp_all add: read_field_value_def)
qed

lemma read_member_value_syn:
  assumes "follows v s" "syn r = syn r2"
  shows "map_option (syn \<circ> fst) (read_member_value v s fs base name seen r) = map_option syn (s r2)"
proof (cases "if tx_bad name then None else find_field fs name")
  case None
  have "tracks s s" using assms(1) by (simp add: follows_def)
  then show ?thesis using assms(2) unfolding read_member_value_def None
    by (cases rule: tracks_cases) simp_all
next
  case (Some i)
  let ?r = "if has_flag (fs ! i) WEB_JSON_PRESENT then set_flag base (wf_present_offset (fs ! i)) r else r"
  have "syn ?r = syn r2" using assms(2) by simp
  with read_field_value_tracks [OF assms(1), of "fs ! i" base] show ?thesis
    unfolding read_member_value_def Some Let_def option.case
    by (cases rule: tracks_cases) (simp_all add: comp_def)
qed

lemma read_members_syn:
  "follows v s \<Longrightarrow> syn r = syn r2 \<Longrightarrow>
   map_option (syn \<circ> fst) (read_members v s k fs base m seen r) = map_option syn (skip_members s k m r2)"
proof (induction k arbitrary: m seen r r2)
  case 0
  then show ?case by simp
next
  case (Suc k)
  from member_name_syn [OF Suc.prems(2), of m] consider
      (bad) r' r2' where "member_name m r = Inl r'" "member_name m r2 = Inl r2'" "syn r' = syn r2'"
    | (name) t m' r' r2' where "member_name m r = Inr (t, m', r')" "member_name m r2 = Inr (t, m', r2')" "syn r' = syn r2'"
    by blast
  then show ?case
  proof cases
    case bad
    then show ?thesis by simp
  next
    case name
    have "syn (push_member_name t r') = syn r2'" using name(3) by simp
    note v = read_member_value_syn [OF Suc.prems(1) this, of fs base t seen]
    show ?thesis
    proof (cases "s r2'")
      case None
      with v name show ?thesis by simp
    next
      case (Some r4)
      with v obtain r3 seen' where r3: "read_member_value v s fs base t seen (push_member_name t r') = Some (r3, seen')" "syn r3 = syn r4"
        by auto
      let ?r3 = "path_pop (length (jr_path r')) r3"
      have e: "syn ?r3 = syn r4" using r3(2) by simp
      from next_item_syn [OF e] obtain b x y where nx: "next_member ?r3 = (b, x)" "next_member r4 = (b, y)" "syn x = syn y" .
      show ?thesis
        using name r3 Some nx Suc.IH [OF Suc.prems(1) nx(3), of m' seen'] syn_eqD(4) [OF e] e
        by (cases b) (simp_all add: Let_def comp_def)
    qed
  qed
qed

lemma read_object_tracks: "follows v s \<Longrightarrow> tracks (read_object v s fs base) (skip_object s)"
proof (rule tracksI)
  fix r r2 assume f: "follows v s" and syn: "syn r = syn r2"
  have e: "syn (skip_ws (advance r)) = syn (skip_ws (advance r2))" by (rule skip_ws_syn [OF advance_syn [OF syn]])
  show "map_option syn (read_object v s fs base r) = map_option syn (skip_object s r2)"
  proof (cases "jr_peek 0x7D (skip_ws (advance r))")
    case True
    then show ?thesis using peek_syn [OF e] advance_syn [OF e] by (simp add: read_object_def skip_object_def Let_def)
  next
    case False
    let ?k = "Suc (length (jr_p (skip_ws (advance r))))"
    have "map_option (syn \<circ> fst) (read_members v s ?k fs base [] 0 (skip_ws (advance r))) =
        map_option syn (skip_members s ?k [] (skip_ws (advance r2)))"
      by (rule read_members_syn [OF f e])
    moreover have "jr_peek 0x7D (skip_ws (advance r2)) = False" "length (jr_p (skip_ws (advance r2))) = length (jr_p (skip_ws (advance r)))"
      using False peek_syn [OF e] syn_eqD(1) [OF e] by simp_all
    ultimately show ?thesis using False
      by (cases "read_members v s ?k fs base [] 0 (skip_ws (advance r))")
        (auto simp: read_object_def skip_object_def Let_def simp del: read_members.simps skip_members.simps split: prod.splits)
  qed
qed

lemma read_elements_syn:
  "follows v s \<Longrightarrow> syn r = syn r2 \<Longrightarrow>
   map_option (syn \<circ> fst) (read_elements v s k item sz hi items n r) = map_option syn (skip_elements s k r2)"
proof (induction k arbitrary: n r r2)
  case 0
  then show ?case by simp
next
  case (Suc k)
  have ss: "tracks s s" using Suc.prems(1) by (simp add: follows_def)
  have push: "syn (path_push_index n r) = syn r2" using Suc.prems(2) by simp
  have v: "map_option syn (read_element_value v s item sz hi items n (path_push_index n r)) = map_option syn (s r2)"
    using tracksD [OF ss push] tracksD [OF read_field_value_tracks [OF Suc.prems(1)] push]
    by (simp add: read_element_value_def split: option.split)
  show ?case
  proof (cases "s r2")
    case None
    with v show ?thesis by simp
  next
    case (Some r4)
    with v obtain r3 where r3: "read_element_value v s item sz hi items n (path_push_index n r) = Some r3" "syn r3 = syn r4" by auto
    let ?r3 = "path_pop (length (jr_path r)) r3"
    have e: "syn ?r3 = syn r4" using r3(2) by simp
    from next_item_syn [OF e] obtain b x y where nx: "next_element ?r3 = (b, x)" "next_element r4 = (b, y)" "syn x = syn y" .
    show ?thesis
      using r3 Some nx Suc.IH [OF Suc.prems(1) nx(3), of "n + 1"] syn_eqD(4) [OF e] e
      by (cases b) (simp_all add: Let_def comp_def)
  qed
qed

lemma read_array_field_tracks: "follows v s \<Longrightarrow> tracks (read_array_field v s item sz lo hi coff off base) (skip_array s)"
proof (rule tracksI)
  fix r r2 assume f: "follows v s" and syn: "syn r = syn r2"
  have e: "syn (skip_ws (advance r)) = syn (skip_ws (advance r2))" by (rule skip_ws_syn [OF advance_syn [OF syn]])
  show "map_option syn (read_array_field v s item sz lo hi coff off base r) = map_option syn (skip_array s r2)"
  proof (cases "jr_peek 0x5D (skip_ws (advance r))")
    case True
    then show ?thesis using peek_syn [OF e] advance_syn [OF e] by (simp add: read_array_field_def skip_array_def Let_def)
  next
    case False
    let ?k = "Suc (length (jr_p (skip_ws (advance r))))" and ?i = "slot r base off (sz * hi)"
    have "map_option (syn \<circ> fst) (read_elements v s ?k item sz hi ?i 0 (skip_ws (advance r))) =
        map_option syn (skip_elements s ?k (skip_ws (advance r2)))"
      by (rule read_elements_syn [OF f e])
    moreover have "jr_peek 0x5D (skip_ws (advance r2)) = False" "length (jr_p (skip_ws (advance r2))) = length (jr_p (skip_ws (advance r)))"
      using False peek_syn [OF e] syn_eqD(1) [OF e] by simp_all
    ultimately show ?thesis using False
      by (cases "read_elements v s ?k item sz hi ?i 0 (skip_ws (advance r))")
        (auto simp: read_array_field_def skip_array_def Let_def simp del: read_elements.simps skip_elements.simps split: prod.splits)
  qed
qed

section \<open>Whole bodies\<close>

lemma tracks_refl: "tracks f g \<Longrightarrow> tracks g g"
  unfolding tracks_def by metis

lemma followsI: "(\<And>f base. tracks (v f base) s) \<Longrightarrow> follows v s"
  unfolding follows_def using tracks_refl by blast

lemma skip_value_dispatch:
  "jr_p (skip_ws r) = c # t \<Longrightarrow> skip_value (Suc n) r =
     (if c = 0x7B then nested (skip_object (skip_value n)) (skip_ws r)
      else if c = 0x5B then nested (skip_array (skip_value n)) (skip_ws r) else Some (skip_scalar c (skip_ws r)))"
  by simp

lemma skip_value_end: "jr_p (skip_ws r) = [] \<Longrightarrow> skip_value (Suc n) r = Some (syntax_error ''Unexpected end of the body'' (skip_ws r))"
  by simp

lemma skip_value_tracks_step:
  assumes "follows v (skip_value n)"
  shows "tracks (skip_value (Suc n)) (skip_value (Suc n))"
proof (rule tracksI)
  fix r r2 assume s: "syn r = syn r2"
  have o: "tracks (nested (skip_object (skip_value n))) (nested (skip_object (skip_value n)))"
    by (rule nested_tracks [OF tracks_refl [OF read_object_tracks [OF assms]]])
  have a: "tracks (nested (skip_array (skip_value n))) (nested (skip_array (skip_value n)))"
    by (rule nested_tracks [OF tracks_refl [OF read_array_field_tracks [OF assms]]])
  have w: "syn (skip_ws r) = syn (skip_ws r2)" by (rule skip_ws_syn [OF s])
  show "map_option syn (skip_value (Suc n) r) = map_option syn (skip_value (Suc n) r2)"
  proof (cases "jr_p (skip_ws r)")
    case Nil
    then show ?thesis using skip_value_end [of r n] skip_value_end [of r2 n] syn_eqD(1) [OF w] error_syn [OF w]
      by (simp del: skip_value.simps syn_simps)
  next
    case (Cons c t)
    then show ?thesis
      using skip_value_dispatch [of r c t n] skip_value_dispatch [of r2 c t n] syn_eqD(1) [OF w] tracksD [OF o w] tracksD [OF a w]
        skip_scalar_syn [OF w] by (simp del: skip_value.simps)
  qed
qed

lemma read_typed_syn:
  assumes "follows v (skip_value n)" "read_typed v (skip_value n) c f base = Some g" "syn r = syn r2" "jr_p r = c # t" "c \<noteq> 0x6E"
  shows "map_option syn (g r) =
     map_option syn (if c = 0x7B then nested (skip_object (skip_value n)) r2
       else if c = 0x5B then nested (skip_array (skip_value n)) r2 else Some (skip_scalar c r2))"
proof (cases "wf_type f")
  case (WEB_JSON_STRING sz lo hi vs p)
  then have c: "c = 0x22" and g: "g = (\<lambda>r. Some (read_string_field sz lo hi vs p (wf_offset f) base r))"
    using assms(2) by (simp_all add: read_typed_def split: if_splits)
  show ?thesis using read_string_field_syn [OF assms(3), of t] assms(4) by (simp add: c g)
next
  case WEB_JSON_BOOL
  then have c: "c = 0x74 \<or> c = 0x66" and g: "g = (\<lambda>r. Some (read_bool (wf_offset f) base r))"
    using assms(2) by (auto simp: read_typed_def split: if_splits)
  have "syn (read_bool (wf_offset f) base r) = syn (skip_scalar c r2)"
    by (rule read_scalar_fields_syn(1) [OF assms(3) c]) (simp add: jr_peek_def assms(4))
  with c show ?thesis by (auto simp: g)
next
  case (WEB_JSON_INT lo hi)
  then have c: "c = 0x2D \<or> is_digit c" and g: "g = (\<lambda>r. Some (read_int lo hi (wf_offset f) base r))"
    using assms(2) by (auto simp: read_typed_def split: if_splits)
  then have "c \<noteq> 0x7B" "c \<noteq> 0x5B" by (auto simp: is_digit_def)
  with read_scalar_fields_syn(2) [OF assms(3) c] show ?thesis by (simp add: g)
next
  case (WEB_JSON_OBJECT fs)
  then have c: "c = 0x7B" and g: "g = nested (read_object v (skip_value n) fs (base + wf_offset f))"
    using assms(2) by (simp_all add: read_typed_def split: if_splits)
  show ?thesis using tracksD [OF nested_tracks [OF read_object_tracks [OF assms(1)]] assms(3)] by (simp add: c g)
next
  case (WEB_JSON_ARRAY item sz lo hi coff)
  then have c: "c = 0x5B" and g: "g = nested (read_array_field v (skip_value n) item sz lo hi coff (wf_offset f) base)"
    using assms(2) by (simp_all add: read_typed_def split: if_splits)
  show ?thesis using tracksD [OF nested_tracks [OF read_array_field_tracks [OF assms(1)]] assms(3)] by (simp add: c g)
next
  case WEB_JSON_OTHER
  with assms(2) show ?thesis by (simp add: read_typed_def)
qed

lemma skip_mistyped_dispatch:
  assumes "follows v (skip_value n)" "syn r = syn r2" "dropWhile is_ws (jr_p r2) = jr_p r2"
  shows "map_option syn (skip_mistyped (skip_value (Suc n)) r) = map_option syn (skip_value (Suc n) r2)"
  by (rule tracksD [OF skip_mistyped_tracks [OF skip_value_tracks_step [OF assms(1)]] assms(2)])

theorem read_value_follows: "follows (read_value n) (skip_value n)"
proof (induction n)
  case 0
  show ?case by (rule followsI) (simp add: tracks_def)
next
  case (Suc n)
  show ?case
  proof (rule followsI, rule tracksI)
    fix f base r r2 assume s: "syn r = syn r2"
    have w: "syn (skip_ws r) = syn (skip_ws r2)" by (rule skip_ws_syn [OF s])
    show "map_option syn (read_value (Suc n) f base r) = map_option syn (skip_value (Suc n) r2)"
    proof (cases "jr_p (skip_ws r)")
      case Nil
      then show ?thesis using skip_value_end [of r2 n] syn_eqD(1) [OF w] error_syn [OF w] by (simp del: skip_value.simps syn_simps)
    next
      case (Cons c t)
      have c2: "jr_p (skip_ws r2) = c # t" using Cons syn_eqD(1) [OF w] by simp
      show ?thesis
      proof (cases "c = 0x6E")
        case True
        then show ?thesis
          using Cons skip_value_dispatch [OF c2, of n] read_scalar_fields_syn(3) [OF w] by (simp del: skip_value.simps)
      next
        case False
        show ?thesis
        proof (cases "read_typed (read_value n) (skip_value n) c f base")
          case (Some g)
          then have "read_value (Suc n) f base r = g (skip_ws r)" using Cons False by simp
          with read_typed_syn [OF Suc Some w Cons False] skip_value_dispatch [OF c2, of n] show ?thesis
            by (simp del: skip_value.simps read_value.simps)
        next
          case None
          then have "read_value (Suc n) f base r = skip_mistyped (skip_value (Suc n)) (skip_ws r)"
            using Cons False by (simp del: skip_value.simps)
          moreover have "skip_value (Suc n) r2 = skip_value (Suc n) (skip_ws r2)"
            by (simp add: skip_ws_def)
          moreover have "map_option syn (skip_mistyped (skip_value (Suc n)) (skip_ws r)) = map_option syn (skip_value (Suc n) (skip_ws r2))"
            by (rule skip_mistyped_dispatch [OF Suc w]) (simp add: skip_ws_def)
          ultimately show ?thesis by simp
        qed
      qed
    qed
  qed
qed

text \<open>The value of a body is read as \<open>skip_value\<close> reads it.\<close>

lemma read_body_value:
  defines "v \<equiv> skip_value (Suc WEB_JSON_MAX_DEPTH)"
  shows "(case v (start_reader body n) of
      None \<Rightarrow> read_body schema body n = None
    | Some r1 \<Rightarrow> \<exists>r. read_body schema body n = Some r \<and>
        (failed r \<longleftrightarrow> failed r1 \<or> dropWhile is_ws (jr_p r1) \<noteq> []))"
proof -
  let ?start = "start_reader body n" and ?r = "skip_ws (start_reader body n)"
  define first where "first = (if jr_peek 0x7B ?r
      then do { r' \<leftarrow> read_object (read_value WEB_JSON_MAX_DEPTH) (skip_value WEB_JSON_MAX_DEPTH) schema 0 (?r\<lparr>jr_depth := 1\<rparr>);
                Some (r'\<lparr>jr_depth := 0\<rparr>) }
      else skip_mistyped v ?r)"
  have v: "v ?start = v ?r" unfolding v_def by (simp add: skip_ws_def)
  have f: "map_option syn first = map_option syn (v ?start)"
  proof (cases "jr_peek 0x7B ?r")
    case True
    then obtain t where p: "jr_p ?r = 0x7B # t" by (cases "jr_p ?r") (auto simp: jr_peek_def)
    let ?o = "read_object (read_value WEB_JSON_MAX_DEPTH) (skip_value WEB_JSON_MAX_DEPTH) schema 0"
      and ?s = "skip_object (skip_value WEB_JSON_MAX_DEPTH)"
    have d: "jr_depth ?r = 0" by (simp add: skip_ws_def start_reader_def)
    have sk: "v ?start = nested ?s ?r" using skip_value_dispatch [OF p, of WEB_JSON_MAX_DEPTH] unfolding v_def by (simp del: skip_value.simps)
    have t: "tracks ?o ?s" by (rule read_object_tracks [OF read_value_follows])
    have "nested ?s ?r = do { r1 \<leftarrow> ?s (?r\<lparr>jr_depth := 1\<rparr>); Some (r1\<lparr>jr_depth := jr_depth r1 - 1\<rparr>) }"
      by (simp add: nested_def d WEB_JSON_MAX_DEPTH_def)
    moreover have "jr_depth r1 = 1" if "?s (?r\<lparr>jr_depth := 1\<rparr>) = Some r1" for r1
    proof -
      have p8: "value_parser 7 (skip_value WEB_JSON_MAX_DEPTH)" using skip_value_parser [of 7] by (simp add: WEB_JSON_MAX_DEPTH_def)
      have "\<exists>r'. ?s (?r\<lparr>jr_depth := 1\<rparr>) = Some r' \<and> jr_depth r' = 1"
        using value_parser.object_outcome [OF p8, of "?r\<lparr>jr_depth := 1\<rparr>" t] p
        by (auto simp: WEB_JSON_MAX_DEPTH_def skip_ws_def start_reader_def failed_def syn_def)
      with that show ?thesis by auto
    qed
    ultimately show ?thesis
      using tracksD [OF t refl, of "?r\<lparr>jr_depth := 1\<rparr>"] True sk unfolding first_def
      by (cases "?o (?r\<lparr>jr_depth := 1\<rparr>)"; cases "?s (?r\<lparr>jr_depth := 1\<rparr>)") (auto simp: syn_def)
  next
    case False
    have "tracks (skip_mistyped v) v" unfolding v_def
      by (rule skip_mistyped_tracks [OF skip_value_tracks_step [OF read_value_follows]])
    from tracksD [OF this refl, of ?r] False show ?thesis unfolding first_def v by simp
  qed
  have body: "read_body schema body n = do {
      r1 \<leftarrow> first;
      Some (if failed r1 then r1 else let r2 = skip_ws r1 in
              if jr_p r2 \<noteq> [] then syntax_error ''Unexpected data after the JSON value'' r2 else r2) }"
    unfolding read_body_def Let_def first_def v_def by simp
  show ?thesis
  proof (cases "v ?start")
    case None
    with f have "first = None" by simp
    with body None show ?thesis by simp
  next
    case (Some r1)
    with f obtain r2 where r2: "first = Some r2" "syn r2 = syn r1" by auto
    have "failed (skip_ws r2) = failed r2" by (simp add: failed_def skip_ws_def)
    with r2 body Some show ?thesis
      using syn_eqD(1) [OF r2(2)] syn_eqD(4) [OF r2(2)] by (auto simp: Let_def skip_ws_def)
  qed
qed

theorem read_body_syntax:
  "\<exists>r. read_body schema body n = Some r \<and> (\<not> failed r \<longleftrightarrow> (\<exists>j. json_body j body))"
proof -
  let ?start = "start_reader body n"
  have d: "jr_depth ?start + WEB_JSON_MAX_DEPTH = WEB_JSON_MAX_DEPTH" "\<not> failed ?start" "jr_p ?start = body"
    by (simp_all add: start_reader_def failed_def)
  obtain r1 where r1: "skip_value (Suc WEB_JSON_MAX_DEPTH) ?start = Some r1" using skipper.total [OF d(1,2)] by blast
  from read_body_value [where body = body and n = n and schema = schema] r1 obtain r where r: "read_body schema body n = Some r"
    "failed r \<longleftrightarrow> failed r1 \<or> dropWhile is_ws (jr_p r1) \<noteq> []" by auto
  have "\<not> failed r1 \<and> dropWhile is_ws (jr_p r1) = [] \<longleftrightarrow> (\<exists>j. json_body j body)"
  proof
    assume a: "\<not> failed r1 \<and> dropWhile is_ws (jr_p r1) = []"
    obtain a j w s where "blank a" "spells WEB_JSON_MAX_DEPTH j w" "body = a @ w @ s" "syn r1 = (s, None, 0)"
    proof (cases rule: skipper.outcome [OF d(1,2), case_names took broke])
      case (took r' a j w s)
      with r1 d(3) show thesis by (intro that [of a j w s]) (auto simp: start_reader_def)
    next
      case (broke r')
      with a r1 show thesis by simp
    qed
    moreover have "blank s" using a calculation(4) by (simp add: syn_def list_all_iff)
    ultimately show "\<exists>j. json_body j body" unfolding json_body_def by blast
  next
    assume "\<exists>j. json_body j body"
    then obtain j a v e where b: "blank a" "spells WEB_JSON_MAX_DEPTH j v" "blank e" "body = a @ v @ e"
      by (auto simp: json_body_def)
    have "syn r1 = (e, None, jr_depth ?start)"
      by (rule skipper.complete [OF d(1,2) b(2) _ _ r1]) (use b ends_number_after(4) drop_blank_value d(3) in simp_all)
    then show "\<not> failed r1 \<and> dropWhile is_ws (jr_p r1) = []" using b(3) by (simp add: syn_def failed_def list_all_iff)
  qed
  with r show ?thesis by auto
qed

section \<open>What reading leaves alone\<close>

definition untouched :: "reader \<Rightarrow> reader \<Rightarrow> bool" where
  "untouched r r' \<longleftrightarrow> jr_fields r' = jr_fields r \<and> jr_truncated r' = jr_truncated r \<and> jr_path r' = jr_path r \<and>
     jr_dest r' = jr_dest r"

lemma untouched_refl [simp]: "untouched r r"
  by (simp add: untouched_def)

lemma untouched_trans: "untouched a b \<Longrightarrow> untouched b c \<Longrightarrow> untouched a c"
  by (simp add: untouched_def)

lemma untouched_steps [simp]:
  "untouched r (skip_ws r)" "untouched r (advance r)" "untouched r (syntax_error m r)" "untouched r (r\<lparr>jr_p := s\<rparr>)"
  "untouched r (r\<lparr>jr_depth := k\<rparr>)"
  by (simp_all add: untouched_def skip_ws_def advance_def syntax_error_def)

lemma untouched_read_string: "untouched r (fst (read_string t r))"
  by (simp add: read_string_def Let_def untouched_def advance_def syntax_error_def split: prod.split sum.split)

lemma untouched_literal: "untouched r (snd (read_literal w r))"
  by (simp add: read_literal_def)

lemma untouched_number: "untouched r (snd (read_number r))"
  by (simp add: read_number_def split: option.split prod.split)

lemma untouched_scalar: "untouched r (skip_scalar c r)"
  using untouched_read_string untouched_literal untouched_number by (simp add: skip_scalar_def)

lemma untouched_member_name:
  "member_name m r = Inl r' \<Longrightarrow> untouched r r'" "member_name m r = Inr (t, m', r') \<Longrightarrow> untouched r r'"
proof -
  obtain a x where s: "read_string (fresh_text True (NAME_MAX + 1)) (skip_ws r) = (a, x)" by fastforce
  have u: "untouched r a"
    using untouched_trans [OF untouched_steps(1) [of r] untouched_read_string [of "skip_ws r" "fresh_text True (NAME_MAX + 1)"]] s by simp
  note t = untouched_trans [OF u] untouched_trans [OF untouched_trans [OF u untouched_steps(1)]] untouched_trans [OF untouched_steps(1)]
  show "member_name m r = Inl r' \<Longrightarrow> untouched r r'" "member_name m r = Inr (t, m', r') \<Longrightarrow> untouched r r'"
    using u t(1) [OF untouched_steps(3)] t(2) [OF untouched_steps(3)] t(3) [OF untouched_steps(3)] t(2) [OF untouched_steps(2)]
    by (auto simp: member_name_def Let_def s [simplified] member_is_duplicate_def split: if_splits)
qed

lemma untouched_next_item: "next_item c m r = (b, r') \<Longrightarrow> untouched r r'"
  using untouched_trans [OF untouched_steps(1) untouched_steps(2)] untouched_trans [OF untouched_steps(1) untouched_steps(3)]
  by (auto simp: next_item_def Let_def split: if_splits)

definition leaves :: "(reader \<Rightarrow> reader option) \<Rightarrow> bool" where
  "leaves f \<longleftrightarrow> (\<forall>r r'. f r = Some r' \<longrightarrow> untouched r r')"

lemma leavesD: "leaves f \<Longrightarrow> f r = Some r' \<Longrightarrow> untouched r r'"
  by (simp add: leaves_def)

text \<open>One round of each loop.\<close>

lemma skip_members_round:
  "member_name m r = Inr (t, m', a) \<Longrightarrow> s a = Some b \<Longrightarrow> next_member b = (x, c) \<Longrightarrow>
   skip_members s (Suc k) m r = (if failed b then Some b else if x then skip_members s k m' c else Some c)"
  by (cases x) simp_all

lemma skip_elements_round:
  "s r = Some b \<Longrightarrow> next_element b = (x, c) \<Longrightarrow>
   skip_elements s (Suc k) r = (if failed b then Some b else if x then skip_elements s k c else Some c)"
  by (cases x) simp_all

lemma untouched_members: "leaves s \<Longrightarrow> skip_members s k m r = Some r' \<Longrightarrow> untouched r r'"
proof (induction k arbitrary: m r)
  case 0
  then show ?case by simp
next
  case (Suc k)
  show ?case
  proof (cases "member_name m r")
    case (Inl a)
    then have "r' = a" using Suc.prems(2) by simp
    with untouched_member_name(1) [OF Inl] show ?thesis by simp
  next
    case (Inr q)
    obtain t m' a where q: "q = (t, m', a)" by (rule prod_cases3)
    note name = Inr [unfolded q]
    obtain b where b: "s a = Some b" using Suc.prems(2) name by (cases "s a") simp_all
    obtain x c where nx: "next_member b = (x, c)" by (rule prod.exhaust)
    have u: "untouched r b" by (rule untouched_trans [OF untouched_member_name(2) [OF name] leavesD [OF Suc.prems(1) b]])
    have uc: "untouched r c" by (rule untouched_trans [OF u untouched_next_item [OF nx]])
    have "r' = b \<or> r' = c \<or> skip_members s k m' c = Some r'"
      using Suc.prems(2) unfolding skip_members_round [where s = s and m = m and t = t and m' = m' and a = a, OF name b nx] by (auto split: if_split_asm)
    then show ?thesis
      using u uc untouched_trans [OF uc Suc.IH [OF Suc.prems(1)]] by metis
  qed
qed

lemma untouched_elements: "leaves s \<Longrightarrow> skip_elements s k r = Some r' \<Longrightarrow> untouched r r'"
proof (induction k arbitrary: r)
  case 0
  then show ?case by simp
next
  case (Suc k)
  obtain b where b: "s r = Some b" using Suc.prems(2) by (cases "s r") simp_all
  obtain x c where nx: "next_element b = (x, c)" by (rule prod.exhaust)
  have u: "untouched r b" by (rule leavesD [OF Suc.prems(1) b])
  have uc: "untouched r c" by (rule untouched_trans [OF u untouched_next_item [OF nx]])
  have "r' = b \<or> r' = c \<or> skip_elements s k c = Some r'"
    using Suc.prems(2) unfolding skip_elements_round [where s = s and r = r, OF b nx] by (auto split: if_split_asm)
  then show ?case
    using u uc untouched_trans [OF uc Suc.IH [OF Suc.prems(1)]] by metis
qed

lemma leaves_nested: "leaves f \<Longrightarrow> leaves (nested f)"
  unfolding leaves_def
proof (intro allI impI)
  fix r r' assume f: "\<forall>r r'. f r = Some r' \<longrightarrow> untouched r r'" and n: "nested f r = Some r'"
  show "untouched r r'"
  proof (cases "WEB_JSON_MAX_DEPTH \<le> jr_depth r")
    case False
    with n obtain y where "f (r\<lparr>jr_depth := jr_depth r + 1\<rparr>) = Some y" "r' = y\<lparr>jr_depth := jr_depth y - 1\<rparr>"
      by (auto simp: nested_def split: bind_splits)
    moreover from this(1) f have "untouched (r\<lparr>jr_depth := jr_depth r + 1\<rparr>) y" by blast
    ultimately show ?thesis by (simp add: untouched_def)
  qed (use n in \<open>auto simp: nested_def\<close>)
qed

lemma leaves_containers:
  assumes "leaves s"
  shows "leaves (skip_object s)" "leaves (skip_array s)"
proof -
  have u: "untouched r (skip_ws (advance r))" for r by (rule untouched_trans [OF untouched_steps(2) untouched_steps(1)])
  show "leaves (skip_object s)" "leaves (skip_array s)"
    unfolding leaves_def using untouched_trans [OF u untouched_steps(2)] untouched_trans [OF u untouched_members [OF assms]]
      untouched_trans [OF u untouched_elements [OF assms]]
    by (auto simp: skip_object_def skip_array_def Let_def simp del: skip_members.simps skip_elements.simps split: if_splits)
qed

lemma skip_value_leaves: "leaves (skip_value n)"
proof (induction n)
  case (Suc n)
  note c = leaves_nested [OF leaves_containers(1) [OF Suc]] leaves_nested [OF leaves_containers(2) [OF Suc]]
  show ?case
    unfolding leaves_def
  proof (intro allI impI)
    fix r r' assume s: "skip_value (Suc n) r = Some r'"
    have "untouched (skip_ws r) r'"
    proof (cases "jr_p (skip_ws r)")
      case Nil
      then show ?thesis using s by auto
    next
      case (Cons a t)
      then show ?thesis using s leavesD [OF c(1), of "skip_ws r" r'] leavesD [OF c(2), of "skip_ws r" r'] untouched_scalar
        by (auto simp: skip_value_dispatch simp del: skip_value.simps split: if_splits)
    qed
    then show "untouched r r'" by (rule untouched_trans [OF untouched_steps(1)])
  qed
qed (simp add: leaves_def)

end
