(* ===== verification/Json_Tree.thy ===== *)
theory Json_Tree
  imports Json_Body
begin

text \<open>
  The reference decoder: what each value of a tree puts into the destination and what it reports, without any
  text; schemas whose slots fit the destination; the scalar fields.
\<close>

section \<open>Reading a tree\<close>

text \<open>The string \<open>xs\<close> for a field of \<open>n\<close> bytes, its terminator included.\<close>

definition put_string ::
    "item list \<Rightarrow> nat \<Rightarrow> nat \<Rightarrow> nat \<Rightarrow> byte list list option \<Rightarrow> (byte list \<Rightarrow> bool) option \<Rightarrow> nat \<Rightarrow> reader \<Rightarrow> reader" where
  "put_string xs n lo hi vs p a r =
     (let s = decoded xs; refused = (\<lambda>code. store_bytes (Some a) (replicate n 0) (report code r)) in
      if n \<le> length s \<or> 0 < hi \<and> hi < length xs then refused API_FIELD_TOO_LONG
      else if length xs < lo then refused API_FIELD_OUT_OF_RANGE
      else if None \<in> set xs \<or> (\<exists>q. p = Some q \<and> \<not> q s) then refused API_FIELD_INVALID_FORMAT
      else if (\<exists>l. vs = Some l \<and> s \<notin> set l) then refused API_FIELD_NOT_ALLOWED
      else store_bytes (Some a) (s @ [0]) r)"

definition put_number :: "number_kind \<Rightarrow> int \<Rightarrow> int \<Rightarrow> int \<Rightarrow> nat \<Rightarrow> reader \<Rightarrow> reader" where
  "put_number kind v lo hi a r =
     (if kind = NUMBER_FRACTIONAL then report API_FIELD_INVALID_FORMAT r
      else if kind = NUMBER_OUT_OF_RANGE \<or> v < lo \<or> hi < v then report API_FIELD_OUT_OF_RANGE r
      else store_bytes (Some a) (int64_bytes v) r)"

text \<open>The field that a name belongs to. A name over \<open>NAME_MAX\<close> bytes, or with text C cannot hold, has none.\<close>

definition field_of :: "web_json_field list \<Rightarrow> item list \<Rightarrow> nat option" where
  "field_of fs xs =
     (if None \<in> set xs \<or> NAME_MAX < length (decoded xs) then None else find_index (\<lambda>f. wf_name f = decoded xs) fs)"

type_synonym putter = "web_json_field \<Rightarrow> nat \<Rightarrow> reader \<Rightarrow> reader"

definition put_member :: "web_json_field list \<Rightarrow> nat \<Rightarrow> item list \<times> putter \<Rightarrow> reader \<Rightarrow> reader" where
  "put_member fs base m r =
     (case m of (xs, put) \<Rightarrow>
        let r1 = (if NAME_MAX < length (decoded xs) then r else path_push_bytes (decoded xs) r);
            r2 = (case field_of fs xs of
                    None \<Rightarrow> report API_FIELD_UNKNOWN r1
                  | Some i \<Rightarrow>
                      let f = fs ! i; r2 = (if has_flag f WEB_JSON_PRESENT then set_flag base (wf_present_offset f) r1 else r1)
                      in merge_oneof f r2 (put f base r2))
        in path_pop (length (jr_path r)) r2)"

definition put_missing :: "nat set \<Rightarrow> nat \<times> web_json_field \<Rightarrow> reader \<Rightarrow> reader" where
  "put_missing seen jf r =
     (case jf of (i, f) \<Rightarrow>
        if has_flag f WEB_JSON_REQUIRED \<and> i \<notin> seen
        then path_pop (length (jr_path r)) (report API_FIELD_REQUIRED (path_push_bytes (wf_name f) r)) else r)"

definition found :: "web_json_field list \<Rightarrow> (item list \<times> 'a) list \<Rightarrow> nat set" where
  "found fs ms = {i. \<exists>m \<in> set ms. field_of fs (fst m) = Some i}"

definition put_object :: "web_json_field list \<Rightarrow> nat \<Rightarrow> (item list \<times> putter) list \<Rightarrow> reader \<Rightarrow> reader" where
  "put_object fs base ms r =
     fold (put_missing (found fs ms)) (List.enumerate 0 fs) (fold (put_member fs base) ms r)"

text \<open>The element of index \<open>i\<close>; those that have no room are only counted.\<close>

definition put_element :: "web_json_field \<Rightarrow> nat \<Rightarrow> nat \<Rightarrow> nat \<Rightarrow> nat \<times> putter \<Rightarrow> reader \<Rightarrow> reader" where
  "put_element item n hi a e r =
     (case e of (i, put) \<Rightarrow>
        if i < hi then
          let r1 = path_push_index i r; b = a + i * n
          in path_pop (length (jr_path r)) (merge_oneof item r1 (put item b r1))
        else r)"

definition put_array :: "web_json_field \<Rightarrow> nat \<Rightarrow> nat \<Rightarrow> nat \<Rightarrow> nat \<Rightarrow> nat \<Rightarrow> nat \<Rightarrow> putter list \<Rightarrow> reader \<Rightarrow> reader" where
  "put_array item n lo hi count_offset offset base es r =
     finish_array (length es) lo hi count_offset base
       (fold (put_element item n hi (base + offset)) (List.enumerate 0 es) r)"

text \<open>A value that does not fit its declared type is one report.\<close>

primrec put_value :: "json \<Rightarrow> putter" where
  "put_value JNull = (\<lambda>f base r.
     if has_flag f WEB_JSON_NULLABLE then set_flag base (wf_null_offset f) r else report API_FIELD_INVALID_FORMAT r)"
| "put_value (JBool b) = (\<lambda>f base r.
     case wf_type f of
       WEB_JSON_BOOL \<Rightarrow> store_bytes (Some (base + wf_offset f)) [if b then 1 else 0] r
     | _ \<Rightarrow> report API_FIELD_INVALID_FORMAT r)"
| "put_value (JNumber kind v) = (\<lambda>f base r.
     case wf_type f of
       WEB_JSON_INT lo hi \<Rightarrow> put_number kind v lo hi (base + wf_offset f) r
     | _ \<Rightarrow> report API_FIELD_INVALID_FORMAT r)"
| "put_value (JString xs) = (\<lambda>f base r.
     case wf_type f of
       WEB_JSON_STRING n lo hi vs p \<Rightarrow> put_string xs n lo hi vs p (base + wf_offset f) r
     | _ \<Rightarrow> report API_FIELD_INVALID_FORMAT r)"
| "put_value (JArray js) = (\<lambda>f base r.
     case wf_type f of
       WEB_JSON_ARRAY item n lo hi count_offset \<Rightarrow> put_array item n lo hi count_offset (wf_offset f) base (map put_value js) r
     | _ \<Rightarrow> report API_FIELD_INVALID_FORMAT r)"
| "put_value (JObject ms) = (\<lambda>f base r.
     case wf_type f of
       WEB_JSON_OBJECT fs \<Rightarrow> put_object fs (base + wf_offset f) (map (map_prod id put_value) ms) r
     | _ \<Rightarrow> report API_FIELD_INVALID_FORMAT r)"

definition put_body :: "json \<Rightarrow> web_json_field list \<Rightarrow> reader \<Rightarrow> reader" where
  "put_body j fs r =
     (case j of
        JObject ms \<Rightarrow> put_object fs 0 (map (map_prod id put_value) ms) r
      | _ \<Rightarrow> report API_FIELD_INVALID_FORMAT r)"

section \<open>Schemas that fit the destination\<close>

text \<open>
  Every slot of the field lies inside a destination of \<open>n\<close> bytes when the field's structure starts at \<open>base\<close>;
  a string has room for its terminator, and an object describes no more members than a bit set of 64 can hold.
\<close>

primrec field_fits :: "nat \<Rightarrow> nat \<Rightarrow> web_json_field \<Rightarrow> bool"
  and type_fits :: "nat \<Rightarrow> nat \<Rightarrow> nat \<Rightarrow> web_json_type \<Rightarrow> bool" where
  "field_fits n base (Field name flags offset present_offset null_offset ty) = type_fits n base offset ty"
| "type_fits n base offset (WEB_JSON_STRING sz lo hi vs p) = (0 < sz \<and> base + offset + sz \<le> n)"
| "type_fits n base offset WEB_JSON_BOOL = (base + offset + SIZEOF_BOOL \<le> n)"
| "type_fits n base offset (WEB_JSON_INT lo hi) = (base + offset + SIZEOF_INT64 \<le> n)"
| "type_fits n base offset (WEB_JSON_OBJECT fs) =
     (length fs \<le> 64 \<and> list_all id (map (field_fits n (base + offset)) fs))"
| "type_fits n base offset (WEB_JSON_ARRAY item sz lo hi count_offset) =
     (base + offset + sz * hi \<le> n \<and> list_all (\<lambda>i. field_fits n (base + offset + i * sz) item) [0..<hi])"
| "type_fits n base offset WEB_JSON_OTHER = True"

definition schema_fits :: "nat \<Rightarrow> web_json_field list \<Rightarrow> bool" where
  "schema_fits n fs \<longleftrightarrow> length fs \<le> 64 \<and> list_all (field_fits n 0) fs"

section \<open>What putting a value changes\<close>

text \<open>
  \<open>puts n g\<close>: on a destination of \<open>n\<close> bytes \<open>g\<close> leaves the parsing state and the path as they are, and what it does
  does not depend on where the text stands.
\<close>

definition puts :: "nat \<Rightarrow> (reader \<Rightarrow> reader) \<Rightarrow> bool" where
  "puts n g \<longleftrightarrow> (\<forall>r. length (jr_dest r) = n \<longrightarrow>
     jr_syntax (g r) = jr_syntax r \<and> jr_path (g r) = jr_path r \<and> length (jr_dest (g r)) = n \<and>
     (\<forall>s d. g (r\<lparr>jr_p := s, jr_depth := d\<rparr>) = (g r)\<lparr>jr_p := s, jr_depth := d\<rparr>))"

lemma putsI:
  "(\<And>r. length (jr_dest r) = n \<Longrightarrow> jr_syntax (g r) = jr_syntax r \<and> jr_path (g r) = jr_path r \<and> length (jr_dest (g r)) = n) \<Longrightarrow>
   (\<And>r s d. length (jr_dest r) = n \<Longrightarrow> g (r\<lparr>jr_p := s, jr_depth := d\<rparr>) = (g r)\<lparr>jr_p := s, jr_depth := d\<rparr>) \<Longrightarrow> puts n g"
  by (simp add: puts_def)

lemma putsD:
  assumes "puts n g" "length (jr_dest r) = n"
  shows "jr_syntax (g r) = jr_syntax r" "jr_path (g r) = jr_path r" "length (jr_dest (g r)) = n"
    "g (r\<lparr>jr_p := s, jr_depth := d\<rparr>) = (g r)\<lparr>jr_p := s, jr_depth := d\<rparr>"
  using assms by (auto simp: puts_def)

lemma puts_place:
  assumes "puts n g" "length (jr_dest r) = n"
  shows "jr_p (g r) = jr_p r" "jr_depth (g r) = jr_depth r" "g (r\<lparr>jr_p := s\<rparr>) = (g r)\<lparr>jr_p := s\<rparr>"
    "g (r\<lparr>jr_depth := d\<rparr>) = (g r)\<lparr>jr_depth := d\<rparr>"
proof -
  have r: "g r = (g r)\<lparr>jr_p := jr_p r, jr_depth := jr_depth r\<rparr>"
    using putsD(4) [OF assms, where s = "jr_p r" and d = "jr_depth r"] by simp
  show p: "jr_p (g r) = jr_p r" by (subst r) simp
  show d: "jr_depth (g r) = jr_depth r" by (subst r) simp
  show "g (r\<lparr>jr_p := s\<rparr>) = (g r)\<lparr>jr_p := s\<rparr>" using putsD(4) [OF assms, where s = s and d = "jr_depth r"] d by simp
  show "g (r\<lparr>jr_depth := d\<rparr>) = (g r)\<lparr>jr_depth := d\<rparr>" using putsD(4) [OF assms, where s = "jr_p r" and d = d] p by simp
qed

lemma puts_id [simp]: "puts n (\<lambda>r. r)"
  by (simp add: puts_def)

lemma puts_comp: "puts n g \<Longrightarrow> puts n h \<Longrightarrow> puts n (\<lambda>r. h (g r))"
  by (simp add: puts_def)

lemma puts_if: "(b \<Longrightarrow> puts n g) \<Longrightarrow> (\<not> b \<Longrightarrow> puts n h) \<Longrightarrow> puts n (\<lambda>r. if b then g r else h r)"
  by (cases b) simp_all

lemma puts_fold: "(\<And>x. x \<in> set xs \<Longrightarrow> puts n (f x)) \<Longrightarrow> puts n (fold f xs)"
proof (induction xs)
  case Nil
  then show ?case by (simp add: puts_def)
next
  case (Cons x xs)
  then show ?case using puts_comp [of n "f x" "fold f xs"] by (simp add: comp_def)
qed

lemma puts_report [simp]: "puts n (report code)"
  by (simp add: puts_def report_def)

lemma puts_store [simp]: "a + length bs \<le> n \<Longrightarrow> puts n (store_bytes (Some a) bs)"
  by (simp add: puts_def store_bytes_def length_blit)

lemma puts_slot: "k = length bs \<Longrightarrow> puts n (\<lambda>r. store_bytes (slot r base off k) bs r)"
  by (auto simp: puts_def store_bytes_def slot_def length_blit)

lemma puts_flag [simp]: "puts n (set_flag base off)"
  unfolding set_flag_def [abs_def] by (rule puts_slot) (simp add: SIZEOF_BOOL_def)

lemma path_at_place [simp]:
  "path_push_bytes b (r\<lparr>jr_p := s, jr_depth := d\<rparr>) = (path_push_bytes b r)\<lparr>jr_p := s, jr_depth := d\<rparr>"
  "path_push_index i (r\<lparr>jr_p := s, jr_depth := d\<rparr>) = (path_push_index i r)\<lparr>jr_p := s, jr_depth := d\<rparr>"
  "path_pop k (r\<lparr>jr_p := s, jr_depth := d\<rparr>) = (path_pop k r)\<lparr>jr_p := s, jr_depth := d\<rparr>"
  by (simp_all add: path_push_bytes_def path_push_index_def path_pop_def split: option.split)

lemma path_fields [simp]:
  "jr_syntax (path_push_bytes b r) = jr_syntax r" "jr_dest (path_push_bytes b r) = jr_dest r"
  "jr_p (path_push_bytes b r) = jr_p r" "jr_depth (path_push_bytes b r) = jr_depth r"
  "jr_syntax (path_push_index i r) = jr_syntax r" "jr_dest (path_push_index i r) = jr_dest r"
  "jr_p (path_push_index i r) = jr_p r" "jr_depth (path_push_index i r) = jr_depth r"
  "jr_syntax (path_pop k r) = jr_syntax r" "jr_dest (path_pop k r) = jr_dest r"
  "jr_p (path_pop k r) = jr_p r" "jr_depth (path_pop k r) = jr_depth r" "jr_path (path_pop k r) = take k (jr_path r)"
  by (simp_all add: path_push_bytes_def path_push_index_def path_pop_def split: option.split)

lemma path_pushed [simp]:
  "take (length (jr_path r)) (jr_path (path_push_bytes b r)) = jr_path r"
  "take (length (jr_path r)) (jr_path (path_push_index i r)) = jr_path r"
  by (simp_all add: path_push_bytes_def path_push_index_def split: option.split)

lemma puts_below:
  assumes "puts n g" "push = path_push_bytes b \<or> push = path_push_index i \<or> push = (\<lambda>r. r)"
  shows "puts n (\<lambda>r. path_pop (length (jr_path r)) (g (push r)))"
proof (rule putsI)
  fix r :: reader assume "length (jr_dest r) = n"
  with assms(2) have "length (jr_dest (push r)) = n" by auto
  note g = putsD [OF assms(1) this]
  show "jr_syntax (path_pop (length (jr_path r)) (g (push r))) = jr_syntax r \<and>
      jr_path (path_pop (length (jr_path r)) (g (push r))) = jr_path r \<and>
      length (jr_dest (path_pop (length (jr_path r)) (g (push r)))) = n"
    using assms(2) g(1,2,3) by auto
  fix s d
  have "push (r\<lparr>jr_p := s, jr_depth := d\<rparr>) = (push r)\<lparr>jr_p := s, jr_depth := d\<rparr>" using assms(2) by auto
  then show "path_pop (length (jr_path (r\<lparr>jr_p := s, jr_depth := d\<rparr>))) (g (push (r\<lparr>jr_p := s, jr_depth := d\<rparr>))) =
      (path_pop (length (jr_path r)) (g (push r)))\<lparr>jr_p := s, jr_depth := d\<rparr>"
    by (simp add: g(4))
qed

lemma puts_merge: "puts n g \<Longrightarrow> puts n (\<lambda>r. merge_oneof f r (g r))"
proof (rule putsI)
  assume p: "puts n g"
  fix r :: reader assume r: "length (jr_dest r) = n"
  note g = putsD [OF p r]
  show "jr_syntax (merge_oneof f r (g r)) = jr_syntax r \<and> jr_path (merge_oneof f r (g r)) = jr_path r \<and>
      length (jr_dest (merge_oneof f r (g r))) = n"
    using g by (simp add: merge_oneof_def report_def)
  fix s d
  show "merge_oneof f (r\<lparr>jr_p := s, jr_depth := d\<rparr>) (g (r\<lparr>jr_p := s, jr_depth := d\<rparr>)) =
      (merge_oneof f r (g r))\<lparr>jr_p := s, jr_depth := d\<rparr>"
    unfolding g(4) by (auto simp: merge_oneof_def report_def failed_def)
qed

lemma puts_finish [simp]: "puts n (finish_array count lo hi off base)"
proof -
  have s: "puts n (\<lambda>r. store_bytes (slot r base off SIZEOF_SIZE_T) (put_le SIZEOF_SIZE_T (min count hi)) r)"
    by (rule puts_slot) simp
  show ?thesis
    unfolding finish_array_def [abs_def] Let_def
    by (rule puts_comp [OF puts_if [OF puts_report puts_id] s])
qed

lemma puts_missing [simp]: "puts n (put_missing seen jf)"
proof (cases jf)
  case (Pair i f)
  show ?thesis
    unfolding put_missing_def [abs_def] Pair prod.case
    by (intro puts_if puts_id puts_below [OF puts_report, where push = "path_push_bytes (wf_name f)"]) blast
qed

lemma puts_string: "a + sz \<le> n \<Longrightarrow> 0 < sz \<Longrightarrow> puts n (put_string xs sz lo hi vs p a)"
  unfolding put_string_def [abs_def] Let_def
  by (intro puts_if puts_comp [OF puts_report puts_store] puts_store) auto

lemma puts_number: "a + SIZEOF_INT64 \<le> n \<Longrightarrow> puts n (put_number kind v lo hi a)"
  unfolding put_number_def [abs_def] by (intro puts_if puts_report puts_store) (auto simp: int64_bytes_def SIZEOF_INT64_def)

text \<open>Objects and arrays put their parts.\<close>

lemma puts_member:
  assumes "\<And>f. f \<in> set fs \<Longrightarrow> puts n (put f base)"
  shows "puts n (put_member fs base (xs, put))"
proof -
  let ?push = "\<lambda>r. if NAME_MAX < length (decoded xs) then r else path_push_bytes (decoded xs) r"
  let ?put = "\<lambda>r. case field_of fs xs of None \<Rightarrow> report API_FIELD_UNKNOWN r
      | Some i \<Rightarrow> let f = fs ! i; r2 = (if has_flag f WEB_JSON_PRESENT then set_flag base (wf_present_offset f) r else r)
                  in merge_oneof f r2 (put f base r2)"
  have "puts n ?put"
  proof (cases "field_of fs xs")
    case (Some i)
    then have "fs ! i \<in> set fs" by (auto simp: field_of_def find_index_Some split: if_splits)
    from puts_merge [OF assms [OF this]] have m: "puts n (\<lambda>r. merge_oneof (fs ! i) r (put (fs ! i) base r))" by simp
    show ?thesis
      unfolding Some option.case Let_def by (rule puts_comp [OF puts_if [OF puts_flag puts_id] m])
  qed simp
  moreover have "?push = path_push_bytes (decoded xs) \<or> ?push = path_push_index i \<or> ?push = (\<lambda>r. r)" for i
    by (cases "NAME_MAX < length (decoded xs)") simp_all
  ultimately have "puts n (\<lambda>r. path_pop (length (jr_path r)) (?put (?push r)))" by (rule puts_below)
  moreover have "put_member fs base (xs, put) = (\<lambda>r. path_pop (length (jr_path r)) (?put (?push r)))"
    by (simp add: fun_eq_iff put_member_def Let_def)
  ultimately show ?thesis by simp
qed

lemma puts_object:
  assumes "\<And>m f. m \<in> set ms \<Longrightarrow> f \<in> set fs \<Longrightarrow> puts n (snd m f base)"
  shows "puts n (put_object fs base ms)"
  unfolding put_object_def [abs_def]
proof (rule puts_comp [OF puts_fold puts_fold])
  fix m assume "m \<in> set ms"
  with assms puts_member [of fs n "snd m" base "fst m"] show "puts n (put_member fs base m)" by simp
qed simp

lemma puts_array:
  assumes "\<And>put i. put \<in> set es \<Longrightarrow> i < hi \<Longrightarrow> puts n (put item (base + offset + i * sz))"
  shows "puts n (put_array item sz lo hi count_offset offset base es)"
  unfolding put_array_def [abs_def]
proof (rule puts_comp [OF puts_fold puts_finish])
  fix e assume "e \<in> set (List.enumerate 0 es)"
  then have e: "snd e \<in> set es" using nth_mem [of "fst e" es] by (simp add: in_set_enumerate_eq)
  obtain i put where ie: "e = (i, put)" by (rule prod.exhaust)
  show "puts n (put_element item sz hi (base + offset) e)"
  proof (cases "i < hi")
    case True
    then show ?thesis
      using puts_below [OF puts_merge [OF assms [of put i]], of "path_push_index i" "[]" i item] e
      by (simp add: put_element_def [abs_def] ie Let_def)
  qed (simp add: put_element_def [abs_def] ie)
qed

text \<open>The parts of a field that fits.\<close>

lemma fits_simps:
  "wf_type f = WEB_JSON_OBJECT fs \<Longrightarrow> field_fits n base f \<longleftrightarrow>
     length fs \<le> 64 \<and> list_all (field_fits n (base + wf_offset f)) fs"
  "wf_type f = WEB_JSON_ARRAY item sz lo hi count_offset \<Longrightarrow> field_fits n base f \<longleftrightarrow>
     base + wf_offset f + sz * hi \<le> n \<and> (\<forall>i < hi. field_fits n (base + wf_offset f + i * sz) item)"
  "wf_type f = WEB_JSON_STRING sz slo shi vs p \<Longrightarrow> field_fits n base f \<longleftrightarrow> 0 < sz \<and> base + wf_offset f + sz \<le> n"
  "wf_type f = WEB_JSON_BOOL \<Longrightarrow> field_fits n base f \<longleftrightarrow> base + wf_offset f + SIZEOF_BOOL \<le> n"
  "wf_type f = WEB_JSON_INT ilo ihi \<Longrightarrow> field_fits n base f \<longleftrightarrow> base + wf_offset f + SIZEOF_INT64 \<le> n"
  by (cases f; auto simp: list_all_iff)+

lemma puts_value: "field_fits n base f \<Longrightarrow> puts n (put_value j f base)"
proof (induction j arbitrary: f base)
  case JNull
  show ?case by (simp add: puts_if)
next
  case (JBool b)
  then show ?case using fits_simps(4) [of f n base] by (cases "wf_type f") (auto simp: SIZEOF_BOOL_def)
next
  case (JNumber kind v)
  then show ?case using fits_simps(5) [of f _ _ n base] by (cases "wf_type f") (auto intro: puts_number)
next
  case (JString xs)
  then show ?case using fits_simps(3) [of f _ _ _ _ _ n base] by (cases "wf_type f") (auto intro: puts_string)
next
  case (JArray js)
  show ?case
  proof (cases "wf_type f")
    case (WEB_JSON_ARRAY item sz lo hi count_offset)
    with JArray show ?thesis using fits_simps(2) [OF WEB_JSON_ARRAY, of n base] by (auto intro!: puts_array)
  qed simp_all
next
  case (JObject ms)
  show ?case
  proof (cases "wf_type f")
    case (WEB_JSON_OBJECT fs)
    with JObject show ?thesis
      using fits_simps(1) [OF WEB_JSON_OBJECT, of n base] by (fastforce intro!: puts_object simp: list_all_iff)
  qed simp_all
qed

section \<open>Reading what was spelled\<close>

lemma cstr_app: "0 \<notin> set s \<Longrightarrow> cstr (s @ 0 # t) = s"
  unfolding cstr_def by (subst takeWhile_append2) auto

lemma simple_escape_nonzero: "simple_escape c = Some b \<Longrightarrow> b \<noteq> 0"
  by (auto simp: simple_escape_def split: if_splits)

lemma bytes_nonzero: "list_all (\<lambda>m. 0 < m \<and> m < 256) ms \<Longrightarrow> (0 :: byte) \<notin> set (map of_nat ms)"
proof (induction ms)
  case (Cons m ms)
  then have "unat (of_nat m :: byte) \<noteq> 0" using unat_of_nat_small [of m, where 'a = 8] by simp
  then have "(of_nat m :: byte) \<noteq> 0" by (metis unat_0)
  with Cons show ?case by simp
qed simp

lemma utf8_of_nonzero:
  assumes "n \<le> 0x10FFFF" "n \<noteq> 0"
  shows "0 \<notin> set (utf8_of n)"
proof -
  have t: "0x80 + k mod 64 < 256" for k :: nat using mod_less_divisor [of 64 k] by linarith
  have h: "n < 0x800 \<Longrightarrow> 0xC0 + n div 64 < 256" "n < 0x10000 \<Longrightarrow> 0xE0 + n div 4096 < 256" "0xF0 + n div 262144 < 256"
    using assms(1) by (auto simp: div_less_iff_less_mult add.commute less_diff_conv [symmetric])
  show ?thesis
    using bytes_nonzero [of "[n]"] bytes_nonzero [of "[0xC0 + n div 64, 0x80 + n mod 64]"]
      bytes_nonzero [of "[0xE0 + n div 4096, 0x80 + n div 64 mod 64, 0x80 + n mod 64]"]
      bytes_nonzero [of "[0xF0 + n div 262144, 0x80 + n div 4096 mod 64, 0x80 + n div 64 mod 64, 0x80 + n mod 64]"]
      assms(2) t h
    unfolding utf8_of_def by (simp only: list.map list.pred_inject split: if_split) simp
qed

lemma decoded_nonzero: "string_chars w xs \<Longrightarrow> 0 \<notin> set (decoded xs)"
proof (induction rule: string_chars.induct)
  case (chars_utf8 n s xs)
  then show ?case using utf8_of_nonzero [of n] by (simp add: scalar_value_def)
next
  case (chars_unicode h n s xs)
  then show ?case using utf8_of_nonzero [of n] by (simp add: scalar_value_def)
next
  case (chars_pair h hi l lo s xs)
  then have "0x10000 + (hi - 0xD800) * 1024 + (lo - 0xDC00) \<le> 0x10FFFF"
    unfolding high_surrogate_def low_surrogate_def by linarith
  with chars_pair show ?case using utf8_of_nonzero by simp
qed (use simple_escape_nonzero in \<open>auto simp: word_le_nat_alt\<close>)

lemma store_twice:
  "a + length bs \<le> length (jr_dest r) \<Longrightarrow> length cs \<le> length bs \<Longrightarrow>
   store_bytes (Some a) bs (store_bytes (Some a) cs r) = store_bytes (Some a) bs r"
  by (simp add: store_bytes_def blit_def add.commute [of a "length bs"])

lemma store_report: "store_bytes p bs (report code r) = report code (store_bytes p bs r)"
  by (simp add: store_bytes_def report_def split: option.split)

lemma read_string_field_tree:
  assumes w: "string_chars w xs" and p: "jr_p r = 0x22 # w @ s" and ok: "\<not> failed r"
    and fit: "0 < n" "base + offset + n \<le> length (jr_dest r)"
  shows "read_string_field n lo hi vs q offset base r = put_string xs n lo hi vs q (base + offset) (r\<lparr>jr_p := s\<rparr>)"
proof -
  let ?a = "base + offset" and ?r = "r\<lparr>jr_p := s\<rparr>"
  define t where "t = fold put_item xs (fresh_text True n)"
  note i = read_items [OF w t_def]
  have dst: "slot r base offset n = Some ?a" using fit by (simp add: slot_def)
  have rs: "read_string (fresh_text True n) r = (?r, t)" unfolding t_def by (rule read_string_complete [OF w p])
  obtain u where u: "tx_text t = Some u" using i(7) by auto
  have c: "tx_overflow t = (decoded xs \<noteq> [] \<and> n \<le> length (decoded xs))" "\<not> tx_overflow t \<Longrightarrow> u = decoded xs"
    "u \<noteq> [] \<Longrightarrow> length u < n"
    using i(1) unfolding collects_def u option.case i(2) by blast+
  have over: "tx_overflow t \<longleftrightarrow> n \<le> length (decoded xs)" using c(1) fit(1) by (cases "decoded xs") simp_all
  have held: "\<not> tx_overflow t \<Longrightarrow> u = decoded xs" "length u < n"
    using c(2,3) fit(1) by (cases "u = []"; simp)+
  define r2 where "r2 = store_text (Some ?a) t ?r"
  have r2: "r2 = store_bytes (Some ?a) (u @ [0]) ?r" using u i(2) fit(1) by (simp add: r2_def store_text_def)
  have f2: "\<not> failed r2" using ok by (simp add: r2 failed_def store_bytes_def)
  have rej: "store_bytes (Some ?a) (replicate n 0) (report code r2) = store_bytes (Some ?a) (replicate n 0) (report code ?r)" for code
    using store_twice [of ?a "replicate n 0" ?r "u @ [0]"] fit held(2) by (simp add: r2 store_report)
  have "cstr (drop ?a (jr_dest r2)) = decoded xs" if "\<not> tx_overflow t"
  proof -
    have "drop ?a (jr_dest r2) = u @ 0 # drop (?a + length (u @ [0])) (jr_dest r)"
      using fit by (simp add: r2 store_bytes_def blit_def)
    then show ?thesis using cstr_app decoded_nonzero [OF w] held(1) [OF that] by simp
  qed
  then have text_at: "cstr (drop ?a (jr_dest r2)) = decoded xs" if "\<not> n \<le> length (decoded xs)" using that over by simp
  have good: "store_bytes (Some ?a) (decoded xs @ [0]) ?r = r2" if "\<not> n \<le> length (decoded xs)" using that over held(1) r2 by simp
  have field: "read_string_field n lo hi vs q offset base r =
      (if n \<le> length (decoded xs) \<or> 0 < hi \<and> hi < length xs then store_bytes (Some ?a) (replicate n 0) (report API_FIELD_TOO_LONG r2)
       else if length xs < lo then store_bytes (Some ?a) (replicate n 0) (report API_FIELD_OUT_OF_RANGE r2)
       else if None \<in> set xs \<or> (case q of None \<Rightarrow> False | Some p \<Rightarrow> \<not> p (cstr (drop ?a (jr_dest r2))))
       then store_bytes (Some ?a) (replicate n 0) (report API_FIELD_INVALID_FORMAT r2)
       else if (case vs of None \<Rightarrow> False | Some l \<Rightarrow> \<not> in_enum l (cstr (drop ?a (jr_dest r2))))
       then store_bytes (Some ?a) (replicate n 0) (report API_FIELD_NOT_ALLOWED r2) else r2)"
    using ok f2 over i(3,4) unfolding read_string_field_def Let_def dst
    by (simp add: rs r2_def [symmetric] cong: option.case_cong if_cong)
  show ?thesis
    unfolding field rej put_string_def Let_def
  proof (rule if_cong [OF refl refl], rule if_cong [OF refl refl])
    assume "\<not> (n \<le> length (decoded xs) \<or> 0 < hi \<and> hi < length xs)"
    then have n: "\<not> n \<le> length (decoded xs)" by simp
    show "(if None \<in> set xs \<or> (case q of None \<Rightarrow> False | Some p \<Rightarrow> \<not> p (cstr (drop ?a (jr_dest r2))))
        then store_bytes (Some ?a) (replicate n 0) (report API_FIELD_INVALID_FORMAT ?r)
        else if (case vs of None \<Rightarrow> False | Some l \<Rightarrow> \<not> in_enum l (cstr (drop ?a (jr_dest r2))))
        then store_bytes (Some ?a) (replicate n 0) (report API_FIELD_NOT_ALLOWED ?r) else r2) =
       (if None \<in> set xs \<or> (\<exists>p. q = Some p \<and> \<not> p (decoded xs))
        then store_bytes (Some ?a) (replicate n 0) (report API_FIELD_INVALID_FORMAT ?r)
        else if \<exists>l. vs = Some l \<and> decoded xs \<notin> set l
        then store_bytes (Some ?a) (replicate n 0) (report API_FIELD_NOT_ALLOWED ?r)
        else store_bytes (Some ?a) (decoded xs @ [0]) ?r)"
      unfolding text_at [OF n] good [OF n] by (cases q; cases vs) (simp_all add: in_enum_def)
  qed
qed

lemma read_null_tree:
  "jr_p r = bytes_of ''null'' @ s \<Longrightarrow> read_null f base r = put_value JNull f base (r\<lparr>jr_p := s\<rparr>)"
  using read_literal_complete [of r "''null''" s] by (simp add: read_null_def)

lemma read_bool_tree:
  assumes "jr_p r = bytes_of (if b then ''true'' else ''false'') @ s" "base + offset + SIZEOF_BOOL \<le> length (jr_dest r)"
  shows "read_bool offset base r = store_bytes (Some (base + offset)) [if b then 1 else 0] (r\<lparr>jr_p := s\<rparr>)"
proof -
  have "jr_peek 0x74 r = b" using assms(1) by (simp add: jr_peek_def bytes_of_def)
  then show ?thesis
    using read_literal_complete [OF assms(1)] assms(2) by (simp add: read_bool_def slot_def)
qed

lemma read_int_tree:
  assumes "number_text w" "number_meaning w = (kind, v)" "ends_number s" "jr_p r = w @ s" "\<not> failed r"
    "base + offset + SIZEOF_INT64 \<le> length (jr_dest r)"
  shows "read_int lo hi offset base r = put_number kind v lo hi (base + offset) (r\<lparr>jr_p := s\<rparr>)"
  using read_number_complete [OF assms(1,3,4)] assms(2,5,6) by (simp add: read_int_def put_number_def slot_def)

end
