(* ===== verification/Json_Tree_Loops.thy ===== *)
theory Json_Tree_Loops
  imports Json_Tree
begin

text \<open>
  Reading the text of a value does what the reference decoder does with its tree: the contract \<open>tree_reader\<close>, the
  loops under it, and the induction over the levels of nesting.
\<close>

lemma path_push_p [simp]:
  "path_push_bytes b (r\<lparr>jr_p := s\<rparr>) = (path_push_bytes b r)\<lparr>jr_p := s\<rparr>"
  "path_push_index i (r\<lparr>jr_p := s\<rparr>) = (path_push_index i r)\<lparr>jr_p := s\<rparr>"
  "path_pop k (r\<lparr>jr_p := s\<rparr>) = (path_pop k r)\<lparr>jr_p := s\<rparr>"
  by (simp_all add: path_push_bytes_def path_push_index_def path_pop_def split: option.split)

lemma path_push_failed [simp]:
  "failed (path_push_bytes b r) = failed r" "failed (path_push_index i r) = failed r" "failed (path_pop k r) = failed r"
  by (simp_all add: failed_def)

lemma merge_p: "merge_oneof f (r\<lparr>jr_p := s\<rparr>) x = merge_oneof f r x"
  by (auto simp: merge_oneof_def)

text \<open>What the name of a member says.\<close>

lemma name_text_facts:
  assumes "string_chars w xs"
  shows "tx_overflow (name_text xs) \<longleftrightarrow> NAME_MAX < length (decoded xs)"
    "\<not> tx_overflow (name_text xs) \<Longrightarrow> tx_text (name_text xs) = Some (decoded xs)" "tx_bad (name_text xs) \<longleftrightarrow> None \<in> set xs"
proof -
  note i = read_items [OF assms refl, of True "NAME_MAX + 1", folded name_text_def]
  obtain u where u: "tx_text (name_text xs) = Some u" using i(7) by auto
  have c: "tx_overflow (name_text xs) = (decoded xs \<noteq> [] \<and> NAME_MAX + 1 \<le> length (decoded xs))"
    "\<not> tx_overflow (name_text xs) \<Longrightarrow> u = decoded xs"
    using i(1) unfolding collects_def u option.case i(2) by blast+
  show "tx_overflow (name_text xs) \<longleftrightarrow> NAME_MAX < length (decoded xs)" using c(1) by (cases "decoded xs") auto
  show "\<not> tx_overflow (name_text xs) \<Longrightarrow> tx_text (name_text xs) = Some (decoded xs)" using c(2) u by simp
  show "tx_bad (name_text xs) \<longleftrightarrow> None \<in> set xs" by (rule i(4))
qed

definition pushed :: "item list \<Rightarrow> reader \<Rightarrow> reader" where
  "pushed xs r = (if NAME_MAX < length (decoded xs) then r else path_push_bytes (decoded xs) r)"

lemma pushed_facts [simp]:
  "jr_p (pushed xs r) = jr_p r" "jr_depth (pushed xs r) = jr_depth r" "jr_dest (pushed xs r) = jr_dest r"
  "jr_syntax (pushed xs r) = jr_syntax r"
  "failed (pushed xs r) = failed r" "pushed xs (r\<lparr>jr_p := s\<rparr>) = (pushed xs r)\<lparr>jr_p := s\<rparr>"
  by (simp_all add: pushed_def)

lemma name_pushed: "string_chars w xs \<Longrightarrow> push_member_name (name_text xs) r = pushed xs r"
  using name_text_facts [of w xs] by (auto simp: push_member_name_def pushed_def split: option.split)

lemma name_field: "string_chars w xs \<Longrightarrow> (if tx_bad (name_text xs) then None else find_field fs (name_text xs)) = field_of fs xs"
  using name_text_facts [of w xs] by (auto simp: find_field_def field_of_def split: option.split)

lemma field_of_fits: "list_all P fs \<Longrightarrow> field_of fs xs = Some i \<Longrightarrow> P (fs ! i)"
  by (auto simp: field_of_def list_all_length find_index_Some split: if_splits)

text \<open>The members seen, as the code keeps them.\<close>

definition mark :: "web_json_field list \<Rightarrow> item list \<times> 'a \<Rightarrow> u64 \<Rightarrow> u64" where
  "mark fs m seen = (case field_of fs (fst m) of None \<Rightarrow> seen | Some i \<Rightarrow> seen OR bit64 i)"

abbreviation putters :: "(item list \<times> json) list \<Rightarrow> (item list \<times> putter) list" where
  "putters \<equiv> map (map_prod id put_value)"

locale tree_reader =
  fixes d n :: nat and value_at :: value_reader and skip_at :: "reader \<Rightarrow> reader option"
  assumes reads: "jr_depth r + d = WEB_JSON_MAX_DEPTH \<Longrightarrow> \<not> failed r \<Longrightarrow> length (jr_dest r) = n \<Longrightarrow> field_fits n base f \<Longrightarrow>
      spells d j w \<Longrightarrow> ends_number s \<Longrightarrow> dropWhile is_ws (jr_p r) = w @ s \<Longrightarrow>
      value_at f base r = Some (put_value j f base (r\<lparr>jr_p := s\<rparr>))"
    and skips: "jr_depth r + d = WEB_JSON_MAX_DEPTH \<Longrightarrow> \<not> failed r \<Longrightarrow> spells d j w \<Longrightarrow> ends_number s \<Longrightarrow>
      dropWhile is_ws (jr_p r) = w @ s \<Longrightarrow> skip_at r = Some (r\<lparr>jr_p := s\<rparr>)"
begin

lemma member_value:
  assumes "jr_depth r + d = WEB_JSON_MAX_DEPTH" "\<not> failed r" "length (jr_dest r) = n" "list_all (field_fits n base) fs"
    "string_chars u xs" "spells d j w" "ends_number s" "dropWhile is_ws (jr_p r) = w @ s"
  shows "map_option (\<lambda>(r', seen'). (path_pop (length (jr_path r)) r', seen'))
      (read_member_value value_at skip_at fs base (name_text xs) seen (pushed xs r)) =
    Some (put_member fs base (xs, put_value j) (r\<lparr>jr_p := s\<rparr>), mark fs (xs, j) seen)"
proof (cases "field_of fs xs")
  case None
  have "skip_at (pushed xs r) = Some ((pushed xs r)\<lparr>jr_p := s\<rparr>)" by (rule skips [OF _ _ assms(6,7)]) (use assms in simp_all)
  then show ?thesis
    unfolding read_member_value_def name_field [OF assms(5)] None
    using assms(2) None by (simp add: put_member_def pushed_def mark_def Let_def)
next
  case (Some i)
  let ?f = "fs ! i"
  define r1 where "r1 = (if has_flag ?f WEB_JSON_PRESENT then set_flag base (wf_present_offset ?f) (pushed xs r) else pushed xs r)"
  have p: "puts n (\<lambda>r. if has_flag ?f WEB_JSON_PRESENT then set_flag base (wf_present_offset ?f) r else r)"
    by (rule puts_if) simp_all
  have pl: "length (jr_dest (pushed xs r)) = n" using assms(3) by simp
  have r1: "jr_p r1 = jr_p r" "jr_depth r1 = jr_depth r" "\<not> failed r1" "length (jr_dest r1) = n"
    "(if has_flag ?f WEB_JSON_PRESENT then set_flag base (wf_present_offset ?f) ((pushed xs r)\<lparr>jr_p := s\<rparr>)
      else (pushed xs r)\<lparr>jr_p := s\<rparr>) = r1\<lparr>jr_p := s\<rparr>"
    using puts_place(1,2) [OF p pl] puts_place(3) [OF p pl, of s] putsD(1,3) [OF p pl] assms(2) by (simp_all add: r1_def failed_def)
  have "value_at ?f base r1 = Some (put_value j ?f base (r1\<lparr>jr_p := s\<rparr>))"
    by (rule reads [OF _ r1(3,4) field_of_fits [OF assms(4) Some] assms(6,7)]) (use assms r1 in simp_all)
  moreover have "merge_oneof ?f r1 x = merge_oneof ?f (r1\<lparr>jr_p := s\<rparr>) x" for x by (simp only: merge_p)
  ultimately show ?thesis
    unfolding read_member_value_def name_field [OF assms(5)] Some
    using r1(5) by (simp add: r1_def [symmetric] Let_def read_field_value_def put_member_def Some mark_def pushed_def [symmetric])
qed

lemma members_read:
  "spells_members d ms w \<Longrightarrow> jr_depth r + d = WEB_JSON_MAX_DEPTH \<Longrightarrow> \<not> failed r \<Longrightarrow> length (jr_dest r) = n \<Longrightarrow>
   list_all (field_fits n base) fs \<Longrightarrow> jr_p r = w @ s \<Longrightarrow> length ms \<le> k \<Longrightarrow> distinct (m @ map key_of ms) \<Longrightarrow>
   length m + length ms \<le> MAX_MEMBERS \<Longrightarrow>
   read_members value_at skip_at k fs base m seen r =
     Some (fold (put_member fs base) (putters ms) (r\<lparr>jr_p := s\<rparr>), fold (mark fs) ms seen)"
proof (induction ms arbitrary: w m k r seen)
  case Nil
  then show ?case by (auto elim: spells_members_elim)
next
  case (Cons x ms)
  obtain k' where k: "k = Suc k'" using Cons.prems(7) by (cases k) simp_all
  from Cons.prems(1) obtain a t xs b c j v e u where
    x: "x = (xs, j)" and w: "w = a @ 0x22 # t @ b @ 0x3A # c @ v @ e @ u"
    and h: "blank a" "string_chars t xs" "blank b" "blank c" "spells d j v" "blank e"
    and u: "u = [0x7D] \<and> ms = [] \<or> (\<exists>w'. u = 0x2C # w' \<and> spells_members d ms w')"
    by (cases rule: spells_members.cases) auto
  let ?r1 = "r\<lparr>jr_p := c @ v @ e @ u @ s\<rparr>" and ?p = "put_member fs base (xs, put_value j)"
  have name: "member_name m r = Inr (name_text xs, m @ [name_key xs], ?r1)"
    by (rule member_name_complete [OF Cons.prems(3) _ h(1,2,3)]) (use Cons.prems x w in auto)
  have en: "ends_number (e @ u @ s)" using u ends_number_after [OF h(6)] by auto
  have fits: "f \<in> set fs \<Longrightarrow> field_fits n base f" for f using Cons.prems(5) by (simp add: list_all_iff)
  have pp: "puts n ?p" by (rule puts_member) (rule puts_value [OF fits])
  let ?r3 = "(?p r)\<lparr>jr_p := e @ u @ s\<rparr>"
  note place = puts_place(1,2) [OF pp Cons.prems(4)] puts_place(3) [OF pp Cons.prems(4)] putsD(1,3) [OF pp Cons.prems(4)]
  have v: "map_option (\<lambda>(r', seen'). (path_pop (length (jr_path ?r1)) r', seen'))
      (read_member_value value_at skip_at fs base (name_text xs) seen (pushed xs ?r1)) =
      Some (put_member fs base (xs, put_value j) (?r1\<lparr>jr_p := e @ u @ s\<rparr>), mark fs (xs, j) seen)"
    by (rule member_value [OF _ _ _ Cons.prems(5) h(2,5) en]) (use Cons.prems drop_blank_value [OF h(4,5)] in simp_all)
  then obtain r2 where r2: "read_member_value value_at skip_at fs base (name_text xs) seen (pushed xs ?r1) = Some (r2, mark fs (xs, j) seen)"
    "path_pop (length (jr_path ?r1)) r2 = ?r3"
    using place(3) by auto
  have f3: "\<not> failed ?r3" using place(4) Cons.prems(3) by (simp add: failed_def)
  have round: "read_members value_at skip_at k fs base m seen r =
      (case next_member ?r3 of
         (True, r4) \<Rightarrow> read_members value_at skip_at k' fs base (m @ [name_key xs]) (mark fs (xs, j) seen) r4
       | (False, r4) \<Rightarrow> Some (r4, mark fs (xs, j) seen))"
    using name r2 f3 path_push_failed(3) [of "length (jr_path ?r1)" r2] by (simp add: k name_pushed [OF h(2)] Let_def)
  show ?case
  proof (cases "u = [0x7D] \<and> ms = []")
    case True
    then have "next_member ?r3 = (False, ?r3\<lparr>jr_p := s\<rparr>)"
      using next_item_complete(2) [OF h(6), of "0x7D" ?r3 s] by simp
    then show ?thesis unfolding round using True x place(3) by simp
  next
    case False
    with u obtain w' where w': "u = 0x2C # w'" "spells_members d ms w'" by blast
    then have nx: "next_member ?r3 = (True, ?r3\<lparr>jr_p := w' @ s\<rparr>)"
      using next_item_complete(1) [OF h(6), of "0x7D" ?r3 "w' @ s"] by simp
    have "read_members value_at skip_at k' fs base (m @ [name_key xs]) (mark fs (xs, j) seen) (?r3\<lparr>jr_p := w' @ s\<rparr>) =
        Some (fold (put_member fs base) (putters ms) (?r3\<lparr>jr_p := w' @ s, jr_p := s\<rparr>), fold (mark fs) ms (mark fs (xs, j) seen))"
      by (rule Cons.IH [OF w'(2)]) (use Cons.prems k x place f3 in \<open>auto simp: failed_def\<close>)
    then show ?thesis unfolding round nx using x place(3) by (simp add: id_def)
  qed
qed

lemma element_value:
  assumes "jr_depth r + d = WEB_JSON_MAX_DEPTH" "\<not> failed r" "length (jr_dest r) = n"
    "i < hi \<Longrightarrow> field_fits n (a + i * sz) item" "spells d j w" "ends_number s" "dropWhile is_ws (jr_p r) = w @ s"
  shows "map_option (path_pop (length (jr_path r)))
      (read_element_value value_at skip_at item sz hi (Some a) i (path_push_index i r)) =
    Some (put_element item sz hi a (i, put_value j) (r\<lparr>jr_p := s\<rparr>))"
proof (cases "i < hi")
  case True
  let ?r = "path_push_index i r"
  have "value_at item (a + i * sz) ?r = Some (put_value j item (a + i * sz) (?r\<lparr>jr_p := s\<rparr>))"
    by (rule reads [OF _ _ _ assms(4) [OF True] assms(5,6)]) (use assms in simp_all)
  moreover have "merge_oneof item ?r x = merge_oneof item (?r\<lparr>jr_p := s\<rparr>) x" for x by (simp only: merge_p)
  ultimately show ?thesis
    using True by (simp add: read_element_value_def read_field_value_def put_element_def Let_def)
next
  case False
  have "skip_at (path_push_index i r) = Some ((path_push_index i r)\<lparr>jr_p := s\<rparr>)"
    by (rule skips [OF _ _ assms(5,6)]) (use assms in simp_all)
  moreover have "path_pop (length (jr_path r)) ((path_push_index i r)\<lparr>jr_p := s\<rparr>) = r\<lparr>jr_p := s\<rparr>"
    by (simp add: path_push_index_def path_push_bytes_def path_pop_def split: option.split)
  ultimately show ?thesis using False by (simp add: read_element_value_def put_element_def)
qed

lemma puts_element: "(i < hi \<Longrightarrow> field_fits n (a + i * sz) item) \<Longrightarrow> puts n (put_element item sz hi a (i, put_value j))"
proof (cases "i < hi")
  case True
  moreover assume "i < hi \<Longrightarrow> field_fits n (a + i * sz) item"
  ultimately have "puts n (put_value j item (a + i * sz))" by (intro puts_value)
  from puts_below [OF puts_merge [OF this], of "path_push_index i" "[]" i item] True show ?thesis
    by (simp add: put_element_def [abs_def] Let_def)
qed (simp add: put_element_def [abs_def])

lemma elements_read:
  "spells_elements d js w \<Longrightarrow> jr_depth r + d = WEB_JSON_MAX_DEPTH \<Longrightarrow> \<not> failed r \<Longrightarrow> length (jr_dest r) = n \<Longrightarrow>
   (\<forall>i < hi. field_fits n (a + i * sz) item) \<Longrightarrow> jr_p r = w @ s \<Longrightarrow> length js \<le> k \<Longrightarrow>
   read_elements value_at skip_at k item sz hi (Some a) i r =
     Some (fold (put_element item sz hi a) (List.enumerate i (map put_value js)) (r\<lparr>jr_p := s\<rparr>), i + length js)"
proof (induction js arbitrary: w k r i)
  case Nil
  then show ?case by (auto elim: spells_elements_elim)
next
  case (Cons j js)
  obtain k' where k: "k = Suc k'" using Cons.prems(7) by (cases k) simp_all
  from Cons.prems(1) obtain b v e u where w: "w = b @ v @ e @ u" and h: "blank b" "spells d j v" "blank e"
    and u: "u = [0x5D] \<and> js = [] \<or> (\<exists>w'. u = 0x2C # w' \<and> spells_elements d js w')"
    by (cases rule: spells_elements.cases) auto
  have en: "ends_number (e @ u @ s)" using u ends_number_after [OF h(3)] by auto
  let ?p = "put_element item sz hi a (i, put_value j)"
  have pp: "puts n ?p" using Cons.prems(5) by (intro puts_element) simp
  note place = puts_place(1,2) [OF pp Cons.prems(4)] puts_place(3) [OF pp Cons.prems(4)] putsD(1,3) [OF pp Cons.prems(4)]
  let ?r2 = "(?p r)\<lparr>jr_p := e @ u @ s\<rparr>"
  have "map_option (path_pop (length (jr_path r)))
      (read_element_value value_at skip_at item sz hi (Some a) i (path_push_index i r)) = Some (?p (r\<lparr>jr_p := e @ u @ s\<rparr>))"
    by (rule element_value [OF Cons.prems(2,3,4) _ h(2) en]) (use Cons.prems(5,6) drop_blank_value [OF h(1,2)] w in simp_all)
  then obtain r1 where r1: "read_element_value value_at skip_at item sz hi (Some a) i (path_push_index i r) = Some r1"
    "path_pop (length (jr_path r)) r1 = ?r2" using place(3) by auto
  have f2: "\<not> failed ?r2" using place(4) Cons.prems(3) by (simp add: failed_def)
  have round: "read_elements value_at skip_at k item sz hi (Some a) i r =
      (case next_element ?r2 of
         (True, r3) \<Rightarrow> read_elements value_at skip_at k' item sz hi (Some a) (i + 1) r3
       | (False, r3) \<Rightarrow> Some (r3, i + 1))"
    using r1 f2 path_push_failed(3) [of "length (jr_path r)" r1] by (simp add: k Let_def)
  show ?case
  proof (cases "u = [0x5D] \<and> js = []")
    case True
    then have "next_element ?r2 = (False, ?r2\<lparr>jr_p := s\<rparr>)"
      using next_item_complete(2) [OF h(3), of "0x5D" ?r2 s] by simp
    then show ?thesis unfolding round using True place(3) by simp
  next
    case False
    with u obtain w' where w': "u = 0x2C # w'" "spells_elements d js w'" by blast
    then have nx: "next_element ?r2 = (True, ?r2\<lparr>jr_p := w' @ s\<rparr>)"
      using next_item_complete(1) [OF h(3), of "0x5D" ?r2 "w' @ s"] by simp
    have "read_elements value_at skip_at k' item sz hi (Some a) (i + 1) (?r2\<lparr>jr_p := w' @ s\<rparr>) =
        Some (fold (put_element item sz hi a) (List.enumerate (i + 1) (map put_value js)) (?r2\<lparr>jr_p := w' @ s, jr_p := s\<rparr>),
          i + 1 + length js)"
      by (rule Cons.IH [OF w'(2)]) (use Cons.prems k place f2 in \<open>auto simp: failed_def\<close>)
    then show ?thesis unfolding round nx using place(3) by simp
  qed
qed

end

section \<open>The set of members seen\<close>

lemma seen_bit: "seen AND bit64 i = 0 \<longleftrightarrow> \<not> bit seen i"
  by (simp add: bit64_def push_bit_eq_mult and_exp_eq_0_iff_not_bit)

lemma mark_bit: "i < 64 \<Longrightarrow> bit (mark fs m seen) i \<longleftrightarrow> bit seen i \<or> field_of fs (fst m) = Some i"
  by (auto simp: mark_def bit64_def bit_simps split: option.split)

lemma marks_bit: "i < 64 \<Longrightarrow> bit (fold (mark fs) ms seen) i \<longleftrightarrow> bit seen i \<or> i \<in> found fs ms"
  by (induction ms arbitrary: seen) (auto simp: mark_bit found_def)

lemma found_putters: "found fs (putters ms) = found fs ms"
  by (force simp: found_def)

lemma required_checked:
  assumes "length fs \<le> 64"
  shows "check_required fs (fold (mark fs) ms 0) r = fold (put_missing (found fs ms)) (List.enumerate 0 fs) r"
  unfolding check_required_def
proof (rule fold_cong [OF refl refl])
  fix e assume "e \<in> set (List.enumerate 0 fs)"
  then have "fst e < length fs" by (simp add: in_set_enumerate_eq)
  then obtain i f where e: "e = (i, f)" "i < length fs" by (metis prod.collapse)
  with assms have "fold (mark fs) ms 0 AND bit64 i = 0 \<longleftrightarrow> i \<notin> found fs ms" by (simp add: seen_bit marks_bit)
  then show "report_missing (fold (mark fs) ms 0) e = put_missing (found fs ms) e"
    by (simp add: fun_eq_iff report_missing_def put_missing_def e)
qed

section \<open>Objects and arrays\<close>

lemma failed_at_depth [simp]: "failed (r\<lparr>jr_depth := k\<rparr>) = failed r"
  by (simp add: failed_def)

lemma nested_puts:
  assumes "puts n g" "length (jr_dest r) = n" "jr_depth r < WEB_JSON_MAX_DEPTH"
    "f (r\<lparr>jr_depth := jr_depth r + 1\<rparr>) = Some (g (r\<lparr>jr_depth := jr_depth r + 1, jr_p := s\<rparr>))"
  shows "nested f r = Some (g (r\<lparr>jr_p := s\<rparr>))"
proof -
  have l: "length (jr_dest (r\<lparr>jr_p := s\<rparr>)) = n" using assms(2) by simp
  have "r\<lparr>jr_depth := jr_depth r + 1, jr_p := s\<rparr> = (r\<lparr>jr_p := s\<rparr>)\<lparr>jr_depth := jr_depth r + 1\<rparr>" by simp
  then have "g (r\<lparr>jr_depth := jr_depth r + 1, jr_p := s\<rparr>) = (g (r\<lparr>jr_p := s\<rparr>))\<lparr>jr_depth := jr_depth r + 1\<rparr>"
    using puts_place(4) [OF assms(1) l] by (simp only:)
  moreover have "jr_depth (g (r\<lparr>jr_p := s\<rparr>)) = jr_depth r" using puts_place(2) [OF assms(1) l] by simp
  ultimately show ?thesis using assms(3,4) by (simp add: nested_def)
qed

context tree_reader begin

lemma object_read:
  assumes "spells (Suc d) (JObject ms) w" "jr_depth r + d = WEB_JSON_MAX_DEPTH" "\<not> failed r" "length (jr_dest r) = n"
    "length fs \<le> 64" "list_all (field_fits n base) fs" "jr_p r = w @ s"
  shows "read_object value_at skip_at fs base r = Some (put_object fs base (putters ms) (r\<lparr>jr_p := s\<rparr>))"
proof -
  let ?r1 = "skip_ws (advance r)" and ?q = "fold (put_member fs base) (putters ms) (r\<lparr>jr_p := s\<rparr>)"
  have r1: "\<not> failed ?r1" "jr_depth ?r1 = jr_depth r" "length (jr_dest ?r1) = n" "?r1\<lparr>jr_p := s\<rparr> = r\<lparr>jr_p := s\<rparr>"
    using assms(3,4) by (simp_all add: failed_def skip_ws_def advance_def)
  have "puts n (fold (put_member fs base) (putters ms))"
  proof (rule puts_fold)
    fix x assume "x \<in> set (putters ms)"
    then obtain xs j where x: "x = (xs, put_value j)" by auto
    show "puts n (put_member fs base x)"
      unfolding x by (rule puts_member) (rule puts_value, use assms(6) in \<open>simp add: list_all_iff\<close>)
  qed
  then have fq: "\<not> failed ?q" using putsD(1) [of n _ "r\<lparr>jr_p := s\<rparr>"] assms(3,4) by (simp add: failed_def)
  have "(if jr_peek 0x7D ?r1 then Some (advance ?r1, 0)
         else read_members value_at skip_at (Suc (length (jr_p ?r1))) fs base [] 0 ?r1) = Some (?q, fold (mark fs) ms 0)"
    using assms(1)
  proof (cases rule: spells.cases)
    case (spells_empty_object u)
    then have "jr_p ?r1 = 0x7D # s" using assms(7) by (simp add: skip_ws_def advance_def drop_blank)
    then show ?thesis using spells_empty_object r1(4) by (simp add: jr_peek_def advance_def [of ?r1])
  next
    case (spells_object u)
    from spells_members_start [OF spells_object(2), of s] obtain u' where u': "spells_members d ms u'"
      "dropWhile is_ws (u @ s) = u' @ s" "hd (u' @ s) \<noteq> 0x7D" "u' \<noteq> []" by blast
    have p: "jr_p ?r1 = u' @ s" using spells_object(1) assms(7) u'(2) by (simp add: skip_ws_def advance_def)
    have l: "length ms \<le> length u'" using u'(1)
    proof (induction ms arbitrary: u')
      case (Cons x ms)
      from Cons.prems show ?case by (cases rule: spells_members.cases) (use Cons.IH in force)+
    qed simp
    have "read_members value_at skip_at (Suc (length (jr_p ?r1))) fs base [] 0 ?r1 =
        Some (fold (put_member fs base) (putters ms) (?r1\<lparr>jr_p := s\<rparr>), fold (mark fs) ms 0)"
      by (rule members_read [OF u'(1) _ r1(1,3) assms(6) p]) (use r1(2) assms(2) p l spells_object in simp_all)
    then show ?thesis using u'(3) p r1(4) by (simp add: jr_peek_def)
  qed
  then have "read_object value_at skip_at fs base r = Some (check_required fs (fold (mark fs) ms 0) ?q)"
    unfolding read_object_def Let_def using fq by simp
  then show ?thesis by (simp add: required_checked [OF assms(5)] put_object_def found_putters)
qed

lemma array_read:
  assumes "spells (Suc d) (JArray js) w" "jr_depth r + d = WEB_JSON_MAX_DEPTH" "\<not> failed r" "length (jr_dest r) = n"
    "base + offset + sz * hi \<le> n" "\<forall>i < hi. field_fits n (base + offset + i * sz) item" "jr_p r = w @ s"
  shows "read_array_field value_at skip_at item sz lo hi count_offset offset base r =
    Some (put_array item sz lo hi count_offset offset base (map put_value js) (r\<lparr>jr_p := s\<rparr>))"
proof -
  let ?r1 = "skip_ws (advance r)" and ?a = "base + offset"
  let ?q = "fold (put_element item sz hi ?a) (List.enumerate 0 (map put_value js)) (r\<lparr>jr_p := s\<rparr>)"
  have r1: "\<not> failed ?r1" "jr_depth ?r1 = jr_depth r" "length (jr_dest ?r1) = n" "?r1\<lparr>jr_p := s\<rparr> = r\<lparr>jr_p := s\<rparr>"
    using assms(3,4) by (simp_all add: failed_def skip_ws_def advance_def)
  have slot: "slot r base offset (sz * hi) = Some ?a" using assms(4,5) by (simp add: slot_def)
  have "puts n (fold (put_element item sz hi ?a) (List.enumerate 0 (map put_value js)))"
  proof (rule puts_fold)
    fix x assume "x \<in> set (List.enumerate 0 (map put_value js))"
    then have "snd x \<in> put_value ` set js" by (auto simp: in_set_enumerate_eq image_iff Bex_def intro!: exI [of _ "js ! fst x"])
    then obtain i j where x: "x = (i, put_value j)" by (cases x) auto
    show "puts n (put_element item sz hi ?a x)" unfolding x using assms(6) by (intro puts_element) simp
  qed
  then have fq: "\<not> failed ?q" using putsD(1) [of n _ "r\<lparr>jr_p := s\<rparr>"] assms(3,4) by (simp add: failed_def)
  have "(if jr_peek 0x5D ?r1 then Some (advance ?r1, 0)
         else read_elements value_at skip_at (Suc (length (jr_p ?r1))) item sz hi (Some ?a) 0 ?r1) = Some (?q, length js)"
    using assms(1)
  proof (cases rule: spells.cases)
    case (spells_empty_array u)
    then have "jr_p ?r1 = 0x5D # s" using assms(7) by (simp add: skip_ws_def advance_def drop_blank)
    then show ?thesis using spells_empty_array r1(4) by (simp add: jr_peek_def advance_def [of ?r1])
  next
    case (spells_array u)
    from spells_elements_start [OF spells_array(2), of s] obtain u' where u': "spells_elements d js u'"
      "dropWhile is_ws (u @ s) = u' @ s" "hd (u' @ s) \<noteq> 0x5D" "u' \<noteq> []" by blast
    have p: "jr_p ?r1 = u' @ s" using spells_array(1) assms(7) u'(2) by (simp add: skip_ws_def advance_def)
    have l: "length js \<le> length u'" using u'(1)
    proof (induction js arbitrary: u')
      case (Cons x ms)
      from Cons.prems show ?case by (cases rule: spells_elements.cases) (use Cons.IH in force)+
    qed simp
    have "read_elements value_at skip_at (Suc (length (jr_p ?r1))) item sz hi (Some ?a) 0 ?r1 =
        Some (fold (put_element item sz hi ?a) (List.enumerate 0 (map put_value js)) (?r1\<lparr>jr_p := s\<rparr>), 0 + length js)"
      by (rule elements_read [OF u'(1) _ r1(1,3) assms(6) p]) (use r1(2) assms(2) p l in simp_all)
    then show ?thesis using u'(3) p r1(4) by (simp add: jr_peek_def)
  qed
  then show ?thesis unfolding read_array_field_def Let_def slot put_array_def using fq by simp
qed

lemma nested_object:
  assumes "spells (Suc d) (JObject ms) w" "jr_depth r + Suc d = WEB_JSON_MAX_DEPTH" "\<not> failed r" "length (jr_dest r) = n"
    "length fs \<le> 64" "list_all (field_fits n base) fs" "jr_p r = w @ s"
  shows "nested (read_object value_at skip_at fs base) r = Some (put_object fs base (putters ms) (r\<lparr>jr_p := s\<rparr>))"
proof -
  have p: "puts n (put_object fs base (putters ms))"
    by (rule puts_object) (use assms(6) puts_value in \<open>auto simp: list_all_iff\<close>)
  show ?thesis
    by (rule nested_puts [OF p assms(4)], use assms(2) in simp, rule object_read [OF assms(1)]) (use assms in simp_all)
qed

lemma nested_array:
  assumes "spells (Suc d) (JArray js) w" "jr_depth r + Suc d = WEB_JSON_MAX_DEPTH" "\<not> failed r" "length (jr_dest r) = n"
    "base + offset + sz * hi \<le> n" "\<forall>i < hi. field_fits n (base + offset + i * sz) item" "jr_p r = w @ s"
  shows "nested (read_array_field value_at skip_at item sz lo hi count_offset offset base) r =
    Some (put_array item sz lo hi count_offset offset base (map put_value js) (r\<lparr>jr_p := s\<rparr>))"
proof -
  have p: "puts n (put_array item sz lo hi count_offset offset base (map put_value js))"
    by (rule puts_array) (use assms(6) puts_value in auto)
  show ?thesis
    by (rule nested_puts [OF p assms(4)], use assms(2) in simp, rule array_read [OF assms(1)]) (use assms in simp_all)
qed

end

section \<open>Values\<close>

text \<open>Skipping takes the text of a value and changes nothing else.\<close>

lemma skip_value_tree:
  assumes "jr_depth r + d = WEB_JSON_MAX_DEPTH" "\<not> failed r" "spells d j w" "ends_number s" "dropWhile is_ws (jr_p r) = w @ s"
  shows "skip_value (Suc d) r = Some (r\<lparr>jr_p := s\<rparr>)"
proof -
  obtain r' where r': "skip_value (Suc d) r = Some r'" "syn r' = (s, None, jr_depth r)"
    using skipper.accepts [OF assms] by blast
  have "untouched r r'" by (rule leavesD [OF skip_value_leaves r'(1)])
  then have "r' = r\<lparr>jr_p := s\<rparr>"
    using r'(2) assms(2) by (intro reader.equality) (simp_all add: untouched_def syn_def failed_def)
  with r'(1) show ?thesis by simp
qed

lemma spells_first:
  assumes "spells d j w" "w = c # t"
  shows "j = JNull \<longleftrightarrow> c = 0x6E" "j = JBool b \<Longrightarrow> c = (if b then 0x74 else 0x66)" "j = JNumber kind v \<Longrightarrow> c = 0x2D \<or> is_digit c"
    "j = JString xs \<Longrightarrow> c = 0x22" "j = JArray js \<Longrightarrow> c = 0x5B" "j = JObject ms \<Longrightarrow> c = 0x7B"
  using assms by (cases rule: spells.cases; auto simp: bytes_of_def is_digit_def elim!: number_text_head)+

lemma digit_first:
  "c = 0x2D \<or> is_digit c \<Longrightarrow> c \<noteq> 0x22 \<and> c \<noteq> 0x74 \<and> c \<noteq> 0x66 \<and> c \<noteq> 0x7B \<and> c \<noteq> 0x5B \<and> c \<noteq> 0x6E"
  by (auto simp: is_digit_def)

lemma read_value_start:
  "jr_p (skip_ws r) = c # t \<Longrightarrow> read_value (Suc n) f base r =
     (if c = 0x6E then Some (read_null f base (skip_ws r))
      else (case read_typed (read_value n) (skip_value n) c f base of
              Some read_it \<Rightarrow> read_it (skip_ws r)
            | None \<Rightarrow> skip_mistyped (skip_value (Suc n)) (skip_ws r)))"
  by (simp add: Let_def)

lemma jr_p_skip_ws: "jr_p (skip_ws r) = dropWhile is_ws (jr_p r)"
  by (simp add: skip_ws_def)

lemma mistyped_tree:
  assumes "jr_depth r + d = WEB_JSON_MAX_DEPTH" "\<not> failed r" "spells d j w" "ends_number s" "jr_p (skip_ws r) = w @ s"
  shows "skip_mistyped (skip_value (Suc d)) (skip_ws r) = Some (report API_FIELD_INVALID_FORMAT (r\<lparr>jr_p := s\<rparr>))"
proof -
  have h: "dropWhile is_ws (jr_p (skip_ws r)) = w @ s" using assms(5) by (metis drop_blank_twice jr_p_skip_ws)
  have "skip_value (Suc d) (skip_ws r) = Some ((skip_ws r)\<lparr>jr_p := s\<rparr>)"
    by (rule skip_value_tree [OF _ _ assms(3,4) h]) (use assms in \<open>simp_all add: skip_ws_def failed_def\<close>)
  then show ?thesis using assms(2) by (simp add: skip_mistyped_def skip_ws_def del: skip_value.simps)
qed

text \<open>A value of a type without parts.\<close>

lemma typed_scalar:
  assumes "spells d j w" "scalar j" "ends_number s" "jr_p r = w @ s" "w = c # t" "\<not> failed r" "field_fits (length (jr_dest r)) base f"
    "j \<noteq> JNull"
  shows "(case read_typed v sk c f base of None \<Rightarrow> put_value j f base = report API_FIELD_INVALID_FORMAT
    | Some g \<Rightarrow> g r = Some (put_value j f base (r\<lparr>jr_p := s\<rparr>)))"
proof -
  note first = spells_first [OF assms(1,5)]
  consider (b) b where "j = JBool b" | (num) kind v where "j = JNumber kind v" | (str) xs where "j = JString xs"
    using assms(2,8) by (cases j) (auto simp: scalar_def)
  then show ?thesis
  proof cases
    case b
    then have w: "w = bytes_of (if b then ''true'' else ''false'')" using assms(1) by (auto elim: spells_elim)
    show ?thesis
      using first(2) [OF b] b read_bool_tree [where b = b and r = r and s = s and base = base and offset = "wf_offset f"]
        assms(4,7) w fits_simps(4) [of f "length (jr_dest r)" base]
      by (cases "wf_type f") (auto simp: read_typed_def is_digit_def)
  next
    case num
    then have w: "number_text w" "number_meaning w = (kind, v)" using assms(1) by (auto elim: spells_elim)
    note c = digit_first [OF first(3) [OF num]] first(3) [OF num]
    show ?thesis
    proof (cases "wf_type f")
      case (WEB_JSON_INT lo hi)
      then show ?thesis
        using c num read_int_tree [OF w assms(3,4,6), where base = base and offset = "wf_offset f" and lo = lo and hi = hi]
          assms(7) fits_simps(5) [OF WEB_JSON_INT, of "length (jr_dest r)" base]
        by (simp add: read_typed_def)
    qed (use c num in \<open>simp_all add: read_typed_def\<close>)
  next
    case str
    then obtain w' where w: "w = 0x22 # w'" "string_chars w' xs" using assms(1) by (auto elim: spells_elim)
    note c = first(4) [OF str]
    show ?thesis
    proof (cases "wf_type f")
      case (WEB_JSON_STRING sz lo hi vs p)
      then show ?thesis
        using c str read_string_field_tree [OF w(2), of r s sz base "wf_offset f" lo hi vs p] assms(4,6,7) w(1)
          fits_simps(3) [OF WEB_JSON_STRING, of "length (jr_dest r)" base]
        by (simp add: read_typed_def)
    qed (use c str in \<open>simp_all add: read_typed_def is_digit_def\<close>)
  qed
qed

lemma read_value_tree: "tree_reader d n (read_value (Suc d)) (skip_value (Suc d))"
proof (induction d)
  have step: "read_value (Suc d) f base r = Some (put_value j f base (r\<lparr>jr_p := s\<rparr>))"
    if a: "jr_depth r + d = WEB_JSON_MAX_DEPTH" "\<not> failed r" "length (jr_dest r) = n" "field_fits n base f" "spells d j w"
      "ends_number s" "dropWhile is_ws (jr_p r) = w @ s"
      and IH: "\<And>k. d = Suc k \<Longrightarrow> tree_reader k n (read_value d) (skip_value d)" for d r f base j w s
  proof -
    obtain c t where w: "w = c # t" "\<not> is_ws c" using a(5) by (rule spells_head)
    let ?r = "skip_ws r"
    have r: "jr_p ?r = w @ s" "\<not> failed ?r" "length (jr_dest ?r) = n" "jr_depth ?r = jr_depth r" "?r\<lparr>jr_p := s\<rparr> = r\<lparr>jr_p := s\<rparr>"
      using a by (simp_all add: skip_ws_def failed_def)
    note first = spells_first [OF a(5) w(1)]
    have rv: "read_value (Suc d) f base r =
       (if c = 0x6E then Some (read_null f base ?r)
        else (case read_typed (read_value d) (skip_value d) c f base of
                Some read_it \<Rightarrow> read_it ?r | None \<Rightarrow> skip_mistyped (skip_value (Suc d)) ?r))"
      by (rule read_value_start) (use r(1) w(1) in simp)
    note mis = mistyped_tree [OF a(1,2,5,6) r(1)]
    show ?thesis
    proof (cases j)
      case JNull
      then have "w = bytes_of ''null''" using a(5) by (auto elim: spells_elim)
      then have "read_null f base ?r = put_value JNull f base (r\<lparr>jr_p := s\<rparr>)" using read_null_tree [of ?r s f base] r by simp
      then show ?thesis unfolding rv using first(1) JNull by simp
    next
      case (JArray js)
      then obtain k where k: "d = Suc k" using a(5) by (auto elim: spells_elim)
      note c = first(5) [OF JArray]
      show ?thesis
      proof (cases "wf_type f")
        case (WEB_JSON_ARRAY item sz lo hi count_offset)
        have "nested (read_array_field (read_value d) (skip_value d) item sz lo hi count_offset (wf_offset f) base) ?r =
            Some (put_array item sz lo hi count_offset (wf_offset f) base (map put_value js) (?r\<lparr>jr_p := s\<rparr>))"
          by (rule tree_reader.nested_array [OF IH [OF k]])
            (use a r JArray k fits_simps(2) [OF WEB_JSON_ARRAY, of n base] in auto)
        then show ?thesis unfolding rv using c JArray WEB_JSON_ARRAY r(5) by (simp add: read_typed_def)
      qed (use rv c mis JArray in \<open>simp_all add: read_typed_def is_digit_def del: skip_value.simps read_value.simps\<close>)
    next
      case (JObject ms)
      then obtain k where k: "d = Suc k" using a(5) by (auto elim: spells_elim)
      note c = first(6) [OF JObject]
      show ?thesis
      proof (cases "wf_type f")
        case (WEB_JSON_OBJECT fs)
        have "nested (read_object (read_value d) (skip_value d) fs (base + wf_offset f)) ?r =
            Some (put_object fs (base + wf_offset f) (putters ms) (?r\<lparr>jr_p := s\<rparr>))"
          by (rule tree_reader.nested_object [OF IH [OF k]])
            (use a r JObject k fits_simps(1) [OF WEB_JSON_OBJECT, of n base] in auto)
        then show ?thesis unfolding rv using c JObject WEB_JSON_OBJECT r(5) by (simp add: read_typed_def)
      qed (use rv c mis JObject in \<open>simp_all add: read_typed_def is_digit_def del: skip_value.simps read_value.simps\<close>)
    qed (use typed_scalar [OF a(5) _ a(6) r(1) w(1) r(2), of base f "read_value d" "skip_value d"] a(3,4) r(3,5) first(1) rv mis in
        \<open>auto simp: scalar_def simp del: skip_value.simps read_value.simps put_value.simps split: option.splits\<close>)
  qed
  {
    case 0
    show ?case by unfold_locales (use step skip_value_tree in blast)+
  next
    case (Suc d)
    then show ?case by unfold_locales (use step skip_value_tree in blast)+
  }
qed

end
