(* ===== verification/Json_Judgement.thy ===== *)
theory Json_Judgement
  imports Json_Tree_Loops
begin

text \<open>
  A whole body through the reference decoder, conformance of a tree to a schema, and that a report is left exactly
  by what does not conform.
\<close>

interpretation tree_at: tree_reader d n "read_value (Suc d)" "skip_value (Suc d)" for d n
  by (rule read_value_tree)

lemma puts_body:
  assumes "schema_fits n fs"
  shows "puts n (put_body j fs)"
proof (cases j)
  case (JObject ms)
  have "puts n (put_object fs 0 (putters ms))"
    by (rule puts_object) (use assms puts_value in \<open>auto simp: schema_fits_def list_all_iff\<close>)
  then show ?thesis by (simp add: put_body_def [abs_def] JObject)
qed (simp_all add: put_body_def [abs_def])

lemma read_body_tree:
  assumes "schema_fits n fs" "json_body j body"
  shows "read_body fs body n = Some (put_body j fs (start_reader [] n))"
proof -
  let ?start = "start_reader body n" and ?r = "skip_ws (start_reader body n)"
  obtain a v e where b: "blank a" "spells WEB_JSON_MAX_DEPTH j v" "blank e" "body = a @ v @ e"
    using assms(2) by (auto simp: json_body_def)
  obtain c t where v: "v = c # t" using b(2) by (rule spells_head)
  have st: "jr_depth ?start = 0" "\<not> failed ?start" "jr_p ?start = body" "length (jr_dest ?start) = n"
    by (simp_all add: start_reader_def failed_def)
  have r: "jr_p ?r = v @ e" using b st(3) drop_blank_value [OF b(1,2)] by (simp add: skip_ws_def)
  have blank_rest: "dropWhile is_ws e = []" using b(3) by (simp add: list_all_iff)
  have fin: "(let r2 = skip_ws (x\<lparr>jr_p := e\<rparr>) in
      if jr_p r2 \<noteq> [] then syntax_error m r2 else r2) = x\<lparr>jr_p := []\<rparr>" for x m
    using blank_rest by (simp add: skip_ws_def Let_def)
  note put = puts_body [OF assms(1), of j]
  let ?q = "put_body j fs (start_reader [] n)"
  have l0: "length (jr_dest (start_reader [] n)) = n" by (simp add: start_reader_def)
  have s0: "jr_p (start_reader [] n) = []" "jr_depth (start_reader [] n) = 0" "jr_syntax (start_reader [] n) = None"
    by (simp_all add: start_reader_def)
  have q: "jr_p ?q = []" "jr_depth ?q = 0" "\<not> failed ?q"
    using puts_place(1,2) [OF put l0] putsD(1) [OF put l0] by (simp_all only: s0 failed_def) simp
  note q4 = putsD(4) [OF put l0]
  have first: "(if jr_peek 0x7B ?r
      then do { r' \<leftarrow> read_object (read_value WEB_JSON_MAX_DEPTH) (skip_value WEB_JSON_MAX_DEPTH) fs 0 (?r\<lparr>jr_depth := 1\<rparr>);
                Some (r'\<lparr>jr_depth := 0\<rparr>) }
      else skip_mistyped (skip_value (Suc WEB_JSON_MAX_DEPTH)) ?r) = Some (?q\<lparr>jr_p := e\<rparr>)"
  proof (cases "\<exists>ms. j = JObject ms")
    case True
    then obtain ms where j: "j = JObject ms" by blast
    have c: "c = 0x7B" using spells_first(6) [OF b(2) v j] .
    have n8: "WEB_JSON_MAX_DEPTH = Suc 7" by (simp add: WEB_JSON_MAX_DEPTH_def)
    have sp: "spells (Suc 7) (JObject ms) v" using b(2) j by (simp add: n8)
    have "read_object (read_value (Suc 7)) (skip_value (Suc 7)) fs 0 (?r\<lparr>jr_depth := 1\<rparr>) =
        Some (put_object fs 0 (putters ms) (?r\<lparr>jr_depth := 1, jr_p := e\<rparr>))"
      by (rule tree_at.object_read [OF sp])
        (use st r assms(1) in \<open>auto simp: schema_fits_def skip_ws_def failed_def n8\<close>)
    moreover have "put_object fs 0 (putters ms) (?r\<lparr>jr_depth := 1, jr_p := e\<rparr>) = ?q\<lparr>jr_p := e, jr_depth := 1\<rparr>"
    proof -
      have "?r\<lparr>jr_depth := 1, jr_p := e\<rparr> = (start_reader [] n)\<lparr>jr_p := e, jr_depth := 1\<rparr>" by (simp add: start_reader_def skip_ws_def)
      then show ?thesis using q4 [where s = e and d = 1] by (simp add: put_body_def j)
    qed
    moreover have "jr_peek 0x7B ?r" using r v c by (simp add: jr_peek_def)
    ultimately show ?thesis using q(2) by (simp add: n8)
  next
    case False
    then have "c \<noteq> 0x7B" using spells_container_head(1) [OF b(2)] v by auto
    then have "\<not> jr_peek 0x7B ?r" using r v by (simp add: jr_peek_def)
    moreover have "skip_mistyped (skip_value (Suc WEB_JSON_MAX_DEPTH)) ?r = Some (report API_FIELD_INVALID_FORMAT (?start\<lparr>jr_p := e\<rparr>))"
      by (rule mistyped_tree [OF _ st(2) b(2) ends_number_after(4) [OF b(3)] r]) (simp add: st(1))
    moreover have "put_body j fs = report API_FIELD_INVALID_FORMAT" using False by (cases j) (auto simp: put_body_def)
    moreover have "?start\<lparr>jr_p := e\<rparr> = (start_reader [] n)\<lparr>jr_p := e, jr_depth := 0\<rparr>" by (simp add: start_reader_def)
    ultimately show ?thesis using q(2) q4 [where s = e and d = 0] by (simp del: skip_value.simps)
  qed
  have "failed (?q\<lparr>jr_p := e\<rparr>) = False" using q(3) by (simp add: failed_def)
  then have "read_body fs body n = Some (?q\<lparr>jr_p := []\<rparr>)"
    unfolding read_body_def Let_def first using fin by (simp add: Let_def)
  then show ?thesis using q(1) by simp
qed

section \<open>Conforming to a schema\<close>

definition string_conforms :: "item list \<Rightarrow> nat \<Rightarrow> nat \<Rightarrow> nat \<Rightarrow> byte list list option \<Rightarrow> (byte list \<Rightarrow> bool) option \<Rightarrow> bool" where
  "string_conforms xs n lo hi vs p \<longleftrightarrow>
     length (decoded xs) < n \<and> lo \<le> length xs \<and> (hi = 0 \<or> length xs \<le> hi) \<and> None \<notin> set xs \<and>
     (case p of None \<Rightarrow> True | Some q \<Rightarrow> q (decoded xs)) \<and> (case vs of None \<Rightarrow> True | Some l \<Rightarrow> decoded xs \<in> set l)"

definition members_conform :: "web_json_field list \<Rightarrow> (item list \<times> (web_json_field \<Rightarrow> bool)) list \<Rightarrow> bool" where
  "members_conform fs ms \<longleftrightarrow>
     list_all (\<lambda>(xs, ok). case field_of fs xs of None \<Rightarrow> False | Some i \<Rightarrow> ok (fs ! i)) ms \<and>
     list_all (\<lambda>(i, f). has_flag f WEB_JSON_REQUIRED \<longrightarrow> i \<in> found fs ms) (List.enumerate 0 fs)"

primrec conforms :: "json \<Rightarrow> web_json_field \<Rightarrow> bool" where
  "conforms JNull = (\<lambda>f. has_flag f WEB_JSON_NULLABLE)"
| "conforms (JBool b) = (\<lambda>f. case wf_type f of WEB_JSON_BOOL \<Rightarrow> True | _ \<Rightarrow> False)"
| "conforms (JNumber kind v) = (\<lambda>f. case wf_type f of
     WEB_JSON_INT lo hi \<Rightarrow> kind = NUMBER_INTEGRAL \<and> lo \<le> v \<and> v \<le> hi | _ \<Rightarrow> False)"
| "conforms (JString xs) = (\<lambda>f. case wf_type f of WEB_JSON_STRING n lo hi vs p \<Rightarrow> string_conforms xs n lo hi vs p | _ \<Rightarrow> False)"
| "conforms (JArray js) = (\<lambda>f. case wf_type f of
     WEB_JSON_ARRAY item n lo hi count_offset \<Rightarrow>
       lo \<le> length js \<and> length js \<le> hi \<and> list_all (\<lambda>ok. ok item) (map conforms js)
   | _ \<Rightarrow> False)"
| "conforms (JObject ms) = (\<lambda>f. case wf_type f of
     WEB_JSON_OBJECT fs \<Rightarrow> members_conform fs (map (map_prod id conforms) ms) | _ \<Rightarrow> False)"

definition body_conforms :: "json \<Rightarrow> web_json_field list \<Rightarrow> bool" where
  "body_conforms j fs = (case j of JObject ms \<Rightarrow> members_conform fs (map (map_prod id conforms) ms) | _ \<Rightarrow> False)"

section \<open>Reports tell\<close>

text \<open>\<open>judges b g\<close>: \<open>g\<close> adds no report when \<open>b\<close> holds, leaves one when it does not, and never takes the last one away.\<close>

definition judges :: "bool \<Rightarrow> (reader \<Rightarrow> reader) \<Rightarrow> bool" where
  "judges b g \<longleftrightarrow> (\<forall>r.
     (b \<longrightarrow> jr_fields (g r) = jr_fields r \<and> jr_truncated (g r) = jr_truncated r) \<and>
     (\<not> b \<or> jr_fields r \<noteq> [] \<longrightarrow> jr_fields (g r) \<noteq> []))"

lemma judges_id [simp]: "judges True (\<lambda>r. r)"
  by (simp add: judges_def)

lemma judges_comp: "judges a g \<Longrightarrow> judges b h \<Longrightarrow> judges (a \<and> b) (\<lambda>r. h (g r))"
  unfolding judges_def by metis

lemma judges_fold: "(\<And>x. x \<in> set xs \<Longrightarrow> judges (P x) (f x)) \<Longrightarrow> judges (list_all P xs) (fold f xs)"
proof (induction xs)
  case Nil
  then show ?case by (simp add: judges_def)
next
  case (Cons x xs)
  then show ?case using judges_comp [of "P x" "f x" "list_all P xs" "fold f xs"] by (simp add: comp_def)
qed

lemma judges_report [simp]: "judges False (report code)"
  by (auto simp: judges_def report_def MAX_COLLECTED_def)

lemma judges_store [simp]: "judges True (store_bytes p bs)"
  by (simp add: judges_def store_bytes_def split: option.split)

lemma judges_slot: "judges True (\<lambda>r. store_bytes (slot r base off k) bs r)"
  by (simp add: judges_def store_bytes_def split: option.split)

lemma judges_flag [simp]: "judges True (set_flag base off)"
  unfolding set_flag_def [abs_def] by (rule judges_slot)

lemma judges_path [simp]: "judges True (path_push_bytes b)" "judges True (path_push_index i)" "judges True (path_pop k)"
  by (simp_all add: judges_def path_push_bytes_def path_push_index_def path_pop_def split: option.split)

lemma judges_if: "(c \<Longrightarrow> judges a g) \<Longrightarrow> (\<not> c \<Longrightarrow> judges b h) \<Longrightarrow> judges (if c then a else b) (\<lambda>r. if c then g r else h r)"
  by simp

lemma judges_refused: "judges False (\<lambda>r. store_bytes p bs (report code r))"
  using judges_comp [OF judges_report judges_store] by simp

lemma judges_pop:
  assumes "judges b g"
  shows "judges b (\<lambda>r. path_pop (length (jr_path r)) (g r))"
  using assms by (simp add: judges_def path_pop_def)

lemma judges_merge:
  assumes "judges b g"
  shows "judges b (\<lambda>r. merge_oneof f r (g r))"
proof -
  have "jr_fields (report code r) \<noteq> []" for code r using judges_report [of code] unfolding judges_def by blast
  with assms show ?thesis unfolding judges_def merge_oneof_def by simp
qed

lemma judges_eq: "judges a g \<Longrightarrow> a = b \<Longrightarrow> judges b g"
  by simp

lemma judges_string: "judges (string_conforms xs n lo hi vs p) (put_string xs n lo hi vs p a)"
proof -
  have s: "put_string xs n lo hi vs p a =
      (\<lambda>r. if n \<le> length (decoded xs) \<or> 0 < hi \<and> hi < length xs
           then store_bytes (Some a) (replicate n 0) (report API_FIELD_TOO_LONG r)
           else if length xs < lo then store_bytes (Some a) (replicate n 0) (report API_FIELD_OUT_OF_RANGE r)
           else if None \<in> set xs \<or> (\<exists>q. p = Some q \<and> \<not> q (decoded xs))
           then store_bytes (Some a) (replicate n 0) (report API_FIELD_INVALID_FORMAT r)
           else if \<exists>l. vs = Some l \<and> decoded xs \<notin> set l
           then store_bytes (Some a) (replicate n 0) (report API_FIELD_NOT_ALLOWED r)
           else store_bytes (Some a) (decoded xs @ [0]) r)"
    by (simp add: fun_eq_iff put_string_def Let_def)
  show ?thesis
    unfolding s
    by (rule judges_eq [OF judges_if [OF judges_refused judges_if [OF judges_refused judges_if [OF judges_refused
      judges_if [OF judges_refused judges_store]]]]]) (auto simp: string_conforms_def split: option.split)
qed

lemma judges_number: "judges (kind = NUMBER_INTEGRAL \<and> lo \<le> v \<and> v \<le> hi) (put_number kind v lo hi a)"
  unfolding put_number_def [abs_def]
  by (rule judges_eq [OF judges_if [OF judges_report judges_if [OF judges_report judges_store]]]) (cases kind; auto)

lemma judges_member:
  assumes "\<And>f. judges (ok f) (put f base)"
  shows "judges (case field_of fs xs of None \<Rightarrow> False | Some i \<Rightarrow> ok (fs ! i)) (put_member fs base (xs, put))"
proof -
  have push: "judges True (\<lambda>r. if NAME_MAX < length (decoded xs) then r else path_push_bytes (decoded xs) r)"
    by (cases "NAME_MAX < length (decoded xs)") simp_all
  show ?thesis
  proof (cases "field_of fs xs")
    case None
    show ?thesis
      unfolding put_member_def [abs_def] prod.case None option.case Let_def
      by (rule judges_pop) (use judges_comp [OF push judges_report] in simp)
  next
    case (Some i)
    have fl: "judges True (\<lambda>r. if has_flag (fs ! i) WEB_JSON_PRESENT then set_flag base (wf_present_offset (fs ! i)) r else r)"
      by (cases "has_flag (fs ! i) WEB_JSON_PRESENT") simp_all
    show ?thesis
      unfolding put_member_def [abs_def] prod.case Some option.case Let_def
      by (rule judges_pop) (use judges_comp [OF judges_comp [OF push fl] judges_merge [OF assms]] in simp)
  qed
qed

lemma judges_missing: "judges (case jf of (i, f) \<Rightarrow> has_flag f WEB_JSON_REQUIRED \<longrightarrow> i \<in> seen) (put_missing seen jf)"
proof (cases jf)
  case (Pair i f)
  have "judges False (\<lambda>r. path_pop (length (jr_path r)) (report API_FIELD_REQUIRED (path_push_bytes (wf_name f) r)))"
    by (rule judges_pop) (use judges_comp [OF judges_path(1) judges_report] in simp)
  then show ?thesis
    unfolding put_missing_def [abs_def] Pair prod.case
    by (cases "has_flag f WEB_JSON_REQUIRED"; cases "i \<in> seen") simp_all
qed

lemma judges_object:
  assumes "\<And>m f. m \<in> set ms \<Longrightarrow> judges (conforms (snd m) f) (put_value (snd m) f base)"
  shows "judges (members_conform fs (map (map_prod id conforms) ms)) (put_object fs base (putters ms))"
proof -
  have "judges (list_all (\<lambda>m. case field_of fs (fst m) of None \<Rightarrow> False | Some i \<Rightarrow> conforms (snd m) (fs ! i)) ms)
      (fold (\<lambda>m. put_member fs base (map_prod id put_value m)) ms)"
  proof (rule judges_fold)
    fix m assume "m \<in> set ms"
    from judges_member [of "conforms (snd m)" "put_value (snd m)" base fs "fst m", OF assms [OF this]] show
      "judges (case field_of fs (fst m) of None \<Rightarrow> False | Some i \<Rightarrow> conforms (snd m) (fs ! i))
         (put_member fs base (map_prod id put_value m))" by (cases m) simp
  qed
  moreover have "fold (put_member fs base) (putters ms) = fold (\<lambda>m. put_member fs base (map_prod id put_value m)) ms"
    by (simp add: fold_map comp_def)
  ultimately have m: "judges (list_all (\<lambda>m. case field_of fs (fst m) of None \<Rightarrow> False | Some i \<Rightarrow> conforms (snd m) (fs ! i)) ms)
      (fold (put_member fs base) (putters ms))" by simp
  have "judges (list_all (\<lambda>m. case field_of fs (fst m) of None \<Rightarrow> False | Some i \<Rightarrow> conforms (snd m) (fs ! i)) ms \<and>
      list_all (\<lambda>(i, f). has_flag f WEB_JSON_REQUIRED \<longrightarrow> i \<in> found fs (putters ms)) (List.enumerate 0 fs))
      (put_object fs base (putters ms))"
    unfolding put_object_def [abs_def] by (rule judges_comp [OF m judges_fold [OF judges_missing]])
  then show ?thesis
    by (rule judges_eq) (simp add: members_conform_def list.pred_map comp_def found_putters found_def case_prod_unfold cong: option.case_cong)
qed

lemma judges_element:
  "judges ok (put item (a + i * n)) \<Longrightarrow> judges (i < hi \<longrightarrow> ok) (put_element item n hi a (i, put))"
proof -
  assume "judges ok (put item (a + i * n))"
  then have "judges ok (\<lambda>r. path_pop (length (jr_path r)) (merge_oneof item (path_push_index i r) (put item (a + i * n) (path_push_index i r))))"
    by (intro judges_pop) (use judges_comp [OF judges_path(2) judges_merge] in simp)
  then show ?thesis by (cases "i < hi") (simp_all add: put_element_def [abs_def] Let_def)
qed

lemma judges_finish: "judges (lo \<le> count \<and> count \<le> hi) (finish_array count lo hi off base)"
  unfolding finish_array_def [abs_def] Let_def
  by (rule judges_eq [OF judges_comp [OF judges_if [OF judges_report judges_id] judges_slot]]) auto

lemma judges_array:
  assumes "\<And>j i. j \<in> set js \<Longrightarrow> judges (conforms j item) (put_value j item (base + offset + i * n))"
  shows "judges (lo \<le> length js \<and> length js \<le> hi \<and> list_all (\<lambda>ok. ok item) (map conforms js))
    (put_array item n lo hi count_offset offset base (map put_value js))"
proof -
  let ?ok = "\<lambda>e. fst e < hi \<longrightarrow> conforms (js ! fst e) item"
  have "judges (list_all ?ok (List.enumerate 0 (map put_value js)))
      (fold (put_element item n hi (base + offset)) (List.enumerate 0 (map put_value js)))"
  proof (rule judges_fold)
    fix e assume "e \<in> set (List.enumerate 0 (map put_value js))"
    then have e: "fst e < length js" "snd e = put_value (js ! fst e)" by (auto simp: in_set_enumerate_eq)
    have "judges (conforms (js ! fst e) item) (put_value (js ! fst e) item (base + offset + fst e * n))"
      by (rule assms) (use e(1) in simp)
    from judges_element [where put = "put_value (js ! fst e)" and i = "fst e", OF this] e(2) show "judges (?ok e) (put_element item n hi (base + offset) e)" by (cases e) simp
  qed
  from judges_comp [OF this judges_finish [of lo "length js" hi count_offset base]] show ?thesis
    unfolding put_array_def [abs_def] length_map
    by (rule judges_eq) (auto simp: list_all_length nth_enumerate_eq)
qed

lemma judges_value: "judges (conforms j f) (put_value j f base)"
proof (induction j arbitrary: f base)
  case JNull
  show ?case by (cases "has_flag f WEB_JSON_NULLABLE") simp_all
next
  case (JBool b)
  show ?case by (cases "wf_type f") simp_all
next
  case (JNumber kind v)
  show ?case using judges_number [of kind _ v] by (cases "wf_type f") simp_all
next
  case (JString xs)
  show ?case using judges_string by (cases "wf_type f") simp_all
next
  case (JArray js)
  show ?case
  proof (cases "wf_type f")
    case (WEB_JSON_ARRAY item n lo hi count_offset)
    from judges_array [where js = js and item = item and base = base and offset = "wf_offset f" and n = n and lo = lo
        and hi = hi and count_offset = count_offset, OF JArray] WEB_JSON_ARRAY show ?thesis by simp
  qed simp_all
next
  case (JObject ms)
  show ?case
  proof (cases "wf_type f")
    case (WEB_JSON_OBJECT fs)
    have "judges (conforms (snd m) f') (put_value (snd m) f' (base + wf_offset f))" if "m \<in> set ms" for m f'
      using JObject [of m "snd m" f' "base + wf_offset f"] that by (cases m) auto
    from judges_object [of ms "base + wf_offset f" fs, OF this] WEB_JSON_OBJECT show ?thesis by simp
  qed simp_all
qed

lemma judges_body: "judges (body_conforms j fs) (put_body j fs)"
proof (cases j)
  case (JObject ms)
  from judges_object [of ms 0 fs, OF judges_value] show ?thesis by (simp add: put_body_def [abs_def] body_conforms_def JObject)
qed (simp_all add: put_body_def [abs_def] body_conforms_def)

end
