(* ===== verification/Json_Order.thy ===== *)
theory Json_Order
  imports Json_Reader
begin

text \<open>
  The order of paths and the sorted list of reports.
\<close>

section \<open>Comparing paths\<close>

lemma memcmp_antisym: "memcmp_sign b a = - memcmp_sign a b"
  by (induction a b rule: memcmp_sign.induct) (auto simp: not_less order.order_iff_strict)

lemma memcmp_zero: "length a = length b \<Longrightarrow> memcmp_sign a b = 0 \<Longrightarrow> a = b"
  by (induction a b rule: memcmp_sign.induct) (auto simp: not_less split: if_splits)

lemma segment_antisym: "segment_compare b a = - segment_compare a b"
  using memcmp_antisym [of b a] by (auto simp: segment_compare_def Let_def)

lemma segment_zero: "segment_compare a b = 0 \<Longrightarrow> a = b"
  using memcmp_zero [of a b] by (auto simp: segment_compare_def Let_def split: if_splits)

text \<open>Empty, or beginning with a slash.\<close>

definition rooted :: "byte list \<Rightarrow> bool" where
  "rooted p \<longleftrightarrow> p = [] \<or> hd p = 0x2F"

lemma rooted_rest: "drop (length (takeWhile (\<lambda>c. c \<noteq> 0x2F) p)) p = dropWhile (\<lambda>c. c \<noteq> 0x2F) p" "rooted (dropWhile (\<lambda>c. c \<noteq> 0x2F) p)"
  using hd_dropWhile [of "\<lambda>c. c \<noteq> 0x2F" p] by (auto simp: rooted_def dropWhile_eq_drop [symmetric])

lemma rooted_cases: "rooted p \<Longrightarrow> (p = [] \<and> next_char p = 0) \<or> (\<exists>t. p = 0x2F # t \<and> next_char p = 0x2F)"
  by (cases p) (auto simp: rooted_def next_char_def)

lemma loop_rooted:
  "path_compare_loop (0x2F # a) (0x2F # b) =
     (let c = segment_compare (takeWhile (\<lambda>c. c \<noteq> 0x2F) a) (takeWhile (\<lambda>c. c \<noteq> 0x2F) b) in
      if c \<noteq> 0 then c else path_compare_loop (dropWhile (\<lambda>c. c \<noteq> 0x2F) a) (dropWhile (\<lambda>c. c \<noteq> 0x2F) b))"
  "path_compare_loop [] [] = 0" "path_compare_loop [] (0x2F # b) = - 1" "path_compare_loop (0x2F # a) [] = 1"
  by (subst path_compare_loop.simps, simp add: next_char_def rooted_rest(1) Let_def)+

lemma loop_antisym: "rooted a \<Longrightarrow> rooted b \<Longrightarrow> path_compare_loop b a = - path_compare_loop a b"
proof (induction "length a" arbitrary: a b rule: less_induct)
  case less
  show ?case
  proof (cases "a = [] \<or> b = []")
    case True
    with rooted_cases [OF less.prems(1)] rooted_cases [OF less.prems(2)] show ?thesis by (auto simp: loop_rooted)
  next
    case False
    then obtain t u where ab: "a = 0x2F # t" "b = 0x2F # u"
      using rooted_cases [OF less.prems(1)] rooted_cases [OF less.prems(2)] by auto
    have "length (dropWhile (\<lambda>c. c \<noteq> 0x2F) t) < length a" using length_dropWhile_le [of "\<lambda>c. c \<noteq> 0x2F" t] by (simp add: ab)
    note IH = less.hyps [OF this rooted_rest(2) rooted_rest(2), of u]
    show ?thesis using segment_antisym [of "takeWhile (\<lambda>c. c \<noteq> 0x2F) u" "takeWhile (\<lambda>c. c \<noteq> 0x2F) t"] IH
      by (simp add: ab loop_rooted Let_def)
  qed
qed

lemma loop_zero: "rooted a \<Longrightarrow> rooted b \<Longrightarrow> path_compare_loop a b = 0 \<Longrightarrow> a = b"
proof (induction "length a" arbitrary: a b rule: less_induct)
  case less
  show ?case
  proof (cases "a = [] \<or> b = []")
    case True
    with rooted_cases [OF less.prems(1)] rooted_cases [OF less.prems(2)] less.prems(3) show ?thesis by (auto simp: loop_rooted)
  next
    case False
    then obtain t u where ab: "a = 0x2F # t" "b = 0x2F # u"
      using rooted_cases [OF less.prems(1)] rooted_cases [OF less.prems(2)] by auto
    have l: "length (dropWhile (\<lambda>c. c \<noteq> 0x2F) t) < length a" using length_dropWhile_le [of "\<lambda>c. c \<noteq> 0x2F" t] by (simp add: ab)
    have z: "segment_compare (takeWhile (\<lambda>c. c \<noteq> 0x2F) t) (takeWhile (\<lambda>c. c \<noteq> 0x2F) u) = 0"
      "path_compare_loop (dropWhile (\<lambda>c. c \<noteq> 0x2F) t) (dropWhile (\<lambda>c. c \<noteq> 0x2F) u) = 0"
      using less.prems(3) by (auto simp: ab loop_rooted Let_def split: if_splits)
    have "takeWhile (\<lambda>c. c \<noteq> 0x2F) t = takeWhile (\<lambda>c. c \<noteq> 0x2F) u" by (rule segment_zero [OF z(1)])
    moreover have "dropWhile (\<lambda>c. c \<noteq> 0x2F) t = dropWhile (\<lambda>c. c \<noteq> 0x2F) u"
      by (rule less.hyps [OF l rooted_rest(2) rooted_rest(2) z(2)])
    ultimately show ?thesis using takeWhile_dropWhile_id [of "\<lambda>c. c \<noteq> 0x2F"] unfolding ab by metis
  qed
qed

text \<open>A path as it is reported: it begins with a slash.\<close>

definition reported :: "collected \<Rightarrow> bool" where
  "reported c \<longleftrightarrow> cf_path c \<noteq> [] \<and> hd (cf_path c) = 0x2F"

definition before :: "collected \<Rightarrow> collected \<Rightarrow> bool" where
  "before c d \<longleftrightarrow> path_compare (cf_path c) (cf_path d) < 0"

abbreviation not_after :: "collected \<Rightarrow> collected \<Rightarrow> bool" where
  "not_after c d \<equiv> path_compare (cf_path c) (cf_path d) \<le> 0"

lemma compare_antisym: "reported c \<Longrightarrow> reported d \<Longrightarrow> path_compare (cf_path d) (cf_path c) = - path_compare (cf_path c) (cf_path d)"
  unfolding path_compare_def by (rule loop_antisym) (auto simp: rooted_def reported_def)

lemma compare_zero: "reported c \<Longrightarrow> reported d \<Longrightarrow> path_compare (cf_path c) (cf_path d) = 0 \<Longrightarrow> cf_path c = cf_path d"
  unfolding path_compare_def using loop_zero [of "if cf_path c = [0x2F] then [] else cf_path c" "if cf_path d = [0x2F] then [] else cf_path d"]
  by (auto simp: rooted_def reported_def split: if_splits)

section \<open>The sorted list\<close>

lemma insert_field_split:
  obtains us vs where "xs = us @ vs" "insert_field t xs = us @ [t] @ vs"
    "us \<noteq> [] \<Longrightarrow> not_after (last us) t" "\<forall>v \<in> set vs. 0 < path_compare (cf_path v) (cf_path t)"
proof
  let ?g = "\<lambda>c. 0 < path_compare (cf_path c) (cf_path t)"
  let ?us = "rev (dropWhile ?g (rev xs))" and ?vs = "rev (takeWhile ?g (rev xs))"
  have "rev xs = rev ?vs @ rev ?us" by simp
  then show x: "xs = ?us @ ?vs" by (metis rev_append rev_rev_ident)
  have l: "length xs - length (takeWhile ?g (rev xs)) = length ?us"
    using arg_cong [OF x, of length] by simp
  show "insert_field t xs = ?us @ [t] @ ?vs"
    unfolding insert_field_def Let_def l
    by (subst (1 2) x) simp
  show "not_after (last ?us) t" if "?us \<noteq> []"
    using hd_dropWhile [of ?g "rev xs"] that by (simp add: last_rev)
  show "\<forall>v \<in> set ?vs. ?g v" by (auto dest: set_takeWhileD)
qed

lemma insert_field_set: "set (insert_field t xs) = insert t (set xs)"
proof -
  obtain us vs where "xs = us @ vs" "insert_field t xs = us @ [t] @ vs" by (rule insert_field_split)
  then show ?thesis by auto
qed

lemma insert_field_sorted:
  assumes "successively not_after xs" "reported t" "list_all reported xs"
  shows "successively not_after (insert_field t xs)"
proof -
  obtain us vs where s: "xs = us @ vs" "insert_field t xs = us @ [t] @ vs"
    "us \<noteq> [] \<Longrightarrow> not_after (last us) t" "\<forall>v \<in> set vs. 0 < path_compare (cf_path v) (cf_path t)" by (rule insert_field_split) blast
  have "not_after t (hd vs)" if "vs \<noteq> []"
    using s(4) compare_antisym [of "hd vs" t] that assms s(1) by (cases vs) auto
  with s assms(1) show ?thesis by (auto simp: successively_append_iff successively_Cons)
qed

lemma inserted:
  assumes "list_all reported xs"
  shows "successively not_after (fold insert_field xs [])" "set (fold insert_field xs []) = set xs"
proof -
  have "successively not_after acc \<Longrightarrow> list_all reported acc \<Longrightarrow>
      successively not_after (fold insert_field xs acc) \<and> set (fold insert_field xs acc) = set xs \<union> set acc" for acc
    using assms
  proof (induction xs arbitrary: acc)
    case (Cons x xs)
    then have "successively not_after (insert_field x acc)" "list_all reported (insert_field x acc)"
      by (simp_all add: insert_field_sorted list_all_iff insert_field_set)
    with Cons.IH Cons.prems(3) show ?case by (simp add: insert_field_set)
  qed simp
  from this [of "[]"] show "successively not_after (fold insert_field xs [])" "set (fold insert_field xs []) = set xs" by simp_all
qed

lemma merge_fields_sorted:
  "successively before out \<Longrightarrow> successively not_after xs \<Longrightarrow> list_all reported (out @ xs) \<Longrightarrow>
   (out \<noteq> [] \<Longrightarrow> xs \<noteq> [] \<Longrightarrow> not_after (last out) (hd xs)) \<Longrightarrow>
   successively before (merge_fields out xs) \<and> cf_path ` set (merge_fields out xs) = cf_path ` set (out @ xs)"
proof (induction out xs rule: merge_fields.induct)
  case (1 out)
  then show ?case by simp
next
  case (2 out x xs)
  have nx: "successively not_after xs" "xs \<noteq> [] \<Longrightarrow> not_after x (hd xs)"
    using "2.prems"(2) by (auto simp: successively_Cons)
  show ?case
  proof (cases "out \<noteq> [] \<and> cf_path (last out) = cf_path x")
    case True
    then have x: "cf_path x \<in> cf_path ` set out" by (metis image_eqI last_in_set)
    let ?l = "(last out)\<lparr>cf_code := cf_code x\<rparr>"
    have o: "out = butlast out @ [last out]" using True by simp
    have b: "successively before (butlast out @ [?l])" "list_all reported ((butlast out @ [?l]) @ xs)"
      "cf_path ` set (butlast out @ [?l]) = cf_path ` set out"
    proof -
      have "successively before (butlast out @ [last out])" using "2.prems"(1) o by simp
      then show "successively before (butlast out @ [?l])" by (auto simp: successively_append_iff before_def)
      have "list_all reported ((butlast out @ [last out]) @ x # xs)" using "2.prems"(3) o by simp
      then show "list_all reported ((butlast out @ [?l]) @ xs)" by (simp add: reported_def)
      have "cf_path ` set (butlast out @ [last out]) = cf_path ` set out" using o by simp
      then show "cf_path ` set (butlast out @ [?l]) = cf_path ` set out" by simp
    qed
    show ?thesis
    proof (cases "precedence (cf_code x) < precedence (cf_code (last out))")
      case better: True
      from "2.IH"(1) [OF True better b(1) nx(1) b(2)] nx(2) True better b(3) x show ?thesis by (auto simp: image_Un)
    next
      case worse: False
      have "list_all reported (out @ xs)" using "2.prems"(3) by simp
      from "2.IH"(2) [OF True worse "2.prems"(1) nx(1) this] nx(2) True worse x show ?thesis by (auto simp: image_Un)
    qed
  next
    case False
    have "before (last out) x" if "out \<noteq> []"
    proof -
      have "not_after (last out) x" "cf_path (last out) \<noteq> cf_path x" "reported (last out)" "reported x"
        using that False "2.prems"(3,4) by (auto simp: list_all_iff)
      with compare_zero [of "last out" x] have "path_compare (cf_path (last out)) (cf_path x) \<noteq> 0" by blast
      with \<open>not_after (last out) x\<close> show ?thesis by (simp add: before_def)
    qed
    then have "successively before (out @ [x])" using "2.prems"(1) by (auto simp: successively_append_iff)
    from "2.IH"(3) [OF False this nx(1)] "2.prems"(3) nx(2) False show ?thesis by auto
  qed
qed

theorem sort_fields_in_order:
  assumes "list_all reported xs"
  shows "successively before (sort_fields xs) \<and> cf_path ` set (sort_fields xs) = cf_path ` set xs"
proof -
  note i = inserted [OF assms]
  have "list_all reported (fold insert_field xs [])" using assms i(2) by (simp add: list_all_iff)
  with merge_fields_sorted [of "[]" "fold insert_field xs []"] i show ?thesis by (simp add: sort_fields_def)
qed

text \<open>
  The order of segments is not transitive: two numbers of different length are compared by length, anything else
  bytewise. So which of the sorted lists comes out can depend on the order the reports came in.
\<close>

definition field_at :: "string \<Rightarrow> collected" where
  "field_at s = \<lparr>cf_path = 0x2F # bytes_of s, cf_code = API_FIELD_UNKNOWN\<rparr>"

theorem path_order_is_not_transitive:
  "before (field_at ''9'') (field_at ''10'')" "before (field_at ''10'') (field_at ''1a'')" "before (field_at ''1a'') (field_at ''9'')"
  by (simp_all add: before_def field_at_def path_compare_def bytes_of_def loop_rooted segment_compare_def all_digits_def
      is_digit_def Let_def)

lemma before_differs: "reported a \<Longrightarrow> before a b \<Longrightarrow> cf_path a \<noteq> cf_path b"
  using compare_antisym [of a a] by (auto simp: before_def)

lemma three_in_order: "reported a \<Longrightarrow> reported b \<Longrightarrow> before a b \<Longrightarrow> before b c \<Longrightarrow> sort_fields [a, b, c] = [a, b, c]"
  using before_differs [of a b] before_differs [of b c] by (simp add: before_def sort_fields_def insert_field_def)

theorem member_order_decides_the_report:
  "map cf_path (sort_fields (map field_at [''9'', ''10'', ''1a''])) \<noteq> map cf_path (sort_fields (map field_at [''1a'', ''9'', ''10'']))"
proof -
  have "cf_path (field_at ''9'') \<noteq> cf_path (field_at ''1a'')" by (simp add: field_at_def bytes_of_def)
  moreover have "reported (field_at s)" for s by (simp add: reported_def field_at_def)
  ultimately show ?thesis using three_in_order path_order_is_not_transitive by simp
qed

end
