(* ===== verification/Json_Reader_Properties.thy ===== *)
theory Json_Reader_Properties
  imports Json_Judgement Json_Order
begin

text \<open>
  The properties of the request reader.
\<close>

section \<open>Reports have paths\<close>

definition well :: "reader \<Rightarrow> bool" where
  "well r \<longleftrightarrow> rooted (jr_path r) \<and> list_all reported (jr_fields r)"





















section \<open>The answer to a body\<close>

lemma decode_result_code:
  "fst (decode_result n cycles err g r) =
     (if failed r then Some EBADMSG else if jr_fields r = [] then None else Some EINVAL)"
  by (auto simp: decode_result_def failed_def Let_def split: option.split prod.split)

lemma decode_result_refused:
  "fst (decode_result n cycles err g r) \<noteq> None \<Longrightarrow> fst (snd (decode_result n cycles err g r)) = replicate n 0"
  by (auto simp: decode_result_def failed_def Let_def split: option.splits prod.split if_splits)

lemma decode_result_accepted:
  "fst (decode_result n cycles err g r) = None \<Longrightarrow> decode_result n cycles err g r = (None, jr_dest r, err, g)"
  by (auto simp: decode_result_def failed_def Let_def split: option.splits prod.splits if_splits)

lemma start_clean: "jr_fields (start_reader [] n) = []" "jr_truncated (start_reader [] n) = False" "\<not> failed (start_reader [] n)"
  "length (jr_dest (start_reader [] n)) = n" "well (start_reader [] n)"
  by (simp_all add: start_reader_def failed_def well_def rooted_def)

lemma decode_spelled:
  assumes "schema_fits n fs" "json_body j body"
  shows "web_json_decode body fs n cycles err g = Some (decode_result n cycles err g (put_body j fs (start_reader [] n)))"
  using read_body_tree [OF assms] by (simp add: web_json_decode_def)

lemma put_body_clean:
  assumes "schema_fits n fs"
  shows "\<not> failed (put_body j fs (start_reader [] n))" "length (jr_dest (put_body j fs (start_reader [] n))) = n"
    "jr_fields (put_body j fs (start_reader [] n)) = [] \<longleftrightarrow> body_conforms j fs"
  using putsD(1,3) [OF puts_body [OF assms] start_clean(4), of j] start_clean(1,3) judges_body [of j fs]
  by (auto simp: failed_def judges_def)


lemma malformed_outcome:
  "\<exists>rc dest e g'. web_json_decode body fs n cycles err g = Some (rc, dest, e, g') \<and>
     (rc = Some EBADMSG \<longleftrightarrow> (\<nexists>j. json_body j body))"
proof -
  obtain r where r: "read_body fs body n = Some r" "\<not> failed r \<longleftrightarrow> (\<exists>j. json_body j body)"
    using read_body_syntax [where schema = fs and body = body and n = n] by blast
  obtain rc dest e g' where d: "decode_result n cycles err g r = (rc, dest, e, g')" by (rule prod_cases4)
  with decode_result_code [of n cycles err g r] have "rc = Some EBADMSG \<longleftrightarrow> failed r" by simp
  with d r show ?thesis by (auto simp: web_json_decode_def)
qed

section \<open>Samples\<close>

definition sample_schema :: "web_json_field list" where
  "sample_schema = [Field [0x6E] WEB_JSON_REQUIRED 0 0 0 (WEB_JSON_INT 0 9)]"

definition sample_tree :: json where
  "sample_tree = JObject [([Some [0x6E]], JNumber NUMBER_INTEGRAL 5)]"

text \<open>The body \<^verbatim>\<open>{"n":5}\<close>.\<close>

definition sample_body :: "byte list" where
  "sample_body = [0x7B, 0x22, 0x6E, 0x22, 0x3A, 0x35, 0x7D]"

lemma sample_spelled: "json_body sample_tree sample_body"
proof -
  have d: "digits_text [0x35]" by (simp add: digits_text_def is_digit_def)
  have n: "number_text [0x35]" 
    unfolding number_text_def using d
    by (intro exI [of _ "[]"] exI [of _ "[0x35]"]) (simp add: int_text_def frac_text_def exp_text_def)
  have m: "number_meaning [0x35] = (NUMBER_INTEGRAL, 5)" by code_simp
  have c: "string_chars [0x6E, 0x22] [Some [0x6E]]"
    using chars_plain [OF _ _ _ _ chars_end, of "0x6E"] by simp
  have "spells_members 7 [([Some [0x6E]], JNumber NUMBER_INTEGRAL 5)] ([] @ 0x22 # [0x6E, 0x22] @ [] @ 0x3A # [] @ [0x35] @ [] @ [0x7D])"
    by (rule spells_last_member [OF _ c _ _ spells_number [OF n m]]) simp_all
  from spells_object [OF this] have "spells (Suc 7) sample_tree sample_body"
    by (simp add: sample_tree_def sample_body_def MAX_MEMBERS_def)
  then have "spells WEB_JSON_MAX_DEPTH sample_tree sample_body" by (simp add: WEB_JSON_MAX_DEPTH_def)
  then show ?thesis unfolding json_body_def by (intro exI [of _ "[]"] exI [of _ sample_body]) simp
qed

lemma sample_fits: "schema_fits 8 sample_schema"
  by (simp add: schema_fits_def sample_schema_def SIZEOF_INT64_def)


section \<open>Properties\<close>


text \<open>C2: reading while parsing does what reading the finished tree would do: for a schema whose slots lie inside the
  destination, the answer to a body is computed from the tree the body spells, with every store and every report.\<close>

theorem decoding_reads_the_tree:
  assumes "schema_fits n fs" "json_body j body"
  shows "web_json_decode body fs n cycles err g = Some (decode_result n cycles err g (put_body j fs (start_reader [] n)))"
  by (rule decode_spelled [OF assms])

theorem decoding_reads_the_tree_witness:
  "\<forall>err g. web_json_decode sample_body sample_schema 8 0 err g =
     Some (decode_result 8 0 err g (put_body sample_tree sample_schema (start_reader [] 8)))"
  using decoding_reads_the_tree [OF sample_fits sample_spelled] by blast



text \<open>C14: the destination keeps its size; a refused body leaves it all zero, an accepted one leaves the error record and
  the request ids alone.\<close>

theorem refused_body_leaves_no_data:
  assumes "schema_fits n fs" "web_json_decode body fs n cycles err g = Some (rc, dest, e, g')"
  shows "length dest = n \<and> (if rc = None then e = err \<and> g' = g else dest = replicate n 0)"
proof -
  obtain r where r: "read_body fs body n = Some r" "\<not> failed r \<longleftrightarrow> (\<exists>j. json_body j body)"
    using read_body_syntax [where schema = fs and body = body and n = n] by blast
  have d: "decode_result n cycles err g r = (rc, dest, e, g')" using assms(2) r(1) by (simp add: web_json_decode_def)
  show ?thesis
  proof (cases "rc = None")
    case True
    with d have a: "decode_result n cycles err g r = (None, jr_dest r, err, g)"
      using decode_result_accepted [of n cycles err g r] by simp
    have "\<not> failed r" using decode_result_code [of n cycles err g r] d True by (auto split: if_splits)
    then obtain j where "json_body j body" using r(2) by blast
    then have "r = put_body j fs (start_reader [] n)" using read_body_tree [OF assms(1)] r(1) by simp
    then show ?thesis using put_body_clean(2) [OF assms(1), of j] a d True by simp
  next
    case False
    then show ?thesis using decode_result_refused [of n cycles err g r] d by auto
  qed
qed

theorem refused_body_leaves_no_data_witness:
  "\<forall>err g. \<exists>rc dest e g'. web_json_decode [] sample_schema 8 0 err g = Some (rc, dest, e, g') \<and> length dest = 8 \<and>
     (if rc = None then e = err \<and> g' = g else dest = replicate 8 0)"
proof (intro allI)
  fix err g
  obtain rc dest e g' where "web_json_decode [] sample_schema 8 0 err g = Some (rc, dest, e, g')"
    using malformed_outcome [of "[]" sample_schema 8 0 err g] by blast
  then show "\<exists>rc dest e g'. web_json_decode [] sample_schema 8 0 err g = Some (rc, dest, e, g') \<and> length dest = 8 \<and>
     (if rc = None then e = err \<and> g' = g else dest = replicate 8 0)"
    using refused_body_leaves_no_data [OF sample_fits] by blast
qed



end
