(* ===== verification/Json_Writer.thy ===== *)
theory Json_Writer
  imports Api_Validation
begin

text \<open>
  The bounded writer of response bodies, \<^verbatim>\<open>modules/web-api/lib/json_writer.c\<close>: its record, its operations and the
  calls a handler makes of it (\<open>call\<close>, \<open>perform\<close>).
\<close>

section \<open>The writer\<close>

definition WEB_JSON_WRITER_MAX_DEPTH :: nat where "WEB_JSON_WRITER_MAX_DEPTH = 8"

datatype level_kind = KIND_ROOT | KIND_OBJECT | KIND_ARRAY

text \<open>\<open>jw_text\<close> is what the buffer holds before \<^verbatim>\<open>pos\<close>, which is its length.\<close>

record json_writer =
  jw_text :: string
  jw_cap :: nat
  jw_depth :: nat
  jw_kind :: "level_kind list"
  jw_has_value :: "bool list"
  jw_after_key :: bool
  jw_failed :: bool

definition web_json_writer_init :: "bool \<Rightarrow> nat \<Rightarrow> json_writer" where
  "web_json_writer_init buf_is_null cap =
     \<lparr>jw_text = [], jw_cap = cap, jw_depth = 0, jw_kind = replicate (WEB_JSON_WRITER_MAX_DEPTH + 1) KIND_ROOT,
      jw_has_value = replicate (WEB_JSON_WRITER_MAX_DEPTH + 1) False, jw_after_key = False,
      jw_failed = (buf_is_null \<or> cap = 0)\<rparr>"

text \<open>\<^verbatim>\<open>w->failed = true\<close>.\<close>

definition jw_fail :: "json_writer \<Rightarrow> json_writer" where
  "jw_fail w = w\<lparr>jw_failed := True\<rparr>"

definition put_text :: "string \<Rightarrow> json_writer \<Rightarrow> json_writer" where
  "put_text s w =
     (if jw_failed w then w
      else if jw_cap w \<le> length (jw_text w) + length s then jw_fail w
      else w\<lparr>jw_text := jw_text w @ s\<rparr>)"

definition begin_value :: "json_writer \<Rightarrow> json_writer" where
  "begin_value w =
     (if jw_failed w then w
      else case jw_kind w ! jw_depth w of
             KIND_ROOT \<Rightarrow> if jw_has_value w ! 0 then jw_fail w else w
           | KIND_OBJECT \<Rightarrow> (if jw_after_key w then w else jw_fail w)\<lparr>jw_after_key := False\<rparr>
           | KIND_ARRAY \<Rightarrow> if jw_has_value w ! jw_depth w then put_text '','' w else w)"

definition end_value :: "json_writer \<Rightarrow> json_writer" where
  "end_value w = (if jw_failed w then w else w\<lparr>jw_has_value := (jw_has_value w)[jw_depth w := True]\<rparr>)"

definition open_level :: "level_kind \<Rightarrow> string \<Rightarrow> json_writer \<Rightarrow> json_writer" where
  "open_level k token w =
     (let w1 = begin_value w in
      if jw_failed w1 then w1
      else if WEB_JSON_WRITER_MAX_DEPTH \<le> jw_depth w1 then jw_fail w1
      else let w2 = put_text token w1; d = jw_depth w2 + 1 in
           w2\<lparr>jw_depth := d, jw_kind := (jw_kind w2)[d := k], jw_has_value := (jw_has_value w2)[d := False]\<rparr>)"

definition close_level :: "level_kind \<Rightarrow> string \<Rightarrow> json_writer \<Rightarrow> json_writer" where
  "close_level k token w =
     (if jw_failed w then w
      else if jw_depth w = 0 \<or> jw_kind w ! jw_depth w \<noteq> k \<or> jw_after_key w then jw_fail w
      else let w1 = put_text token w in end_value (w1\<lparr>jw_depth := jw_depth w1 - 1\<rparr>))"

definition web_json_object_begin :: "json_writer \<Rightarrow> json_writer" where
  "web_json_object_begin w = open_level KIND_OBJECT ''{'' w"

definition web_json_object_end :: "json_writer \<Rightarrow> json_writer" where
  "web_json_object_end w = close_level KIND_OBJECT ''}'' w"

definition web_json_array_begin :: "json_writer \<Rightarrow> json_writer" where
  "web_json_array_begin w = open_level KIND_ARRAY ''['' w"

definition web_json_array_end :: "json_writer \<Rightarrow> json_writer" where
  "web_json_array_end w = close_level KIND_ARRAY '']'' w"

definition web_json_key :: "string option \<Rightarrow> json_writer \<Rightarrow> json_writer" where
  "web_json_key name w =
     (if jw_failed w then w
      else case name of
             None \<Rightarrow> jw_fail w
           | Some s \<Rightarrow>
               if jw_kind w ! jw_depth w \<noteq> KIND_OBJECT \<or> jw_after_key w then jw_fail w
               else let w1 = (if jw_has_value w ! jw_depth w then put_text '','' w else w);
                        w2 = put_text (dq @ '':'') (put_text s (put_text dq w1))
                    in w2\<lparr>jw_after_key := \<not> jw_failed w2\<rparr>)"

definition web_json_null :: "json_writer \<Rightarrow> json_writer" where
  "web_json_null w = end_value (put_text ''null'' (begin_value w))"

definition web_json_string :: "string option \<Rightarrow> json_writer \<Rightarrow> json_writer" where
  "web_json_string t w =
     (case t of
        None \<Rightarrow> jw_fail w
      | Some s \<Rightarrow>
          let w1 = put_text dq (begin_value w) in
          if jw_failed w1 then w1
          else case api_json_append_escaped (jw_cap w1) (jw_text w1) s of
                 Inl _ \<Rightarrow> jw_fail w1
               | Inr text \<Rightarrow> end_value (put_text dq (w1\<lparr>jw_text := text\<rparr>)))"

definition web_json_string_or_null :: "string option \<Rightarrow> json_writer \<Rightarrow> json_writer" where
  "web_json_string_or_null t w = (case t of None \<Rightarrow> web_json_null w | Some s \<Rightarrow> web_json_string (Some s) w)"

definition web_json_bool :: "bool \<Rightarrow> json_writer \<Rightarrow> json_writer" where
  "web_json_bool b w = end_value (put_text (if b then ''true'' else ''false'') (begin_value w))"

text \<open>\<^verbatim>\<open>PRId64\<close>.\<close>

definition int_dec :: "int \<Rightarrow> string" where
  "int_dec v = (if v < 0 then ''-'' @ nat_dec (nat (- v)) else nat_dec (nat v))"

definition web_json_int :: "int \<Rightarrow> json_writer \<Rightarrow> json_writer" where
  "web_json_int v w = end_value (put_text (int_dec v) (begin_value w))"

definition web_json_decimal :: "u64 \<Rightarrow> json_writer \<Rightarrow> json_writer" where
  "web_json_decimal v w = end_value (put_text (dq @ nat_dec (unat v) @ dq) (begin_value w))"

text \<open>\<open>saved\<close> is a copy made earlier, so its text is the beginning of what the buffer holds.\<close>

definition web_json_writer_rollback :: "json_writer \<Rightarrow> json_writer \<Rightarrow> json_writer" where
  "web_json_writer_rollback saved w = saved\<lparr>jw_text := take (length (jw_text saved)) (jw_text w)\<rparr>"

definition web_json_writer_room :: "json_writer \<Rightarrow> nat" where
  "web_json_writer_room w =
     (if jw_failed w \<or> jw_cap w \<le> length (jw_text w) + 1 then 0 else jw_cap w - length (jw_text w) - 1)"

definition web_json_writer_finish :: "json_writer \<Rightarrow> errno + nat" where
  "web_json_writer_finish w =
     (if jw_failed w \<or> jw_depth w \<noteq> 0 \<or> jw_after_key w \<or> \<not> jw_has_value w ! 0 then Inl ENOMEM
      else Inr (length (jw_text w)))"

text \<open>What a handler may call between \<^verbatim>\<open>init\<close> and \<^verbatim>\<open>finish\<close>. \<open>Attempt\<close> is the use of \<^verbatim>\<open>rollback\<close>: copy the writer, write,
  and put it back when too little room is left.\<close>

datatype call =
    Object_Begin | Object_End | Array_Begin | Array_End | Write_Key "string option" | Write_String_Or_Null "string option"
  | Write_String "string option" | Write_Bool bool | Write_Null | Write_Int int | Write_Decimal u64 | Attempt "call list" nat

fun perform :: "call \<Rightarrow> json_writer \<Rightarrow> json_writer" where
  "perform Object_Begin w = web_json_object_begin w"
| "perform Object_End w = web_json_object_end w"
| "perform Array_Begin w = web_json_array_begin w"
| "perform Array_End w = web_json_array_end w"
| "perform (Write_Key s) w = web_json_key s w"
| "perform (Write_String s) w = web_json_string s w"
| "perform (Write_String_Or_Null s) w = web_json_string_or_null s w"
| "perform (Write_Bool b) w = web_json_bool b w"
| "perform Write_Null w = web_json_null w"
| "perform (Write_Int v) w = web_json_int v w"
| "perform (Write_Decimal v) w = web_json_decimal v w"
| "perform (Attempt cs reserve) w =
     (let w' = fold perform cs w in
      if web_json_writer_room w' < reserve then web_json_writer_rollback w w' else w')"

end
