(* ===== verification/Json_Writer_Text.thy ===== *)
theory Json_Writer_Text
  imports Json_Writer "HOL-Library.Sublist"
begin

text \<open>
  What the writer builds: a value (\<open>response\<close>) and its text (\<open>render\<close>), a document with open levels (\<open>document\<close>), the
  invariant that the writer holds one (\<open>holds_doc\<close>), and that every call keeps it or fails.
\<close>

section \<open>Values and their text\<close>

datatype response =
    R_Null | R_Bool bool | R_Int int | R_Decimal u64 | R_String string
  | R_Array "response list" | R_Object "(string \<times> response) list"

fun commas :: "string list \<Rightarrow> string" where
  "commas [] = []"
| "commas [s] = s"
| "commas (s # t # r) = s @ '','' @ commas (t # r)"

lemma commas_snoc: "commas (xs @ [x]) = (if xs = [] then x else commas xs @ '','' @ x)"
  by (induction xs rule: commas.induct) auto

definition member_text :: "string \<times> string \<Rightarrow> string" where
  "member_text m = dq @ fst m @ dq @ '':'' @ snd m"

primrec render :: "response \<Rightarrow> string" where
  "render R_Null = ''null''"
| "render (R_Bool b) = (if b then ''true'' else ''false'')"
| "render (R_Int v) = int_dec v"
| "render (R_Decimal v) = dq @ nat_dec (unat v) @ dq"
| "render (R_String s) = dq @ escape_text s @ dq"
| "render (R_Array vs) = ''['' @ commas (map render vs) @ '']''"
| "render (R_Object ms) = ''{'' @ commas (map member_text (map (map_prod id render) ms)) @ ''}''"

primrec height :: "response \<Rightarrow> nat" where
  "height R_Null = 0"
| "height (R_Bool b) = 0"
| "height (R_Int v) = 0"
| "height (R_Decimal v) = 0"
| "height (R_String s) = 0"
| "height (R_Array vs) = Suc (fold max (map height vs) 0)"
| "height (R_Object ms) = Suc (fold max (map snd (map (map_prod id height) ms)) 0)"

lemma fold_max_le: "fold max xs (m :: nat) \<le> k \<longleftrightarrow> m \<le> k \<and> (\<forall>x \<in> set xs. x \<le> k)"
  by (induction xs arbitrary: m) auto

section \<open>A document being written\<close>

text \<open>The levels that are open, the innermost first; a member name that awaits its value.\<close>

datatype frame = F_Array "response list" | F_Object "(string \<times> response) list" "string option"

type_synonym document = "response option \<times> frame list"

fun inner :: "frame \<Rightarrow> string" where
  "inner (F_Array vs) = ''['' @ commas (map render vs)"
| "inner (F_Object ms k) = ''{'' @ commas (map member_text (map (map_prod id render) ms)) @
     (case k of None \<Rightarrow> [] | Some k \<Rightarrow> (if ms = [] then [] else '','') @ dq @ k @ dq @ '':'')"

fun sep :: "frame list \<Rightarrow> string" where
  "sep (F_Array vs # fs) = (if vs = [] then [] else '','')"
| "sep _ = []"

fun below :: "frame list \<Rightarrow> string" where
  "below [] = []"
| "below (f # fs) = below fs @ inner f @ sep [f]"

fun doc_text :: "document \<Rightarrow> string" where
  "doc_text (doc, []) = (case doc of None \<Rightarrow> [] | Some v \<Rightarrow> render v)"
| "doc_text (doc, f # fs) = below fs @ inner f"

fun slot_free :: "document \<Rightarrow> bool" where
  "slot_free (doc, []) = (doc = None)"
| "slot_free (doc, F_Array vs # fs) = True"
| "slot_free (doc, F_Object ms k # fs) = (k \<noteq> None)"

fun place :: "response \<Rightarrow> document \<Rightarrow> document" where
  "place v (doc, []) = (Some v, [])"
| "place v (doc, F_Array vs # fs) = (doc, F_Array (vs @ [v]) # fs)"
| "place v (doc, F_Object ms k # fs) = (doc, F_Object (ms @ [(the k, v)]) None # fs)"

fun closed_frame :: "frame \<Rightarrow> response" where
  "closed_frame (F_Array vs) = R_Array vs"
| "closed_frame (F_Object ms k) = R_Object ms"

fun frame_values :: "frame \<Rightarrow> response list" where
  "frame_values (F_Array vs) = vs"
| "frame_values (F_Object ms k) = map snd ms"

fun frame_kind :: "frame \<Rightarrow> level_kind" where
  "frame_kind (F_Array vs) = KIND_ARRAY"
| "frame_kind (F_Object ms k) = KIND_OBJECT"

fun awaits :: "frame list \<Rightarrow> bool" where
  "awaits (F_Object ms (Some k) # fs) = True"
| "awaits _ = False"

lemma place_text: "slot_free a \<Longrightarrow> doc_text (place v a) = doc_text a @ sep (snd a) @ render v"
proof -
  assume free: "slot_free a"
  obtain doc fs where a: "a = (doc, fs)" by (rule prod.exhaust)
  show ?thesis
  proof (cases fs)
    case (Cons f r)
    with free show ?thesis by (cases f) (auto simp: a commas_snoc member_text_def)
  qed (use free in \<open>simp add: a\<close>)
qed

lemma below_text: "below fs = doc_text (None, fs) @ sep fs"
proof (cases fs)
  case (Cons f r)
  then show ?thesis by (cases f) simp_all
qed simp

lemma closed_text: "\<not> awaits [f] \<Longrightarrow> inner f @ (if frame_kind f = KIND_ARRAY then '']'' else ''}'') = render (closed_frame f)"
proof (cases f)
  case (F_Object ms k)
  assume "\<not> awaits [f]"
  with F_Object show ?thesis by (cases k) simp_all
qed simp

section \<open>The writer holds a document\<close>

primrec levels :: "frame list \<Rightarrow> bool" where
  "levels [] = True"
| "levels (f # fs) \<longleftrightarrow> (\<forall>v \<in> set (frame_values f). height v + Suc (length fs) \<le> WEB_JSON_WRITER_MAX_DEPTH) \<and>
     Suc (length fs) \<le> WEB_JSON_WRITER_MAX_DEPTH \<and> (fs \<noteq> [] \<longrightarrow> slot_free (None, fs)) \<and> levels fs"

definition marks :: "json_writer \<Rightarrow> document \<Rightarrow> bool" where
  "marks w a \<longleftrightarrow> (case a of (doc, fs) \<Rightarrow>
     length (jw_kind w) = WEB_JSON_WRITER_MAX_DEPTH + 1 \<and> length (jw_has_value w) = WEB_JSON_WRITER_MAX_DEPTH + 1 \<and>
     jw_kind w ! 0 = KIND_ROOT \<and> (jw_has_value w ! 0 \<longleftrightarrow> doc \<noteq> None) \<and>
     (\<forall>i < length fs. jw_kind w ! Suc i = frame_kind (rev fs ! i) \<and>
        (jw_has_value w ! Suc i \<longleftrightarrow> frame_values (rev fs ! i) \<noteq> [])))"

definition holds_doc :: "json_writer \<Rightarrow> document \<Rightarrow> bool" where
  "holds_doc w a \<longleftrightarrow> (case a of (doc, fs) \<Rightarrow>
     jw_text w = doc_text a \<and> length (jw_text w) < jw_cap w \<and> jw_depth w = length fs \<and> marks w a \<and> levels fs \<and>
     (jw_after_key w \<longleftrightarrow> awaits fs) \<and> (fs \<noteq> [] \<longrightarrow> doc = None) \<and>
     (\<forall>v. doc = Some v \<longrightarrow> height v \<le> WEB_JSON_WRITER_MAX_DEPTH))"

section \<open>One call\<close>

lemma put_text_ok:
  "\<not> jw_failed (put_text s w) \<longleftrightarrow> \<not> jw_failed w \<and> length (jw_text w) + length s < jw_cap w"
  "\<not> jw_failed (put_text s w) \<Longrightarrow> put_text s w = w\<lparr>jw_text := jw_text w @ s\<rparr>"
  by (auto simp: put_text_def jw_fail_def split: if_splits)

lemma put_text_fields [simp]:
  "jw_cap (put_text s w) = jw_cap w" "jw_depth (put_text s w) = jw_depth w" "jw_kind (put_text s w) = jw_kind w"
  "jw_has_value (put_text s w) = jw_has_value w" "jw_after_key (put_text s w) = jw_after_key w"
  by (simp_all add: put_text_def jw_fail_def)

lemma end_value_failed [simp]: "jw_failed (end_value w) = jw_failed w"
  by (simp add: end_value_def)

lemma jw_fail_failed [simp]: "jw_failed (jw_fail w)"
  by (simp add: jw_fail_def)

lemma marks_top:
  "marks w (doc, f # fs) \<Longrightarrow> jw_kind w ! Suc (length fs) = frame_kind f \<and>
     (jw_has_value w ! Suc (length fs) \<longleftrightarrow> frame_values f \<noteq> [])"
  unfolding marks_def by (auto simp: nth_append)

lemma begin_ok:
  assumes "holds_doc w a" "\<not> jw_failed (begin_value w)"
  shows "\<not> jw_failed w" "slot_free a" "begin_value w = w\<lparr>jw_after_key := False, jw_text := jw_text w @ sep (snd a)\<rparr>"
    "length (jw_text w @ sep (snd a)) < jw_cap w"
proof -
  obtain doc fs where a: "a = (doc, fs)" by (rule prod.exhaust)
  show f: "\<not> jw_failed w" using assms(2) by (auto simp: begin_value_def)
  note h = assms(1) [unfolded holds_doc_def a prod.case]
  have all: "slot_free a \<and> begin_value w = w\<lparr>jw_after_key := False, jw_text := jw_text w @ sep (snd a)\<rparr> \<and>
      length (jw_text w @ sep (snd a)) < jw_cap w"
  proof (cases fs)
    case Nil
    then have "jw_kind w ! jw_depth w = KIND_ROOT" "jw_has_value w ! 0 \<longleftrightarrow> doc \<noteq> None" "\<not> jw_after_key w"
      using h by (simp_all add: marks_def)
    then show ?thesis using assms(2) f h Nil by (auto simp: begin_value_def a split: if_splits)
  next
    case (Cons g r)
    have d0: "marks w (doc, fs)" "jw_depth w = length fs" using h by blast+
    note d = d0 [unfolded Cons]
    then have m: "jw_kind w ! jw_depth w = frame_kind g" "jw_has_value w ! jw_depth w \<longleftrightarrow> frame_values g \<noteq> []"
      using marks_top [OF d(1)] by simp_all
    show ?thesis
    proof (cases g)
      case (F_Array vs)
      then have "\<not> jw_after_key w" using h Cons by simp
      have b: "begin_value w = (if vs = [] then w else put_text '','' w)" using f m F_Array by (simp add: begin_value_def)
      show ?thesis
      proof (cases "vs = []")
        case True
        moreover have "length (jw_text w) < jw_cap w" using h by blast
        ultimately show ?thesis using b \<open>\<not> jw_after_key w\<close> F_Array Cons by (simp add: a)
      next
        case False
        then have p: "\<not> jw_failed (put_text '','' w)" using assms(2) b by simp
        then show ?thesis
          using b False put_text_ok(1) [of "'',''" w] put_text_ok(2) [OF p] \<open>\<not> jw_after_key w\<close> F_Array Cons by (simp add: a)
      qed
    next
      case (F_Object ms k)
      with m show ?thesis using assms(2) f h Cons by (cases k) (auto simp: begin_value_def jw_fail_def a split: if_splits)
    qed
  qed
  from all show "slot_free a" "begin_value w = w\<lparr>jw_after_key := False, jw_text := jw_text w @ sep (snd a)\<rparr>"
    "length (jw_text w @ sep (snd a)) < jw_cap w" by blast+
qed

lemma end_ok:
  assumes "holds_doc w (doc, fs)" "slot_free (doc, fs)" "\<not> jw_failed w"
    "length (jw_text w @ sep fs @ render v) < jw_cap w" "height v + length fs \<le> WEB_JSON_WRITER_MAX_DEPTH"
  shows "holds_doc (end_value (w\<lparr>jw_after_key := False, jw_text := jw_text w @ sep fs @ render v\<rparr>)) (place v (doc, fs))"
proof -
  note h = assms(1) [unfolded holds_doc_def prod.case]
  have t: "jw_text w @ sep fs @ render v = doc_text (place v (doc, fs))" using place_text [OF assms(2), of v] h by simp
  show ?thesis
  proof (cases fs)
    case Nil
    then show ?thesis using h assms t by (auto simp: holds_doc_def end_value_def marks_def)
  next
    case (Cons g r)
    have len: "Suc (length r) \<le> WEB_JSON_WRITER_MAX_DEPTH" using h Cons by simp
    obtain g' where g': "place v (doc, fs) = (doc, g' # r)" "frame_kind g' = frame_kind g" "frame_values g' = frame_values g @ [v]"
      "\<not> awaits (g' # r)"
      using Cons by (cases g) simp_all
    have m: "marks (end_value (w\<lparr>jw_after_key := False, jw_text := x\<rparr>)) (doc, g' # r)" for x
      using h Cons g'(2,3) assms(3) len unfolding marks_def end_value_def
      by (auto simp: nth_append nth_list_update All_less_Suc)
    have cap: "length (below r @ inner g') < jw_cap w" using assms(4) unfolding t g'(1) by simp
    show ?thesis
      using h assms(3,5) t Cons g' m len cap unfolding g'(1) holds_doc_def by (auto simp: end_value_def)
  qed
qed

lemma value_ok:
  assumes "holds_doc w a" "\<not> jw_failed (put_text (render v) (begin_value w))" "height v = 0"
  shows "holds_doc (end_value (put_text (render v) (begin_value w))) (place v a)"
proof -
  obtain doc fs where a: "a = (doc, fs)" by (rule prod.exhaust)
  have b: "\<not> jw_failed (begin_value w)" using assms(2) put_text_ok(1) by blast
  note bo = begin_ok [OF assms(1) b, unfolded a snd_conv]
  have d: "length fs \<le> WEB_JSON_WRITER_MAX_DEPTH" using assms(1) by (cases fs) (simp_all add: holds_doc_def a)
  have "length (jw_text w @ sep fs @ render v) < jw_cap w" using assms(2) put_text_ok(1) [of "render v" "begin_value w"] by (simp add: bo(3))
  from end_ok [OF assms(1) [unfolded a] bo(2,1) this] assms(3) d
  show ?thesis using put_text_ok(2) [OF assms(2)] by (simp add: bo(3) a)
qed

lemma open_ok:
  assumes "holds_doc w a" "\<not> jw_failed (open_level k token w)"
    "token = inner f" "frame_kind f = k" "frame_values f = []" "\<not> awaits [f]"
  shows "holds_doc (open_level k token w) (fst a, f # snd a)"
proof -
  obtain doc fs where a: "a = (doc, fs)" by (rule prod.exhaust)
  have b: "\<not> jw_failed (begin_value w)" and dep: "jw_depth (begin_value w) < WEB_JSON_WRITER_MAX_DEPTH"
    and p: "\<not> jw_failed (put_text token (begin_value w))"
    using assms(2) by (auto simp: open_level_def Let_def split: if_splits)
  note bo = begin_ok [OF assms(1) b, unfolded a snd_conv]
  note h = assms(1) [unfolded holds_doc_def a prod.case]
  have len: "Suc (length fs) \<le> WEB_JSON_WRITER_MAX_DEPTH" using dep h by (simp add: bo(3))
  have o: "open_level k token w = w\<lparr>jw_after_key := False, jw_text := jw_text w @ sep fs @ token, jw_depth := Suc (length fs),
      jw_kind := (jw_kind w)[Suc (length fs) := k], jw_has_value := (jw_has_value w)[Suc (length fs) := False]\<rparr>"
    using b dep put_text_ok(2) [OF p] h by (simp add: open_level_def Let_def bo(3))
  have cap: "length (jw_text w @ sep fs @ token) < jw_cap w" using put_text_ok(1) [of token "begin_value w"] p by (simp add: bo(3))
  have doc: "doc = None" using h bo(2) a by (cases fs) auto
  have t: "jw_text w @ sep fs @ token = doc_text (doc, f # fs)" using h below_text [of fs] doc by (simp add: assms(3))
  have cap2: "length (below fs @ inner f) < jw_cap w" using cap unfolding t by simp
  have aw: "\<not> awaits (f # fs)" using assms(6) by (cases f; cases fs) (auto elim: awaits.elims)
  have len': "length fs < WEB_JSON_WRITER_MAX_DEPTH" using len by simp
  have m: "marks (open_level k token w) (doc, f # fs)"
    using h len' assms(4,5) unfolding o marks_def by (auto simp: nth_append nth_list_update All_less_Suc)
  show ?thesis
    using h m len cap2 t aw doc assms(5) bo(2) a unfolding holds_doc_def by (auto simp: o)
qed

lemma levels_rest: "levels (f # fs) \<Longrightarrow> slot_free (None, fs)"
  by (cases fs) auto

lemma fold_max_add: "fold max xs m + c \<le> k \<longleftrightarrow> m + c \<le> k \<and> (\<forall>x \<in> set xs. x + c \<le> (k :: nat))"
proof (induction xs arbitrary: m)
  case (Cons x xs)
  have "max x m + c \<le> k \<longleftrightarrow> x + c \<le> k \<and> m + c \<le> k" by (auto simp: max_def)
  with Cons show ?case by auto
qed simp

lemma closed_height:
  assumes "levels (f # fs)"
  shows "height (closed_frame f) + length fs \<le> WEB_JSON_WRITER_MAX_DEPTH"
proof (cases f)
  case (F_Array vs)
  then show ?thesis using assms fold_max_add [of "map height vs" 0 "Suc (length fs)" WEB_JSON_WRITER_MAX_DEPTH] by simp
next
  case (F_Object ms k)
  then show ?thesis
    using assms fold_max_add [of "map (height \<circ> snd) ms" 0 "Suc (length fs)" WEB_JSON_WRITER_MAX_DEPTH]
    by (simp add: comp_def)
qed

lemma holds_frame:
  assumes "holds_doc w (doc, f # fs)"
  shows "jw_depth w = Suc (length fs)" "marks w (doc, f # fs)" "levels (f # fs)" "doc = None"
    "jw_text w = below fs @ inner f" "length (jw_text w) < jw_cap w" "jw_after_key w \<longleftrightarrow> awaits (f # fs)"
proof -
  note h = assms [unfolded holds_doc_def prod.case]
  show "marks w (doc, f # fs)" "levels (f # fs)" "length (jw_text w) < jw_cap w" "jw_after_key w \<longleftrightarrow> awaits (f # fs)" using h by blast+
  show "jw_depth w = Suc (length fs)" "doc = None" "jw_text w = below fs @ inner f" using h by simp_all
qed

lemma close_ok:
  assumes "holds_doc w (doc, f # fs)" "\<not> jw_failed (close_level k token w)"
    "token = (if k = KIND_ARRAY then '']'' else ''}'')"
  shows "holds_doc (close_level k token w) (place (closed_frame f) (None, fs))"
proof -
  note d = holds_frame [OF assms(1)]
  have p: "\<not> jw_failed (put_text token w)" and k: "frame_kind f = k" "\<not> awaits (f # fs)" "\<not> jw_failed w"
    using assms(2) d marks_top [OF d(2)] by (auto simp: close_level_def Let_def split: if_splits)
  have c: "close_level k token w = end_value (w\<lparr>jw_text := jw_text w @ token, jw_depth := length fs\<rparr>)"
    using put_text_ok(2) [OF p] k d marks_top [OF d(2)] by (simp add: close_level_def Let_def)
  have free: "slot_free (None, fs)" by (rule levels_rest [OF d(3)])
  have aw: "\<not> awaits [f]" using k(2) by (cases f; cases fs) (auto elim: awaits.elims)
  have tx: "jw_text w @ token = doc_text (None, fs) @ sep fs @ render (closed_frame f)"
  proof -
    have "inner f @ token = render (closed_frame f)" using closed_text [OF aw] k(1) assms(3) by simp
    then show ?thesis using below_text [of fs] d(5) by simp
  qed
  let ?w0 = "w\<lparr>jw_depth := length fs, jw_text := doc_text (None, fs), jw_after_key := awaits fs\<rparr>"
  have cap: "length (jw_text w @ token) < jw_cap w" using put_text_ok(1) [of token w] p by simp
  have "holds_doc ?w0 (None, fs)"
    using d(2,3,4) cap tx unfolding holds_doc_def marks_def by (auto simp: nth_append split: if_splits)
  from end_ok [OF this free _ _ closed_height [OF d(3)]] have
    "holds_doc (end_value (w\<lparr>jw_depth := length fs, jw_after_key := False, jw_text := jw_text w @ token\<rparr>)) (place (closed_frame f) (None, fs))"
    using k(3) cap tx by simp
  moreover have "w\<lparr>jw_depth := length fs, jw_after_key := False, jw_text := jw_text w @ token\<rparr> =
      w\<lparr>jw_text := jw_text w @ token, jw_depth := length fs\<rparr>"
    using d(7) k(2) by simp
  ultimately show ?thesis by (simp add: c)
qed

lemma key_ok:
  assumes "holds_doc w a" "\<not> jw_failed (web_json_key name w)"
  shows "\<exists>ms r s. snd a = F_Object ms None # r \<and> name = Some s \<and>
    holds_doc (web_json_key name w) (fst a, F_Object ms (Some s) # r)"
proof -
  obtain doc fs where a: "a = (doc, fs)" by (rule prod.exhaust)
  obtain s where s: "name = Some s" using assms(2) by (cases name) (auto simp: web_json_key_def split: if_splits)
  note h = assms(1) [unfolded holds_doc_def a prod.case]
  have f: "\<not> jw_failed w" "jw_kind w ! jw_depth w = KIND_OBJECT" "\<not> jw_after_key w"
    using assms(2) by (auto simp: web_json_key_def s split: if_splits)
  have "fs \<noteq> []"
  proof
    assume "fs = []"
    with h have "jw_kind w ! jw_depth w = KIND_ROOT" by (simp add: marks_def)
    with f(2) show False by simp
  qed
  then obtain g r where fs: "fs = g # r" by (cases fs) auto
  note d = holds_frame [OF assms(1) [unfolded a fs]]
  obtain ms where g: "g = F_Object ms None"
  proof (cases g)
    case (F_Array vs)
    then show thesis using marks_top [OF d(2)] f(2) d(1) by simp
  next
    case (F_Object ms k)
    then show thesis using that f(3) d(7) by (cases k) simp_all
  qed
  have hv: "jw_has_value w ! jw_depth w \<longleftrightarrow> ms \<noteq> []" using marks_top [OF d(2)] d(1) g by simp
  define w1 where "w1 = (if jw_has_value w ! jw_depth w then put_text '','' w else w)"
  have key: "web_json_key name w = (put_text (dq @ '':'') (put_text s (put_text dq w1)))\<lparr>jw_after_key := True\<rparr>"
    and p3: "\<not> jw_failed (put_text (dq @ '':'') (put_text s (put_text dq w1)))"
    using assms(2) f by (simp_all add: web_json_key_def s w1_def Let_def)
  have p2: "\<not> jw_failed (put_text s (put_text dq w1))" using p3 put_text_ok(1) by blast
  have p1: "\<not> jw_failed (put_text dq w1)" using p2 put_text_ok(1) by blast
  have p0: "\<not> jw_failed w1" using p1 put_text_ok(1) by blast
  have w1: "w1 = w\<lparr>jw_text := jw_text w @ (if ms = [] then [] else '','')\<rparr>"
    using p0 put_text_ok(2) [of "'',''" w] hv by (auto simp: w1_def)
  have t: "web_json_key name w = w\<lparr>jw_text := jw_text w @ (if ms = [] then [] else '','') @ dq @ s @ dq @ '':'', jw_after_key := True\<rparr>"
    unfolding key put_text_ok(2) [OF p3] unfolding put_text_ok(2) [OF p2] unfolding put_text_ok(2) [OF p1] by (simp add: w1)
  have cap: "length (jw_text w @ (if ms = [] then [] else '','') @ dq @ s @ dq @ '':'') < jw_cap w"
    using put_text_ok(1) [of "dq @ '':''" "put_text s (put_text dq w1)"] p3
    unfolding put_text_ok(2) [OF p2] unfolding put_text_ok(2) [OF p1] by (simp add: w1)
  have "marks (web_json_key name w) (doc, F_Object ms (Some s) # r)"
    using d(2) g unfolding t marks_def by (auto simp: All_less_Suc nth_append)
  then have "holds_doc (web_json_key name w) (doc, F_Object ms (Some s) # r)"
    using d(1,3,4,5) cap g unfolding holds_doc_def t by auto
  then show ?thesis using a fs g s by auto
qed

lemma string_ok:
  assumes "holds_doc w a" "\<not> jw_failed (web_json_string (Some s) w)"
  shows "holds_doc (web_json_string (Some s) w) (place (R_String s) a)"
proof -
  obtain doc fs where a: "a = (doc, fs)" by (rule prod.exhaust)
  let ?w1 = "put_text dq (begin_value w)"
  obtain out where app: "api_json_append_escaped (jw_cap ?w1) (jw_text ?w1) s = Inr out" and p1: "\<not> jw_failed ?w1"
    and ws: "web_json_string (Some s) w = end_value (put_text dq (?w1\<lparr>jw_text := out\<rparr>))"
    using assms(2) by (auto simp: web_json_string_def Let_def split: sum.splits if_splits)
  have b: "\<not> jw_failed (begin_value w)" using p1 put_text_ok(1) by blast
  note bo = begin_ok [OF assms(1) b, unfolded a snd_conv]
  have w1: "?w1 = w\<lparr>jw_after_key := False, jw_text := jw_text w @ sep fs @ dq\<rparr>" using put_text_ok(2) [OF p1] by (simp add: bo(3))
  have tx: "out = jw_text w @ sep fs @ dq @ escape_text s"
    using app json_escaped_loop_eq [of "jw_text ?w1" "jw_cap ?w1" s] by (simp add: w1 api_json_append_escaped_def split: if_splits)
  have p2: "\<not> jw_failed (put_text dq (?w1\<lparr>jw_text := out\<rparr>))" using assms(2) ws by simp
  have cap: "length (jw_text w @ sep fs @ render (R_String s)) < jw_cap w"
    using put_text_ok(1) [of dq "?w1\<lparr>jw_text := out\<rparr>"] p2 by (simp add: w1 tx)
  have dl: "length fs \<le> WEB_JSON_WRITER_MAX_DEPTH" using assms(1) by (cases fs) (simp_all add: holds_doc_def a)
  show ?thesis
    using end_ok [OF assms(1) [unfolded a] bo(2,1) cap] dl put_text_ok(2) [OF p2] by (simp add: ws w1 tx a)
qed

section \<open>Any calls\<close>

definition sound_writer :: "json_writer \<Rightarrow> bool" where
  "sound_writer w \<longleftrightarrow> jw_failed w \<or> (\<exists>a. holds_doc w a)"

lemma init_sound: "sound_writer (web_json_writer_init null cap)"
proof (cases "null \<or> cap = 0")
  case False
  then have "holds_doc (web_json_writer_init null cap) (None, [])"
    by (simp add: holds_doc_def web_json_writer_init_def marks_def del: replicate_Suc)
  then show ?thesis by (auto simp: sound_writer_def)
qed (simp add: sound_writer_def web_json_writer_init_def)

lemma failed_stays:
  assumes "jw_failed w"
  shows "jw_failed (begin_value w)" "jw_failed (put_text s w)" "jw_failed (open_level k t w)" "jw_failed (close_level k t w)"
    "jw_failed (web_json_key n w)" "jw_failed (web_json_string x w)" "jw_failed (web_json_null w)"
  using assms
  by (simp_all add: begin_value_def put_text_def open_level_def close_level_def web_json_key_def web_json_string_def web_json_null_def
      Let_def split: option.split)

lemma value_sound: "sound_writer w \<Longrightarrow> height v = 0 \<Longrightarrow> sound_writer (end_value (put_text (render v) (begin_value w)))"
  using value_ok [of w _ v] failed_stays(1,2) unfolding sound_writer_def by (metis end_value_failed)

lemma text_grows_parts:
  "prefix (jw_text w) (jw_text (put_text s w))" "prefix (jw_text w) (jw_text (begin_value w))"
  "jw_text (end_value w) = jw_text w" "prefix (jw_text w) (jw_text (open_level k t w))"
  "prefix (jw_text w) (jw_text (close_level k t w))"
proof -
  show p: "prefix (jw_text w) (jw_text (put_text s w))" for s w by (simp add: put_text_def jw_fail_def)
  show b: "prefix (jw_text w) (jw_text (begin_value w))" by (simp add: begin_value_def jw_fail_def p split: level_kind.split)
  show e: "jw_text (end_value w) = jw_text w" for w by (simp add: end_value_def)
  show "prefix (jw_text w) (jw_text (open_level k t w))"
    using b p [of "begin_value w" t] by (auto simp: open_level_def jw_fail_def Let_def intro: prefix_order.trans)
  show "prefix (jw_text w) (jw_text (close_level k t w))"
    by (simp add: close_level_def jw_fail_def Let_def e p)
qed

lemma text_through: "prefix (jw_text w) (jw_text (put_text s (begin_value w)))"
  by (rule prefix_order.trans [OF text_grows_parts(2) text_grows_parts(1)])

lemma text_grows_string: "prefix (jw_text w) (jw_text (web_json_string x w))"
proof (cases x)
  case (Some s)
  let ?w1 = "put_text dq (begin_value w)"
  have 1: "prefix (jw_text w) (jw_text ?w1)" by (rule text_through)
  show ?thesis
  proof (cases "api_json_append_escaped (jw_cap ?w1) (jw_text ?w1) s")
    case (Inr out)
    then have "prefix (jw_text ?w1) out"
      using json_escaped_loop_eq [of "jw_text ?w1" "jw_cap ?w1" s] by (auto simp: api_json_append_escaped_def split: if_splits)
    moreover have "prefix out (jw_text (put_text dq (?w1\<lparr>jw_text := out\<rparr>)))"
      using text_grows_parts(1) [of "?w1\<lparr>jw_text := out\<rparr>" dq] by simp
    ultimately show ?thesis using 1 Inr
      by (auto simp: web_json_string_def Some Let_def text_grows_parts(3) intro: prefix_order.trans)
  qed (use 1 in \<open>simp add: web_json_string_def Some Let_def jw_fail_def\<close>)
qed (simp add: web_json_string_def jw_fail_def)

lemma text_grows_key: "prefix (jw_text w) (jw_text (web_json_key n w))"
proof -
  have "prefix (jw_text w) (jw_text (put_text (dq @ '':'') (put_text s (put_text dq (if b then put_text '','' w else w)))))" for s b
    by (rule prefix_order.trans [OF _ text_grows_parts(1)], rule prefix_order.trans [OF _ text_grows_parts(1)],
        rule prefix_order.trans [OF _ text_grows_parts(1)]) (simp add: text_grows_parts(1))
  from this [of _ True] this [of _ False] show ?thesis by (simp add: web_json_key_def jw_fail_def Let_def split: option.split)
qed

lemma text_grows_value: "prefix (jw_text w) (jw_text (end_value (put_text s (begin_value w))))"
  unfolding text_grows_parts(3) by (rule text_through)

lemma rollback_to: "prefix (jw_text w) (jw_text w') \<Longrightarrow> web_json_writer_rollback w w' = w"
  by (auto simp: web_json_writer_rollback_def prefix_def)

lemma fold_prefix: "(\<And>c w. c \<in> set cs \<Longrightarrow> prefix (jw_text w) (jw_text (f c w))) \<Longrightarrow> prefix (jw_text w) (jw_text (fold f cs w))"
proof (induction cs arbitrary: w)
  case (Cons c cs)
  have "prefix (jw_text w) (jw_text (f c w))" by (rule Cons.prems) simp
  also have "prefix \<dots> (jw_text (fold f cs (f c w)))" by (rule Cons.IH) (use Cons.prems in auto)
  finally show ?case by simp
qed simp

lemma text_grows: "prefix (jw_text w) (jw_text (perform c w))"
proof (induction c w rule: perform.induct)
  case (12 cs reserve w)
  have "prefix (jw_text w) (jw_text (fold perform cs w))" by (rule fold_prefix) (rule 12)
  then show ?case by (simp add: Let_def rollback_to)
qed (simp_all add: web_json_object_begin_def web_json_object_end_def web_json_array_begin_def web_json_array_end_def
    text_grows_parts text_through text_grows_key text_grows_string text_grows_value web_json_string_or_null_def web_json_null_def
    web_json_bool_def web_json_int_def web_json_decimal_def split: option.split)

lemma open_sound_level:
  assumes "sound_writer w" "t = inner f" "frame_kind f = k" "frame_values f = []" "\<not> awaits [f]"
  shows "sound_writer (open_level k t w)"
proof (cases "jw_failed (open_level k t w)")
  case False
  then have "\<not> jw_failed w" using failed_stays(3) by blast
  with assms(1) obtain a where "holds_doc w a" by (auto simp: sound_writer_def)
  from open_ok [OF this False assms(2-5)] show ?thesis unfolding sound_writer_def by blast
qed (simp add: sound_writer_def)

lemma open_sound: "sound_writer w \<Longrightarrow> sound_writer (web_json_object_begin w)" "sound_writer w \<Longrightarrow> sound_writer (web_json_array_begin w)"
  unfolding web_json_object_begin_def web_json_array_begin_def
  using open_sound_level [of w "''{''" "F_Object [] None"] open_sound_level [of w "''[''" "F_Array []"] by simp_all

lemma close_sound:
  assumes "sound_writer w" "t = (if k = KIND_ARRAY then '']'' else ''}'')"
  shows "sound_writer (close_level k t w)"
proof (cases "jw_failed (close_level k t w)")
  case False
  then have nf: "\<not> jw_failed w" "jw_depth w \<noteq> 0" by (auto simp: close_level_def split: if_splits)
  with assms(1) obtain doc fs where h: "holds_doc w (doc, fs)" by (auto simp: sound_writer_def)
  with nf(2) obtain f r where "fs = f # r" by (cases fs) (auto simp: holds_doc_def)
  with h have "holds_doc w (doc, f # r)" by simp
  from close_ok [OF this False assms(2)] show ?thesis unfolding sound_writer_def by blast
qed (simp add: sound_writer_def)

lemma key_sound: "sound_writer w \<Longrightarrow> sound_writer (web_json_key n w)"
  using key_ok [of w _ n] failed_stays(5) [of w n] unfolding sound_writer_def by blast

lemma string_sound: "sound_writer w \<Longrightarrow> sound_writer (web_json_string x w)"
proof (cases x)
  case (Some s)
  assume "sound_writer w"
  with string_ok [of w _ s] failed_stays(6) [of w x] show ?thesis unfolding sound_writer_def Some by blast
qed (simp add: sound_writer_def web_json_string_def)

lemma null_sound: "sound_writer w \<Longrightarrow> sound_writer (web_json_null w)"
  using value_sound [of w R_Null] by (simp add: web_json_null_def)

lemma fold_sound: "(\<And>c w. c \<in> set cs \<Longrightarrow> sound_writer w \<Longrightarrow> sound_writer (f c w)) \<Longrightarrow> sound_writer w \<Longrightarrow> sound_writer (fold f cs w)"
  by (induction cs arbitrary: w) auto

lemma perform_sound: "sound_writer w \<Longrightarrow> sound_writer (perform c w)"
proof (induction c w rule: perform.induct)
  case (12 cs reserve w)
  have "prefix (jw_text w) (jw_text (fold perform cs w))" by (rule fold_prefix) (rule text_grows)
  moreover have "sound_writer (fold perform cs w)" by (rule fold_sound [OF 12(1) 12(2)])
  ultimately show ?case using 12(2) by (simp add: Let_def rollback_to)
next
  case (7 s w)
  then show ?case using null_sound string_sound by (simp add: web_json_string_or_null_def split: option.split)
next
  case (8 b w)
  then show ?case using value_sound [of w "R_Bool b"] by (simp add: web_json_bool_def)
next
  case (10 v w)
  then show ?case using value_sound [of w "R_Int v"] by (simp add: web_json_int_def)
next
  case (11 v w)
  then show ?case using value_sound [of w "R_Decimal v"] by (simp add: web_json_decimal_def)
qed (simp_all add: open_sound key_sound string_sound null_sound web_json_object_end_def web_json_array_end_def close_sound)

lemma cap_kept_parts:
  "jw_cap (begin_value w) = jw_cap w" "jw_cap (end_value w) = jw_cap w" "jw_cap (open_level k t w) = jw_cap w"
  "jw_cap (close_level k t w) = jw_cap w" "jw_cap (web_json_key n w) = jw_cap w"
proof -
  show b: "jw_cap (begin_value w) = jw_cap w" by (simp add: begin_value_def jw_fail_def split: level_kind.split)
  show e: "jw_cap (end_value w) = jw_cap w" for w by (simp add: end_value_def)
  show "jw_cap (open_level k t w) = jw_cap w" by (simp add: open_level_def jw_fail_def Let_def b)
  show "jw_cap (close_level k t w) = jw_cap w" by (simp add: close_level_def jw_fail_def Let_def e)
  show "jw_cap (web_json_key n w) = jw_cap w" by (simp add: web_json_key_def jw_fail_def Let_def split: option.split)
qed

lemma cap_kept_string: "jw_cap (web_json_string x w) = jw_cap w"
  by (simp add: web_json_string_def jw_fail_def Let_def cap_kept_parts split: option.split sum.split)

lemma cap_kept_fold: "(\<And>c w. c \<in> set cs \<Longrightarrow> jw_cap (f c w) = jw_cap w) \<Longrightarrow> jw_cap (fold f cs w) = jw_cap w"
  by (induction cs arbitrary: w) auto

lemma cap_kept: "jw_cap (perform c w) = jw_cap w"
proof (induction c w rule: perform.induct)
  case (12 cs reserve w)
  have "jw_cap (fold perform cs w) = jw_cap w" by (rule cap_kept_fold) (rule 12)
  then show ?case by (simp add: Let_def web_json_writer_rollback_def)
qed (simp_all add: web_json_object_begin_def web_json_object_end_def web_json_array_begin_def web_json_array_end_def
    cap_kept_parts cap_kept_string web_json_string_or_null_def web_json_null_def
    web_json_bool_def web_json_int_def web_json_decimal_def split: option.split)

theorem finished_text:
  assumes "web_json_writer_finish (fold perform cs (web_json_writer_init null cap)) = Inr n"
  shows "\<exists>v. jw_text (fold perform cs (web_json_writer_init null cap)) = render v \<and> n = length (render v) \<and> n < cap \<and>
    height v \<le> WEB_JSON_WRITER_MAX_DEPTH"
proof -
  let ?w = "fold perform cs (web_json_writer_init null cap)"
  have c: "jw_cap ?w = cap" by (simp add: cap_kept_fold cap_kept web_json_writer_init_def)
  have "sound_writer ?w" by (rule fold_sound [OF perform_sound init_sound])
  with assms obtain doc where h: "holds_doc ?w (doc, [])" "doc \<noteq> None"
    by (auto simp: sound_writer_def web_json_writer_finish_def holds_doc_def marks_def split: if_splits)
  then show ?thesis using assms c by (auto simp: holds_doc_def web_json_writer_finish_def split: if_splits)
qed

end
