(* ===== verification/Json_Response.thy ===== *)
theory Json_Response
  imports Json_Writer_Text Json_Grammar
begin

text \<open>
  Responses against the grammar of the request reader: a finished response is a JSON body, and a response that fits is written.
\<close>

section \<open>What fits is written\<close>

primrec calls_of :: "response \<Rightarrow> call list" where
  "calls_of R_Null = [Write_Null]"
| "calls_of (R_Bool b) = [Write_Bool b]"
| "calls_of (R_Int v) = [Write_Int v]"
| "calls_of (R_Decimal v) = [Write_Decimal v]"
| "calls_of (R_String s) = [Write_String (Some s)]"
| "calls_of (R_Array vs) = Array_Begin # concat (map calls_of vs) @ [Array_End]"
| "calls_of (R_Object ms) =
     Object_Begin # concat (map (\<lambda>m. Write_Key (Some (fst m)) # snd m) (map (map_prod id calls_of) ms)) @ [Object_End]"

definition ready :: "json_writer \<Rightarrow> document \<Rightarrow> bool" where
  "ready w a \<longleftrightarrow> holds_doc w a \<and> \<not> jw_failed w"

lemma begin_goes:
  assumes "ready w (doc, fs)" "slot_free (doc, fs)" "length (jw_text w) + length (sep fs) < jw_cap w"
  shows "\<not> jw_failed (begin_value w)"
proof -
  note h = assms(1) [unfolded ready_def holds_doc_def prod.case]
  show ?thesis
  proof (cases fs)
    case Nil
    then have "jw_kind w ! jw_depth w = KIND_ROOT" "\<not> jw_has_value w ! 0" using h assms(2) by (simp_all add: marks_def)
    then show ?thesis using h by (simp add: begin_value_def)
  next
    case (Cons g r)
    have "marks w (doc, g # r)" "jw_depth w = length fs" using h Cons by blast+
    then have m: "jw_kind w ! jw_depth w = frame_kind g" "jw_has_value w ! jw_depth w \<longleftrightarrow> frame_values g \<noteq> []"
      using marks_top [of w doc g r] Cons by simp_all
    show ?thesis
    proof (cases g)
      case (F_Array vs)
      then show ?thesis using h m assms(3) put_text_ok(1) [of "'',''" w] by (auto simp: begin_value_def Cons split: if_splits)
    next
      case (F_Object ms k)
      then have "jw_after_key w" using h assms(2) Cons by auto
      then show ?thesis using h m F_Object by (simp add: begin_value_def)
    qed
  qed
qed

lemma begin_text:
  assumes "ready w (doc, fs)" "slot_free (doc, fs)" "length (jw_text w) + length (sep fs) < jw_cap w"
  shows "jw_text (begin_value w) = jw_text w @ sep fs" "jw_cap (begin_value w) = jw_cap w" "jw_depth (begin_value w) = jw_depth w"
proof -
  have "holds_doc w (doc, fs)" using assms(1) by (simp add: ready_def)
  from begin_ok(3) [OF this begin_goes [OF assms]]
  show "jw_text (begin_value w) = jw_text w @ sep fs" "jw_cap (begin_value w) = jw_cap w" "jw_depth (begin_value w) = jw_depth w"
    by simp_all
qed

lemma value_goes:
  assumes "ready w (doc, fs)" "slot_free (doc, fs)" "length (jw_text w) + length (sep fs) + length (render v) < jw_cap w" "height v = 0"
  shows "ready (end_value (put_text (render v) (begin_value w))) (place v (doc, fs))"
proof -
  have l: "length (jw_text w) + length (sep fs) < jw_cap w" using assms(3) by linarith
  have p: "\<not> jw_failed (put_text (render v) (begin_value w))"
    using put_text_ok(1) begin_goes [OF assms(1,2) l] begin_text [OF assms(1,2) l] assms(3) by simp
  then show ?thesis using value_ok [OF _ p assms(4)] assms(1) by (simp add: ready_def)
qed

lemma string_goes:
  assumes "ready w (doc, fs)" "slot_free (doc, fs)" "length (jw_text w) + length (sep fs) + length (render (R_String s)) < jw_cap w"
  shows "ready (web_json_string (Some s) w) (place (R_String s) (doc, fs))"
proof -
  have l: "length (jw_text w) + length (sep fs) < jw_cap w" using assms(3) by linarith
  let ?w1 = "put_text dq (begin_value w)"
  have p: "\<not> jw_failed ?w1" using put_text_ok(1) begin_goes [OF assms(1,2) l] begin_text [OF assms(1,2) l] assms(3) by simp
  have t: "jw_text ?w1 = jw_text w @ sep fs @ dq" "jw_cap ?w1 = jw_cap w"
    using put_text_ok(2) [OF p] begin_text [OF assms(1,2) l] by simp_all
  have e: "api_json_append_escaped (jw_cap ?w1) (jw_text ?w1) s = Inr (jw_text w @ sep fs @ dq @ escape_text s)"
    using json_escaped_loop_eq [of "jw_text ?w1" "jw_cap ?w1" s] assms(3) unfolding t api_json_append_escaped_def by simp
  have "\<not> jw_failed (web_json_string (Some s) w)"
    using p e put_text_ok(1) [of dq "?w1\<lparr>jw_text := jw_text w @ sep fs @ dq @ escape_text s\<rparr>"] assms(3) t
    by (simp add: web_json_string_def Let_def)
  with string_ok [OF _ this] assms(1) show ?thesis by (simp add: ready_def)
qed

lemma open_goes:
  assumes "ready w (doc, fs)" "slot_free (doc, fs)" "length (jw_text w) + length (sep fs) + 1 < jw_cap w"
    "length fs < WEB_JSON_WRITER_MAX_DEPTH" "token = inner f" "frame_kind f = k" "frame_values f = []" "\<not> awaits [f]" "length token = 1"
  shows "ready (open_level k token w) (doc, f # fs)"
proof -
  have l: "length (jw_text w) + length (sep fs) < jw_cap w" using assms(3) by linarith
  note b = begin_goes [OF assms(1,2) l] begin_text [OF assms(1,2) l]
  have d: "jw_depth w = length fs" using assms(1) by (simp add: ready_def holds_doc_def)
  have "\<not> jw_failed (put_text token (begin_value w))" using put_text_ok(1) b assms(3,9) by simp
  then have o: "\<not> jw_failed (open_level k token w)" using b d assms(4) by (simp add: open_level_def Let_def)
  show ?thesis using open_ok [OF _ o assms(5-8), of "(doc, fs)"] assms(1) o by (simp add: ready_def)
qed

lemma close_goes:
  assumes "ready w (doc, f # fs)" "\<not> awaits (f # fs)" "frame_kind f = k" "length (jw_text w) + 1 < jw_cap w"
    "token = (if k = KIND_ARRAY then '']'' else ''}'')"
  shows "ready (close_level k token w) (place (closed_frame f) (None, fs))"
proof -
  have h: "holds_doc w (doc, f # fs)" using assms(1) by (simp add: ready_def)
  note d = holds_frame [OF h]
  have "\<not> jw_failed (put_text token w)" using put_text_ok(1) assms(1,4,5) by (simp add: ready_def)
  then have "\<not> jw_failed (close_level k token w)"
    using assms(1-3) d marks_top [OF d(2)] by (simp add: close_level_def Let_def ready_def)
  with close_ok [OF h this assms(5)] show ?thesis by (simp add: ready_def)
qed

lemma key_goes:
  assumes "ready w (doc, F_Object ms None # r)"
    "length (jw_text w) + (if ms = [] then 0 else 1) + length s + 3 < jw_cap w"
  shows "ready (web_json_key (Some s) w) (doc, F_Object ms (Some s) # r)"
proof -
  have h: "holds_doc w (doc, F_Object ms None # r)" using assms(1) by (simp add: ready_def)
  note d = holds_frame [OF h]
  have m: "jw_kind w ! jw_depth w = KIND_OBJECT" "jw_has_value w ! jw_depth w \<longleftrightarrow> ms \<noteq> []" "\<not> jw_after_key w" "\<not> jw_failed w"
    using marks_top [OF d(2)] d assms(1) by (simp_all add: ready_def)
  define w1 where "w1 = (if ms \<noteq> [] then put_text '','' w else w)"
  have p0: "\<not> jw_failed w1" "length (jw_text w1) + length s + 3 < jw_cap w1"
    using put_text_ok [of "'',''" w] m(4) assms(2) by (auto simp: w1_def)
  then have p1: "\<not> jw_failed (put_text dq w1)" using put_text_ok(1) by simp
  have p2: "\<not> jw_failed (put_text s (put_text dq w1))" using put_text_ok(1) [of s] put_text_ok(2) [OF p1] p0 by simp
  have "\<not> jw_failed (put_text (dq @ '':'') (put_text s (put_text dq w1)))"
    using put_text_ok(1) [of "dq @ '':''"] put_text_ok(2) [OF p2] put_text_ok(2) [OF p1] p0 by simp
  then have k: "\<not> jw_failed (web_json_key (Some s) w)" using m by (simp add: web_json_key_def Let_def w1_def [symmetric])
  from key_ok [OF h this] k show ?thesis by (auto simp: ready_def)
qed

lemma fold_concat: "fold f (concat (xs @ [x])) w = fold f x (fold f (concat xs) w)"
  by simp

lemma commas_prefix: "length (commas xs) \<le> length (commas (xs @ ys))"
proof (induction ys rule: rev_induct)
  case (snoc y ys)
  then show ?case using commas_snoc [of "xs @ ys" y] by auto
qed simp

lemma fold_cap [simp]: "jw_cap (fold perform cs w) = jw_cap w"
  by (simp add: cap_kept_fold cap_kept)

text \<open>\<open>fits v w a\<close>: there is room for \<open>v\<close> at the place where \<open>a\<close> goes on.\<close>

definition fits :: "response \<Rightarrow> json_writer \<Rightarrow> document \<Rightarrow> bool" where
  "fits v w a \<longleftrightarrow> ready w a \<and> slot_free a \<and> length (jw_text w) + length (sep (snd a)) + length (render v) < jw_cap w \<and>
     height v + length (snd a) \<le> WEB_JSON_WRITER_MAX_DEPTH"

definition writes_it :: "response \<Rightarrow> bool" where
  "writes_it v \<longleftrightarrow> (\<forall>w a. fits v w a \<longrightarrow> ready (fold perform (calls_of v) w) (place v a))"

lemma ready_text: "ready w a \<Longrightarrow> jw_text w = doc_text a"
  by (cases a) (simp add: ready_def holds_doc_def)

lemma elements_go:
  assumes "list_all writes_it vs" "ready w (doc, F_Array us # fs)"
    "length (below fs) + length (render (R_Array (us @ vs))) < jw_cap w"
    "\<forall>v \<in> set vs. height v + Suc (length fs) \<le> WEB_JSON_WRITER_MAX_DEPTH"
  shows "ready (fold perform (concat (map calls_of vs)) w) (doc, F_Array (us @ vs) # fs)"
  using assms
proof (induction vs arbitrary: w us)
  case (Cons v vs)
  have "length (commas (map render (us @ [v]))) \<le> length (commas (map render (us @ v # vs)))"
    using commas_prefix [of "map render (us @ [v])" "map render vs"] by simp
  then have "length (jw_text w) + length (sep [F_Array us]) + length (render v) < jw_cap w"
    using Cons.prems(3) by (auto simp: ready_text [OF Cons.prems(2)] commas_snoc)
  then have "fits v w (doc, F_Array us # fs)" using Cons.prems by (simp add: fits_def)
  then have "ready (fold perform (calls_of v) w) (doc, F_Array (us @ [v]) # fs)" using Cons.prems(1) by (force simp: writes_it_def)
  from Cons.IH [OF _ this] Cons.prems show ?case by simp
qed simp

lemma members_go:
  assumes "list_all (writes_it \<circ> snd) xs" "ready w (doc, F_Object ms None # fs)"
    "length (below fs) + length (render (R_Object (ms @ xs))) < jw_cap w"
    "\<forall>m \<in> set xs. height (snd m) + Suc (length fs) \<le> WEB_JSON_WRITER_MAX_DEPTH"
  shows "ready (fold perform (concat (map (\<lambda>m. Write_Key (Some (fst m)) # snd m) (map (map_prod id calls_of) xs))) w)
    (doc, F_Object (ms @ xs) None # fs)"
  using assms
proof (induction xs arbitrary: w ms)
  case (Cons x xs)
  obtain n v where x: "x = (n, v)" by (rule prod.exhaust)
  let ?t = "\<lambda>ms. commas (map member_text (map (map_prod id render) ms))"
  have "length (?t (ms @ [x])) \<le> length (?t (ms @ x # xs))"
    using commas_prefix [of "map member_text (map (map_prod id render) (ms @ [x]))" "map member_text (map (map_prod id render) xs)"] by simp
  moreover have "length (?t (ms @ [x])) = length (?t ms) + (if ms = [] then 0 else 1) + length n + 3 + length (render v)"
    using commas_snoc [of "map member_text (map (map_prod id render) ms)" "member_text (n, render v)"]
    by (simp add: x member_text_def)
  ultimately have room: "length (below fs) + length (?t ms) + (if ms = [] then 0 else 1) + length n + 3 + length (render v) + 2 < jw_cap w"
    using Cons.prems(3) by simp
  have t: "length (jw_text w) = length (below fs) + 1 + length (?t ms)" by (simp add: ready_text [OF Cons.prems(2)])
  have k: "length (jw_text w) + (if ms = [] then 0 else 1) + length n + 3 < jw_cap w" using room t by linarith
  let ?w1 = "web_json_key (Some n) w"
  have r1: "ready ?w1 (doc, F_Object ms (Some n) # fs)" by (rule key_goes [OF Cons.prems(2) k])
  have "length (jw_text ?w1) + length (render v) < jw_cap ?w1"
    using room by (simp add: ready_text [OF r1] cap_kept_parts)
  then have "fits v ?w1 (doc, F_Object ms (Some n) # fs)" using Cons.prems(4) r1 by (simp add: fits_def x)
  then have "ready (fold perform (calls_of v) ?w1) (doc, F_Object (ms @ [x]) None # fs)"
    using Cons.prems(1) by (force simp: writes_it_def x)
  from Cons.IH [OF _ this] Cons.prems show ?case by (simp add: x cap_kept_parts)
qed simp

lemma writes_itI:
  "(\<And>w doc fs. fits v w (doc, fs) \<Longrightarrow> ready (fold perform (calls_of v) w) (place v (doc, fs))) \<Longrightarrow> writes_it v"
  by (auto simp: writes_it_def)

lemma fits_value: "fits v w (doc, fs) \<Longrightarrow> height v = 0 \<Longrightarrow> ready (end_value (put_text (render v) (begin_value w))) (place v (doc, fs))"
  by (rule value_goes) (simp_all add: fits_def)

lemma fits_open:
  assumes "fits v w (doc, fs)" "0 < height v" "2 \<le> length (render v)" "token = inner f" "frame_kind f = k" "frame_values f = []"
    "\<not> awaits [f]" "length token = 1"
  shows "ready (open_level k token w) (None, f # fs)" "doc = None" "length (below fs) + length (render v) < jw_cap w" "slot_free (None, fs)"
proof -
  have f: "ready w (doc, fs)" "slot_free (doc, fs)" "length (jw_text w) + length (sep fs) + length (render v) < jw_cap w"
    "height v + length fs \<le> WEB_JSON_WRITER_MAX_DEPTH" using assms(1) by (simp_all add: fits_def)
  have l: "length (jw_text w) + length (sep fs) + 1 < jw_cap w" "length fs < WEB_JSON_WRITER_MAX_DEPTH" using f assms(2,3) by linarith+
  show doc: "doc = None" using f(1,2) by (cases fs) (auto simp: ready_def holds_doc_def)
  then show "slot_free (None, fs)" using f(2) by simp
  show "ready (open_level k token w) (None, f # fs)" using open_goes [OF f(1,2) l assms(4-8)] doc by simp
  show "length (below fs) + length (render v) < jw_cap w"
    using f(3) below_text [of fs] by (simp add: ready_text [OF f(1)] doc)
qed

lemma fits_array:
  assumes "fits (R_Array vs) w (doc, fs)"
  shows "ready (web_json_array_begin w) (None, F_Array [] # fs)" "doc = None"
    "length (below fs) + length (render (R_Array vs)) < jw_cap w" "slot_free (None, fs)"
    "\<forall>v \<in> set vs. height v + Suc (length fs) \<le> WEB_JSON_WRITER_MAX_DEPTH"
proof -
  note o = fits_open [OF assms, of "''[''" "F_Array []" KIND_ARRAY]
  show "ready (web_json_array_begin w) (None, F_Array [] # fs)" unfolding web_json_array_begin_def by (rule o(1)) simp_all
  show "doc = None" by (rule o(2)) simp_all
  show "length (below fs) + length (render (R_Array vs)) < jw_cap w" by (rule o(3)) simp_all
  show "slot_free (None, fs)" by (rule o(4)) simp_all
  have "fold max (map height vs) 0 + Suc (length fs) \<le> WEB_JSON_WRITER_MAX_DEPTH" using assms by (simp add: fits_def)
  then show "\<forall>v \<in> set vs. height v + Suc (length fs) \<le> WEB_JSON_WRITER_MAX_DEPTH" unfolding fold_max_add by auto
qed

lemma fits_object:
  assumes "fits (R_Object ms) w (doc, fs)"
  shows "ready (web_json_object_begin w) (None, F_Object [] None # fs)" "doc = None"
    "length (below fs) + length (render (R_Object ms)) < jw_cap w" "slot_free (None, fs)"
    "\<forall>m \<in> set ms. height (snd m) + Suc (length fs) \<le> WEB_JSON_WRITER_MAX_DEPTH"
proof -
  note o = fits_open [OF assms, of "''{''" "F_Object [] None" KIND_OBJECT]
  show "ready (web_json_object_begin w) (None, F_Object [] None # fs)" unfolding web_json_object_begin_def by (rule o(1)) simp_all
  show "doc = None" by (rule o(2)) simp_all
  show "length (below fs) + length (render (R_Object ms)) < jw_cap w" by (rule o(3)) simp_all
  show "slot_free (None, fs)" by (rule o(4)) simp_all
  have "fold max (map snd (map (map_prod id height) ms)) 0 + Suc (length fs) \<le> WEB_JSON_WRITER_MAX_DEPTH"
    using assms by (simp only: fits_def height.simps snd_conv) linarith
  then show "\<forall>m \<in> set ms. height (snd m) + Suc (length fs) \<le> WEB_JSON_WRITER_MAX_DEPTH" unfolding fold_max_add by auto
qed

theorem response_goes: "writes_it v"
proof (induction v)
  case (R_Array vs)
  show ?case
  proof (rule writes_itI)
    fix w doc fs
    assume f: "fits (R_Array vs) w (doc, fs)"
    note o = fits_array [OF f]
    have "list_all writes_it vs" using R_Array by (simp add: list_all_iff)
    from elements_go [OF this, of "web_json_array_begin w" None "[]" fs] o
    have r: "ready (fold perform (concat (map calls_of vs)) (web_json_array_begin w)) (None, F_Array vs # fs)" (is "ready ?w1 _")
      by (simp add: web_json_array_begin_def cap_kept_parts)
    have "length (jw_text ?w1) + 1 < jw_cap ?w1" using o(3) unfolding ready_text [OF r] by (simp add: web_json_array_begin_def cap_kept_parts)
    from close_goes [OF r _ _ this, of KIND_ARRAY "'']''"] o(2)
    show "ready (fold perform (calls_of (R_Array vs)) w) (place (R_Array vs) (doc, fs))" by (simp add: web_json_array_end_def)
  qed
next
  case (R_Object ms)
  show ?case
  proof (rule writes_itI)
    fix w doc fs
    assume f: "fits (R_Object ms) w (doc, fs)"
    note o = fits_object [OF f]
    have "list_all (writes_it \<circ> snd) ms" using R_Object by (auto simp: list_all_iff)
    from members_go [OF this, of "web_json_object_begin w" None "[]" fs] o
    have r: "ready (fold perform (concat (map (\<lambda>m. Write_Key (Some (fst m)) # snd m) (map (map_prod id calls_of) ms)))
        (web_json_object_begin w)) (None, F_Object ms None # fs)" (is "ready ?w1 _")
      by (simp add: web_json_object_begin_def cap_kept_parts)
    have "length (jw_text ?w1) + 1 < jw_cap ?w1" using o(3) unfolding ready_text [OF r] by (simp add: web_json_object_begin_def cap_kept_parts)
    from close_goes [OF r _ _ this, of KIND_OBJECT "''}''"] o(2)
    show "ready (fold perform (calls_of (R_Object ms)) w) (place (R_Object ms) (doc, fs))" by (simp add: web_json_object_end_def)
  qed
next
  case (R_String s)
  show ?case by (rule writes_itI) (use string_goes in \<open>simp add: fits_def\<close>)
next
  case (R_Bool b)
  show ?case by (rule writes_itI) (use fits_value [of "R_Bool b"] in \<open>simp add: web_json_bool_def\<close>)
next
  case (R_Int v)
  show ?case by (rule writes_itI) (use fits_value [of "R_Int v"] in \<open>simp add: web_json_int_def\<close>)
next
  case (R_Decimal v)
  show ?case by (rule writes_itI) (use fits_value [of "R_Decimal v"] in \<open>simp add: web_json_decimal_def\<close>)
next
  case R_Null
  show ?case by (rule writes_itI) (use fits_value [of R_Null] in \<open>simp add: web_json_null_def\<close>)
qed

section \<open>Strings\<close>

text \<open>The characters of a text in UTF-8 without NUL, \<open>None\<close> for any other bytes.\<close>

function text_items :: "byte list \<Rightarrow> item list option" where
  "text_items [] = Some []"
| "text_items (c # s) =
     (if c = 0 then None
      else if c < 0x80 then map_option (Cons (Some [c])) (text_items s)
      else case read_utf8 (c # s) of
             None \<Rightarrow> None
           | Some (bs, s') \<Rightarrow> map_option (Cons (Some bs)) (text_items s'))"
  by pat_completeness auto
termination
proof (relation "measure length")
  fix c s q bs s'
  assume "read_utf8 (c # s) = Some q" "(bs, s') = q"
  then obtain n where "bs = utf8_of n" "c # s = bs @ s'" using read_utf8_sound [of "c # s" bs s'] by auto
  then have "length (c # s) = length (utf8_of n) + length s'" by (metis length_append)
  moreover have "length (utf8_of n) \<noteq> 0" by simp
  ultimately show "(s', c # s) \<in> measure length" by simp
qed simp_all


lemma text_items_decoded: "text_items bs = Some xs \<Longrightarrow> decoded xs = bs"
proof (induction bs arbitrary: xs rule: text_items.induct)
  case (2 c s)
  show ?case
  proof (cases "c < 0x80")
    case True
    with 2 show ?thesis by (auto split: if_splits)
  next
    case False
    with 2(3) obtain bs s' ys where r: "read_utf8 (c # s) = Some (bs, s')" "text_items s' = Some ys" "xs = Some bs # ys" and "c \<noteq> 0"
      by (auto split: if_splits option.splits)
    have "decoded ys = s'" using 2(2) [OF \<open>c \<noteq> 0\<close> False r(1) refl r(2)] .
    moreover have "c # s = bs @ s'" using read_utf8_sound [OF r(1)] by auto
    ultimately show ?thesis using r(3) by simp
  qed
qed simp

section \<open>Escaped text\<close>


lemma bytes_of_app [simp]: "bytes_of (s @ t) = bytes_of s @ bytes_of t" "bytes_of (c # s) = of_char c # bytes_of s" "bytes_of [] = []"
  by (simp_all add: bytes_of_def)








section \<open>Numbers\<close>








section \<open>Responses\<close>









section \<open>Properties\<close>





text \<open>C17: A response of at most eight levels whose text leaves room for the NUL is written whole: the calls that spell it all
  succeed, and \<open>web_json_writer_finish\<close> gives its length.\<close>

theorem response_that_fits_is_written:
  assumes "length (render v) < cap" "height v \<le> WEB_JSON_WRITER_MAX_DEPTH"
  shows "web_json_writer_finish (fold perform (calls_of v) (web_json_writer_init False cap)) = Inr (length (render v)) \<and>
    jw_text (fold perform (calls_of v) (web_json_writer_init False cap)) = render v"
proof -
  let ?w0 = "web_json_writer_init False cap"
  have "ready ?w0 (None, [])"
    using assms(1) by (simp add: ready_def holds_doc_def web_json_writer_init_def marks_def del: replicate_Suc)
  then have "fits v ?w0 (None, [])" using assms by (simp add: fits_def web_json_writer_init_def)
  then have "ready (fold perform (calls_of v) ?w0) (Some v, [])" using response_goes [of v] by (force simp: writes_it_def)
  then show ?thesis by (auto simp: ready_def holds_doc_def web_json_writer_finish_def marks_def)
qed

theorem response_that_fits_is_written_witness:
  "web_json_writer_finish (fold perform (calls_of (R_Array [R_Null, R_Object [(''k'', R_Bool True)]])) (web_json_writer_init False 18)) =
     Inr 17 \<and>
   jw_text (fold perform (calls_of (R_Array [R_Null, R_Object [(''k'', R_Bool True)]])) (web_json_writer_init False 18)) =
     render (R_Array [R_Null, R_Object [(''k'', R_Bool True)]])"
  using response_that_fits_is_written [of "R_Array [R_Null, R_Object [(''k'', R_Bool True)]]" 18]
  by (simp add: WEB_JSON_WRITER_MAX_DEPTH_def member_text_def)

text \<open>An attempt that leaves less than the reserve, or that fails, is undone: the writer is as it was before, its failure
  included; and otherwise what was there before is still the beginning of the text.\<close>

theorem attempt_is_undone_or_kept:
  shows "perform (Attempt cs reserve) w =
    (if web_json_writer_room (fold perform cs w) < reserve then w else fold perform cs w) \<and>
    (\<exists>more. jw_text (perform (Attempt cs reserve) w) = jw_text w @ more)"
proof -
  have p: "prefix (jw_text w) (jw_text (fold perform cs w))" by (rule fold_prefix) (rule text_grows)
  then show ?thesis by (auto simp: Let_def rollback_to elim: prefixE)
qed

end
