(* ===== verification/Web_Auth.thy ===== *)
theory Web_Auth
  imports Json_Utf8
begin

text \<open>
  The session and credential module of the web interface, \<^verbatim>\<open>src/modules/web-auth/lib/web_auth.c\<close>: its static state as one
  record, its helpers and its public operations. The clock, the random source, the key derivation and the store, which the
  module gets as function pointers, are arguments: the values they answer with.
\<close>

section \<open>Configuration and types\<close>

definition CONFIG_WEB_AUTH_MAX_SESSIONS :: nat where "CONFIG_WEB_AUTH_MAX_SESSIONS = 4"
definition CONFIG_WEB_AUTH_TOMBSTONES :: nat where "CONFIG_WEB_AUTH_TOMBSTONES = 8"
definition CONFIG_WEB_AUTH_IDLE_TIMEOUT_SECONDS :: nat where "CONFIG_WEB_AUTH_IDLE_TIMEOUT_SECONDS = 1800"
definition CONFIG_WEB_AUTH_ABSOLUTE_TIMEOUT_SECONDS :: nat where "CONFIG_WEB_AUTH_ABSOLUTE_TIMEOUT_SECONDS = 28800"
definition CONFIG_WEB_AUTH_PBKDF2_ITERATIONS :: u32 where "CONFIG_WEB_AUTH_PBKDF2_ITERATIONS = 3000"
definition CONFIG_WEB_AUTH_PBKDF2_MAX_ITERATIONS :: u32 where "CONFIG_WEB_AUTH_PBKDF2_MAX_ITERATIONS = 1000000"
definition CONFIG_WEB_AUTH_PEER_SLOTS :: nat where "CONFIG_WEB_AUTH_PEER_SLOTS = 16"
definition CONFIG_WEB_AUTH_FREE_FAILURES :: u32 where "CONFIG_WEB_AUTH_FREE_FAILURES = 5"
definition CONFIG_WEB_AUTH_MAX_DELAY_SECONDS :: u64 where "CONFIG_WEB_AUTH_MAX_DELAY_SECONDS = 300"
definition CONFIG_WEB_AUTH_GLOBAL_FAILURES :: nat where "CONFIG_WEB_AUTH_GLOBAL_FAILURES = 30"
definition CONFIG_WEB_AUTH_GLOBAL_WINDOW_SECONDS :: nat where "CONFIG_WEB_AUTH_GLOBAL_WINDOW_SECONDS = 300"

definition WEB_AUTH_TOKEN_LEN :: nat where "WEB_AUTH_TOKEN_LEN = 43"
definition WEB_AUTH_SETUP_TOKEN_LEN :: nat where "WEB_AUTH_SETUP_TOKEN_LEN = 32"
definition WEB_AUTH_PASSWORD_MIN_CHARS :: nat where "WEB_AUTH_PASSWORD_MIN_CHARS = 12"
definition WEB_AUTH_PASSWORD_MAX_CHARS :: nat where "WEB_AUTH_PASSWORD_MAX_CHARS = 128"
definition WEB_AUTH_PASSWORD_MAX_BYTES :: nat where "WEB_AUTH_PASSWORD_MAX_BYTES = WEB_AUTH_PASSWORD_MAX_CHARS * 4"
definition WEB_AUTH_SALT_LEN :: nat where "WEB_AUTH_SALT_LEN = 16"
definition WEB_AUTH_DERIVED_LEN :: nat where "WEB_AUTH_DERIVED_LEN = 32"
definition WEB_AUTH_VERIFIER_LEN :: nat where "WEB_AUTH_VERIFIER_LEN = 4 + 1 + 3 + 4 + WEB_AUTH_SALT_LEN + WEB_AUTH_DERIVED_LEN"
definition VERIFIER_MAGIC :: "byte list" where "VERIFIER_MAGIC = bytes_of ''CWA1''"
definition KDF_PBKDF2_SHA256 :: byte where "KDF_PBKDF2_SHA256 = 1"

datatype web_auth_status = WEB_AUTH_OK | WEB_AUTH_SETUP_NOT_ALLOWED | WEB_AUTH_BUSY | WEB_AUTH_INVALID_CREDENTIALS
  | WEB_AUTH_AUTHENTICATION_REQUIRED | WEB_AUTH_SESSION_EXPIRED | WEB_AUTH_CSRF_FAILED | WEB_AUTH_RATE_LIMITED
  | WEB_AUTH_INVALID_PASSWORD | WEB_AUTH_UNAVAILABLE | WEB_AUTH_STORAGE_FAILED | WEB_AUTH_INTERNAL

datatype auth_phase = PHASE_UNINITIALISED | PHASE_SETUP | PHASE_CLAIMED | PHASE_ADMIN | PHASE_LOCKED
datatype password_change = CHANGE_IDLE | CHANGE_VERIFYING | CHANGE_PENDING | CHANGE_RUNNING

record session_slot =
  ss_active :: bool
  ss_token :: string
  ss_csrf :: string
  ss_created_ms :: int
  ss_last_used_ms :: int

record tombstone =
  tb_used :: bool
  tb_token :: string

record web_auth_peer =
  wp_family :: byte
  wp_addr :: "byte list"

record peer_slot =
  ps_used :: bool
  ps_peer :: web_auth_peer
  ps_failures :: u32
  ps_blocked_until_ms :: int
  ps_last_ms :: int

text \<open>The static state of the module. \<open>wa_pending\<close> is the first \<^verbatim>\<open>pending_len\<close> bytes of the array.\<close>

record web_auth =
  wa_platform :: bool
  wa_phase :: auth_phase
  wa_verifier :: "byte list"
  wa_generation :: u32
  wa_setup_token :: string
  wa_sessions :: "session_slot list"
  wa_tombstones :: "tombstone list"
  wa_tombstone_next :: nat
  wa_peers :: "peer_slot list"
  wa_global_failures :: "int list"
  wa_global_next :: nat
  wa_global_count :: nat
  wa_change :: password_change
  wa_pending :: "byte list"

text \<open>Zeroed memory.\<close>

definition no_chars :: "nat \<Rightarrow> string" where "no_chars n = replicate n NUL"

definition no_session :: session_slot where
  "no_session = \<lparr>ss_active = False, ss_token = no_chars WEB_AUTH_TOKEN_LEN, ss_csrf = no_chars WEB_AUTH_TOKEN_LEN,
     ss_created_ms = 0, ss_last_used_ms = 0\<rparr>"

definition no_tombstone :: tombstone where
  "no_tombstone = \<lparr>tb_used = False, tb_token = no_chars WEB_AUTH_TOKEN_LEN\<rparr>"

definition no_peer :: web_auth_peer where "no_peer = \<lparr>wp_family = 0, wp_addr = replicate 16 0\<rparr>"

definition no_peer_slot :: peer_slot where
  "no_peer_slot = \<lparr>ps_used = False, ps_peer = no_peer, ps_failures = 0, ps_blocked_until_ms = 0, ps_last_ms = 0\<rparr>"

text \<open>After \<^verbatim>\<open>wipe(&st, sizeof(st))\<close>.\<close>

definition wiped_auth :: web_auth where
  "wiped_auth = \<lparr>wa_platform = False, wa_phase = PHASE_UNINITIALISED, wa_verifier = replicate WEB_AUTH_VERIFIER_LEN 0,
     wa_generation = 0, wa_setup_token = no_chars WEB_AUTH_SETUP_TOKEN_LEN,
     wa_sessions = replicate CONFIG_WEB_AUTH_MAX_SESSIONS no_session,
     wa_tombstones = replicate (max CONFIG_WEB_AUTH_TOMBSTONES 1) no_tombstone, wa_tombstone_next = 0,
     wa_peers = replicate CONFIG_WEB_AUTH_PEER_SLOTS no_peer_slot,
     wa_global_failures = replicate CONFIG_WEB_AUTH_GLOBAL_FAILURES 0, wa_global_next = 0, wa_global_count = 0,
     wa_change = CHANGE_IDLE, wa_pending = []\<rparr>"

section \<open>Small primitives\<close>

definition equal_ct :: "byte list \<Rightarrow> byte list \<Rightarrow> nat \<Rightarrow> bool" where
  "equal_ct a b n \<longleftrightarrow> fold (\<lambda>i diff. diff OR (a ! i XOR b ! i)) [0..<n] 0 = 0"

text \<open>\<open>s\<close> is the C string, without its NUL.\<close>

definition bounded_len_auth :: "string \<Rightarrow> nat \<Rightarrow> nat" where
  "bounded_len_auth s n = min (length s) n"

definition token_equal :: "string option \<Rightarrow> string \<Rightarrow> nat \<Rightarrow> bool" where
  "token_equal presented stored n =
     (case presented of
        None \<Rightarrow> False
      | Some p \<Rightarrow> if bounded_len_auth p (n + 1) \<noteq> n then False else equal_ct (bytes_of p) (bytes_of stored) n)"

definition base64_alphabet :: string where
  "base64_alphabet = ''ABCDEFGHIJKLMNOPQRSTUVWXYZabcdefghijklmnopqrstuvwxyz0123456789-_''"

definition base64_char :: "u32 \<Rightarrow> nat \<Rightarrow> char" where
  "base64_char v shift = base64_alphabet ! unat (drop_bit shift v AND 0x3F)"

fun base64url :: "byte list \<Rightarrow> string" where
  "base64url (a # b # c # r) =
     (let v = push_bit 16 (ucast a) OR push_bit 8 (ucast b) OR ucast c in
      base64_char v 18 # base64_char v 12 # base64_char v 6 # base64_char v 0 # base64url r)"
| "base64url [a, b] =
     (let v = push_bit 16 (ucast a) OR push_bit 8 (ucast b) in [base64_char v 18, base64_char v 12, base64_char v 6])"
| "base64url [a] = (let v = push_bit 16 (ucast a) in [base64_char v 18, base64_char v 12])"
| "base64url [] = []"

text \<open>The classification of lead and continuation bytes is the one of the request reader. \<open>None\<close> is \<open>-1\<close>.\<close>

function utf8_chars :: "byte list \<Rightarrow> nat option" where
  "utf8_chars [] = Some 0"
| "utf8_chars (c # s) =
     (if c < 0x80 then (if c = 0 then None else map_option Suc (utf8_chars s))
      else case utf8_lead c of
             None \<Rightarrow> None
           | Some (cp0, extra) \<Rightarrow>
               if length (c # s) \<le> extra then None
               else case utf8_tail cp0 (take extra s) of
                      None \<Rightarrow> None
                    | Some cp \<Rightarrow>
                        if utf8_bad_code_point extra cp then None else map_option Suc (utf8_chars (drop extra s)))"
  by pat_completeness auto
termination by (relation "measure length") auto

definition password_fits :: "byte list option \<Rightarrow> nat \<Rightarrow> bool" where
  "password_fits password min_chars =
     (case password of
        None \<Rightarrow> False
      | Some p \<Rightarrow>
          if WEB_AUTH_PASSWORD_MAX_BYTES < length p then False
          else case utf8_chars p of
                 None \<Rightarrow> False
               | Some chars \<Rightarrow> min_chars \<le> chars \<and> chars \<le> WEB_AUTH_PASSWORD_MAX_CHARS)"

definition seconds_until :: "int \<Rightarrow> int \<Rightarrow> u32" where
  "seconds_until deadline_ms now =
     (let ms = deadline_ms - now in if ms \<le> 0 then 1 else of_int ((ms + 999) div 1000))"

section \<open>Verifier\<close>

definition verifier_encode :: "u32 \<Rightarrow> byte list \<Rightarrow> byte list \<Rightarrow> byte list" where
  "verifier_encode iterations salt derived =
     VERIFIER_MAGIC @ [KDF_PBKDF2_SHA256, 0, 0, 0] @ put_le 4 (unat iterations) @ take WEB_AUTH_SALT_LEN salt @
     take WEB_AUTH_DERIVED_LEN derived"

definition verifier_decode :: "byte list \<Rightarrow> (u32 \<times> byte list \<times> byte list) option" where
  "verifier_decode inp =
     (if length inp \<noteq> WEB_AUTH_VERIFIER_LEN \<or> take 4 inp \<noteq> VERIFIER_MAGIC \<or> inp ! 4 \<noteq> KDF_PBKDF2_SHA256 \<or>
         inp ! 5 \<noteq> 0 \<or> inp ! 6 \<noteq> 0 \<or> inp ! 7 \<noteq> 0
      then None
      else let iterations = of_nat (get_le (take 4 (drop 8 inp))) in
           if iterations = 0 \<or> CONFIG_WEB_AUTH_PBKDF2_MAX_ITERATIONS < iterations then None
           else Some (iterations, take WEB_AUTH_SALT_LEN (drop 12 inp), take WEB_AUTH_DERIVED_LEN (drop (12 + WEB_AUTH_SALT_LEN) inp)))"

text \<open>
  \<open>pbkdf2\<close> is the key derivation of the platform (password, salt, iterations), \<open>kdf_ok\<close> whether this call of it
  succeeds.
\<close>

type_synonym kdf = "byte list \<Rightarrow> byte list \<Rightarrow> u32 \<Rightarrow> byte list"

definition verify_against :: "kdf \<Rightarrow> bool \<Rightarrow> byte list \<Rightarrow> byte list \<Rightarrow> web_auth_status" where
  "verify_against pbkdf2 kdf_ok verifier password =
     (case verifier_decode verifier of
        None \<Rightarrow> WEB_AUTH_UNAVAILABLE
      | Some (iterations, salt, expected) \<Rightarrow>
          if \<not> kdf_ok then WEB_AUTH_INTERNAL
          else if equal_ct (pbkdf2 password salt iterations) expected WEB_AUTH_DERIVED_LEN then WEB_AUTH_OK
          else WEB_AUTH_INVALID_CREDENTIALS)"

text \<open>\<open>salt\<close> is what the random source gives, \<open>None\<close> when it fails.\<close>

definition make_verifier :: "kdf \<Rightarrow> byte list option \<Rightarrow> bool \<Rightarrow> byte list \<Rightarrow> web_auth_status + byte list" where
  "make_verifier pbkdf2 salt kdf_ok password =
     (case salt of
        None \<Rightarrow> Inl WEB_AUTH_INTERNAL
      | Some sl \<Rightarrow>
          if \<not> kdf_ok then Inl WEB_AUTH_INTERNAL
          else Inr (verifier_encode CONFIG_WEB_AUTH_PBKDF2_ITERATIONS sl (pbkdf2 password sl CONFIG_WEB_AUTH_PBKDF2_ITERATIONS)))"

section \<open>Rate limiting\<close>

definition peer_equal :: "web_auth_peer \<Rightarrow> web_auth_peer \<Rightarrow> bool" where
  "peer_equal a b \<longleftrightarrow>
     (let n = (if wp_family a = 4 then 4 else if wp_family a = 6 then 16 else 0) in
      wp_family a = wp_family b \<and> take n (wp_addr a) = take n (wp_addr b))"

definition normalised :: "web_auth_peer option \<Rightarrow> web_auth_peer" where
  "normalised peer =
     (case peer of
        None \<Rightarrow> no_peer
      | Some p \<Rightarrow>
          if wp_family p = 4 \<or> wp_family p = 6 then
            let n = (if wp_family p = 4 then 4 else 16) in
            \<lparr>wp_family = wp_family p, wp_addr = take n (wp_addr p) @ replicate (16 - n) 0\<rparr>
          else no_peer)"

definition peer_find :: "web_auth_peer \<Rightarrow> web_auth \<Rightarrow> nat option" where
  "peer_find peer a = find_index (\<lambda>s. ps_used s \<and> peer_equal (ps_peer s) peer) (wa_peers a)"

definition global_window :: int where "global_window = int CONFIG_WEB_AUTH_GLOBAL_WINDOW_SECONDS * 1000"

fun global_prune_loop :: "int \<Rightarrow> int list \<Rightarrow> nat \<Rightarrow> nat \<Rightarrow> nat" where
  "global_prune_loop now ring next_ix 0 = 0"
| "global_prune_loop now ring next_ix (Suc k) =
     (let oldest = (next_ix + CONFIG_WEB_AUTH_GLOBAL_FAILURES - Suc k) mod CONFIG_WEB_AUTH_GLOBAL_FAILURES in
      if now - ring ! oldest < global_window then Suc k else global_prune_loop now ring next_ix k)"

definition global_prune :: "int \<Rightarrow> web_auth \<Rightarrow> web_auth" where
  "global_prune now a =
     a\<lparr>wa_global_count := global_prune_loop now (wa_global_failures a) (wa_global_next a) (wa_global_count a)\<rparr>"

text \<open>\<open>None\<close>: an attempt may proceed; otherwise the seconds to wait.\<close>

definition rate_allows :: "web_auth_peer \<Rightarrow> int \<Rightarrow> web_auth \<Rightarrow> u32 option \<times> web_auth" where
  "rate_allows peer now a0 =
     (let a = global_prune now a0 in
      if CONFIG_WEB_AUTH_GLOBAL_FAILURES \<le> wa_global_count a then
        (Some (seconds_until (wa_global_failures a ! wa_global_next a + global_window) now), a)
      else case peer_find peer a of
             None \<Rightarrow> (None, a)
           | Some i \<Rightarrow>
               if now < ps_blocked_until_ms (wa_peers a ! i) then (Some (seconds_until (ps_blocked_until_ms (wa_peers a ! i)) now), a)
               else (None, a))"

text \<open>A free slot, else the one that failed least recently.\<close>

fun peer_victim :: "peer_slot list \<Rightarrow> nat \<Rightarrow> nat \<Rightarrow> peer_slot list \<Rightarrow> nat" where
  "peer_victim ps best i [] = best"
| "peer_victim ps best i (s # ss) =
     (if \<not> ps_used s then i
      else peer_victim ps (if ps_last_ms s < ps_last_ms (ps ! best) then i else best) (i + 1) ss)"

definition delay_ms :: "u32 \<Rightarrow> int" where
  "delay_ms failures =
     (let steps = failures - CONFIG_WEB_AUTH_FREE_FAILURES;
          delay_s = (if 31 \<le> steps then 0xFFFFFFFF else push_bit (unat steps) (1 :: u64))
      in int (unat (min delay_s CONFIG_WEB_AUTH_MAX_DELAY_SECONDS)) * 1000)"

definition count_failure :: "int \<Rightarrow> peer_slot \<Rightarrow> peer_slot" where
  "count_failure now s =
     (let s1 = s\<lparr>ps_failures := ps_failures s + 1, ps_last_ms := now\<rparr> in
      if CONFIG_WEB_AUTH_FREE_FAILURES \<le> ps_failures s1 then s1\<lparr>ps_blocked_until_ms := now + delay_ms (ps_failures s1)\<rparr> else s1)"

definition rate_fail :: "web_auth_peer \<Rightarrow> int \<Rightarrow> web_auth \<Rightarrow> web_auth" where
  "rate_fail peer now a =
     (let slot = peer_find peer a;
          a1 = a\<lparr>wa_global_failures := (wa_global_failures a)[wa_global_next a := now],
                 wa_global_next := (wa_global_next a + 1) mod CONFIG_WEB_AUTH_GLOBAL_FAILURES,
                 wa_global_count := (if wa_global_count a < CONFIG_WEB_AUTH_GLOBAL_FAILURES then wa_global_count a + 1
                                     else wa_global_count a)\<rparr>;
          i = (case slot of Some i \<Rightarrow> i | None \<Rightarrow> peer_victim (wa_peers a) 0 0 (wa_peers a));
          s = (case slot of Some _ \<Rightarrow> wa_peers a ! i | None \<Rightarrow> no_peer_slot\<lparr>ps_used := True, ps_peer := peer\<rparr>)
      in a1\<lparr>wa_peers := (wa_peers a)[i := count_failure now s]\<rparr>)"

definition rate_success :: "web_auth_peer \<Rightarrow> web_auth \<Rightarrow> web_auth" where
  "rate_success peer a =
     (case peer_find peer a of None \<Rightarrow> a | Some i \<Rightarrow> a\<lparr>wa_peers := (wa_peers a)[i := no_peer_slot]\<rparr>)"

section \<open>Sessions\<close>

definition tombstone_add :: "string \<Rightarrow> web_auth \<Rightarrow> web_auth" where
  "tombstone_add token a =
     (if CONFIG_WEB_AUTH_TOMBSTONES = 0 then a
      else a\<lparr>wa_tombstones := (wa_tombstones a)[wa_tombstone_next a := \<lparr>tb_used = True, tb_token = token\<rparr>],
             wa_tombstone_next := (wa_tombstone_next a + 1) mod CONFIG_WEB_AUTH_TOMBSTONES\<rparr>)"

definition tombstone_has :: "string option \<Rightarrow> web_auth \<Rightarrow> bool" where
  "tombstone_has token a \<longleftrightarrow>
     (\<exists>i < CONFIG_WEB_AUTH_TOMBSTONES. tb_used (wa_tombstones a ! i) \<and> token_equal token (tb_token (wa_tombstones a ! i)) WEB_AUTH_TOKEN_LEN)"

definition session_end :: "nat \<Rightarrow> web_auth \<Rightarrow> web_auth" where
  "session_end i a = (let a1 = tombstone_add (ss_token (wa_sessions a ! i)) a in a1\<lparr>wa_sessions := (wa_sessions a1)[i := no_session]\<rparr>)"

definition sessions_end_all :: "web_auth \<Rightarrow> web_auth" where
  "sessions_end_all a =
     fold (\<lambda>i a. if ss_active (wa_sessions a ! i) then session_end i a else a) [0..<CONFIG_WEB_AUTH_MAX_SESSIONS] a"

definition idle_ms :: int where "idle_ms = int CONFIG_WEB_AUTH_IDLE_TIMEOUT_SECONDS * 1000"
definition absolute_ms :: int where "absolute_ms = int CONFIG_WEB_AUTH_ABSOLUTE_TIMEOUT_SECONDS * 1000"

definition session_expired :: "session_slot \<Rightarrow> int \<Rightarrow> bool" where
  "session_expired s now \<longleftrightarrow> idle_ms < now - ss_last_used_ms s \<or> absolute_ms < now - ss_created_ms s"

record web_auth_session =
  se_token :: string
  se_csrf_token :: string
  se_idle_timeout_seconds :: u32
  se_absolute_remaining_seconds :: u32

definition session_describe :: "session_slot \<Rightarrow> int \<Rightarrow> web_auth_session" where
  "session_describe s now =
     (let remaining = absolute_ms - (now - ss_created_ms s) in
      \<lparr>se_token = ss_token s, se_csrf_token = ss_csrf s, se_idle_timeout_seconds = of_nat CONFIG_WEB_AUTH_IDLE_TIMEOUT_SECONDS,
       se_absolute_remaining_seconds = (if 0 < remaining then of_int (remaining div 1000) else 0)\<rparr>)"

record session_seed =
  sd_token :: "byte list"
  sd_csrf :: "byte list"

definition least_recently_used :: "session_slot list \<Rightarrow> nat" where
  "least_recently_used ss = fold (\<lambda>i best. if ss_last_used_ms (ss ! i) < ss_last_used_ms (ss ! best) then i else best) [1..<length ss] 0"

definition session_issue :: "session_seed \<Rightarrow> int \<Rightarrow> web_auth \<Rightarrow> web_auth_session \<times> web_auth" where
  "session_issue seed now a =
     (case (case find_index (\<lambda>s. \<not> ss_active s) (wa_sessions a) of
              Some i \<Rightarrow> (i, a)
            | None \<Rightarrow> let i = least_recently_used (wa_sessions a) in (i, session_end i a)) of
        (i, a1) \<Rightarrow>
          let s = \<lparr>ss_active = True, ss_token = base64url (sd_token seed), ss_csrf = base64url (sd_csrf seed),
                   ss_created_ms = now, ss_last_used_ms = now\<rparr>
          in (session_describe s now, a1\<lparr>wa_sessions := (wa_sessions a1)[i := s]\<rparr>))"

section \<open>Public operations\<close>

text \<open>
  The functions that derive a key release the mutex around it: they are a locked part (\<open>_enter\<close>), work without
  the lock (\<open>_work\<close>), and a locked part again (\<open>_leave\<close>). \<open>_enter\<close> gives \<open>Inl\<close> the result of a call that ends there,
  \<open>Inr\<close> what the call carries on with.
\<close>

record web_auth_result =
  wr_status :: web_auth_status
  wr_retry_after_seconds :: u32

abbreviation answer :: "web_auth_status \<Rightarrow> web_auth_result" where
  "answer s \<equiv> \<lparr>wr_status = s, wr_retry_after_seconds = 0\<rparr>"

text \<open>\<open>loaded\<close> is what \<^verbatim>\<open>load_verifier\<close> gives, \<open>raw_token\<close> what the random source gives.\<close>

definition web_auth_init :: "bool \<Rightarrow> errno + byte list \<Rightarrow> byte list option \<Rightarrow> web_auth \<Rightarrow> errno option \<times> web_auth" where
  "web_auth_init platform_ok loaded raw_token a =
     (if \<not> platform_ok then (Some EINVAL, a)
      else let a0 = wiped_auth\<lparr>wa_platform := True\<rparr> in
        case loaded of
          Inl ENOENT \<Rightarrow>
            (case raw_token of
               None \<Rightarrow> (Some EFAULT, a0\<lparr>wa_phase := PHASE_LOCKED\<rparr>)
             | Some raw \<Rightarrow> (None, a0\<lparr>wa_setup_token := base64url raw, wa_phase := PHASE_SETUP\<rparr>))
        | Inl _ \<Rightarrow> (Some EIO, a0\<lparr>wa_phase := PHASE_LOCKED\<rparr>)
        | Inr stored \<Rightarrow>
            if length stored = WEB_AUTH_VERIFIER_LEN \<and> verifier_decode stored \<noteq> None
            then (None, a0\<lparr>wa_verifier := stored, wa_phase := PHASE_ADMIN\<rparr>)
            else (Some EBADMSG, a0\<lparr>wa_phase := PHASE_LOCKED\<rparr>))"

record web_auth_state =
  st_setup_required :: bool
  st_setup_allowed :: bool
  st_credential_usable :: bool
  st_setup_token :: string

definition web_auth_get_state :: "web_auth \<Rightarrow> web_auth_state" where
  "web_auth_get_state a =
     \<lparr>st_setup_required = (wa_phase a = PHASE_SETUP \<or> wa_phase a = PHASE_CLAIMED),
      st_setup_allowed = (wa_phase a = PHASE_SETUP),
      st_credential_usable = (wa_phase a = PHASE_SETUP \<or> wa_phase a = PHASE_CLAIMED \<or> wa_phase a = PHASE_ADMIN),
      st_setup_token = (if wa_phase a = PHASE_SETUP then wa_setup_token a else [])\<rparr>"

definition setup_enter ::
    "string option \<Rightarrow> byte list option \<Rightarrow> web_auth_peer \<Rightarrow> int \<Rightarrow> web_auth \<Rightarrow> (web_auth_result + byte list) \<times> web_auth" where
  "setup_enter setup_token password peer now a =
     (if wa_phase a = PHASE_UNINITIALISED \<or> wa_phase a = PHASE_LOCKED then (Inl (answer WEB_AUTH_UNAVAILABLE), a)
      else case rate_allows peer now a of
        (Some retry, a1) \<Rightarrow> (Inl \<lparr>wr_status = WEB_AUTH_RATE_LIMITED, wr_retry_after_seconds = retry\<rparr>, a1)
      | (None, a1) \<Rightarrow>
          if wa_phase a1 = PHASE_ADMIN then (Inl (answer WEB_AUTH_SETUP_NOT_ALLOWED), a1)
          else if \<not> token_equal setup_token (wa_setup_token a1) WEB_AUTH_SETUP_TOKEN_LEN then
            (Inl (answer WEB_AUTH_SETUP_NOT_ALLOWED), rate_fail peer now a1)
          else if wa_phase a1 = PHASE_CLAIMED then (Inl (answer WEB_AUTH_BUSY), a1)
          else if \<not> password_fits password WEB_AUTH_PASSWORD_MIN_CHARS then (Inl (answer WEB_AUTH_INVALID_PASSWORD), a1)
          else (Inr (the password), a1\<lparr>wa_phase := PHASE_CLAIMED\<rparr>))"

text \<open>\<open>Inr\<close>: the verifier was stored. \<open>save_ok\<close> is what \<^verbatim>\<open>save_verifier\<close> answers.\<close>

definition setup_work ::
    "kdf \<Rightarrow> byte list option \<Rightarrow> bool \<Rightarrow> session_seed option \<Rightarrow> bool \<Rightarrow> byte list \<Rightarrow> web_auth_status + byte list \<times> session_seed" where
  "setup_work pbkdf2 salt kdf_ok seed save_ok password =
     (case make_verifier pbkdf2 salt kdf_ok password of
        Inl s \<Rightarrow> Inl s
      | Inr v \<Rightarrow> (case seed of
          None \<Rightarrow> Inl WEB_AUTH_INTERNAL
        | Some sd \<Rightarrow> if save_ok then Inr (v, sd) else Inl WEB_AUTH_STORAGE_FAILED))"

definition setup_leave ::
    "web_auth_status + byte list \<times> session_seed \<Rightarrow> web_auth_peer \<Rightarrow> int \<Rightarrow> web_auth
       \<Rightarrow> (web_auth_result \<times> web_auth_session option) \<times> web_auth" where
  "setup_leave work peer now a =
     (case work of
        Inr (v, seed) \<Rightarrow>
          let a1 = a\<lparr>wa_verifier := v, wa_generation := wa_generation a + 1, wa_setup_token := no_chars WEB_AUTH_SETUP_TOKEN_LEN,
                     wa_phase := PHASE_ADMIN\<rparr>
          in (case session_issue seed now (rate_success peer a1) of (se, a2) \<Rightarrow> ((answer WEB_AUTH_OK, Some se), a2))
      | Inl s \<Rightarrow> ((answer s, None), a\<lparr>wa_phase := PHASE_SETUP\<rparr>))"

definition login_enter ::
    "byte list option \<Rightarrow> web_auth_peer \<Rightarrow> int \<Rightarrow> web_auth \<Rightarrow> (web_auth_result + byte list \<times> byte list \<times> u32) \<times> web_auth" where
  "login_enter password peer now a =
     (if wa_phase a = PHASE_UNINITIALISED \<or> wa_phase a = PHASE_LOCKED then (Inl (answer WEB_AUTH_UNAVAILABLE), a)
      else if wa_phase a \<noteq> PHASE_ADMIN then (Inl (answer WEB_AUTH_SETUP_NOT_ALLOWED), a)
      else case rate_allows peer now a of
        (Some retry, a1) \<Rightarrow> (Inl \<lparr>wr_status = WEB_AUTH_RATE_LIMITED, wr_retry_after_seconds = retry\<rparr>, a1)
      | (None, a1) \<Rightarrow>
          if \<not> password_fits password 1 then (Inl (answer WEB_AUTH_INVALID_CREDENTIALS), rate_fail peer now a1)
          else (Inr (the password, wa_verifier a1, wa_generation a1), a1))"

definition login_work :: "kdf \<Rightarrow> bool \<Rightarrow> session_seed option \<Rightarrow> byte list \<Rightarrow> byte list \<Rightarrow> web_auth_status + session_seed" where
  "login_work pbkdf2 kdf_ok seed verifier password =
     (let s = verify_against pbkdf2 kdf_ok verifier password in
      if s = WEB_AUTH_OK then (case seed of None \<Rightarrow> Inl WEB_AUTH_INTERNAL | Some sd \<Rightarrow> Inr sd) else Inl s)"

definition login_leave ::
    "u32 \<Rightarrow> web_auth_status + session_seed \<Rightarrow> web_auth_peer \<Rightarrow> int \<Rightarrow> web_auth
       \<Rightarrow> (web_auth_result \<times> web_auth_session option) \<times> web_auth" where
  "login_leave generation work peer now a =
     (if generation \<noteq> wa_generation a then ((answer WEB_AUTH_BUSY, None), a)
      else case work of
        Inl s \<Rightarrow> ((answer s, None), if s = WEB_AUTH_INVALID_CREDENTIALS then rate_fail peer now a else a)
      | Inr seed \<Rightarrow> (case session_issue seed now (rate_success peer a) of (se, a1) \<Rightarrow> ((answer WEB_AUTH_OK, Some se), a1)))"

definition session_with :: "string option \<Rightarrow> web_auth \<Rightarrow> nat option" where
  "session_with token a =
     fold (\<lambda>i found. if ss_active (wa_sessions a ! i) \<and> token_equal token (ss_token (wa_sessions a ! i)) WEB_AUTH_TOKEN_LEN
                     then Some i else found) [0..<CONFIG_WEB_AUTH_MAX_SESSIONS] None"

definition web_auth_resolve :: "string option \<Rightarrow> int \<Rightarrow> web_auth \<Rightarrow> (web_auth_status \<times> web_auth_session option) \<times> web_auth" where
  "web_auth_resolve token now a =
     (if token = None \<or> token = Some [] \<or> \<not> wa_platform a then ((WEB_AUTH_AUTHENTICATION_REQUIRED, None), a)
      else case session_with token a of
        Some i \<Rightarrow>
          if session_expired (wa_sessions a ! i) now then ((WEB_AUTH_SESSION_EXPIRED, None), session_end i a)
          else let s = (wa_sessions a ! i)\<lparr>ss_last_used_ms := now\<rparr> in
               ((WEB_AUTH_OK, Some (session_describe s now)), a\<lparr>wa_sessions := (wa_sessions a)[i := s]\<rparr>)
      | None \<Rightarrow> ((if tombstone_has token a then WEB_AUTH_SESSION_EXPIRED else WEB_AUTH_AUTHENTICATION_REQUIRED, None), a))"

definition web_auth_check_csrf :: "web_auth_session option \<Rightarrow> string option \<Rightarrow> web_auth_status" where
  "web_auth_check_csrf session csrf_header =
     (case session of
        None \<Rightarrow> WEB_AUTH_CSRF_FAILED
      | Some se \<Rightarrow> if \<not> token_equal csrf_header (se_csrf_token se) WEB_AUTH_TOKEN_LEN then WEB_AUTH_CSRF_FAILED else WEB_AUTH_OK)"

definition web_auth_logout :: "string option \<Rightarrow> web_auth \<Rightarrow> web_auth_status \<times> web_auth" where
  "web_auth_logout token a =
     (if token = None \<or> token = Some [] then (WEB_AUTH_AUTHENTICATION_REQUIRED, a)
      else case fold (\<lambda>i (status, a).
               if ss_active (wa_sessions a ! i) \<and> token_equal token (ss_token (wa_sessions a ! i)) WEB_AUTH_TOKEN_LEN
               then (WEB_AUTH_OK, session_end i a) else (status, a))
             [0..<CONFIG_WEB_AUTH_MAX_SESSIONS] (WEB_AUTH_AUTHENTICATION_REQUIRED, a) of
           (status, a1) \<Rightarrow> (if status \<noteq> WEB_AUTH_OK \<and> tombstone_has token a1 then WEB_AUTH_OK else status, a1))"

definition change_begin_enter ::
    "byte list option \<Rightarrow> byte list option \<Rightarrow> web_auth_peer \<Rightarrow> int \<Rightarrow> web_auth
       \<Rightarrow> (web_auth_result + byte list \<times> byte list \<times> u32) \<times> web_auth" where
  "change_begin_enter current_password new_password peer now a =
     (if wa_phase a \<noteq> PHASE_ADMIN then (Inl (answer WEB_AUTH_UNAVAILABLE), a)
      else if \<not> password_fits new_password WEB_AUTH_PASSWORD_MIN_CHARS then (Inl (answer WEB_AUTH_INVALID_PASSWORD), a)
      else if wa_change a \<noteq> CHANGE_IDLE then (Inl (answer WEB_AUTH_BUSY), a)
      else case rate_allows peer now a of
        (Some retry, a1) \<Rightarrow> (Inl \<lparr>wr_status = WEB_AUTH_RATE_LIMITED, wr_retry_after_seconds = retry\<rparr>, a1)
      | (None, a1) \<Rightarrow>
          if \<not> password_fits current_password 1 then (Inl (answer WEB_AUTH_INVALID_CREDENTIALS), rate_fail peer now a1)
          else (Inr (the current_password, wa_verifier a1, wa_generation a1), a1\<lparr>wa_change := CHANGE_VERIFYING\<rparr>))"

definition change_begin_leave ::
    "u32 \<Rightarrow> web_auth_status \<Rightarrow> byte list \<Rightarrow> web_auth_peer \<Rightarrow> int \<Rightarrow> web_auth \<Rightarrow> web_auth_result \<times> web_auth" where
  "change_begin_leave generation status new_password peer now a =
     (if generation \<noteq> wa_generation a then (answer WEB_AUTH_BUSY, a\<lparr>wa_change := CHANGE_IDLE\<rparr>)
      else if status = WEB_AUTH_OK then
        (answer WEB_AUTH_OK, (rate_success peer a)\<lparr>wa_pending := new_password, wa_change := CHANGE_PENDING\<rparr>)
      else (answer status,
            (if status = WEB_AUTH_INVALID_CREDENTIALS then rate_fail peer now a else a)\<lparr>wa_change := CHANGE_IDLE\<rparr>))"

definition change_run_enter :: "web_auth \<Rightarrow> (web_auth_status + byte list) \<times> web_auth" where
  "change_run_enter a =
     (if wa_phase a \<noteq> PHASE_ADMIN \<or> wa_change a \<noteq> CHANGE_PENDING then (Inl WEB_AUTH_UNAVAILABLE, a)
      else (Inr (wa_pending a), a\<lparr>wa_change := CHANGE_RUNNING, wa_pending := []\<rparr>))"

definition change_run_work :: "kdf \<Rightarrow> byte list option \<Rightarrow> bool \<Rightarrow> bool \<Rightarrow> byte list \<Rightarrow> web_auth_status + byte list" where
  "change_run_work pbkdf2 salt kdf_ok save_ok password =
     (case make_verifier pbkdf2 salt kdf_ok password of
        Inl s \<Rightarrow> Inl s
      | Inr v \<Rightarrow> if save_ok then Inr v else Inl WEB_AUTH_STORAGE_FAILED)"

definition change_run_leave :: "web_auth_status + byte list \<Rightarrow> web_auth \<Rightarrow> web_auth_status \<times> web_auth" where
  "change_run_leave work a =
     (case work of
        Inl s \<Rightarrow> (s, a\<lparr>wa_change := CHANGE_IDLE\<rparr>)
      | Inr v \<Rightarrow> (WEB_AUTH_OK, (sessions_end_all (a\<lparr>wa_verifier := v, wa_generation := wa_generation a + 1\<rparr>))\<lparr>wa_change := CHANGE_IDLE\<rparr>))"

definition web_auth_password_change_abandon :: "web_auth \<Rightarrow> web_auth" where
  "web_auth_password_change_abandon a =
     (if wa_change a = CHANGE_PENDING then a\<lparr>wa_pending := [], wa_change := CHANGE_IDLE\<rparr> else a)"

fun web_auth_status_str :: "web_auth_status \<Rightarrow> string" where
  "web_auth_status_str WEB_AUTH_OK = ''ok''"
| "web_auth_status_str WEB_AUTH_SETUP_NOT_ALLOWED = ''setup_not_allowed''"
| "web_auth_status_str WEB_AUTH_BUSY = ''busy''"
| "web_auth_status_str WEB_AUTH_INVALID_CREDENTIALS = ''invalid_credentials''"
| "web_auth_status_str WEB_AUTH_AUTHENTICATION_REQUIRED = ''authentication_required''"
| "web_auth_status_str WEB_AUTH_SESSION_EXPIRED = ''session_expired''"
| "web_auth_status_str WEB_AUTH_CSRF_FAILED = ''csrf_failed''"
| "web_auth_status_str WEB_AUTH_RATE_LIMITED = ''rate_limited''"
| "web_auth_status_str WEB_AUTH_INVALID_PASSWORD = ''invalid_password''"
| "web_auth_status_str WEB_AUTH_UNAVAILABLE = ''unavailable''"
| "web_auth_status_str WEB_AUTH_STORAGE_FAILED = ''storage_failed''"
| "web_auth_status_str WEB_AUTH_INTERNAL = ''internal''"

end
