(* ===== verification/Web_Auth_Text.thy ===== *)
theory Web_Auth_Text
  imports Web_Auth
begin

text \<open>
  What the helpers of the session module compute: constant-time comparison is equality, \<open>utf8_chars\<close> counts scalar values,
  the stored verifier reads back, and base64url gives distinct tokens for distinct random bytes.
\<close>

section \<open>Comparing\<close>

lemma xor_zero: "a XOR b = 0 \<longleftrightarrow> a = (b :: byte)"
  by (auto simp: bit_eq_iff bit_xor_iff)

lemma fold_or_zero: "fold (\<lambda>i d. d OR f i) is (d0 :: byte) = 0 \<longleftrightarrow> d0 = 0 \<and> (\<forall>i \<in> set is. f i = 0)"
proof (induction "is" arbitrary: d0)
  case (Cons i "is")
  have "d0 OR f i = 0 \<longleftrightarrow> d0 = 0 \<and> f i = 0" by (rule or_eq_0_iff)
  with Cons show ?case by auto
qed simp

lemma equal_ct_take:
  assumes "n \<le> length a" "n \<le> length b"
  shows "equal_ct a b n \<longleftrightarrow> take n a = take n b"
proof -
  have "equal_ct a b n \<longleftrightarrow> (\<forall>i < n. a ! i = b ! i)"
    unfolding equal_ct_def fold_or_zero xor_zero by auto
  then show ?thesis using assms by (auto simp: list_eq_iff_nth_eq)
qed

lemma bytes_of_inj: "bytes_of s = bytes_of t \<longleftrightarrow> s = t"
proof -
  have "inj (of_char :: char \<Rightarrow> byte)"
  proof (rule injI)
    fix x y :: char
    assume "(of_char x :: byte) = of_char y"
    then have "(of_char x :: nat) = of_char y" using unat_char_byte by metis
    then show "x = y" by simp
  qed
  then show ?thesis by (simp add: bytes_of_def inj_map_eq_map)
qed

lemma token_equal_iff: "length stored = n \<Longrightarrow> token_equal presented stored n \<longleftrightarrow> presented = Some stored"
proof (cases presented)
  case (Some p)
  assume l: "length stored = n"
  show ?thesis
  proof (cases "length p = n")
    case True
    then have "equal_ct (bytes_of p) (bytes_of stored) n \<longleftrightarrow> bytes_of p = bytes_of stored"
      using l by (subst equal_ct_take) simp_all
    then show ?thesis using True by (simp add: token_equal_def Some bounded_len_auth_def bytes_of_inj)
  next
    case False
    then have "min (length p) (n + 1) \<noteq> n" by auto
    then show ?thesis using False l by (auto simp: token_equal_def Some bounded_len_auth_def)
  qed
qed (simp add: token_equal_def)

section \<open>The password policy\<close>

lemma utf8_chars_step:
  "\<not> c < 0x80 \<Longrightarrow> utf8_chars (c # s) = (case read_utf8 (c # s) of None \<Rightarrow> None | Some (bs, s') \<Rightarrow> map_option Suc (utf8_chars s'))"
  by (simp add: read_utf8_def split: option.split)

declare utf8_chars.simps(2) [simp del]

text \<open>The number of characters of a text, counted by the definition of UTF-8.\<close>

definition text_of_chars :: "byte list \<Rightarrow> nat list \<Rightarrow> bool" where
  "text_of_chars p cs \<longleftrightarrow> list_all (\<lambda>c. scalar_value c \<and> c \<noteq> 0) cs \<and> p = concat (map utf8_of cs)"

lemma utf8_of_small: "c < 0x80 \<Longrightarrow> utf8_of (unat c) = [c]"
  by (simp add: utf8_of_def word_less_nat_alt)

lemma utf8_chars_sound: "utf8_chars p = Some n \<Longrightarrow> \<exists>cs. text_of_chars p cs \<and> length cs = n"
proof (induction p arbitrary: n rule: measure_induct_rule [of length])
  case (less p)
  show ?case
  proof (cases p)
    case Nil
    with less.prems show ?thesis by (intro exI [of _ "[]"]) (simp add: text_of_chars_def)
  next
    case (Cons c s)
    show ?thesis
    proof (cases "c < 0x80")
      case True
      with less.prems obtain m where m: "utf8_chars s = Some m" "n = Suc m" "c \<noteq> 0"
        by (auto simp: Cons utf8_chars.simps split: if_splits)
      from less.IH [OF _ m(1)] obtain cs where "text_of_chars s cs" "length cs = m" by (auto simp: Cons)
      moreover have "scalar_value (unat c)" using True by (simp add: scalar_value_def word_less_nat_alt)
      ultimately show ?thesis using m True
        by (intro exI [of _ "unat c # cs"]) (simp add: text_of_chars_def Cons utf8_of_small unat_gt_0)
    next
      case False
      with less.prems obtain bs s' m where r: "read_utf8 p = Some (bs, s')" "utf8_chars s' = Some m" "n = Suc m"
        by (auto simp: Cons utf8_chars_step split: option.splits)
      obtain k where k: "scalar_value k" "0x80 \<le> k" "bs = utf8_of k" "p = bs @ s'" using read_utf8_sound [OF r(1)] by (auto simp: Cons)
      then have "length s' < length p" by simp
      from less.IH [OF this r(2)] obtain cs where "text_of_chars s' cs" "length cs = m" by auto
      then show ?thesis using k r(3) by (intro exI [of _ "k # cs"]) (simp add: text_of_chars_def)
    qed
  qed
qed

lemma utf8_chars_complete: "text_of_chars p cs \<Longrightarrow> utf8_chars p = Some (length cs)"
proof (induction cs arbitrary: p)
  case (Cons k cs)
  then have k: "scalar_value k" "k \<noteq> 0" and p: "p = utf8_of k @ concat (map utf8_of cs)" and t: "text_of_chars (concat (map utf8_of cs)) cs"
    by (simp_all add: text_of_chars_def)
  show ?case
  proof (cases "k < 0x80")
    case True
    then have u: "utf8_of k = [of_nat k]" by (simp add: utf8_of_def)
    have "unat (of_nat k :: byte) = k" using True by (intro unat_of_nat_byte) simp
    then have "(of_nat k :: byte) < 0x80" "(of_nat k :: byte) \<noteq> 0" using True k by (auto simp: word_less_nat_alt)
    then show ?thesis using Cons.IH [OF t] by (simp add: p u utf8_chars.simps)
  next
    case False
    then have "0x80 \<le> k" by simp
    note r = read_utf8_of [OF k(1) this, of "concat (map utf8_of cs)"]
    have h: "0x80 \<le> hd (utf8_of k)" using \<open>0x80 \<le> k\<close> k(1) by (intro utf8_of_head) (auto simp: scalar_value_def)
    obtain c u where c: "utf8_of k = c # u" by (cases "utf8_of k") simp_all
    with h have "\<not> c < 0x80" by (simp add: not_less)
    then show ?thesis using r Cons.IH [OF t] by (simp add: p c utf8_chars_step)
  qed
qed (simp add: text_of_chars_def)

theorem utf8_chars_counts: "utf8_chars p = Some n \<longleftrightarrow> (\<exists>cs. text_of_chars p cs \<and> length cs = n)"
  using utf8_chars_sound utf8_chars_complete by blast

section \<open>The stored verifier\<close>

lemma verifier_lengths:
  "length VERIFIER_MAGIC = 4" "WEB_AUTH_VERIFIER_LEN = 60" "WEB_AUTH_SALT_LEN = 16" "WEB_AUTH_DERIVED_LEN = 32"
  by (simp_all add: VERIFIER_MAGIC_def WEB_AUTH_VERIFIER_LEN_def WEB_AUTH_SALT_LEN_def WEB_AUTH_DERIVED_LEN_def)

lemma verifier_encode_length:
  "length salt = WEB_AUTH_SALT_LEN \<Longrightarrow> length derived = WEB_AUTH_DERIVED_LEN \<Longrightarrow>
   length (verifier_encode iterations salt derived) = WEB_AUTH_VERIFIER_LEN"
  by (simp add: verifier_encode_def verifier_lengths)

lemma verifier_decode_encode:
  assumes "length salt = WEB_AUTH_SALT_LEN" "length derived = WEB_AUTH_DERIVED_LEN" "iterations \<noteq> 0"
    "iterations \<le> CONFIG_WEB_AUTH_PBKDF2_MAX_ITERATIONS"
  shows "verifier_decode (verifier_encode iterations salt derived) = Some (iterations, salt, derived)"
proof -
  have "unat iterations < 256 ^ 4" using unsigned_less [of iterations] by simp
  then have g: "get_le (put_le 4 (unat iterations)) = unat iterations" by (rule get_put_le)
  have i: "verifier_encode iterations salt derived =
      (VERIFIER_MAGIC @ [KDF_PBKDF2_SHA256, 0, 0, 0]) @ put_le 4 (unat iterations) @ salt @ derived"
    using assms(1,2) by (simp add: verifier_encode_def)
  have n: "(VERIFIER_MAGIC @ [KDF_PBKDF2_SHA256, 0, 0, 0]) = bytes_of ''CWA1'' @ [1, 0, 0, 0]"
    by (simp add: VERIFIER_MAGIC_def KDF_PBKDF2_SHA256_def)
  have "length (verifier_encode iterations salt derived) = 60" using assms(1,2) by (simp add: verifier_encode_length verifier_lengths)
  moreover have "take 4 (verifier_encode iterations salt derived) = VERIFIER_MAGIC" by (simp add: i VERIFIER_MAGIC_def bytes_of_def)
  moreover have "verifier_encode iterations salt derived ! 4 = KDF_PBKDF2_SHA256" "verifier_encode iterations salt derived ! 5 = 0"
    "verifier_encode iterations salt derived ! 6 = 0" "verifier_encode iterations salt derived ! 7 = 0"
    unfolding i n by (simp_all add: bytes_of_def KDF_PBKDF2_SHA256_def nth_append)
  moreover have "take 4 (drop 8 (verifier_encode iterations salt derived)) = put_le 4 (unat iterations)"
    unfolding i n by (simp add: bytes_of_def)
  moreover have "take 16 (drop 12 (verifier_encode iterations salt derived)) = salt"
    "take 32 (drop 28 (verifier_encode iterations salt derived)) = derived"
    using assms(1,2) unfolding i n by (simp_all add: bytes_of_def verifier_lengths)
  ultimately show ?thesis using assms(2-4) by (simp add: verifier_decode_def verifier_lengths g not_less)
qed

lemma verifier_decode_exact:
  assumes "verifier_decode inp = Some (iterations, salt, derived)"
  shows "inp = verifier_encode iterations salt derived \<and> length salt = WEB_AUTH_SALT_LEN \<and> length derived = WEB_AUTH_DERIVED_LEN \<and>
    iterations \<noteq> 0 \<and> iterations \<le> CONFIG_WEB_AUTH_PBKDF2_MAX_ITERATIONS"
proof -
  have d: "length inp = 60" "take 4 inp = VERIFIER_MAGIC" "inp ! 4 = KDF_PBKDF2_SHA256" "inp ! 5 = 0" "inp ! 6 = 0" "inp ! 7 = 0"
    "iterations = of_nat (get_le (take 4 (drop 8 inp)))" "salt = take 16 (drop 12 inp)" "derived = take 32 (drop 28 inp)"
    "iterations \<noteq> 0" "iterations \<le> CONFIG_WEB_AUTH_PBKDF2_MAX_ITERATIONS"
    using assms by (auto simp: verifier_decode_def verifier_lengths Let_def split: if_splits)
  let ?f = "take 4 (drop 8 inp)"
  have f: "length ?f = 4" using d(1) by simp
  then have "get_le ?f < 256 ^ 4" using get_le_bound [of ?f] by simp
  then have u: "unat iterations = get_le ?f" unfolding d(7) by (intro unat_of_nat_small) simp
  have p: "put_le 4 (unat iterations) = ?f" using put_get_le [of ?f] f u by simp
  have m: "inp = take 4 inp @ [inp ! 4, inp ! 5, inp ! 6, inp ! 7] @ ?f @ take 16 (drop 12 inp) @ take 32 (drop 28 inp)"
  proof -
    have "inp = take 4 inp @ drop 4 inp" by simp
    also have "drop 4 inp = [inp ! 4, inp ! 5, inp ! 6, inp ! 7] @ drop 8 inp"
      using d(1) by (simp add: Cons_nth_drop_Suc [symmetric])
    also have "drop 8 inp = ?f @ drop 12 inp" using append_take_drop_id [of 4 "drop 8 inp"] by (simp add: drop_drop)
    also have "drop 12 inp = take 16 (drop 12 inp) @ drop 28 inp" using append_take_drop_id [of 16 "drop 12 inp"] by (simp add: drop_drop)
    also have "drop 28 inp = take 32 (drop 28 inp)" using d(1) by simp
    finally show ?thesis .
  qed
  show ?thesis
    using d p by (intro conjI, subst m) (simp_all add: verifier_encode_def verifier_lengths)
qed

section \<open>Tokens\<close>

lemma base64url_length: "length (base64url bs) = (4 * length bs + 2) div 3"
proof (induction bs rule: base64url.induct)
  case (1 a b c r)
  have "(4 * (length r + 3) + 2) div 3 = (4 * length r + 2) div 3 + 4" by simp
  with 1 show ?case by (simp add: Let_def)
qed (simp_all add: Let_def)

definition sextet :: "nat \<Rightarrow> nat \<Rightarrow> nat" where
  "sextet v shift = v div 2 ^ shift mod 64"

lemma base64_char_six: "base64_char v shift = base64_alphabet ! sextet (unat v) shift"
proof -
  have m: "(0x3F :: u32) = mask 6" by (simp add: mask_eq_exp_minus_1)
  show ?thesis unfolding base64_char_def sextet_def m unat_and_mask unat_drop_bit by simp
qed

lemma alphabet_distinct: "distinct base64_alphabet \<and> length base64_alphabet = 64"
  unfolding base64_alphabet_def by simp

lemma base64_char_inj: "base64_char v k = base64_char w k \<Longrightarrow> sextet (unat v) k = sextet (unat w) k"
  unfolding base64_char_six using alphabet_distinct by (auto simp: sextet_def nth_eq_iff_index_eq)

lemma sextet_all:
  assumes "sextet v 18 = sextet w 18" "sextet v 12 = sextet w 12" "sextet v 6 = sextet w 6" "sextet v 0 = sextet w 0"
    "v < 2 ^ 24" "w < 2 ^ 24"
  shows "v = w"
proof -
  have d: "v = 262144 * sextet v 18 + 4096 * sextet v 12 + 64 * sextet v 6 + sextet v 0" if "v < 2 ^ 24" for v
  proof -
    have "v div 64 div 64 = v div 4096" "v div 4096 div 64 = v div 262144" by (simp_all add: div_mult2_eq [symmetric])
    moreover have "v div 262144 < 64" using that by (simp add: less_mult_imp_div_less)
    moreover from \<open>v div 262144 < 64\<close> have "sextet v 18 = v div 262144" "sextet v 12 = v div 4096 mod 64" "sextet v 6 = v div 64 mod 64"
      "sextet v 0 = v mod 64" by (simp_all add: sextet_def)
    ultimately show ?thesis
      using div_mult_mod_eq [of v 64] div_mult_mod_eq [of "v div 64" 64] div_mult_mod_eq [of "v div 4096" 64] by linarith
  qed
  show ?thesis using d [OF assms(5)] d [OF assms(6)] assms(1-4) by simp
qed

lemma unat_shifted_byte:
  assumes "k \<le> 16"
  shows "unat (push_bit k (ucast (a :: byte)) :: u32) = unat a * 2 ^ k"
proof -
  have u: "unat (ucast a :: u32) = unat a" by (rule unat_ucast_up) simp
  have "unat a * 2 ^ k < 256 * 2 ^ 16"
    using unsigned_less [of a] power_increasing [OF assms, of "2 :: nat"] by (intro mult_less_le_imp_less) simp_all
  then have "take_bit 32 (push_bit k (unat a)) = push_bit k (unat a)" by (intro take_bit_nat_eq_self) (simp add: push_bit_eq_mult)
  moreover have "unat (push_bit k (ucast a) :: u32) = take_bit LENGTH(32) (push_bit k (unat (ucast a :: u32)))" by (rule unsigned_push_bit_eq)
  ultimately show ?thesis by (simp add: u push_bit_eq_mult)
qed

lemma byte_less: "unat (b :: byte) < 256"
proof -
  have "unat b < 2 ^ LENGTH(8)" by (rule unsigned_less)
  then show ?thesis by simp
qed

lemma base64_word:
  "unat (push_bit 16 (ucast a) OR push_bit 8 (ucast b) OR ucast c :: u32) = unat (a :: byte) * 65536 + unat (b :: byte) * 256 + unat (c :: byte)"
  "unat (push_bit 16 (ucast a) OR push_bit 8 (ucast b) :: u32) = unat a * 65536 + unat b * 256"
  "unat (push_bit 16 (ucast a) :: u32) = unat a * 65536"
proof -
  note bound = byte_less [of a] byte_less [of b] byte_less [of c]
  have c: "unat (ucast c :: u32) = unat c" by (rule unat_ucast_up) simp
  show a: "unat (push_bit 16 (ucast a) :: u32) = unat a * 65536" using unat_shifted_byte [of 16 a] by simp
  have b: "unat (push_bit 8 (ucast b) :: u32) = unat b * 256" using unat_shifted_byte [of 8 b] by simp
  show ab: "unat (push_bit 16 (ucast a) OR push_bit 8 (ucast b) :: u32) = unat a * 65536 + unat b * 256"
    by (subst unat_or_disjoint [of 16]) (use a b bound in simp_all)
  show "unat (push_bit 16 (ucast a) OR push_bit 8 (ucast b) OR ucast c :: u32) = unat a * 65536 + unat b * 256 + unat c"
  proof -
    have bc: "unat (push_bit 8 (ucast b) OR ucast c :: u32) = unat b * 256 + unat c"
      by (subst unat_or_disjoint [of 8]) (use b c bound in simp_all)
    show ?thesis by (subst unat_or_disjoint [of 16]) (use a bc bound in simp_all)
  qed
qed

lemma three_bytes:
  fixes a b c a' b' c' :: byte
  assumes "unat a * 65536 + unat b * 256 + unat c = unat a' * 65536 + unat b' * 256 + unat c'"
  shows "a = a' \<and> b = b' \<and> c = c'"
proof -
  have "get_le [c, b, a] = get_le [c', b', a']" using assms by simp
  then have "[c, b, a] = [c', b', a']" using put_get_le [of "[c, b, a]"] put_get_le [of "[c', b', a']"] by simp
  then show ?thesis by simp
qed

theorem base64url_inj: "base64url x = base64url y \<Longrightarrow> length x = length y \<Longrightarrow> x = y"
proof (induction x arbitrary: y rule: base64url.induct)
  case (1 a b c r)
  then obtain a' b' c' r' where y: "y = a' # b' # c' # r'" by (cases y rule: base64url.cases) auto
  let ?v = "push_bit 16 (ucast a) OR push_bit 8 (ucast b) OR ucast c :: u32"
  let ?w = "push_bit 16 (ucast a') OR push_bit 8 (ucast b') OR ucast c' :: u32"
  have small: "unat (a :: byte) * 65536 + unat (b :: byte) * 256 + unat (c :: byte) < 2 ^ 24" for a b c
    using byte_less [of a] byte_less [of b] byte_less [of c] by simp
  have ch: "base64_char ?v 18 = base64_char ?w 18" "base64_char ?v 12 = base64_char ?w 12" "base64_char ?v 6 = base64_char ?w 6"
    "base64_char ?v 0 = base64_char ?w 0" using 1(2) by (simp_all add: y Let_def)
  have "unat ?v = unat ?w"
    by (rule sextet_all [OF ch [THEN base64_char_inj]]) (simp_all only: base64_word(1) small)
  then have "a = a' \<and> b = b' \<and> c = c'" unfolding base64_word by (rule three_bytes)
  moreover have "r = r'" using 1 by (simp add: y Let_def)
  ultimately show ?case by (simp add: y)
next
  case (2 a b)
  then obtain a' b' where y: "y = [a', b']" by (cases y rule: base64url.cases) auto
  let ?v = "push_bit 16 (ucast a) OR push_bit 8 (ucast b) :: u32" and ?w = "push_bit 16 (ucast a') OR push_bit 8 (ucast b') :: u32"
  have v: "unat (a :: byte) * 65536 + unat (b :: byte) * 256 < 2 ^ 24" for a b
    using byte_less [of a] byte_less [of b] by simp
  have z: "sextet (k * 65536 + m * 256) 0 = 0" for k m
  proof -
    have "k * 65536 + m * 256 = 64 * (k * 1024 + m * 4)" by simp
    then show ?thesis unfolding sextet_def by (simp only: mod_mult_self1_is_0 power_0 div_by_1)
  qed
  have ch: "base64_char ?v 18 = base64_char ?w 18" "base64_char ?v 12 = base64_char ?w 12" "base64_char ?v 6 = base64_char ?w 6"
    using 2(1) by (simp_all add: y Let_def)
  have "unat ?v = unat ?w"
  proof (rule sextet_all)
    show "sextet (unat ?v) 0 = sextet (unat ?w) 0" unfolding base64_word(2) by (simp only: z)
  qed (rule ch [THEN base64_char_inj] | simp only: base64_word(2) v)+
  then have "unat a * 65536 + unat b * 256 + unat (0 :: byte) = unat a' * 65536 + unat b' * 256 + unat (0 :: byte)"
    unfolding base64_word by simp
  from three_bytes [OF this] show ?case by (simp add: y)
next
  case (3 a)
  then obtain a' where y: "y = [a']" by (cases y rule: base64url.cases) auto
  let ?v = "push_bit 16 (ucast a) :: u32" and ?w = "push_bit 16 (ucast a') :: u32"
  have v: "unat (a :: byte) * 65536 < 2 ^ 24" for a
    using byte_less [of a] by simp
  have z: "sextet (k * 65536) 0 = 0" "sextet (k * 65536) 6 = 0" for k
  proof -
    have e: "k * 65536 = 64 * (k * 1024)" "k * 65536 = 2 ^ 6 * (k * 1024)" by simp_all
    show "sextet (k * 65536) 0 = 0" unfolding sextet_def e(1) by (simp only: mod_mult_self1_is_0 power_0 div_by_1)
    have "k * 1024 = 64 * (k * 16)" by simp
    then have m: "k * 1024 mod 64 = 0" by (simp only: mod_mult_self1_is_0)
    have "k * 65536 div 2 ^ 6 = k * 1024" by simp
    with m show "sextet (k * 65536) 6 = 0" unfolding sextet_def by simp
  qed
  have ch: "base64_char ?v 18 = base64_char ?w 18" "base64_char ?v 12 = base64_char ?w 12"
    using 3(1) by (simp_all add: y Let_def)
  have "unat ?v = unat ?w"
  proof (rule sextet_all)
    show "sextet (unat ?v) 0 = sextet (unat ?w) 0" "sextet (unat ?v) 6 = sextet (unat ?w) 6"
      unfolding base64_word(3) by (simp_all only: z)
  qed (rule ch [THEN base64_char_inj] | simp only: base64_word(3) v)+
  then show ?case unfolding base64_word by (simp add: y word_unat_eq_iff)
qed simp

lemma token_lengths:
  "length bs = 32 \<Longrightarrow> length (base64url bs) = WEB_AUTH_TOKEN_LEN" "length bs = 24 \<Longrightarrow> length (base64url bs) = WEB_AUTH_SETUP_TOKEN_LEN"
  by (simp_all add: base64url_length WEB_AUTH_TOKEN_LEN_def WEB_AUTH_SETUP_TOKEN_LEN_def)

end
