(* ===== verification/Web_Auth_Rate.thy ===== *)
theory Web_Auth_Rate
  imports Web_Auth_Text
begin

text \<open>
  The limits on guessing: the ring of failures of all clients as the list of the recent ones, and the wait of one client.
\<close>

section \<open>The ring of failures\<close>

abbreviation GF :: nat where "GF \<equiv> CONFIG_WEB_AUTH_GLOBAL_FAILURES"

text \<open>The failures the ring holds, the oldest first.\<close>

definition recent :: "web_auth \<Rightarrow> int list" where
  "recent a = map (\<lambda>k. wa_global_failures a ! ((wa_global_next a + GF - k) mod GF)) (rev [1..<Suc (wa_global_count a)])"

definition failure_ring_ok :: "web_auth \<Rightarrow> bool" where
  "failure_ring_ok a \<longleftrightarrow> length (wa_global_failures a) = GF \<and> wa_global_next a < GF \<and> wa_global_count a \<le> GF"

lemma GF_pos [simp]: "0 < GF" by (simp add: CONFIG_WEB_AUTH_GLOBAL_FAILURES_def)

lemma recent_length [simp]: "length (recent a) = wa_global_count a"
  by (simp add: recent_def)

definition left_window :: "int \<Rightarrow> int \<Rightarrow> bool" where
  "left_window now t \<longleftrightarrow> global_window \<le> now - t"

lemma recent_prune: "recent (global_prune now a) = dropWhile (left_window now) (recent a)"
proof -
  let ?f = "\<lambda>k. wa_global_failures a ! ((wa_global_next a + GF - k) mod GF)"
  have "map ?f (rev [1..<Suc (global_prune_loop now (wa_global_failures a) (wa_global_next a) c)]) =
      dropWhile (left_window now) (map ?f (rev [1..<Suc c]))" for c
  proof (induction c)
    case (Suc c)
    have "rev [1..<Suc (Suc c)] = Suc c # rev [1..<Suc c]" by simp
    with Suc show ?case by (simp add: Let_def left_window_def not_le [symmetric] del: upt_Suc)
  qed simp
  then show ?thesis by (simp add: recent_def global_prune_def del: upt_Suc)
qed

lemma failure_ring_ok_prune: "failure_ring_ok a \<Longrightarrow> failure_ring_ok (global_prune now a)"
proof -
  have "global_prune_loop now ring nx c \<le> c" for ring nx c
    by (induction c) (auto simp: Let_def intro: le_SucI)
  then show "failure_ring_ok a \<Longrightarrow> failure_ring_ok (global_prune now a)"
    by (auto simp: failure_ring_ok_def global_prune_def intro: order_trans)
qed

lemma rate_fail_ring:
  "wa_global_failures (rate_fail peer now a) = (wa_global_failures a)[wa_global_next a := now]"
  "wa_global_next (rate_fail peer now a) = (wa_global_next a + 1) mod GF"
  "wa_global_count (rate_fail peer now a) = (if wa_global_count a < GF then wa_global_count a + 1 else wa_global_count a)"
  by (simp_all add: rate_fail_def Let_def)

lemma failure_ring_ok_fail: "failure_ring_ok a \<Longrightarrow> failure_ring_ok (rate_fail peer now a)"
  unfolding failure_ring_ok_def rate_fail_ring by auto

lemma ring_index:
  assumes "nx < GF" "0 < k" "k \<le> GF"
  shows "((nx + 1) mod GF + GF - k) mod GF = (nx + GF - (k - 1)) mod GF"
proof -
  have "((nx + 1) mod GF + GF - k) mod GF = ((nx + 1) mod GF + (GF - k)) mod GF" using assms by simp
  also have "\<dots> = (nx + 1 + (GF - k)) mod GF" by (simp add: mod_add_left_eq)
  also have "nx + 1 + (GF - k) = nx + GF - (k - 1)" using assms by simp
  finally show ?thesis .
qed

lemma ring_index_other:
  assumes "nx < GF" "0 < j" "j < GF"
  shows "(nx + GF - j) mod GF \<noteq> nx"
proof (cases "j \<le> nx")
  case True
  then have e: "nx + GF - j = (nx - j) + GF" using assms by simp
  have "(nx + GF - j) mod GF = nx - j" unfolding e using assms by simp
  then show ?thesis using assms True by simp
next
  case False
  then have "nx + GF - j < GF" using assms by simp
  then show ?thesis using assms False by simp
qed

lemma recent_fail:
  assumes "failure_ring_ok a" "wa_global_count a < GF"
  shows "recent (rate_fail peer now a) = recent a @ [now]"
proof -
  let ?ring = "wa_global_failures a" and ?nx = "wa_global_next a" and ?c = "wa_global_count a"
  have nx: "?nx < GF" "length ?ring = GF" using assms(1) by (simp_all add: failure_ring_ok_def)
  have new: "(?ring[?nx := now]) ! (((?nx + 1) mod GF + GF - 1) mod GF) = now"
    using ring_index [OF nx(1), of 1] nx by (simp add: Suc_le_eq)
  have old: "(?ring[?nx := now]) ! (((?nx + 1) mod GF + GF - Suc k) mod GF) = ?ring ! ((?nx + GF - k) mod GF)"
    if "k \<in> set [1..<Suc ?c]" for k
  proof -
    have k: "0 < k" "Suc k \<le> GF" using that assms(2) by auto
    have i: "((?nx + 1) mod GF + GF - Suc k) mod GF = (?nx + GF - k) mod GF" using ring_index [OF nx(1) _ k(2)] by simp
    have "(?nx + GF - k) mod GF \<noteq> ?nx" using ring_index_other [OF nx(1) k(1)] k(2) by simp
    then show ?thesis unfolding i by simp
  qed
  have up: "rev [1..<Suc (Suc ?c)] = map Suc (rev [1..<Suc ?c]) @ [1]"
    by (simp add: map_Suc_upt rev_map [symmetric] upt_conv_Cons del: upt_Suc)
  show ?thesis
    unfolding recent_def rate_fail_ring using assms(2) new old
    by (simp add: up [unfolded One_nat_def] del: upt_Suc)
qed


section \<open>Attempts one after the other\<close>

text \<open>
  One guess: the limit is asked at \<open>at_ask\<close>, and when the password turns out wrong that is counted at \<open>at_fail\<close>. The HTTP
  server has one thread, so guesses do not overlap.
\<close>

record guess =
  gu_peer :: web_auth_peer
  gu_ask :: int
  gu_fail :: int
  gu_wrong :: bool

definition guess_once :: "guess \<Rightarrow> web_auth \<Rightarrow> int list \<times> web_auth" where
  "guess_once g a =
     (case rate_allows (gu_peer g) (gu_ask g) a of
        (Some _, a1) \<Rightarrow> ([], a1)
      | (None, a1) \<Rightarrow> if gu_wrong g then ([gu_fail g], rate_fail (gu_peer g) (gu_fail g) a1) else ([], rate_success (gu_peer g) a1))"

fun guess_all :: "guess list \<Rightarrow> web_auth \<Rightarrow> int list \<times> web_auth" where
  "guess_all [] a = ([], a)"
| "guess_all (g # gs) a = (case guess_once g a of (f, a1) \<Rightarrow> case guess_all gs a1 of (fs, a2) \<Rightarrow> (f @ fs, a2))"

fun in_order :: "int \<Rightarrow> guess list \<Rightarrow> bool" where
  "in_order t [] \<longleftrightarrow> True"
| "in_order t (g # gs) \<longleftrightarrow> t \<le> gu_ask g \<and> gu_ask g \<le> gu_fail g \<and> in_order (gu_fail g) gs"

text \<open>Any \<open>GF + 1\<close> consecutive failures span at least the window.\<close>

definition spaced :: "int list \<Rightarrow> bool" where
  "spaced fs \<longleftrightarrow> (\<forall>i. i + GF < length fs \<longrightarrow> global_window \<le> fs ! (i + GF) - fs ! i)"

text \<open>What the ring has of all failures so far: all but the first \<open>k\<close>, which have left the window.\<close>

definition ring_knows :: "int list \<Rightarrow> int \<Rightarrow> web_auth \<Rightarrow> bool" where
  "ring_knows fs now a \<longleftrightarrow> failure_ring_ok a \<and> spaced fs \<and>
     (\<exists>k \<le> length fs. recent a = drop k fs \<and> (\<forall>t \<in> set (take k fs). global_window \<le> now - t))"

lemma ring_knows_later: "ring_knows fs t a \<Longrightarrow> t \<le> u \<Longrightarrow> ring_knows fs u a"
  by (force simp: ring_knows_def)

lemma ring_knows_prune:
  assumes "ring_knows fs now a"
  shows "ring_knows fs now (global_prune now a)"
proof -
  from assms obtain k where k: "k \<le> length fs" "recent a = drop k fs" "\<forall>t \<in> set (take k fs). global_window \<le> now - t"
    by (auto simp: ring_knows_def)
  define m where "m = length (takeWhile (left_window now) (recent a))"
  have "m \<le> length (drop k fs)" unfolding m_def k(2) by (rule length_takeWhile_le)
  then have "k + m \<le> length fs" using k(1) by simp
  moreover have "recent (global_prune now a) = drop (k + m) fs"
    unfolding recent_prune dropWhile_eq_drop m_def [symmetric] by (simp add: k(2) add.commute)
  moreover have "\<forall>t \<in> set (take (k + m) fs). global_window \<le> now - t"
  proof -
    have "take (k + m) fs = take k fs @ take m (drop k fs)" by (rule take_add)
    moreover have "take m (drop k fs) = takeWhile (left_window now) (recent a)" unfolding m_def k(2) by (simp add: takeWhile_eq_take [symmetric])
    ultimately show ?thesis using k(3) by (auto simp: left_window_def dest: set_takeWhileD)
  qed
  ultimately show ?thesis using assms failure_ring_ok_prune unfolding ring_knows_def by blast
qed

lemma ring_knows_fail:
  assumes "ring_knows fs now a" "wa_global_count a < GF" "now \<le> t"
  shows "ring_knows (fs @ [t]) t (rate_fail peer t a)"
proof -
  from assms(1) obtain k where k: "k \<le> length fs" "recent a = drop k fs" "\<forall>u \<in> set (take k fs). global_window \<le> now - u"
    and r: "failure_ring_ok a" "spaced fs" by (auto simp: ring_knows_def)
  have c: "length fs - k < GF" using assms(2) recent_length [of a] by (simp add: k(2))
  have "global_window \<le> (fs @ [t]) ! (i + GF) - (fs @ [t]) ! i" if i: "i + GF < length (fs @ [t])" for i
  proof (cases "i + GF < length fs")
    case True
    then show ?thesis using r(2) by (simp add: spaced_def nth_append)
  next
    case False
    with i have e: "i + GF = length fs" by simp
    then have "i < k" using c by simp
    moreover have "i < length fs" using \<open>i < k\<close> k(1) by simp
    ultimately have "fs ! i \<in> set (take k fs)" using in_set_conv_nth [of "fs ! i" "take k fs"] by auto
    then have "global_window \<le> now - fs ! i" using k(3) by blast
    then show ?thesis using e \<open>i < length fs\<close> assms(3) by (simp add: nth_append)
  qed
  then have "spaced (fs @ [t])" unfolding spaced_def by blast
  moreover have "recent (rate_fail peer t a) = drop k (fs @ [t])" using recent_fail [OF r(1) assms(2)] k(1,2) by simp
  moreover have "\<forall>u \<in> set (take k (fs @ [t])). global_window \<le> t - u" using k(1,3) assms(3) by force
  ultimately show ?thesis using failure_ring_ok_fail [OF r(1)] k(1) unfolding ring_knows_def by (metis le_SucI length_append_singleton)
qed

lemma rate_success_ring: "ring_knows fs now (rate_success peer a) \<longleftrightarrow> ring_knows fs now a"
  by (simp add: rate_success_def ring_knows_def failure_ring_ok_def recent_def split: option.split)

lemma rate_allows_prunes:
  "snd (rate_allows peer now a) = global_prune now a"
  "fst (rate_allows peer now a) = None \<Longrightarrow> wa_global_count (global_prune now a) < GF"
  by (simp_all add: rate_allows_def Let_def split: option.splits if_splits)

lemma guess_all_spaced:
  "ring_knows fs t a \<Longrightarrow> in_order t gs \<Longrightarrow> spaced (fs @ fst (guess_all gs a))"
proof (induction gs arbitrary: fs t a)
  case Nil
  then show ?case by (simp add: ring_knows_def)
next
  case (Cons g gs)
  obtain v a1 where ra: "rate_allows (gu_peer g) (gu_ask g) a = (v, a1)" by (rule prod.exhaust)
  have a1: "a1 = global_prune (gu_ask g) a" using rate_allows_prunes(1) [of "gu_peer g" "gu_ask g" a] by (simp add: ra)
  have k: "ring_knows fs (gu_ask g) a1"
    unfolding a1 using ring_knows_prune ring_knows_later [OF Cons.prems(1)] Cons.prems(2) by simp
  have k': "ring_knows fs (gu_fail g) a1" using ring_knows_later [OF k] Cons.prems(2) by simp
  have o: "in_order (gu_fail g) gs" using Cons.prems(2) by simp
  show ?case
  proof (cases "v = None \<and> gu_wrong g")
    case True
    then have "wa_global_count a1 < GF" using rate_allows_prunes(2) [of "gu_peer g" "gu_ask g" a] by (simp add: ra a1)
    from ring_knows_fail [OF k this] Cons.prems(2)
    have "ring_knows (fs @ [gu_fail g]) (gu_fail g) (rate_fail (gu_peer g) (gu_fail g) a1)" by simp
    from Cons.IH [OF this o] show ?thesis using True by (simp add: guess_once_def ra split_beta)
  next
    case False
    then show ?thesis
      using Cons.IH [OF k' o] Cons.IH [of fs "gu_fail g" "rate_success (gu_peer g) a1", OF _ o] k'
      by (auto simp: guess_once_def ra rate_success_ring split_beta split: option.split)
  qed
qed

section \<open>The wait of one client\<close>

definition failures_of :: "web_auth_peer \<Rightarrow> web_auth \<Rightarrow> u32" where
  "failures_of peer a = (case peer_find peer a of None \<Rightarrow> 0 | Some i \<Rightarrow> ps_failures (wa_peers a ! i))"

lemma peer_equal_refl [simp]: "peer_equal p p"
  by (simp add: peer_equal_def Let_def)

lemma peer_victim_less: "best < n \<Longrightarrow> i + length ss = n \<Longrightarrow> peer_victim ps best i ss < n"
  by (induction ss arbitrary: best i) auto

lemma count_failure_fields [simp]:
  "ps_used (count_failure now s) = ps_used s" "ps_peer (count_failure now s) = ps_peer s"
  "ps_failures (count_failure now s) = ps_failures s + 1" "ps_last_ms (count_failure now s) = now"
  by (simp_all add: count_failure_def Let_def)

lemma count_failure_wait:
  "CONFIG_WEB_AUTH_FREE_FAILURES \<le> ps_failures s + 1 \<Longrightarrow> ps_blocked_until_ms (count_failure now s) = now + delay_ms (ps_failures s + 1)"
  by (simp add: count_failure_def Let_def)

lemma rate_fail_slot:
  assumes "wa_peers a \<noteq> []"
  shows "\<exists>i s. i < length (wa_peers a) \<and> peer_find peer (rate_fail peer now a) = Some i \<and>
    wa_peers (rate_fail peer now a) ! i = count_failure now s \<and> ps_failures s = failures_of peer a"
proof (cases "peer_find peer a")
  case None
  let ?i = "peer_victim (wa_peers a) 0 0 (wa_peers a)"
  let ?s = "no_peer_slot\<lparr>ps_used := True, ps_peer := peer\<rparr>"
  have i: "?i < length (wa_peers a)" using assms by (intro peer_victim_less) simp_all
  have p: "wa_peers (rate_fail peer now a) = (wa_peers a)[?i := count_failure now ?s]" by (simp add: rate_fail_def None Let_def)
  have "\<forall>j < length (wa_peers a). \<not> (ps_used (wa_peers a ! j) \<and> peer_equal (ps_peer (wa_peers a ! j)) peer)"
    using None by (auto simp: peer_find_def)
  then have "peer_find peer (rate_fail peer now a) = Some ?i"
    unfolding peer_find_def p find_index_Some using i by simp
  then show ?thesis using i p by (intro exI [of _ ?i] exI [of _ ?s]) (simp add: failures_of_def None no_peer_slot_def)
next
  case (Some i)
  let ?s = "wa_peers a ! i"
  have d: "i < length (wa_peers a)" "ps_used ?s" "peer_equal (ps_peer ?s) peer"
    "\<forall>j < i. \<not> (ps_used (wa_peers a ! j) \<and> peer_equal (ps_peer (wa_peers a ! j)) peer)"
    using Some by (simp_all add: peer_find_def find_index_Some)
  have p: "wa_peers (rate_fail peer now a) = (wa_peers a)[i := count_failure now ?s]" by (simp add: rate_fail_def Some Let_def)
  have "peer_find peer (rate_fail peer now a) = Some i"
    unfolding peer_find_def p find_index_Some using d by simp
  then show ?thesis using d p by (intro exI [of _ i] exI [of _ ?s]) (simp add: failures_of_def Some)
qed

lemma refused_while_blocked:
  assumes "peer_find peer a = Some i" "t < ps_blocked_until_ms (wa_peers a ! i)"
  shows "fst (rate_allows peer t a) \<noteq> None"
proof -
  have "peer_find peer (global_prune t a) = Some i" "wa_peers (global_prune t a) = wa_peers a"
    using assms(1) by (simp_all add: peer_find_def global_prune_def)
  then show ?thesis using assms(2) by (simp add: rate_allows_def Let_def)
qed

lemma delay_doubles:
  assumes "CONFIG_WEB_AUTH_FREE_FAILURES \<le> n"
  shows "delay_ms n = min (2 ^ (unat n - 5)) 300 * 1000"
proof -
  have s: "unat (n - CONFIG_WEB_AUTH_FREE_FAILURES) = unat n - 5"
    using assms by (simp add: CONFIG_WEB_AUTH_FREE_FAILURES_def unat_sub)
  show ?thesis
  proof (cases "31 \<le> unat n - 5")
    case True
    have "(2 :: int) ^ 9 \<le> 2 ^ (unat n - 5)" using True by (intro power_increasing) simp_all
    moreover have "31 \<le> n - CONFIG_WEB_AUTH_FREE_FAILURES" using True s by (simp add: word_le_nat_alt)
    ultimately show ?thesis by (simp add: delay_ms_def Let_def CONFIG_WEB_AUTH_MAX_DELAY_SECONDS_def min_def word_le_nat_alt)
  next
    case False
    then have l: "\<not> 31 \<le> n - CONFIG_WEB_AUTH_FREE_FAILURES" using s by (simp add: word_le_nat_alt)
    define k where "k = unat n - 5"
    have "k < 64" using False by (simp add: k_def)
    have u: "unat (push_bit k (1 :: u64)) = 2 ^ k"
    proof -
      have "unat (push_bit k (1 :: u64)) = take_bit LENGTH(64) (push_bit k (unat (1 :: u64)))" by (rule unsigned_push_bit_eq)
      then show ?thesis using \<open>k < 64\<close> by (simp add: take_bit_of_exp)
    qed
    have "unat (min (push_bit k (1 :: u64)) 300) = min (2 ^ k) 300"
      using u by (auto simp: min_def word_le_nat_alt)
    then have "int (unat (min (push_bit k (1 :: u64)) 300)) = min (2 ^ k) 300"
      by (simp only: of_nat_min of_nat_power of_nat_numeral)
    then show ?thesis
      unfolding delay_ms_def Let_def CONFIG_WEB_AUTH_MAX_DELAY_SECONDS_def if_not_P [OF l] s k_def [symmetric] by (simp only:)
  qed
qed

text \<open>Every wrong guess of a client adds one to its count; from the fifth on the client is refused for 1, 2, 4, ... seconds
  after the guess, at most 300, whatever the other clients do in the state the guess left.\<close>

lemma wait_doubles:
  assumes "wa_peers a \<noteq> []" "n = failures_of peer a + 1"
  shows "failures_of peer (rate_fail peer now a) = n \<and>
    (CONFIG_WEB_AUTH_FREE_FAILURES \<le> n \<longrightarrow>
       (\<forall>t < now + min (2 ^ (unat n - 5)) 300 * 1000. fst (rate_allows peer t (rate_fail peer now a)) \<noteq> None))"
proof -
  obtain i s where i: "peer_find peer (rate_fail peer now a) = Some i" "wa_peers (rate_fail peer now a) ! i = count_failure now s"
    "ps_failures s = failures_of peer a" using rate_fail_slot [OF assms(1)] by blast
  have "failures_of peer (rate_fail peer now a) = n" using i assms(2) by (simp add: failures_of_def)
  moreover have "fst (rate_allows peer t (rate_fail peer now a)) \<noteq> None"
    if "CONFIG_WEB_AUTH_FREE_FAILURES \<le> n" "t < now + min (2 ^ (unat n - 5)) 300 * 1000" for t
    using refused_while_blocked [OF i(1)] count_failure_wait [of s now] delay_doubles [OF that(1)] that i(3) assms(2)
    by (simp add: i(2))
  ultimately show ?thesis by blast
qed

end
