(* ===== verification/Web_Auth_System.thy ===== *)
theory Web_Auth_System
  imports Web_Auth_Rate "HOL-Library.Multiset"
begin

text \<open>
  Requests that interleave where the module releases its mutex: a step relation over the module, the credential store and
  the requests in flight, and the invariant that every step keeps.
\<close>

section \<open>Requests in flight\<close>

text \<open>
  A request that released the mutex, with what its function holds in local variables. The password and the
  verifier of a checked login, and the number of verifiers installed when it read the verifier (\<open>nat\<close>), are kept for
  the proofs.
\<close>

datatype auth_thread =
    Setup_Deriving "byte list" web_auth_peer
  | Setup_Stored "web_auth_status + byte list \<times> session_seed" web_auth_peer
  | Login_Deriving "byte list" "byte list" u32 nat web_auth_peer
  | Login_Checked "byte list" "byte list" u32 nat "web_auth_status + session_seed" web_auth_peer
  | Change_Deriving "byte list" "byte list" u32 "byte list" web_auth_peer
  | Change_Checked u32 web_auth_status "byte list" web_auth_peer
  | Run_Deriving "byte list"
  | Run_Stored "web_auth_status + byte list"

text \<open>
  \<open>sy_store\<close> is what the credential store holds. \<open>sy_installs\<close> counts the verifiers installed since the boot and
  \<open>sy_admins\<close> the administrators ever created.
\<close>

record auth_system =
  sy_auth :: web_auth
  sy_store :: "byte list option"
  sy_threads :: "auth_thread multiset"
  sy_installs :: nat
  sy_admins :: nat

definition stored_by :: "web_auth_status + byte list \<Rightarrow> byte list option \<Rightarrow> byte list option" where
  "stored_by work store = (case work of Inl _ \<Rightarrow> store | Inr v \<Rightarrow> Some v)"

text \<open>\<open>drawn n r\<close>: the random source fails or fills all \<open>n\<close> bytes.\<close>

definition drawn :: "nat \<Rightarrow> byte list option \<Rightarrow> bool" where
  "drawn n r \<longleftrightarrow> (\<forall>bs. r = Some bs \<longrightarrow> length bs = n)"

definition drawn_seed :: "session_seed option \<Rightarrow> bool" where
  "drawn_seed r \<longleftrightarrow> (\<forall>sd. r = Some sd \<longrightarrow> length (sd_token sd) = 32 \<and> length (sd_csrf sd) = 32)"

inductive auth_step :: "kdf \<Rightarrow> auth_system \<Rightarrow> auth_system \<Rightarrow> bool" for pbkdf2 where
  setup_ends: "setup_enter token password peer now (sy_auth s) = (Inl r, a) \<Longrightarrow> auth_step pbkdf2 s (s\<lparr>sy_auth := a\<rparr>)"
| setup_claims: "setup_enter token password peer now (sy_auth s) = (Inr p, a) \<Longrightarrow>
    auth_step pbkdf2 s (s\<lparr>sy_auth := a, sy_threads := add_mset (Setup_Deriving p peer) (sy_threads s)\<rparr>)"
| setup_works: "sy_threads s = add_mset (Setup_Deriving p peer) M \<Longrightarrow> drawn WEB_AUTH_SALT_LEN salt \<Longrightarrow> drawn_seed seed \<Longrightarrow>
    work = setup_work pbkdf2 salt kdf_ok seed save_ok p \<Longrightarrow>
    auth_step pbkdf2 s (s\<lparr>sy_store := stored_by (map_sum id fst work) (sy_store s), sy_threads := add_mset (Setup_Stored work peer) M\<rparr>)"
| setup_leaves: "sy_threads s = add_mset (Setup_Stored work peer) M \<Longrightarrow> setup_leave work peer now (sy_auth s) = (r, a) \<Longrightarrow>
    n = (if isl work then 0 else 1) \<Longrightarrow>
    auth_step pbkdf2 s (s\<lparr>sy_auth := a, sy_threads := M, sy_installs := sy_installs s + n, sy_admins := sy_admins s + n\<rparr>)"
| login_ends: "login_enter password peer now (sy_auth s) = (Inl r, a) \<Longrightarrow> auth_step pbkdf2 s (s\<lparr>sy_auth := a\<rparr>)"
| login_reads: "login_enter password peer now (sy_auth s) = (Inr (p, v, g), a) \<Longrightarrow>
    auth_step pbkdf2 s (s\<lparr>sy_auth := a, sy_threads := add_mset (Login_Deriving p v g (sy_installs s) peer) (sy_threads s)\<rparr>)"
| login_works: "sy_threads s = add_mset (Login_Deriving p v g k peer) M \<Longrightarrow> drawn_seed seed \<Longrightarrow>
    auth_step pbkdf2 s (s\<lparr>sy_threads := add_mset (Login_Checked p v g k (login_work pbkdf2 kdf_ok seed v p) peer) M\<rparr>)"
| login_leaves: "sy_threads s = add_mset (Login_Checked p v g k work peer) M \<Longrightarrow> login_leave g work peer now (sy_auth s) = (r, a) \<Longrightarrow>
    auth_step pbkdf2 s (s\<lparr>sy_auth := a, sy_threads := M\<rparr>)"
| change_ends: "change_begin_enter current_pw new_pw peer now (sy_auth s) = (Inl r, a) \<Longrightarrow> auth_step pbkdf2 s (s\<lparr>sy_auth := a\<rparr>)"
| change_reads: "change_begin_enter current_pw (Some new_pw) peer now (sy_auth s) = (Inr (p, v, g), a) \<Longrightarrow>
    auth_step pbkdf2 s (s\<lparr>sy_auth := a, sy_threads := add_mset (Change_Deriving p v g new_pw peer) (sy_threads s)\<rparr>)"
| change_works: "sy_threads s = add_mset (Change_Deriving p v g new_pw peer) M \<Longrightarrow>
    auth_step pbkdf2 s (s\<lparr>sy_threads := add_mset (Change_Checked g (verify_against pbkdf2 kdf_ok v p) new_pw peer) M\<rparr>)"
| change_leaves: "sy_threads s = add_mset (Change_Checked g status new_pw peer) M \<Longrightarrow>
    change_begin_leave g status new_pw peer now (sy_auth s) = (r, a) \<Longrightarrow>
    auth_step pbkdf2 s (s\<lparr>sy_auth := a, sy_threads := M\<rparr>)"
| run_ends: "change_run_enter (sy_auth s) = (Inl r, a) \<Longrightarrow> auth_step pbkdf2 s (s\<lparr>sy_auth := a\<rparr>)"
| run_takes: "change_run_enter (sy_auth s) = (Inr p, a) \<Longrightarrow>
    auth_step pbkdf2 s (s\<lparr>sy_auth := a, sy_threads := add_mset (Run_Deriving p) (sy_threads s)\<rparr>)"
| run_works: "sy_threads s = add_mset (Run_Deriving p) M \<Longrightarrow> drawn WEB_AUTH_SALT_LEN salt \<Longrightarrow>
    work = change_run_work pbkdf2 salt kdf_ok save_ok p \<Longrightarrow>
    auth_step pbkdf2 s (s\<lparr>sy_store := stored_by work (sy_store s), sy_threads := add_mset (Run_Stored work) M\<rparr>)"
| run_leaves: "sy_threads s = add_mset (Run_Stored work) M \<Longrightarrow> change_run_leave work (sy_auth s) = (r, a) \<Longrightarrow>
    auth_step pbkdf2 s (s\<lparr>sy_auth := a, sy_threads := M, sy_installs := sy_installs s + (if isl work then 0 else 1)\<rparr>)"
| change_abandoned: "auth_step pbkdf2 s (s\<lparr>sy_auth := web_auth_password_change_abandon (sy_auth s)\<rparr>)"
| session_resolved: "auth_step pbkdf2 s (s\<lparr>sy_auth := snd (web_auth_resolve token now (sy_auth s))\<rparr>)"
| session_logged_out: "auth_step pbkdf2 s (s\<lparr>sy_auth := snd (web_auth_logout token (sy_auth s))\<rparr>)"

text \<open>What the boot leaves, with the credential store it read: \<open>web_auth_init\<close> succeeded.\<close>

definition auth_booted :: "byte list option \<Rightarrow> byte list \<Rightarrow> auth_system \<Rightarrow> bool" where
  "auth_booted store raw s \<longleftrightarrow> length raw = 24 \<and>
     web_auth_init True (case store of None \<Rightarrow> Inl ENOENT | Some v \<Rightarrow> Inr v) (Some raw) wiped_auth = (None, sy_auth s) \<and>
     sy_store s = store \<and> sy_threads s = {#} \<and> sy_installs s = 0 \<and> sy_admins s = (if store = None then 0 else 1)"

inductive auth_reachable :: "kdf \<Rightarrow> auth_system \<Rightarrow> bool" for pbkdf2 where
  boot: "auth_booted store raw s \<Longrightarrow> auth_reachable pbkdf2 s"
| step: "auth_reachable pbkdf2 s \<Longrightarrow> auth_step pbkdf2 s s' \<Longrightarrow> auth_reachable pbkdf2 s'"

section \<open>What the operations leave alone\<close>

text \<open>The part of the state that decides who the administrator is.\<close>

definition core :: "web_auth \<Rightarrow> auth_phase \<times> password_change \<times> byte list \<times> u32" where
  "core a = (wa_phase a, wa_change a, wa_verifier a, wa_generation a)"

lemma core_eq: "core a = core b \<longleftrightarrow>
    wa_phase a = wa_phase b \<and> wa_change a = wa_change b \<and> wa_verifier a = wa_verifier b \<and> wa_generation a = wa_generation b"
  by (simp add: core_def)

lemma core_prune [simp]: "core (global_prune now a) = core a"
  by (simp add: core_def global_prune_def)

lemma core_rate [simp]: "core (rate_fail peer now a) = core a" "core (rate_success peer a) = core a"
  by (simp_all add: core_def rate_fail_def rate_success_def Let_def split: option.split)

lemma core_allows: "rate_allows peer now a = (r, a1) \<Longrightarrow> core a1 = core a"
  using rate_allows_prunes(1) [of peer now a] by (metis core_prune snd_conv)

lemma core_session_end [simp]: "core (session_end i a) = core a"
  by (simp add: core_def session_end_def tombstone_add_def Let_def)

lemma core_fold: "(\<And>i a. i \<in> set is \<Longrightarrow> core (f i a) = core a) \<Longrightarrow> core (fold f is a) = core a"
  by (induction "is" arbitrary: a) simp_all

lemma core_sessions_end_all [simp]: "core (sessions_end_all a) = core a"
  unfolding sessions_end_all_def by (rule core_fold) simp

lemma core_session_issue [simp]: "core (snd (session_issue seed now a)) = core a"
proof -
  have "core (a\<lparr>wa_sessions := x\<rparr>) = core a" for a x by (simp add: core_def)
  then show ?thesis by (simp add: session_issue_def Let_def split: option.split)
qed

lemma core_resolve [simp]: "core (snd (web_auth_resolve token now a)) = core a"
proof -
  have "core (a\<lparr>wa_sessions := x\<rparr>) = core a" for a x by (simp add: core_def)
  then show ?thesis by (simp add: web_auth_resolve_def Let_def split: option.split)
qed

lemma core_logout [simp]: "core (snd (web_auth_logout token a)) = core a"
proof -
  let ?f = "\<lambda>i (status, a). if ss_active (wa_sessions a ! i) \<and> token_equal token (ss_token (wa_sessions a ! i)) WEB_AUTH_TOKEN_LEN
               then (WEB_AUTH_OK, session_end i a) else (status, a)"
  have "core (snd (fold ?f is x)) = core (snd x)" for "is" x
    by (induction "is" arbitrary: x) (auto split: prod.split)
  from this [of "[0..<CONFIG_WEB_AUTH_MAX_SESSIONS]" "(WEB_AUTH_AUTHENTICATION_REQUIRED, a)"] show ?thesis
    by (auto simp: web_auth_logout_def split: prod.splits)
qed


subsection \<open>Each locked part\<close>

lemma phase_of_core: "core a = core b \<Longrightarrow> wa_phase a = wa_phase b" "core a = core b \<Longrightarrow> wa_change a = wa_change b"
  "core a = core b \<Longrightarrow> wa_verifier a = wa_verifier b" "core a = core b \<Longrightarrow> wa_generation a = wa_generation b"
  by (simp_all add: core_eq)

lemma setup_enter_core:
  "setup_enter token password peer now a0 = (Inl r, a) \<Longrightarrow> core a = core a0"
  "setup_enter token password peer now a0 = (Inr p, a) \<Longrightarrow> wa_phase a0 = PHASE_SETUP"
  "setup_enter token password peer now a0 = (Inr p, a) \<Longrightarrow> core a = (PHASE_CLAIMED, wa_change a0, wa_verifier a0, wa_generation a0)"
proof -
  obtain x a1 where ra: "rate_allows peer now a0 = (x, a1)" by (rule prod.exhaust)
  note c = core_allows [OF ra] phase_of_core [OF core_allows [OF ra]]
  show "setup_enter token password peer now a0 = (Inl r, a) \<Longrightarrow> core a = core a0"
    using c by (auto simp: setup_enter_def ra split: if_splits option.splits)
  show "setup_enter token password peer now a0 = (Inr p, a) \<Longrightarrow> wa_phase a0 = PHASE_SETUP"
    using c by (cases "wa_phase a0") (auto simp: setup_enter_def ra split: if_splits option.splits)
  show "setup_enter token password peer now a0 = (Inr p, a) \<Longrightarrow> core a = (PHASE_CLAIMED, wa_change a0, wa_verifier a0, wa_generation a0)"
    using c by (auto simp: setup_enter_def ra core_def split: if_splits option.splits)
qed

lemma setup_leave_core:
  "setup_leave work peer now a0 = (r, a) \<Longrightarrow>
   core a = (case work of Inl _ \<Rightarrow> (PHASE_SETUP, wa_change a0, wa_verifier a0, wa_generation a0)
     | Inr (v, _) \<Rightarrow> (PHASE_ADMIN, wa_change a0, v, wa_generation a0 + 1))"
proof (cases work)
  case (Inr q)
  obtain v seed where q: "q = (v, seed)" by (rule prod.exhaust)
  assume l: "setup_leave work peer now a0 = (r, a)"
  let ?a1 = "a0\<lparr>wa_verifier := v, wa_generation := wa_generation a0 + 1, wa_setup_token := no_chars WEB_AUTH_SETUP_TOKEN_LEN, wa_phase := PHASE_ADMIN\<rparr>"
  have "a = snd (session_issue seed now (rate_success peer ?a1))" using l by (auto simp: setup_leave_def Inr q Let_def split: prod.splits)
  then have "core a = core ?a1" by simp
  then show ?thesis by (simp add: Inr q core_def)
qed (auto simp: setup_leave_def core_def)

lemma login_enter_core:
  "login_enter password peer now a0 = (r, a) \<Longrightarrow> core a = core a0"
  "login_enter password peer now a0 = (Inr (p, v, g), a) \<Longrightarrow> wa_phase a0 = PHASE_ADMIN \<and> v = wa_verifier a0 \<and> g = wa_generation a0"
proof -
  obtain x a1 where ra: "rate_allows peer now a0 = (x, a1)" by (rule prod.exhaust)
  note c = core_allows [OF ra] phase_of_core [OF core_allows [OF ra]]
  show "login_enter password peer now a0 = (r, a) \<Longrightarrow> core a = core a0"
    using c by (auto simp: login_enter_def ra split: if_splits option.splits)
  show "login_enter password peer now a0 = (Inr (p, v, g), a) \<Longrightarrow> wa_phase a0 = PHASE_ADMIN \<and> v = wa_verifier a0 \<and> g = wa_generation a0"
    using c by (auto simp: login_enter_def ra split: if_splits option.splits)
qed

lemma login_leave_core: "login_leave g work peer now a0 = (r, a) \<Longrightarrow> core a = core a0"
proof -
  assume l: "login_leave g work peer now a0 = (r, a)"
  show ?thesis
  proof (cases "g \<noteq> wa_generation a0")
    case False
    show ?thesis
    proof (cases work)
      case (Inr seed)
      with l False have "a = snd (session_issue seed now (rate_success peer a0))"
        by (simp add: login_leave_def split_beta)
      then show ?thesis by simp
    qed (use l False in \<open>auto simp: login_leave_def\<close>)
  qed (use l in \<open>simp add: login_leave_def\<close>)
qed

lemma change_enter_core:
  "change_begin_enter cpw npw peer now a0 = (Inl r, a) \<Longrightarrow> core a = core a0"
  "change_begin_enter cpw npw peer now a0 = (Inr q, a) \<Longrightarrow> wa_phase a0 = PHASE_ADMIN \<and> wa_change a0 = CHANGE_IDLE \<and>
     core a = (PHASE_ADMIN, CHANGE_VERIFYING, wa_verifier a0, wa_generation a0)"
proof -
  obtain x a1 where ra: "rate_allows peer now a0 = (x, a1)" by (rule prod.exhaust)
  note c = core_allows [OF ra] phase_of_core [OF core_allows [OF ra]]
  show "change_begin_enter cpw npw peer now a0 = (Inl r, a) \<Longrightarrow> core a = core a0"
    using c by (auto simp: change_begin_enter_def ra split: if_splits option.splits)
  show "change_begin_enter cpw npw peer now a0 = (Inr q, a) \<Longrightarrow> wa_phase a0 = PHASE_ADMIN \<and> wa_change a0 = CHANGE_IDLE \<and>
     core a = (PHASE_ADMIN, CHANGE_VERIFYING, wa_verifier a0, wa_generation a0)"
    using c by (auto simp: change_begin_enter_def ra core_def split: if_splits option.splits)
qed

lemma change_leave_core:
  "change_begin_leave g status npw peer now a0 = (r, a) \<Longrightarrow>
   \<exists>c \<in> {CHANGE_IDLE, CHANGE_PENDING}. core a = (wa_phase a0, c, wa_verifier a0, wa_generation a0)"
  using core_rate(1) [of peer now a0] core_rate(2) [of peer a0]
  by (auto simp: change_begin_leave_def core_def split: if_splits)

lemma run_enter_core:
  "change_run_enter a0 = (Inl r, a) \<Longrightarrow> a = a0"
  "change_run_enter a0 = (Inr p, a) \<Longrightarrow> wa_phase a0 = PHASE_ADMIN \<and> wa_change a0 = CHANGE_PENDING \<and>
     core a = (PHASE_ADMIN, CHANGE_RUNNING, wa_verifier a0, wa_generation a0)"
  by (auto simp: change_run_enter_def core_def split: if_splits)

lemma run_leave_core:
  "change_run_leave work a0 = (r, a) \<Longrightarrow>
   core a = (case work of Inl _ \<Rightarrow> (wa_phase a0, CHANGE_IDLE, wa_verifier a0, wa_generation a0)
     | Inr v \<Rightarrow> (wa_phase a0, CHANGE_IDLE, v, wa_generation a0 + 1))"
proof (cases work)
  case (Inr v)
  assume "change_run_leave work a0 = (r, a)"
  then have "a = (sessions_end_all (a0\<lparr>wa_verifier := v, wa_generation := wa_generation a0 + 1\<rparr>))\<lparr>wa_change := CHANGE_IDLE\<rparr>"
    by (auto simp: change_run_leave_def Inr)
  then show ?thesis
    using core_sessions_end_all [of "a0\<lparr>wa_verifier := v, wa_generation := wa_generation a0 + 1\<rparr>"] by (simp add: Inr core_def)
qed (auto simp: change_run_leave_def core_def)

lemma abandon_core:
  "core (web_auth_password_change_abandon a) =
   (wa_phase a, if wa_change a = CHANGE_PENDING then CHANGE_IDLE else wa_change a, wa_verifier a, wa_generation a)"
  by (simp add: web_auth_password_change_abandon_def core_def)

section \<open>The invariant\<close>

fun is_setup :: "auth_thread \<Rightarrow> bool" where
  "is_setup (Setup_Deriving p peer) = True" | "is_setup (Setup_Stored w peer) = True" | "is_setup _ = False"

fun is_change :: "auth_thread \<Rightarrow> bool" where
  "is_change (Change_Deriving p v g npw peer) = True" | "is_change (Change_Checked g st npw peer) = True" | "is_change _ = False"

fun is_run :: "auth_thread \<Rightarrow> bool" where
  "is_run (Run_Deriving p) = True" | "is_run (Run_Stored w) = True" | "is_run _ = False"

definition how_many :: "(auth_thread \<Rightarrow> bool) \<Rightarrow> auth_thread multiset \<Rightarrow> nat" where
  "how_many p M = size (filter_mset p M)"

lemma how_many_simps [simp]: "how_many p {#} = 0" "how_many p (add_mset t M) = how_many p M + of_bool (p t)"
  by (simp_all add: how_many_def)

lemma Suc_of_bool [simp]: "Suc n = of_bool b \<longleftrightarrow> b \<and> n = 0"
  by (cases b) auto

lemma how_many_zero: "how_many p M = 0 \<longleftrightarrow> (\<forall>t \<in># M. \<not> p t)"
  by (induction M) auto

text \<open>What a request in flight may rely on: \<open>n\<close> verifiers were installed, the last is \<open>v0\<close>, and the store holds \<open>st\<close>.\<close>

definition login_ok :: "nat \<Rightarrow> byte list \<Rightarrow> byte list \<Rightarrow> u32 \<Rightarrow> nat \<Rightarrow> bool" where
  "login_ok n v0 v g k \<longleftrightarrow> k \<le> n \<and> g = of_nat k \<and> (k = n \<longrightarrow> v = v0)"

fun thread_ok :: "kdf \<Rightarrow> nat \<Rightarrow> byte list \<Rightarrow> byte list option \<Rightarrow> auth_thread \<Rightarrow> bool" where
  "thread_ok pbkdf2 n v0 st (Setup_Deriving p peer) \<longleftrightarrow> st = None"
| "thread_ok pbkdf2 n v0 st (Setup_Stored w peer) \<longleftrightarrow>
     (case w of Inl _ \<Rightarrow> st = None | Inr (v, _) \<Rightarrow> st = Some v \<and> verifier_decode v \<noteq> None)"
| "thread_ok pbkdf2 n v0 st (Login_Deriving p v g k peer) \<longleftrightarrow> login_ok n v0 v g k"
| "thread_ok pbkdf2 n v0 st (Login_Checked p v g k w peer) \<longleftrightarrow>
     login_ok n v0 v g k \<and> w \<noteq> Inl WEB_AUTH_OK \<and> (\<not> isl w \<longrightarrow> verify_against pbkdf2 True v p = WEB_AUTH_OK)"
| "thread_ok pbkdf2 n v0 st (Change_Deriving p v g npw peer) \<longleftrightarrow> True"
| "thread_ok pbkdf2 n v0 st (Change_Checked g status npw peer) \<longleftrightarrow> True"
| "thread_ok pbkdf2 n v0 st (Run_Deriving p) \<longleftrightarrow> st = Some v0"
| "thread_ok pbkdf2 n v0 st (Run_Stored w) \<longleftrightarrow>
     (case w of Inl _ \<Rightarrow> st = Some v0 | Inr v \<Rightarrow> st = Some v \<and> verifier_decode v \<noteq> None)"

definition core_ok :: "auth_phase \<times> password_change \<times> byte list \<times> u32 \<Rightarrow> auth_thread multiset \<Rightarrow> byte list option \<Rightarrow> nat \<Rightarrow> nat \<Rightarrow> bool" where
  "core_ok c M st n admins \<longleftrightarrow> (case c of (phase, change, v0, g) \<Rightarrow>
     phase \<in> {PHASE_SETUP, PHASE_CLAIMED, PHASE_ADMIN} \<and>
     how_many is_setup M = of_bool (phase = PHASE_CLAIMED) \<and>
     how_many is_change M = of_bool (change = CHANGE_VERIFYING) \<and>
     how_many is_run M = of_bool (change = CHANGE_RUNNING) \<and>
     (change \<noteq> CHANGE_IDLE \<longrightarrow> phase = PHASE_ADMIN) \<and>
     admins = of_bool (phase = PHASE_ADMIN) \<and> g = of_nat n \<and>
     (phase = PHASE_SETUP \<longrightarrow> st = None) \<and>
     (phase = PHASE_ADMIN \<longrightarrow> verifier_decode v0 \<noteq> None \<and> (change \<noteq> CHANGE_RUNNING \<longrightarrow> st = Some v0)))"

definition auth_inv :: "kdf \<Rightarrow> auth_system \<Rightarrow> bool" where
  "auth_inv pbkdf2 s \<longleftrightarrow> core_ok (core (sy_auth s)) (sy_threads s) (sy_store s) (sy_installs s) (sy_admins s) \<and>
     (\<forall>t \<in># sy_threads s. thread_ok pbkdf2 (sy_installs s) (wa_verifier (sy_auth s)) (sy_store s) t)"

lemma auth_inv_same_core: "auth_inv pbkdf2 s \<Longrightarrow> core a = core (sy_auth s) \<Longrightarrow> auth_inv pbkdf2 (s\<lparr>sy_auth := a\<rparr>)"
  using phase_of_core(3) [of a "sy_auth s"] by (simp add: auth_inv_def)

lemma login_ok_installed: "login_ok n v0 v g k \<Longrightarrow> login_ok (n + 1) v1 v g k"
  by (auto simp: login_ok_def)

lemma thread_ok_other:
  assumes "thread_ok pbkdf2 n v0 st t" "\<not> is_setup t" "\<not> is_run t"
  shows "thread_ok pbkdf2 n v0 st' t" "thread_ok pbkdf2 (n + 1) v1 st' t"
proof -
  show "thread_ok pbkdf2 n v0 st' t" using assms by (cases t) simp_all
  show "thread_ok pbkdf2 (n + 1) v1 st' t"
  proof (cases t)
    case (Login_Deriving p v g k peer)
    then show ?thesis using assms(1) login_ok_installed by simp
  next
    case (Login_Checked p v g k w peer)
    then show ?thesis using assms(1) login_ok_installed [of n v0 v g k v1] by simp
  qed (use assms in simp_all)
qed

text \<open>With the lengths of the key derivation and of the salt, what \<open>make_verifier\<close> makes can be read back.\<close>

definition kdf_fills :: "kdf \<Rightarrow> bool" where
  "kdf_fills pbkdf2 \<longleftrightarrow> (\<forall>p salt it. length (pbkdf2 p salt it) = WEB_AUTH_DERIVED_LEN)"

lemma make_verifier_decodes:
  assumes "kdf_fills pbkdf2" "drawn WEB_AUTH_SALT_LEN salt" "make_verifier pbkdf2 salt kdf_ok p = Inr v"
  shows "verifier_decode v \<noteq> None"
proof -
  from assms(2,3) obtain sl where sl: "length sl = WEB_AUTH_SALT_LEN"
    "v = verifier_encode CONFIG_WEB_AUTH_PBKDF2_ITERATIONS sl (pbkdf2 p sl CONFIG_WEB_AUTH_PBKDF2_ITERATIONS)"
    by (auto simp: make_verifier_def drawn_def split: option.splits if_splits)
  then show ?thesis
    using verifier_decode_encode [OF sl(1)] assms(1)
    by (simp add: kdf_fills_def CONFIG_WEB_AUTH_PBKDF2_ITERATIONS_def CONFIG_WEB_AUTH_PBKDF2_MAX_ITERATIONS_def)
qed

lemma no_setup_no_run:
  assumes "core_ok (phase, change, v0, g) M st n admins"
  shows "phase \<noteq> PHASE_CLAIMED \<Longrightarrow> t \<in># M \<Longrightarrow> \<not> is_setup t" "change \<noteq> CHANGE_RUNNING \<Longrightarrow> t \<in># M \<Longrightarrow> \<not> is_run t"
  using assms how_many_zero [of is_setup M] how_many_zero [of is_run M] by (auto simp: core_ok_def)


section \<open>Every step keeps it\<close>

text \<open>The view of the state a step's proof starts from.\<close>

lemma auth_invE:
  assumes "auth_inv pbkdf2 s"
  obtains phase change v0 g where "core (sy_auth s) = (phase, change, v0, g)" "wa_phase (sy_auth s) = phase"
    "wa_change (sy_auth s) = change" "wa_verifier (sy_auth s) = v0" "wa_generation (sy_auth s) = g"
    "core_ok (phase, change, v0, g) (sy_threads s) (sy_store s) (sy_installs s) (sy_admins s)"
    "\<forall>t \<in># sy_threads s. thread_ok pbkdf2 (sy_installs s) v0 (sy_store s) t"
  using assms by (simp add: auth_inv_def core_def)

lemma auth_invI:
  assumes "core (sy_auth s) = (phase, change, v0, g)"
    "core_ok (phase, change, v0, g) (sy_threads s) (sy_store s) (sy_installs s) (sy_admins s)"
    "\<And>t. t \<in># sy_threads s \<Longrightarrow> thread_ok pbkdf2 (sy_installs s) v0 (sy_store s) t"
  shows "auth_inv pbkdf2 s"
  using assms by (auto simp: auth_inv_def core_def)

lemma inv_setup_claims:
  assumes "auth_inv pbkdf2 s" "setup_enter token password peer now (sy_auth s) = (Inr p, a)"
  shows "auth_inv pbkdf2 (s\<lparr>sy_auth := a, sy_threads := add_mset (Setup_Deriving p peer) (sy_threads s)\<rparr>)"
  using assms(1)
proof (rule auth_invE)
  fix phase change v0 g
  assume v: "core (sy_auth s) = (phase, change, v0, g)" "wa_phase (sy_auth s) = phase"
    "wa_change (sy_auth s) = change" "wa_verifier (sy_auth s) = v0" "wa_generation (sy_auth s) = g"
    "core_ok (phase, change, v0, g) (sy_threads s) (sy_store s) (sy_installs s) (sy_admins s)"
    "\<forall>t \<in># sy_threads s. thread_ok pbkdf2 (sy_installs s) v0 (sy_store s) t"
  note e = setup_enter_core(2,3) [OF assms(2)]
  show ?thesis
  proof (rule auth_invI)
    show "core (sy_auth (s\<lparr>sy_auth := a, sy_threads := add_mset (Setup_Deriving p peer) (sy_threads s)\<rparr>)) = (PHASE_CLAIMED, change, v0, g)"
      using e v by simp
  qed (use e v in \<open>auto simp: core_ok_def\<close>)
qed

lemma inv_setup_works:
  assumes "auth_inv pbkdf2 s" "kdf_fills pbkdf2" "sy_threads s = add_mset (Setup_Deriving p peer) M" "drawn WEB_AUTH_SALT_LEN salt"
    "work = setup_work pbkdf2 salt kdf_ok seed save_ok p"
  shows "auth_inv pbkdf2 (s\<lparr>sy_store := stored_by (map_sum id fst work) (sy_store s), sy_threads := add_mset (Setup_Stored work peer) M\<rparr>)"
    (is "auth_inv _ (s\<lparr>sy_store := ?st, sy_threads := ?M\<rparr>)")
  using assms(1)
proof (rule auth_invE)
  fix phase change v0 g
  assume v: "core (sy_auth s) = (phase, change, v0, g)" "wa_phase (sy_auth s) = phase"
    "wa_change (sy_auth s) = change" "wa_verifier (sy_auth s) = v0" "wa_generation (sy_auth s) = g"
    "core_ok (phase, change, v0, g) (sy_threads s) (sy_store s) (sy_installs s) (sy_admins s)"
    "\<forall>t \<in># sy_threads s. thread_ok pbkdf2 (sy_installs s) v0 (sy_store s) t"
  have c: "phase = PHASE_CLAIMED" "how_many is_setup M = 0" using v(6) by (auto simp: core_ok_def assms(3) split: if_splits)
  then have "change \<noteq> CHANGE_RUNNING" using v(6) by (auto simp: core_ok_def)
  then have o: "\<not> is_setup t \<and> \<not> is_run t" if "t \<in># M" for t
    using that c(2) how_many_zero [of is_setup M] no_setup_no_run(2) [OF v(6)] assms(3) by auto
  have d: "verifier_decode w \<noteq> None" if "work = Inr (w, sd)" for w sd
    using that assms(5) make_verifier_decodes [OF assms(2,4)] by (auto simp: setup_work_def split: sum.splits option.splits if_splits)
  have st: "sy_store s = None" using v(7) assms(3) by simp
  show ?thesis
  proof (rule auth_invI)
    show "core (sy_auth (s\<lparr>sy_store := ?st, sy_threads := ?M\<rparr>)) = (phase, change, v0, g)" using v(1) by simp
    show "thread_ok pbkdf2 (sy_installs (s\<lparr>sy_store := ?st, sy_threads := ?M\<rparr>)) v0 (sy_store (s\<lparr>sy_store := ?st, sy_threads := ?M\<rparr>)) t"
      if "t \<in># sy_threads (s\<lparr>sy_store := ?st, sy_threads := ?M\<rparr>)" for t
    proof (cases "t \<in># M")
      case True
      then show ?thesis using thread_ok_other(1) [of pbkdf2 "sy_installs s" v0 "sy_store s" t ?st] o v(7) assms(3) by simp
    next
      case False
      then have "t = Setup_Stored work peer" using that by simp
      then show ?thesis using d st by (cases work) (auto simp: stored_by_def)
    qed
  qed (use v(6) c in \<open>simp add: core_ok_def assms(3)\<close>)
qed

lemma inv_setup_leaves:
  assumes "auth_inv pbkdf2 s" "sy_threads s = add_mset (Setup_Stored work peer) M" "setup_leave work peer now (sy_auth s) = (r, a)"
    "n = (if isl work then 0 else 1)"
  shows "auth_inv pbkdf2 (s\<lparr>sy_auth := a, sy_threads := M, sy_installs := sy_installs s + n, sy_admins := sy_admins s + n\<rparr>)"
    (is "auth_inv _ ?s")
  using assms(1)
proof (rule auth_invE)
  fix phase change v0 g
  assume v: "core (sy_auth s) = (phase, change, v0, g)" "wa_phase (sy_auth s) = phase"
    "wa_change (sy_auth s) = change" "wa_verifier (sy_auth s) = v0" "wa_generation (sy_auth s) = g"
    "core_ok (phase, change, v0, g) (sy_threads s) (sy_store s) (sy_installs s) (sy_admins s)"
    "\<forall>t \<in># sy_threads s. thread_ok pbkdf2 (sy_installs s) v0 (sy_store s) t"
  have c: "phase = PHASE_CLAIMED" "how_many is_setup M = 0" using v(6) by (auto simp: core_ok_def assms(2) split: if_splits)
  then have idle: "change = CHANGE_IDLE" using v(6) by (auto simp: core_ok_def)
  then have o: "\<not> is_setup t \<and> \<not> is_run t" if "t \<in># M" for t
    using that c(2) how_many_zero [of is_setup M] no_setup_no_run(2) [OF v(6)] assms(2) by auto
  have ok: "thread_ok pbkdf2 (sy_installs s) v0 (sy_store s) (Setup_Stored work peer)" using v(7) assms(2) by simp
  note l = setup_leave_core [OF assms(3)]
  show ?thesis
  proof (cases work)
    case (Inl st)
    show ?thesis
    proof (rule auth_invI)
      show "core (sy_auth ?s) = (PHASE_SETUP, change, v0, g)" using l v by (simp add: Inl)
      show "thread_ok pbkdf2 (sy_installs ?s) v0 (sy_store ?s) t" if "t \<in># sy_threads ?s" for t
        using v(7) [THEN bspec, of t] that by (simp add: assms(2,4) Inl)
    qed (use v(6) c idle ok in \<open>simp add: core_ok_def assms(2,4) Inl\<close>)
  next
    case (Inr q)
    obtain w sd where q: "q = (w, sd)" by (rule prod.exhaust)
    show ?thesis
    proof (rule auth_invI)
      show "core (sy_auth ?s) = (PHASE_ADMIN, change, w, g + 1)" using l v by (simp add: Inr q)
      show "thread_ok pbkdf2 (sy_installs ?s) w (sy_store ?s) t" if "t \<in># sy_threads ?s" for t
        using thread_ok_other(2) [of pbkdf2 "sy_installs s" v0 "sy_store s" t w "sy_store s"] o v(7) that by (simp add: assms(2,4) Inr)
    qed (use v(6) c idle ok in \<open>simp add: core_ok_def assms(2,4) Inr q\<close>)
  qed
qed

lemma inv_login_reads:
  assumes "auth_inv pbkdf2 s" "login_enter password peer now (sy_auth s) = (Inr (p, v1, g1), a)"
  shows "auth_inv pbkdf2 (s\<lparr>sy_auth := a, sy_threads := add_mset (Login_Deriving p v1 g1 (sy_installs s) peer) (sy_threads s)\<rparr>)"
    (is "auth_inv _ ?s")
  using assms(1)
proof (rule auth_invE)
  fix phase change v0 g
  assume v: "core (sy_auth s) = (phase, change, v0, g)" "wa_phase (sy_auth s) = phase"
    "wa_change (sy_auth s) = change" "wa_verifier (sy_auth s) = v0" "wa_generation (sy_auth s) = g"
    "core_ok (phase, change, v0, g) (sy_threads s) (sy_store s) (sy_installs s) (sy_admins s)"
    "\<forall>t \<in># sy_threads s. thread_ok pbkdf2 (sy_installs s) v0 (sy_store s) t"
  note e = login_enter_core [OF assms(2)]
  show ?thesis
  proof (rule auth_invI)
    show "core (sy_auth ?s) = (phase, change, v0, g)" using e(1) v(1) by simp
    show "thread_ok pbkdf2 (sy_installs ?s) v0 (sy_store ?s) t" if "t \<in># sy_threads ?s" for t
      using that v(4-7) e(2) by (auto simp: login_ok_def core_ok_def)
  qed (use v(6) in \<open>simp add: core_ok_def\<close>)
qed

lemma inv_thread_replaced:
  assumes "auth_inv pbkdf2 s" "sy_threads s = add_mset t M" "is_setup t' = is_setup t" "is_change t' = is_change t" "is_run t' = is_run t"
    "thread_ok pbkdf2 (sy_installs s) (wa_verifier (sy_auth s)) (sy_store s) t \<Longrightarrow>
     thread_ok pbkdf2 (sy_installs s) (wa_verifier (sy_auth s)) (sy_store s) t'"
  shows "auth_inv pbkdf2 (s\<lparr>sy_threads := add_mset t' M\<rparr>)"
  using assms by (simp add: auth_inv_def core_ok_def split_beta)

lemma inv_login_leaves:
  assumes "auth_inv pbkdf2 s" "sy_threads s = add_mset t M" "\<not> is_setup t" "\<not> is_change t" "\<not> is_run t" "core a = core (sy_auth s)"
  shows "auth_inv pbkdf2 (s\<lparr>sy_auth := a, sy_threads := M\<rparr>)"
  using assms phase_of_core(3) [OF assms(6)] by (simp add: auth_inv_def core_ok_def split_beta)

lemma inv_change_reads:
  assumes "auth_inv pbkdf2 s" "change_begin_enter cpw npw peer now (sy_auth s) = (Inr q, a)" "is_change t" "\<not> is_setup t" "\<not> is_run t"
    "thread_ok pbkdf2 (sy_installs s) (wa_verifier (sy_auth s)) (sy_store s) t"
  shows "auth_inv pbkdf2 (s\<lparr>sy_auth := a, sy_threads := add_mset t (sy_threads s)\<rparr>)" (is "auth_inv _ ?s")
  using assms(1)
proof (rule auth_invE)
  fix phase change v0 g
  assume v: "core (sy_auth s) = (phase, change, v0, g)" "wa_phase (sy_auth s) = phase"
    "wa_change (sy_auth s) = change" "wa_verifier (sy_auth s) = v0" "wa_generation (sy_auth s) = g"
    "core_ok (phase, change, v0, g) (sy_threads s) (sy_store s) (sy_installs s) (sy_admins s)"
    "\<forall>t \<in># sy_threads s. thread_ok pbkdf2 (sy_installs s) v0 (sy_store s) t"
  note e = change_enter_core(2) [OF assms(2)]
  show ?thesis
  proof (rule auth_invI)
    show "core (sy_auth ?s) = (PHASE_ADMIN, CHANGE_VERIFYING, v0, g)" using e v(4,5) by simp
  qed (use v(2,3,4,6,7) e assms(3-6) in \<open>auto simp: core_ok_def\<close>)
qed

lemma inv_change_leaves:
  assumes "auth_inv pbkdf2 s" "sy_threads s = add_mset (Change_Checked g1 status npw peer) M"
    "change_begin_leave g1 status npw peer now (sy_auth s) = (r, a)"
  shows "auth_inv pbkdf2 (s\<lparr>sy_auth := a, sy_threads := M\<rparr>)" (is "auth_inv _ ?s")
  using assms(1)
proof (rule auth_invE)
  fix phase change v0 g
  assume v: "core (sy_auth s) = (phase, change, v0, g)" "wa_phase (sy_auth s) = phase"
    "wa_change (sy_auth s) = change" "wa_verifier (sy_auth s) = v0" "wa_generation (sy_auth s) = g"
    "core_ok (phase, change, v0, g) (sy_threads s) (sy_store s) (sy_installs s) (sy_admins s)"
    "\<forall>t \<in># sy_threads s. thread_ok pbkdf2 (sy_installs s) v0 (sy_store s) t"
  from change_leave_core [OF assms(3)] obtain ch where ch: "ch = CHANGE_IDLE \<or> ch = CHANGE_PENDING"
    "core a = (phase, ch, v0, g)" using v(2,4,5) by auto
  have "change = CHANGE_VERIFYING" using v(6) by (auto simp: core_ok_def assms(2) split: if_splits)
  then show ?thesis
    using ch v(6,7) by (intro auth_invI [of ?s phase ch v0 g]) (auto simp: core_ok_def assms(2))
qed

lemma inv_run_takes:
  assumes "auth_inv pbkdf2 s" "change_run_enter (sy_auth s) = (Inr p, a)"
  shows "auth_inv pbkdf2 (s\<lparr>sy_auth := a, sy_threads := add_mset (Run_Deriving p) (sy_threads s)\<rparr>)" (is "auth_inv _ ?s")
  using assms(1)
proof (rule auth_invE)
  fix phase change v0 g
  assume v: "core (sy_auth s) = (phase, change, v0, g)" "wa_phase (sy_auth s) = phase"
    "wa_change (sy_auth s) = change" "wa_verifier (sy_auth s) = v0" "wa_generation (sy_auth s) = g"
    "core_ok (phase, change, v0, g) (sy_threads s) (sy_store s) (sy_installs s) (sy_admins s)"
    "\<forall>t \<in># sy_threads s. thread_ok pbkdf2 (sy_installs s) v0 (sy_store s) t"
  note e = run_enter_core(2) [OF assms(2)]
  show ?thesis
  proof (rule auth_invI)
    show "core (sy_auth ?s) = (PHASE_ADMIN, CHANGE_RUNNING, v0, g)" using e v(4,5) by simp
  qed (use v(2,3,6,7) e in \<open>auto simp: core_ok_def\<close>)
qed

lemma inv_run_works:
  assumes "auth_inv pbkdf2 s" "kdf_fills pbkdf2" "sy_threads s = add_mset (Run_Deriving p) M" "drawn WEB_AUTH_SALT_LEN salt"
    "work = change_run_work pbkdf2 salt kdf_ok save_ok p"
  shows "auth_inv pbkdf2 (s\<lparr>sy_store := stored_by work (sy_store s), sy_threads := add_mset (Run_Stored work) M\<rparr>)"
    (is "auth_inv _ ?s")
  using assms(1)
proof (rule auth_invE)
  fix phase change v0 g
  assume v: "core (sy_auth s) = (phase, change, v0, g)" "wa_phase (sy_auth s) = phase"
    "wa_change (sy_auth s) = change" "wa_verifier (sy_auth s) = v0" "wa_generation (sy_auth s) = g"
    "core_ok (phase, change, v0, g) (sy_threads s) (sy_store s) (sy_installs s) (sy_admins s)"
    "\<forall>t \<in># sy_threads s. thread_ok pbkdf2 (sy_installs s) v0 (sy_store s) t"
  have c: "change = CHANGE_RUNNING" "how_many is_run M = 0" using v(6) by (auto simp: core_ok_def assms(3) split: if_splits)
  then have ph: "phase = PHASE_ADMIN" using v(6) by (auto simp: core_ok_def)
  then have o: "\<not> is_setup t \<and> \<not> is_run t" if "t \<in># M" for t
    using that c(2) how_many_zero [of is_run M] no_setup_no_run(1) [OF v(6)] assms(3) by auto
  have d: "verifier_decode w \<noteq> None" if "work = Inr w" for w
    using that assms(5) make_verifier_decodes [OF assms(2,4)] by (auto simp: change_run_work_def split: sum.splits if_splits)
  have st: "sy_store s = Some v0" using v(7) assms(3) by simp
  show ?thesis
  proof (rule auth_invI)
    show "core (sy_auth ?s) = (phase, change, v0, g)" using v(1) by simp
    show "thread_ok pbkdf2 (sy_installs ?s) v0 (sy_store ?s) t" if "t \<in># sy_threads ?s" for t
    proof (cases "t \<in># M")
      case True
      then show ?thesis
        using thread_ok_other(1) [of pbkdf2 "sy_installs s" v0 "sy_store s" t "stored_by work (sy_store s)"] o v(7) assms(3) by simp
    next
      case False
      then have "t = Run_Stored work" using that by simp
      then show ?thesis using d st by (cases work) (auto simp: stored_by_def)
    qed
  qed (use v(6) c ph in \<open>simp add: core_ok_def assms(3)\<close>)
qed

lemma inv_run_leaves:
  assumes "auth_inv pbkdf2 s" "sy_threads s = add_mset (Run_Stored work) M" "change_run_leave work (sy_auth s) = (r, a)"
  shows "auth_inv pbkdf2 (s\<lparr>sy_auth := a, sy_threads := M, sy_installs := sy_installs s + (if isl work then 0 else 1)\<rparr>)"
    (is "auth_inv _ ?s")
  using assms(1)
proof (rule auth_invE)
  fix phase change v0 g
  assume v: "core (sy_auth s) = (phase, change, v0, g)" "wa_phase (sy_auth s) = phase"
    "wa_change (sy_auth s) = change" "wa_verifier (sy_auth s) = v0" "wa_generation (sy_auth s) = g"
    "core_ok (phase, change, v0, g) (sy_threads s) (sy_store s) (sy_installs s) (sy_admins s)"
    "\<forall>t \<in># sy_threads s. thread_ok pbkdf2 (sy_installs s) v0 (sy_store s) t"
  have c: "change = CHANGE_RUNNING" "how_many is_run M = 0" using v(6) by (auto simp: core_ok_def assms(2) split: if_splits)
  then have ph: "phase = PHASE_ADMIN" using v(6) by (auto simp: core_ok_def)
  then have o: "\<not> is_setup t \<and> \<not> is_run t" if "t \<in># M" for t
    using that c(2) how_many_zero [of is_run M] no_setup_no_run(1) [OF v(6)] assms(2) by auto
  have ok: "thread_ok pbkdf2 (sy_installs s) v0 (sy_store s) (Run_Stored work)" using v(7) assms(2) by simp
  note l = run_leave_core [OF assms(3)]
  show ?thesis
  proof (cases work)
    case (Inl st)
    show ?thesis
    proof (rule auth_invI)
      show "core (sy_auth ?s) = (phase, CHANGE_IDLE, v0, g)" using l v by (simp add: Inl)
      show "thread_ok pbkdf2 (sy_installs ?s) v0 (sy_store ?s) t" if "t \<in># sy_threads ?s" for t
        using v(7) [THEN bspec, of t] that by (simp add: assms(2) Inl)
    qed (use v(6) c ph ok in \<open>simp add: core_ok_def assms(2) Inl\<close>)
  next
    case (Inr w)
    show ?thesis
    proof (rule auth_invI)
      show "core (sy_auth ?s) = (phase, CHANGE_IDLE, w, g + 1)" using l v by (simp add: Inr)
      show "thread_ok pbkdf2 (sy_installs ?s) w (sy_store ?s) t" if "t \<in># sy_threads ?s" for t
        using thread_ok_other(2) [of pbkdf2 "sy_installs s" v0 "sy_store s" t w "sy_store s"] o v(7) [THEN bspec, of t] that
        by (simp add: assms(2) Inr)
    qed (use v(6) c ph ok in \<open>simp add: core_ok_def assms(2) Inr\<close>)
  qed
qed

lemma inv_abandoned:
  assumes "auth_inv pbkdf2 s"
  shows "auth_inv pbkdf2 (s\<lparr>sy_auth := web_auth_password_change_abandon (sy_auth s)\<rparr>)" (is "auth_inv _ ?s")
  using assms
proof (rule auth_invE)
  fix phase change v0 g
  assume v: "core (sy_auth s) = (phase, change, v0, g)" "wa_phase (sy_auth s) = phase"
    "wa_change (sy_auth s) = change" "wa_verifier (sy_auth s) = v0" "wa_generation (sy_auth s) = g"
    "core_ok (phase, change, v0, g) (sy_threads s) (sy_store s) (sy_installs s) (sy_admins s)"
    "\<forall>t \<in># sy_threads s. thread_ok pbkdf2 (sy_installs s) v0 (sy_store s) t"
  show ?thesis
  proof (rule auth_invI)
    show "core (sy_auth ?s) = (phase, if change = CHANGE_PENDING then CHANGE_IDLE else change, v0, g)"
      using v(2-5) by (simp add: abandon_core)
  qed (use v(6,7) in \<open>auto simp: core_ok_def\<close>)
qed

theorem auth_step_keeps: "auth_step pbkdf2 s s' \<Longrightarrow> kdf_fills pbkdf2 \<Longrightarrow> auth_inv pbkdf2 s \<Longrightarrow> auth_inv pbkdf2 s'"
proof (induction rule: auth_step.induct)
  case (login_works s p v g k peer M seed kdf_ok)
  have "verify_against pbkdf2 True v p = WEB_AUTH_OK" if "\<not> isl (login_work pbkdf2 kdf_ok seed v p)"
    using that by (auto simp: login_work_def verify_against_def Let_def split: if_splits option.splits)
  moreover have "login_work pbkdf2 kdf_ok seed v p \<noteq> Inl WEB_AUTH_OK"
    by (auto simp: login_work_def Let_def split: if_splits option.splits)
  ultimately show ?case using login_works by (intro inv_thread_replaced [OF _ login_works.hyps(1)]) simp_all
next
  case (change_works s p v g new_pw peer M kdf_ok)
  then show ?case by (intro inv_thread_replaced [OF _ change_works.hyps]) simp_all
next
  case (login_leaves s p v g k work peer M now r a)
  then show ?case by (intro inv_login_leaves [OF _ login_leaves.hyps(1)]) (simp_all add: login_leave_core)
next
  case (change_reads current_pw new_pw peer now s p v g a)
  then show ?case by (intro inv_change_reads [OF _ change_reads.hyps]) simp_all
next
  case (session_resolved s token now)
  then show ?case by (simp add: auth_inv_same_core)
next
  case (session_logged_out s token)
  then show ?case by (simp add: auth_inv_same_core)
next
  case (run_ends s r a)
  then show ?case using run_enter_core(1) by (metis auth_inv_same_core)
qed (blast intro: auth_inv_same_core setup_enter_core(1) login_enter_core(1) change_enter_core(1) inv_setup_claims inv_setup_works
    inv_setup_leaves inv_login_reads inv_change_leaves inv_run_takes inv_run_works inv_run_leaves inv_abandoned)+

lemma booted_cases:
  assumes "auth_booted store raw s"
  shows "store = None \<and> core (sy_auth s) = (PHASE_SETUP, CHANGE_IDLE, replicate WEB_AUTH_VERIFIER_LEN 0, 0) \<or>
    (\<exists>v. store = Some v \<and> verifier_decode v \<noteq> None \<and> core (sy_auth s) = (PHASE_ADMIN, CHANGE_IDLE, v, 0))"
proof (cases store)
  case None
  with assms have "sy_auth s = wiped_auth\<lparr>wa_platform := True, wa_setup_token := base64url raw, wa_phase := PHASE_SETUP\<rparr>"
    by (simp add: auth_booted_def web_auth_init_def Let_def)
  then show ?thesis by (simp add: None core_def wiped_auth_def)
next
  case (Some v)
  with assms have "verifier_decode v \<noteq> None" "sy_auth s = wiped_auth\<lparr>wa_platform := True, wa_verifier := v, wa_phase := PHASE_ADMIN\<rparr>"
    by (auto simp: auth_booted_def web_auth_init_def Let_def split: if_splits)
  then show ?thesis by (simp add: Some core_def wiped_auth_def)
qed

lemma auth_booted_inv: "auth_booted store raw s \<Longrightarrow> auth_inv pbkdf2 s"
  using booted_cases [of store raw s] by (auto simp: auth_inv_def core_ok_def auth_booted_def)

theorem reachable_inv: "auth_reachable pbkdf2 s \<Longrightarrow> kdf_fills pbkdf2 \<Longrightarrow> auth_inv pbkdf2 s"
  by (induction rule: auth_reachable.induct) (simp_all add: auth_booted_inv auth_step_keeps)

lemma stored_decodes:
  assumes "auth_inv pbkdf2 s" "sy_store s = Some w"
  shows "verifier_decode w \<noteq> None"
  using assms(1)
proof (rule auth_invE)
  fix phase change v0 g
  assume i: "core_ok (phase, change, v0, g) (sy_threads s) (sy_store s) (sy_installs s) (sy_admins s)"
    "\<forall>t \<in># sy_threads s. thread_ok pbkdf2 (sy_installs s) v0 (sy_store s) t"
  have ex: "\<exists>t \<in># sy_threads s. p t" if "how_many p (sy_threads s) = 1" for p
    using that how_many_zero [of p "sy_threads s"] by auto
  consider "phase = PHASE_CLAIMED" | "phase = PHASE_ADMIN" "change \<noteq> CHANGE_RUNNING" | "phase = PHASE_ADMIN" "change = CHANGE_RUNNING"
    using i(1) assms(2) by (auto simp: core_ok_def)
  then show ?thesis
  proof cases
    case 1
    then obtain t where t: "t \<in># sy_threads s" "is_setup t" using ex [of is_setup] i(1) by (auto simp: core_ok_def)
    with i(2) assms(2) have "thread_ok pbkdf2 (sy_installs s) v0 (Some w) t" by metis
    with t(2) show ?thesis by (cases t) (auto split: sum.splits)
  next
    case 2
    then show ?thesis using i(1) assms(2) by (simp add: core_ok_def)
  next
    case 3
    then obtain t where t: "t \<in># sy_threads s" "is_run t" using ex [of is_run] i(1) by (auto simp: core_ok_def)
    with i(2) assms(2) have "thread_ok pbkdf2 (sy_installs s) v0 (Some w) t" by metis
    moreover have "verifier_decode v0 \<noteq> None" using i(1) 3 by (simp add: core_ok_def)
    ultimately show ?thesis using t(2) by (cases t) (auto split: sum.splits)
  qed
qed

lemma boot_of_store:
  assumes "\<And>w. st = Some w \<Longrightarrow> verifier_decode w \<noteq> None"
  shows "\<exists>a. web_auth_init True (case st of None \<Rightarrow> Inl ENOENT | Some v \<Rightarrow> Inr v) (Some raw) any = (None, a) \<and>
    wa_phase a = (if st = None then PHASE_SETUP else PHASE_ADMIN) \<and> (\<forall>w. st = Some w \<longrightarrow> wa_verifier a = w)"
proof (cases st)
  case (Some w)
  then have "verifier_decode w \<noteq> None" using assms by simp
  then have "length w = WEB_AUTH_VERIFIER_LEN" by (auto simp: verifier_decode_def split: if_splits)
  then show ?thesis using Some \<open>verifier_decode w \<noteq> None\<close> by (simp add: web_auth_init_def Let_def)
qed (simp add: web_auth_init_def Let_def)

lemma login_in_flight:
  assumes "auth_inv pbkdf2 s" "Login_Checked p w g k work peer \<in># sy_threads s"
  shows "wa_generation (sy_auth s) = of_nat (sy_installs s)" "login_ok (sy_installs s) (wa_verifier (sy_auth s)) w g k"
    "work \<noteq> Inl WEB_AUTH_OK" "\<not> isl work \<Longrightarrow> verify_against pbkdf2 True w p = WEB_AUTH_OK"
proof -
  have "thread_ok pbkdf2 (sy_installs s) (wa_verifier (sy_auth s)) (sy_store s) (Login_Checked p w g k work peer)"
    using assms by (simp only: auth_inv_def)
  then show "login_ok (sy_installs s) (wa_verifier (sy_auth s)) w g k" "work \<noteq> Inl WEB_AUTH_OK"
    "\<not> isl work \<Longrightarrow> verify_against pbkdf2 True w p = WEB_AUTH_OK" by simp_all
  show "wa_generation (sy_auth s) = of_nat (sy_installs s)" using assms(1) by (simp add: auth_inv_def core_ok_def core_def)
qed

end
