(* ===== verification/Web_Auth_Sessions.thy ===== *)
theory Web_Auth_Sessions
  imports Web_Auth_System
begin

text \<open>
  Sessions and tombstones: which operations make a token live, remember or end it, and that the tables keep their shape.
\<close>

section \<open>Sessions and tombstones\<close>

definition live :: "string \<Rightarrow> web_auth \<Rightarrow> bool" where
  "live t a \<longleftrightarrow> (\<exists>s \<in> set (wa_sessions a). ss_active s \<and> ss_token s = t)"

definition remembered :: "string \<Rightarrow> web_auth \<Rightarrow> bool" where
  "remembered t a \<longleftrightarrow> (\<exists>b \<in> set (wa_tombstones a). tb_used b \<and> tb_token b = t)"

definition sessions_ok :: "web_auth \<Rightarrow> bool" where
  "sessions_ok a \<longleftrightarrow> length (wa_sessions a) = CONFIG_WEB_AUTH_MAX_SESSIONS \<and>
     (\<forall>s \<in> set (wa_sessions a). length (ss_token s) = WEB_AUTH_TOKEN_LEN) \<and>
     length (wa_tombstones a) = CONFIG_WEB_AUTH_TOMBSTONES \<and> wa_tombstone_next a < CONFIG_WEB_AUTH_TOMBSTONES \<and>
     (\<forall>b \<in> set (wa_tombstones a). length (tb_token b) = WEB_AUTH_TOKEN_LEN)"

lemma tombstones_pos: "0 < CONFIG_WEB_AUTH_TOMBSTONES" "CONFIG_WEB_AUTH_TOMBSTONES \<noteq> 0"
  by (simp_all add: CONFIG_WEB_AUTH_TOMBSTONES_def)

lemma no_session_fields [simp]: "\<not> ss_active no_session" "length (ss_token no_session) = WEB_AUTH_TOKEN_LEN"
  by (simp_all add: no_session_def no_chars_def)

lemma bex_nth: "length xs = n \<Longrightarrow> (\<exists>x \<in> set xs. P x) \<longleftrightarrow> (\<exists>i < n. P (xs ! i))"
  by (metis in_set_conv_nth)

lemma wiped_sessions:
  "wa_sessions wiped_auth = replicate CONFIG_WEB_AUTH_MAX_SESSIONS no_session"
  "wa_tombstones wiped_auth = replicate CONFIG_WEB_AUTH_TOMBSTONES no_tombstone" "wa_tombstone_next wiped_auth = 0"
proof -
  have "max CONFIG_WEB_AUTH_TOMBSTONES 1 = CONFIG_WEB_AUTH_TOMBSTONES" using tombstones_pos(1) by simp
  then show "wa_sessions wiped_auth = replicate CONFIG_WEB_AUTH_MAX_SESSIONS no_session"
    "wa_tombstones wiped_auth = replicate CONFIG_WEB_AUTH_TOMBSTONES no_tombstone" "wa_tombstone_next wiped_auth = 0"
    by (simp_all only: wiped_auth_def web_auth.simps)
qed

lemma wiped_sessions_ok: "sessions_ok wiped_auth"
  unfolding sessions_ok_def wiped_sessions using tombstones_pos(1)
  by (auto simp: no_tombstone_def no_chars_def simp del: replicate_Suc)

lemma live_nth: "sessions_ok a \<Longrightarrow>
    live t a \<longleftrightarrow> (\<exists>i < CONFIG_WEB_AUTH_MAX_SESSIONS. ss_active (wa_sessions a ! i) \<and> ss_token (wa_sessions a ! i) = t)"
  unfolding live_def by (rule bex_nth) (simp add: sessions_ok_def)

lemma session_token_equal:
  "sessions_ok a \<Longrightarrow> i < CONFIG_WEB_AUTH_MAX_SESSIONS \<Longrightarrow>
   token_equal p (ss_token (wa_sessions a ! i)) WEB_AUTH_TOKEN_LEN \<longleftrightarrow> p = Some (ss_token (wa_sessions a ! i))"
  by (rule token_equal_iff) (simp add: sessions_ok_def)

lemma tombstone_has_iff: "sessions_ok a \<Longrightarrow> tombstone_has (Some t) a \<longleftrightarrow> remembered t a"
proof -
  assume a: "sessions_ok a"
  have "token_equal (Some t) (tb_token (wa_tombstones a ! i)) WEB_AUTH_TOKEN_LEN \<longleftrightarrow> t = tb_token (wa_tombstones a ! i)"
    if "i < CONFIG_WEB_AUTH_TOMBSTONES" for i
    using that a by (subst token_equal_iff) (simp_all add: sessions_ok_def)
  moreover have "remembered t a \<longleftrightarrow> (\<exists>i < CONFIG_WEB_AUTH_TOMBSTONES. tb_used (wa_tombstones a ! i) \<and> tb_token (wa_tombstones a ! i) = t)"
    unfolding remembered_def by (rule bex_nth) (use a in \<open>simp add: sessions_ok_def\<close>)
  ultimately show ?thesis unfolding tombstone_has_def by auto
qed

text \<open>Ending the session in one slot.\<close>

lemma session_end_fields:
  "wa_sessions (session_end i a) = (wa_sessions a)[i := no_session]"
  "wa_tombstones (session_end i a) = (wa_tombstones a)[wa_tombstone_next a := \<lparr>tb_used = True, tb_token = ss_token (wa_sessions a ! i)\<rparr>]"
  "wa_tombstone_next (session_end i a) = (wa_tombstone_next a + 1) mod CONFIG_WEB_AUTH_TOMBSTONES"
  "wa_platform (session_end i a) = wa_platform a"
  by (simp_all add: session_end_def tombstone_add_def Let_def tombstones_pos)

lemma session_end_ok: "sessions_ok a \<Longrightarrow> i < CONFIG_WEB_AUTH_MAX_SESSIONS \<Longrightarrow> sessions_ok (session_end i a)"
  unfolding sessions_ok_def session_end_fields using tombstones_pos(1)
  by (auto dest!: set_update_subset_insert [THEN subsetD])

lemma session_end_remembers: "sessions_ok a \<Longrightarrow> remembered (ss_token (wa_sessions a ! i)) (session_end i a)"
  unfolding remembered_def session_end_fields sessions_ok_def
  by (rule bexI [where x = "\<lparr>tb_used = True, tb_token = ss_token (wa_sessions a ! i)\<rparr>"]) (simp_all add: set_update_memI)

lemma session_end_live: "live t (session_end i a) \<Longrightarrow> live t a"
  unfolding live_def session_end_fields by (auto dest!: set_update_subset_insert [THEN subsetD])

lemma session_end_gone:
  assumes "sessions_ok a" "i < CONFIG_WEB_AUTH_MAX_SESSIONS" "live t (session_end i a)" "ss_token (wa_sessions a ! i) = t"
  obtains j where "j < CONFIG_WEB_AUTH_MAX_SESSIONS" "j \<noteq> i" "ss_active (wa_sessions a ! j)" "ss_token (wa_sessions a ! j) = t"
proof -
  from assms(3) obtain j where j: "j < CONFIG_WEB_AUTH_MAX_SESSIONS" "ss_active (wa_sessions (session_end i a) ! j)"
    "ss_token (wa_sessions (session_end i a) ! j) = t"
    using live_nth [OF session_end_ok [OF assms(1,2)]] by blast
  moreover have "j \<noteq> i"
  proof
    assume "j = i"
    with j(2) assms(1,2) show False by (simp add: session_end_fields sessions_ok_def)
  qed
  ultimately show thesis using that by (simp add: session_end_fields)
qed

lemma fold_keeps: "(\<And>i a. i \<in> set is \<Longrightarrow> P a \<Longrightarrow> P (f i a)) \<Longrightarrow> P a \<Longrightarrow> P (fold f is a)"
  by (induction "is" arbitrary: a) auto

text \<open>After all sessions ended no slot is active.\<close>

lemma sessions_end_all_inactive:
  assumes "sessions_ok a"
  shows "sessions_ok (sessions_end_all a) \<and> \<not> live t (sessions_end_all a)"
proof -
  let ?f = "\<lambda>i a. if ss_active (wa_sessions a ! i) then session_end i a else a"
  have "sessions_ok (fold ?f [0..<n] a) \<and> (\<forall>i < n. \<not> ss_active (wa_sessions (fold ?f [0..<n] a) ! i))"
    if "n \<le> CONFIG_WEB_AUTH_MAX_SESSIONS" for n
    using that
  proof (induction n)
    case (Suc n)
    let ?b = "fold ?f [0..<n] a"
    have b: "sessions_ok ?b" "\<forall>i < n. \<not> ss_active (wa_sessions ?b ! i)" "n < CONFIG_WEB_AUTH_MAX_SESSIONS" using Suc by simp_all
    have "\<not> ss_active (wa_sessions (?f n ?b) ! i)" if "i < Suc n" for i
      using that b by (cases "i = n") (auto simp: session_end_fields sessions_ok_def nth_list_update)
    then show ?case using b session_end_ok by simp
  qed (simp add: assms)
  from this [of CONFIG_WEB_AUTH_MAX_SESSIONS] have e: "sessions_ok (sessions_end_all a)"
    "\<forall>i < CONFIG_WEB_AUTH_MAX_SESSIONS. \<not> ss_active (wa_sessions (sessions_end_all a) ! i)"
    unfolding sessions_end_all_def by blast+
  then show ?thesis unfolding live_nth [OF e(1)] by blast
qed

lemma session_with_found:
  assumes "sessions_ok a"
  shows "session_with (Some t) a = Some i \<Longrightarrow> i < CONFIG_WEB_AUTH_MAX_SESSIONS \<and> ss_active (wa_sessions a ! i) \<and> ss_token (wa_sessions a ! i) = t"
    and "session_with (Some t) a = None \<longleftrightarrow> \<not> live t a"
proof -
  let ?p = "\<lambda>i. ss_active (wa_sessions a ! i) \<and> token_equal (Some t) (ss_token (wa_sessions a ! i)) WEB_AUTH_TOKEN_LEN"
  have f: "fold (\<lambda>i found. if p i then Some i else found) is None = (if filter p is = [] then None else Some (last (filter p is)))"
    for p and "is" :: "nat list"
    by (induction "is" rule: rev_induct) auto
  define L where "L = filter ?p [0..<CONFIG_WEB_AUTH_MAX_SESSIONS]"
  have eq: "session_with (Some t) a = (if L = [] then None else Some (last L))"
    unfolding session_with_def L_def by (rule f)
  have L: "set L = {i. i < CONFIG_WEB_AUTH_MAX_SESSIONS \<and> ss_active (wa_sessions a ! i) \<and> ss_token (wa_sessions a ! i) = t}"
    unfolding L_def using session_token_equal [OF assms] by auto
  then have "L = [] \<longleftrightarrow> \<not> live t a" unfolding live_nth [OF assms] set_empty [symmetric] by auto
  then show "session_with (Some t) a = None \<longleftrightarrow> \<not> live t a" by (simp add: eq)
  assume "session_with (Some t) a = Some i"
  then have "L \<noteq> []" "i = last L" by (simp_all add: eq split: if_splits)
  then have "i \<in> set L" using last_in_set by simp
  then show "i < CONFIG_WEB_AUTH_MAX_SESSIONS \<and> ss_active (wa_sessions a ! i) \<and> ss_token (wa_sessions a ! i) = t"
    unfolding L by simp
qed

section \<open>Operations on sessions\<close>

text \<open>The part of the state sessions live in.\<close>

definition sess :: "web_auth \<Rightarrow> session_slot list \<times> tombstone list \<times> nat" where
  "sess a = (wa_sessions a, wa_tombstones a, wa_tombstone_next a)"

lemma sess_same: "sess a = sess b \<Longrightarrow> live t a \<longleftrightarrow> live t b" "sess a = sess b \<Longrightarrow> remembered t a \<longleftrightarrow> remembered t b"
  "sess a = sess b \<Longrightarrow> sessions_ok a \<longleftrightarrow> sessions_ok b"
  by (simp_all add: sess_def live_def remembered_def sessions_ok_def)

lemma sess_kept [simp]: "sess (global_prune now a) = sess a" "sess (rate_fail peer now a) = sess a" "sess (rate_success peer a) = sess a"
  "sess (a\<lparr>wa_phase := x1\<rparr>) = sess a" "sess (a\<lparr>wa_change := x2\<rparr>) = sess a" "sess (a\<lparr>wa_pending := x3\<rparr>) = sess a"
  "sess (a\<lparr>wa_verifier := x4\<rparr>) = sess a" "sess (a\<lparr>wa_generation := x5\<rparr>) = sess a" "sess (a\<lparr>wa_setup_token := x6\<rparr>) = sess a"
  by (simp_all add: sess_def global_prune_def rate_fail_def rate_success_def Let_def split: option.split)

lemma sess_allows: "rate_allows peer now a = (r, a1) \<Longrightarrow> sess a1 = sess a"
  using rate_allows_prunes(1) [of peer now a] by (metis sess_kept(1) snd_conv)

lemma sess_enter:
  "setup_enter token password peer now a0 = (r, a) \<Longrightarrow> sess a = sess a0"
  "login_enter password peer now a0 = (r2, a) \<Longrightarrow> sess a = sess a0"
  "change_begin_enter cpw npw peer now a0 = (r2, a) \<Longrightarrow> sess a = sess a0"
  "change_run_enter a0 = (r3, a) \<Longrightarrow> sess a = sess a0"
  "change_begin_leave g status pw peer now a0 = (r4, a) \<Longrightarrow> sess a = sess a0"
  "sess (web_auth_password_change_abandon a0) = sess a0"
proof -
  obtain x a1 where ra: "rate_allows peer now a0 = (x, a1)" by (rule prod.exhaust)
  note c = sess_allows [OF ra]
  show "setup_enter token password peer now a0 = (r, a) \<Longrightarrow> sess a = sess a0"
    using c by (auto simp: setup_enter_def ra split: if_splits option.splits)
  show "login_enter password peer now a0 = (r2, a) \<Longrightarrow> sess a = sess a0"
    using c by (auto simp: login_enter_def ra split: if_splits option.splits)
  show "change_begin_enter cpw npw peer now a0 = (r2, a) \<Longrightarrow> sess a = sess a0"
    using c by (auto simp: change_begin_enter_def ra split: if_splits option.splits)
  show "change_run_enter a0 = (r3, a) \<Longrightarrow> sess a = sess a0"
    by (auto simp: change_run_enter_def split: if_splits)
  show "change_begin_leave g status pw peer now a0 = (r4, a) \<Longrightarrow> sess a = sess a0"
    by (auto simp: change_begin_leave_def split: if_splits)
  show "sess (web_auth_password_change_abandon a0) = sess a0" by (simp add: web_auth_password_change_abandon_def)
qed

lemma sessions_ok_update:
  "sessions_ok a \<Longrightarrow> length (ss_token x) = WEB_AUTH_TOKEN_LEN \<Longrightarrow> sessions_ok (a\<lparr>wa_sessions := (wa_sessions a)[i := x]\<rparr>)"
  unfolding sessions_ok_def by (auto dest!: set_update_subset_insert [THEN subsetD])

lemma live_update: "live t (a\<lparr>wa_sessions := (wa_sessions a)[i := x]\<rparr>) \<Longrightarrow> live t a \<or> ss_active x \<and> ss_token x = t"
  unfolding live_def by (auto dest!: set_update_subset_insert [THEN subsetD])

lemma least_recently_used_less: "ss \<noteq> [] \<Longrightarrow> least_recently_used ss < length ss"
  unfolding least_recently_used_def by (rule fold_keeps) auto

lemma session_issue_effect:
  obtains i a1 where "snd (session_issue seed now a) = a1\<lparr>wa_sessions := (wa_sessions a1)[i := \<lparr>ss_active = True,
      ss_token = base64url (sd_token seed), ss_csrf = base64url (sd_csrf seed), ss_created_ms = now, ss_last_used_ms = now\<rparr>]\<rparr>"
    "a1 = a \<or> a1 = session_end i a" "sessions_ok a \<Longrightarrow> i < CONFIG_WEB_AUTH_MAX_SESSIONS"
proof (cases "find_index (\<lambda>s. \<not> ss_active s) (wa_sessions a)")
  case None
  have "sessions_ok a \<Longrightarrow> wa_sessions a \<noteq> []" by (auto simp: sessions_ok_def CONFIG_WEB_AUTH_MAX_SESSIONS_def)
  then have l: "sessions_ok a \<Longrightarrow> least_recently_used (wa_sessions a) < CONFIG_WEB_AUTH_MAX_SESSIONS"
    using least_recently_used_less by (fastforce simp: sessions_ok_def)
  show thesis
    by (rule that [of "session_end (least_recently_used (wa_sessions a)) a" "least_recently_used (wa_sessions a)"])
      (use l in \<open>simp_all add: session_issue_def None Let_def\<close>)
next
  case (Some i)
  then have "sessions_ok a \<Longrightarrow> i < CONFIG_WEB_AUTH_MAX_SESSIONS" by (auto simp: sessions_ok_def dest: find_indexD(1))
  then show thesis by (intro that [of a i]) (simp_all add: session_issue_def Some Let_def)
qed

lemma session_issue_live: "live t (snd (session_issue seed now a)) \<Longrightarrow> live t a \<or> t = base64url (sd_token seed)"
  by (rule session_issue_effect [of seed now a]) (auto dest!: live_update dest: session_end_live)

lemma session_issue_ok:
  assumes "sessions_ok a" "length (sd_token seed) = 32"
  shows "sessions_ok (snd (session_issue seed now a))"
proof (rule session_issue_effect [of seed now a])
  fix i a1
  assume e: "snd (session_issue seed now a) = a1\<lparr>wa_sessions := (wa_sessions a1)[i := \<lparr>ss_active = True,
      ss_token = base64url (sd_token seed), ss_csrf = base64url (sd_csrf seed), ss_created_ms = now, ss_last_used_ms = now\<rparr>]\<rparr>"
    "a1 = a \<or> a1 = session_end i a" "sessions_ok a \<Longrightarrow> i < CONFIG_WEB_AUTH_MAX_SESSIONS"
  then have "sessions_ok a1" using assms session_end_ok by auto
  then show ?thesis unfolding e(1) by (rule sessions_ok_update) (simp add: token_lengths assms(2))
qed

section \<open>Logging out\<close>

definition logout_loop :: "string option \<Rightarrow> nat list \<Rightarrow> web_auth \<Rightarrow> web_auth_status \<times> web_auth" where
  "logout_loop token is a = fold (\<lambda>i (status, a).
     if ss_active (wa_sessions a ! i) \<and> token_equal token (ss_token (wa_sessions a ! i)) WEB_AUTH_TOKEN_LEN
     then (WEB_AUTH_OK, session_end i a) else (status, a)) is (WEB_AUTH_AUTHENTICATION_REQUIRED, a)"

lemma logout_loop_snoc:
  "logout_loop token (is @ [i]) a = (case logout_loop token is a of (status, b) \<Rightarrow>
     if ss_active (wa_sessions b ! i) \<and> token_equal token (ss_token (wa_sessions b ! i)) WEB_AUTH_TOKEN_LEN
     then (WEB_AUTH_OK, session_end i b) else (status, b))"
  by (simp add: logout_loop_def)

text \<open>After the first \<open>n\<close> slots: no slot among them holds the token; slots with other tokens and later slots are as they were.\<close>

definition logged_out_upto :: "string \<Rightarrow> nat \<Rightarrow> web_auth \<Rightarrow> web_auth_status \<times> web_auth \<Rightarrow> bool" where
  "logged_out_upto t n a r \<longleftrightarrow> (case r of (status, b) \<Rightarrow>
     sessions_ok b \<and> (\<forall>i < n. \<not> (ss_active (wa_sessions b ! i) \<and> ss_token (wa_sessions b ! i) = t)) \<and>
     (\<forall>i < CONFIG_WEB_AUTH_MAX_SESSIONS. n \<le> i \<or> \<not> ss_active (wa_sessions a ! i) \<or> ss_token (wa_sessions a ! i) \<noteq> t \<longrightarrow>
        wa_sessions b ! i = wa_sessions a ! i) \<and>
     (\<forall>i < n. ss_active (wa_sessions b ! i) \<longrightarrow> wa_sessions b ! i = wa_sessions a ! i) \<and>
     (status = WEB_AUTH_OK \<longleftrightarrow> (\<exists>i < n. ss_active (wa_sessions a ! i) \<and> ss_token (wa_sessions a ! i) = t)) \<and>
     (if status = WEB_AUTH_OK then remembered t b else status = WEB_AUTH_AUTHENTICATION_REQUIRED \<and> b = a))"

lemma logged_out_uptoD:
  assumes "logged_out_upto t n a (status, b)"
  shows "sessions_ok b" "\<And>i. i < n \<Longrightarrow> \<not> (ss_active (wa_sessions b ! i) \<and> ss_token (wa_sessions b ! i) = t)"
    "\<And>i. i < CONFIG_WEB_AUTH_MAX_SESSIONS \<Longrightarrow> n \<le> i \<or> \<not> ss_active (wa_sessions a ! i) \<or> ss_token (wa_sessions a ! i) \<noteq> t \<Longrightarrow>
       wa_sessions b ! i = wa_sessions a ! i"
    "\<And>i. i < n \<Longrightarrow> ss_active (wa_sessions b ! i) \<Longrightarrow> wa_sessions b ! i = wa_sessions a ! i"
    "status = WEB_AUTH_OK \<longleftrightarrow> (\<exists>i < n. ss_active (wa_sessions a ! i) \<and> ss_token (wa_sessions a ! i) = t)"
    "if status = WEB_AUTH_OK then remembered t b else status = WEB_AUTH_AUTHENTICATION_REQUIRED \<and> b = a"
  using assms unfolding logged_out_upto_def prod.case by blast+

lemma logged_out_uptoI:
  assumes "sessions_ok b" "\<And>i. i < n \<Longrightarrow> \<not> (ss_active (wa_sessions b ! i) \<and> ss_token (wa_sessions b ! i) = t)"
    "\<And>i. i < CONFIG_WEB_AUTH_MAX_SESSIONS \<Longrightarrow> n \<le> i \<or> \<not> ss_active (wa_sessions a ! i) \<or> ss_token (wa_sessions a ! i) \<noteq> t \<Longrightarrow>
       wa_sessions b ! i = wa_sessions a ! i"
    "\<And>i. i < n \<Longrightarrow> ss_active (wa_sessions b ! i) \<Longrightarrow> wa_sessions b ! i = wa_sessions a ! i"
    "status = WEB_AUTH_OK \<longleftrightarrow> (\<exists>i < n. ss_active (wa_sessions a ! i) \<and> ss_token (wa_sessions a ! i) = t)"
    "if status = WEB_AUTH_OK then remembered t b else status = WEB_AUTH_AUTHENTICATION_REQUIRED \<and> b = a"
  shows "logged_out_upto t n a (status, b)"
  using assms unfolding logged_out_upto_def prod.case by blast

lemma logout_loop_upto:
  assumes "sessions_ok a" "n \<le> CONFIG_WEB_AUTH_MAX_SESSIONS"
  shows "logged_out_upto t n a (logout_loop (Some t) [0..<n] a)"
  using assms(2)
proof (induction n)
  case 0
  then show ?case using assms(1) by (simp add: logged_out_upto_def logout_loop_def)
next
  case (Suc n)
  obtain status b where r: "logout_loop (Some t) [0..<n] a = (status, b)" by (rule prod.exhaust)
  have n: "n < CONFIG_WEB_AUTH_MAX_SESSIONS" using Suc.prems by simp
  have ih: "logged_out_upto t n a (status, b)" using Suc.IH n by (simp add: r)
  note ih = logged_out_uptoD [OF ih]
  have same: "wa_sessions b ! n = wa_sessions a ! n" using ih(3) n by blast
  note b = ih(1)
  have len: "length (wa_sessions b) = CONFIG_WEB_AUTH_MAX_SESSIONS" using b by (simp add: sessions_ok_def)
  note te = session_token_equal [OF b n, of "Some t"]
  have loop: "logout_loop (Some t) [0..<Suc n] a =
      (if ss_active (wa_sessions a ! n) \<and> ss_token (wa_sessions a ! n) = t then (WEB_AUTH_OK, session_end n b) else (status, b))"
    using te by (simp add: logout_loop_snoc r same eq_commute [of t])
  show ?case
  proof (cases "ss_active (wa_sessions a ! n) \<and> ss_token (wa_sessions a ! n) = t")
    case True
    have rm: "remembered t (session_end n b)" using session_end_remembers [OF b, of n] True same by simp
    show ?thesis
      unfolding loop if_P [OF True]
    proof (rule logged_out_uptoI)
      show "sessions_ok (session_end n b)" by (rule session_end_ok [OF b n])
      show "\<not> (ss_active (wa_sessions (session_end n b) ! i) \<and> ss_token (wa_sessions (session_end n b) ! i) = t)" if "i < Suc n" for i
        using that ih(2) [of i] n len by (cases "i = n") (simp_all add: session_end_fields)
      show "wa_sessions (session_end n b) ! i = wa_sessions a ! i"
        if "i < CONFIG_WEB_AUTH_MAX_SESSIONS" "Suc n \<le> i \<or> \<not> ss_active (wa_sessions a ! i) \<or> ss_token (wa_sessions a ! i) \<noteq> t" for i
        using that ih(3) [of i] True by (cases "i = n") (auto simp: session_end_fields)
      show "wa_sessions (session_end n b) ! i = wa_sessions a ! i" if "i < Suc n" "ss_active (wa_sessions (session_end n b) ! i)" for i
        using that ih(4) [of i] n len by (cases "i = n") (simp_all add: session_end_fields)
      show "(WEB_AUTH_OK = WEB_AUTH_OK) = (\<exists>i<Suc n. ss_active (wa_sessions a ! i) \<and> ss_token (wa_sessions a ! i) = t)"
        using True by auto
    qed (use rm in simp)
  next
    case False
    show ?thesis
      unfolding loop if_not_P [OF False]
    proof (rule logged_out_uptoI)
      show "\<not> (ss_active (wa_sessions b ! i) \<and> ss_token (wa_sessions b ! i) = t)" if "i < Suc n" for i
        using that ih(2) [of i] same False by (cases "i = n") simp_all
      show "wa_sessions b ! i = wa_sessions a ! i"
        if "i < CONFIG_WEB_AUTH_MAX_SESSIONS" "Suc n \<le> i \<or> \<not> ss_active (wa_sessions a ! i) \<or> ss_token (wa_sessions a ! i) \<noteq> t" for i
        using that ih(3) [of i] by auto
      show "wa_sessions b ! i = wa_sessions a ! i" if "i < Suc n" "ss_active (wa_sessions b ! i)" for i
        using that ih(4) [of i] same by (cases "i = n") simp_all
      show "status = WEB_AUTH_OK \<longleftrightarrow> (\<exists>i<Suc n. ss_active (wa_sessions a ! i) \<and> ss_token (wa_sessions a ! i) = t)"
        unfolding ih(5) using False by (auto simp: less_Suc_eq)
    qed (rule ih)+
  qed
qed

theorem logout_ends_the_session:
  assumes "sessions_ok a" "t \<noteq> []" "web_auth_logout (Some t) a = (status, b)"
  shows "sessions_ok b \<and> \<not> live t b \<and> (\<forall>u. u \<noteq> t \<longrightarrow> (live u b \<longleftrightarrow> live u a)) \<and>
    (status = WEB_AUTH_OK \<longleftrightarrow> live t a \<or> remembered t a) \<and> (status = WEB_AUTH_OK \<longrightarrow> remembered t b)"
proof -
  let ?N = CONFIG_WEB_AUTH_MAX_SESSIONS
  obtain st c where r: "logout_loop (Some t) [0..<?N] a = (st, c)" by (rule prod.exhaust)
  have l: "logged_out_upto t ?N a (st, c)" using logout_loop_upto [OF assms(1), of ?N t] by (simp add: r)
  note l = logged_out_uptoD [OF l]
  note c = l(1)
  have b: "b = c" "status = (if st \<noteq> WEB_AUTH_OK \<and> tombstone_has (Some t) c then WEB_AUTH_OK else st)"
    using assms(2,3) r by (auto simp: web_auth_logout_def logout_loop_def split: prod.splits if_splits)
  have gone: "\<not> live t c" unfolding live_nth [OF c] using l(2) by blast
  have others: "live u c \<longleftrightarrow> live u a" if "u \<noteq> t" for u
    unfolding live_nth [OF c] live_nth [OF assms(1)] using l(3,4) that by metis
  have st: "st = WEB_AUTH_OK \<longleftrightarrow> live t a" unfolding live_nth [OF assms(1)] by (rule l(5))
  show ?thesis
  proof (cases "st = WEB_AUTH_OK")
    case True
    then have "remembered t c" using l(6) by simp
    then show ?thesis using True c gone others st by (simp add: b)
  next
    case False
    then have "c = a" "st = WEB_AUTH_AUTHENTICATION_REQUIRED" using l(6) by simp_all
    then show ?thesis using False c gone others st tombstone_has_iff [OF c, of t] by (auto simp: b)
  qed
qed

section \<open>Resolving\<close>

lemma resolve_cases:
  assumes "sessions_ok a" "wa_platform a" "t \<noteq> []"
  obtains (accepted) i s where "i < CONFIG_WEB_AUTH_MAX_SESSIONS" "s = wa_sessions a ! i" "ss_active s" "ss_token s = t"
      "\<not> session_expired s now"
      "web_auth_resolve (Some t) now a = ((WEB_AUTH_OK, Some (session_describe (s\<lparr>ss_last_used_ms := now\<rparr>) now)),
         a\<lparr>wa_sessions := (wa_sessions a)[i := s\<lparr>ss_last_used_ms := now\<rparr>]\<rparr>)"
    | (expired) i where "i < CONFIG_WEB_AUTH_MAX_SESSIONS" "ss_active (wa_sessions a ! i)" "ss_token (wa_sessions a ! i) = t"
      "session_expired (wa_sessions a ! i) now" "web_auth_resolve (Some t) now a = ((WEB_AUTH_SESSION_EXPIRED, None), session_end i a)"
    | (ended) "\<not> live t a" "remembered t a" "web_auth_resolve (Some t) now a = ((WEB_AUTH_SESSION_EXPIRED, None), a)"
    | (unknown) "\<not> live t a" "\<not> remembered t a" "web_auth_resolve (Some t) now a = ((WEB_AUTH_AUTHENTICATION_REQUIRED, None), a)"
proof (cases "session_with (Some t) a")
  case None
  then have "\<not> live t a" using session_with_found(2) [OF assms(1)] by simp
  then show thesis using None assms tombstone_has_iff [OF assms(1), of t] ended unknown
    by (cases "remembered t a") (simp_all add: web_auth_resolve_def)
next
  case (Some i)
  note f = session_with_found(1) [OF assms(1) Some]
  show thesis
  proof (cases "session_expired (wa_sessions a ! i) now")
    case True
    show thesis by (rule expired [of i]) (use f True Some assms in \<open>simp_all add: web_auth_resolve_def\<close>)
  next
    case False
    show thesis by (rule accepted [of i "wa_sessions a ! i"]) (use f False Some assms in \<open>simp_all add: web_auth_resolve_def Let_def\<close>)
  qed
qed

section \<open>Sessions through a run\<close>

lemma setup_leave_sess:
  assumes "setup_leave work peer now a0 = (r, a)"
  shows "(case work of Inl _ \<Rightarrow> sess a = sess a0 | Inr (v, seed) \<Rightarrow> \<exists>b. sess b = sess a0 \<and> a = snd (session_issue seed now b))"
proof (cases work)
  case (Inr q)
  obtain v seed where q: "q = (v, seed)" by (rule prod.exhaust)
  let ?b = "rate_success peer (a0\<lparr>wa_verifier := v, wa_generation := wa_generation a0 + 1, wa_setup_token := no_chars WEB_AUTH_SETUP_TOKEN_LEN,
      wa_phase := PHASE_ADMIN\<rparr>)"
  have "a = snd (session_issue seed now ?b)" using assms by (auto simp: setup_leave_def Inr q Let_def split: prod.splits)
  moreover have "sess ?b = sess a0" by simp
  ultimately show ?thesis unfolding Inr q sum.case prod.case by blast
qed (use assms in \<open>auto simp: setup_leave_def\<close>)

lemma login_leave_sess:
  assumes "login_leave g work peer now a0 = (r, a)"
  shows "sess a = sess a0 \<or> (\<exists>seed b. work = Inr seed \<and> sess b = sess a0 \<and> a = snd (session_issue seed now b))"
proof (cases "g \<noteq> wa_generation a0")
  case True
  then show ?thesis using assms by (simp add: login_leave_def)
next
  case False
  show ?thesis
  proof (cases work)
    case (Inl st)
    then show ?thesis using assms False by (auto simp: login_leave_def)
  next
    case (Inr seed)
    then have "a = snd (session_issue seed now (rate_success peer a0))" using assms False by (simp add: login_leave_def split_beta)
    then show ?thesis using Inr by (intro disjI2 exI [of _ seed] exI [of _ "rate_success peer a0"]) simp
  qed
qed

lemma run_leave_sess:
  assumes "change_run_leave work a0 = (r, a)"
  shows "(case work of Inl _ \<Rightarrow> sess a = sess a0 | Inr v \<Rightarrow> \<exists>b. sess b = sess a0 \<and> sess a = sess (sessions_end_all b))"
proof (cases work)
  case (Inr v)
  let ?b = "a0\<lparr>wa_verifier := v, wa_generation := wa_generation a0 + 1\<rparr>"
  have "a = (sessions_end_all ?b)\<lparr>wa_change := CHANGE_IDLE\<rparr>" using assms by (simp add: change_run_leave_def Inr)
  then have "sess a = sess (sessions_end_all ?b)" by simp
  moreover have "sess ?b = sess a0" by simp
  ultimately show ?thesis unfolding Inr sum.case by blast
qed (use assms in \<open>auto simp: change_run_leave_def\<close>)

lemma sessions_end_all_live: "live t (sessions_end_all a) \<Longrightarrow> live t a"
proof -
  have "live t (fold (\<lambda>i a. if ss_active (wa_sessions a ! i) then session_end i a else a) is a) \<Longrightarrow> live t a" for "is" a
  proof (induction "is" arbitrary: a)
    case (Cons i "is")
    show ?case
    proof (cases "ss_active (wa_sessions a ! i)")
      case True
      with Cons.prems have "live t (session_end i a)" by - (rule Cons.IH, simp)
      then show ?thesis by (rule session_end_live)
    next
      case False
      with Cons.prems show ?thesis by - (rule Cons.IH, simp)
    qed
  qed simp
  then show "live t (sessions_end_all a) \<Longrightarrow> live t a" by (simp add: sessions_end_all_def)
qed

lemma logout_live: "live t (snd (web_auth_logout token a)) \<Longrightarrow> live t a"
proof -
  have loop: "live t (snd (logout_loop token is a)) \<Longrightarrow> live t a" for "is"
    by (induction "is" rule: rev_induct) (auto simp: logout_loop_snoc logout_loop_def dest: session_end_live split: prod.splits if_splits)
  obtain st b where r: "logout_loop token [0..<CONFIG_WEB_AUTH_MAX_SESSIONS] a = (st, b)" by (rule prod.exhaust)
  then have "snd (web_auth_logout token a) = a \<or> snd (web_auth_logout token a) = b"
    by (simp add: web_auth_logout_def logout_loop_def)
  then show "live t (snd (web_auth_logout token a)) \<Longrightarrow> live t a" using loop [of "[0..<CONFIG_WEB_AUTH_MAX_SESSIONS]"] by (auto simp: r)
qed

lemma nth_update_live:
  assumes "live t (a\<lparr>wa_sessions := (wa_sessions a)[i := (wa_sessions a ! i)\<lparr>ss_last_used_ms := now\<rparr>]\<rparr>)"
  shows "live t a"
proof (cases "i < length (wa_sessions a)")
  case True
  then show ?thesis using live_update [OF assms] by (auto simp: live_def)
next
  case False
  then show ?thesis using assms by (simp add: live_def list_update_beyond)
qed

lemma resolve_live: "live t (snd (web_auth_resolve token now a)) \<Longrightarrow> live t a"
  by (auto simp: web_auth_resolve_def Let_def dest: session_end_live nth_update_live split: if_splits option.splits)

text \<open>The seeds requests in flight carry.\<close>

definition carries :: "session_seed \<Rightarrow> auth_thread \<Rightarrow> bool" where
  "carries seed th \<longleftrightarrow> (\<exists>v peer. th = Setup_Stored (Inr (v, seed)) peer) \<or> (\<exists>p v g k peer. th = Login_Checked p v g k (Inr seed) peer)"

lemma step_live:
  assumes "auth_step pbkdf2 s s'" "live t (sy_auth s')"
  shows "live t (sy_auth s) \<or> (\<exists>seed. base64url (sd_token seed) = t \<and> (\<exists>th \<in># sy_threads s. carries seed th))"
  using assms
proof (induction rule: auth_step.induct)
  case (setup_leaves s work peer M now r a n)
  note l = setup_leave_sess [OF setup_leaves(2)]
  show ?case
  proof (cases work)
    case (Inl st)
    then show ?thesis using l setup_leaves(4) sess_same(1) [of a "sy_auth s"] by simp
  next
    case (Inr q)
    obtain v seed where q: "q = (v, seed)" by (rule prod.exhaust)
    from l obtain b where b: "sess b = sess (sy_auth s)" "a = snd (session_issue seed now b)" by (auto simp: Inr q)
    have "carries seed (Setup_Stored work peer)" by (auto simp: carries_def Inr q)
    then show ?thesis using setup_leaves(1,4) b session_issue_live [of t seed now b] sess_same(1) [OF b(1)] by auto
  qed
next
  case (login_leaves s p v g k work peer M now r a)
  from login_leave_sess [OF login_leaves(2)] show ?case
  proof
    assume "sess a = sess (sy_auth s)"
    then show ?thesis using login_leaves(3) sess_same(1) [of a "sy_auth s"] by simp
  next
    assume "\<exists>seed b. work = Inr seed \<and> sess b = sess (sy_auth s) \<and> a = snd (session_issue seed now b)"
    then obtain seed b where b: "work = Inr seed" "sess b = sess (sy_auth s)" "a = snd (session_issue seed now b)" by blast
    have "carries seed (Login_Checked p v g k work peer)" by (auto simp: carries_def b(1))
    then show ?thesis using login_leaves(1,3) b(3) session_issue_live [of t seed now b] sess_same(1) [OF b(2)] by auto
  qed
next
  case (run_leaves s work M r a)
  note l = run_leave_sess [OF run_leaves(2)]
  show ?case
  proof (cases work)
    case (Inl st)
    then show ?thesis using l run_leaves(3) sess_same(1) [of a "sy_auth s"] by simp
  next
    case (Inr v)
    then obtain b where "sess b = sess (sy_auth s)" "sess a = sess (sessions_end_all b)" using l by auto
    then show ?thesis using run_leaves(3) sess_same(1) [of a "sessions_end_all b"] sess_same(1) [of b "sy_auth s"] sessions_end_all_live [of t b]
      by simp
  qed
next
  case (session_resolved s token now)
  then show ?case using resolve_live by auto
next
  case (session_logged_out s token)
  then show ?case using logout_live by auto
qed (auto dest!: sess_enter(1-5) sess_same(1) [where t = t] simp: sess_enter(6) [THEN sess_same(1)])

section \<open>Every reachable state has well-formed sessions\<close>

definition seeded :: "auth_thread \<Rightarrow> bool" where
  "seeded th \<longleftrightarrow> (\<forall>seed. carries seed th \<longrightarrow> length (sd_token seed) = 32)"

lemma seeded_simps [simp]:
  "seeded (Setup_Deriving p peer)" "seeded (Login_Deriving p v g k peer)" "seeded (Change_Deriving p v g npw peer)"
  "seeded (Change_Checked g st npw peer)" "seeded (Run_Deriving p)" "seeded (Run_Stored rw)"
  "seeded (Setup_Stored w peer) \<longleftrightarrow> (\<forall>v seed. w = Inr (v, seed) \<longrightarrow> length (sd_token seed) = 32)"
  "seeded (Login_Checked p v g k w2 peer) \<longleftrightarrow> (\<forall>seed. w2 = Inr seed \<longrightarrow> length (sd_token seed) = 32)"
  by (auto simp: seeded_def carries_def)

definition sessions_inv :: "auth_system \<Rightarrow> bool" where
  "sessions_inv s \<longleftrightarrow> sessions_ok (sy_auth s) \<and> (\<forall>th \<in># sy_threads s. seeded th)"

lemma sessions_end_all_ok: "sessions_ok a \<Longrightarrow> sessions_ok (sessions_end_all a)"
  unfolding sessions_end_all_def by (rule fold_keeps) (auto intro: session_end_ok)

lemma resolve_ok:
  assumes "sessions_ok a"
  shows "sessions_ok (snd (web_auth_resolve token now a))"
proof (cases "token = None \<or> token = Some [] \<or> \<not> wa_platform a")
  case True
  then show ?thesis using assms by (simp add: web_auth_resolve_def)
next
  case False
  then obtain t where t: "token = Some t" "t \<noteq> []" "wa_platform a" by auto
  show ?thesis
  proof (rule resolve_cases [OF assms t(3,2), of now])
    fix i s assume "i < CONFIG_WEB_AUTH_MAX_SESSIONS" "s = wa_sessions a ! i"
      "web_auth_resolve (Some t) now a = ((WEB_AUTH_OK, Some (session_describe (s\<lparr>ss_last_used_ms := now\<rparr>) now)),
         a\<lparr>wa_sessions := (wa_sessions a)[i := s\<lparr>ss_last_used_ms := now\<rparr>]\<rparr>)"
    moreover have "length (ss_token s) = WEB_AUTH_TOKEN_LEN" using calculation assms by (simp add: sessions_ok_def)
    ultimately show ?thesis using assms sessions_ok_update [of a "s\<lparr>ss_last_used_ms := now\<rparr>" i] by (simp add: t(1))
  qed (use assms session_end_ok in \<open>auto simp: t(1)\<close>)
qed

lemma logout_ok:
  assumes "sessions_ok a"
  shows "sessions_ok (snd (web_auth_logout token a))"
proof (cases "token = None \<or> token = Some []")
  case True
  then show ?thesis using assms by (auto simp: web_auth_logout_def)
next
  case False
  then obtain t where t: "token = Some t" "t \<noteq> []" by auto
  obtain status b where "web_auth_logout (Some t) a = (status, b)" by (rule prod.exhaust)
  with logout_ends_the_session [OF assms t(2)] show ?thesis by (simp add: t(1))
qed

lemma sessions_inv_sess: "sessions_inv s \<Longrightarrow> sess a = sess (sy_auth s) \<Longrightarrow> (\<And>th. th \<in># M \<Longrightarrow> seeded th) \<Longrightarrow>
    sessions_inv (s\<lparr>sy_auth := a, sy_threads := M\<rparr>)"
  using sess_same(3) [of a "sy_auth s"] by (simp add: sessions_inv_def)

lemma step_sessions:
  assumes "auth_step pbkdf2 s s'" "sessions_inv s"
  shows "sessions_inv s'"
  using assms
proof (induction rule: auth_step.induct)
  case (setup_works s p peer M salt seed work kdf_ok save_ok)
  have "\<forall>v sd. work = Inr (v, sd) \<longrightarrow> length (sd_token sd) = 32"
    using setup_works(3,4) by (auto simp: setup_work_def drawn_seed_def split: sum.splits option.splits if_splits)
  then show ?case using setup_works by (simp add: sessions_inv_def)
next
  case (login_works s p v g k peer M seed kdf_ok)
  have "\<forall>sd. login_work pbkdf2 kdf_ok seed v p = Inr sd \<longrightarrow> length (sd_token sd) = 32"
    using login_works(2) by (auto simp: login_work_def drawn_seed_def Let_def split: if_splits option.splits)
  then show ?case using login_works by (simp add: sessions_inv_def)
next
  case (setup_leaves s work peer M now r a n)
  note l = setup_leave_sess [OF setup_leaves(2)]
  have "sessions_ok a"
  proof (cases work)
    case (Inl st)
    then show ?thesis using l setup_leaves(4) sess_same(3) [of a "sy_auth s"] by (simp add: sessions_inv_def)
  next
    case (Inr q)
    obtain v seed where q: "q = (v, seed)" by (rule prod.exhaust)
    from l obtain b where b: "sess b = sess (sy_auth s)" "a = snd (session_issue seed now b)" by (auto simp: Inr q)
    have "sessions_ok b" "length (sd_token seed) = 32" using setup_leaves(1,4) sess_same(3) [OF b(1)] by (simp_all add: sessions_inv_def Inr q)
    then show ?thesis unfolding b(2) by (rule session_issue_ok)
  qed
  then show ?case using setup_leaves(1,4) by (simp add: sessions_inv_def)
next
  case (login_leaves s p v g k work peer M now r a)
  have "sessions_ok a"
    using login_leave_sess [OF login_leaves(2)]
  proof
    assume "sess a = sess (sy_auth s)"
    then show ?thesis using login_leaves(3) sess_same(3) [of a "sy_auth s"] by (simp add: sessions_inv_def)
  next
    assume "\<exists>seed b. work = Inr seed \<and> sess b = sess (sy_auth s) \<and> a = snd (session_issue seed now b)"
    then obtain seed b where b: "work = Inr seed" "sess b = sess (sy_auth s)" "a = snd (session_issue seed now b)" by blast
    have "sessions_ok b" "length (sd_token seed) = 32" using login_leaves(1,3) sess_same(3) [OF b(2)] by (simp_all add: sessions_inv_def b(1))
    then show ?thesis unfolding b(3) by (rule session_issue_ok)
  qed
  then show ?case using login_leaves(1,3) by (simp add: sessions_inv_def)
next
  case (run_leaves s work M r a)
  note l = run_leave_sess [OF run_leaves(2)]
  have "sessions_ok a"
  proof (cases work)
    case (Inl st)
    then show ?thesis using l run_leaves(3) sess_same(3) [of a "sy_auth s"] by (simp add: sessions_inv_def)
  next
    case (Inr v)
    then obtain b where "sess b = sess (sy_auth s)" "sess a = sess (sessions_end_all b)" using l by auto
    then show ?thesis using run_leaves(3) sess_same(3) [of a "sessions_end_all b"] sess_same(3) [of b "sy_auth s"] sessions_end_all_ok [of b]
      by (simp add: sessions_inv_def)
  qed
  then show ?case using run_leaves(1,3) by (simp add: sessions_inv_def)
next
  case (session_resolved s token now)
  then show ?case by (simp add: sessions_inv_def resolve_ok)
next
  case (session_logged_out s token)
  then show ?case by (simp add: sessions_inv_def logout_ok)
next
  case (change_abandoned s)
  then show ?case using sess_same(3) [OF sess_enter(6) [of "sy_auth s"]] by (simp add: sessions_inv_def)
qed (auto simp: sessions_inv_def dest!: sess_enter(1-5) sess_same(3))

theorem reachable_sessions: "auth_reachable pbkdf2 s \<Longrightarrow> sessions_inv s"
proof (induction rule: auth_reachable.induct)
  case (boot store raw s)
  have "sess (sy_auth s) = sess wiped_auth"
    using boot by (auto simp: auth_booted_def web_auth_init_def Let_def sess_def dest!: sym [of _ "sy_auth s"] split: option.splits if_splits)
  then have "sessions_ok (sy_auth s)" using sess_same(3) [of "sy_auth s" wiped_auth] wiped_sessions_ok by simp
  moreover have "sy_threads s = {#}" using boot by (simp add: auth_booted_def)
  ultimately show ?case by (simp add: sessions_inv_def)
qed (rule step_sessions)

end
