(* ===== verification/Web_Auth_Properties.thy ===== *)
theory Web_Auth_Properties
  imports Web_Auth_Sessions
begin

text \<open>
  The properties of the session module, and a concrete device on which they are instantiated.
\<close>

section \<open>A concrete device\<close>

text \<open>
  A device whose key derivation is constant, with an administrator in its store: the states that the runs below pass
  through, each reached by steps of the model.
\<close>

definition demo_kdf :: kdf where "demo_kdf p salt iterations = replicate 32 0"
definition demo_verifier :: "byte list" where "demo_verifier = verifier_encode 3000 (replicate 16 0) (replicate 32 0)"
definition demo_password :: "byte list" where "demo_password = bytes_of ''correct horse battery''"
definition demo_seed :: session_seed where "demo_seed = \<lparr>sd_token = replicate 32 0, sd_csrf = replicate 32 0\<rparr>"

definition demo_admin :: web_auth where
  "demo_admin = wiped_auth\<lparr>wa_platform := True, wa_verifier := demo_verifier, wa_phase := PHASE_ADMIN\<rparr>"

definition demo_system :: "web_auth \<Rightarrow> auth_thread multiset \<Rightarrow> auth_system" where
  "demo_system a M = \<lparr>sy_auth = a, sy_store = Some demo_verifier, sy_threads = M, sy_installs = 0, sy_admins = 1\<rparr>"

lemma demo_system_fields [simp]: "sy_auth (demo_system a M) = a" "sy_store (demo_system a M) = Some demo_verifier"
  "sy_threads (demo_system a M) = M" "sy_installs (demo_system a M) = 0" "sy_admins (demo_system a M) = 1"
  "(demo_system a M)\<lparr>sy_auth := b, sy_threads := N\<rparr> = demo_system b N" "(demo_system a M)\<lparr>sy_threads := N\<rparr> = demo_system a N"
  "(demo_system a M)\<lparr>sy_auth := b\<rparr> = demo_system b M"
  by (simp_all add: demo_system_def)

lemma demo_kdf_fills: "kdf_fills demo_kdf"
  by (simp add: kdf_fills_def demo_kdf_def WEB_AUTH_DERIVED_LEN_def del: replicate_Suc)

lemma demo_decodes: "verifier_decode demo_verifier = Some (3000, replicate 16 0, replicate 32 0)"
  unfolding demo_verifier_def
  by (rule verifier_decode_encode)
    (simp_all add: WEB_AUTH_SALT_LEN_def WEB_AUTH_DERIVED_LEN_def CONFIG_WEB_AUTH_PBKDF2_MAX_ITERATIONS_def del: replicate_Suc)

lemma demo_checks: "verify_against demo_kdf True demo_verifier p = WEB_AUTH_OK"
  by (simp add: verify_against_def demo_decodes demo_kdf_def equal_ct_take WEB_AUTH_DERIVED_LEN_def del: replicate_Suc)

lemma demo_verifier_length: "length demo_verifier = WEB_AUTH_VERIFIER_LEN"
  by (simp add: demo_verifier_def verifier_encode_length WEB_AUTH_SALT_LEN_def WEB_AUTH_DERIVED_LEN_def del: replicate_Suc)

lemma demo_boots: "auth_reachable demo_kdf (demo_system demo_admin {#})"
proof (rule boot)
  show "auth_booted (Some demo_verifier) (replicate 24 0) (demo_system demo_admin {#})"
    using demo_decodes demo_verifier_length by (simp add: auth_booted_def web_auth_init_def demo_admin_def Let_def del: replicate_Suc)
qed

lemma demo_unlimited:
  assumes "wa_global_count a = 0" "\<forall>s \<in> set (wa_peers a). \<not> ps_used s"
  shows "rate_allows peer now a = (None, a)" "rate_success peer a = a"
proof -
  have p: "global_prune now a = a" using assms(1) by (simp add: global_prune_def)
  have n: "peer_find peer a = None" using assms(2) by (simp add: peer_find_def)
  then show "rate_success peer a = a" by (simp add: rate_success_def)
  show "rate_allows peer now a = (None, a)"
    using assms(1) n by (simp add: rate_allows_def p Let_def CONFIG_WEB_AUTH_GLOBAL_FAILURES_def)
qed

lemma demo_quiet: "wa_global_count demo_admin = 0" "\<forall>s \<in> set (wa_peers demo_admin). \<not> ps_used s"
  by (simp_all add: demo_admin_def wiped_auth_def no_peer_slot_def)

lemma demo_admin_fields [simp]: "wa_phase demo_admin = PHASE_ADMIN" "wa_change demo_admin = CHANGE_IDLE"
  "wa_verifier demo_admin = demo_verifier" "wa_generation demo_admin = 0" "wa_platform demo_admin"
  by (simp_all add: demo_admin_def wiped_auth_def)

lemma demo_password_fits: "password_fits (Some demo_password) 12" "password_fits (Some demo_password) 1"
  by code_simp+

subsection \<open>A login\<close>

definition demo_checked :: auth_system where
  "demo_checked = demo_system demo_admin {#Login_Checked demo_password demo_verifier 0 0 (Inr demo_seed) no_peer#}"

lemma demo_login: "auth_reachable demo_kdf demo_checked"
proof -
  have e: "login_enter (Some demo_password) no_peer 0 demo_admin = (Inr (demo_password, demo_verifier, 0), demo_admin)"
    using demo_password_fits(2) by (simp add: login_enter_def demo_unlimited [OF demo_quiet])
  have "auth_step demo_kdf (demo_system demo_admin {#}) (demo_system demo_admin {#Login_Deriving demo_password demo_verifier 0 0 no_peer#})"
    using login_reads [where s = "demo_system demo_admin {#}" and ?pbkdf2.0 = demo_kdf, simplified, OF e] by simp
  with demo_boots have r: "auth_reachable demo_kdf (demo_system demo_admin {#Login_Deriving demo_password demo_verifier 0 0 no_peer#})"
    by (rule auth_reachable.step)
  have "login_work demo_kdf True (Some demo_seed) demo_verifier demo_password = Inr demo_seed"
    by (simp add: login_work_def demo_checks)
  moreover have "drawn_seed (Some demo_seed)" by (simp add: drawn_seed_def demo_seed_def del: replicate_Suc)
  ultimately have "auth_step demo_kdf (demo_system demo_admin {#Login_Deriving demo_password demo_verifier 0 0 no_peer#}) demo_checked"
    using login_works [where s = "demo_system demo_admin {#Login_Deriving demo_password demo_verifier 0 0 no_peer#}" and M = "{#}"
        and seed = "Some demo_seed" and kdf_ok = True and ?pbkdf2.0 = demo_kdf] by (simp add: demo_checked_def)
  with r show ?thesis by (rule auth_reachable.step)
qed

definition demo_signed_in :: web_auth where
  "demo_signed_in = snd (session_issue demo_seed 0 demo_admin)"

lemma demo_login_answers: "login_leave 0 (Inr demo_seed) no_peer 0 demo_admin =
    ((answer WEB_AUTH_OK, Some (fst (session_issue demo_seed 0 demo_admin))), demo_signed_in)"
  by (simp add: login_leave_def demo_unlimited [OF demo_quiet] demo_signed_in_def split_beta)

lemma demo_session: "auth_reachable demo_kdf (demo_system demo_signed_in {#})"
proof -
  have l: "login_leave 0 (Inr demo_seed) no_peer 0 (sy_auth demo_checked) =
      ((answer WEB_AUTH_OK, Some (fst (session_issue demo_seed 0 demo_admin))), demo_signed_in)"
    by (simp add: demo_checked_def demo_login_answers)
  have "auth_step demo_kdf demo_checked (demo_system demo_signed_in {#})"
    using login_leaves [where s = demo_checked and M = "{#}" and ?pbkdf2.0 = demo_kdf, OF _ l] by (simp add: demo_checked_def)
  with demo_login show ?thesis by (rule auth_reachable.step)
qed


lemma demo_token: "base64url (replicate 32 0) \<noteq> []"
proof -
  have "length (base64url (replicate 32 0)) = 43" by (simp add: base64url_length del: replicate_Suc)
  then show ?thesis by auto
qed

subsection \<open>A password change\<close>



subsection \<open>A patient guesser\<close>










section \<open>What the state machine promises\<close>



text \<open>C9: A login that answers OK has derived its password against the verifier that is in force at that moment, whatever
  happened while it derived; so no session is ever issued for a password that was replaced meanwhile. (Between two boots fewer
  than \<open>2 ^ 32\<close> passwords are set, the range of the generation counter.)\<close>

theorem login_is_checked_against_the_password_in_force:
  assumes "auth_reachable pbkdf2 s" "kdf_fills pbkdf2" "sy_installs s < 2 ^ 32"
    "Login_Checked password v g k work peer \<in># sy_threads s"
    "login_leave g work peer now (sy_auth s) = ((answer WEB_AUTH_OK, session), a)"
  shows "verify_against pbkdf2 True (wa_verifier (sy_auth s)) password = WEB_AUTH_OK"
proof -
  note l = login_in_flight [OF reachable_inv [OF assms(1,2)] assms(4)]
  have g: "g = wa_generation (sy_auth s)" using assms(5) by (auto simp: login_leave_def split: if_splits)
  have w: "\<not> isl work" using l(3) assms(5) g by (cases work) (auto simp: login_leave_def)
  have k: "(of_nat k :: u32) = of_nat (sy_installs s)" "k \<le> sy_installs s" using l(1,2) g by (simp_all add: login_ok_def)
  moreover have "unat (of_nat k :: u32) = k" "unat (of_nat (sy_installs s) :: u32) = sy_installs s"
    using assms(3) k(2) by (intro unat_of_nat_small; simp)+
  ultimately have "k = sy_installs s" by metis
  then have "v = wa_verifier (sy_auth s)" using l(2) by (simp add: login_ok_def)
  then show ?thesis using l(4) [OF w] by simp
qed

theorem login_is_checked_against_the_password_in_force_witness:
  "verify_against demo_kdf True (wa_verifier (sy_auth demo_checked)) demo_password = WEB_AUTH_OK"
  by (rule login_is_checked_against_the_password_in_force [OF demo_login demo_kdf_fills, where v = demo_verifier and g = 0 and k = 0
        and work = "Inr demo_seed" and peer = no_peer and now = 0 and a = demo_signed_in])
    (simp_all add: demo_checked_def demo_login_answers)





definition carries_token :: "string \<Rightarrow> auth_thread multiset \<Rightarrow> bool" where
  "carries_token t M \<longleftrightarrow> (\<exists>th \<in># M. \<exists>seed. carries seed th \<and> base64url (sd_token seed) = t)"

text \<open>Runs in which no request in flight carries a session seed of this token.\<close>

inductive run_without :: "kdf \<Rightarrow> string \<Rightarrow> auth_system \<Rightarrow> auth_system \<Rightarrow> bool" for pbkdf2 t where
  run_refl: "run_without pbkdf2 t s s"
| run_step: "run_without pbkdf2 t s s' \<Longrightarrow> \<not> carries_token t (sy_threads s') \<Longrightarrow> auth_step pbkdf2 s' s'' \<Longrightarrow> run_without pbkdf2 t s s''"

lemma run_without_not_live:
  "run_without pbkdf2 t s s' \<Longrightarrow> \<not> live t (sy_auth s) \<Longrightarrow> auth_reachable pbkdf2 s \<Longrightarrow> \<not> live t (sy_auth s') \<and> auth_reachable pbkdf2 s'"
proof (induction rule: run_without.induct)
  case (run_step s s' s'')
  then show ?case using step_live [OF run_step(3), of t] auth_reachable.step by (auto simp: carries_token_def)
qed simp

text \<open>C19: After a logout the token is never accepted again, through any interleaving of requests, as long as the random source
  does not draw that very token anew.\<close>

theorem ended_session_stays_ended:
  assumes "auth_reachable pbkdf2 s" "t \<noteq> []" "web_auth_logout (Some t) (sy_auth s) = (status, a)"
    "run_without pbkdf2 t (s\<lparr>sy_auth := a\<rparr>) s'"
  shows "fst (fst (web_auth_resolve (Some t) now (sy_auth s'))) \<noteq> WEB_AUTH_OK"
proof -
  have ok: "sessions_ok (sy_auth s)" using reachable_sessions [OF assms(1)] by (simp add: sessions_inv_def)
  have "auth_step pbkdf2 s (s\<lparr>sy_auth := snd (web_auth_logout (Some t) (sy_auth s))\<rparr>)" by (rule session_logged_out)
  then have r: "auth_reachable pbkdf2 (s\<lparr>sy_auth := a\<rparr>)" using assms(1,3) auth_reachable.step by simp
  have "\<not> live t (sy_auth (s\<lparr>sy_auth := a\<rparr>))" using logout_ends_the_session [OF ok assms(2,3)] by simp
  from run_without_not_live [OF assms(4) this r] have s': "\<not> live t (sy_auth s')" "sessions_ok (sy_auth s')"
    using reachable_sessions by (auto simp: sessions_inv_def)
  then have "session_with (Some t) (sy_auth s') = None" using session_with_found(2) by blast
  then show ?thesis by (simp add: web_auth_resolve_def)
qed

theorem ended_session_stays_ended_witness:
  "fst (fst (web_auth_resolve (Some (base64url (replicate 32 0))) 5 (snd (web_auth_logout (Some (base64url (replicate 32 0))) demo_signed_in)))) \<noteq> WEB_AUTH_OK"
proof -
  let ?a = "snd (web_auth_logout (Some (base64url (replicate 32 0))) demo_signed_in)"
  have "web_auth_logout (Some (base64url (replicate 32 0))) (sy_auth (demo_system demo_signed_in {#})) = (fst (web_auth_logout (Some (base64url (replicate 32 0))) demo_signed_in), ?a)"
    by simp
  from ended_session_stays_ended [OF demo_session demo_token this run_refl, of 5] show ?thesis by simp
qed





lemma utf8_of_length: "length (utf8_of c) \<le> 4"
  by (simp add: utf8_of_def)

text \<open>C29: A password is accepted exactly when its bytes are the UTF-8 encoding of Unicode scalar values other than NUL, at least
  as many as asked and at most 128; the byte limit excludes nothing of that.\<close>

theorem password_policy_counts_characters:
  "password_fits (Some p) n \<longleftrightarrow> (\<exists>cs. text_of_chars p cs \<and> n \<le> length cs \<and> length cs \<le> 128)"
proof -
  have short: "length p \<le> WEB_AUTH_PASSWORD_MAX_BYTES" if "text_of_chars p cs" "length cs \<le> 128" for cs
  proof -
    have "length (concat (map utf8_of cs)) \<le> 4 * length cs" by (induction cs) (use utf8_of_length in \<open>auto intro: add_mono\<close>)
    then show ?thesis using that by (simp add: text_of_chars_def WEB_AUTH_PASSWORD_MAX_BYTES_def WEB_AUTH_PASSWORD_MAX_CHARS_def)
  qed
  show ?thesis
  proof (cases "utf8_chars p")
    case None
    then show ?thesis using utf8_chars_counts [of p] by (auto simp: password_fits_def)
  next
    case (Some m)
    then obtain cs where "text_of_chars p cs" "length cs = m" using utf8_chars_counts by blast
    moreover have "length cs' = m" if "text_of_chars p cs'" for cs' using utf8_chars_complete [OF that] Some by simp
    ultimately show ?thesis using short Some
      by (auto simp: password_fits_def WEB_AUTH_PASSWORD_MAX_CHARS_def not_less [symmetric])
  qed
qed

text \<open>C38: The credential store's bytes are accepted exactly when they are what \<open>verifier_encode\<close> writes for some salt, derived key
  and iteration count between 1 and a million, and these are what is read back.\<close>

theorem verifier_reads_back_exactly:
  "verifier_decode inp = Some (iterations, salt, derived) \<longleftrightarrow>
     inp = verifier_encode iterations salt derived \<and> length salt = 16 \<and> length derived = 32 \<and> iterations \<noteq> 0 \<and> iterations \<le> 1000000"
  using verifier_decode_exact [of inp iterations salt derived] verifier_decode_encode [of salt derived iterations]
  by (auto simp: verifier_lengths CONFIG_WEB_AUTH_PBKDF2_MAX_ITERATIONS_def)

end
