(* ===== verification/Spec2Isabelle.thy ===== *)
theory Spec2Isabelle
  imports Api_Validation Job_Manager Network_Validate Coprocessor_Manager Esp32_Log_Source Log_Store_Properties Device_Config_Properties Json_Reader_Properties Json_Response Web_Auth_Properties
begin

text \<open>
  Verification library of the Cedar switch firmware: a smart power switch whose main processor runs Zephyr and
  owns an ESP32 coprocessor for radio. The firmware's own logic lives in small C modules under
  \<^verbatim>\<open>src/modules/*/lib\<close>, written free of devices: clocks, locks, storage and drivers are injected by the services
  of \<^verbatim>\<open>src/src/services\<close>. The library models those modules one by one, each in its own theory, and this theory
  collects them.

  Parts of the program and their theories.

  \<^item> \<^verbatim>\<open>modules/api-validation/lib/api_validation.c\<close>: \<open>Api_Validation\<close>. The contract's error codes with their HTTP
    status, the rejection value \<^verbatim>\<open>struct api_error\<close> with its bounded list of field errors, request identifiers,
    the text validators, JSON escaping and rendering into a caller's buffer, IPv4 and IPv6 parsers and subnet
    rules. Shown: rendering is all or nothing, escaping reads back, the parsers accept exactly the canonical
    spellings, identifiers are distinct, subnets agree with network numbers. Locales \<open>bounded_appender\<close> (an append
    into a bounded buffer) and \<open>error_sink\<close> (a bounded list of problems) are interpreted on the code's own
    appenders and on \<^verbatim>\<open>api_error_add_field\<close>.

  \<^item> \<^verbatim>\<open>modules/job-manager/lib/job_manager.c\<close>: \<open>Job_Manager\<close>. Two pools (full records and the compact records that
    outlive them), creation with idempotency keys, eviction, the lifecycle, progress and cancellation. Shown: the
    pool invariant through every operation, states follow the lifecycle, an unfinished job is never lost,
    retried requests find their job, creation is refused exactly when every slot holds an unfinished job.

  \<^item> \<^verbatim>\<open>modules/network-manager/lib/network_validate.c\<close>: \<open>Network_Validate\<close>. The validator of a proposed
    configuration, written as the code writes it and refined against a declarative policy; every refusal names a
    field; the health test and the choice of the default interface. Problems go to the \<open>error_sink\<close> of
    \<open>Api_Validation\<close>.

  \<^item> \<^verbatim>\<open>modules/coprocessor-manager/lib/coprocessor_manager.c\<close>: \<open>Coprocessor_Manager\<close>. Ownership of the ESP32's UART
    and reset line over an arbitrary injected platform; the trace of platform calls is part of the state. Shown:
    the invariant, every outcome of a mode switch, the order of markers, ownership changes only after the old owner
    is quiet, bounded sleeping, and, over an interleaving of single atomic accesses, mutual exclusion of the
    manager's thread and the network threads.

  \<^item> \<^verbatim>\<open>modules/esp32-log-source/lib/esp32_log_source.c\<close>: \<open>Esp32_Log_Source\<close>. UART bytes become log lines: UTF-8
    replacement, escape sequences, line ends, the ROM banner matcher, the ESP-IDF prefix, truncation, idle flush.
    Shown: every line that comes out is clean and well formed, the split of the stream into pieces does not matter,
    the banner starts its own line, printable lines come out once.

  \<^item> \<^verbatim>\<open>modules/log-store/lib/log_store.c\<close>: \<open>Log_Types\<close> (enums shared with the two log sources), \<open>Log_Store\<close> (rings,
    record layout, append with eviction, losses, statistics), \<open>Log_Store_Readers\<close> (reads interleaved with appends,
    the walk backwards), \<open>Log_Store_Text\<close> (base64url cursors, the cut of UTF-8 text), \<open>Log_Store_Properties\<close>. Shown:
    the rings always hold whole records, an append drops only the oldest, a reader gives every match once and in
    order or says how many were lost, cursors read back.

  \<^item> \<^verbatim>\<open>modules/device-config-store/lib/device_config_store.c\<close>: \<open>Device_Config_Store\<close> (records, checksums, slots,
    boot, transactions), \<open>Device_Config_Recovery\<close> (the contract of storage that may fail at any call, locales
    \<open>slot_storage\<close> and \<open>rebootable\<close>, and what each operation leaves in it), \<open>Netcfg_Store\<close> (the real back end,
    \<^verbatim>\<open>src/services/network/netcfg_store.c\<close>, shown to keep that contract over a key-value store),
    \<open>Device_Config_Properties\<close>. Shown: a commit cut by a power loss leaves the old or the new configuration, every
    boot loads a whole generation, only a commit changes the configuration.

  \<^item> \<^verbatim>\<open>modules/web-api/lib/json_reader.c\<close>: \<open>Json_Reader\<close> (the whole reader), \<open>Json_Utf8\<close>, \<open>Json_Strings\<close> and
    \<open>Json_Numbers\<close> (each token against its grammar), \<open>Json_Grammar\<close> and \<open>Json_Syntax\<close> (JSON texts as trees and the
    contract \<open>value_parser\<close> of a function that reads one value, interpreted on \<open>skip_value\<close>), \<open>Json_Body\<close> (reading by a
    schema consumes the same text as skipping), \<open>Json_Tree\<close>, \<open>Json_Tree_Loops\<close> and \<open>Json_Judgement\<close> (a reference decoder
    over trees and its contract \<open>tree_reader\<close>, interpreted on \<open>read_value\<close>), \<open>Json_Order\<close> (the sorted reports),
    \<open>Json_Reader_Properties\<close>. Shown: a body is malformed exactly when it is no text of the grammar, decoding a text
    does what the reference decoder does with its tree, a body is accepted exactly when its tree conforms to the
    schema, and a refused body leaves the destination zeroed.

  \<^item> \<^verbatim>\<open>modules/web-api/lib/json_writer.c\<close>: \<open>Json_Writer\<close> (the bounded writer), \<open>Json_Writer_Text\<close> (the text of a
    value, open documents, the invariant every call keeps), \<open>Json_Response\<close>. Shown: a finished response is a JSON
    text that the reader's grammar accepts, and a response that fits the buffer is written whole.

  \<^item> \<^verbatim>\<open>modules/web-auth/lib/web_auth.c\<close>: \<open>Web_Auth\<close> (the static state and every operation; an operation that
    releases the mutex around the key derivation is split into \<open>_enter\<close>, \<open>_work\<close>, \<open>_leave\<close>), \<open>Web_Auth_Text\<close> (tokens,
    passwords, the stored verifier), \<open>Web_Auth_Rate\<close> (the two limits on guessing), \<open>Web_Auth_System\<close> (requests in flight
    that interleave with each other and with the credential store, and the invariant of every reachable state),
    \<open>Web_Auth_Sessions\<close> (sessions and tombstones), \<open>Web_Auth_Properties\<close>. Shown: one setup wins, a login is checked
    against the password in force when it ends, a power loss finds the stored administrator, a password change ends
    every session, an ended session is never accepted again, wrong guesses are spaced.

  \<open>Cedar_Prelude\<close> holds what they share: bytes and C strings, \<open>errno\<close>, the error monad, printing, little-endian
  fields, first-match search and the locale \<open>op_machine\<close> of a component driven by operations, which the stateful
  components interpret on their own step functions.

  How the code is represented. Structures are records, enums are datatypes (an extra constructor stands for the
  values outside the enum where a caller may pass one; enum fields that come from bytes stay numbers), fixed-width
  integers are words wherever they can wrap, byte arrays are lists of bytes. A NULL pointer is \<open>None\<close>. A negative
  return is an \<open>errno\<close>, in a sum or an option. Entry points that hold their module's mutex from beginning to end
  are single functions from the state; where a lock is taken and released in the middle, or is not taken, the steps
  are separate and interleave. Readings of clocks and cycle counters are arguments.

  Parameters: everything injected or outside \<^verbatim>\<open>src/\<close>: the platform of the coprocessor manager, the back end and
  \<^verbatim>\<open>crc32_ieee\<close> of the configuration store, the emit callback of the log source, the key derivation, the random
  source and the credential store of the session module, clocks. Hypotheses about them are the locale assumptions
  and named predicates such as \<open>kdf_fills\<close>, each met by a concrete instance in a witness. In \<open>Web_Auth_System\<close> the
  counters \<open>sy_installs\<close> and \<open>sy_admins\<close> and what a request remembers of the verifier it read are ghosts: no operation
  reads them. A store that refuses a verifier keeps the old one, as the interface documents; guesses at the limits
  are taken one after the other, as the single thread of the HTTP server makes them.

  Bounds: loops over arrays and lists are structural recursions. The loops of the JSON reader over members,
  elements and characters carry a bound of one more than the bytes left, and its nesting the bound
  \<^verbatim>\<open>WEB_JSON_MAX_DEPTH\<close> of the code; the lemmas of \<open>value_parser\<close> and \<open>tree_reader\<close> show that the first is always
  enough, since every round consumes a byte. Absolute positions in the log rings are unbounded naturals (a
  \<^verbatim>\<open>uint64_t\<close> of bytes in the code, which a device does not exhaust), uptimes are unbounded integers.

  Not modelled: driver glue and I/O (the boards' flash driver, the PSA driver, UART and GPIO adapters), the HTTP,
  MQTT and Matter stacks, generated code, benchmarks; and the network manager's transaction state machine, the
  settings registry, the routing of the web API, the firmware stores and the updaters, which the library does not
  reach. The manifest lists each with its reason.
\<close>

end
